(* ===== verification/Prelude.thy ===== *)
theory Prelude
  imports Main "HOL-Library.Word" "HOL-Library.List_Lexorder" "HOL-Library.Char_ord"
begin

text \<open>
  Shared vocabulary of the development.

  \<^item> \<open>'a checked\<close> is the outcome of code that carries contract checks
    (\<open>SG_REQUIRE\<close>, \<open>SG_ENSURE\<close>, \<open>SG_INVARIANT\<close> of \<open>include/speedgun-ng/dbc.hpp\<close>): \<open>None\<close> is a
    violated contract, which ends the process under the default enforcing semantic,
    \<open>Some v\<close> is a return.
  \<^item> \<open>'a expected\<close> is \<open>std::expected<'a, Error>\<close>: \<open>Inl\<close> carries the error, \<open>Inr\<close> the value.
  \<^item> \<open>std::size_t\<close> positions are \<open>nat\<close>; \<open>npos\<close> is \<open>None\<close>.

  The string functions are the members of \<open>std::string\<close> and \<open>std::string_view\<close> the sources call.
\<close>

type_synonym u64 = "64 word"
type_synonym u32 = "32 word"

type_synonym 'a checked = "'a option"

record error =
  message :: string
  suggestions :: "string list"

type_synonym 'a expected = "error + 'a"

definition plain_error :: "string \<Rightarrow> error" where
  "plain_error m = \<lparr>message = m, suggestions = []\<rparr>"

text \<open>A text between single quotes, as the messages print it.\<close>

definition quoted :: "string \<Rightarrow> string" where
  "quoted s = CHR 0x27 # s @ [CHR 0x27]"

definition has_value :: "'e + 'a \<Rightarrow> bool" where
  "has_value r = (case r of Inl _ \<Rightarrow> False | Inr _ \<Rightarrow> True)"

named_theorems list_facts "facts on lists, positions and slices the components share"

subsection \<open>Positions\<close>

fun index_of :: "('a \<Rightarrow> bool) \<Rightarrow> 'a list \<Rightarrow> nat option" where
  "index_of p [] = None"
| "index_of p (x # xs) = (if p x then Some 0 else map_option Suc (index_of p xs))"

definition find_char :: "char \<Rightarrow> string \<Rightarrow> nat \<Rightarrow> nat option" where
  "find_char c s pos = map_option (\<lambda>i. pos + i) (index_of (\<lambda>x. x = c) (drop pos s))"

definition rfind_char :: "char \<Rightarrow> string \<Rightarrow> nat option" where
  "rfind_char c s = map_option (\<lambda>i. length s - 1 - i) (index_of (\<lambda>x. x = c) (rev s))"

definition substr :: "string \<Rightarrow> nat \<Rightarrow> nat \<Rightarrow> string" where
  "substr s pos len = take len (drop pos s)"

definition starts_with :: "string \<Rightarrow> string \<Rightarrow> bool" where
  "starts_with s p = (take (length p) s = p)"

lemma index_of_Some:
  "index_of p xs = Some i \<Longrightarrow> i < length xs \<and> p (xs ! i) \<and> (\<forall>j < i. \<not> p (xs ! j))"
proof (induction xs arbitrary: i)
  case Nil
  then show ?case by simp
next
  case (Cons x xs)
  show ?case
  proof (cases "p x")
    case True
    with Cons.prems show ?thesis by simp
  next
    case False
    with Cons.prems obtain k where k: "index_of p xs = Some k" and i: "i = Suc k" by auto
    from Cons.IH [OF k] False show ?thesis
      by (auto simp: i nth_Cons split: nat.splits)
  qed
qed

lemma index_of_None [list_facts]: "index_of p xs = None \<longleftrightarrow> (\<forall>x \<in> set xs. \<not> p x)"
  by (induction xs) auto

lemma index_of_bound: "index_of p xs = Some i \<Longrightarrow> i < length xs"
  by (simp add: index_of_Some)

lemma index_of_append [list_facts]:
  "index_of p (xs @ ys) =
     (case index_of p xs of Some i \<Rightarrow> Some i | None \<Rightarrow> map_option (\<lambda>i. length xs + i) (index_of p ys))"
  by (induction xs; cases "index_of p ys") (auto split: option.splits)

lemma index_of_map: "index_of p (map f xs) = index_of (\<lambda>x. p (f x)) xs"
  by (induction xs) auto

lemma index_ofI: "i < length xs \<Longrightarrow> p (xs ! i) \<Longrightarrow> \<forall>j < i. \<not> p (xs ! j) \<Longrightarrow> index_of p xs = Some i"
proof (induction xs arbitrary: i)
  case Nil
  then show ?case by simp
next
  case (Cons x xs)
  show ?case
  proof (cases i)
    case 0
    with Cons.prems show ?thesis by simp
  next
    case (Suc k)
    with Cons.prems have "index_of p xs = Some k" by (intro Cons.IH) auto
    with Suc Cons.prems show ?thesis by auto
  qed
qed

lemma index_of_fresh: "x \<notin> set xs \<Longrightarrow> index_of (\<lambda>y. y = x) (xs @ [x]) = Some (length xs)"
  by (induction xs) auto

lemma index_of_take:
  "index_of p xs = Some i \<Longrightarrow> \<forall>x \<in> set (take i xs). \<not> p x"
  using index_of_Some [of p xs i] by (auto simp: in_set_conv_nth)

lemma rfind_char_Some:
  assumes "rfind_char c s = Some i"
  shows "i < length s \<and> s ! i = c \<and> (\<forall>j. i < j \<and> j < length s \<longrightarrow> s ! j \<noteq> c)"
proof -
  from assms obtain k where k: "index_of (\<lambda>x. x = c) (rev s) = Some k" and i: "i = length s - 1 - k"
    by (auto simp: rfind_char_def)
  from index_of_Some [OF k] have kl: "k < length s" and kc: "rev s ! k = c"
    and before: "\<forall>j < k. rev s ! j \<noteq> c" by auto
  have "s ! j \<noteq> c" if "i < j" "j < length s" for j
  proof -
    have "length s - 1 - j < k" using that i by linarith
    with before have "rev s ! (length s - 1 - j) \<noteq> c" by blast
    then show ?thesis using that by (simp add: rev_nth)
  qed
  with kl kc show ?thesis by (auto simp: i rev_nth)
qed

lemma rfind_char_None: "rfind_char c s = None \<longleftrightarrow> c \<notin> set s"
  by (auto simp: rfind_char_def index_of_None)

text \<open>The last separator of \<open>p @ c # q\<close> stands before a tail that does not hold it.\<close>

lemma rfind_char_join:
  assumes "c \<notin> set q"
  shows "rfind_char c (p @ c # q) = Some (length p)"
proof -
  have "index_of (\<lambda>x. x = c) (rev q) = None"
    using assms by (auto simp: index_of_None)
  then have "index_of (\<lambda>x. x = c) (rev (p @ c # q)) = Some (length q)"
    by (simp add: index_of_append)
  then show ?thesis by (simp add: rfind_char_def)
qed

lemma starts_with_append [simp]: "starts_with (p @ s) p"
  by (simp add: starts_with_def)

lemma starts_with_iff: "starts_with s p \<longleftrightarrow> (\<exists>t. s = p @ t)"
  unfolding starts_with_def by (metis append_eq_conv_conj append_take_drop_id)

subsection \<open>Decimal text: \<open>std::to_string\<close>\<close>

definition digit_char :: "nat \<Rightarrow> char" where
  "digit_char d = char_of (48 + d)"

fun decimal :: "nat \<Rightarrow> string" where
  "decimal n = (if n < 10 then [digit_char n] else decimal (n div 10) @ [digit_char (n mod 10)])"

declare decimal.simps [simp del]

definition decimal_int :: "int \<Rightarrow> string" where
  "decimal_int i = (if i < 0 then CHR ''-'' # decimal (nat (- i)) else decimal (nat i))"

lemma decimal_nonempty [simp]: "decimal n \<noteq> []"
  by (subst decimal.simps) simp

subsection \<open>Character classes of the C locale\<close>

definition is_digit :: "char \<Rightarrow> bool" where
  "is_digit c \<longleftrightarrow> 48 \<le> (of_char c :: nat) \<and> (of_char c :: nat) \<le> 57"

definition is_upper :: "char \<Rightarrow> bool" where
  "is_upper c \<longleftrightarrow> 65 \<le> (of_char c :: nat) \<and> (of_char c :: nat) \<le> 90"

definition is_lower :: "char \<Rightarrow> bool" where
  "is_lower c \<longleftrightarrow> 97 \<le> (of_char c :: nat) \<and> (of_char c :: nat) \<le> 122"

definition is_alpha :: "char \<Rightarrow> bool" where
  "is_alpha c \<longleftrightarrow> is_upper c \<or> is_lower c"

definition is_alnum :: "char \<Rightarrow> bool" where
  "is_alnum c \<longleftrightarrow> is_alpha c \<or> is_digit c"

definition is_space :: "char \<Rightarrow> bool" where
  "is_space c \<longleftrightarrow> (of_char c :: nat) = 32 \<or> (9 \<le> (of_char c :: nat) \<and> (of_char c :: nat) \<le> 13)"

definition is_xdigit :: "char \<Rightarrow> bool" where
  "is_xdigit c \<longleftrightarrow> is_digit c
     \<or> (65 \<le> (of_char c :: nat) \<and> (of_char c :: nat) \<le> 70)
     \<or> (97 \<le> (of_char c :: nat) \<and> (of_char c :: nat) \<le> 102)"

definition digit_value :: "char \<Rightarrow> nat" where
  "digit_value c =
     (if is_digit c then of_char c - 48
      else if is_upper c then of_char c - 55
      else of_char c - 87)"

definition digits_value :: "nat \<Rightarrow> string \<Rightarrow> nat" where
  "digits_value base s = foldl (\<lambda>v c. base * v + digit_value c) 0 s"

lemma digit_char_digit: "d < 10 \<Longrightarrow> is_digit (digit_char d) \<and> digit_value (digit_char d) = d"
  by (simp add: digit_char_def is_digit_def digit_value_def of_char_of take_bit_eq_mod)

lemma decimal_digits: "\<forall>c \<in> set (decimal n). is_digit c"
proof (induction n rule: decimal.induct)
  case (1 n)
  show ?case
  proof (cases "n < 10")
    case True
    then show ?thesis by (subst decimal.simps) (simp add: digit_char_digit)
  next
    case False
    with 1 show ?thesis by (subst decimal.simps) (auto simp: digit_char_digit)
  qed
qed

lemma digits_value_snoc: "digits_value b (s @ [c]) = b * digits_value b s + digit_value c"
  by (simp add: digits_value_def)

lemma digits_value_decimal [simp]: "digits_value 10 (decimal n) = n"
proof (induction n rule: decimal.induct)
  case (1 n)
  show ?case
  proof (cases "n < 10")
    case True
    then show ?thesis by (subst decimal.simps) (simp add: digit_char_digit digits_value_def)
  next
    case False
    with 1 show ?thesis
      by (subst decimal.simps) (simp add: digit_char_digit digits_value_snoc)
  qed
qed

lemma decimal_inject [simp]: "decimal m = decimal n \<longleftrightarrow> m = n"
  by (metis digits_value_decimal)

end
