(* ===== verification/Ordered_Map.thy ===== *)
theory Ordered_Map
  imports Prelude
begin

text \<open>
  \<open>std::map<K, V>\<close> as the sources use it: iteration runs in key order (byte order for
  \<open>std::string\<close> keys, the order of \<open>HOL-Library.List_Lexorder\<close> over \<open>HOL-Library.Char_ord\<close>),
  \<open>emplace\<close> keeps a value that stands, \<open>insert_or_assign\<close> and \<open>operator[]\<close> assignment replace it.
  The map is the list of its entries in iteration order.
\<close>

type_synonym ('k, 'v) omap = "('k \<times> 'v) list"

definition om_find :: "('k, 'v) omap \<Rightarrow> 'k \<Rightarrow> 'v option" where
  "om_find m k = map_of m k"

definition om_contains :: "('k, 'v) omap \<Rightarrow> 'k \<Rightarrow> bool" where
  "om_contains m k \<longleftrightarrow> om_find m k \<noteq> None"

fun om_emplace :: "'k::linorder \<Rightarrow> 'v \<Rightarrow> ('k, 'v) omap \<Rightarrow> ('k, 'v) omap" where
  "om_emplace k v [] = [(k, v)]"
| "om_emplace k v ((k', v') # m) =
     (if k < k' then (k, v) # (k', v') # m
      else if k = k' then (k', v') # m
      else (k', v') # om_emplace k v m)"

fun om_assign :: "'k::linorder \<Rightarrow> 'v \<Rightarrow> ('k, 'v) omap \<Rightarrow> ('k, 'v) omap" where
  "om_assign k v [] = [(k, v)]"
| "om_assign k v ((k', v') # m) =
     (if k < k' then (k, v) # (k', v') # m
      else if k = k' then (k', v) # m
      else (k', v') # om_assign k v m)"

definition om_wf :: "('k::linorder, 'v) omap \<Rightarrow> bool" where
  "om_wf m \<longleftrightarrow> sorted_wrt (<) (map fst m)"

lemma om_wf_Nil [simp]: "om_wf []"
  by (simp add: om_wf_def)

lemma om_wf_Cons: "om_wf ((k, v) # m) \<longleftrightarrow> (\<forall>k' \<in> fst ` set m. k < k') \<and> om_wf m"
  by (auto simp: om_wf_def)

lemma keys_om_emplace: "fst ` set (om_emplace k v m) = insert k (fst ` set m)"
  by (induction k v m rule: om_emplace.induct) (simp_all add: insert_commute)

lemma keys_om_assign: "fst ` set (om_assign k v m) = insert k (fst ` set m)"
  by (induction k v m rule: om_assign.induct) (simp_all add: insert_commute)

lemma om_wf_emplace: "om_wf m \<Longrightarrow> om_wf (om_emplace k v m)"
proof (induction k v m rule: om_emplace.induct)
  case (1 k v)
  then show ?case by (simp add: om_wf_def)
next
  case (2 k v k' v' m)
  consider "k < k'" | "k = k'" | "k' < k" by (rule linorder_cases)
  then show ?case
  proof cases
    case 1
    with "2.prems" show ?thesis by (auto simp: om_wf_Cons intro: order.strict_trans)
  next
    case 2
    with "2.prems" show ?thesis by simp
  next
    case 3
    with 2 show ?thesis by (auto simp: om_wf_Cons keys_om_emplace)
  qed
qed

lemma om_wf_assign: "om_wf m \<Longrightarrow> om_wf (om_assign k v m)"
proof (induction k v m rule: om_assign.induct)
  case (1 k v)
  then show ?case by (simp add: om_wf_def)
next
  case (2 k v k' v' m)
  consider "k < k'" | "k = k'" | "k' < k" by (rule linorder_cases)
  then show ?case
  proof cases
    case 1
    with "2.prems" show ?thesis by (auto simp: om_wf_Cons intro: order.strict_trans)
  next
    case 2
    with "2.prems" show ?thesis by (simp add: om_wf_Cons)
  next
    case 3
    with 2 show ?thesis by (auto simp: om_wf_Cons keys_om_assign)
  qed
qed

lemma om_find_Nil [simp]: "om_find [] k = None"
  by (simp add: om_find_def)

lemma om_find_Cons: "om_find ((l, w) # m) k = (if k = l then Some w else om_find m k)"
  by (simp add: om_find_def)

lemma om_find_low:
  fixes k :: "'k::linorder"
  shows "\<forall>l \<in> fst ` set m. k < l \<Longrightarrow> om_find m k = None"
  unfolding om_find_def map_of_eq_None_iff using less_irrefl [of k] by blast

lemma om_find_emplace:
  "om_wf m \<Longrightarrow>
   om_find (om_emplace k v m) k' =
     (if k' = k then Some (case om_find m k of Some w \<Rightarrow> w | None \<Rightarrow> v) else om_find m k')"
proof (induction k v m rule: om_emplace.induct)
  case (1 k v)
  then show ?case by (simp add: om_find_Cons)
next
  case (2 k v l w m)
  from "2.prems" have wf: "om_wf m" and low: "\<forall>l' \<in> fst ` set m. l < l'"
    by (simp_all add: om_wf_Cons)
  consider "k < l" | "k = l" | "l < k" by (rule linorder_cases)
  then show ?case
  proof cases
    case 1
    with low have "om_find m k = None"
      by (intro om_find_low) (blast intro: order.strict_trans)
    with 1 show ?thesis by (auto simp: om_find_Cons)
  next
    case 2
    then show ?thesis by (simp add: om_find_Cons)
  next
    case 3
    then have "\<not> k < l" and "k \<noteq> l" by auto
    with "2.IH" wf show ?thesis by (auto simp: om_find_Cons)
  qed
qed

lemma om_find_assign:
  "om_wf m \<Longrightarrow> om_find (om_assign k v m) k' = (if k' = k then Some v else om_find m k')"
  by (induction k v m rule: om_assign.induct) (auto simp: om_find_Cons om_wf_Cons)

definition om_erase :: "'k \<Rightarrow> ('k, 'v) omap \<Rightarrow> ('k, 'v) omap" where
  "om_erase k m = filter (\<lambda>e. fst e \<noteq> k) m"

lemma om_find_erase: "om_find (om_erase k m) k' = (if k' = k then None else om_find m k')"
  by (induction m) (auto simp: om_erase_def om_find_def)

lemma om_wf_erase: "om_wf m \<Longrightarrow> om_wf (om_erase k m)"
  by (induction m) (auto simp: om_erase_def om_wf_Cons)

lemma om_assign_twice: "om_wf m \<Longrightarrow> om_find m k = Some v \<Longrightarrow> om_assign k v m = m"
proof (induction k v m rule: om_assign.induct)
  case (2 k v l w m)
  then show ?case using om_find_low [of m k] by (force simp: om_find_Cons om_wf_Cons split: if_splits)
qed simp

lemma om_erase_absent: "om_find m k = None \<Longrightarrow> om_erase k m = m"
  by (induction m) (auto simp: om_erase_def om_find_def split: if_splits)

lemma om_find_Some_in: "om_find m k = Some v \<Longrightarrow> (k, v) \<in> set m"
  by (simp add: om_find_def map_of_SomeD)

lemma om_assign_in: "x \<in> set (om_assign k v m) \<Longrightarrow> x = (k, v) \<or> x \<in> set m"
  by (induction k v m rule: om_assign.induct) (auto split: if_splits)

lemma om_wf_distinct: "om_wf m \<Longrightarrow> distinct (map fst m)"
  by (simp add: om_wf_def strict_sorted_iff)

lemma om_in_find: "om_wf m \<Longrightarrow> (k, v) \<in> set m \<Longrightarrow> om_find m k = Some v"
  by (simp add: om_find_def om_wf_distinct)

subsection \<open>The interface: a table filled by insertion\<close>

text \<open>
  What the components rely on when they fill a table one entry at a time: a look-up after an
  insertion, and the invariant every insertion keeps. \<open>keep\<close> says whether an insertion at a key
  that stands leaves the standing value (\<open>emplace\<close>) or replaces it (\<open>insert_or_assign\<close>).
\<close>

locale table =
  fixes lookup :: "'m \<Rightarrow> 'k \<Rightarrow> 'v option"
    and insert_at :: "'k \<Rightarrow> 'v \<Rightarrow> 'm \<Rightarrow> 'm"
    and invar :: "'m \<Rightarrow> bool"
    and keep :: bool
  assumes invar_insert: "invar m \<Longrightarrow> invar (insert_at k v m)"
    and lookup_same: "invar m \<Longrightarrow> lookup (insert_at k v m) k =
           (if keep \<and> lookup m k \<noteq> None then lookup m k else Some v)"
    and lookup_other: "invar m \<Longrightarrow> k' \<noteq> k \<Longrightarrow> lookup (insert_at k v m) k' = lookup m k'"
begin

lemma invar_fill: "invar m \<Longrightarrow> invar (fold (\<lambda>(k, v). insert_at k v) es m)"
  by (induction es arbitrary: m) (auto intro: invar_insert)

lemma lookup_dom: "invar m \<Longrightarrow> lookup (insert_at k v m) k' \<noteq> None \<longleftrightarrow> k' = k \<or> lookup m k' \<noteq> None"
  by (cases "k' = k") (auto simp: lookup_same lookup_other)

lemma lookup_fill_dom:
  "invar m \<Longrightarrow> lookup (fold (\<lambda>(k, v). insert_at k v) es m) k \<noteq> None \<longleftrightarrow>
     k \<in> fst ` set es \<or> lookup m k \<noteq> None"
proof (induction es arbitrary: m)
  case Nil
  then show ?case by simp
next
  case (Cons e es)
  obtain l w where e: "e = (l, w)" by force
  have inv: "invar (insert_at l w m)" using Cons.prems by (rule invar_insert)
  show ?case
    unfolding e fold_Cons comp_apply prod.case Cons.IH [OF inv] lookup_dom [OF Cons.prems]
    by auto
qed

lemma lookup_fill_other:
  "invar m \<Longrightarrow> k \<notin> fst ` set es \<Longrightarrow> lookup (fold (\<lambda>(k, v). insert_at k v) es m) k = lookup m k"
  by (induction es arbitrary: m) (auto simp: invar_insert lookup_other)

lemma lookup_fill_distinct:
  "invar m \<Longrightarrow> distinct (map fst es) \<Longrightarrow> (k, v) \<in> set es \<Longrightarrow> lookup m k = None \<Longrightarrow>
   lookup (fold (\<lambda>(k, v). insert_at k v) es m) k = Some v"
proof (induction es arbitrary: m)
  case Nil
  then show ?case by simp
next
  case (Cons e es)
  obtain l w where e: "e = (l, w)" by force
  have inv: "invar (insert_at l w m)" using Cons.prems(1) by (rule invar_insert)
  show ?case
  proof (cases "k = l")
    case True
    with Cons.prems have "v = w" and fresh: "k \<notin> fst ` set es" by (force simp: e)+
    with Cons.prems True show ?thesis
      by (simp add: e lookup_fill_other [OF inv] lookup_same)
  next
    case False
    with Cons.prems have "lookup (insert_at l w m) k = None" by (simp add: lookup_other)
    with Cons False inv show ?thesis by (simp add: e)
  qed
qed

end

interpretation emplacing: table om_find om_emplace om_wf True
  by unfold_locales (auto simp: om_wf_emplace om_find_emplace split: option.splits)

interpretation assigning: table om_find om_assign om_wf False
  by unfold_locales (auto simp: om_wf_assign om_find_assign)

lemma emplace_fill_source:
  "om_wf m \<Longrightarrow> om_find (fold (\<lambda>(k, v). om_emplace k v) es m) k = Some v \<Longrightarrow>
   (k, v) \<in> set es \<or> om_find m k = Some v"
proof (induction es arbitrary: m)
  case Nil
  then show ?case by simp
next
  case (Cons e es)
  obtain l w where e: "e = (l, w)" by force
  from Cons.prems have "(k, v) \<in> set es \<or> om_find (om_emplace l w m) k = Some v"
    by (intro Cons.IH) (simp_all add: e om_wf_emplace)
  with Cons.prems(1) show ?case
    by (auto simp: e om_find_emplace split: if_splits option.splits)
qed

lemmas om_facts = om_wf_emplace om_wf_assign om_find_emplace om_find_assign

end
