(* ===== verification/Binary64.thy ===== *)
theory Binary64
  imports Prelude
begin

text \<open>
  The \<open>double\<close> of the sources: IEEE 754 binary64 with round-to-nearest-even, as x86-64 computes it.
  A finite value is a sign, a significand and an exponent, standing for
  \<open>(-1)^s * m * 2^e\<close> with the canonical choice of \<open>e\<close>; the infinities and one NaN complete the type
  (the sources never read a NaN payload).  Every operation computes the exact result over integers
  and rounds once.
\<close>

datatype binary64 = NaN | Infinite bool | Finite bool nat int

definition min_exp :: int where "min_exp = - 1074"
definition max_exp :: int where "max_exp = 971"
definition sig_top :: nat where "sig_top = 2 ^ 52"

definition canonical :: "bool \<Rightarrow> nat \<Rightarrow> int \<Rightarrow> bool" where
  "canonical s m e \<longleftrightarrow> m < 2 * sig_top \<and> min_exp \<le> e \<and> e \<le> max_exp \<and> (sig_top \<le> m \<or> e = min_exp)"

fun well_formed64 :: "binary64 \<Rightarrow> bool" where
  "well_formed64 (Finite s m e) = canonical s m e"
| "well_formed64 _ = True"

definition zero64 :: binary64 where "zero64 = Finite False 0 (- 1074)"

subsection \<open>Rounding a quotient of naturals\<close>

fun bit_len :: "nat \<Rightarrow> nat" where
  "bit_len n = (if n = 0 then 0 else Suc (bit_len (n div 2)))"

declare bit_len.simps [simp del]

definition shift_num :: "nat \<Rightarrow> int \<Rightarrow> nat" where
  "shift_num n e = (if e < 0 then n * 2 ^ nat (- e) else n)"

definition shift_den :: "nat \<Rightarrow> int \<Rightarrow> nat" where
  "shift_den d e = (if e < 0 then d else d * 2 ^ nat e)"

text \<open>The floor of \<open>log2 (n / d)\<close> for positive \<open>n\<close> and \<open>d\<close>.\<close>

definition floor_log2 :: "nat \<Rightarrow> nat \<Rightarrow> int" where
  "floor_log2 n d =
     (let k = int (bit_len n) - int (bit_len d)
      in if shift_den d k \<le> shift_num n k then k else k - 1)"

definition round_even :: "nat \<Rightarrow> nat \<Rightarrow> nat" where
  "round_even n d =
     (let q = n div d; r = n mod d
      in if 2 * r < d then q
         else if 2 * r > d then q + 1
         else if even q then q else q + 1)"

definition round64 :: "bool \<Rightarrow> nat \<Rightarrow> nat \<Rightarrow> binary64" where
  "round64 s n d =
     (if n = 0 then Finite s 0 min_exp
      else
        let e = max min_exp (floor_log2 n d - 52);
            m = round_even (shift_num n e) (shift_den d e);
            m' = (if m = 2 * sig_top then sig_top else m);
            e' = (if m = 2 * sig_top then e + 1 else e)
        in if e' > max_exp then Infinite s else Finite s m' e')"

subsection \<open>Arithmetic\<close>

definition signed_sig :: "bool \<Rightarrow> nat \<Rightarrow> int" where
  "signed_sig s m = (if s then - int m else int m)"

fun dneg :: "binary64 \<Rightarrow> binary64" where
  "dneg NaN = NaN"
| "dneg (Infinite s) = Infinite (\<not> s)"
| "dneg (Finite s m e) = Finite (\<not> s) m e"

fun dadd :: "binary64 \<Rightarrow> binary64 \<Rightarrow> binary64" where
  "dadd NaN _ = NaN"
| "dadd _ NaN = NaN"
| "dadd (Infinite s) (Infinite t) = (if s = t then Infinite s else NaN)"
| "dadd (Infinite s) (Finite _ _ _) = Infinite s"
| "dadd (Finite _ _ _) (Infinite t) = Infinite t"
| "dadd (Finite s m e) (Finite t n f) =
     (let k = min e f;
          x = signed_sig s m * 2 ^ nat (e - k) + signed_sig t n * 2 ^ nat (f - k)
      in if x = 0 then Finite (s \<and> t) 0 min_exp
         else round64 (x < 0) (shift_den (nat \<bar>x\<bar>) k) (shift_num 1 k))"

definition dsub :: "binary64 \<Rightarrow> binary64 \<Rightarrow> binary64" where
  "dsub a b = dadd a (dneg b)"

fun dmul :: "binary64 \<Rightarrow> binary64 \<Rightarrow> binary64" where
  "dmul NaN _ = NaN"
| "dmul _ NaN = NaN"
| "dmul (Infinite s) (Infinite t) = Infinite (s \<noteq> t)"
| "dmul (Infinite s) (Finite t n _) = (if n = 0 then NaN else Infinite (s \<noteq> t))"
| "dmul (Finite s m _) (Infinite t) = (if m = 0 then NaN else Infinite (s \<noteq> t))"
| "dmul (Finite s m e) (Finite t n f) =
     round64 (s \<noteq> t) (shift_den (m * n) (e + f)) (shift_num 1 (e + f))"

fun ddiv :: "binary64 \<Rightarrow> binary64 \<Rightarrow> binary64" where
  "ddiv NaN _ = NaN"
| "ddiv _ NaN = NaN"
| "ddiv (Infinite s) (Infinite t) = NaN"
| "ddiv (Infinite s) (Finite t _ _) = Infinite (s \<noteq> t)"
| "ddiv (Finite s _ _) (Infinite t) = Finite (s \<noteq> t) 0 min_exp"
| "ddiv (Finite s m e) (Finite t n f) =
     (if n = 0 then (if m = 0 then NaN else Infinite (s \<noteq> t))
      else round64 (s \<noteq> t) (shift_den m (e - f)) (shift_num n (e - f)))"

subsection \<open>Comparison\<close>

fun dless :: "binary64 \<Rightarrow> binary64 \<Rightarrow> bool" where
  "dless NaN _ = False"
| "dless _ NaN = False"
| "dless (Infinite s) (Infinite t) = (s \<and> \<not> t)"
| "dless (Infinite s) (Finite _ _ _) = s"
| "dless (Finite _ _ _) (Infinite t) = (\<not> t)"
| "dless (Finite s m e) (Finite t n f) =
     (let k = min e f
      in signed_sig s m * 2 ^ nat (e - k) < signed_sig t n * 2 ^ nat (f - k))"

text \<open>\<open>std::min (a, b)\<close> is \<open>b < a ? b : a\<close>, \<open>std::max (a, b)\<close> is \<open>a < b ? b : a\<close>.\<close>

definition dmin :: "binary64 \<Rightarrow> binary64 \<Rightarrow> binary64" where
  "dmin a b = (if dless b a then b else a)"

definition dmax :: "binary64 \<Rightarrow> binary64 \<Rightarrow> binary64" where
  "dmax a b = (if dless a b then b else a)"

subsection \<open>Conversions\<close>

definition of_u64 :: "u64 \<Rightarrow> binary64" where
  "of_u64 w = round64 False (unat w) 1"

definition one64 :: binary64 where "one64 = round64 False 1 1"

subsection \<open>The rounding is well formed and nearest\<close>

lemma bit_len_0 [simp]: "bit_len 0 = 0"
  by (subst bit_len.simps) simp

lemma bit_len_step: "n > 0 \<Longrightarrow> bit_len n = Suc (bit_len (n div 2))"
  by (subst bit_len.simps) simp

lemma bit_len_bounds: "n > 0 \<Longrightarrow> 2 ^ (bit_len n - 1) \<le> n \<and> n < 2 ^ bit_len n"
proof (induction n rule: less_induct)
  case (less n)
  from less.prems have step: "bit_len n = Suc (bit_len (n div 2))" by (rule bit_len_step)
  show ?case
  proof (cases "n div 2 = 0")
    case True
    with less.prems have "n = 1" and "bit_len n = 1" by (auto simp: step)
    then show ?thesis by simp
  next
    case False
    then have half: "0 < n div 2" by simp
    with less.IH [of "n div 2"] less.prems
    have ih: "2 ^ (bit_len (n div 2) - 1) \<le> n div 2" "n div 2 < 2 ^ bit_len (n div 2)" by simp_all
    from half have "bit_len (n div 2) = Suc (bit_len (n div 2 div 2))" by (rule bit_len_step)
    then have "2 * 2 ^ (bit_len (n div 2) - 1) = (2::nat) ^ bit_len (n div 2)" by simp
    with ih show ?thesis unfolding step by simp linarith
  qed
qed

lemma shift_den_pos: "0 < d \<Longrightarrow> 0 < shift_den d e"
  by (simp add: shift_den_def)

text \<open>The rounded quotient is within half a unit of the exact one.\<close>

lemma round_even_near:
  assumes "0 < d"
  shows "2 * (round_even n d * d) \<le> 2 * n + d" and "2 * n \<le> 2 * (round_even n d * d) + d"
proof -
  define q r where qr: "q = n div d" "r = n mod d"
  have n: "n = q * d + r" and r: "r < d" using assms by (simp_all add: qr)
  have "2 * (round_even n d * d) \<le> 2 * n + d \<and> 2 * n \<le> 2 * (round_even n d * d) + d"
    unfolding round_even_def Let_def qr [symmetric] using r by (auto simp: n algebra_simps)
  then show "2 * (round_even n d * d) \<le> 2 * n + d" and "2 * n \<le> 2 * (round_even n d * d) + d"
    by simp_all
qed

lemma round_even_le:
  assumes "0 < d" and "n \<le> k * d"
  shows "round_even n d \<le> k"
proof -
  have "round_even n d * d < Suc k * d"
    using round_even_near(1) [OF assms(1), of n] assms by simp
  then show ?thesis unfolding mult_less_cancel2 by simp
qed

lemma round_even_ge:
  assumes "0 < d" and "k * d \<le> n"
  shows "k \<le> round_even n d"
proof -
  have "k * d < Suc (round_even n d) * d"
    using round_even_near(2) [OF assms(1), of n] assms by simp
  then show ?thesis unfolding mult_less_cancel2 by simp
qed

lemma round_even_exact: "0 < d \<Longrightarrow> round_even (k * d) d = k"
  by (simp add: round_even_def)

text \<open>The quotient scaled by \<open>floor_log2\<close> lies between one and two.\<close>

lemma power_join: "i \<le> j \<Longrightarrow> 2 ^ i * (2::nat) ^ (j - i) = 2 ^ j"
  by (metis le_add_diff_inverse power_add)

lemma power_pred: "0 < i \<Longrightarrow> (2::nat) ^ i = 2 * 2 ^ (i - 1)"
  by (cases i) simp_all

lemma floor_log2_bounds:
  assumes n: "0 < n" and d: "0 < d"
  shows "shift_den d (floor_log2 n d) \<le> shift_num n (floor_log2 n d)
       \<and> shift_num n (floor_log2 n d) < 2 * shift_den d (floor_log2 n d)"
proof -
  define a b where ab: "a = bit_len n" "b = bit_len d"
  define k where k: "k = int a - int b"
  have na: "2 ^ (a - 1) \<le> n" "n < 2 ^ a" and db: "2 ^ (b - 1) \<le> d" "d < 2 ^ b"
    using bit_len_bounds [OF n] bit_len_bounds [OF d] by (simp_all add: ab)
  have a1: "0 < a" and b1: "0 < b" using n d by (simp_all add: ab bit_len_step)
  have up: "shift_num n k < 2 * shift_den d k"
  proof (cases "k < 0")
    case True
    then have e: "nat (- k) = b - a" and ab': "a \<le> b" by (simp_all add: k)
    have "n * 2 ^ (b - a) < 2 ^ a * 2 ^ (b - a)" using na by simp
    also have "\<dots> = 2 ^ b" using ab' by (rule power_join)
    also have "\<dots> = 2 * 2 ^ (b - 1)" using b1 by (rule power_pred)
    also have "\<dots> \<le> 2 * d" using db by simp
    finally show ?thesis using True by (simp add: shift_num_def shift_den_def e)
  next
    case False
    then have e: "nat k = a - b" and ba': "b \<le> a" by (simp_all add: k)
    have "n < 2 ^ a" by (rule na)
    also have "\<dots> = 2 ^ b * 2 ^ (a - b)" using power_join [OF ba'] by simp
    also have "\<dots> = 2 * 2 ^ (b - 1) * 2 ^ (a - b)" using power_pred [OF b1] by simp
    also have "\<dots> \<le> 2 * d * 2 ^ (a - b)" using db by simp
    finally show ?thesis using False by (simp add: shift_num_def shift_den_def e)
  qed
  have low: "shift_den d (k - 1) \<le> shift_num n (k - 1)"
  proof (cases "k < 1")
    case True
    then have e: "nat (- (k - 1)) = Suc b - a" and ba: "a \<le> Suc b" by (simp_all add: k)
    have "d \<le> 2 ^ b" using db by simp
    also have "(2::nat) ^ b = 2 ^ (a - 1) * 2 ^ (Suc b - a)"
      using power_join [of "a - 1" b] ba a1 by simp
    also have "\<dots> \<le> n * 2 ^ (Suc b - a)" using na by simp
    finally show ?thesis using True e by (simp add: shift_num_def shift_den_def)
  next
    case False
    then have e: "nat (k - 1) = a - Suc b" by (simp add: k)
    have "d * 2 ^ (a - Suc b) \<le> 2 ^ b * 2 ^ (a - Suc b)" using db by simp
    also have "\<dots> = 2 ^ (a - 1)" using power_join [of b "a - 1"] False a1 by (simp add: k)
    also have "\<dots> \<le> n" by (rule na)
    finally show ?thesis using False e by (simp add: shift_num_def shift_den_def)
  qed
  have step: "shift_num n (k - 1) < 2 * shift_den d (k - 1)" if "\<not> shift_den d k \<le> shift_num n k"
  proof (cases "k \<le> 0")
    case True
    then have "nat (- (k - 1)) = Suc (nat (- k))" by simp
    with True that show ?thesis by (cases "k = 0") (auto simp: shift_num_def shift_den_def)
  next
    case False
    then have "nat k = Suc (nat (k - 1))" by simp
    with False that show ?thesis by (auto simp: shift_num_def shift_den_def)
  qed
  show ?thesis
    unfolding floor_log2_def Let_def ab [symmetric] k [symmetric] using up low step by auto
qed

lemma shift_num_eq: "shift_num n e = n * 2 ^ nat (- e)"
  by (simp add: shift_num_def)

lemma shift_den_eq: "shift_den d e = d * 2 ^ nat e"
  by (simp add: shift_den_def)

lemma scale_step:
  assumes "l \<le> e"
  shows "(2::nat) ^ nat (- l) * 2 ^ nat e = 2 ^ nat (e - l) * (2 ^ nat (- e) * 2 ^ nat l)"
proof -
  have "nat (- l) + nat e = nat (e - l) + (nat (- e) + nat l)" using assms by arith
  then show ?thesis by (metis power_add)
qed

lemma scaled_upper:
  assumes n: "0 < n" and d: "0 < d" and e: "floor_log2 n d - 52 \<le> e"
  shows "shift_num n e < 2 ^ 53 * shift_den d e"
proof -
  define l where l: "l = floor_log2 n d"
  define j where j: "j = nat (e + 53 - l)"
  have "(2 ^ nat (- e) * 2 ^ nat l) * n * 2 ^ j = n * 2 ^ j * (2 ^ nat (- e) * 2 ^ nat l)" by simp
  have b: "n * 2 ^ nat (- l) < 2 * (d * 2 ^ nat l)"
    using floor_log2_bounds [OF n d] by (simp add: l shift_num_eq shift_den_eq)
  have exps: "nat (- e) + nat l + nat (e + 52 - l) = nat (- l) + nat e + 52"
    using e unfolding l [symmetric] by arith
  have "n * 2 ^ nat (- e) * 2 ^ (nat l + nat (e + 52 - l)) = n * 2 ^ nat (- l) * 2 ^ (nat e + 52)"
    using exps by (simp add: mult.assoc flip: power_add)
  also have "\<dots> < 2 * (d * 2 ^ nat l) * 2 ^ (nat e + 52)" using b by simp
  also have "\<dots> = 2 ^ 53 * (d * 2 ^ nat e) * 2 ^ nat l" by (simp add: power_add)
  also have "\<dots> \<le> 2 ^ 53 * (d * 2 ^ nat e) * 2 ^ (nat l + nat (e + 52 - l))" by simp
  finally show ?thesis unfolding shift_num_eq shift_den_eq by simp
qed

lemma scaled_lower:
  assumes n: "0 < n" and d: "0 < d" and e: "e = floor_log2 n d - 52"
  shows "2 ^ 52 * shift_den d e \<le> shift_num n e"
proof -
  define l where l: "l = floor_log2 n d"
  have b: "d * 2 ^ nat l \<le> n * 2 ^ nat (- l)"
    using floor_log2_bounds [OF n d] by (simp add: l shift_num_eq shift_den_eq)
  have exps: "nat (- e) + nat l = nat (- l) + nat e + 52"
    using e unfolding l [symmetric] by arith
  have "2 ^ 52 * (d * 2 ^ nat e) * 2 ^ nat l = d * 2 ^ nat l * 2 ^ (nat e + 52)"
    by (simp add: power_add)
  also have "\<dots> \<le> n * 2 ^ nat (- l) * 2 ^ (nat e + 52)" using b by simp
  also have "\<dots> = n * 2 ^ nat (- e) * 2 ^ nat l"
    using exps by (simp add: mult.assoc flip: power_add)
  finally show ?thesis unfolding shift_num_eq shift_den_eq by simp
qed

lemma round64_well_formed:
  assumes d: "0 < d"
  shows "well_formed64 (round64 s n d)"
proof (cases "n = 0")
  case True
  then show ?thesis by (simp add: round64_def canonical_def sig_top_def min_exp_def max_exp_def)
next
  case False
  then have n: "0 < n" by simp
  define e where e: "e = max min_exp (floor_log2 n d - 52)"
  define m where m: "m = round_even (shift_num n e) (shift_den d e)"
  have dp: "0 < shift_den d e" using d by (rule shift_den_pos)
  have "shift_num n e < 2 ^ 53 * shift_den d e"
    using n d by (rule scaled_upper) (simp add: e)
  then have up: "m \<le> 2 * sig_top"
    unfolding m by (intro round_even_le dp) (simp add: sig_top_def)
  have low: "sig_top \<le> m" if "e \<noteq> min_exp"
  proof -
    from that have "e = floor_log2 n d - 52" by (auto simp: e max_def split: if_splits)
    then show ?thesis
      unfolding m sig_top_def using scaled_lower [OF n d] by (intro round_even_ge dp) simp
  qed
  have emin: "min_exp \<le> e" by (simp add: e)
  show ?thesis
    unfolding round64_def Let_def e [symmetric] m [symmetric]
    using False up low emin
    by (auto simp: canonical_def sig_top_def min_exp_def max_exp_def)
qed

subsection \<open>Integers below \<open>2 ^ 53\<close> are exact\<close>

fun represents :: "binary64 \<Rightarrow> int \<Rightarrow> bool" where
  "represents (Finite s m e) x \<longleftrightarrow> signed_sig s m * 2 ^ nat e = x * 2 ^ nat (- e)"
| "represents _ x \<longleftrightarrow> False"

lemma round64_exact:
  assumes d: "0 < d" and n: "n = q * d" and q: "q < 2 ^ 53"
  shows "represents (round64 s n d) (if s then - int q else int q)"
proof (cases "q = 0")
  case True
  then show ?thesis by (simp add: n round64_def signed_sig_def)
next
  case False
  then have np: "0 < n" using d n by simp
  define l where l: "l = floor_log2 n d"
  have b: "d * 2 ^ nat l \<le> n * 2 ^ nat (- l)" "n * 2 ^ nat (- l) < 2 * (d * 2 ^ nat l)"
    using floor_log2_bounds [OF np d] by (simp_all add: l shift_num_eq shift_den_eq)
  have l0: "0 \<le> l"
  proof (rule ccontr)
    assume "\<not> 0 \<le> l"
    then have "nat (- l) = Suc (nat (- l - 1))" and "nat l = 0" by simp_all
    with b(2) have "2 * (n * 2 ^ nat (- l - 1)) < 2 * d" by simp
    moreover have "n \<le> n * 2 ^ nat (- l - 1)" by simp
    ultimately have "n < d" by linarith
    with n False show False by simp
  qed
  from b(1) l0 n d have "2 ^ nat l \<le> q" by (simp add: mult.commute)
  with q have "(2::nat) ^ nat l < 2 ^ 53" by linarith
  then have "nat l < 53" by (rule power_less_imp_less_exp [rotated]) simp
  then have l52: "l \<le> 52" by simp
  define e where e: "e = l - 52"
  have e': "max min_exp (floor_log2 n d - 52) = e"
    using l0 by (simp add: e l min_exp_def)
  have e0: "e \<le> 0" and en: "nat (- e) = 52 - nat l" using l0 l52 by (simp_all add: e)
  have num: "shift_num n e = q * 2 ^ nat (- e) * d" and den: "shift_den d e = d"
    using e0 by (simp_all add: shift_num_eq shift_den_eq n)
  define m where m: "m = q * 2 ^ nat (- e)"
  have rm: "round_even (shift_num n e) (shift_den d e) = m"
    unfolding num den m using d by (rule round_even_exact)
  from b(2) l0 n d have "q < 2 * 2 ^ nat l" by (simp add: mult.commute)
  then have "m < 2 * 2 ^ nat l * 2 ^ (52 - nat l)" unfolding m en by simp
  also have "\<dots> = 2 * sig_top" using power_join [of "nat l" 52] l52 by (simp add: sig_top_def)
  finally have "m \<noteq> 2 * sig_top" by simp
  then have "round64 s n d = Finite s m e"
    unfolding round64_def Let_def e' rm using np e0 by (simp add: max_exp_def)
  then show ?thesis using e0 by (simp add: signed_sig_def m)
qed

lemma of_u64_exact: "unat w < 2 ^ 53 \<Longrightarrow> represents (of_u64 w) (int (unat w))"
  using round64_exact [of 1 "unat w" "unat w" False] by (simp add: of_u64_def)

lemma represents_rescale:
  fixes a x :: int
  assumes r: "a * 2 ^ nat e = x * 2 ^ nat (- e)" and k: "k \<le> e"
  shows "a * 2 ^ nat (e - k) * 2 ^ nat k = x * 2 ^ nat (- k)"
proof -
  have exps: "nat (e - k) + nat k + nat (- e) = nat e + nat (- k)" using k by arith
  have "a * 2 ^ nat (e - k) * 2 ^ nat k * 2 ^ nat (- e) = a * 2 ^ (nat e + nat (- k))"
    using exps by (simp add: mult.assoc flip: power_add)
  also have "\<dots> = x * 2 ^ nat (- k) * 2 ^ nat (- e)"
    using r by (simp add: power_add mult.commute mult.left_commute)
  finally show ?thesis by simp
qed

lemma round64_signed:
  fixes a x :: int
  assumes v: "a * 2 ^ nat k = x * 2 ^ nat (- k)" and bound: "\<bar>x\<bar> < 2 ^ 53"
  shows "represents (round64 (a < 0) (shift_den (nat \<bar>a\<bar>) k) (shift_num 1 k)) x"
proof -
  have pos: "0 < shift_num 1 k" by (simp add: shift_num_eq)
  have "\<bar>a\<bar> * 2 ^ nat k = \<bar>x\<bar> * 2 ^ nat (- k)" using v by (metis abs_mult abs_power2 abs_numeral power_abs)
  then have "nat \<bar>a\<bar> * 2 ^ nat k = nat \<bar>x\<bar> * 2 ^ nat (- k)"
    by (metis nat_mult_distrib abs_ge_zero nat_power_eq nat_numeral zero_le_numeral)
  then have n: "shift_den (nat \<bar>a\<bar>) k = nat \<bar>x\<bar> * shift_num 1 k"
    by (simp add: shift_den_eq shift_num_eq)
  have q: "nat \<bar>x\<bar> < 2 ^ 53" using bound by simp
  have "a < 0 \<longleftrightarrow> x < 0"
    using v by (metis mult_less_0_iff zero_less_power zero_less_numeral order.asym)
  then show ?thesis
    using round64_exact [OF pos n q, of "a < 0"] by (simp split: if_splits)
qed

lemma dadd_exact:
  assumes a: "represents a x" and b: "represents b y" and bound: "\<bar>x + y\<bar> < 2 ^ 53"
  shows "represents (dadd a b) (x + y)"
proof -
  obtain s m e where af: "a = Finite s m e" using a by (cases a) auto
  obtain t n f where bf: "b = Finite t n f" using b by (cases b) auto
  define k where k: "k = min e f"
  define z where z: "z = signed_sig s m * 2 ^ nat (e - k) + signed_sig t n * 2 ^ nat (f - k)"
  have "signed_sig s m * 2 ^ nat (e - k) * 2 ^ nat k = x * 2 ^ nat (- k)"
    using a by (intro represents_rescale) (simp_all add: af k)
  moreover have "signed_sig t n * 2 ^ nat (f - k) * 2 ^ nat k = y * 2 ^ nat (- k)"
    using b by (intro represents_rescale) (simp_all add: bf k)
  ultimately have v: "z * 2 ^ nat k = (x + y) * 2 ^ nat (- k)"
    by (simp add: z distrib_right)
  have sum: "dadd a b = (if z = 0 then Finite (s \<and> t) 0 min_exp
      else round64 (z < 0) (shift_den (nat \<bar>z\<bar>) k) (shift_num 1 k))"
    by (simp only: af bf dadd.simps Let_def k z)
  show ?thesis
  proof (cases "z = 0")
    case True
    with v have "x + y = 0" by simp
    with True show ?thesis by (simp add: sum signed_sig_def)
  next
    case False
    with round64_signed [OF v bound] show ?thesis by (simp add: sum)
  qed
qed

lemma dneg_exact: "represents a x \<Longrightarrow> represents (dneg a) (- x)"
  by (cases a) (auto simp: signed_sig_def)

lemma dsub_exact:
  "represents a x \<Longrightarrow> represents b y \<Longrightarrow> \<bar>x - y\<bar> < 2 ^ 53 \<Longrightarrow> represents (dsub a b) (x - y)"
  using dadd_exact [of a x "dneg b" "- y"] dneg_exact [of b y] by (simp add: dsub_def)

lemma dless_exact:
  assumes a: "represents a x" and b: "represents b y"
  shows "dless a b \<longleftrightarrow> x < y"
proof -
  obtain s m e where af: "a = Finite s m e" using a by (cases a) auto
  obtain t n f where bf: "b = Finite t n f" using b by (cases b) auto
  define k where k: "k = min e f"
  define u v where uv: "u = signed_sig s m * 2 ^ nat (e - k)" "v = signed_sig t n * 2 ^ nat (f - k)"
  have "u * 2 ^ nat k = x * 2 ^ nat (- k)"
    unfolding uv using a by (intro represents_rescale) (simp_all add: af k)
  moreover have "v * 2 ^ nat k = y * 2 ^ nat (- k)"
    unfolding uv using b by (intro represents_rescale) (simp_all add: bf k)
  ultimately have "u * 2 ^ nat k < v * 2 ^ nat k \<longleftrightarrow> x * 2 ^ nat (- k) < y * 2 ^ nat (- k)" by simp
  then have "u < v \<longleftrightarrow> x < y" by simp
  moreover have "dless a b \<longleftrightarrow> u < v"
    by (simp only: af bf dless.simps Let_def k uv)
  ultimately show ?thesis by simp
qed

lemma dmin_exact: "represents a x \<Longrightarrow> represents b y \<Longrightarrow> represents (dmin a b) (min x y)"
  by (auto simp: dmin_def dless_exact min_def)

lemma dmax_exact: "represents a x \<Longrightarrow> represents b y \<Longrightarrow> represents (dmax a b) (max x y)"
  by (auto simp: dmax_def dless_exact max_def)

lemma dmul_exact:
  assumes a: "represents a x" and b: "represents b y" and bound: "\<bar>x * y\<bar> < 2 ^ 53"
  shows "represents (dmul a b) (x * y)"
proof -
  obtain s m e where af: "a = Finite s m e" using a by (cases a) auto
  obtain t n f where bf: "b = Finite t n f" using b by (cases b) auto
  have pos: "0 < shift_num 1 (e + f)" by (simp add: shift_num_eq)
  have va: "signed_sig s m * 2 ^ nat e = x * 2 ^ nat (- e)" using a by (simp add: af)
  have vb: "signed_sig t n * 2 ^ nat f = y * 2 ^ nat (- f)" using b by (simp add: bf)
  have exps: "nat (e + f) + nat (- e) + nat (- f) = nat e + nat f + nat (- (e + f))" by arith
  have "signed_sig s m * signed_sig t n * 2 ^ nat (e + f) * (2 ^ nat (- e) * 2 ^ nat (- f))
      = (signed_sig s m * 2 ^ nat e) * (signed_sig t n * 2 ^ nat f) * 2 ^ nat (- (e + f))"
    using exps by (simp add: mult.assoc mult.left_commute flip: power_add)
  also have "\<dots> = x * y * 2 ^ nat (- (e + f)) * (2 ^ nat (- e) * 2 ^ nat (- f))"
    unfolding va vb by (simp add: ac_simps)
  finally have prod: "signed_sig s m * signed_sig t n * 2 ^ nat (e + f) = x * y * 2 ^ nat (- (e + f))"
    by simp
  have sm: "signed_sig s m * signed_sig t n = (if s \<noteq> t then - int (m * n) else int (m * n))"
    by (simp add: signed_sig_def)
  have "int (m * n) * 2 ^ nat (e + f) = \<bar>x * y\<bar> * 2 ^ nat (- (e + f))"
  proof -
    have "\<bar>signed_sig s m * signed_sig t n\<bar> * 2 ^ nat (e + f) = \<bar>x * y\<bar> * 2 ^ nat (- (e + f))"
      using arg_cong [OF prod, of abs] by (simp add: abs_mult)
    moreover have "\<bar>signed_sig s m * signed_sig t n\<bar> = int (m * n)"
      unfolding sm by simp
    ultimately show ?thesis by simp
  qed
  then have "int (m * n * 2 ^ nat (e + f)) = int (nat \<bar>x * y\<bar> * 2 ^ nat (- (e + f)))" by simp
  then have n': "shift_den (m * n) (e + f) = nat \<bar>x * y\<bar> * shift_num 1 (e + f)"
    unfolding of_nat_eq_iff by (simp add: shift_den_eq shift_num_eq)
  have q: "nat \<bar>x * y\<bar> < 2 ^ 53" using bound by simp
  have sign: "(if s \<noteq> t then - int (nat \<bar>x * y\<bar>) else int (nat \<bar>x * y\<bar>)) = x * y"
  proof (cases "s \<noteq> t")
    case True
    with prod sm have "x * y * 2 ^ nat (- (e + f)) \<le> 0" by (metis mult_nonpos_nonneg neg_le_0_iff_le of_nat_0_le_iff zero_le_numeral zero_le_power)
    then have "x * y \<le> 0" by (simp add: mult_le_0_iff)
    with True show ?thesis by simp
  next
    case False
    with prod sm have "0 \<le> x * y * 2 ^ nat (- (e + f))" by (metis mult_nonneg_nonneg of_nat_0_le_iff zero_le_numeral zero_le_power)
    then have "0 \<le> x * y" by (simp add: zero_le_mult_iff)
    with False show ?thesis by simp
  qed
  have "dmul a b = round64 (s \<noteq> t) (shift_den (m * n) (e + f)) (shift_num 1 (e + f))"
    by (simp only: af bf dmul.simps)
  with round64_exact [OF pos n' q, of "s \<noteq> t"] sign show ?thesis by simp
qed

lemmas exact_facts = of_u64_exact dadd_exact dsub_exact dmul_exact dmin_exact dmax_exact

subsection \<open>The value of one\<close>

lemma bit_len_1: "bit_len 1 = 1" "bit_len (Suc 0) = 1"
  by (simp_all add: bit_len.simps [of "Suc 0"] bit_len.simps [of 0])

lemma one64_value [code]: "one64 = Finite False 4503599627370496 (- 52)"
proof -
  have "floor_log2 1 1 = 0" by (simp add: floor_log2_def bit_len_1 shift_den_def shift_num_def)
  then show ?thesis
    by (simp add: one64_def round64_def Let_def shift_num_def shift_den_def round_even_def sig_top_def
        min_exp_def max_exp_def)
qed

end
