(* ===== verification/Vocabulary.thy ===== *)
theory Vocabulary
  imports Prelude Binary64
begin

text \<open>
  The core vocabulary of the counters library, \<open>include/speedgun-ng/counters_core.hpp\<close>: units and
  the closed mapping from unit tokens to dimensions, the availability states, the target mask, the
  read modes, and the result of a fold.
\<close>

datatype unit_kind = SECONDS | NANOSECONDS | BYTES | OPS | NO_UNIT

datatype availability =
    COUNTABLE | PERMISSION_BLOCKED | NOT_ENCODABLE | ABSENT | SCOPE_REFUSED | GAP

datatype read_mode = FAST_TSC | FAST_RDPMC | SYSCALL | PUSH_LOAD

datatype target_kind = THREAD | CPU

type_synonym target_mask = u32

definition kTargetThreadBit :: target_mask where "kTargetThreadBit = 1"
definition kTargetCpuBit :: target_mask where "kTargetCpuBit = 2"

record dimension =
  time_exp :: int
  events_exp :: int

definition dim_quotient :: "dimension \<Rightarrow> dimension \<Rightarrow> dimension" where
  "dim_quotient a b =
     \<lparr>time_exp = time_exp a - time_exp b, events_exp = events_exp a - events_exp b\<rparr>"

definition unitFromToken :: "string \<Rightarrow> unit_kind expected" where
  "unitFromToken token =
     (if token = ''seconds'' then Inr SECONDS
      else if token = ''nanoseconds'' then Inr NANOSECONDS
      else if token = ''bytes'' then Inr BYTES
      else if token = ''ops'' then Inr OPS
      else if token = ''none'' then Inr NO_UNIT
      else Inl (plain_error (''unrecognized unit '' @ quoted token
             @ ''; the unit-to-dimension mapping is closed (FR-017)'')))"

fun dimensionOf :: "unit_kind \<Rightarrow> dimension expected" where
  "dimensionOf SECONDS = Inr \<lparr>time_exp = 1, events_exp = 0\<rparr>"
| "dimensionOf NANOSECONDS = Inr \<lparr>time_exp = 1, events_exp = 0\<rparr>"
| "dimensionOf BYTES = Inr \<lparr>time_exp = 0, events_exp = 1\<rparr>"
| "dimensionOf OPS = Inr \<lparr>time_exp = 0, events_exp = 1\<rparr>"
| "dimensionOf NO_UNIT = Inr \<lparr>time_exp = 0, events_exp = 1\<rparr>"

fun unitName :: "unit_kind \<Rightarrow> string" where
  "unitName SECONDS = ''seconds''"
| "unitName NANOSECONDS = ''nanoseconds''"
| "unitName BYTES = ''bytes''"
| "unitName OPS = ''ops''"
| "unitName NO_UNIT = ''none''"

record metric_result =
  fold_value :: binary64
  runningRatio :: binary64
  result_availability :: availability
  result_scaled :: bool

definition default_result :: metric_result where
  "default_result = \<lparr>fold_value = zero64, runningRatio = one64,
      result_availability = COUNTABLE, result_scaled = False\<rparr>"

text \<open>The enumeration as a disclosure column stores it: the value of the enumerator.\<close>

fun availability_code :: "availability \<Rightarrow> u64" where
  "availability_code COUNTABLE = 0"
| "availability_code PERMISSION_BLOCKED = 1"
| "availability_code NOT_ENCODABLE = 2"
| "availability_code ABSENT = 3"
| "availability_code SCOPE_REFUSED = 4"
| "availability_code GAP = 5"

text \<open>
  \<open>static_cast<Availability>\<close> of a column cell: the byte-wide enumeration keeps the low eight bits.
  A cell outside the enumerators names no enumerator of the model.
\<close>

definition availability_of_code :: "u64 \<Rightarrow> availability option" where
  "availability_of_code w =
     (let b = unat w mod 256
      in if b = 0 then Some COUNTABLE
         else if b = 1 then Some PERMISSION_BLOCKED
         else if b = 2 then Some NOT_ENCODABLE
         else if b = 3 then Some ABSENT
         else if b = 4 then Some SCOPE_REFUSED
         else if b = 5 then Some GAP
         else None)"

lemma availability_code_roundtrip [simp]: "availability_of_code (availability_code a) = Some a"
  by (cases a) (simp_all add: availability_of_code_def)

lemma unitFromToken_name [simp]: "unitFromToken (unitName u) = Inr u"
  by (cases u) (simp_all add: unitFromToken_def)

lemma unitFromToken_Inr: "unitFromToken token = Inr u \<longleftrightarrow> token = unitName u"
  by (cases u) (auto simp: unitFromToken_def)

end
