(* ===== verification/Suggest.thy ===== *)
theory Suggest
  imports Prelude "HOL-Library.Sublist"
begin

text \<open>
  The near-miss suggester of \<open>source/counters/detail/core.hpp\<close>: the capped edit distance, the word
  splitter, the suggestion list, and the split of a leaf address at its final separator.  The edit
  distance is compared with the cost of the cheapest alignment of the two names.
\<close>

subsection \<open>The code\<close>

text \<open>One row of the distance table, left to right; \<open>left\<close> is \<open>current[j - 1]\<close>.\<close>

fun row_tail :: "char \<Rightarrow> string \<Rightarrow> int list \<Rightarrow> int \<Rightarrow> int list" where
  "row_tail c (d # ds) (p0 # p1 # ps) left =
     (let v = min (min (p1 + 1) (left + 1)) (p0 + (if c = d then 0 else 1))
      in v # row_tail c ds (p1 # ps) v)"
| "row_tail _ _ _ _ = []"

fun edit_loop :: "string \<Rightarrow> int \<Rightarrow> string \<Rightarrow> int list \<Rightarrow> int \<Rightarrow> int" where
  "edit_loop [] i b previous m = previous ! length b"
| "edit_loop (c # a) i b previous m =
     (let current = i # row_tail c b previous i
      in if Min (set current) > m then m + 1
         else edit_loop a (i + 1) b current m)"

definition editDistance :: "string \<Rightarrow> string \<Rightarrow> int \<Rightarrow> int" where
  "editDistance a b m = edit_loop a 1 b (map int [0 ..< length b + 1]) m"

definition next_break :: "string \<Rightarrow> nat \<Rightarrow> nat" where
  "next_break text start =
     (let or_end = (\<lambda>r. case r of None \<Rightarrow> length text | Some i \<Rightarrow> i)
      in min (min (or_end (find_char (CHR ''_'') text start)) (or_end (find_char (CHR ''-'') text start)))
             (min (or_end (find_char (CHR '' '') text start)) (length text)))"

lemma find_char_ge: "find_char c s pos = Some i \<Longrightarrow> pos \<le> i \<and> i < length s"
  by (auto simp: find_char_def dest: index_of_bound)

lemma next_break_bounds: "start < length text \<Longrightarrow> length text - Suc (next_break text start) < length text - start \<and> start \<le> next_break text start \<and> next_break text start \<le> length text"
  by (auto simp: next_break_def Let_def split: option.splits dest!: find_char_ge)

function split_from :: "string \<Rightarrow> nat \<Rightarrow> string list" where
  "split_from text start =
     (if start < length text then
        let e = next_break text start;
            rest = split_from text (e + 1)
        in if e > start then substr text start (e - start) # rest else rest
      else [])"
  by pat_completeness auto
termination
  by (relation "measure (\<lambda>(text, start). length text - start)")
     (auto dest!: next_break_bounds)

declare split_from.simps [simp del]

definition splitWords :: "string \<Rightarrow> string list" where
  "splitWords text = split_from text 0"

definition sharesWord :: "string \<Rightarrow> string \<Rightarrow> bool" where
  "sharesWord description query =
     (let wanted = splitWords query
      in list_ex (\<lambda>word. List.member wanted word) (splitWords description))"

definition kSuggestionLimit :: nat where "kSuggestionLimit = 5"
definition kNearMissDistance :: int where "kNearMissDistance = 2"

fun near_miss_loop ::
  "string \<Rightarrow> (string \<times> string) list \<Rightarrow> string list \<Rightarrow> string list \<Rightarrow> string list \<times> string list" where
  "near_miss_loop query [] close related = (close, related)"
| "near_miss_loop query ((name, description) # rest) close related =
     (if editDistance query name kNearMissDistance \<le> kNearMissDistance
      then near_miss_loop query rest (close @ [name]) related
      else if sharesWord description query
      then near_miss_loop query rest close (related @ [name])
      else near_miss_loop query rest close related)"

definition nearMisses :: "string \<Rightarrow> (string \<times> string) list \<Rightarrow> string list" where
  "nearMisses query candidates =
     (case near_miss_loop query candidates [] [] of
        (close, related) \<Rightarrow> take kSuggestionLimit (close @ related))"

definition splitLeafAddress :: "string \<Rightarrow> string \<times> string" where
  "splitLeafAddress address =
     (case rfind_char (CHR ''/'') address of
        None \<Rightarrow> (address, [])
      | Some slash \<Rightarrow> (take slash address, drop (slash + 1) address))"

subsection \<open>Alignments: what an edit distance promises\<close>

text \<open>
  \<open>align a b n\<close>: \<open>a\<close> becomes \<open>b\<close> by keeping, replacing, inserting and deleting characters left to
  right, with \<open>n\<close> characters replaced, inserted or deleted.
\<close>

inductive align :: "string \<Rightarrow> string \<Rightarrow> nat \<Rightarrow> bool" where
  align_nil: "align [] [] 0"
| align_keep: "align a b n \<Longrightarrow> align (c # a) (c # b) n"
| align_replace: "align a b n \<Longrightarrow> align (c # a) (d # b) (Suc n)"
| align_insert: "align a b n \<Longrightarrow> align a (d # b) (Suc n)"
| align_delete: "align a b n \<Longrightarrow> align (c # a) b (Suc n)"

fun lev :: "string \<Rightarrow> string \<Rightarrow> nat" where
  "lev [] b = length b"
| "lev (c # a) [] = Suc (length a)"
| "lev (c # a) (d # b) =
     min (min (lev a (d # b) + 1) (lev (c # a) b + 1)) (lev a b + (if c = d then 0 else 1))"

lemma lev_Nil2 [simp]: "lev a [] = length a"
  by (cases a) simp_all

lemma align_insert_all: "align [] b (length b)"
  by (induction b) (auto intro: align.intros)

lemma align_delete_all: "align a [] (length a)"
  by (induction a) (auto intro: align.intros)

lemma align_lev: "align a b (lev a b)"
proof (induction a b rule: lev.induct)
  case (1 b)
  then show ?case by (simp add: align_insert_all)
next
  case (2 c a)
  then show ?case using align_delete_all [of "c # a"] by simp
next
  case (3 c a d b)
  then show ?case
    by (auto simp: min_def intro: align.intros)
qed

lemma lev_align: "align a b n \<Longrightarrow> lev a b \<le> n"
proof (induction rule: align.induct)
  case (align_insert a b n d)
  from align_insert.IH show ?case by (cases a) auto
next
  case (align_delete a b n c)
  from align_delete.IH show ?case by (cases b) auto
qed auto

lemma align_append: "align a b m \<Longrightarrow> align a' b' n \<Longrightarrow> align (a @ a') (b @ b') (m + n)"
  by (induction rule: align.induct) (auto intro: align.intros)

lemma align_rev: "align a b n \<Longrightarrow> align (rev a) (rev b) n"
proof (induction rule: align.induct)
  case (align_keep a b n c)
  then show ?case
    using align_append [OF align_keep.IH, of "[c]" "[c]" 0] by (auto intro: align.intros)
next
  case (align_replace a b n c d)
  then show ?case
    using align_append [OF align_replace.IH, of "[c]" "[d]" 1] by (auto intro: align.intros)
next
  case (align_insert a b n d)
  then show ?case
    using align_append [OF align_insert.IH, of "[]" "[d]" 1] by (auto intro: align.intros)
next
  case (align_delete a b n c)
  then show ?case
    using align_append [OF align_delete.IH, of "[c]" "[]" 1] by (auto intro: align.intros)
qed (auto intro: align.intros)

lemma lev_rev: "lev (rev a) (rev b) = lev a b"
  by (metis align_lev align_rev lev_align le_antisym rev_rev_ident)

subsection \<open>The row routine computes the table of prefix distances\<close>

fun row :: "string \<Rightarrow> string \<Rightarrow> string \<Rightarrow> int list" where
  "row pa pb [] = [int (lev pa pb)]"
| "row pa pb (d # ds) = int (lev pa pb) # row pa (d # pb) ds"

lemma length_row [simp]: "length (row pa pb ds) = Suc (length ds)"
  by (induction ds arbitrary: pb) auto

lemma row_cons: "row pa pb ds = int (lev pa pb) # tl (row pa pb ds)"
  by (cases ds) auto

lemma row_last: "row pa pb ds ! length ds = int (lev pa (rev ds @ pb))"
  by (induction ds arbitrary: pb) auto

lemma row_start: "row [] pb ds = map (\<lambda>k. int (length pb + k)) [0 ..< length ds + 1]"
proof (induction ds arbitrary: pb)
  case Nil
  then show ?case by simp
next
  case (Cons d ds)
  have "[0 ..< length (d # ds) + 1] = 0 # map Suc [0 ..< length ds + 1]"
    by (simp add: map_Suc_upt upt_conv_Cons del: upt_Suc)
  with Cons [of "d # pb"] show ?case
    by (simp add: comp_def del: upt_Suc)
qed

lemma row_tail_row:
  "row_tail c ds (row pa pb ds) (int (lev (c # pa) pb)) = tl (row (c # pa) pb ds)"
proof (induction ds arbitrary: pb)
  case Nil
  then show ?case by simp
next
  case (Cons d ds)
  have next_cell: "int (lev (c # pa) (d # pb)) =
      min (min (int (lev pa (d # pb)) + 1) (int (lev (c # pa) pb) + 1))
          (int (lev pa pb) + (if c = d then 0 else 1))"
    by (simp add: min_def)
  obtain ps where r: "row pa (d # pb) ds = int (lev pa (d # pb)) # ps"
    using row_cons [of pa "d # pb" ds] by blast
  have "row_tail c (d # ds) (row pa pb (d # ds)) (int (lev (c # pa) pb)) =
      int (lev (c # pa) (d # pb)) #
      row_tail c ds (row pa (d # pb) ds) (int (lev (c # pa) (d # pb)))"
    by (simp only: row.simps r row_tail.simps(1) Let_def next_cell)
  also have "\<dots> = int (lev (c # pa) (d # pb)) # tl (row (c # pa) (d # pb) ds)"
    unfolding Cons.IH ..
  also have "\<dots> = tl (row (c # pa) pb (d # ds))"
    using row_cons [of "c # pa" "d # pb" ds] by simp
  finally show ?case .
qed

lemma row_step:
  "int (lev (c # pa) []) # row_tail c ds (row pa [] ds) (int (lev (c # pa) [])) = row (c # pa) [] ds"
  using row_tail_row [of c ds pa "[]"] row_cons [of "c # pa" "[]" ds] by simp

text \<open>A row whose every cell is above the cap stays above it: the early return is sound.\<close>

lemma set_row: "set (row pa pb ds) = (\<lambda>j. int (lev pa (rev (take j ds) @ pb))) ` {0 .. length ds}"
proof (induction ds arbitrary: pb)
  case Nil
  then show ?case by simp
next
  case (Cons d ds)
  have "{0 .. length (d # ds)} = insert 0 (Suc ` {0 .. length ds})"
    by (auto simp: image_Suc_atLeastAtMost)
  then show ?case by (simp add: Cons image_image del: image_Suc_atLeastAtMost)
qed

lemma lev_row_monotone:
  assumes "\<forall>s. suffix s b \<longrightarrow> m < lev pa s"
  shows "suffix s b \<Longrightarrow> m < lev (c # pa) s"
proof (induction s)
  case Nil
  have "m < lev pa []" using assms suffix_bot.bot_least [of b] by blast
  then show ?case by simp
next
  case (Cons d s)
  have sfx: "suffix s b" using Cons.prems by (rule suffix_ConsD)
  have "m < lev (c # pa) s" using sfx by (rule Cons.IH)
  moreover have "m < lev pa (d # s)" and "m < lev pa s" using assms Cons.prems sfx by blast+
  ultimately show ?case by simp
qed

lemma lev_stays_above:
  assumes "\<forall>s. suffix s b \<longrightarrow> m < lev pa s"
  shows "suffix s b \<Longrightarrow> m < lev (a @ pa) s"
  using assms
proof (induction a arbitrary: s)
  case Nil
  then show ?case by simp
next
  case (Cons c a)
  have "\<forall>t. suffix t b \<longrightarrow> m < lev (a @ pa) t" using Cons by blast
  from lev_row_monotone [OF this, of s c] Cons.prems show ?case by simp
qed

lemma suffix_rev_take: "suffix s (rev b) \<Longrightarrow> \<exists>j \<le> length b. s = rev (take j b)"
  by (metis suffix_to_prefix rev_rev_ident prefix_length_le prefix_def append_eq_conv_conj)

lemma edit_loop_correct:
  assumes "i = int (length pa) + 1"
  shows "(if int (lev (rev a @ pa) (rev b)) \<le> m
          then edit_loop a i b (row pa [] b) m = int (lev (rev a @ pa) (rev b))
          else m < edit_loop a i b (row pa [] b) m)"
  using assms
proof (induction a arbitrary: i pa)
  case Nil
  then show ?case using row_last [of pa "[]" b] by simp
next
  case (Cons c a)
  let ?cur = "row (c # pa) [] b"
  have i: "i = int (lev (c # pa) [])" using Cons.prems by simp
  have cur: "i # row_tail c b (row pa [] b) i = ?cur" unfolding i by (rule row_step)
  show ?case
  proof (cases "Min (set ?cur) > m")
    case True
    have above: "m < int (lev (c # pa) s)" if sfx: "suffix s (rev b)" for s
    proof -
      obtain j where "j \<le> length b" and "s = rev (take j b)"
        using suffix_rev_take [of s b] sfx by blast
      then have "int (lev (c # pa) s) \<in> set ?cur" by (auto simp: set_row)
      moreover have "Min (set ?cur) \<le> int (lev (c # pa) s)" using calculation by simp
      ultimately show ?thesis using True by linarith
    qed
    have "m < int (lev (rev a @ c # pa) (rev b))"
    proof (cases "m < 0")
      case True
      then show ?thesis by simp
    next
      case False
      have "\<forall>s. suffix s (rev b) \<longrightarrow> nat m < lev (c # pa) s"
        using above False by (auto simp: nat_less_iff)
      from lev_stays_above [OF this, of "rev b" "rev a"] False show ?thesis
        by (simp add: nat_less_iff)
    qed
    then show ?thesis using True by (simp add: cur Let_def)
  next
    case False
    have "i + 1 = int (length (c # pa)) + 1" using Cons.prems by simp
    from Cons.IH [OF this] False show ?thesis
      by (simp add: cur Let_def)
  qed
qed

lemma editDistance_lev:
  "if int (lev a b) \<le> m then editDistance a b m = int (lev a b) else m < editDistance a b m"
proof -
  have start: "map int [0 ..< length b + 1] = row [] [] b"
    by (simp add: row_start del: upt_Suc)
  show ?thesis
    using edit_loop_correct [of 1 "[]" a b m]
    unfolding editDistance_def start by (simp add: lev_rev)
qed

lemma lev_least: "lev a b = (LEAST n. align a b n)"
  by (rule Least_equality [symmetric]) (auto intro: align_lev lev_align)

lemma editDistance_capped_aux:
  "editDistance a b m \<le> m \<longleftrightarrow> (\<exists>n. align a b n \<and> int n \<le> m)"
proof
  assume "editDistance a b m \<le> m"
  with editDistance_lev [of a b m] have "int (lev a b) \<le> m" by (auto split: if_splits)
  with align_lev show "\<exists>n. align a b n \<and> int n \<le> m" by blast
next
  assume "\<exists>n. align a b n \<and> int n \<le> m"
  then have "int (lev a b) \<le> m" using lev_align by fastforce
  with editDistance_lev [of a b m] show "editDistance a b m \<le> m" by simp
qed

text \<open>
  The capped edit distance agrees with the cheapest alignment of the two names whenever some
  alignment is within the cap, and answers above the cap when none is: the early return on a row
  minimum above the cap loses no near name.
\<close>

theorem editDistance_capped:
  "if (\<exists>n. align a b n \<and> int n \<le> m)
   then editDistance a b m = int (LEAST n. align a b n)
   else m < editDistance a b m"
proof (cases "\<exists>n. align a b n \<and> int n \<le> m")
  case True
  then have "int (lev a b) \<le> m" using lev_align by fastforce
  with editDistance_lev [of a b m] True show ?thesis by (simp add: lev_least)
next
  case False
  with align_lev [of a b] have "\<not> int (lev a b) \<le> m" by blast
  with editDistance_lev [of a b m] have "m < editDistance a b m" by simp
  with False show ?thesis by (simp only: if_False)
qed

subsection \<open>The suggestion list\<close>

lemma near_miss_loop_eq:
  "near_miss_loop query cs close related =
     (close @ map fst (filter (\<lambda>(n, d). editDistance query n 2 \<le> 2) cs),
      related @ map fst (filter (\<lambda>(n, d). \<not> editDistance query n 2 \<le> 2 \<and> sharesWord d query) cs))"
  by (induction query cs close related rule: near_miss_loop.induct)
     (auto simp: kNearMissDistance_def)

lemma nearMisses_eq:
  "nearMisses query cs = take 5 (map fst (filter (\<lambda>(n, d). editDistance query n 2 \<le> 2) cs)
      @ map fst (filter (\<lambda>(n, d). \<not> editDistance query n 2 \<le> 2 \<and> sharesWord d query) cs))"
  by (simp add: nearMisses_def near_miss_loop_eq kSuggestionLimit_def)

lemma editDistance_close: "editDistance a b 2 \<le> 2 \<longleftrightarrow> (\<exists>n \<le> 2. align a b n)"
  using editDistance_capped_aux [of a b 2] by auto

lemma splitLeafAddress_join:
  "CHR ''/'' \<notin> set name \<Longrightarrow> splitLeafAddress (path @ CHR ''/'' # name) = (path, name)"
  by (simp add: splitLeafAddress_def rfind_char_join)

lemma nearMisses_subset: "set (nearMisses query cs) \<subseteq> fst ` set cs"
  unfolding nearMisses_eq by (auto dest!: in_set_takeD)

lemma nearMisses_bound: "length (nearMisses query cs) \<le> 5"
  by (simp add: nearMisses_eq)

text \<open>
  While at most five candidates are within two edits of the query, every candidate within two
  edits is suggested, whatever the descriptions of the others share with the query.
\<close>

theorem nearMisses_lists_close:
  assumes "length (filter (\<lambda>(n, d). \<exists>k \<le> 2. align query n k) cs) \<le> 5"
    and "(name, description) \<in> set cs" and "align query name k" and "k \<le> 2"
  shows "name \<in> set (nearMisses query cs)"
proof -
  let ?close = "map fst (filter (\<lambda>(n, d). editDistance query n 2 \<le> 2) cs)"
  have "length ?close \<le> 5" using assms(1) by (simp add: editDistance_close)
  then have "set ?close \<subseteq> set (nearMisses query cs)" by (simp add: nearMisses_eq)
  moreover have "name \<in> set ?close"
    using assms(2-4) by (force simp: editDistance_close)
  ultimately show ?thesis by blast
qed

lemma align_swap: "align ''cycels'' ''cycles'' 2"
proof -
  have "lev ''cycels'' ''cycles'' = 2" by code_simp
  with align_lev [of "''cycels''" "''cycles''"] show ?thesis by (simp only:)
qed

theorem nearMisses_lists_close_witness:
  "''cycles'' \<in> set (nearMisses ''cycels'' [(''branches'', ''taken''), (''cycles'', ''core clock'')])"
  by (rule nearMisses_lists_close [where description = "''core clock''" and k = 2])
     (simp_all add: align_swap)

end
