(* ===== verification/Spine.thy ===== *)
theory Spine
  imports Vocabulary
begin

text \<open>
  The erased expression spine of \<open>include/speedgun-ng/counters_measurement.hpp\<close>: leaves, nodes, the
  operations that build a spine (\<open>addLeaf\<close>, \<open>addNode\<close>, \<open>splice\<close>, \<open>scaleAll\<close>), and the dimension
  algebra of the expression operators.  Node and leaf indices are \<open>int\<close> with \<open>-1\<close> for none, as in
  the code.  The invariant \<open>spine_wf\<close> says that every index names a standing leaf or an earlier node;
  the evaluation over an arbitrary leaf valuation says what an operator builds.
\<close>

record leaf_core =
  address :: string
  leaf_name :: string
  leaf_description :: string
  leaf_unit :: string
  leaf_avail :: availability
  leaf_mode :: read_mode
  frequencyHz :: u64
  leaf_scaled :: bool

record expr_node =
  kind :: nat
  left :: int
  right :: int
  leaf :: int
  scale :: binary64

definition expr_node0 :: expr_node where
  "expr_node0 = \<lparr>kind = 0, left = - 1, right = - 1, leaf = - 1, scale = one64\<rparr>"

record expr_core =
  leaves :: "leaf_core list"
  nodes :: "expr_node list"

definition empty_core :: expr_core where
  "empty_core = \<lparr>leaves = [], nodes = []\<rparr>"

definition core_empty :: "expr_core \<Rightarrow> bool" where
  "core_empty c \<longleftrightarrow> nodes c = []"

definition addLeaf :: "expr_core \<Rightarrow> leaf_core \<Rightarrow> expr_core \<times> int" where
  "addLeaf c l =
     (case index_of (\<lambda>x. address x = address l) (leaves c) of
        Some i \<Rightarrow> (c, int i)
      | None \<Rightarrow> (c\<lparr>leaves := leaves c @ [l]\<rparr>, int (length (leaves c))))"

definition addNode :: "expr_core \<Rightarrow> expr_node \<Rightarrow> expr_core \<times> int" where
  "addNode c n = (c\<lparr>nodes := nodes c @ [n]\<rparr>, int (length (nodes c)))"

definition root :: "expr_core \<Rightarrow> int" where
  "root c = int (length (nodes c)) - 1"

definition scaleAll :: "expr_core \<Rightarrow> binary64 \<Rightarrow> expr_core" where
  "scaleAll c k =
     fst (addNode c \<lparr>kind = 4, left = root c, right = - 1, leaf = - 1, scale = k\<rparr>)"

fun add_leaves :: "expr_core \<Rightarrow> leaf_core list \<Rightarrow> expr_core \<times> int list" where
  "add_leaves dst [] = (dst, [])"
| "add_leaves dst (l # ls) =
     (let (dst1, i) = addLeaf dst l; (dst2, is) = add_leaves dst1 ls in (dst2, i # is))"

definition remap_node :: "int \<Rightarrow> int list \<Rightarrow> expr_node \<Rightarrow> expr_node" where
  "remap_node base leafRemap n =
     n\<lparr>left := (if left n \<ge> 0 then left n + base else left n),
       right := (if right n \<ge> 0 then right n + base else right n),
       leaf := (if leaf n \<ge> 0 then leafRemap ! nat (leaf n) else leaf n)\<rparr>"

definition splice :: "expr_core \<Rightarrow> expr_core \<Rightarrow> expr_core \<times> int" where
  "splice dst src =
     (let nodeBase = int (length (nodes dst));
          (dst1, leafRemap) = add_leaves dst (leaves src);
          dst2 = foldl (\<lambda>d n. fst (addNode d (remap_node nodeBase leafRemap n))) dst1 (nodes src)
      in (dst2, nodeBase + root src))"

definition binary_node :: "nat \<Rightarrow> int \<Rightarrow> int \<Rightarrow> expr_node" where
  "binary_node k l r = \<lparr>kind = k, left = l, right = r, leaf = - 1, scale = one64\<rparr>"

text \<open>The conversion of a resolved counter into an expression, and the operators of \<open>Expression\<close>.\<close>

definition expr_of_leaf :: "leaf_core \<Rightarrow> expr_core" where
  "expr_of_leaf l =
     (let (c, slot) = addLeaf empty_core l
      in fst (addNode c \<lparr>kind = 0, left = - 1, right = - 1, leaf = slot, scale = one64\<rparr>))"

definition expr_plus :: "expr_core \<Rightarrow> expr_core \<Rightarrow> expr_core" where
  "expr_plus a b = (let (merged, r) = splice a b in fst (addNode merged (binary_node 1 (root a) r)))"

definition expr_minus :: "expr_core \<Rightarrow> expr_core \<Rightarrow> expr_core" where
  "expr_minus a b = (let (merged, r) = splice a b in fst (addNode merged (binary_node 2 (root a) r)))"

definition expr_divide :: "expr_core \<Rightarrow> expr_core \<Rightarrow> expr_core" where
  "expr_divide a b =
     (let (m1, l) = splice empty_core a; (m2, r) = splice m1 b
      in fst (addNode m2 (binary_node 3 l r)))"

definition expr_scale :: "binary64 \<Rightarrow> expr_core \<Rightarrow> expr_core" where
  "expr_scale k e = scaleAll e k"

subsection \<open>Well-formed spines\<close>

definition node_wf :: "nat \<Rightarrow> nat \<Rightarrow> expr_node \<Rightarrow> bool" where
  "node_wf nleaves i n \<longleftrightarrow>
     left n < int i \<and> right n < int i \<and> leaf n < int nleaves \<and> kind n \<le> 6 \<and>
     (kind n = 0 \<longrightarrow> 0 \<le> leaf n) \<and>
     (kind n \<noteq> 0 \<and> kind n \<noteq> 4 \<longrightarrow> 0 \<le> left n \<and> 0 \<le> right n)"

definition nodes_wf :: "nat \<Rightarrow> nat \<Rightarrow> expr_node list \<Rightarrow> bool" where
  "nodes_wf nleaves base ns \<longleftrightarrow> (\<forall>i < length ns. node_wf nleaves (base + i) (ns ! i))"

definition spine_wf :: "expr_core \<Rightarrow> bool" where
  "spine_wf c \<longleftrightarrow> nodes_wf (length (leaves c)) 0 (nodes c) \<and> distinct (map address (leaves c))"

lemma node_wf_mono: "node_wf nl i n \<Longrightarrow> nl \<le> nl' \<Longrightarrow> i \<le> i' \<Longrightarrow> node_wf nl' i' n"
  by (auto simp: node_wf_def)

lemma node_wf_child: "node_wf nl i n \<Longrightarrow> left n < int i" "node_wf nl i n \<Longrightarrow> right n < int i"
  by (simp_all add: node_wf_def)

lemma nodes_wf_append:
  "nodes_wf nl b (xs @ ys) \<longleftrightarrow> nodes_wf nl b xs \<and> nodes_wf nl (b + length xs) ys"
proof
  assume h: "nodes_wf nl b (xs @ ys)"
  have "node_wf nl (b + i) (xs ! i)" if "i < length xs" for i
    using h that unfolding nodes_wf_def by (metis length_append nth_append trans_less_add1)
  moreover have "node_wf nl (b + length xs + i) (ys ! i)" if "i < length ys" for i
    using h that unfolding nodes_wf_def
    by (metis add.assoc length_append nat_add_left_cancel_less nth_append_length_plus)
  ultimately show "nodes_wf nl b xs \<and> nodes_wf nl (b + length xs) ys"
    by (simp add: nodes_wf_def)
next
  assume h: "nodes_wf nl b xs \<and> nodes_wf nl (b + length xs) ys"
  show "nodes_wf nl b (xs @ ys)"
    unfolding nodes_wf_def
  proof (intro allI impI)
    fix i assume i: "i < length (xs @ ys)"
    show "node_wf nl (b + i) ((xs @ ys) ! i)"
    proof (cases "i < length xs")
      case True
      with h show ?thesis by (simp add: nodes_wf_def nth_append)
    next
      case False
      then obtain k where "i = length xs + k" using le_Suc_ex not_less by blast
      with h i show ?thesis by (simp add: nodes_wf_def add.assoc)
    qed
  qed
qed

lemma nodes_wf_mono: "nodes_wf nl b ns \<Longrightarrow> nl \<le> nl' \<Longrightarrow> nodes_wf nl' b ns"
  by (auto simp: nodes_wf_def intro: node_wf_mono)

lemma nodes_wf_one [simp]: "nodes_wf nl b [n] \<longleftrightarrow> node_wf nl b n"
  by (simp add: nodes_wf_def)

subsection \<open>Adding leaves\<close>

lemma addLeaf_spec:
  assumes "addLeaf c l = (c', i)" and "distinct (map address (leaves c))"
  shows "nodes c' = nodes c" and "distinct (map address (leaves c'))"
    and "\<exists>xs. leaves c' = leaves c @ xs"
    and "0 \<le> i" and "nat i < length (leaves c')" and "address (leaves c' ! nat i) = address l"
    and "set (map address (leaves c')) = insert (address l) (set (map address (leaves c)))"
proof -
  show "nodes c' = nodes c" "distinct (map address (leaves c'))"
    "\<exists>xs. leaves c' = leaves c @ xs"
    "0 \<le> i" "nat i < length (leaves c')" "address (leaves c' ! nat i) = address l"
    "set (map address (leaves c')) = insert (address l) (set (map address (leaves c)))"
    using assms unfolding addLeaf_def
    by (auto split: option.splits simp: index_of_None image_iff Bex_def dest!: index_of_Some)
       (metis nth_mem)+
qed

lemma add_leaves_spec:
  assumes "add_leaves c ls = (c', is)" and "distinct (map address (leaves c))"
  shows "nodes c' = nodes c \<and> distinct (map address (leaves c')) \<and> length is = length ls
    \<and> (\<exists>xs. leaves c' = leaves c @ xs)
    \<and> (\<forall>k < length ls. 0 \<le> is ! k \<and> nat (is ! k) < length (leaves c')
          \<and> address (leaves c' ! nat (is ! k)) = address (ls ! k))
    \<and> set (map address (leaves c')) = set (map address (leaves c)) \<union> set (map address ls)"
  using assms
proof (induction ls arbitrary: c c' "is")
  case Nil
  then show ?case by auto
next
  case (Cons l ls)
  obtain c1 i where a: "addLeaf c l = (c1, i)" by force
  obtain c2 js where b: "add_leaves c1 ls = (c2, js)" by force
  note s = addLeaf_spec [OF a Cons.prems(2)]
  note t = Cons.IH [OF b s(2)]
  from Cons.prems(1) a b have c': "c' = c2" "is = i # js" by auto
  obtain xs where xs: "leaves c2 = leaves c1 @ xs" using t by blast
  have head: "nat i < length (leaves c2) \<and> address (leaves c2 ! nat i) = address l"
    using s(5,6) by (simp add: xs nth_append)
  show ?case
    unfolding c' using s t head xs by (auto simp: nth_Cons split: nat.splits)
qed

lemma foldl_addNode:
  "foldl (\<lambda>d n. fst (addNode d (f n))) c ns = c\<lparr>nodes := nodes c @ map f ns\<rparr>"
  by (induction ns arbitrary: c) (auto simp: addNode_def)

lemma splice_eq:
  assumes "add_leaves dst (leaves src) = (dst1, remap)"
  shows "splice dst src =
    (dst1\<lparr>nodes := nodes dst1 @ map (remap_node (int (length (nodes dst))) remap) (nodes src)\<rparr>,
     int (length (nodes dst)) + root src)"
  by (simp add: splice_def assms foldl_addNode Let_def)

lemma remap_node_wf:
  assumes n: "node_wf nl i n" and nl: "nl = length remap"
    and remap: "\<forall>k < length remap. 0 \<le> remap ! k \<and> nat (remap ! k) < nl'"
  shows "node_wf nl' (base + i) (remap_node (int base) remap n)"
proof -
  have lf: "0 \<le> remap ! nat (leaf n) \<and> remap ! nat (leaf n) < int nl'" if "0 \<le> leaf n"
  proof -
    have "nat (leaf n) < length remap" using n nl that by (auto simp: node_wf_def)
    with remap show ?thesis by (metis int_nat_eq nat_less_iff of_nat_less_iff)
  qed
  show ?thesis
    using n lf unfolding node_wf_def remap_node_def by auto
qed

lemma splice_wf:
  assumes d: "spine_wf dst" and s: "spine_wf src" and sp: "splice dst src = (out, r)"
  shows "spine_wf out" and "nodes out \<noteq> [] \<longrightarrow> r = root out \<or> nodes src = []"
    and "length (nodes out) = length (nodes dst) + length (nodes src)"
proof -
  obtain dst1 remap where al: "add_leaves dst (leaves src) = (dst1, remap)" by force
  note spec = add_leaves_spec [OF al]
  have dd: "distinct (map address (leaves dst))" using d by (simp add: spine_wf_def)
  note spec = spec [OF dd]
  obtain xs where xs: "leaves dst1 = leaves dst @ xs" using spec by blast
  have out: "out = dst1\<lparr>nodes := nodes dst @ map (remap_node (int (length (nodes dst))) remap) (nodes src)\<rparr>"
    and r: "r = int (length (nodes dst)) + root src"
    using sp spec by (simp_all add: splice_eq [OF al])
  have "nodes_wf (length (leaves dst1)) 0 (nodes dst)"
    using d by (auto simp: spine_wf_def xs intro: nodes_wf_mono)
  moreover have "nodes_wf (length (leaves dst1)) (length (nodes dst))
      (map (remap_node (int (length (nodes dst))) remap) (nodes src))"
    using s spec unfolding nodes_wf_def spine_wf_def
    by (auto intro!: remap_node_wf [where nl = "length (leaves src)"])
  ultimately show "spine_wf out"
    using spec by (simp add: out spine_wf_def nodes_wf_append)
  show "nodes out \<noteq> [] \<longrightarrow> r = root out \<or> nodes src = []"
    by (simp add: r out root_def)
  show "length (nodes out) = length (nodes dst) + length (nodes src)" by (simp add: out)
qed

subsection \<open>Evaluation over a leaf valuation\<close>

text \<open>
  \<open>eval_spine v c fuel index\<close> is the recursion of \<open>eval\<close> in \<open>source/counters/fold.cpp\<close> with the
  value of a leaf given by \<open>v\<close>.  \<open>None\<close> stands for a read outside the spine or a recursion deeper
  than the fuel; \<open>eval_spine_total\<close> shows that neither happens on a well-formed spine.
\<close>

type_synonym valuation = "leaf_core \<Rightarrow> binary64 option"

definition combine :: "(binary64 \<Rightarrow> binary64 \<Rightarrow> binary64) \<Rightarrow> binary64 option \<Rightarrow> binary64 option \<Rightarrow> binary64 option" where
  "combine f x y = (case x of None \<Rightarrow> None | Some a \<Rightarrow> (case y of None \<Rightarrow> None | Some b \<Rightarrow> Some (f a b)))"

definition eval_node ::
  "valuation \<Rightarrow> leaf_core list \<Rightarrow> expr_node \<Rightarrow> binary64 option \<Rightarrow> binary64 option \<Rightarrow> binary64 option" where
  "eval_node v ls node l r =
     (if kind node = 0 then
        (if leaf node < 0 \<or> nat (leaf node) \<ge> length ls then None else v (ls ! nat (leaf node)))
      else if kind node = 4 then
        (if left node < 0 then Some (scale node)
         else if right node < 0 then map_option (dmul (scale node)) l
         else combine dmul (map_option (dmul (scale node)) l) r)
      else if kind node = 1 then combine dadd l r
      else if kind node = 2 then combine dsub l r
      else if kind node = 5 then combine dmin l r
      else if kind node = 6 then combine dmax l r
      else combine ddiv l r)"

fun eval_spine :: "valuation \<Rightarrow> expr_core \<Rightarrow> nat \<Rightarrow> int \<Rightarrow> binary64 option" where
  "eval_spine v c 0 index = None"
| "eval_spine v c (Suc fuel) index =
     (if index < 0 \<or> nat index \<ge> length (nodes c) then None
      else eval_node v (leaves c) (nodes c ! nat index)
             (eval_spine v c fuel (left (nodes c ! nat index)))
             (eval_spine v c fuel (right (nodes c ! nat index))))"

definition eval_root :: "valuation \<Rightarrow> expr_core \<Rightarrow> binary64 option" where
  "eval_root v c = eval_spine v c (length (nodes c)) (root c)"

lemma combine_Some [simp]: "combine f (Some a) (Some b) = Some (f a b)"
  by (simp add: combine_def)

lemma combine_None [simp]: "combine f None y = None" "combine f x None = None"
  by (simp_all add: combine_def split: option.splits)

text \<open>Fuel beyond the index changes nothing: a child stands before its parent.\<close>

lemma eval_spine_fuel:
  assumes wf: "nodes_wf nl 0 (nodes c)"
  shows "index < int f \<Longrightarrow> index < int g \<Longrightarrow> eval_spine v c f index = eval_spine v c g index"
proof (induction f arbitrary: g index)
  case 0
  then show ?case by (cases g) (simp_all add: eval_spine.simps)
next
  case (Suc f)
  show ?case
  proof (cases "index < 0 \<or> nat index \<ge> length (nodes c)")
    case True
    then show ?thesis by (cases g) (auto simp: eval_spine.simps)
  next
    case False
    then obtain g' where g: "g = Suc g'" using Suc.prems by (cases g) auto
    from False wf have n: "node_wf nl (nat index) (nodes c ! nat index)"
      by (simp add: nodes_wf_def)
    have l: "eval_spine v c f (left (nodes c ! nat index)) = eval_spine v c g' (left (nodes c ! nat index))"
      using n False Suc.prems by (intro Suc.IH) (auto simp: node_wf_def g)
    have r: "eval_spine v c f (right (nodes c ! nat index)) = eval_spine v c g' (right (nodes c ! nat index))"
      using n False Suc.prems by (intro Suc.IH) (auto simp: node_wf_def g)
    show ?thesis by (simp add: g eval_spine.simps l r)
  qed
qed

lemma eval_node_total:
  assumes n: "node_wf (length ls) i node"
    and v: "\<forall>l \<in> set ls. v l \<noteq> None"
    and l: "0 \<le> left node \<Longrightarrow> l \<noteq> None" and r: "0 \<le> right node \<Longrightarrow> r \<noteq> None"
  shows "eval_node v ls node l r \<noteq> None"
proof -
  have "v (ls ! nat (leaf node)) \<noteq> None \<and> nat (leaf node) < length ls" if "0 \<le> leaf node"
  proof -
    have "nat (leaf node) < length ls" using n that by (auto simp: node_wf_def)
    with v show ?thesis by (meson nth_mem)
  qed
  with n l r show ?thesis
    by (cases "0 \<le> left node"; cases "0 \<le> right node")
       (auto simp: eval_node_def node_wf_def)
qed

lemma eval_spine_total:
  assumes wf: "nodes_wf (length (leaves c)) 0 (nodes c)"
    and v: "\<forall>l \<in> set (leaves c). v l \<noteq> None"
  shows "0 \<le> index \<Longrightarrow> index < int f \<Longrightarrow> nat index < length (nodes c) \<Longrightarrow>
    eval_spine v c f index \<noteq> None"
proof (induction f arbitrary: index)
  case 0
  then show ?case by simp
next
  case (Suc f)
  from wf Suc.prems have n: "node_wf (length (leaves c)) (nat index) (nodes c ! nat index)"
    by (simp add: nodes_wf_def)
  have child: "eval_spine v c f i \<noteq> None" if "0 \<le> i" "i < int (nat index)" for i
    using that Suc.prems by (intro Suc.IH) auto
  have "eval_node v (leaves c) (nodes c ! nat index)
      (eval_spine v c f (left (nodes c ! nat index))) (eval_spine v c f (right (nodes c ! nat index))) \<noteq> None"
    using n v by (rule eval_node_total) (rule child, assumption, rule node_wf_child [OF n])+
  with Suc.prems show ?case by simp
qed

text \<open>A node reads only what stands before it: appended nodes and leaves change no evaluation.\<close>

lemma eval_node_leaves:
  assumes "node_wf (length ls) i node"
  shows "eval_node v (ls @ xs) node l r = eval_node v ls node l r"
  using assms by (auto simp: eval_node_def node_wf_def nth_append nat_less_iff not_le)

lemma eval_spine_extend:
  assumes wf: "nodes_wf (length (leaves c)) 0 (nodes c)"
    and ns: "nodes d = nodes c @ ns" and ls: "leaves d = leaves c @ ls"
  shows "index < int (length (nodes c)) \<Longrightarrow> eval_spine v d f index = eval_spine v c f index"
proof (induction f arbitrary: index)
  case 0
  then show ?case by simp
next
  case (Suc f)
  show ?case
  proof (cases "index < 0")
    case True
    then show ?thesis by simp
  next
    case False
    let ?n = "nodes c ! nat index"
    have bound: "nat index < length (nodes c)" using False Suc.prems by simp
    have same: "nodes d ! nat index = ?n" using bound by (simp add: ns nth_append)
    from wf bound have n: "node_wf (length (leaves c)) (nat index) ?n" by (simp add: nodes_wf_def)
    have lr: "left ?n < int (length (nodes c))" "right ?n < int (length (nodes c))"
      using node_wf_child [OF n] bound by linarith+
    have "nat index < length (nodes d)" using bound by (simp add: ns)
    then show ?thesis
      using False bound
      by (simp add: same ls eval_node_leaves [OF n] Suc.IH [OF lr(1)] Suc.IH [OF lr(2)])
  qed
qed

text \<open>A spliced spine evaluates as it did alone, when the valuation reads a leaf by its address.\<close>

definition by_address :: "valuation \<Rightarrow> bool" where
  "by_address v \<longleftrightarrow> (\<forall>l l'. address l = address l' \<longrightarrow> v l = v l')"

lemma eval_node_remap:
  assumes v: "by_address v" and n: "node_wf (length ls) i node" and len: "length remap = length ls"
    and remap: "\<forall>k < length ls. 0 \<le> remap ! k \<and> nat (remap ! k) < length ls'
        \<and> address (ls' ! nat (remap ! k)) = address (ls ! k)"
    and base: "0 \<le> base"
  shows "eval_node v ls' (remap_node base remap node) l r = eval_node v ls node l r"
proof -
  let ?k = "nat (leaf node)"
  have "0 \<le> remap ! ?k \<and> nat (remap ! ?k) < length ls' \<and> ?k < length ls
      \<and> v (ls' ! nat (remap ! ?k)) = v (ls ! ?k)" if "0 \<le> leaf node"
  proof -
    have "?k < length ls" using n that by (auto simp: node_wf_def)
    with remap v show ?thesis unfolding by_address_def by blast
  qed
  with base show ?thesis
    by (auto simp: eval_node_def remap_node_def not_le)
qed

lemma eval_spine_remap:
  assumes v: "by_address v" and wf: "nodes_wf (length (leaves src)) 0 (nodes src)"
    and remap: "length remap = length (leaves src)"
      "\<forall>k < length (leaves src). 0 \<le> remap ! k \<and> nat (remap ! k) < length (leaves d)
        \<and> address (leaves d ! nat (remap ! k)) = address (leaves src ! k)"
    and nd: "nodes d = pre @ map (remap_node (int (length pre)) remap) (nodes src)"
  shows "0 \<le> index \<Longrightarrow> index < int (length (nodes src)) \<Longrightarrow>
    eval_spine v d f (int (length pre) + index) = eval_spine v src f index"
proof (induction f arbitrary: index)
  case 0
  then show ?case by simp
next
  case (Suc f)
  let ?n = "nodes src ! nat index" and ?b = "int (length pre)"
  have bound: "nat index < length (nodes src)" using Suc.prems by simp
  have idx: "nat (?b + index) = length pre + nat index" using Suc.prems by simp
  have node: "nodes d ! nat (?b + index) = remap_node ?b remap ?n"
    using bound by (simp add: nd idx nth_append)
  from wf bound have n: "node_wf (length (leaves src)) (nat index) ?n" by (simp add: nodes_wf_def)
  have child: "eval_spine v d f (left (remap_node ?b remap ?n)) = eval_spine v src f (left ?n)"
    "eval_spine v d f (right (remap_node ?b remap ?n)) = eval_spine v src f (right ?n)"
  proof -
    have neg: "i < 0 \<Longrightarrow> eval_spine v e f i = None" for i e by (cases f) simp_all
    have lt: "left ?n < int (length (nodes src))" "right ?n < int (length (nodes src))"
      using node_wf_child [OF n] bound by linarith+
    show "eval_spine v d f (left (remap_node ?b remap ?n)) = eval_spine v src f (left ?n)"
      using lt Suc.IH [of "left ?n"]
      by (cases "0 \<le> left ?n") (auto simp: remap_node_def neg add.commute)
    show "eval_spine v d f (right (remap_node ?b remap ?n)) = eval_spine v src f (right ?n)"
      using lt Suc.IH [of "right ?n"]
      by (cases "0 \<le> right ?n") (auto simp: remap_node_def neg add.commute)
  qed
  have len: "nat (?b + index) < length (nodes d)" using bound by (simp add: nd idx)
  have "eval_spine v d (Suc f) (?b + index) =
      eval_node v (leaves d) (remap_node ?b remap ?n) (eval_spine v src f (left ?n)) (eval_spine v src f (right ?n))"
    using Suc.prems len by (simp add: node child)
  also have "\<dots> = eval_spine v src (Suc f) index"
    using eval_node_remap [OF v n remap(1), of "leaves d" ?b] remap(2) Suc.prems bound by simp
  finally show ?case .
qed

text \<open>
  What a splice leaves: the destination's own nodes evaluate as before and the returned index
  evaluates as the source's root.
\<close>

lemma splice_eval:
  assumes v: "by_address v" and d: "spine_wf dst" and s: "spine_wf src"
    and sp: "splice dst src = (out, r)"
  shows "index < int (length (nodes dst)) \<Longrightarrow> eval_spine v out f index = eval_spine v dst f index"
    and "nodes src \<noteq> [] \<Longrightarrow> eval_spine v out f r = eval_spine v src f (root src)"
    and "r = int (length (nodes dst)) + root src"
proof -
  obtain dst1 remap where al: "add_leaves dst (leaves src) = (dst1, remap)" by force
  have dd: "distinct (map address (leaves dst))" using d by (simp add: spine_wf_def)
  note spec = add_leaves_spec [OF al dd]
  obtain xs where xs: "leaves dst1 = leaves dst @ xs" using spec by blast
  have out: "nodes out = nodes dst @ map (remap_node (int (length (nodes dst))) remap) (nodes src)"
    "leaves out = leaves dst1" and r: "r = int (length (nodes dst)) + root src"
    using sp spec by (auto simp: splice_eq [OF al])
  show "r = int (length (nodes dst)) + root src" by (rule r)
  show "eval_spine v out f index = eval_spine v dst f index" if "index < int (length (nodes dst))"
    using d that by (intro eval_spine_extend) (auto simp: spine_wf_def out xs)
  show "eval_spine v out f r = eval_spine v src f (root src)" if "nodes src \<noteq> []"
    unfolding r
  proof (rule eval_spine_remap [OF v _ _ _ out(1)])
    show "nodes_wf (length (leaves src)) 0 (nodes src)" using s by (simp add: spine_wf_def)
    show "length remap = length (leaves src)" using spec by simp
    show "\<forall>k<length (leaves src). 0 \<le> remap ! k \<and> nat (remap ! k) < length (leaves out)
        \<and> address (leaves out ! nat (remap ! k)) = address (leaves src ! k)"
      using spec by (simp add: out)
    show "0 \<le> root src" "root src < int (length (nodes src))"
      using that by (simp_all add: root_def Suc_leI)
  qed
qed

lemma root_bounds: "nodes c \<noteq> [] \<Longrightarrow> 0 \<le> root c \<and> root c < int (length (nodes c))"
  by (cases "nodes c") (simp_all add: root_def)

lemma eval_root_append:
  assumes c: "spine_wf c" and n: "node_wf (length (leaves c)) (length (nodes c)) n"
  shows "spine_wf (fst (addNode c n))"
    and "eval_root v (fst (addNode c n)) =
      eval_node v (leaves c) n (eval_spine v c (length (nodes c)) (left n)) (eval_spine v c (length (nodes c)) (right n))"
proof -
  show "spine_wf (fst (addNode c n))"
    using c n by (simp add: addNode_def spine_wf_def nodes_wf_append)
  have ext: "eval_spine v (fst (addNode c n)) f i = eval_spine v c f i" if "i < int (length (nodes c))" for f i
    using c that by (intro eval_spine_extend [where ls = "[]"]) (auto simp: spine_wf_def addNode_def)
  note lt = node_wf_child [OF n]
  have "eval_root v (fst (addNode c n)) =
      eval_node v (leaves c) n (eval_spine v (fst (addNode c n)) (length (nodes c)) (left n))
        (eval_spine v (fst (addNode c n)) (length (nodes c)) (right n))"
    by (simp add: eval_root_def root_def addNode_def nth_append)
  then show "eval_root v (fst (addNode c n)) =
      eval_node v (leaves c) n (eval_spine v c (length (nodes c)) (left n)) (eval_spine v c (length (nodes c)) (right n))"
    by (simp add: ext [OF lt(1)] ext [OF lt(2)])
qed

text \<open>A binary operator over a splice: its value is the operation on the two roots.\<close>

lemma splice_binary:
  assumes v: "by_address v" and a: "spine_wf a" "0 \<le> la" "la < int (length (nodes a))"
    and b: "spine_wf b" "nodes b \<noteq> []" and k: "k \<in> {1, 2, 3, 4, 5, 6}"
    and sp: "splice a b = (m, r)"
  shows "spine_wf (fst (addNode m (binary_node k la r)))"
    and "eval_root v (fst (addNode m (binary_node k la r))) =
      eval_node v (leaves m) (binary_node k la r) (eval_spine v a (length (nodes a)) la) (eval_root v b)"
proof -
  have m: "spine_wf m" and len: "length (nodes m) = length (nodes a) + length (nodes b)"
    using splice_wf [OF a(1) b(1) sp] by simp_all
  note ev = splice_eval [OF v a(1) b(1) sp]
  have r: "0 \<le> r" "r < int (length (nodes m))"
    using ev(3) root_bounds [OF b(2)] len by linarith+
  have n: "node_wf (length (leaves m)) (length (nodes m)) (binary_node k la r)"
    using a(2,3) r len k by (auto simp: node_wf_def binary_node_def)
  show "spine_wf (fst (addNode m (binary_node k la r)))" by (rule eval_root_append(1) [OF m n])
  have "eval_spine v m (length (nodes m)) la = eval_spine v a (length (nodes a)) la"
    unfolding ev(1) [OF a(3)]
    using a(1,3) len by (intro eval_spine_fuel) (auto simp: spine_wf_def)
  moreover have "eval_spine v m (length (nodes m)) r = eval_root v b"
    unfolding ev(2) [OF b(2)] eval_root_def
    using b(1) root_bounds [OF b(2)] len by (intro eval_spine_fuel) (auto simp: spine_wf_def)
  ultimately show "eval_root v (fst (addNode m (binary_node k la r))) =
      eval_node v (leaves m) (binary_node k la r) (eval_spine v a (length (nodes a)) la) (eval_root v b)"
    unfolding eval_root_append(2) [OF m n] by (simp add: binary_node_def)
qed

lemma spine_wf_empty [simp]: "spine_wf empty_core"
  by (simp add: spine_wf_def empty_core_def nodes_wf_def)

lemma splice_empty_eval:
  assumes v: "by_address v" and a: "spine_wf a" "nodes a \<noteq> []" and sp: "splice empty_core a = (m, l)"
  shows "spine_wf m" and "0 \<le> l" and "l < int (length (nodes m))"
    and "eval_spine v m (length (nodes m)) l = eval_root v a"
proof -
  note ev = splice_eval [OF v spine_wf_empty a(1) sp]
  have len: "length (nodes m) = length (nodes a)"
    using splice_wf(3) [OF spine_wf_empty a(1) sp] by (simp add: empty_core_def)
  show "spine_wf m" by (rule splice_wf(1) [OF spine_wf_empty a(1) sp])
  have l: "l = root a" using ev(3) by (simp add: empty_core_def)
  show "0 \<le> l" "l < int (length (nodes m))" using root_bounds [OF a(2)] by (simp_all add: l len)
  show "eval_spine v m (length (nodes m)) l = eval_root v a"
    using ev(2) [OF a(2)] by (simp add: len eval_root_def)
qed

lemma operators_eval:
  assumes "by_address v" and "spine_wf a" "nodes a \<noteq> []" and "spine_wf b" "nodes b \<noteq> []"
  shows "eval_root v (expr_plus a b) = combine dadd (eval_root v a) (eval_root v b)
       \<and> eval_root v (expr_minus a b) = combine dsub (eval_root v a) (eval_root v b)
       \<and> eval_root v (expr_divide a b) = combine ddiv (eval_root v a) (eval_root v b)
       \<and> eval_root v (expr_scale k a) = map_option (dmul k) (eval_root v a)"
proof (intro conjI)
  note ra = root_bounds [OF assms(3)]
  obtain m r where sp: "splice a b = (m, r)" by force
  note bin = splice_binary(2) [OF assms(1,2) conjunct1 [OF ra] conjunct2 [OF ra] assms(4,5) _ sp]
  show "eval_root v (expr_plus a b) = combine dadd (eval_root v a) (eval_root v b)"
    unfolding expr_plus_def sp by (simp add: bin) (simp add: eval_node_def binary_node_def eval_root_def)
  show "eval_root v (expr_minus a b) = combine dsub (eval_root v a) (eval_root v b)"
    unfolding expr_minus_def sp by (simp add: bin) (simp add: eval_node_def binary_node_def eval_root_def)
  obtain m1 l where sp1: "splice empty_core a = (m1, l)" by force
  obtain m2 r2 where sp2: "splice m1 b = (m2, r2)" by force
  note e = splice_empty_eval [OF assms(1,2,3) sp1]
  note bin2 = splice_binary(2) [OF assms(1) e(1) e(2) e(3) assms(4,5) _ sp2]
  show "eval_root v (expr_divide a b) = combine ddiv (eval_root v a) (eval_root v b)"
    unfolding expr_divide_def sp1 sp2 by (simp add: sp2 bin2) (simp add: eval_node_def binary_node_def e(4))
  have n: "node_wf (length (leaves a)) (length (nodes a))
      \<lparr>kind = 4, left = root a, right = - 1, leaf = - 1, scale = k\<rparr>"
    using ra by (simp add: node_wf_def)
  show "eval_root v (expr_scale k a) = map_option (dmul k) (eval_root v a)"
    unfolding expr_scale_def scaleAll_def eval_root_append(2) [OF assms(2) n]
    using ra by (simp add: eval_node_def eval_root_def)
qed

text \<open>
  The value of a composed expression is the operation on the values of its operands: over any
  valuation that reads a leaf by its address, \<open>a + b\<close>, \<open>a - b\<close>, \<open>a / b\<close> and \<open>k * a\<close> evaluate to the
  sum, the difference, the quotient and the multiple of what \<open>a\<close> and \<open>b\<close> evaluate to, although the
  operands share one deduplicated leaf list.
\<close>

theorem expression_operators_compose:
  assumes "by_address v" and "spine_wf a" "nodes a \<noteq> []" and "spine_wf b" "nodes b \<noteq> []"
  shows "eval_root v (expr_plus a b) = combine dadd (eval_root v a) (eval_root v b)
       \<and> eval_root v (expr_minus a b) = combine dsub (eval_root v a) (eval_root v b)
       \<and> eval_root v (expr_divide a b) = combine ddiv (eval_root v a) (eval_root v b)
       \<and> eval_root v (expr_scale k a) = map_option (dmul k) (eval_root v a)"
  using assms by (rule operators_eval)

text \<open>A concrete leaf for the closed instances below and in the theories that follow.\<close>

definition named_leaf :: "string \<Rightarrow> string \<Rightarrow> leaf_core" where
  "named_leaf path n =
     \<lparr>address = path @ CHR ''/'' # n, leaf_name = n, leaf_description = [], leaf_unit = ''ops'',
      leaf_avail = COUNTABLE, leaf_mode = SYSCALL, frequencyHz = 0, leaf_scaled = False\<rparr>"

lemma expr_of_leaf_wf: "spine_wf (expr_of_leaf l)" "nodes (expr_of_leaf l) \<noteq> []"
  by (simp_all add: expr_of_leaf_def addLeaf_def addNode_def empty_core_def spine_wf_def node_wf_def
      nodes_wf_def)

theorem expression_operators_compose_witness:
  "eval_root (\<lambda>l. Some one64)
     (expr_plus (expr_of_leaf (named_leaf ''cpu'' ''a'')) (expr_of_leaf (named_leaf ''cpu'' ''a'')))
   = Some (dadd one64 one64)"
proof -
  let ?e = "expr_of_leaf (named_leaf ''cpu'' ''a'')" and ?v = "\<lambda>l::leaf_core. Some one64"
  have v: "by_address ?v" by (simp add: by_address_def)
  have "eval_root ?v ?e = Some one64"
    by (simp add: eval_root_def root_def expr_of_leaf_def addLeaf_def addNode_def empty_core_def eval_node_def)
  then show ?thesis
    using expression_operators_compose [OF v expr_of_leaf_wf expr_of_leaf_wf, of "named_leaf ''cpu'' ''a''" "named_leaf ''cpu'' ''a''"]
    by simp
qed

lemma operators_wf:
  assumes "spine_wf a" "nodes a \<noteq> []" and "spine_wf b" "nodes b \<noteq> []"
  shows "spine_wf (expr_plus a b) \<and> spine_wf (expr_minus a b) \<and> spine_wf (expr_divide a b)
       \<and> spine_wf (expr_scale k a)"
proof (intro conjI)
  have v: "by_address (\<lambda>l. None)" by (simp add: by_address_def)
  note ra = root_bounds [OF assms(2)]
  obtain m r where sp: "splice a b = (m, r)" by force
  note bin = splice_binary(1) [OF v assms(1) conjunct1 [OF ra] conjunct2 [OF ra] assms(3,4) _ sp]
  show "spine_wf (expr_plus a b)" "spine_wf (expr_minus a b)"
    by (simp_all add: expr_plus_def expr_minus_def sp bin)
  obtain m1 l where sp1: "splice empty_core a = (m1, l)" by force
  obtain m2 r2 where sp2: "splice m1 b = (m2, r2)" by force
  note e = splice_empty_eval [OF v assms(1,2) sp1]
  show "spine_wf (expr_divide a b)"
    by (simp add: expr_divide_def sp1 sp2 splice_binary(1) [OF v e(1) e(2) e(3) assms(3,4) _ sp2])
  have "node_wf (length (leaves a)) (length (nodes a))
      \<lparr>kind = 4, left = root a, right = - 1, leaf = - 1, scale = k\<rparr>"
    using ra by (simp add: node_wf_def)
  then show "spine_wf (expr_scale k a)"
    unfolding expr_scale_def scaleAll_def by (rule eval_root_append(1) [OF assms(1)])
qed

text \<open>
  Every operator of an expression keeps the spine well formed: children stand before their
  parent, leaf indices name standing leaves, and no address appears twice, so a fold never reads
  outside the node or the leaf vector.
\<close>

theorem expression_operators_well_formed:
  assumes "spine_wf a" "nodes a \<noteq> []" and "spine_wf b" "nodes b \<noteq> []"
  shows "spine_wf (expr_plus a b) \<and> spine_wf (expr_minus a b) \<and> spine_wf (expr_divide a b)
       \<and> spine_wf (expr_scale k a)"
  using assms by (rule operators_wf)

theorem expression_operators_well_formed_witness:
  "spine_wf (expr_divide (expr_of_leaf (named_leaf ''cpu'' ''a'')) (expr_of_leaf (named_leaf ''cpu'' ''b'')))"
  using expression_operators_well_formed [OF expr_of_leaf_wf expr_of_leaf_wf] by blast

end
