(* ===== verification/Tree.thy ===== *)
theory Tree
  imports Suggest Spine Ordered_Map
begin

text \<open>
  The system tree of \<open>source/counters/system.cpp\<close> and \<open>source/counters/detail/core.hpp\<close>: object
  seeds are staged and merged by \<open>registerProvider\<close>, which changes nothing unless a provider's whole
  batch validates; objects are resolved by canonical path or alias, selected by kind and filters,
  and walked by parent and children; the catalog of an object states the target kinds of its leaves.
  \<open>tree_wf\<close> is what registration keeps.
\<close>

subsection \<open>Data\<close>

record catalog_seed =
  cs_name :: string
  cs_description :: string
  cs_unit :: string
  cs_avail :: availability
  cs_mode :: read_mode
  cs_frequencyHz :: u64
  cs_scaled :: bool
  cs_hasRatioPair :: bool

record object_seed =
  os_kind :: string
  os_path :: string
  os_alias :: string
  os_description :: string
  os_entries :: "catalog_seed list"
  os_programmableCounters :: "nat option"

record leaf_record =
  lr_core :: leaf_core
  lr_hasRatioPair :: bool
  lr_providerIndex :: int

record tree_node =
  tn_kind :: string
  tn_path :: string
  tn_alias :: string
  tn_description :: string
  tn_leaves :: "leaf_record list"

text \<open>\<open>System::Impl\<close>: the providers are counted, their behaviour is that of their own component.\<close>

record system =
  sys_providers :: nat
  sys_objects :: "(string, tree_node) omap"
  sys_aliases :: "(string, string) omap"
  sys_limits :: "(string, nat) omap"
  sys_open :: bool

definition machine_root :: tree_node where
  "machine_root = \<lparr>tn_kind = ''machine'', tn_path = ''machine'', tn_alias = [],
     tn_description = ''local machine'', tn_leaves = []\<rparr>"

definition new_system :: system where
  "new_system = \<lparr>sys_providers = 0, sys_objects = [(''machine'', machine_root)],
     sys_aliases = [], sys_limits = [], sys_open = False\<rparr>"

definition ensureOpen :: "system \<Rightarrow> system" where
  "ensureOpen s = s\<lparr>sys_open := True\<rparr>"

definition canonicalize :: "system \<Rightarrow> string \<Rightarrow> string" where
  "canonicalize s path = (case om_find (sys_aliases s) path of Some p \<Rightarrow> p | None \<Rightarrow> path)"

definition find_node :: "system \<Rightarrow> string \<Rightarrow> tree_node option" where
  "find_node s path = om_find (sys_objects s) (canonicalize s path)"

subsection \<open>Registration\<close>

definition leaf_named :: "string \<Rightarrow> leaf_record \<Rightarrow> bool" where
  "leaf_named name l \<longleftrightarrow> leaf_name (lr_core l) = name"

definition leaf_of_seed :: "string \<Rightarrow> int \<Rightarrow> catalog_seed \<Rightarrow> leaf_record" where
  "leaf_of_seed path providerIndex e =
     \<lparr>lr_core = \<lparr>address = path @ ''/'' @ cs_name e, leaf_name = cs_name e,
        leaf_description = cs_description e, leaf_unit = cs_unit e, leaf_avail = cs_avail e,
        leaf_mode = cs_mode e, frequencyHz = cs_frequencyHz e, leaf_scaled = cs_scaled e\<rparr>,
      lr_hasRatioPair = cs_hasRatioPair e, lr_providerIndex = providerIndex\<rparr>"

fun build_loop ::
  "string \<Rightarrow> bool \<Rightarrow> leaf_record list \<Rightarrow> int \<Rightarrow> leaf_record list \<Rightarrow> catalog_seed list \<Rightarrow>
   leaf_record list expected" where
  "build_loop path onRoot rootLeaves providerIndex acc [] = Inr acc"
| "build_loop path onRoot rootLeaves providerIndex acc (e # es) =
     (case unitFromToken (cs_unit e) of
        Inl er \<Rightarrow> Inl er
      | Inr _ \<Rightarrow>
          let name = cs_name e;
              taken = list_ex (leaf_named name) acc;
              clashes = onRoot \<and> list_ex (leaf_named name) rootLeaves
          in if taken \<or> clashes
             then Inl (plain_error (''duplicate counter name '' @ quoted name
                    @ '' within object '' @ quoted path @ '' (FR-008)''))
             else build_loop path onRoot rootLeaves providerIndex
                    (acc @ [leaf_of_seed path providerIndex e]) es)"

definition buildLeaves ::
  "object_seed \<Rightarrow> string \<Rightarrow> bool \<Rightarrow> leaf_record list \<Rightarrow> int \<Rightarrow> leaf_record list expected" where
  "buildLeaves seed path onRoot rootLeaves providerIndex =
     build_loop path onRoot rootLeaves providerIndex [] (os_entries seed)"

definition aliasIsHeld :: "(string, string) omap \<Rightarrow> (string \<times> string) list \<Rightarrow> string \<Rightarrow> bool" where
  "aliasIsHeld merged staged al \<longleftrightarrow> om_contains merged al \<or> list_ex (\<lambda>one. fst one = al) staged"

record staging =
  st_nodes :: "tree_node list"
  st_rootLeaves :: "leaf_record list"
  st_aliases :: "(string \<times> string) list"
  st_limits :: "(string \<times> nat) list"

definition stage_seed :: "system \<Rightarrow> int \<Rightarrow> object_seed \<Rightarrow> staging \<Rightarrow> staging expected" where
  "stage_seed s providerIndex seed st =
     (let path = os_path seed; onRoot = (path = ''machine'')
      in if \<not> onRoot \<and> (om_contains (sys_objects s) path \<or> list_ex (\<lambda>n. tn_path n = path) (st_nodes st))
         then Inl (plain_error (''duplicate object path '' @ quoted path @ '' under one parent (FR-008)''))
         else
           (case buildLeaves seed path onRoot (st_rootLeaves st) providerIndex of
              Inl er \<Rightarrow> Inl er
            | Inr ls \<Rightarrow>
                let st1 = (case os_programmableCounters seed of
                             None \<Rightarrow> st
                           | Some n \<Rightarrow> st\<lparr>st_limits := st_limits st @ [(path, n)]\<rparr>)
                in if onRoot then Inr (st1\<lparr>st_rootLeaves := st_rootLeaves st1 @ ls\<rparr>)
                   else
                     let node = \<lparr>tn_kind = os_kind seed, tn_path = path, tn_alias = os_alias seed,
                                 tn_description = os_description seed, tn_leaves = ls\<rparr>
                     in if os_alias seed \<noteq> []
                        then if aliasIsHeld (sys_aliases s) (st_aliases st1) (os_alias seed)
                             then Inl (plain_error (''duplicate platform alias '' @ quoted (os_alias seed)
                                    @ '' already held by another object (FR-002)''))
                             else Inr (st1\<lparr>st_aliases := st_aliases st1 @ [(os_alias seed, path)],
                                           st_nodes := st_nodes st1 @ [node]\<rparr>)
                        else Inr (st1\<lparr>st_nodes := st_nodes st1 @ [node]\<rparr>)))"

fun stage_all :: "system \<Rightarrow> int \<Rightarrow> object_seed list \<Rightarrow> staging \<Rightarrow> staging expected" where
  "stage_all s providerIndex [] st = Inr st"
| "stage_all s providerIndex (seed # seeds) st =
     (case stage_seed s providerIndex seed st of
        Inl er \<Rightarrow> Inl er
      | Inr st' \<Rightarrow> stage_all s providerIndex seeds st')"

definition commit :: "system \<Rightarrow> tree_node \<Rightarrow> staging \<Rightarrow> system" where
  "commit s machine st =
     s\<lparr>sys_objects :=
         fold (\<lambda>(p, n). om_emplace p n) (map (\<lambda>n. (tn_path n, n)) (st_nodes st))
           (om_assign ''machine'' (machine\<lparr>tn_leaves := st_rootLeaves st\<rparr>) (sys_objects s)),
       sys_aliases := fold (\<lambda>(a, p). om_emplace a p) (st_aliases st) (sys_aliases s),
       sys_limits := fold (\<lambda>(p, n). om_assign p n) (st_limits st) (sys_limits s),
       sys_providers := Suc (sys_providers s)\<rparr>"

text \<open>
  \<open>seeds\<close> is what the provider's \<open>enumerate\<close> hands the staging sink.  \<open>None\<close> is the exception of
  \<open>objects.at("machine")\<close> on a tree without its root.
\<close>

definition registerProvider :: "system \<Rightarrow> object_seed list \<Rightarrow> (error + system) checked" where
  "registerProvider s seeds =
     (if sys_open s
      then Some (Inl (plain_error ''provider registration after the system opened (FR-009)''))
      else
        case om_find (sys_objects s) ''machine'' of
          None \<Rightarrow> None
        | Some machine \<Rightarrow>
            (case stage_all s (int (sys_providers s)) seeds
                    \<lparr>st_nodes = [], st_rootLeaves = tn_leaves machine, st_aliases = [], st_limits = []\<rparr> of
               Inl er \<Rightarrow> Some (Inl er)
             | Inr st \<Rightarrow> Some (Inr (commit s machine st))))"

subsection \<open>Resolution and walks\<close>

definition node_candidates :: "system \<Rightarrow> (string \<times> string) list" where
  "node_candidates s = map (\<lambda>(p, n). (p, tn_description n)) (sys_objects s)"

definition object_at :: "system \<Rightarrow> string \<Rightarrow> system \<times> (error + tree_node)" where
  "object_at s path =
     (let s' = ensureOpen s; canonical = canonicalize s' path
      in (s', case om_find (sys_objects s') canonical of
                None \<Rightarrow> Inl \<lparr>message = ''no object at path '' @ quoted path,
                           suggestions = nearMisses path (node_candidates s')\<rparr>
              | Some n \<Rightarrow> Inr n))"

definition tsc :: "system \<Rightarrow> leaf_core expected" where
  "tsc s =
     (case find_node s ''machine'' of
        None \<Rightarrow> Inl (plain_error (''no clock provider is registered, so the tree holds no time-stamp ''
                 @ ''entry to resolve (specs/008-timestamp-counter FR-007)''))
      | Some node \<Rightarrow>
          if tn_leaves node = []
          then Inl (plain_error (''no clock provider is registered, so the tree holds no time-stamp ''
                 @ ''entry to resolve (specs/008-timestamp-counter FR-007)''))
          else
            (case List.find (leaf_named ''tsc'') (tn_leaves node) of
               Some l \<Rightarrow> Inr (lr_core l)
             | None \<Rightarrow> Inl (plain_error (''the catalog publishes no time-stamp entry; a clock provider ''
                 @ ''seeds it where the build executes the instruction, and no registered provider ''
                 @ ''did (specs/008-timestamp-counter FR-008)''))))"

function path_from :: "string \<Rightarrow> nat \<Rightarrow> string list" where
  "path_from path start =
     (case find_char (CHR ''/'') path start of
        None \<Rightarrow> [substr path start (length path - start)]
      | Some e \<Rightarrow> substr path start (e - start) # path_from path (e + 1))"
  by pat_completeness auto
termination
  by (relation "measure (\<lambda>(path, start). length path - start)") (auto dest!: find_char_ge)

declare path_from.simps [simp del]

definition pathComponents :: "string \<Rightarrow> string list" where
  "pathComponents path = path_from path 0"

definition pathCarries :: "string \<Rightarrow> string \<times> string \<Rightarrow> bool" where
  "pathCarries path one =
     (let wanted = fst one @ ''-'' @ snd one in list_ex (\<lambda>c. c = wanted) (pathComponents path))"

definition keyDefined :: "(string, tree_node) omap \<Rightarrow> string \<Rightarrow> string \<times> string \<Rightarrow> bool" where
  "keyDefined objs k one =
     (if fst one = ''package'' \<or> fst one = ''core'' then True
      else list_ex (\<lambda>(path, node). tn_kind node = k
             \<and> list_ex (\<lambda>c. starts_with c (fst one @ ''-'')) (pathComponents path)) objs)"

definition objects_of :: "system \<Rightarrow> string \<Rightarrow> (string \<times> string) list \<Rightarrow> system \<times> (error + tree_node list)" where
  "objects_of s k filters =
     (let s' = ensureOpen s
      in (s',
          if \<not> list_ex (\<lambda>(path, node). tn_kind node = k) (sys_objects s')
          then Inl (plain_error (''no object of kind '' @ quoted k @ '' in the tree (FR-003)''))
          else
            (case List.find (\<lambda>one. \<not> keyDefined (sys_objects s') k one) filters of
               Some one \<Rightarrow> Inl (plain_error (''unknown filter key '' @ quoted (fst one) @ '' (FR-003)''))
             | None \<Rightarrow>
                 Inr (map snd (List.filter (\<lambda>(path, node). tn_kind node = k
                        \<and> list_all (pathCarries path) filters) (sys_objects s'))))))"

definition programmableCounters :: "system \<Rightarrow> tree_node \<Rightarrow> nat option" where
  "programmableCounters s node = om_find (sys_limits s) (tn_path node)"

text \<open>
  \<open>Object::parent\<close>: the handle of the parent path, null for the root and for a parent no object
  stands at.  \<open>handleFor\<close> reads \<open>objects.at(parentPath)\<close>; the outer \<open>None\<close> is its exception.
\<close>

definition parent_path :: "tree_node \<Rightarrow> string" where
  "parent_path node =
     (case rfind_char (CHR ''/'') (tn_path node) of
        None \<Rightarrow> ''machine''
      | Some slash \<Rightarrow> take slash (tn_path node))"

definition parent_of :: "system \<Rightarrow> tree_node \<Rightarrow> tree_node option checked" where
  "parent_of s node =
     (if tn_path node = ''machine'' then Some None
      else if find_node s (parent_path node) = None then Some None
      else map_option Some (om_find (sys_objects s) (parent_path node)))"

definition is_direct_child :: "string \<Rightarrow> string \<Rightarrow> bool" where
  "is_direct_child path objectPath =
     (if path = ''machine''
      then find_char (CHR ''/'') objectPath 0 = None \<and> objectPath \<noteq> ''machine''
      else length objectPath > length path + 1
        \<and> starts_with objectPath (path @ ''/'')
        \<and> find_char (CHR ''/'') objectPath (length path + 1) = None)"

definition children_of :: "system \<Rightarrow> tree_node \<Rightarrow> tree_node list" where
  "children_of s node =
     map snd (List.filter (\<lambda>(p, n). is_direct_child (tn_path node) p) (sys_objects s))"

subsection \<open>The catalog of one object\<close>

record catalog_entry =
  ce_name :: string
  ce_description :: string
  ce_unit :: unit_kind
  ce_avail :: availability
  ce_mode :: read_mode
  ce_targets :: target_mask
  ce_frequencyHz :: u64
  ce_scaled :: bool

type_synonym probed_table = "(string, target_mask) omap"

definition noteProbedKinds :: "string \<Rightarrow> target_mask \<Rightarrow> probed_table \<Rightarrow> probed_table" where
  "noteProbedKinds addr probed t = om_assign addr probed t"

definition probedKindsAt :: "probed_table \<Rightarrow> string \<Rightarrow> target_mask" where
  "probedKindsAt t addr = (case om_find t addr of None \<Rightarrow> 0 | Some m \<Rightarrow> m)"

definition settledTargets :: "availability \<Rightarrow> target_mask \<Rightarrow> string \<Rightarrow> string \<Rightarrow> target_mask" where
  "settledTargets probed probedKinds k path =
     (let countable = (probed = COUNTABLE);
          coreDevice = (path = ''cpu'' \<or> path = ''cpu_core'' \<or> path = ''cpu_atom'');
          deviceScoped = (k = ''pmu'' \<and> \<not> coreDevice);
          scoped = (if deviceScoped then kTargetCpuBit else or kTargetThreadBit kTargetCpuBit);
          named = (if probedKinds = 0 then scoped else probedKinds)
      in if countable then named else 0)"

fun counters_loop :: "probed_table \<Rightarrow> tree_node \<Rightarrow> leaf_record list \<Rightarrow> catalog_entry list checked" where
  "counters_loop t node [] = Some []"
| "counters_loop t node (l # ls) =
     (case unitFromToken (leaf_unit (lr_core l)) of
        Inl _ \<Rightarrow> None
      | Inr u \<Rightarrow>
          let probed = probedKindsAt t (address (lr_core l));
              targets = settledTargets (leaf_avail (lr_core l)) probed (tn_kind node) (tn_path node)
          in if (leaf_avail (lr_core l) \<noteq> COUNTABLE) = (targets = 0)
             then map_option (Cons \<lparr>ce_name = leaf_name (lr_core l),
                    ce_description = leaf_description (lr_core l), ce_unit = u,
                    ce_avail = leaf_avail (lr_core l), ce_mode = leaf_mode (lr_core l),
                    ce_targets = targets, ce_frequencyHz = frequencyHz (lr_core l),
                    ce_scaled = leaf_scaled (lr_core l)\<rparr>) (counters_loop t node ls)
             else None)"

definition counters_of :: "probed_table \<Rightarrow> tree_node \<Rightarrow> catalog_entry list checked" where
  "counters_of t node = counters_loop t node (tn_leaves node)"

definition resolveLeafCore :: "tree_node \<Rightarrow> string \<Rightarrow> leaf_core expected" where
  "resolveLeafCore node name =
     (case List.find (leaf_named name) (tn_leaves node) of
        Some l \<Rightarrow> Inr (lr_core l)
      | None \<Rightarrow>
          Inl \<lparr>message = ''object '' @ quoted (tn_path node) @ '' has no counter named '' @ quoted name
                 @ '' (FR-008)'',
               suggestions = nearMisses name
                 (map (\<lambda>l. (leaf_name (lr_core l), leaf_description (lr_core l))) (tn_leaves node))\<rparr>)"

text \<open>
  \<open>Object::counter<D>\<close>: the dimension the caller asks for is the argument \<open>d\<close>; the outer \<open>None\<close>
  is a failed postcondition on the stored unit.
\<close>

definition dimension_text :: "dimension \<Rightarrow> string" where
  "dimension_text d = ''time^'' @ decimal_int (time_exp d) @ '' x events^'' @ decimal_int (events_exp d)"

definition counter_of :: "tree_node \<Rightarrow> dimension \<Rightarrow> string \<Rightarrow> leaf_core expected checked" where
  "counter_of node d name =
     (case resolveLeafCore node name of
        Inl er \<Rightarrow> Some (Inl er)
      | Inr lf \<Rightarrow>
          (case unitFromToken (leaf_unit lf) of
             Inl _ \<Rightarrow> None
           | Inr u \<Rightarrow>
               (case dimensionOf u of
                  Inl _ \<Rightarrow> None
                | Inr mapped \<Rightarrow>
                    if time_exp mapped \<noteq> time_exp d \<or> events_exp mapped \<noteq> events_exp d
                    then Some (Inl (plain_error (''counter '' @ quoted name @ '' has unit ''
                           @ quoted (leaf_unit lf) @ '' (dimension '' @ dimension_text mapped
                           @ ''); requested dimension '' @ dimension_text d)))
                    else Some (Inr lf))))"

subsection \<open>The invariant of the tree\<close>

definition leaf_ok :: "nat \<Rightarrow> string \<Rightarrow> leaf_record \<Rightarrow> bool" where
  "leaf_ok np path l \<longleftrightarrow>
     address (lr_core l) = path @ ''/'' @ leaf_name (lr_core l)
     \<and> has_value (unitFromToken (leaf_unit (lr_core l)))
     \<and> 0 \<le> lr_providerIndex l \<and> lr_providerIndex l < int np"

definition leaves_ok :: "nat \<Rightarrow> string \<Rightarrow> leaf_record list \<Rightarrow> bool" where
  "leaves_ok np path ls \<longleftrightarrow>
     distinct (map (\<lambda>l. leaf_name (lr_core l)) ls) \<and> (\<forall>l \<in> set ls. leaf_ok np path l)"

definition node_ok :: "nat \<Rightarrow> tree_node \<Rightarrow> bool" where
  "node_ok np n \<longleftrightarrow> leaves_ok np (tn_path n) (tn_leaves n)"

definition tree_wf :: "system \<Rightarrow> bool" where
  "tree_wf s \<longleftrightarrow>
     om_wf (sys_objects s) \<and> om_wf (sys_aliases s) \<and> om_wf (sys_limits s)
     \<and> om_contains (sys_objects s) ''machine''
     \<and> (\<forall>(p, n) \<in> set (sys_objects s). tn_path n = p \<and> node_ok (sys_providers s) n)
     \<and> (\<forall>(a, p) \<in> set (sys_aliases s). om_contains (sys_objects s) p)
     \<and> (\<forall>(p, k) \<in> set (sys_limits s). om_contains (sys_objects s) p)"

lemma new_system_wf: "tree_wf new_system"
  by (simp add: tree_wf_def new_system_def machine_root_def om_wf_Cons om_contains_def om_find_Cons
      node_ok_def leaves_ok_def)

lemma leaf_ok_mono: "leaf_ok np p l \<Longrightarrow> np \<le> np' \<Longrightarrow> leaf_ok np' p l"
  by (auto simp: leaf_ok_def)

lemma leaves_ok_mono: "leaves_ok np p ls \<Longrightarrow> np \<le> np' \<Longrightarrow> leaves_ok np' p ls"
  by (auto simp: leaves_ok_def intro: leaf_ok_mono)

lemma node_ok_mono: "node_ok np n \<Longrightarrow> np \<le> np' \<Longrightarrow> node_ok np' n"
  by (auto simp: node_ok_def intro: leaves_ok_mono)

lemma list_ex_named:
  "list_ex (leaf_named name) ls \<longleftrightarrow> name \<in> set (map (\<lambda>l. leaf_name (lr_core l)) ls)"
  by (auto simp: list_ex_iff leaf_named_def)

lemma build_loop_ok:
  assumes "build_loop path onRoot rls pi acc es = Inr out" and "leaves_ok np path acc"
    and "0 \<le> pi" "pi < int np"
    and "onRoot \<Longrightarrow> set (map (\<lambda>l. leaf_name (lr_core l)) acc) \<inter> set (map (\<lambda>l. leaf_name (lr_core l)) rls) = {}"
  shows "leaves_ok np path out
    \<and> (onRoot \<longrightarrow> set (map (\<lambda>l. leaf_name (lr_core l)) out) \<inter> set (map (\<lambda>l. leaf_name (lr_core l)) rls) = {})"
  using assms
proof (induction es arbitrary: acc)
  case Nil
  then show ?case by auto
next
  case (Cons e es)
  let ?l = "leaf_of_seed path pi e"
  from Cons.prems(1) obtain u where u: "unitFromToken (cs_unit e) = Inr u"
    by (auto split: sum.splits)
  from Cons.prems(1) u have fresh: "\<not> list_ex (leaf_named (cs_name e)) acc"
    "\<not> (onRoot \<and> list_ex (leaf_named (cs_name e)) rls)"
    and rest: "build_loop path onRoot rls pi (acc @ [?l]) es = Inr out"
    by (auto simp: Let_def split: if_splits)
  have name: "leaf_name (lr_core ?l) = cs_name e" by (simp add: leaf_of_seed_def)
  have "leaf_ok np path ?l"
    using Cons.prems(3,4) u by (simp add: leaf_ok_def leaf_of_seed_def has_value_def)
  with Cons.prems(2) fresh(1) have acc: "leaves_ok np path (acc @ [?l])"
    by (auto simp: leaves_ok_def list_ex_named name)
  show ?case
    by (rule Cons.IH [OF rest acc Cons.prems(3,4)]) (use Cons.prems(5) fresh(2) in \<open>auto simp: list_ex_named name\<close>)
qed

text \<open>What the staging area holds while a batch validates.\<close>

definition staging_ok :: "system \<Rightarrow> staging \<Rightarrow> bool" where
  "staging_ok s st \<longleftrightarrow>
     distinct (map tn_path (st_nodes st))
     \<and> (\<forall>n \<in> set (st_nodes st). tn_path n \<noteq> ''machine'' \<and> \<not> om_contains (sys_objects s) (tn_path n)
          \<and> node_ok (Suc (sys_providers s)) n)
     \<and> leaves_ok (Suc (sys_providers s)) ''machine'' (st_rootLeaves st)
     \<and> (\<forall>(a, p) \<in> set (st_aliases st). p \<in> tn_path ` set (st_nodes st))
     \<and> (\<forall>(p, k) \<in> set (st_limits st). p = ''machine'' \<or> p \<in> tn_path ` set (st_nodes st))"

lemma stage_seed_ok:
  assumes "stage_seed s (int (sys_providers s)) seed st = Inr st'" and ok: "staging_ok s st"
  shows "staging_ok s st'"
proof -
  let ?path = "os_path seed" and ?np = "Suc (sys_providers s)" and ?root = "os_path seed = ''machine''"
  have fresh: "\<not> ?root \<Longrightarrow> \<not> om_contains (sys_objects s) ?path \<and> \<not> list_ex (\<lambda>n. tn_path n = ?path) (st_nodes st)"
    using assms(1) by (auto simp: stage_seed_def Let_def split: if_splits)
  obtain ls where ls: "buildLeaves seed ?path ?root (st_rootLeaves st) (int (sys_providers s)) = Inr ls"
    using assms(1) by (auto simp: stage_seed_def Let_def split: if_splits sum.splits)
  have built: "leaves_ok ?np ?path ls"
    and apart: "?root \<Longrightarrow> set (map (\<lambda>l. leaf_name (lr_core l)) ls)
      \<inter> set (map (\<lambda>l. leaf_name (lr_core l)) (st_rootLeaves st)) = {}"
    using build_loop_ok [OF ls [unfolded buildLeaves_def], of ?np] by (auto simp: leaves_ok_def)
  define st1 where st1: "st1 = (case os_programmableCounters seed of None \<Rightarrow> st
      | Some n \<Rightarrow> st\<lparr>st_limits := st_limits st @ [(?path, n)]\<rparr>)"
  have same: "st_nodes st1 = st_nodes st" "st_rootLeaves st1 = st_rootLeaves st"
    "st_aliases st1 = st_aliases st" "set (st_limits st1) \<subseteq> set (st_limits st) \<union> {?path} \<times> UNIV"
    by (auto simp: st1 split: option.splits)
  show ?thesis
  proof (cases ?root)
    case True
    with assms(1) ls have st': "st' = st1\<lparr>st_rootLeaves := st_rootLeaves st @ ls\<rparr>"
      by (cases "os_programmableCounters seed") (auto simp: stage_seed_def Let_def st1)
    have "leaves_ok ?np ''machine'' (st_rootLeaves st @ ls)"
      using ok built apart True by (auto simp: staging_ok_def leaves_ok_def)
    with ok same True show ?thesis by (auto simp: staging_ok_def st')
  next
    case False
    let ?node = "\<lparr>tn_kind = os_kind seed, tn_path = ?path, tn_alias = os_alias seed,
        tn_description = os_description seed, tn_leaves = ls\<rparr>"
    have st': "st_nodes st' = st_nodes st @ [?node] \<and> st_rootLeaves st' = st_rootLeaves st
        \<and> set (st_aliases st') \<subseteq> set (st_aliases st) \<union> {(os_alias seed, ?path)}
        \<and> st_limits st' = st_limits st1"
      using assms(1) ls False fresh
      by (cases "os_programmableCounters seed") (auto simp: stage_seed_def Let_def st1 split: if_splits)
    have "node_ok ?np ?node" using built by (simp add: node_ok_def)
    moreover have "?path \<notin> tn_path ` set (st_nodes st)" and "\<not> om_contains (sys_objects s) ?path"
      using fresh False by (auto simp: list_ex_iff)
    moreover have "set (st_limits st') \<subseteq> set (st_limits st) \<union> {?path} \<times> UNIV"
      using st' same by simp
    ultimately show ?thesis
      using ok st' False unfolding staging_ok_def by auto
  qed
qed

lemma stage_all_ok:
  "stage_all s (int (sys_providers s)) seeds st = Inr st' \<Longrightarrow> staging_ok s st \<Longrightarrow> staging_ok s st'"
  by (induction seeds arbitrary: st) (auto split: sum.splits dest: stage_seed_ok)

lemma commit_wf:
  assumes wf: "tree_wf s" and ok: "staging_ok s st" and m: "om_find (sys_objects s) ''machine'' = Some machine"
  shows "tree_wf (commit s machine st)"
proof -
  let ?s' = "commit s machine st" and ?np = "Suc (sys_providers s)"
  let ?objs1 = "om_assign ''machine'' (machine\<lparr>tn_leaves := st_rootLeaves st\<rparr>) (sys_objects s)"
  let ?es = "map (\<lambda>n. (tn_path n, n)) (st_nodes st)"
  have owf: "om_wf ?objs1" using wf by (simp add: tree_wf_def om_wf_assign)
  have wf': "om_wf (sys_objects ?s')" "om_wf (sys_aliases ?s')" "om_wf (sys_limits ?s')"
    using wf owf unfolding tree_wf_def commit_def
    by (simp_all add: emplacing.invar_fill assigning.invar_fill)
  have dom: "om_contains (sys_objects ?s') p \<longleftrightarrow>
      p \<in> tn_path ` set (st_nodes st) \<or> om_contains (sys_objects s) p" for p
  proof -
    have "om_contains ?objs1 p \<longleftrightarrow> om_contains (sys_objects s) p"
      using wf m by (auto simp: om_contains_def tree_wf_def om_find_assign)
    then show ?thesis
      unfolding om_contains_def commit_def
      using emplacing.lookup_fill_dom [OF owf, of ?es p] by (auto simp: image_image)
  qed
  have old: "tn_path n = p \<and> node_ok ?np n" if "om_find ?objs1 p = Some n" for p n
  proof (cases "p = ''machine''")
    case True
    have "tn_path machine = ''machine''" using wf om_find_Some_in [OF m] by (auto simp: tree_wf_def)
    with that True wf ok show ?thesis
      by (auto simp: om_find_assign tree_wf_def node_ok_def staging_ok_def)
  next
    case False
    with that wf have "(p, n) \<in> set (sys_objects s)"
      by (auto simp: om_find_assign tree_wf_def dest: om_find_Some_in)
    with wf show ?thesis by (auto simp: tree_wf_def intro: node_ok_mono)
  qed
  have nodes: "tn_path n = p \<and> node_ok ?np n" if "(p, n) \<in> set (sys_objects ?s')" for p n
  proof -
    have find: "om_find (fold (\<lambda>(p, n). om_emplace p n) ?es ?objs1) p = Some n"
      using that wf'(1) om_in_find by (fastforce simp: commit_def)
    show ?thesis
    proof (cases "p \<in> fst ` set ?es")
      case True
      then obtain n' where n': "n' \<in> set (st_nodes st)" "tn_path n' = p" by auto
      have dist: "distinct (map fst ?es)" using ok by (simp add: staging_ok_def comp_def)
      have "om_find ?objs1 p = None"
        using ok n' wf m by (auto simp: staging_ok_def om_find_assign om_contains_def tree_wf_def)
      with n' have "om_find (fold (\<lambda>(p, n). om_emplace p n) ?es ?objs1) p = Some n'"
        by (intro emplacing.lookup_fill_distinct [OF owf dist]) auto
      with find n' ok show ?thesis by (auto simp: staging_ok_def)
    next
      case False
      with find emplacing.lookup_fill_other [OF owf False] have "om_find ?objs1 p = Some n" by simp
      then show ?thesis by (rule old)
    qed
  qed
  have aliases: "om_contains (sys_objects ?s') p" if "(a, p) \<in> set (sys_aliases ?s')" for a p
  proof -
    have "om_find (fold (\<lambda>(a, p). om_emplace a p) (st_aliases st) (sys_aliases s)) a = Some p"
      using that wf'(2) om_in_find by (fastforce simp: commit_def)
    then have "(a, p) \<in> set (st_aliases st) \<or> om_find (sys_aliases s) a = Some p"
      using wf by (intro emplace_fill_source) (simp_all add: tree_wf_def)
    then show ?thesis
      using ok wf by (auto simp: dom staging_ok_def tree_wf_def dest!: om_find_Some_in)
  qed
  have limits: "om_contains (sys_objects ?s') p" if "(p, k) \<in> set (sys_limits ?s')" for p k
  proof -
    have "om_find (fold (\<lambda>(p, n). om_assign p n) (st_limits st) (sys_limits s)) p = Some k"
      using that wf'(3) om_in_find by (fastforce simp: commit_def)
    then have "p \<in> fst ` set (st_limits st) \<or> om_find (sys_limits s) p \<noteq> None"
      using wf assigning.lookup_fill_dom [of "sys_limits s" "st_limits st" p] by (auto simp: tree_wf_def)
    then show ?thesis
      using ok wf m by (fastforce simp: dom staging_ok_def tree_wf_def dest!: om_find_Some_in)
  qed
  have np: "sys_providers ?s' = ?np" by (simp add: commit_def)
  show ?thesis
    unfolding tree_wf_def np using wf' dom nodes aliases limits wf
    by (fastforce simp: tree_wf_def)
qed

lemma registerProvider_cases:
  assumes "tree_wf s"
  obtains (refused) e where "registerProvider s seeds = Some (Inl e)"
  | (merged) machine st where "om_find (sys_objects s) ''machine'' = Some machine" "\<not> sys_open s"
      "stage_all s (int (sys_providers s)) seeds
         \<lparr>st_nodes = [], st_rootLeaves = tn_leaves machine, st_aliases = [], st_limits = []\<rparr> = Inr st"
      "registerProvider s seeds = Some (Inr (commit s machine st))"
proof -
  from assms obtain machine where m: "om_find (sys_objects s) ''machine'' = Some machine"
    by (auto simp: tree_wf_def om_contains_def)
  show thesis
  proof (cases "registerProvider s seeds")
    case None
    with m show thesis by (auto simp: registerProvider_def split: if_splits sum.splits)
  next
    case (Some r)
    with m that show thesis
      by (cases r) (auto simp: registerProvider_def split: if_splits sum.splits)
  qed
qed

lemma staging_start:
  assumes "tree_wf s" and "om_find (sys_objects s) ''machine'' = Some machine"
  shows "staging_ok s \<lparr>st_nodes = [], st_rootLeaves = tn_leaves machine, st_aliases = [], st_limits = []\<rparr>"
proof -
  from assms have "tn_path machine = ''machine''" "node_ok (sys_providers s) machine"
    by (auto simp: tree_wf_def dest!: om_find_Some_in)
  then show ?thesis by (auto simp: staging_ok_def node_ok_def intro: leaves_ok_mono)
qed

text \<open>The trees a process can hold: the fresh one and what registrations and opens make of it.\<close>

inductive reachable_tree :: "system \<Rightarrow> bool" where
  reach_new: "reachable_tree new_system"
| reach_register: "reachable_tree s \<Longrightarrow> registerProvider s seeds = Some (Inr s') \<Longrightarrow> reachable_tree s'"
| reach_open: "reachable_tree s \<Longrightarrow> reachable_tree (ensureOpen s)"

lemma tree_wf_open [simp]: "tree_wf (ensureOpen s) = tree_wf s"
  by (simp add: tree_wf_def ensureOpen_def)

lemma reachable_tree_wf: "reachable_tree s \<Longrightarrow> tree_wf s"
proof (induction rule: reachable_tree.induct)
  case reach_new
  show ?case by (rule new_system_wf)
next
  case (reach_register s seeds s')
  from reach_register.IH show ?case
  proof (cases rule: registerProvider_cases [where seeds = seeds])
    case refused
    with reach_register.hyps show ?thesis by simp
  next
    case (merged machine st)
    have "staging_ok s st"
      using merged(3) staging_start [OF reach_register.IH merged(1)] by (rule stage_all_ok)
    with reach_register merged show ?thesis by (auto intro: commit_wf)
  qed
next
  case (reach_open s)
  then show ?case by simp
qed

text \<open>
  C8. Every tree a process can reach is well formed: addresses are the object path and the leaf name,
  names are distinct within an object, every stored unit token is in the closed mapping, every leaf
  names a registered provider, and every alias and every counter limit names a standing object.
\<close>

theorem reachable_trees_well_formed: "reachable_tree s \<Longrightarrow> tree_wf s"
  by (rule reachable_tree_wf)

definition example_seed :: object_seed where
  "example_seed = \<lparr>os_kind = ''pmu'', os_path = ''cpu'', os_alias = ''core0'', os_description = [],
     os_entries = [\<lparr>cs_name = ''cycles'', cs_description = [], cs_unit = ''ops'', cs_avail = COUNTABLE,
       cs_mode = SYSCALL, cs_frequencyHz = 0, cs_scaled = False, cs_hasRatioPair = False\<rparr>],
     os_programmableCounters = Some 4\<rparr>"

definition example_tree :: system where
  "example_tree = \<lparr>sys_providers = 1,
     sys_objects = [(''cpu'', \<lparr>tn_kind = ''pmu'', tn_path = ''cpu'', tn_alias = ''core0'', tn_description = [],
         tn_leaves = [leaf_of_seed ''cpu'' 0 (hd (os_entries example_seed))]\<rparr>), (''machine'', machine_root)],
     sys_aliases = [(''core0'', ''cpu'')], sys_limits = [(''cpu'', 4)], sys_open = False\<rparr>"

lemma example_registration: "registerProvider new_system [example_seed] = Some (Inr example_tree)"
  by code_simp

lemma example_reachable: "reachable_tree example_tree"
  by (rule reach_register [OF reach_new example_registration])

theorem reachable_trees_well_formed_witness: "tree_wf example_tree"
  by (rule reachable_trees_well_formed [OF example_reachable])

subsection \<open>The catalog never breaks its contracts\<close>

lemma settledTargets_zero: "(a \<noteq> COUNTABLE) = (settledTargets a probed k p = 0)"
  by (simp add: settledTargets_def Let_def kTargetCpuBit_def kTargetThreadBit_def)

lemma counters_loop_total:
  assumes "\<forall>l \<in> set ls. has_value (unitFromToken (leaf_unit (lr_core l)))"
  shows "\<exists>es. counters_loop t node ls = Some es
     \<and> map ce_name es = map (\<lambda>l. leaf_name (lr_core l)) ls
     \<and> (\<forall>e \<in> set es. (ce_targets e \<noteq> 0) = (ce_avail e = COUNTABLE))"
  using assms
proof (induction ls)
  case Nil
  then show ?case by simp
next
  case (Cons l ls)
  then obtain es where es: "counters_loop t node ls = Some es"
    "map ce_name es = map (\<lambda>l. leaf_name (lr_core l)) ls"
    "\<forall>e \<in> set es. (ce_targets e \<noteq> 0) = (ce_avail e = COUNTABLE)" by auto
  obtain u where "unitFromToken (leaf_unit (lr_core l)) = Inr u"
    using Cons.prems by (auto simp: has_value_def split: sum.splits)
  with es settledTargets_zero [of "leaf_avail (lr_core l)"] show ?case
    by (auto simp: Let_def)
qed

text \<open>
  Listing the catalog of any object of a reachable tree violates no contract, whatever the
  availability probe recorded: every stored unit maps, the entries are the object's leaves in order,
  and an entry names a target kind exactly when it is countable.
\<close>

theorem catalog_listing_safe:
  assumes "reachable_tree s" and "(p, n) \<in> set (sys_objects s)"
  shows "\<exists>es. counters_of t n = Some es
     \<and> map ce_name es = map (\<lambda>l. leaf_name (lr_core l)) (tn_leaves n)
     \<and> (\<forall>e \<in> set es. (ce_targets e \<noteq> 0) = (ce_avail e = COUNTABLE))"
  unfolding counters_of_def
  by (rule counters_loop_total)
     (use reachable_tree_wf [OF assms(1)] assms(2) in \<open>auto simp: tree_wf_def node_ok_def leaves_ok_def leaf_ok_def\<close>)

theorem catalog_listing_safe_witness:
  "\<exists>es. counters_of [] (snd (hd (sys_objects example_tree))) = Some es
     \<and> map ce_name es = [''cycles''] \<and> (\<forall>e \<in> set es. (ce_targets e \<noteq> 0) = (ce_avail e = COUNTABLE))"
proof -
  have "(''cpu'', snd (hd (sys_objects example_tree))) \<in> set (sys_objects example_tree)"
    by (simp add: example_tree_def)
  from catalog_listing_safe [OF example_reachable this, of "[]"] show ?thesis
    by (simp add: example_tree_def leaf_of_seed_def example_seed_def)
qed

lemma find_named:
  assumes "distinct (map (\<lambda>l. leaf_name (lr_core l)) ls)" and "l \<in> set ls"
  shows "List.find (leaf_named (leaf_name (lr_core l))) ls = Some l"
  using assms by (induction ls) (auto simp: leaf_named_def)

lemma unit_has_dimension: "\<exists>m. dimensionOf u = Inr m"
  by (cases u) simp_all

lemma resolveLeafCore_Inr:
  assumes "distinct (map (\<lambda>l. leaf_name (lr_core l)) (tn_leaves n))"
  shows "resolveLeafCore n name = Inr c \<longleftrightarrow>
     (\<exists>l \<in> set (tn_leaves n). leaf_name (lr_core l) = name \<and> lr_core l = c)"
proof (cases "List.find (leaf_named name) (tn_leaves n)")
  case None
  then have "\<forall>l \<in> set (tn_leaves n). leaf_name (lr_core l) \<noteq> name"
    by (simp add: find_None_iff leaf_named_def)
  with None show ?thesis by (simp add: resolveLeafCore_def)
next
  case (Some l)
  then have l: "l \<in> set (tn_leaves n)" "leaf_name (lr_core l) = name"
    by (auto simp: find_Some_iff leaf_named_def)
  with Some find_named [OF assms] show ?thesis by (auto simp: resolveLeafCore_def) (metis option.inject)
qed

text \<open>
  A typed lookup on any object of a reachable tree ends in a value or an error, never in a broken
  postcondition; it answers the leaf of that name exactly when the object has one and its unit maps
  to the requested dimension.
\<close>

theorem typed_lookup_total:
  assumes "reachable_tree s" and "(p, n) \<in> set (sys_objects s)"
  shows "\<exists>r. counter_of n d name = Some r
     \<and> (\<forall>c. r = Inr c \<longleftrightarrow>
           (\<exists>l \<in> set (tn_leaves n). leaf_name (lr_core l) = name \<and> lr_core l = c
              \<and> (\<exists>u. unitFromToken (leaf_unit c) = Inr u \<and> dimensionOf u = Inr d)))"
proof -
  have ok: "leaves_ok (sys_providers s) (tn_path n) (tn_leaves n)"
    using reachable_tree_wf [OF assms(1)] assms(2) by (auto simp: tree_wf_def node_ok_def)
  note res = resolveLeafCore_Inr [of n name]
  show ?thesis
  proof (cases "resolveLeafCore n name")
    case (Inl er)
    with ok res show ?thesis by (auto simp: counter_of_def leaves_ok_def)
  next
    case (Inr c)
    then obtain l where l: "l \<in> set (tn_leaves n)" "leaf_name (lr_core l) = name" "lr_core l = c"
      using res [of c] ok by (simp add: leaves_ok_def) blast
    with ok have "has_value (unitFromToken (leaf_unit c))" by (auto simp: leaves_ok_def leaf_ok_def)
    then obtain u where u: "unitFromToken (leaf_unit c) = Inr u"
      by (cases "unitFromToken (leaf_unit c)") (simp_all add: has_value_def)
    obtain m where m: "dimensionOf u = Inr m" using unit_has_dimension by blast
    have only: "(\<exists>l \<in> set (tn_leaves n). leaf_name (lr_core l) = name \<and> lr_core l = c') \<longleftrightarrow> c' = c" for c'
      using res [of c'] ok Inr by (auto simp: leaves_ok_def)
    have "m = d \<longleftrightarrow> time_exp m = time_exp d \<and> events_exp m = events_exp d"
      by (cases m; cases d) auto
    then have "counter_of n d name = Some (if m = d then Inr c else Inl (plain_error (''counter '' @ quoted name
        @ '' has unit '' @ quoted (leaf_unit c) @ '' (dimension '' @ dimension_text m
        @ ''); requested dimension '' @ dimension_text d)))"
      by (simp add: counter_of_def Inr u m)
    moreover have "(\<exists>l \<in> set (tn_leaves n). leaf_name (lr_core l) = name \<and> lr_core l = c'
        \<and> (\<exists>u. unitFromToken (leaf_unit c') = Inr u \<and> dimensionOf u = Inr d)) \<longleftrightarrow> c' = c \<and> m = d" for c'
      using only [of c'] u m by (cases "c' = c") auto
    ultimately show ?thesis by auto
  qed
qed

theorem typed_lookup_total_witness:
  "\<exists>r. counter_of machine_root \<lparr>time_exp = 0, events_exp = 1\<rparr> ''cycles'' = Some r
     \<and> (\<forall>c. r = Inr c \<longleftrightarrow>
           (\<exists>l \<in> set (tn_leaves machine_root). leaf_name (lr_core l) = ''cycles'' \<and> lr_core l = c
              \<and> (\<exists>u. unitFromToken (leaf_unit c) = Inr u \<and> dimensionOf u = Inr \<lparr>time_exp = 0, events_exp = 1\<rparr>)))"
  by (rule typed_lookup_total [OF example_reachable, of "''machine''"]) (simp add: example_tree_def)

subsection \<open>Parents and children agree\<close>

lemma find_char_None: "find_char c s 0 = None \<longleftrightarrow> c \<notin> set s"
  by (auto simp: find_char_def index_of_None)

lemma find_char_from_None: "find_char c s k = None \<longleftrightarrow> c \<notin> set (drop k s)"
  by (auto simp: find_char_def index_of_None)

lemma child_parent_path:
  assumes "is_direct_child p q" and "tn_path n = q"
  shows "parent_path n = p"
proof (cases "p = ''machine''")
  case True
  with assms have "CHR ''/'' \<notin> set q" by (simp add: is_direct_child_def find_char_None)
  with assms True show ?thesis by (simp add: parent_path_def rfind_char_None [THEN iffD2])
next
  case False
  with assms obtain t where q: "q = p @ ''/'' @ t"
    by (auto simp: is_direct_child_def starts_with_iff)
  with assms False have "CHR ''/'' \<notin> set t" by (simp add: is_direct_child_def find_char_from_None)
  then have "rfind_char (CHR ''/'') (p @ CHR ''/'' # t) = Some (length p)" by (rule rfind_char_join)
  with assms q show ?thesis by (simp add: parent_path_def)
qed

text \<open>
  In every reachable tree the parent of each child an object lists is that object, whatever
  aliases the tree holds: the walk down and the walk up agree and never raise.
\<close>

theorem child_has_its_parent:
  assumes "reachable_tree s" and "(p, node) \<in> set (sys_objects s)" and "child \<in> set (children_of s node)"
  shows "parent_of s child = Some (Some node)"
proof -
  have wf: "tree_wf s" using assms(1) by (rule reachable_tree_wf)
  have p: "tn_path node = p" "om_find (sys_objects s) p = Some node"
    using wf assms(2) by (auto simp: tree_wf_def intro: om_in_find)
  from assms(3) obtain q where q: "(q, child) \<in> set (sys_objects s)" "is_direct_child p q"
    by (auto simp: children_of_def p)
  have cq: "tn_path child = q" using wf q(1) by (auto simp: tree_wf_def)
  have pp: "parent_path child = p" using q(2) cq by (rule child_parent_path)
  have "q \<noteq> ''machine''"
  proof
    assume m: "q = ''machine''"
    with q(2) have "p \<noteq> ''machine''" and "starts_with ''machine'' (p @ ''/'')"
      by (auto simp: is_direct_child_def split: if_splits)
    then obtain t where "''machine'' = p @ ''/'' @ t" by (auto simp: starts_with_iff)
    then have "CHR ''/'' \<in> set ''machine''" by (metis in_set_conv_decomp append_Cons append_Nil)
    then show False by simp
  qed
  moreover have "find_node s p \<noteq> None"
  proof (cases "om_find (sys_aliases s) p")
    case None
    with p show ?thesis by (simp add: find_node_def canonicalize_def)
  next
    case (Some r)
    with wf have "om_contains (sys_objects s) r" by (auto simp: tree_wf_def dest: om_find_Some_in)
    with Some show ?thesis by (simp add: find_node_def canonicalize_def om_contains_def)
  qed
  ultimately show ?thesis using p by (simp add: parent_of_def cq pp)
qed

theorem child_has_its_parent_witness:
  "parent_of example_tree (snd (hd (sys_objects example_tree))) = Some (Some machine_root)"
  by (rule child_has_its_parent [OF example_reachable, where p = "''machine''"])
     (simp_all add: example_tree_def machine_root_def children_of_def is_direct_child_def
        find_char_def)

subsection \<open>An accepted batch is published whole\<close>

definition alias_ok :: "system \<Rightarrow> staging \<Rightarrow> bool" where
  "alias_ok s st \<longleftrightarrow> distinct (map fst (st_aliases st))
     \<and> (\<forall>a \<in> fst ` set (st_aliases st). \<not> om_contains (sys_aliases s) a)"

definition staged_seed :: "object_seed \<Rightarrow> staging \<Rightarrow> bool" where
  "staged_seed seed st \<longleftrightarrow>
     (if os_path seed = ''machine''
      then set (map cs_name (os_entries seed)) \<subseteq> set (map (\<lambda>l. leaf_name (lr_core l)) (st_rootLeaves st))
      else \<exists>n \<in> set (st_nodes st). tn_path n = os_path seed \<and> tn_kind n = os_kind seed
             \<and> map (\<lambda>l. leaf_name (lr_core l)) (tn_leaves n) = map cs_name (os_entries seed)
             \<and> (os_alias seed \<noteq> [] \<longrightarrow> (os_alias seed, os_path seed) \<in> set (st_aliases st)))"

lemma build_loop_names:
  "build_loop path r rls pi acc es = Inr out \<Longrightarrow>
   map (\<lambda>l. leaf_name (lr_core l)) out = map (\<lambda>l. leaf_name (lr_core l)) acc @ map cs_name es"
  by (induction es arbitrary: acc)
     (auto simp: Let_def leaf_of_seed_def split: sum.splits if_splits)

lemma stage_seed_cases:
  assumes "stage_seed s pi seed st = Inr st'"
  obtains (root) ls l where "os_path seed = ''machine''"
      "map (\<lambda>l. leaf_name (lr_core l)) ls = map cs_name (os_entries seed)"
      "st' = st\<lparr>st_limits := l, st_rootLeaves := st_rootLeaves st @ ls\<rparr>"
    | (plain) ls l n where "os_path seed \<noteq> ''machine''" "os_alias seed = []"
      "map (\<lambda>l. leaf_name (lr_core l)) ls = map cs_name (os_entries seed)"
      "tn_path n = os_path seed" "tn_kind n = os_kind seed" "tn_leaves n = ls"
      "st' = st\<lparr>st_limits := l, st_nodes := st_nodes st @ [n]\<rparr>"
    | (aliased) ls l n where "os_path seed \<noteq> ''machine''" "os_alias seed \<noteq> []"
      "map (\<lambda>l. leaf_name (lr_core l)) ls = map cs_name (os_entries seed)"
      "\<not> aliasIsHeld (sys_aliases s) (st_aliases st) (os_alias seed)"
      "tn_path n = os_path seed" "tn_kind n = os_kind seed" "tn_leaves n = ls"
      "st' = st\<lparr>st_limits := l, st_aliases := st_aliases st @ [(os_alias seed, os_path seed)],
         st_nodes := st_nodes st @ [n]\<rparr>"
proof -
  obtain ls where ls: "build_loop (os_path seed) (os_path seed = ''machine'') (st_rootLeaves st) pi [] (os_entries seed) = Inr ls"
    using assms by (auto simp: stage_seed_def buildLeaves_def Let_def split: if_splits sum.splits)
  have names: "map (\<lambda>l. leaf_name (lr_core l)) ls = map cs_name (os_entries seed)"
    using build_loop_names [OF ls] by simp
  define l where "l = (case os_programmableCounters seed of None \<Rightarrow> st_limits st | Some n \<Rightarrow> st_limits st @ [(os_path seed, n)])"
  have lim: "(case os_programmableCounters seed of None \<Rightarrow> st
      | Some n \<Rightarrow> st\<lparr>st_limits := st_limits st @ [(os_path seed, n)]\<rparr>) = st\<lparr>st_limits := l\<rparr>"
    by (simp add: l_def split: option.splits)
  let ?n = "\<lparr>tn_kind = os_kind seed, tn_path = os_path seed, tn_alias = os_alias seed,
              tn_description = os_description seed, tn_leaves = ls\<rparr>"
  note out = assms [unfolded stage_seed_def buildLeaves_def Let_def ls sum.case lim]
  show thesis
  proof (cases "os_path seed = ''machine''")
    case True
    with out ls have "st' = st\<lparr>st_limits := l, st_rootLeaves := st_rootLeaves st @ ls\<rparr>"
      by (simp add: lim)
    with True names show thesis by (rule root)
  next
    case other: False
    show thesis
    proof (cases "os_alias seed = []")
      case True
      from out ls other True have "st' = st\<lparr>st_limits := l, st_nodes := st_nodes st @ [?n]\<rparr>"
        by (simp add: lim split: if_splits)
      then show thesis using plain [OF other True names, of ?n l] by simp
    next
      case False
      from out ls other False have "st' = st\<lparr>st_limits := l,
          st_aliases := st_aliases st @ [(os_alias seed, os_path seed)], st_nodes := st_nodes st @ [?n]\<rparr>"
        and "\<not> aliasIsHeld (sys_aliases s) (st_aliases st) (os_alias seed)"
        by (simp_all add: lim split: if_splits)
      then show thesis using aliased [OF other False names, of ?n l] by simp
    qed
  qed
qed

lemma stage_seed_shape:
  assumes "stage_seed s pi seed st = Inr st'"
  shows "staged_seed seed st' \<and> set (st_nodes st) \<subseteq> set (st_nodes st')
    \<and> set (st_aliases st) \<subseteq> set (st_aliases st') \<and> set (st_rootLeaves st) \<subseteq> set (st_rootLeaves st')
    \<and> (alias_ok s st \<longrightarrow> alias_ok s st')"
  using assms
proof (cases rule: stage_seed_cases)
  case (root ls l)
  then have "cs_name ` set (os_entries seed) = (\<lambda>l. leaf_name (lr_core l)) ` set ls"
    by (metis list.set_map)
  with root show ?thesis by (auto simp: staged_seed_def alias_ok_def)
next
  case (plain ls l n)
  then show ?thesis by (auto simp: staged_seed_def alias_ok_def)
next
  case (aliased ls l n)
  then show ?thesis by (auto simp: staged_seed_def alias_ok_def aliasIsHeld_def list_ex_iff)
qed

lemma staged_seed_mono:
  assumes "staged_seed seed st" and n: "set (st_nodes st) \<subseteq> set (st_nodes st')"
    and a: "set (st_aliases st) \<subseteq> set (st_aliases st')" and r: "set (st_rootLeaves st) \<subseteq> set (st_rootLeaves st')"
  shows "staged_seed seed st'"
proof (cases "os_path seed = ''machine''")
  case True
  with assms(1) r show ?thesis
    by (simp add: staged_seed_def) (meson image_mono order_trans)
next
  case False
  with assms(1) subsetD [OF n] subsetD [OF a] show ?thesis
    by (simp add: staged_seed_def) blast
qed

lemma stage_all_shape:
  assumes "stage_all s pi seeds st = Inr st'" and "alias_ok s st"
  shows "alias_ok s st' \<and> (\<forall>seed \<in> set seeds. staged_seed seed st')
    \<and> set (st_nodes st) \<subseteq> set (st_nodes st') \<and> set (st_aliases st) \<subseteq> set (st_aliases st')
    \<and> set (st_rootLeaves st) \<subseteq> set (st_rootLeaves st')"
  using assms
proof (induction seeds arbitrary: st)
  case Nil
  then show ?case by simp
next
  case (Cons seed seeds)
  then obtain st1 where st1: "stage_seed s pi seed st = Inr st1" "stage_all s pi seeds st1 = Inr st'"
    by (auto split: sum.splits)
  note sh = stage_seed_shape [OF st1(1)]
  with Cons.IH [OF st1(2)] Cons.prems show ?case
    by (auto intro: staged_seed_mono)
qed

lemma commit_find_node:
  assumes wf: "tree_wf s" and ok: "staging_ok s st" and m: "om_find (sys_objects s) ''machine'' = Some machine"
  shows "n \<in> set (st_nodes st) \<Longrightarrow> om_find (sys_objects (commit s machine st)) (tn_path n) = Some n"
    and "om_find (sys_objects (commit s machine st)) ''machine''
      = Some (machine\<lparr>tn_leaves := st_rootLeaves st\<rparr>)"
proof -
  let ?objs1 = "om_assign ''machine'' (machine\<lparr>tn_leaves := st_rootLeaves st\<rparr>) (sys_objects s)"
  let ?es = "map (\<lambda>n. (tn_path n, n)) (st_nodes st)"
  have owf: "om_wf ?objs1" using wf by (simp add: tree_wf_def om_wf_assign)
  have dist: "distinct (map fst ?es)" using ok by (simp add: staging_ok_def comp_def)
  show "om_find (sys_objects (commit s machine st)) (tn_path n) = Some n" if n: "n \<in> set (st_nodes st)"
  proof -
    have "om_find ?objs1 (tn_path n) = None"
      using ok n wf by (auto simp: staging_ok_def om_find_assign om_contains_def tree_wf_def)
    then show ?thesis
      unfolding commit_def using n by (simp add: emplacing.lookup_fill_distinct [OF owf dist])
  qed
  have "''machine'' \<notin> fst ` set ?es" using ok by (auto simp: staging_ok_def)
  then show "om_find (sys_objects (commit s machine st)) ''machine'' = Some (machine\<lparr>tn_leaves := st_rootLeaves st\<rparr>)"
    using emplacing.lookup_fill_other [OF owf, of "''machine''" ?es] wf
    by (simp add: commit_def om_find_assign tree_wf_def)
qed



subsection \<open>Path components\<close>

fun join_path :: "string list \<Rightarrow> string" where
  "join_path [] = []"
| "join_path [c] = c"
| "join_path (c # cs) = c @ CHR ''/'' # join_path cs"

lemma find_char_hit: "find_char c s k = Some e \<Longrightarrow> e < length s \<and> k \<le> e \<and> s ! e = c \<and> c \<notin> set (take (e - k) (drop k s))"
proof -
  assume "find_char c s k = Some e"
  then obtain i where i: "index_of (\<lambda>x. x = c) (drop k s) = Some i" and e: "e = k + i"
    by (auto simp: find_char_def)
  from index_of_Some [OF i] index_of_take [OF i] show ?thesis by (auto simp: e)
qed

lemma path_from_nonempty [simp]: "path_from path k \<noteq> []"
  by (subst path_from.simps) (simp split: option.splits)

lemma join_path_from: "k \<le> length path \<Longrightarrow> join_path (path_from path k) = drop k path"
proof (induction path k rule: path_from.induct)
  case (1 path k)
  show ?case
  proof (cases "find_char (CHR ''/'') path k")
    case None
    with "1.prems" show ?thesis by (subst path_from.simps) (simp add: substr_def)
  next
    case (Some e)
    note hit = find_char_hit [OF Some]
    have rest: "join_path (path_from path (e + 1)) = drop (e + 1) path"
      using "1.IH" [OF Some] hit by simp
    obtain c cs where cs: "path_from path (Suc e) = c # cs"
      using path_from_nonempty by (meson neq_Nil_conv)
    have "join_path (path_from path k) = substr path k (e - k) @ CHR ''/'' # join_path (path_from path (e + 1))"
      by (subst path_from.simps) (simp add: Some cs)
    also have "\<dots> = take (e - k) (drop k path) @ drop e path"
      unfolding rest using hit by (metis Cons_nth_drop_Suc Suc_eq_plus1 substr_def)
    also have "drop e path = drop (e - k) (drop k path)" using hit by simp
    finally show ?thesis by (simp only: append_take_drop_id)
  qed
qed

lemma path_from_no_slash: "c \<in> set (path_from path k) \<Longrightarrow> CHR ''/'' \<notin> set c"
proof (induction path k rule: path_from.induct)
  case (1 path k)
  show ?case
  proof (cases "find_char (CHR ''/'') path k")
    case None
    with "1.prems" show ?thesis
      by (subst (asm) path_from.simps) (auto simp: substr_def find_char_from_None dest: in_set_takeD)
  next
    case (Some e)
    with "1.prems" "1.IH" [OF Some] find_char_hit [OF Some] show ?thesis
      by (subst (asm) path_from.simps) (auto simp: substr_def)
  qed
qed

text \<open>
  The components a filter reads are the path itself cut at its separators: joining them gives
  the path back, and none of them holds a separator.
\<close>

theorem pathComponents_roundtrip:
  "join_path (pathComponents path) = path \<and> list_all (\<lambda>c. CHR ''/'' \<notin> set c) (pathComponents path)"
  unfolding pathComponents_def
  using join_path_from [of 0 path] path_from_no_slash [of _ path 0] by (auto simp: list_all_iff)

end
