(* ===== verification/Sink.thy ===== *)
theory Sink
  imports Vocabulary
begin

text \<open>
  The write cursor of one sampling action, \<open>PointSink\<close> of
  \<open>include/speedgun-ng/counters_provider.hpp\<close>, over a column buffer of \<open>stride\<close> rows per column, and
  the contract \<open>window_reader\<close> of the seam: a read puts one point per leaf it manages, in order, and
  then at most one disclosure.  The buffer is a list of cells; a write outside it is undefined in the
  code and \<open>None\<close> here.
\<close>

record point_sink =
  sk_cells :: "u64 list"
  sk_leafCount :: nat
  sk_columnCount :: nat
  sk_stride :: nat
  sk_row :: nat
  sk_index :: nat
  sk_disclosureWritten :: bool

definition new_sink :: "u64 list \<Rightarrow> nat \<Rightarrow> nat \<Rightarrow> nat \<Rightarrow> nat \<Rightarrow> point_sink checked" where
  "new_sink columns leafCount columnCount stride row =
     (if row < stride
      then Some \<lparr>sk_cells = columns, sk_leafCount = leafCount, sk_columnCount = columnCount,
             sk_stride = stride, sk_row = row, sk_index = 0, sk_disclosureWritten = False\<rparr>
      else None)"

definition write_cell :: "nat \<Rightarrow> u64 \<Rightarrow> point_sink \<Rightarrow> point_sink checked" where
  "write_cell column v s =
     (let pos = column * sk_stride s + sk_row s
      in if pos < length (sk_cells s) then Some (s\<lparr>sk_cells := (sk_cells s)[pos := v]\<rparr>) else None)"

definition put :: "u64 \<Rightarrow> point_sink \<Rightarrow> point_sink checked" where
  "put v s =
     (if sk_index s < sk_leafCount s
      then map_option (\<lambda>s'. s'\<lparr>sk_index := sk_index s + 1\<rparr>) (write_cell (sk_index s) v s)
      else None)"

definition putDisclosure :: "nat \<Rightarrow> u64 \<Rightarrow> point_sink \<Rightarrow> point_sink checked" where
  "putDisclosure column v s =
     (if column < sk_columnCount s
      then map_option (\<lambda>s'. s'\<lparr>sk_disclosureWritten := True\<rparr>) (write_cell column v s)
      else None)"

definition checkAction :: "point_sink \<Rightarrow> bool" where
  "checkAction s \<longleftrightarrow> sk_index s = sk_leafCount s"

fun put_list :: "u64 list \<Rightarrow> point_sink \<Rightarrow> point_sink checked" where
  "put_list [] s = Some s"
| "put_list (v # vs) s = (case put v s of None \<Rightarrow> None | Some s' \<Rightarrow> put_list vs s')"

definition disclose :: "nat option \<Rightarrow> u64 \<Rightarrow> point_sink \<Rightarrow> point_sink checked" where
  "disclose column v s = (case column of None \<Rightarrow> Some s | Some c \<Rightarrow> putDisclosure c v s)"

subsection \<open>Cells\<close>

definition cell :: "u64 list \<Rightarrow> nat \<Rightarrow> nat \<Rightarrow> nat \<Rightarrow> u64" where
  "cell cells stride column row = cells ! (column * stride + row)"

lemma cell_position:
  assumes "row < (stride::nat)" and "column < columns"
  shows "column * stride + row < columns * stride"
proof -
  have "column * stride + row < Suc column * stride" using assms by simp
  also have "\<dots> \<le> columns * stride" using assms by (intro mult_right_mono) auto
  finally show ?thesis .
qed

lemma cell_inject:
  assumes "row < (stride::nat)" and "row' < stride"
  shows "column * stride + row = column' * stride + row' \<longleftrightarrow> column = column' \<and> row = row'"
proof
  assume eq: "column * stride + row = column' * stride + row'"
  have "(column * stride + row) div stride = column" "(column' * stride + row') div stride = column'"
    "(column * stride + row) mod stride = row" "(column' * stride + row') mod stride = row'"
    using assms by simp_all
  with eq show "column = column' \<and> row = row'" by metis
qed simp

lemma cell_update:
  assumes "row < stride" and "row' < stride" and "column * stride + row < length cells"
  shows "cell (cells[column * stride + row := v]) stride column' row'
     = (if column' = column \<and> row' = row then v else cell cells stride column' row')"
  using assms cell_inject [of row stride row' column column']
  by (auto simp: cell_def nth_list_update)

subsection \<open>The cursor\<close>

definition sink_ok :: "point_sink \<Rightarrow> bool" where
  "sink_ok s \<longleftrightarrow> sk_row s < sk_stride s \<and> sk_leafCount s \<le> sk_columnCount s
     \<and> length (sk_cells s) = sk_columnCount s * sk_stride s"

abbreviation at_row :: "point_sink \<Rightarrow> nat \<Rightarrow> nat \<Rightarrow> u64" where
  "at_row s column row \<equiv> cell (sk_cells s) (sk_stride s) column row"

definition same_frame :: "point_sink \<Rightarrow> point_sink \<Rightarrow> bool" where
  "same_frame s s' \<longleftrightarrow> sk_leafCount s' = sk_leafCount s \<and> sk_columnCount s' = sk_columnCount s
     \<and> sk_stride s' = sk_stride s \<and> sk_row s' = sk_row s"

lemma same_frame_trans: "same_frame a b \<Longrightarrow> same_frame b c \<Longrightarrow> same_frame a c"
  by (simp add: same_frame_def)

lemma write_cell_spec:
  assumes "sink_ok s" and "column < sk_columnCount s"
  shows "\<exists>s'. write_cell column v s = Some s' \<and> sink_ok s' \<and> same_frame s s' \<and> sk_index s' = sk_index s
     \<and> (\<forall>c r. r < sk_stride s \<longrightarrow>
          at_row s' c r = (if c = column \<and> r = sk_row s then v else at_row s c r))"
proof -
  have pos: "column * sk_stride s + sk_row s < length (sk_cells s)"
    using assms cell_position by (simp add: sink_ok_def)
  then show ?thesis
    using assms by (auto simp: write_cell_def Let_def sink_ok_def same_frame_def cell_update)
qed

lemma put_spec:
  assumes "sink_ok s" and "sk_index s < sk_leafCount s"
  shows "\<exists>s'. put v s = Some s' \<and> sink_ok s' \<and> same_frame s s' \<and> sk_index s' = Suc (sk_index s)
     \<and> (\<forall>c r. r < sk_stride s \<longrightarrow>
          at_row s' c r = (if c = sk_index s \<and> r = sk_row s then v else at_row s c r))"
proof -
  have "sk_index s < sk_columnCount s" using assms by (simp add: sink_ok_def)
  from write_cell_spec [OF assms(1) this, of v] obtain s' where
    "write_cell (sk_index s) v s = Some s'" "sink_ok s'" "same_frame s s'"
    "\<forall>c r. r < sk_stride s \<longrightarrow> at_row s' c r = (if c = sk_index s \<and> r = sk_row s then v else at_row s c r)"
    by blast
  then show ?thesis using assms(2) by (simp add: put_def sink_ok_def same_frame_def)
qed

lemma put_list_spec:
  assumes "sink_ok s" and "sk_index s + length vs \<le> sk_leafCount s"
  shows "\<exists>s'. put_list vs s = Some s' \<and> sink_ok s' \<and> same_frame s s'
     \<and> sk_index s' = sk_index s + length vs
     \<and> (\<forall>c r. r < sk_stride s \<longrightarrow>
          at_row s' c r = (if r = sk_row s \<and> sk_index s \<le> c \<and> c < sk_index s + length vs
                           then vs ! (c - sk_index s) else at_row s c r))"
  using assms
proof (induction vs arbitrary: s)
  case Nil
  then show ?case by (auto simp: same_frame_def)
next
  case (Cons v vs)
  obtain s1 where s1: "put v s = Some s1" "sink_ok s1" "same_frame s s1" "sk_index s1 = Suc (sk_index s)"
    "\<forall>c r. r < sk_stride s \<longrightarrow> at_row s1 c r = (if c = sk_index s \<and> r = sk_row s then v else at_row s c r)"
    using put_spec [of s v] Cons.prems by auto
  have room: "sk_index s1 + length vs \<le> sk_leafCount s1" using Cons.prems s1 by (simp add: same_frame_def)
  obtain s2 where s2: "put_list vs s1 = Some s2" "sink_ok s2" "same_frame s1 s2"
    "sk_index s2 = sk_index s1 + length vs"
    "\<forall>c r. r < sk_stride s1 \<longrightarrow> at_row s2 c r = (if r = sk_row s1 \<and> sk_index s1 \<le> c \<and> c < sk_index s1 + length vs
        then vs ! (c - sk_index s1) else at_row s1 c r)"
    using Cons.IH [OF s1(2) room] by blast
  have "at_row s2 c r = (if r = sk_row s \<and> sk_index s \<le> c \<and> c < sk_index s + length (v # vs)
      then (v # vs) ! (c - sk_index s) else at_row s c r)" if "r < sk_stride s" for c r
  proof (cases "r = sk_row s \<and> Suc (sk_index s) \<le> c \<and> c < Suc (sk_index s) + length vs")
    case True
    then have "(v # vs) ! (c - sk_index s) = vs ! (c - Suc (sk_index s))"
      by (cases "c - sk_index s") (auto simp: diff_Suc split: nat.splits)
    with True that s1 s2(5) show ?thesis by (simp add: same_frame_def)
  next
    case False
    with that s1 s2(5) show ?thesis by (auto simp: same_frame_def)
  qed
  with s1 s2 show ?case by (auto intro: same_frame_trans)
qed

lemma disclose_spec:
  assumes "sink_ok s" and "column < sk_columnCount s"
  shows "\<exists>s'. disclose (Some column) v s = Some s' \<and> sink_ok s' \<and> same_frame s s' \<and> sk_index s' = sk_index s
     \<and> (\<forall>c r. r < sk_stride s \<longrightarrow>
          at_row s' c r = (if c = column \<and> r = sk_row s then v else at_row s c r))"
  using write_cell_spec [OF assms, of v] assms(2)
  by (auto simp: disclose_def putDisclosure_def sink_ok_def same_frame_def)

subsection \<open>The contract of a window\<close>

text \<open>
  \<open>thunk\<close> is the direct-call slot of a window (\<open>WindowReader::ReadThunk\<close>): it reads the world and may
  change both the window and the world.  \<open>points\<close>, \<open>state\<close> and \<open>advance\<close> say what one action of a
  standing window puts and what it leaves behind; a read keeps every other window standing.
\<close>

locale window_reader =
  fixes thunk :: "'r \<Rightarrow> 'w \<Rightarrow> point_sink \<Rightarrow> ('r \<times> 'w \<times> point_sink) checked"
    and standing :: "'r \<Rightarrow> 'w \<Rightarrow> bool"
    and width :: "'r \<Rightarrow> nat"
    and column :: "'r \<Rightarrow> nat option"
    and points :: "'r \<Rightarrow> 'w \<Rightarrow> u64 list"
    and state :: "'r \<Rightarrow> 'w \<Rightarrow> u64"
    and advance :: "'r \<Rightarrow> 'w \<Rightarrow> 'r \<times> 'w"
  assumes reads: "standing r w \<Longrightarrow>
      thunk r w s =
        (case put_list (points r w) s of
           None \<Rightarrow> None
         | Some s1 \<Rightarrow> map_option (\<lambda>s2. (fst (advance r w), snd (advance r w), s2))
                        (disclose (column r) (state r w) s1))"
    and one_per_leaf: "standing r w \<Longrightarrow> length (points r w) = width r"
    and same_width: "standing r w \<Longrightarrow> width (fst (advance r w)) = width r"
    and same_column: "standing r w \<Longrightarrow> column (fst (advance r w)) = column r"
    and stays: "standing r w \<Longrightarrow> standing (fst (advance r w)) (snd (advance r w))"
    and keeps_others: "standing r w \<Longrightarrow> standing q w \<Longrightarrow> standing q (snd (advance r w))"
begin

lemma read_fills:
  assumes "standing r w" and "sink_ok s" and "sk_index s + width r \<le> sk_leafCount s"
    and "column r = Some d" and "d < sk_columnCount s" and "sk_leafCount s \<le> d"
  shows "\<exists>s'. thunk r w s = Some (fst (advance r w), snd (advance r w), s')
     \<and> sink_ok s' \<and> same_frame s s' \<and> sk_index s' = sk_index s + width r
     \<and> (\<forall>c row. row < sk_stride s \<longrightarrow>
          at_row s' c row =
            (if row = sk_row s \<and> sk_index s \<le> c \<and> c < sk_index s + width r
             then points r w ! (c - sk_index s)
             else if row = sk_row s \<and> c = d then state r w else at_row s c row))"
proof -
  have len: "length (points r w) = width r" using assms(1) by (rule one_per_leaf)
  obtain s1 where s1: "put_list (points r w) s = Some s1" "sink_ok s1" "same_frame s s1"
    "sk_index s1 = sk_index s + width r"
    "\<forall>c row. row < sk_stride s \<longrightarrow> at_row s1 c row = (if row = sk_row s \<and> sk_index s \<le> c
        \<and> c < sk_index s + width r then points r w ! (c - sk_index s) else at_row s c row)"
    using put_list_spec [of s "points r w"] assms len by auto
  have d: "d < sk_columnCount s1" using assms s1 by (simp add: same_frame_def)
  obtain s2 where s2: "disclose (Some d) (state r w) s1 = Some s2" "sink_ok s2" "same_frame s1 s2"
    "sk_index s2 = sk_index s1"
    "\<forall>c row. row < sk_stride s1 \<longrightarrow> at_row s2 c row = (if c = d \<and> row = sk_row s1 then state r w else at_row s1 c row)"
    using disclose_spec [OF s1(2) d] by blast
  have "thunk r w s = Some (fst (advance r w), snd (advance r w), s2)"
    using reads [OF assms(1), of s] s1(1) s2(1) assms(4) by simp
  moreover have "same_frame s s2" using s1(3) s2(3) by (rule same_frame_trans)
  moreover have "at_row s2 c row = (if row = sk_row s \<and> sk_index s \<le> c \<and> c < sk_index s + width r
             then points r w ! (c - sk_index s)
             else if row = sk_row s \<and> c = d then state r w else at_row s c row)"
    if "row < sk_stride s" for c row
    using that s1 s2(5) assms(3,6) by (auto simp: same_frame_def)
  ultimately show ?thesis using s1(4) s2(2,4) by metis
qed

end

end
