(* ===== verification/Push.thy ===== *)
theory Push
  imports Sink Tree
begin

text \<open>
  The push provider of \<open>source/counters/push_provider.cpp\<close>: counters a thread declares and adds to,
  sampled by a plain load on that thread.  A thread is a number, \<open>0\<close> the default-constructed
  \<open>std::thread::id\<close> no running thread has.  A handle and a window cell are positions in the deque of
  points, whose addresses stay stable.
\<close>

type_synonym thread_id = nat

record push_point =
  pp_value :: u64
  pp_owner :: thread_id
  pp_name :: string
  pp_description :: string
  pp_unit :: string

type_synonym push_provider = "push_point list"

record push_counter =
  pc_cell :: nat
  pc_owner :: thread_id
  pc_name :: string

record push_window =
  pw_cells :: "nat list"
  pw_owner :: thread_id
  pw_column :: "nat option"

record leaf_set =
  ls_addresses :: "string list"
  ls_column :: "nat option"

text \<open>The current thread and the provider's points: what a push operation reads and writes.\<close>

record push_world =
  pw_thread :: thread_id
  pw_points :: push_provider

definition push_addCounter ::
  "string \<Rightarrow> string \<Rightarrow> string \<Rightarrow> push_world \<Rightarrow> (push_counter \<times> push_world) checked" where
  "push_addCounter name unit description w =
     (if name = [] then None
      else Some (\<lparr>pc_cell = length (pw_points w), pc_owner = pw_thread w, pc_name = name\<rparr>,
             w\<lparr>pw_points := pw_points w @ [\<lparr>pp_value = 0, pp_owner = pw_thread w, pp_name = name,
                  pp_description = description, pp_unit = unit\<rparr>]\<rparr>))"

text \<open>\<open>PushCounter::add\<close>.\<close>

definition push_add :: "push_counter \<Rightarrow> u64 \<Rightarrow> push_world \<Rightarrow> push_world checked" where
  "push_add c n w =
     (if pw_thread w \<noteq> pc_owner c \<or> pc_cell c \<ge> length (pw_points w) then None
      else Some (w\<lparr>pw_points := (pw_points w)[pc_cell c :=
             (pw_points w ! pc_cell c)\<lparr>pp_value := pp_value (pw_points w ! pc_cell c) + n\<rparr>]\<rparr>))"

definition push_enumerate :: "push_provider \<Rightarrow> object_seed list" where
  "push_enumerate points =
     [\<lparr>os_kind = ''machine'', os_path = ''machine'', os_alias = [], os_description = ''local machine'',
       os_entries = map (\<lambda>p. \<lparr>cs_name = pp_name p, cs_description = pp_description p, cs_unit = pp_unit p,
          cs_avail = COUNTABLE, cs_mode = PUSH_LOAD, cs_frequencyHz = 0, cs_scaled = False,
          cs_hasRatioPair = False\<rparr>) points,
       os_programmableCounters = None\<rparr>]"

text \<open>
  \<open>PushProvider::open\<close>: the inner \<open>None\<close> is the null window of an address the provider does not
  publish, the outer one the contract that refuses counters of two threads in one window.
\<close>

fun push_open_loop :: "push_provider \<Rightarrow> push_window \<Rightarrow> string list \<Rightarrow> push_window option checked" where
  "push_open_loop points win [] = Some (Some win)"
| "push_open_loop points win (a # as) =
     (case index_of (\<lambda>p. a = ''machine/'' @ pp_name p) points of
        None \<Rightarrow> Some None
      | Some i \<Rightarrow>
          if pw_cells win = [] \<or> pp_owner (points ! i) = pw_owner win
          then push_open_loop points
                 (win\<lparr>pw_cells := pw_cells win @ [i], pw_owner := pp_owner (points ! i)\<rparr>) as
          else None)"

definition push_open :: "push_provider \<Rightarrow> leaf_set \<Rightarrow> push_window option checked" where
  "push_open points req =
     push_open_loop points \<lparr>pw_cells = [], pw_owner = 0, pw_column = ls_column req\<rparr> (ls_addresses req)"

fun push_put_cells :: "push_provider \<Rightarrow> nat list \<Rightarrow> point_sink \<Rightarrow> point_sink checked" where
  "push_put_cells points [] s = Some s"
| "push_put_cells points (c # cs) s =
     (if c < length points
      then (case put (pp_value (points ! c)) s of None \<Rightarrow> None | Some s' \<Rightarrow> push_put_cells points cs s')
      else None)"

definition push_readPoints ::
  "push_window \<Rightarrow> push_world \<Rightarrow> point_sink \<Rightarrow> (push_window \<times> push_world \<times> point_sink) checked" where
  "push_readPoints win w s =
     (if pw_thread w \<noteq> pw_owner win then None
      else
        (case push_put_cells (pw_points w) (pw_cells win) s of
           None \<Rightarrow> None
         | Some s1 \<Rightarrow> map_option (\<lambda>s2. (win, w, s2))
             (disclose (pw_column win) (availability_code COUNTABLE) s1)))"

subsection \<open>The contract of a push window\<close>

definition push_standing :: "push_window \<Rightarrow> push_world \<Rightarrow> bool" where
  "push_standing win w \<longleftrightarrow> pw_thread w = pw_owner win \<and> (\<forall>c \<in> set (pw_cells win). c < length (pw_points w))"

definition push_points :: "push_window \<Rightarrow> push_world \<Rightarrow> u64 list" where
  "push_points win w = map (\<lambda>c. pp_value (pw_points w ! c)) (pw_cells win)"

lemma push_put_cells_list:
  "\<forall>c \<in> set cs. c < length points \<Longrightarrow>
   push_put_cells points cs s = put_list (map (\<lambda>c. pp_value (points ! c)) cs) s"
  by (induction cs arbitrary: s) (auto split: option.splits)

interpretation push_reader: window_reader push_readPoints push_standing "\<lambda>win. length (pw_cells win)"
  pw_column push_points "\<lambda>_ _. availability_code COUNTABLE" "\<lambda>win w. (win, w)"
  by unfold_locales
     (auto simp: push_readPoints_def push_standing_def push_points_def push_put_cells_list split: option.splits)

subsection \<open>What a window samples\<close>

lemma push_open_loop_shape:
  assumes "push_open_loop points win as = Some (Some out)"
  shows "pw_column out = pw_column win
     \<and> (\<exists>cs. pw_cells out = pw_cells win @ cs \<and> length cs = length as
          \<and> (\<forall>k < length as. cs ! k < length points \<and> as ! k = ''machine/'' @ pp_name (points ! (cs ! k)))
          \<and> (\<forall>c \<in> set cs. pp_owner (points ! c) = pw_owner out))
     \<and> (pw_cells win \<noteq> [] \<longrightarrow> pw_owner out = pw_owner win)"
  using assms
proof (induction as arbitrary: win)
  case Nil
  then show ?case by simp
next
  case (Cons a as)
  then obtain i where i: "index_of (\<lambda>p. a = ''machine/'' @ pp_name p) points = Some i"
    and own: "pw_cells win = [] \<or> pp_owner (points ! i) = pw_owner win"
    and rest: "push_open_loop points
      (win\<lparr>pw_cells := pw_cells win @ [i], pw_owner := pp_owner (points ! i)\<rparr>) as = Some (Some out)"
    by (auto split: option.splits if_splits)
  from Cons.IH [OF rest] obtain cs where cs: "pw_column out = pw_column win"
    "pw_cells out = pw_cells win @ i # cs" "length cs = length as"
    "\<forall>k < length as. cs ! k < length points \<and> as ! k = ''machine/'' @ pp_name (points ! (cs ! k))"
    "\<forall>c \<in> set cs. pp_owner (points ! c) = pw_owner out" "pw_owner out = pp_owner (points ! i)"
    by auto
  have "\<forall>k < length (a # as). (i # cs) ! k < length points
      \<and> (a # as) ! k = ''machine/'' @ pp_name (points ! ((i # cs) ! k))"
    using cs(4) index_of_Some [OF i] by (auto simp: nth_Cons split: nat.splits)
  with cs own show ?case by auto
qed

lemma push_open_standing:
  assumes "push_open (pw_points w) req = Some (Some win)" and "ls_addresses req \<noteq> []"
    and "pw_thread w = pw_owner win"
  shows "push_standing win w" and "length (pw_cells win) = length (ls_addresses req)"
    and "pw_column win = ls_column req"
proof -
  note sh = push_open_loop_shape [OF assms(1) [unfolded push_open_def]]
  then obtain cs where cs: "pw_cells win = cs" "length cs = length (ls_addresses req)"
    "\<forall>k < length cs. cs ! k < length (pw_points w)" by auto
  then show "push_standing win w" using assms(3) by (auto simp: push_standing_def in_set_conv_nth)
  show "length (pw_cells win) = length (ls_addresses req)" using cs by simp
  show "pw_column win = ls_column req" using sh by simp
qed

text \<open>The running total a sequence of adds leaves in a counter, wrapping at \<open>2 ^ 64\<close>.\<close>

fun push_adds :: "push_counter \<Rightarrow> u64 list \<Rightarrow> push_world \<Rightarrow> push_world checked" where
  "push_adds c [] w = Some w"
| "push_adds c (n # ns) w = (case push_add c n w of None \<Rightarrow> None | Some w' \<Rightarrow> push_adds c ns w')"

lemma push_adds_total:
  assumes "pc_cell c < length (pw_points w)" and "pw_thread w = pc_owner c"
  shows "\<exists>w'. push_adds c ns w = Some w' \<and> length (pw_points w') = length (pw_points w)
     \<and> pw_thread w' = pw_thread w
     \<and> pp_value (pw_points w' ! pc_cell c) = pp_value (pw_points w ! pc_cell c) + sum_list ns
     \<and> (\<forall>i. i \<noteq> pc_cell c \<longrightarrow> pw_points w' ! i = pw_points w ! i)
     \<and> map pp_name (pw_points w') = map pp_name (pw_points w)
     \<and> map pp_owner (pw_points w') = map pp_owner (pw_points w)"
  using assms
proof (induction ns arbitrary: w)
  case Nil
  then show ?case by simp
next
  case (Cons n ns)
  define w1 where "w1 = w\<lparr>pw_points := (pw_points w)[pc_cell c :=
             (pw_points w ! pc_cell c)\<lparr>pp_value := pp_value (pw_points w ! pc_cell c) + n\<rparr>]\<rparr>"
  have step: "push_add c n w = Some w1" using Cons.prems by (simp add: push_add_def w1_def)
  have w1: "pc_cell c < length (pw_points w1)" "pw_thread w1 = pc_owner c"
    using Cons.prems by (simp_all add: w1_def)
  have keep: "map pp_name (pw_points w1) = map pp_name (pw_points w)"
    "map pp_owner (pw_points w1) = map pp_owner (pw_points w)"
    using Cons.prems(1) by (auto simp: w1_def map_update list_update_id intro!: nth_equalityI simp: nth_list_update)
  from Cons.IH [OF w1] obtain w' where w': "push_adds c ns w1 = Some w'"
    "length (pw_points w') = length (pw_points w1)" "pw_thread w' = pw_thread w1"
    "pp_value (pw_points w' ! pc_cell c) = pp_value (pw_points w1 ! pc_cell c) + sum_list ns"
    "\<forall>i. i \<noteq> pc_cell c \<longrightarrow> pw_points w' ! i = pw_points w1 ! i"
    "map pp_name (pw_points w') = map pp_name (pw_points w1)"
    "map pp_owner (pw_points w') = map pp_owner (pw_points w1)" by blast
  moreover have "pp_value (pw_points w1 ! pc_cell c) = pp_value (pw_points w ! pc_cell c) + n"
    "\<forall>i. i \<noteq> pc_cell c \<longrightarrow> pw_points w1 ! i = pw_points w ! i" "pw_thread w1 = pw_thread w"
    "length (pw_points w1) = length (pw_points w)"
    using Cons.prems(1) by (simp_all add: w1_def)
  ultimately show ?case using step keep by (simp add: add.assoc)
qed

text \<open>
  What a handle added is what a window samples: a counter declared under a new name, added to any
  number of times on its thread and opened, puts the sum of the additions modulo \<open>2 ^ 64\<close> and
  discloses a countable action.
\<close>

theorem push_window_samples_the_total:
  assumes "name \<noteq> []" and "\<forall>p \<in> set (pw_points w). pp_name p \<noteq> name"
  shows "\<exists>c w1 w2 win. push_addCounter name unit description w = Some (c, w1)
     \<and> push_adds c ns w1 = Some w2
     \<and> push_open (pw_points w2) \<lparr>ls_addresses = [''machine/'' @ name], ls_column = column\<rparr> = Some (Some win)
     \<and> (\<forall>s. push_readPoints win w2 s =
          (case put (sum_list ns) s of
             None \<Rightarrow> None
           | Some s1 \<Rightarrow> map_option (\<lambda>s2. (win, w2, s2)) (disclose column (availability_code COUNTABLE) s1)))"
proof -
  let ?i = "length (pw_points w)"
  let ?p = "\<lparr>pp_value = 0, pp_owner = pw_thread w, pp_name = name, pp_description = description, pp_unit = unit\<rparr>"
  let ?w1 = "w\<lparr>pw_points := pw_points w @ [?p]\<rparr>"
  let ?c = "\<lparr>pc_cell = ?i, pc_owner = pw_thread w, pc_name = name\<rparr>"
  have add: "push_addCounter name unit description w = Some (?c, ?w1)"
    using assms(1) by (simp add: push_addCounter_def)
  obtain w2 where w2: "push_adds ?c ns ?w1 = Some w2" "length (pw_points w2) = Suc ?i"
    "pw_thread w2 = pw_thread w" "pp_value (pw_points w2 ! ?i) = sum_list ns"
    "map pp_name (pw_points w2) = map pp_name (pw_points w) @ [name]"
    "map pp_owner (pw_points w2) = map pp_owner (pw_points w) @ [pw_thread w]"
    using push_adds_total [of ?c ?w1 ns] by auto
  have owner: "pp_owner (pw_points w2 ! ?i) = pw_thread w"
    using arg_cong [OF w2(6), of "\<lambda>xs. xs ! ?i"] w2(2) by (simp add: nth_append)
  have "index_of (\<lambda>n. n = name) (map pp_name (pw_points w2)) = Some ?i"
    unfolding w2(5) using assms(2) index_of_fresh [of name "map pp_name (pw_points w)"] by auto
  then have "index_of (\<lambda>p. ''machine/'' @ name = ''machine/'' @ pp_name p) (pw_points w2) = Some ?i"
    by (simp add: index_of_map eq_commute [of name])
  then have op: "push_open (pw_points w2) \<lparr>ls_addresses = [''machine/'' @ name], ls_column = column\<rparr>
      = Some (Some \<lparr>pw_cells = [?i], pw_owner = pw_thread w, pw_column = column\<rparr>)"
    by (simp add: push_open_def owner)
  have "push_readPoints \<lparr>pw_cells = [?i], pw_owner = pw_thread w, pw_column = column\<rparr> w2 s =
          (case put (sum_list ns) s of
             None \<Rightarrow> None
           | Some s1 \<Rightarrow> map_option (\<lambda>s2. (\<lparr>pw_cells = [?i], pw_owner = pw_thread w, pw_column = column\<rparr>, w2, s2))
                          (disclose column (availability_code COUNTABLE) s1))" for s
    by (simp add: push_readPoints_def w2 split: option.splits)
  with add w2(1) op show ?thesis by blast
qed

theorem push_window_samples_the_total_witness:
  "\<exists>c w1 w2 win. push_addCounter ''hits'' ''ops'' [] \<lparr>pw_thread = 7, pw_points = []\<rparr> = Some (c, w1)
     \<and> push_adds c [3, 4] w1 = Some w2
     \<and> push_open (pw_points w2) \<lparr>ls_addresses = [''machine/'' @ ''hits''], ls_column = Some 1\<rparr> = Some (Some win)
     \<and> (\<forall>s. push_readPoints win w2 s =
          (case put (sum_list [3, 4]) s of
             None \<Rightarrow> None
           | Some s1 \<Rightarrow> map_option (\<lambda>s2. (win, w2, s2)) (disclose (Some 1) (availability_code COUNTABLE) s1)))"
  by (rule push_window_samples_the_total) simp_all

end
