(* ===== verification/Fake.thy ===== *)
theory Fake
  imports Push
begin

text \<open>
  The fake provider of \<open>source/counters/fake_provider.cpp\<close> and \<open>include/speedgun-ng/counters_fake.hpp\<close>:
  counters that play back scripted points, then a constant or a seeded tail; scripted gaps; a scripted
  limit on the leaves of one window; and the hand-off of the playback from a window to the next one.
  The script lock makes each operation one step.
\<close>

definition nextDelta :: "u64 \<Rightarrow> u64" where
  "nextDelta s = and (s * 37 + 11) 0xFFFF"

record fake_script =
  fs_points :: "u64 list"
  fs_tailDelta :: u64
  fs_deltaSeed :: "u64 option"

record fake_counter =
  fc_description :: string
  fc_unit :: string
  fc_avail :: availability
  fc_mode :: read_mode
  fc_ratioPair :: bool
  fc_script :: fake_script
  fc_position :: nat
  fc_last :: u64
  fc_deltaState :: u64
  fc_gaps :: "u64 list"

definition empty_counter :: fake_counter where
  "empty_counter = \<lparr>fc_description = [], fc_unit = [], fc_avail = COUNTABLE, fc_mode = SYSCALL,
     fc_ratioPair = False, fc_script = \<lparr>fs_points = [], fs_tailDelta = 0, fs_deltaSeed = None\<rparr>,
     fc_position = 0, fc_last = 0, fc_deltaState = 0, fc_gaps = []\<rparr>"

definition gapsAt :: "fake_counter \<Rightarrow> u64 \<Rightarrow> bool" where
  "gapsAt c action \<longleftrightarrow> list_ex (\<lambda>scripted. scripted = action) (fc_gaps c)"

record fake_object =
  fo_kind :: string
  fo_alias :: string
  fo_description :: string
  fo_counters :: "(string, fake_counter) omap"
  fo_programmableCounters :: "nat option"
  fo_groupLeafLimit :: "nat option"

definition empty_object :: fake_object where
  "empty_object = \<lparr>fo_kind = [], fo_alias = [], fo_description = [], fo_counters = [],
     fo_programmableCounters = None, fo_groupLeafLimit = None\<rparr>"

record fake_provider =
  fk_objects :: "(string, fake_object) omap"
  fk_readActions :: u64
  fk_windowOpens :: u64
  fk_lastRefusal :: string

definition new_fake :: fake_provider where
  "new_fake = \<lparr>fk_objects = [], fk_readActions = 0, fk_windowOpens = 0, fk_lastRefusal = []\<rparr>"

text \<open>\<open>map[key]\<close>: the entry at the key, default-constructed when there is none.\<close>

definition object_slot :: "fake_provider \<Rightarrow> string \<Rightarrow> fake_object" where
  "object_slot f path = (case om_find (fk_objects f) path of None \<Rightarrow> empty_object | Some ob \<Rightarrow> ob)"

definition put_object :: "string \<Rightarrow> fake_object \<Rightarrow> fake_provider \<Rightarrow> fake_provider" where
  "put_object path ob f = f\<lparr>fk_objects := om_assign path ob (fk_objects f)\<rparr>"

definition fake_item :: "fake_provider \<Rightarrow> string \<Rightarrow> string \<Rightarrow> fake_counter option" where
  "fake_item f path name =
     (case om_find (fk_objects f) path of
        None \<Rightarrow> None
      | Some ob \<Rightarrow> om_find (fo_counters ob) name)"

definition put_item :: "string \<Rightarrow> string \<Rightarrow> fake_counter \<Rightarrow> fake_provider \<Rightarrow> fake_provider" where
  "put_item path name c f =
     (let ob = object_slot f path
      in put_object path (ob\<lparr>fo_counters := om_assign name c (fo_counters ob)\<rparr>) f)"

subsection \<open>Scripting\<close>

definition fake_addObject :: "string \<Rightarrow> string \<Rightarrow> string \<Rightarrow> fake_provider \<Rightarrow> fake_provider checked" where
  "fake_addObject path k description f =
     (if path = [] \<or> path = ''machine'' then None
      else Some (put_object path ((object_slot f path)\<lparr>fo_kind := k, fo_description := description\<rparr>) f))"

definition fake_addAliasedObject ::
  "string \<Rightarrow> string \<Rightarrow> string \<Rightarrow> string \<Rightarrow> fake_provider \<Rightarrow> fake_provider checked" where
  "fake_addAliasedObject path al k description f =
     (if path = [] \<or> al = [] \<or> path = ''machine'' then None
      else Some (put_object path
             ((object_slot f path)\<lparr>fo_alias := al, fo_kind := k, fo_description := description\<rparr>) f))"

definition setProgrammableCounters :: "string \<Rightarrow> nat \<Rightarrow> fake_provider \<Rightarrow> fake_provider checked" where
  "setProgrammableCounters path limit f =
     (if limit = 0 then None
      else case om_find (fk_objects f) path of
             None \<Rightarrow> None
           | Some ob \<Rightarrow> Some (put_object path (ob\<lparr>fo_programmableCounters := Some limit\<rparr>) f))"

definition setGroupLeafLimit :: "string \<Rightarrow> nat \<Rightarrow> fake_provider \<Rightarrow> fake_provider checked" where
  "setGroupLeafLimit path limit f =
     (case om_find (fk_objects f) path of
        None \<Rightarrow> None
      | Some ob \<Rightarrow> Some (put_object path (ob\<lparr>fo_groupLeafLimit := Some limit\<rparr>) f))"

definition fake_addCounter ::
  "string \<Rightarrow> string \<Rightarrow> string \<Rightarrow> string \<Rightarrow> availability \<Rightarrow> read_mode \<Rightarrow> bool \<Rightarrow> fake_provider \<Rightarrow>
   fake_provider checked" where
  "fake_addCounter path name unit description av mode ratioPair f =
     (if path = [] then None
      else
        let ob = object_slot f path;
            ob1 = (if fo_kind ob = []
                   then ob\<lparr>fo_kind := (if path = ''machine'' then ''machine'' else ''object''),
                           fo_description := (if path = ''machine'' then ''local machine'' else [])\<rparr>
                   else ob);
            item = (case om_find (fo_counters ob1) name of None \<Rightarrow> empty_counter | Some c \<Rightarrow> c);
            item1 = item\<lparr>fc_description := description, fc_unit := unit, fc_avail := av,
                         fc_mode := mode, fc_ratioPair := ratioPair\<rparr>
        in Some (put_object path (ob1\<lparr>fo_counters := om_assign name item1 (fo_counters ob1)\<rparr>) f))"

definition setPoints ::
  "string \<Rightarrow> string \<Rightarrow> u64 list \<Rightarrow> u64 \<Rightarrow> u64 option \<Rightarrow> fake_provider \<Rightarrow> fake_provider checked" where
  "setPoints path name pts tailDelta deltaSeed f =
     (case fake_item f path name of
        None \<Rightarrow> None
      | Some item \<Rightarrow>
          let item1 = item\<lparr>fc_script := \<lparr>fs_points = pts, fs_tailDelta = tailDelta, fs_deltaSeed = deltaSeed\<rparr>,
                           fc_position := 0\<rparr>
          in if pts = [] \<and> deltaSeed = None then Some (put_item path name item1 f)
             else Some (put_item path name
                    (item1\<lparr>fc_last := 0, fc_deltaState := (case deltaSeed of None \<Rightarrow> 0 | Some d \<Rightarrow> d)\<rparr>) f))"

definition setGapActions :: "string \<Rightarrow> string \<Rightarrow> u64 list \<Rightarrow> fake_provider \<Rightarrow> fake_provider checked" where
  "setGapActions path name actions f =
     (case fake_item f path name of
        None \<Rightarrow> None
      | Some item \<Rightarrow> Some (put_item path name (item\<lparr>fc_gaps := actions\<rparr>) f))"

definition fake_enumerate :: "fake_provider \<Rightarrow> object_seed list" where
  "fake_enumerate f =
     map (\<lambda>(path, ob). \<lparr>os_kind = fo_kind ob, os_path = path, os_alias = fo_alias ob,
            os_description = fo_description ob,
            os_entries = map (\<lambda>(name, c). \<lparr>cs_name = name, cs_description = fc_description c,
               cs_unit = fc_unit c, cs_avail = fc_avail c, cs_mode = fc_mode c, cs_frequencyHz = 0,
               cs_scaled = False, cs_hasRatioPair = fc_ratioPair c\<rparr>) (fo_counters ob),
            os_programmableCounters = fo_programmableCounters ob\<rparr>) (fk_objects f)"

subsection \<open>Opening a window\<close>

record playback =
  pb_position :: nat
  pb_last :: u64
  pb_deltaState :: u64

record sampled =
  sa_path :: string
  sa_name :: string
  sa_playback :: playback

record fake_window =
  fw_leaves :: "sampled list"
  fw_column :: "nat option"
  fw_actions :: u64

definition carried_leaves :: "string \<Rightarrow> string list \<Rightarrow> nat" where
  "carried_leaves path as = length (List.filter (\<lambda>a. fst (splitLeafAddress a) = path) as)"

fun over_limit :: "string list \<Rightarrow> (string \<times> fake_object) list \<Rightarrow> (string \<times> nat \<times> nat) option" where
  "over_limit as [] = None"
| "over_limit as ((path, ob) # rest) =
     (case fo_groupLeafLimit ob of
        None \<Rightarrow> over_limit as rest
      | Some limit \<Rightarrow>
          if carried_leaves path as > limit then Some (path, carried_leaves path as, limit)
          else over_limit as rest)"

definition playback_of :: "fake_counter \<Rightarrow> playback" where
  "playback_of c = \<lparr>pb_position = fc_position c, pb_last = fc_last c, pb_deltaState = fc_deltaState c\<rparr>"

fun sampled_of :: "fake_provider \<Rightarrow> string list \<Rightarrow> sampled list option" where
  "sampled_of f [] = Some []"
| "sampled_of f (a # as) =
     (let (path, name) = splitLeafAddress a
      in case fake_item f path name of
           None \<Rightarrow> None
         | Some c \<Rightarrow> map_option (Cons \<lparr>sa_path = path, sa_name = name, sa_playback = playback_of c\<rparr>)
                       (sampled_of f as))"

definition fake_open :: "leaf_set \<Rightarrow> fake_provider \<Rightarrow> fake_window option \<times> fake_provider" where
  "fake_open req f =
     (case over_limit (ls_addresses req) (fk_objects f) of
        Some (path, carried, limit) \<Rightarrow>
          (None, f\<lparr>fk_lastRefusal := ''fake group open refuses '' @ path @ '' with '' @ decimal carried
                    @ '' leaves over its scripted count of '' @ decimal limit\<rparr>)
      | None \<Rightarrow>
          let f1 = f\<lparr>fk_windowOpens := fk_windowOpens f + 1\<rparr>
          in (map_option (\<lambda>ls. \<lparr>fw_leaves = ls, fw_column = ls_column req, fw_actions = 0\<rparr>)
                (sampled_of f1 (ls_addresses req)), f1))"

subsection \<open>One sampling action\<close>

definition play :: "fake_script \<Rightarrow> playback \<Rightarrow> u64 \<times> playback" where
  "play sc p =
     (if pb_position p < length (fs_points sc)
      then (fs_points sc ! pb_position p,
            \<lparr>pb_position = pb_position p + 1, pb_last = fs_points sc ! pb_position p,
             pb_deltaState = pb_deltaState p\<rparr>)
      else
        (case fs_deltaSeed sc of
           Some _ \<Rightarrow>
             let d = nextDelta (pb_deltaState p)
             in (pb_last p + d, \<lparr>pb_position = pb_position p, pb_last = pb_last p + d, pb_deltaState = d\<rparr>)
         | None \<Rightarrow>
             (pb_last p + fs_tailDelta sc,
              \<lparr>pb_position = pb_position p, pb_last = pb_last p + fs_tailDelta sc,
               pb_deltaState = pb_deltaState p\<rparr>)))"

text \<open>The loop over the leaves of a window: the leaves with their playback moved on, and whether one gapped.\<close>

fun fake_put_leaves ::
  "fake_provider \<Rightarrow> u64 \<Rightarrow> sampled list \<Rightarrow> point_sink \<Rightarrow> (sampled list \<times> bool \<times> point_sink) checked" where
  "fake_put_leaves f actions [] s = Some ([], False, s)"
| "fake_put_leaves f actions (l # ls) s =
     (case fake_item f (sa_path l) (sa_name l) of
        None \<Rightarrow> None
      | Some item \<Rightarrow>
          if gapsAt item actions then
            (case put 0 s of
               None \<Rightarrow> None
             | Some s1 \<Rightarrow> map_option (\<lambda>(ls', g, s2). (l # ls', True, s2)) (fake_put_leaves f actions ls s1))
          else
            (case put (fst (play (fc_script item) (sa_playback l))) s of
               None \<Rightarrow> None
             | Some s1 \<Rightarrow>
                 map_option (\<lambda>(ls', g, s2).
                   (l\<lparr>sa_playback := snd (play (fc_script item) (sa_playback l))\<rparr> # ls', g, s2))
                   (fake_put_leaves f actions ls s1)))"

definition hand_off :: "sampled \<Rightarrow> fake_provider \<Rightarrow> fake_provider" where
  "hand_off l f =
     (case fake_item f (sa_path l) (sa_name l) of
        None \<Rightarrow> f
      | Some item \<Rightarrow>
          if pb_last (sa_playback l) < fc_last item then f
          else put_item (sa_path l) (sa_name l)
                 (item\<lparr>fc_position := pb_position (sa_playback l), fc_last := pb_last (sa_playback l),
                       fc_deltaState := pb_deltaState (sa_playback l)\<rparr>) f)"

definition fake_readPoints ::
  "fake_window \<Rightarrow> fake_provider \<Rightarrow> point_sink \<Rightarrow> (fake_window \<times> fake_provider \<times> point_sink) checked" where
  "fake_readPoints win f s =
     (let f1 = f\<lparr>fk_readActions := fk_readActions f + 1\<rparr>;
          act = fw_actions win + 1
      in case fake_put_leaves f1 act (fw_leaves win) s of
           None \<Rightarrow> None
         | Some (ls, gapped, s1) \<Rightarrow>
             map_option (\<lambda>s2. (win\<lparr>fw_leaves := ls, fw_actions := act\<rparr>, fold hand_off ls f1, s2))
               (disclose (fw_column win) (availability_code (if gapped then GAP else COUNTABLE)) s1))"

subsection \<open>The contract of a fake window\<close>

definition fake_wf :: "fake_provider \<Rightarrow> bool" where
  "fake_wf f \<longleftrightarrow> om_wf (fk_objects f) \<and> (\<forall>ob \<in> snd ` set (fk_objects f). om_wf (fo_counters ob))"

definition fake_standing :: "fake_window \<Rightarrow> fake_provider \<Rightarrow> bool" where
  "fake_standing win f \<longleftrightarrow> fake_wf f \<and> (\<forall>l \<in> set (fw_leaves win). fake_item f (sa_path l) (sa_name l) \<noteq> None)"

text \<open>What one action number \<open>act\<close> reads from a leaf, and the leaf it leaves.\<close>

definition leaf_gaps :: "fake_provider \<Rightarrow> u64 \<Rightarrow> sampled \<Rightarrow> bool" where
  "leaf_gaps f act l = (case fake_item f (sa_path l) (sa_name l) of None \<Rightarrow> False | Some c \<Rightarrow> gapsAt c act)"

definition leaf_value :: "fake_provider \<Rightarrow> u64 \<Rightarrow> sampled \<Rightarrow> u64" where
  "leaf_value f act l =
     (case fake_item f (sa_path l) (sa_name l) of
        None \<Rightarrow> 0
      | Some c \<Rightarrow> if gapsAt c act then 0 else fst (play (fc_script c) (sa_playback l)))"

definition leaf_next :: "fake_provider \<Rightarrow> u64 \<Rightarrow> sampled \<Rightarrow> sampled" where
  "leaf_next f act l =
     (case fake_item f (sa_path l) (sa_name l) of
        None \<Rightarrow> l
      | Some c \<Rightarrow> if gapsAt c act then l else l\<lparr>sa_playback := snd (play (fc_script c) (sa_playback l))\<rparr>)"

definition fake_points :: "fake_window \<Rightarrow> fake_provider \<Rightarrow> u64 list" where
  "fake_points win f = map (leaf_value f (fw_actions win + 1)) (fw_leaves win)"

definition fake_state :: "fake_window \<Rightarrow> fake_provider \<Rightarrow> u64" where
  "fake_state win f =
     availability_code (if list_ex (leaf_gaps f (fw_actions win + 1)) (fw_leaves win) then GAP else COUNTABLE)"

definition count_read :: "fake_provider \<Rightarrow> fake_provider" where
  "count_read f = f\<lparr>fk_readActions := fk_readActions f + 1\<rparr>"

definition fake_advance :: "fake_window \<Rightarrow> fake_provider \<Rightarrow> fake_window \<times> fake_provider" where
  "fake_advance win f =
     (let ls = map (leaf_next f (fw_actions win + 1)) (fw_leaves win)
      in (win\<lparr>fw_leaves := ls, fw_actions := fw_actions win + 1\<rparr>, fold hand_off ls (count_read f)))"

lemma count_read_simps [simp]:
  "fake_item (count_read f) p n = fake_item f p n" "fk_objects (count_read f) = fk_objects f"
  "fake_wf (count_read f) = fake_wf f"
  by (simp_all add: count_read_def fake_item_def fake_wf_def)

lemma leaf_next_names [simp]: "sa_path (leaf_next f act l) = sa_path l" "sa_name (leaf_next f act l) = sa_name l"
  by (simp_all add: leaf_next_def split: option.splits)

lemma object_slot_wf: "fake_wf f \<Longrightarrow> om_wf (fo_counters (object_slot f path))"
  by (auto simp: object_slot_def fake_wf_def empty_object_def dest!: om_find_Some_in split: option.splits)

lemma put_object_wf:
  "fake_wf f \<Longrightarrow> om_wf (fo_counters ob) \<Longrightarrow> fake_wf (put_object path ob f)"
  by (auto simp: fake_wf_def put_object_def om_wf_assign dest!: om_assign_in)

lemma fake_item_put_item:
  assumes "fake_wf f"
  shows "fake_item (put_item p n c f) p' n' = (if p' = p \<and> n' = n then Some c
     else if p' = p then om_find (fo_counters (object_slot f p)) n' else fake_item f p' n')"
  using assms object_slot_wf [OF assms, of p]
  by (simp add: fake_item_def put_item_def put_object_def Let_def fake_wf_def om_find_assign)

lemma fake_item_slot: "fake_item f p n = Some c \<Longrightarrow> om_find (fo_counters (object_slot f p)) n' = fake_item f p n'"
  by (auto simp: fake_item_def object_slot_def split: option.splits)

lemma put_item_wf: "fake_wf f \<Longrightarrow> fake_wf (put_item p n c f)"
  by (simp add: put_item_def Let_def put_object_wf om_wf_assign object_slot_wf)

text \<open>A hand-off moves a playback and nothing else.\<close>

definition same_script :: "fake_provider \<Rightarrow> fake_provider \<Rightarrow> bool" where
  "same_script f g \<longleftrightarrow> (\<forall>p n. (case fake_item f p n of
       None \<Rightarrow> fake_item g p n = None
     | Some c \<Rightarrow> \<exists>d. fake_item g p n = Some d \<and> fc_script d = fc_script c \<and> fc_gaps d = fc_gaps c))"

lemma same_script_refl [simp]: "same_script f f"
  by (simp add: same_script_def split: option.splits)

lemma same_scriptD:
  assumes "same_script f g"
  shows "fake_item f p n = None \<Longrightarrow> fake_item g p n = None"
    and "fake_item f p n = Some c \<Longrightarrow>
      \<exists>d. fake_item g p n = Some d \<and> fc_script d = fc_script c \<and> fc_gaps d = fc_gaps c"
  using assms [unfolded same_script_def, THEN spec, THEN spec, of p n] by simp_all

lemma same_script_trans:
  assumes fg: "same_script f g" and gh: "same_script g h"
  shows "same_script f h"
  unfolding same_script_def
proof (intro allI)
  fix p n
  show "case fake_item f p n of
       None \<Rightarrow> fake_item h p n = None
     | Some c \<Rightarrow> \<exists>d. fake_item h p n = Some d \<and> fc_script d = fc_script c \<and> fc_gaps d = fc_gaps c"
  proof (cases "fake_item f p n")
    case None
    then show ?thesis using same_scriptD(1) [OF fg] same_scriptD(1) [OF gh] by simp
  next
    case (Some c)
    obtain d where d: "fake_item g p n = Some d" "fc_script d = fc_script c" "fc_gaps d = fc_gaps c"
      using same_scriptD(2) [OF fg Some] by blast
    show ?thesis using Some same_scriptD(2) [OF gh d(1)] d by auto
  qed
qed

lemma hand_off_keeps: "fake_wf f \<Longrightarrow> fake_wf (hand_off l f) \<and> same_script f (hand_off l f)"
  by (auto simp: hand_off_def put_item_wf same_script_def fake_item_put_item fake_item_slot split: option.splits)

lemma fold_hand_off_keeps: "fake_wf f \<Longrightarrow> fake_wf (fold hand_off ls f) \<and> same_script f (fold hand_off ls f)"
proof (induction ls arbitrary: f)
  case Nil
  then show ?case by simp
next
  case (Cons l ls)
  have h: "fake_wf (hand_off l f) \<and> same_script f (hand_off l f)" using Cons.prems by (rule hand_off_keeps)
  with Cons.IH [of "hand_off l f"] show ?case by (auto intro: same_script_trans)
qed

lemma same_script_leaf:
  assumes "same_script f g"
  shows "leaf_value g act l = leaf_value f act l" and "leaf_gaps g act l = leaf_gaps f act l"
    and "leaf_next g act l = leaf_next f act l" and "fake_item g p n = None \<longleftrightarrow> fake_item f p n = None"
proof -
  note at = same_scriptD [OF assms, where p = "sa_path l" and n = "sa_name l"]
  show "leaf_value g act l = leaf_value f act l" "leaf_gaps g act l = leaf_gaps f act l"
    "leaf_next g act l = leaf_next f act l"
    by (cases "fake_item f (sa_path l) (sa_name l)";
        use at in \<open>force simp: leaf_value_def leaf_gaps_def leaf_next_def gapsAt_def\<close>)+
  show "fake_item g p n = None \<longleftrightarrow> fake_item f p n = None"
    by (cases "fake_item f p n") (use same_scriptD [OF assms, of p n] in auto)
qed

lemma advance_keeps:
  assumes "fake_wf f"
  shows "fake_wf (snd (fake_advance win f))" and "same_script f (snd (fake_advance win f))"
  using fold_hand_off_keeps [of "count_read f" "map (leaf_next f (fw_actions win + 1)) (fw_leaves win)"] assms
  by (auto simp: fake_advance_def Let_def same_script_def)

lemma fake_put_leaves_list:
  "\<forall>l \<in> set ls. fake_item f (sa_path l) (sa_name l) \<noteq> None \<Longrightarrow>
   fake_put_leaves f act ls s =
     map_option (\<lambda>s'. (map (leaf_next f act) ls, list_ex (leaf_gaps f act) ls, s'))
       (put_list (map (leaf_value f act) ls) s)"
  by (induction ls arbitrary: s)
     (auto simp: leaf_value_def leaf_next_def leaf_gaps_def option.map_comp comp_def split: option.splits)

lemma leaf_count_read: "leaf_value (count_read f) act = leaf_value f act"
  "leaf_next (count_read f) act = leaf_next f act" "leaf_gaps (count_read f) act = leaf_gaps f act"
  by (rule ext; simp add: leaf_value_def leaf_next_def leaf_gaps_def)+

lemma fake_standing_advance:
  assumes "fake_standing q f" and "fake_wf f"
  shows "fake_standing q (snd (fake_advance win f))"
  using assms advance_keeps [OF assms(2), of win] same_script_leaf(4) [OF advance_keeps(2) [OF assms(2), of win]]
  by (auto simp: fake_standing_def)

interpretation fake_reader: window_reader fake_readPoints fake_standing "\<lambda>win. length (fw_leaves win)"
  fw_column fake_points fake_state fake_advance
proof unfold_locales
  fix r :: fake_window and w s
  assume st: "fake_standing r w"
  then have here: "\<forall>l \<in> set (fw_leaves r). fake_item (count_read w) (sa_path l) (sa_name l) \<noteq> None"
    by (simp add: fake_standing_def)
  show "fake_readPoints r w s =
        (case put_list (fake_points r w) s of
           None \<Rightarrow> None
         | Some s1 \<Rightarrow> map_option (\<lambda>s2. (fst (fake_advance r w), snd (fake_advance r w), s2))
                        (disclose (fw_column r) (fake_state r w) s1))"
    unfolding fake_readPoints_def count_read_def [symmetric] Let_def fake_put_leaves_list [OF here]
    by (simp add: fake_points_def fake_state_def fake_advance_def leaf_count_read Let_def split: option.splits)
next
  fix r :: fake_window and w
  assume st: "fake_standing r w"
  show "length (fake_points r w) = length (fw_leaves r)" by (simp add: fake_points_def)
  show "length (fw_leaves (fst (fake_advance r w))) = length (fw_leaves r)"
    by (simp add: fake_advance_def Let_def)
  show "fw_column (fst (fake_advance r w)) = fw_column r" by (simp add: fake_advance_def Let_def)
  have wf: "fake_wf w" using st by (simp add: fake_standing_def)
  show "fake_standing (fst (fake_advance r w)) (snd (fake_advance r w))"
    using fake_standing_advance [OF st wf, of r] by (auto simp: fake_standing_def fake_advance_def Let_def)
  show "fake_standing q (snd (fake_advance r w))" if "fake_standing q w" for q
    using that wf by (rule fake_standing_advance)
qed

subsection \<open>Windows do not disturb each other\<close>

text \<open>The values a window reads in \<open>n\<close> actions of its own, and in a schedule it shares with another.\<close>

fun fake_run :: "nat \<Rightarrow> fake_window \<Rightarrow> fake_provider \<Rightarrow> u64 list list" where
  "fake_run 0 win f = []"
| "fake_run (Suc n) win f =
     fake_points win f # fake_run n (fst (fake_advance win f)) (snd (fake_advance win f))"

fun fake_shared :: "bool list \<Rightarrow> fake_window \<Rightarrow> fake_window \<Rightarrow> fake_provider \<Rightarrow> u64 list list" where
  "fake_shared [] a b f = []"
| "fake_shared (True # bs) a b f =
     fake_points a f # fake_shared bs (fst (fake_advance a f)) b (snd (fake_advance a f))"
| "fake_shared (False # bs) a b f = fake_shared bs a (fst (fake_advance b f)) (snd (fake_advance b f))"

lemma fake_points_same: "same_script f g \<Longrightarrow> fake_points a g = fake_points a f"
  by (simp add: fake_points_def same_script_leaf(1) cong: map_cong)

lemma fst_advance_same: "same_script f g \<Longrightarrow> fst (fake_advance a g) = fst (fake_advance a f)"
  by (simp add: fake_advance_def Let_def same_script_leaf(3) cong: map_cong)

lemma same_script_sym: "same_script f g \<Longrightarrow> same_script g f"
proof -
  assume s: "same_script f g"
  have "case fake_item g p n of
       None \<Rightarrow> fake_item f p n = None
     | Some c \<Rightarrow> \<exists>d. fake_item f p n = Some d \<and> fc_script d = fc_script c \<and> fc_gaps d = fc_gaps c" for p n
    by (cases "fake_item f p n") (use same_scriptD [OF s, of p n] in auto)
  then show ?thesis by (simp add: same_script_def)
qed

lemma fake_run_same:
  "same_script f g \<Longrightarrow> fake_wf f \<Longrightarrow> fake_wf g \<Longrightarrow> fake_run n a g = fake_run n a f"
proof (induction n arbitrary: a f g)
  case 0
  then show ?case by simp
next
  case (Suc n)
  have "same_script f (snd (fake_advance a g))"
    using Suc.prems(1) advance_keeps(2) [OF Suc.prems(3)] by (rule same_script_trans)
  with advance_keeps(2) [OF Suc.prems(2), of a]
  have "same_script (snd (fake_advance a f)) (snd (fake_advance a g))"
    by (blast intro: same_script_sym same_script_trans)
  with Suc advance_keeps(1) show ?case by (simp add: fake_points_same fst_advance_same)
qed

lemma fake_shared_alone:
  "fake_wf f \<Longrightarrow> fake_shared bs a b f = fake_run (length (List.filter id bs)) a f"
proof (induction bs a b f rule: fake_shared.induct)
  case (3 bs a b f)
  then show ?case using fake_run_same [OF advance_keeps(2) [OF 3(2)] 3(2) advance_keeps(1) [OF 3(2)]]
    by (simp add: advance_keeps)
qed (simp_all add: advance_keeps)

text \<open>
  The values a fake window reads depend on its own playback alone: whatever other window over the
  same provider samples in between, in any interleaving, it reads what it reads running alone.
\<close>

theorem fake_windows_are_independent:
  assumes "fake_standing a f" and "fake_standing b f"
  shows "fake_shared schedule a b f = fake_run (length (List.filter id schedule)) a f"
  using assms(1) by (intro fake_shared_alone) (simp add: fake_standing_def)

subsection \<open>Playing a script back\<close>

definition measured :: "fake_counter \<Rightarrow> nat \<Rightarrow> nat" where
  "measured c k = length (List.filter (\<lambda>i. \<not> gapsAt c (of_nat (Suc i))) [0..<k])"

definition script_series :: "fake_counter \<Rightarrow> nat \<Rightarrow> u64" where
  "script_series c m =
     (let pts = fs_points (fc_script c)
      in if m < length pts then pts ! m
         else (if pts = [] then fc_last c else last pts)
              + of_nat (m + 1 - length pts) * fs_tailDelta (fc_script c))"

definition played :: "fake_counter \<Rightarrow> nat \<Rightarrow> playback" where
  "played c m =
     \<lparr>pb_position = min m (length (fs_points (fc_script c))),
      pb_last = (if m = 0 then fc_last c else script_series c (m - 1)), pb_deltaState = fc_deltaState c\<rparr>"

lemma play_played:
  assumes "fs_deltaSeed (fc_script c) = None"
  shows "play (fc_script c) (played c m) = (script_series c m, played c (Suc m))"
proof (cases "m < length (fs_points (fc_script c))")
  case True
  then show ?thesis by (simp add: play_def played_def script_series_def)
next
  case False
  then have tail: "pb_last (played c m) + fs_tailDelta (fc_script c) = script_series c m"
  proof (cases "m = length (fs_points (fc_script c))")
    case True
    show ?thesis
    proof (cases "fs_points (fc_script c)" rule: rev_cases)
      case Nil
      with True show ?thesis by (simp add: played_def script_series_def)
    next
      case (snoc xs x)
      with True show ?thesis by (simp add: played_def script_series_def)
    qed
  next
    case other: False
    with False obtain j where m: "m = length (fs_points (fc_script c)) + Suc j"
      by (metis add_Suc_right less_iff_Suc_add linorder_neqE_nat)
    show ?thesis
      by (simp add: played_def script_series_def m Let_def algebra_simps)
  qed
  with False assms show ?thesis
    by (simp add: play_def Let_def) (simp add: played_def min_def)
qed

lemma measured_Suc: "measured c (Suc k) = measured c k + (if gapsAt c (of_nat (Suc k)) then 0 else 1)"
  by (simp add: measured_def)

lemma fake_run_series:
  assumes "fake_wf f" and "fake_item f path name = Some d" and "fc_script d = fc_script c"
    and "fc_gaps d = fc_gaps c" and "fs_deltaSeed (fc_script c) = None"
    and "fw_leaves win = [\<lparr>sa_path = path, sa_name = name, sa_playback = played c (measured c k)\<rparr>]"
    and "fw_actions win = of_nat k"
  shows "fake_run n win f =
    map (\<lambda>i. [if gapsAt c (of_nat (Suc i)) then 0 else script_series c (measured c i)]) [k..<k + n]"
  using assms
proof (induction n arbitrary: k win f d)
  case 0
  then show ?case by simp
next
  case (Suc n)
  have gaps: "gapsAt d a = gapsAt c a" for a using Suc.prems(4) by (simp add: gapsAt_def)
  let ?win = "fst (fake_advance win f)" and ?f = "snd (fake_advance win f)"
  have one: "fake_points win f = [if gapsAt c (of_nat (Suc k)) then 0 else script_series c (measured c k)]"
    using Suc.prems play_played [OF Suc.prems(5)]
    by (simp add: fake_points_def leaf_value_def gaps add.commute)
  have leaf: "fw_leaves ?win = [\<lparr>sa_path = path, sa_name = name, sa_playback = played c (measured c (Suc k))\<rparr>]"
    and act: "fw_actions ?win = of_nat (Suc k)"
    using Suc.prems play_played [OF Suc.prems(5)]
    by (simp_all add: fake_advance_def Let_def leaf_next_def gaps measured_Suc add.commute)
  obtain e where e: "fake_item ?f path name = Some e" "fc_script e = fc_script d" "fc_gaps e = fc_gaps d"
    using same_scriptD(2) [OF advance_keeps(2) [OF Suc.prems(1)] Suc.prems(2)] by blast
  have "fake_run n ?win ?f =
    map (\<lambda>i. [if gapsAt c (of_nat (Suc i)) then 0 else script_series c (measured c i)]) [Suc k..<Suc k + n]"
    using e Suc.prems by (intro Suc.IH [OF advance_keeps(1) [OF Suc.prems(1)] e(1) _ _ Suc.prems(5) leaf act]) simp_all
  with one show ?case by (simp add: upt_rec [of k])
qed

text \<open>
  A fresh window plays its script back: action \<open>i\<close> reads zero where the script names a gap, and
  otherwise the scripted point of the measured actions so far, or the last point plus one tail delta
  per action past the script, modulo \<open>2 ^ 64\<close>; a gap does not move the script.
\<close>

theorem fake_window_plays_its_script:
  assumes "fake_wf f" and "fake_item f path name = Some c" and "CHR ''/'' \<notin> set name"
    and "fs_deltaSeed (fc_script c) = None" and "fc_position c = 0"
    and "over_limit [path @ ''/'' @ name] (fk_objects f) = None"
  shows "\<exists>win f'. fake_open \<lparr>ls_addresses = [path @ ''/'' @ name], ls_column = column\<rparr> f = (Some win, f')
     \<and> fake_run n win f' =
         map (\<lambda>i. [if gapsAt c (of_nat (Suc i)) then 0 else script_series c (measured c i)]) [0..<n]"
proof -
  let ?f = "f\<lparr>fk_windowOpens := fk_windowOpens f + 1\<rparr>"
  let ?win = "\<lparr>fw_leaves = [\<lparr>sa_path = path, sa_name = name, sa_playback = playback_of c\<rparr>],
      fw_column = column, fw_actions = 0\<rparr>"
  have item: "fake_item ?f path name = Some c" using assms(2) by (simp add: fake_item_def)
  have op: "fake_open \<lparr>ls_addresses = [path @ ''/'' @ name], ls_column = column\<rparr> f = (Some ?win, ?f)"
    using assms(3,6) item by (simp add: fake_open_def Let_def splitLeafAddress_join)
  have wf: "fake_wf ?f" using assms(1) by (simp add: fake_wf_def)
  have start: "playback_of c = played c (measured c 0)"
    using assms(5) by (simp add: playback_of_def played_def measured_def)
  have "fake_run n ?win ?f =
      map (\<lambda>i. [if gapsAt c (of_nat (Suc i)) then 0 else script_series c (measured c i)]) [0..<0 + n]"
    by (rule fake_run_series [OF wf item _ _ assms(4)]) (simp_all add: start)
  with op show ?thesis by auto
qed

definition example_counter :: "u64 list \<Rightarrow> u64 list \<Rightarrow> fake_counter" where
  "example_counter pts gaps = empty_counter\<lparr>fc_script :=
     \<lparr>fs_points = pts, fs_tailDelta = 2, fs_deltaSeed = None\<rparr>, fc_gaps := gaps\<rparr>"

definition example_fake :: "u64 list \<Rightarrow> u64 list \<Rightarrow> fake_provider" where
  "example_fake pts gaps = \<lparr>fk_objects = [(''pmu'', \<lparr>fo_kind = ''pmu'', fo_alias = [], fo_description = [],
       fo_counters = [(''hits'', example_counter pts gaps)],
       fo_programmableCounters = None, fo_groupLeafLimit = Some 4\<rparr>)],
     fk_readActions = 0, fk_windowOpens = 0, fk_lastRefusal = []\<rparr>"

definition example_window :: fake_window where
  "example_window = \<lparr>fw_leaves = [\<lparr>sa_path = ''pmu'', sa_name = ''hits'',
      sa_playback = \<lparr>pb_position = 0, pb_last = 0, pb_deltaState = 0\<rparr>\<rparr>], fw_column = Some 1, fw_actions = 0\<rparr>"

lemma example_fake_facts: "fake_wf (example_fake pts gaps)"
  "fake_item (example_fake pts gaps) ''pmu'' ''hits'' = Some (example_counter pts gaps)"
  "over_limit [''pmu'' @ ''/'' @ ''hits''] (fk_objects (example_fake pts gaps)) = None"
  "fs_deltaSeed (fc_script (example_counter pts gaps)) = None" "fc_position (example_counter pts gaps) = 0"
  "fc_gaps (example_counter pts gaps) = gaps"
proof -
  show "over_limit [''pmu'' @ ''/'' @ ''hits''] (fk_objects (example_fake pts gaps)) = None"
    by (simp add: example_fake_def carried_leaves_def)
qed (simp_all add: fake_wf_def fake_item_def example_fake_def om_find_Cons om_wf_Cons example_counter_def empty_counter_def)

theorem fake_windows_are_independent_witness:
  "fake_shared [True, False, True] example_window example_window (example_fake [5, 3] [2])
     = fake_run 2 example_window (example_fake [5, 3] [2])"
proof -
  have "fake_standing example_window (example_fake [5, 3] [2])"
    using example_fake_facts by (simp add: fake_standing_def example_window_def)
  from fake_windows_are_independent [OF this this, of "[True, False, True]"] show ?thesis
    by (simp add: numeral_2_eq_2)
qed

theorem fake_window_plays_its_script_witness:
  "\<exists>win f'. fake_open \<lparr>ls_addresses = [''pmu'' @ ''/'' @ ''hits''], ls_column = Some 1\<rparr> (example_fake [5, 3] [2])
       = (Some win, f')
     \<and> fake_run 4 win f' = [[5], [0], [3], [5]]"
proof -
  let ?c = "example_counter [5, 3] [2]"
  have vals: "map (\<lambda>i. [if gapsAt ?c (of_nat (Suc i)) then 0 else script_series ?c (measured ?c i)]) [0..<4]
      = [[5], [0], [3], [5]]"
    by code_simp
  note ex = example_fake_facts [of "[5, 3]" "[2]"]
  show ?thesis
    using fake_window_plays_its_script [OF ex(1,2) _ ex(4,5,3), where n = 4 and column = "Some 1"]
    unfolding vals by simp
qed

subsection \<open>Handing the playback on\<close>

fun fake_final :: "nat \<Rightarrow> fake_window \<Rightarrow> fake_provider \<Rightarrow> fake_window \<times> fake_provider" where
  "fake_final 0 win f = (win, f)"
| "fake_final (Suc n) win f = fake_final n (fst (fake_advance win f)) (snd (fake_advance win f))"

lemma om_assign_image:
  "om_wf m \<Longrightarrow> om_find m k = Some v \<Longrightarrow> g v' = g v \<Longrightarrow>
   map (\<lambda>(k, v). (k, g v)) (om_assign k v' m) = map (\<lambda>(k, v). (k, g v)) m"
proof (induction k v' m rule: om_assign.induct)
  case (2 k v' k' w m)
  show ?case
  proof (cases "k < k'")
    case True
    with 2 have "om_find ((k', w) # m) k = None" by (intro om_find_low) (auto simp: om_wf_Cons)
    with 2 show ?thesis by simp
  next
    case False
    with 2 show ?thesis by (auto simp: om_find_Cons om_wf_Cons)
  qed
qed simp

lemma over_limit_image:
  "map (\<lambda>(p, ob). (p, fo_groupLeafLimit ob)) m = map (\<lambda>(p, ob). (p, fo_groupLeafLimit ob)) m' \<Longrightarrow>
   over_limit as m = over_limit as m'"
proof (induction m arbitrary: m')
  case Nil
  then show ?case by simp
next
  case (Cons x m)
  then obtain y m1 where m': "m' = y # m1" by (cases m') auto
  with Cons show ?case by (cases x; cases y) (auto split: option.splits)
qed

lemma over_limit_put_item:
  assumes "fake_wf f" and "fake_item f p n = Some d"
  shows "over_limit as (fk_objects (put_item p n c f)) = over_limit as (fk_objects f)"
proof -
  obtain ob where ob: "om_find (fk_objects f) p = Some ob"
    using assms(2) by (auto simp: fake_item_def split: option.splits)
  then show ?thesis
    using assms(1) om_assign_image [of "fk_objects f" p ob fo_groupLeafLimit]
    by (intro over_limit_image) (simp add: put_item_def put_object_def object_slot_def Let_def fake_wf_def)
qed

definition at_play :: "fake_counter \<Rightarrow> nat \<Rightarrow> fake_counter" where
  "at_play c m = c\<lparr>fc_position := pb_position (played c m), fc_last := pb_last (played c m)\<rparr>"

lemma played_simps: "pb_deltaState (played c m) = fc_deltaState c" "pb_last (played c (Suc m)) = script_series c m"
  by (simp_all add: played_def)

lemma fake_final_resumes:
  assumes "fake_wf f" and "fake_item f path name = Some (at_play c k)"
    and "fs_deltaSeed (fc_script c) = None" and "fc_gaps c = []"
    and "\<forall>i < k + n. pb_last (played c i) \<le> pb_last (played c (Suc i))"
    and "fw_leaves win = [\<lparr>sa_path = path, sa_name = name, sa_playback = played c k\<rparr>]"
  shows "fake_wf (snd (fake_final n win f))
     \<and> fake_item (snd (fake_final n win f)) path name = Some (at_play c (k + n))
     \<and> over_limit as (fk_objects (snd (fake_final n win f))) = over_limit as (fk_objects f)"
  using assms
proof (induction n arbitrary: k win f)
  case 0
  then show ?case by simp
next
  case (Suc n)
  have script: "fc_script (at_play c k) = fc_script c" "fc_gaps (at_play c k) = []"
    "fc_last (at_play c k) = pb_last (played c k)"
    using Suc.prems(4) by (simp_all add: at_play_def)
  have order: "\<not> pb_last (played c (Suc k)) < pb_last (played c k)" using Suc.prems(5) by (simp add: not_less)
  let ?l = "\<lparr>sa_path = path, sa_name = name, sa_playback = played c (Suc k)\<rparr>"
  have next1: "leaf_next f act \<lparr>sa_path = path, sa_name = name, sa_playback = played c k\<rparr> = ?l" for act
    using Suc.prems(2) play_played [OF Suc.prems(3), of k] by (simp add: leaf_next_def script gapsAt_def)
  have hand: "hand_off ?l (count_read f) = put_item path name (at_play c (Suc k)) (count_read f)"
    using Suc.prems(2) order by (simp add: hand_off_def script(3) played_simps) (simp add: at_play_def played_simps)
  have adv: "fake_advance win f =
      (win\<lparr>fw_leaves := [?l], fw_actions := fw_actions win + 1\<rparr>, put_item path name (at_play c (Suc k)) (count_read f))"
    using Suc.prems(6) hand by (simp add: fake_advance_def Let_def next1)
  let ?g = "put_item path name (at_play c (Suc k)) (count_read f)"
  have wf: "fake_wf (count_read f)" using Suc.prems(1) by simp
  have "fake_wf (snd (fake_final n (win\<lparr>fw_leaves := [?l], fw_actions := fw_actions win + 1\<rparr>) ?g))
     \<and> fake_item (snd (fake_final n (win\<lparr>fw_leaves := [?l], fw_actions := fw_actions win + 1\<rparr>) ?g)) path name
         = Some (at_play c (Suc k + n))
     \<and> over_limit as (fk_objects (snd (fake_final n (win\<lparr>fw_leaves := [?l], fw_actions := fw_actions win + 1\<rparr>) ?g)))
         = over_limit as (fk_objects ?g)"
    using Suc.prems by (intro Suc.IH [OF put_item_wf [OF wf]]) (simp_all add: fake_item_put_item [OF wf])
  moreover have "over_limit as (fk_objects ?g) = over_limit as (fk_objects f)"
    using over_limit_put_item [OF wf, of path name "at_play c k" as "at_play c (Suc k)"] Suc.prems(2) by simp
  ultimately show ?case by (simp add: adv)
qed

text \<open>
  A window that opens after another one sampled \<open>n\<close> actions resumes the script where that one
  stopped, provided the played values never fall; the hand-off compares last values, so a falling value
  is not handed on.
\<close>

theorem next_fake_window_resumes:
  assumes "fake_wf f" and "fake_item f path name = Some c" and "CHR ''/'' \<notin> set name"
    and "fs_deltaSeed (fc_script c) = None" and "fc_position c = 0" and "fc_gaps c = []"
    and "over_limit [path @ ''/'' @ name] (fk_objects f) = None"
    and "\<forall>i < n. pb_last (played c i) \<le> pb_last (played c (Suc i))"
  shows "\<exists>win f1 win' f2. fake_open \<lparr>ls_addresses = [path @ ''/'' @ name], ls_column = column\<rparr> f = (Some win, f1)
     \<and> fake_open \<lparr>ls_addresses = [path @ ''/'' @ name], ls_column = column\<rparr> (snd (fake_final n win f1)) = (Some win', f2)
     \<and> fake_run m win' f2 = map (\<lambda>i. [script_series c i]) [n..<n + m]"
proof -
  let ?req = "\<lparr>ls_addresses = [path @ ''/'' @ name], ls_column = column\<rparr>"
  let ?f1 = "f\<lparr>fk_windowOpens := fk_windowOpens f + 1\<rparr>"
  let ?win = "\<lparr>fw_leaves = [\<lparr>sa_path = path, sa_name = name, sa_playback = playback_of c\<rparr>],
      fw_column = column, fw_actions = 0\<rparr>"
  have item: "fake_item ?f1 path name = Some c" using assms(2) by (simp add: fake_item_def)
  have op: "fake_open ?req f = (Some ?win, ?f1)"
    using assms(3,7) item by (simp add: fake_open_def Let_def splitLeafAddress_join)
  have wf: "fake_wf ?f1" using assms(1) by (simp add: fake_wf_def)
  have start: "playback_of c = played c 0" "at_play c 0 = c"
    using assms(5) by (simp_all add: playback_of_def played_def at_play_def)
  let ?g = "snd (fake_final n ?win ?f1)"
  have fin: "fake_wf ?g \<and> fake_item ?g path name = Some (at_play c (0 + n))
      \<and> over_limit [path @ ''/'' @ name] (fk_objects ?g) = over_limit [path @ ''/'' @ name] (fk_objects ?f1)"
    using item assms(4,6,8) start by (intro fake_final_resumes [OF wf]) simp_all
  let ?g1 = "?g\<lparr>fk_windowOpens := fk_windowOpens ?g + 1\<rparr>"
  let ?win' = "\<lparr>fw_leaves = [\<lparr>sa_path = path, sa_name = name, sa_playback = playback_of (at_play c n)\<rparr>],
      fw_column = column, fw_actions = 0\<rparr>"
  have item': "fake_item ?g1 path name = Some (at_play c n)" using fin by (simp add: fake_item_def)
  have op': "fake_open ?req ?g = (Some ?win', ?g1)"
    using assms(3,7) item' fin by (simp add: fake_open_def Let_def splitLeafAddress_join)
  have again: "playback_of (at_play c n) = played c n" by (simp add: playback_of_def played_def at_play_def)
  have wf': "fake_wf ?g1" using fin by (simp add: fake_wf_def)
  have resume: "fake_run m win h = map (\<lambda>i. [script_series c i]) [k..<k + m]"
    if "fake_wf h" "fake_item h path name = Some d" "fc_script d = fc_script c" "fc_gaps d = []"
      "fw_leaves win = [\<lparr>sa_path = path, sa_name = name, sa_playback = played c k\<rparr>]" for m win h k d
    using that
  proof (induction m arbitrary: win h k d)
    case 0
    then show ?case by simp
  next
    case (Suc m)
    have nogap: "\<not> gapsAt d a" for a using Suc.prems(4) by (simp add: gapsAt_def)
    obtain e where e: "fake_item (snd (fake_advance win h)) path name = Some e"
      "fc_script e = fc_script c" "fc_gaps e = []"
      using same_scriptD(2) [OF advance_keeps(2) [OF Suc.prems(1)] Suc.prems(2)] Suc.prems(3,4) by auto
    have "fw_leaves (fst (fake_advance win h)) = [\<lparr>sa_path = path, sa_name = name, sa_playback = played c (Suc k)\<rparr>]"
      using Suc.prems play_played [OF assms(4)] by (simp add: fake_advance_def Let_def leaf_next_def nogap)
    from Suc.IH [OF advance_keeps(1) [OF Suc.prems(1)] e this] Suc.prems play_played [OF assms(4)] nogap
    show ?case by (simp add: fake_points_def leaf_value_def upt_rec [of k])
  qed
  have "fake_run m ?win' ?g1 = map (\<lambda>i. [script_series c i]) [n..<n + m]"
    by (rule resume [OF wf' item']) (simp_all add: at_play_def again [unfolded at_play_def] assms(6))
  with op op' show ?thesis by blast
qed

theorem next_fake_window_resumes_witness:
  "\<exists>win f1 win' f2. fake_open \<lparr>ls_addresses = [''pmu'' @ ''/'' @ ''hits''], ls_column = None\<rparr> (example_fake [3, 5] []) = (Some win, f1)
     \<and> fake_open \<lparr>ls_addresses = [''pmu'' @ ''/'' @ ''hits''], ls_column = None\<rparr> (snd (fake_final 1 win f1)) = (Some win', f2)
     \<and> fake_run 2 win' f2 = [[5], [7]]"
proof -
  let ?c = "example_counter [3, 5] []"
  have vals: "map (\<lambda>i. [script_series ?c i]) [1..<1 + 2] = [[5], [7]]" by code_simp
  have "pb_last (played ?c 0) \<le> pb_last (played ?c (Suc 0))" by code_simp
  then have up: "\<forall>i < 1. pb_last (played ?c i) \<le> pb_last (played ?c (Suc i))" by simp
  note ex = example_fake_facts [of "[3, 5]" "[]"]
  show ?thesis
    using next_fake_window_resumes [OF ex(1,2) _ ex(4,5,6,3) up, where column = None and m = 2]
    unfolding vals by simp
qed

text \<open>A script that falls is not handed on: the second window replays the point the first one read.\<close>

lemma falling_script_is_replayed:
  "(case fake_open \<lparr>ls_addresses = [''pmu/hits''], ls_column = None\<rparr> (example_fake [5, 3, 9] []) of
      (Some win, f1) \<Rightarrow>
        (case fake_open \<lparr>ls_addresses = [''pmu/hits''], ls_column = None\<rparr> (snd (fake_final 2 win f1)) of
           (Some win', f2) \<Rightarrow> (fake_run 2 win f1, fake_run 2 win' f2)))
   = ([[5], [3]], [[3], [9]])"
  by code_simp

end
