(* ===== verification/Clock.thy ===== *)
theory Clock
  imports Push
begin

text \<open>
  The system clock provider of \<open>source/counters/clock_provider.cpp\<close> on a POSIX build.  The platform is
  a parameter: what the \<open>n\<close>-th clock read of a run returns for each clock, \<open>None\<close> for a failed call,
  what the \<open>n\<close>-th time-stamp instruction returns, and whether the build executes that instruction.
\<close>

datatype clock_id = CLOCK_MONOTONIC | CLOCK_THREAD_CPUTIME_ID | CLOCK_PROCESS_CPUTIME_ID | CLOCK_MONOTONIC_RAW

record platform =
  clock_gettime :: "clock_id \<Rightarrow> nat \<Rightarrow> (u64 \<times> u64) option"
  rdtsc :: "nat \<Rightarrow> u64"
  x86 :: bool

definition kAddresses :: "string list" where
  "kAddresses = [''machine/monotonic'', ''machine/thread_cpu'', ''machine/process_cpu'', ''machine/tsc'',
     ''machine/monotonic_raw'']"

definition clock_parse :: "string \<Rightarrow> int" where
  "clock_parse addr = (case index_of (\<lambda>a. addr = a) kAddresses of None \<Rightarrow> - 1 | Some i \<Rightarrow> int i)"

definition clock_ns :: "platform \<Rightarrow> clock_id \<Rightarrow> nat \<Rightarrow> u64" where
  "clock_ns pf c n = (case clock_gettime pf c n of None \<Rightarrow> 0 | Some (sec, nsec) \<Rightarrow> sec * 1000000000 + nsec)"

definition tscTicks :: "platform \<Rightarrow> nat \<Rightarrow> u64" where
  "tscTicks pf n = (if x86 pf then rdtsc pf n else 0)"

text \<open>One read of the leaf of a kind, the \<open>n\<close>-th of the run.\<close>

definition clock_read :: "platform \<Rightarrow> nat \<Rightarrow> nat \<Rightarrow> u64" where
  "clock_read pf k n =
     (if k = 0 then clock_ns pf CLOCK_MONOTONIC n
      else if k = 1 then clock_ns pf CLOCK_THREAD_CPUTIME_ID n
      else if k = 2 then clock_ns pf CLOCK_PROCESS_CPUTIME_ID n
      else if k = 4 then clock_ns pf CLOCK_MONOTONIC_RAW n
      else tscTicks pf n)"

record clock_window =
  cw_kinds :: "nat list"
  cw_column :: "nat option"

fun clock_put_kinds :: "platform \<Rightarrow> nat list \<Rightarrow> nat \<Rightarrow> point_sink \<Rightarrow> (nat \<times> point_sink) checked" where
  "clock_put_kinds pf [] n s = Some (n, s)"
| "clock_put_kinds pf (k # ks) n s =
     (case put (clock_read pf k n) s of None \<Rightarrow> None | Some s' \<Rightarrow> clock_put_kinds pf ks (n + 1) s')"

definition clock_readPoints ::
  "platform \<Rightarrow> clock_window \<Rightarrow> nat \<Rightarrow> point_sink \<Rightarrow> (clock_window \<times> nat \<times> point_sink) checked" where
  "clock_readPoints pf win n s =
     (case clock_put_kinds pf (cw_kinds win) n s of
        None \<Rightarrow> None
      | Some (n', s1) \<Rightarrow> map_option (\<lambda>s2. (win, n', s2)) (disclose (cw_column win) (availability_code COUNTABLE) s1))"

definition clock_seed :: "string \<Rightarrow> string \<Rightarrow> string \<Rightarrow> read_mode \<Rightarrow> catalog_seed" where
  "clock_seed name description unit mode =
     \<lparr>cs_name = name, cs_description = description, cs_unit = unit, cs_avail = COUNTABLE, cs_mode = mode,
      cs_frequencyHz = 0, cs_scaled = False, cs_hasRatioPair = False\<rparr>"

definition clock_entries :: "bool \<Rightarrow> catalog_seed list" where
  "clock_entries onX86 =
     [clock_seed ''monotonic'' ''wall-clock time, monotonic across the window'' ''nanoseconds'' SYSCALL,
      clock_seed ''thread_cpu'' ''CPU time consumed by the sampling thread'' ''nanoseconds'' SYSCALL,
      clock_seed ''process_cpu'' ''CPU time consumed by this process'' ''nanoseconds'' SYSCALL]
     @ (if onX86
        then [clock_seed ''tsc'' ''raw time-stamp counter ticks; a count asserting no rate'' ''none'' FAST_TSC]
        else [])
     @ [clock_seed ''monotonic_raw'' ''hardware-rate time, never adjusted by the operating system''
          ''nanoseconds'' SYSCALL]"

definition clock_enumerate :: "bool \<Rightarrow> object_seed list" where
  "clock_enumerate onX86 =
     [\<lparr>os_kind = ''machine'', os_path = ''machine'', os_alias = [], os_description = ''local machine'',
       os_entries = clock_entries onX86, os_programmableCounters = None\<rparr>]"

fun clock_open_kinds :: "bool \<Rightarrow> string list \<Rightarrow> nat list option" where
  "clock_open_kinds onX86 [] = Some []"
| "clock_open_kinds onX86 (a # as) =
     (let index = clock_parse a
      in if index < 0 \<or> (index = 3 \<and> \<not> onX86) then None
         else map_option (Cons (nat index)) (clock_open_kinds onX86 as))"

definition clock_open :: "bool \<Rightarrow> leaf_set \<Rightarrow> clock_window option" where
  "clock_open onX86 req =
     map_option (\<lambda>ks. \<lparr>cw_kinds = ks, cw_column = ls_column req\<rparr>) (clock_open_kinds onX86 (ls_addresses req))"

subsection \<open>The contract of a clock window\<close>

fun clock_points :: "platform \<Rightarrow> nat list \<Rightarrow> nat \<Rightarrow> u64 list" where
  "clock_points pf [] n = []"
| "clock_points pf (k # ks) n = clock_read pf k n # clock_points pf ks (n + 1)"

lemma clock_points_length [simp]: "length (clock_points pf ks n) = length ks"
  by (induction ks arbitrary: n) auto

lemma clock_put_kinds_list:
  "clock_put_kinds pf ks n s = map_option (\<lambda>s'. (n + length ks, s')) (put_list (clock_points pf ks n) s)"
  by (induction ks arbitrary: n s) (auto split: option.splits)

interpretation clock_reader: window_reader "clock_readPoints pf" "\<lambda>_ _. True" "\<lambda>win. length (cw_kinds win)"
  cw_column "\<lambda>win n. clock_points pf (cw_kinds win) n" "\<lambda>_ _. availability_code COUNTABLE"
  "\<lambda>win n. (win, n + length (cw_kinds win))" for pf
  by unfold_locales (auto simp: clock_readPoints_def clock_put_kinds_list split: option.splits)

subsection \<open>The reader opens what the catalog publishes\<close>

lemma clock_open_kinds_iff:
  "clock_open_kinds onX86 as \<noteq> None \<longleftrightarrow>
     (\<forall>a \<in> set as. 0 \<le> clock_parse a \<and> (clock_parse a = 3 \<longrightarrow> onX86))"
  by (induction as) (auto simp: Let_def)

lemma clock_parse_published:
  "0 \<le> clock_parse a \<and> (clock_parse a = 3 \<longrightarrow> onX86) \<longleftrightarrow>
     a \<in> (\<lambda>e. ''machine/'' @ cs_name e) ` set (clock_entries onX86)"
  by (simp add: clock_parse_def kAddresses_def clock_entries_def clock_seed_def) auto

text \<open>
  The clock provider opens a window for a leaf set exactly when every address in it is one its
  catalog publishes, on a build with the time-stamp instruction and on a build without it; the window
  then reads one leaf per address.
\<close>

theorem clock_opens_what_it_publishes:
  "(case clock_open onX86 req of
      None \<Rightarrow> \<not> set (ls_addresses req) \<subseteq> (\<lambda>e. ''machine/'' @ cs_name e) ` set (clock_entries onX86)
    | Some win \<Rightarrow> set (ls_addresses req) \<subseteq> (\<lambda>e. ''machine/'' @ cs_name e) ` set (clock_entries onX86)
        \<and> length (cw_kinds win) = length (ls_addresses req) \<and> cw_column win = ls_column req)"
proof -
  have len: "clock_open_kinds onX86 as = Some ks \<Longrightarrow> length ks = length as" for as ks
    by (induction as arbitrary: ks) (auto simp: Let_def split: if_splits)
  have "clock_open_kinds onX86 (ls_addresses req) \<noteq> None \<longleftrightarrow>
      set (ls_addresses req) \<subseteq> (\<lambda>e. ''machine/'' @ cs_name e) ` set (clock_entries onX86)"
    unfolding clock_open_kinds_iff clock_parse_published by blast
  with len show ?thesis by (auto simp: clock_open_def split: option.splits)
qed

end
