(* ===== verification/Windows.thy ===== *)
theory Windows
  imports Fake Clock
begin

text \<open>
  The shipped providers behind one seam (\<open>ProviderIface\<close>, \<open>WindowReader\<close> of
  \<open>include/speedgun-ng/counters_provider.hpp\<close>): the providers of a system in registration order, the
  thread that runs, and the number of clock reads so far.  A window remembers the provider that opened
  it; \<open>window_read\<close> is the direct-call thunk of the window's own type.  The contract of the seam holds
  for every shipped window, so the plan's read sequence rests on it.
\<close>

datatype provider = PushProvider push_provider | FakeProvider fake_provider | ClockProvider

record world =
  w_thread :: thread_id
  w_providers :: "provider list"
  w_clock :: nat

datatype window =
    PushWindow nat push_window
  | FakeWindow nat fake_window
  | ClockWindow clock_window

definition provider_enumerate :: "platform \<Rightarrow> provider \<Rightarrow> object_seed list" where
  "provider_enumerate pf p =
     (case p of
        PushProvider pts \<Rightarrow> push_enumerate pts
      | FakeProvider f \<Rightarrow> fake_enumerate f
      | ClockProvider \<Rightarrow> clock_enumerate (x86 pf))"

text \<open>\<open>open\<close> of the provider at an index: \<open>None\<close> for a violated contract, \<open>Some (None, w)\<close> for a null window.\<close>

definition provider_open :: "platform \<Rightarrow> nat \<Rightarrow> leaf_set \<Rightarrow> world \<Rightarrow> (window option \<times> world) checked" where
  "provider_open pf i req w =
     (if i \<ge> length (w_providers w) then None
      else
        case w_providers w ! i of
          PushProvider pts \<Rightarrow>
            map_option (\<lambda>win. (map_option (PushWindow i) win, w)) (push_open pts req)
        | FakeProvider f \<Rightarrow>
            (case fake_open req f of
               (win, f') \<Rightarrow> Some (map_option (FakeWindow i) win,
                                  w\<lparr>w_providers := (w_providers w)[i := FakeProvider f']\<rparr>))
        | ClockProvider \<Rightarrow> Some (map_option ClockWindow (clock_open (x86 pf) req), w))"

definition push_world_of :: "nat \<Rightarrow> world \<Rightarrow> push_world" where
  "push_world_of i w = \<lparr>pw_thread = w_thread w,
     pw_points = (case w_providers w ! i of PushProvider pts \<Rightarrow> pts | _ \<Rightarrow> [])\<rparr>"

definition fake_of :: "nat \<Rightarrow> world \<Rightarrow> fake_provider" where
  "fake_of i w = (case w_providers w ! i of FakeProvider f \<Rightarrow> f | _ \<Rightarrow> new_fake)"

definition is_push :: "provider \<Rightarrow> bool" where
  "is_push p = (case p of PushProvider _ \<Rightarrow> True | _ \<Rightarrow> False)"

definition is_fake :: "provider \<Rightarrow> bool" where
  "is_fake p = (case p of FakeProvider _ \<Rightarrow> True | _ \<Rightarrow> False)"

definition put_fake :: "nat \<Rightarrow> fake_provider \<Rightarrow> world \<Rightarrow> world" where
  "put_fake i f w = w\<lparr>w_providers := (w_providers w)[i := FakeProvider f]\<rparr>"

fun window_read :: "platform \<Rightarrow> window \<Rightarrow> world \<Rightarrow> point_sink \<Rightarrow> (window \<times> world \<times> point_sink) checked" where
  "window_read pf (PushWindow i win) w s =
     (if i \<ge> length (w_providers w) \<or> \<not> is_push (w_providers w ! i) then None
      else map_option (\<lambda>(win', pw, s'). (PushWindow i win', w, s')) (push_readPoints win (push_world_of i w) s))"
| "window_read pf (FakeWindow i win) w s =
     (if i \<ge> length (w_providers w) \<or> \<not> is_fake (w_providers w ! i) then None
      else map_option (\<lambda>(win', f, s'). (FakeWindow i win', put_fake i f w, s')) (fake_readPoints win (fake_of i w) s))"
| "window_read pf (ClockWindow win) w s =
     map_option (\<lambda>(win', n, s'). (ClockWindow win', w\<lparr>w_clock := n\<rparr>, s')) (clock_readPoints pf win (w_clock w) s)"

subsection \<open>The contract of every shipped window\<close>

fun window_standing :: "window \<Rightarrow> world \<Rightarrow> bool" where
  "window_standing (PushWindow i win) w \<longleftrightarrow>
     i < length (w_providers w) \<and> is_push (w_providers w ! i) \<and> push_standing win (push_world_of i w)"
| "window_standing (FakeWindow i win) w \<longleftrightarrow>
     i < length (w_providers w) \<and> is_fake (w_providers w ! i) \<and> fake_standing win (fake_of i w)"
| "window_standing (ClockWindow win) w \<longleftrightarrow> True"

fun window_width :: "window \<Rightarrow> nat" where
  "window_width (PushWindow i win) = length (pw_cells win)"
| "window_width (FakeWindow i win) = length (fw_leaves win)"
| "window_width (ClockWindow win) = length (cw_kinds win)"

fun window_column :: "window \<Rightarrow> nat option" where
  "window_column (PushWindow i win) = pw_column win"
| "window_column (FakeWindow i win) = fw_column win"
| "window_column (ClockWindow win) = cw_column win"

fun window_points :: "platform \<Rightarrow> window \<Rightarrow> world \<Rightarrow> u64 list" where
  "window_points pf (PushWindow i win) w = push_points win (push_world_of i w)"
| "window_points pf (FakeWindow i win) w = fake_points win (fake_of i w)"
| "window_points pf (ClockWindow win) w = clock_points pf (cw_kinds win) (w_clock w)"

fun window_state :: "window \<Rightarrow> world \<Rightarrow> u64" where
  "window_state (PushWindow i win) w = availability_code COUNTABLE"
| "window_state (FakeWindow i win) w = fake_state win (fake_of i w)"
| "window_state (ClockWindow win) w = availability_code COUNTABLE"

fun window_advance :: "window \<Rightarrow> world \<Rightarrow> window \<times> world" where
  "window_advance (PushWindow i win) w = (PushWindow i win, w)"
| "window_advance (FakeWindow i win) w =
     (FakeWindow i (fst (fake_advance win (fake_of i w))), put_fake i (snd (fake_advance win (fake_of i w))) w)"
| "window_advance (ClockWindow win) w = (ClockWindow win, w\<lparr>w_clock := w_clock w + length (cw_kinds win)\<rparr>)"

lemma put_fake_simps [simp]:
  "length (w_providers (put_fake i f w)) = length (w_providers w)" "w_thread (put_fake i f w) = w_thread w"
  "w_clock (put_fake i f w) = w_clock w"
  by (simp_all add: put_fake_def)

lemma put_fake_at:
  "i < length (w_providers w) \<Longrightarrow> is_fake (w_providers w ! i) \<Longrightarrow> j < length (w_providers w) \<Longrightarrow>
   is_push (w_providers (put_fake i f w) ! j) = is_push (w_providers w ! j)
   \<and> is_fake (w_providers (put_fake i f w) ! j) = is_fake (w_providers w ! j)
   \<and> (is_push (w_providers w ! j) \<longrightarrow> push_world_of j (put_fake i f w) = push_world_of j w)
   \<and> fake_of j (put_fake i f w) = (if j = i then f else fake_of j w)"
  by (cases "j = i"; cases "w_providers w ! i")
     (auto simp: put_fake_def is_push_def is_fake_def push_world_of_def fake_of_def)

lemma window_standing_put_fake:
  assumes "i < length (w_providers w)" and "is_fake (w_providers w ! i)" and "window_standing q w"
    and "\<And>win. fake_standing win (fake_of i w) \<Longrightarrow> fake_standing win f"
  shows "window_standing q (put_fake i f w)"
  using assms put_fake_at [OF assms(1,2), where f = f] by (cases q) auto

lemma window_standing_clock [simp]: "window_standing q (w\<lparr>w_clock := n\<rparr>) = window_standing q w"
  by (cases q) (simp_all add: push_world_of_def fake_of_def)

interpretation shipped: window_reader "window_read pf" window_standing window_width window_column
  "window_points pf" window_state window_advance for pf
proof unfold_locales
  fix r w s
  assume st: "window_standing r w"
  show "window_read pf r w s =
        (case put_list (window_points pf r w) s of
           None \<Rightarrow> None
         | Some s1 \<Rightarrow> map_option (\<lambda>s2. (fst (window_advance r w), snd (window_advance r w), s2))
                        (disclose (window_column r) (window_state r w) s1))"
    by (cases r) (use st in \<open>auto simp: push_reader.reads fake_reader.reads clock_reader.reads
        option.map_comp comp_def not_le split: option.splits\<close>)
next
  fix r w
  assume st: "window_standing r w"
  show "length (window_points pf r w) = window_width r"
    by (cases r) (use st in \<open>auto simp: push_reader.one_per_leaf fake_reader.one_per_leaf\<close>)
next
  fix r w
  assume st: "window_standing r w"
  show "window_width (fst (window_advance r w)) = window_width r"
    by (cases r) (use st in \<open>auto simp: fake_reader.same_width\<close>)
  show "window_column (fst (window_advance r w)) = window_column r"
    by (cases r) (use st in \<open>auto simp: fake_reader.same_column\<close>)
  show keep: "window_standing q (snd (window_advance r w))" if "window_standing q w" for q
    by (cases r) (use st that in \<open>auto intro!: window_standing_put_fake fake_reader.keeps_others\<close>)
  show "window_standing (fst (window_advance r w)) (snd (window_advance r w))"
  proof (cases r)
    case (FakeWindow i win)
    with st have at: "i < length (w_providers w)" "is_fake (w_providers w ! i)" "fake_standing win (fake_of i w)"
      by auto
    from put_fake_at [OF at(1,2,1)] fake_reader.stays [OF at(3)] at show ?thesis
      by (simp add: FakeWindow)
  qed (use keep st in auto)
qed

end
