(* ===== verification/Plan.thy ===== *)
theory Plan
  imports Windows
begin

text \<open>
  Plan compilation, \<open>source/counters/plan.cpp\<close> and the \<open>PlanImpl\<close> of
  \<open>source/counters/detail/core.hpp\<close>: the leaves of the expressions are resolved against the frozen
  tree, grouped by provider, laid out as contiguous slot ranges with one disclosure column per group
  past the last slot, and opened as one window per group.  A plan is polymorphic in the type of its
  readers; \<open>open\<close> is the provider seam.
\<close>

datatype target_kind = THREAD | CPU

record target =
  tg_kind :: target_kind
  tg_cpu :: int

record slot =
  sl_core :: leaf_core
  sl_hasRatioPair :: bool
  sl_ratioEnabled :: "nat option"
  sl_ratioRunning :: "nat option"

record 'r read_group =
  rg_reader :: 'r
  rg_offset :: nat
  rg_count :: nat
  rg_disclosureSlot :: nat

record 'r plan =
  pl_slots :: "slot list"
  pl_disclosureSlot :: nat
  pl_byAddress :: "(string, nat) omap"
  pl_groups :: "'r read_group list"
  pl_boundThread :: thread_id

definition leafCount :: "'r plan \<Rightarrow> nat" where
  "leafCount pl = length (pl_slots pl)"

definition columnCount :: "'r plan \<Rightarrow> nat" where
  "columnCount pl = length (pl_slots pl) + length (pl_groups pl)"

subsection \<open>Resolving the leaves\<close>

fun availabilityName :: "availability \<Rightarrow> string" where
  "availabilityName COUNTABLE = ''countable''"
| "availabilityName PERMISSION_BLOCKED = ''permission_blocked''"
| "availabilityName NOT_ENCODABLE = ''not_encodable''"
| "availabilityName ABSENT = ''absent''"
| "availabilityName SCOPE_REFUSED = ''scope_refused''"
| "availabilityName GAP = ''gap''"

definition availabilityGatePasses :: "availability \<Rightarrow> target_kind \<Rightarrow> bool" where
  "availabilityGatePasses probed requested \<longleftrightarrow>
     probed = COUNTABLE \<or> (probed = SCOPE_REFUSED \<and> requested = CPU)"

type_synonym pending = "(string \<times> leaf_record) list"

definition record_of :: "system \<Rightarrow> string \<Rightarrow> leaf_record option" where
  "record_of s addr =
     (let (objectPath, name) = splitLeafAddress addr
      in case find_node s objectPath of
           None \<Rightarrow> None
         | Some node \<Rightarrow> List.find (leaf_named name) (tn_leaves node))"

fun pend_leaves :: "system \<Rightarrow> target_kind \<Rightarrow> leaf_core list \<Rightarrow> pending \<Rightarrow> pending expected" where
  "pend_leaves s k [] pending = Inr pending"
| "pend_leaves s k (l # ls) pending =
     (if address l \<in> fst ` set pending then pend_leaves s k ls pending
      else
        case record_of s (address l) of
          None \<Rightarrow> Inl (plain_error (''leaf '' @ quoted (address l) @ '' is not in the system tree (FR-017)''))
        | Some rec \<Rightarrow>
            if \<not> availabilityGatePasses (leaf_avail (lr_core rec)) k
            then Inl (plain_error (''counter '' @ quoted (address l)
                   @ '' is not countable on this host: the catalog reports ''
                   @ availabilityName (leaf_avail (lr_core rec))
                   @ ''; pick a countable counter or branch on the catalog state before composing (FR-024)''))
            else pend_leaves s k ls (pending @ [(address l, rec)]))"

fun pend_exprs :: "system \<Rightarrow> target_kind \<Rightarrow> expr_core list \<Rightarrow> pending \<Rightarrow> pending expected" where
  "pend_exprs s k [] pending = Inr pending"
| "pend_exprs s k (c # cs) pending =
     (if leaves c = [] then Inl (plain_error ''expression carries no resolved leaves (FR-046)'')
      else
        case pend_leaves s k (leaves c) pending of
          Inl er \<Rightarrow> Inl er
        | Inr pending' \<Rightarrow> pend_exprs s k cs pending')"

subsection \<open>The layout\<close>

text \<open>A group before its window opens: the provider, its addresses, and the slot range.\<close>

record group_plan =
  gp_provider :: nat
  gp_addresses :: "string list"
  gp_offset :: nat
  gp_count :: nat

record layout =
  ly_slots :: "slot list"
  ly_byAddress :: "(string, nat) omap"
  ly_groups :: "group_plan list"

definition slot_of :: "leaf_record \<Rightarrow> slot" where
  "slot_of r = \<lparr>sl_core = lr_core r, sl_hasRatioPair = lr_hasRatioPair r,
     sl_ratioEnabled = None, sl_ratioRunning = None\<rparr>"

definition add_slot :: "string \<times> leaf_record \<Rightarrow> layout \<Rightarrow> layout" where
  "add_slot one ly =
     ly\<lparr>ly_slots := ly_slots ly @ [slot_of (snd one)],
        ly_byAddress := om_emplace (fst one) (length (ly_slots ly)) (ly_byAddress ly)\<rparr>"

definition owned_by :: "nat \<Rightarrow> pending \<Rightarrow> pending" where
  "owned_by provider pending = List.filter (\<lambda>one. lr_providerIndex (snd one) = int provider) pending"

definition layout_provider :: "pending \<Rightarrow> nat \<Rightarrow> layout \<Rightarrow> layout" where
  "layout_provider pending provider ly =
     (let mine = owned_by provider pending
      in if mine = [] then ly
         else
           let ly1 = fold add_slot mine ly
           in ly1\<lparr>ly_groups := ly_groups ly1 @
                [\<lparr>gp_provider = provider, gp_addresses = map fst mine,
                  gp_offset = length (ly_slots ly), gp_count = length mine\<rparr>]\<rparr>)"

definition layout_all :: "nat \<Rightarrow> pending \<Rightarrow> layout" where
  "layout_all providers pending =
     fold (layout_provider pending) [0..<providers] \<lparr>ly_slots = [], ly_byAddress = [], ly_groups = []\<rparr>"

definition link_step :: "string \<Rightarrow> string \<times> nat \<Rightarrow> slot \<Rightarrow> slot" where
  "link_step home entry sl =
     (if fst entry = home @ ''/enabled'' then sl\<lparr>sl_ratioEnabled := Some (snd entry)\<rparr>
      else if fst entry = home @ ''/running'' then sl\<lparr>sl_ratioRunning := Some (snd entry)\<rparr>
      else sl)"

definition slot_home :: "slot \<Rightarrow> string" where
  "slot_home sl =
     (case rfind_char (CHR ''/'') (address (sl_core sl)) of
        None \<Rightarrow> address (sl_core sl)
      | Some slash \<Rightarrow> take slash (address (sl_core sl)))"

definition link_one :: "(string, nat) omap \<Rightarrow> slot \<Rightarrow> slot" where
  "link_one byAddress sl =
     (if \<not> sl_hasRatioPair sl then sl else fold (link_step (slot_home sl)) byAddress sl)"

definition linkRatioSlots :: "'r plan \<Rightarrow> 'r plan" where
  "linkRatioSlots pl = pl\<lparr>pl_slots := map (link_one (pl_byAddress pl)) (pl_slots pl)\<rparr>"

subsection \<open>Opening the windows\<close>

type_synonym ('r, 'w) opener = "nat \<Rightarrow> leaf_set \<Rightarrow> 'w \<Rightarrow> ('r option \<times> 'w) checked"

fun open_groups ::
  "('r, 'w) opener \<Rightarrow> nat \<Rightarrow> group_plan list \<Rightarrow> 'w \<Rightarrow> ('r read_group list expected \<times> 'w) checked" where
  "open_groups opn column [] w = Some (Inr [], w)"
| "open_groups opn column (g # gs) w =
     (case opn (gp_provider g) \<lparr>ls_addresses = gp_addresses g, ls_column = Some column\<rparr> w of
        None \<Rightarrow> None
      | Some (None, w1) \<Rightarrow>
          Some (Inl (plain_error ''provider cannot open a window for its leaves (FR-011)''), w1)
      | Some (Some r, w1) \<Rightarrow>
          (case open_groups opn (column + 1) gs w1 of
             None \<Rightarrow> None
           | Some (Inl er, w2) \<Rightarrow> Some (Inl er, w2)
           | Some (Inr rs, w2) \<Rightarrow>
               Some (Inr (\<lparr>rg_reader = r, rg_offset = gp_offset g, rg_count = gp_count g,
                           rg_disclosureSlot = column\<rparr> # rs), w2)))"

text \<open>
  \<open>compileCore\<close> on the current thread \<open>here\<close>.  \<open>None\<close> is a violated contract: a catalog that is not
  open, or \<open>groups.front()\<close> of an empty group list.
\<close>

definition compileCore ::
  "('r, 'w) opener \<Rightarrow> thread_id \<Rightarrow> system \<Rightarrow> target \<Rightarrow> expr_core list \<Rightarrow> 'w \<Rightarrow> ('r plan expected \<times> 'w) checked" where
  "compileCore opn here s tg exprs w =
     (if \<not> sys_open s then None
      else if exprs = []
      then Some (Inl (plain_error ''compile requires at least one expression (FR-021)''), w)
      else
        case pend_exprs s (tg_kind tg) exprs [] of
          Inl er \<Rightarrow> Some (Inl er, w)
        | Inr pending \<Rightarrow>
            let ly = layout_all (sys_providers s) pending
            in if ly_groups ly = [] then None
               else
                 (case open_groups opn (length (ly_slots ly)) (ly_groups ly) w of
                    None \<Rightarrow> None
                  | Some (Inl er, w1) \<Rightarrow> Some (Inl er, w1)
                  | Some (Inr gs, w1) \<Rightarrow>
                      Some (Inr (linkRatioSlots \<lparr>pl_slots = ly_slots ly,
                             pl_disclosureSlot = length (ly_slots ly),
                             pl_byAddress = ly_byAddress ly, pl_groups = gs,
                             pl_boundThread = here\<rparr>), w1)))"

subsection \<open>Fan-out\<close>

definition instantiateCore :: "expr_core \<Rightarrow> string \<Rightarrow> expr_core" where
  "instantiateCore c path =
     c\<lparr>leaves := map (\<lambda>l. l\<lparr>address := path @ ''/'' @ leaf_name l\<rparr>) (leaves c)\<rparr>"

text \<open>The one object path of a spine, empty for a spine over several objects; the spine has a leaf.\<close>

definition exemplarPrefix :: "expr_core \<Rightarrow> string" where
  "exemplarPrefix c =
     (let addr = address (hd (leaves c));
          prefix = (case rfind_char (CHR ''/'') addr of None \<Rightarrow> addr | Some slash \<Rightarrow> take slash addr);
          home = prefix @ ''/''
      in if list_all (\<lambda>l. starts_with (address l) home) (leaves c) then prefix else [])"

fun fanout_instances ::
  "expr_core \<Rightarrow> tree_node option list \<Rightarrow> string list \<Rightarrow> (string list \<times> expr_core list) expected" where
  "fanout_instances exemplar [] paths = Inr (paths, [])"
| "fanout_instances exemplar (None # sel) paths =
     Inl (plain_error ''fan-out selection holds a null object (FR-024)'')"
| "fanout_instances exemplar (Some node # sel) paths =
     (if tn_path node \<in> set paths
      then Inl (plain_error (''fan-out selection duplicates '' @ quoted (tn_path node) @ '' (FR-024)''))
      else
        case fanout_instances exemplar sel (paths @ [tn_path node]) of
          Inl er \<Rightarrow> Inl er
        | Inr (ps, cs) \<Rightarrow> Inr (ps, instantiateCore exemplar (tn_path node) # cs))"

record 'r fanout =
  fan_inner :: "'r plan"
  fan_paths :: "string list"

definition compileFanoutCore ::
  "('r, 'w) opener \<Rightarrow> thread_id \<Rightarrow> system \<Rightarrow> target \<Rightarrow> expr_core \<Rightarrow> tree_node option list \<Rightarrow> 'w \<Rightarrow>
   ('r fanout expected \<times> 'w) checked" where
  "compileFanoutCore opn here s tg exemplar selection w =
     (if leaves exemplar = [] then Some (Inl (plain_error ''fan-out exemplar carries no leaves (FR-024)''), w)
      else if selection = [] then Some (Inl (plain_error ''fan-out needs a non-empty selection (FR-024)''), w)
      else if exemplarPrefix exemplar = []
      then Some (Inl (plain_error ''fan-out exemplar spans several objects (FR-024)''), w)
      else
        case fanout_instances exemplar selection [] of
          Inl er \<Rightarrow> Some (Inl er, w)
        | Inr (paths, instances) \<Rightarrow>
            (case compileCore opn here s tg instances w of
               None \<Rightarrow> None
             | Some (Inl er, w1) \<Rightarrow> Some (Inl er, w1)
             | Some (Inr pl, w1) \<Rightarrow> Some (Inr \<lparr>fan_inner = pl, fan_paths = paths\<rparr>, w1)))"

subsection \<open>The layout, in closed form\<close>

text \<open>The pending leaves in slot order: by provider, in the order the expressions name them.\<close>

definition laid_out :: "nat \<Rightarrow> pending \<Rightarrow> pending" where
  "laid_out providers pending = concat (map (\<lambda>p. owned_by p pending) [0..<providers])"

fun tiled :: "nat \<Rightarrow> (nat \<times> nat) list \<Rightarrow> nat \<Rightarrow> bool" where
  "tiled k [] stop \<longleftrightarrow> k = stop"
| "tiled k ((offset, count) # gs) stop \<longleftrightarrow> offset = k \<and> 0 < count \<and> tiled (k + count) gs stop"

lemma tiled_append: "tiled k (gs @ hs) e \<longleftrightarrow> (\<exists>m. tiled k gs m \<and> tiled m hs e)"
  by (induction gs arbitrary: k) auto

definition layout_ok :: "pending \<Rightarrow> layout \<Rightarrow> bool" where
  "layout_ok laid ly \<longleftrightarrow>
     ly_slots ly = map (\<lambda>one. slot_of (snd one)) laid \<and> om_wf (ly_byAddress ly)
     \<and> (\<forall>a. om_find (ly_byAddress ly) a = index_of (\<lambda>x. x = a) (map fst laid))
     \<and> tiled 0 (map (\<lambda>g. (gp_offset g, gp_count g)) (ly_groups ly)) (length laid)
     \<and> (\<forall>g \<in> set (ly_groups ly). gp_count g = length (gp_addresses g))"

lemma index_of_snoc:
  "b \<notin> set xs \<Longrightarrow> index_of (\<lambda>x. x = a) (xs @ [b]) =
     (if a = b then Some (length xs) else index_of (\<lambda>x. x = a) xs)"
  by (induction xs) auto

lemma add_slots_ok:
  assumes "ly_slots ly = map (\<lambda>one. slot_of (snd one)) laid" and "om_wf (ly_byAddress ly)"
    and "\<forall>a. om_find (ly_byAddress ly) a = index_of (\<lambda>x. x = a) (map fst laid)"
    and "distinct (map fst (laid @ mine))"
  shows "ly_slots (fold add_slot mine ly) = map (\<lambda>one. slot_of (snd one)) (laid @ mine)
     \<and> om_wf (ly_byAddress (fold add_slot mine ly))
     \<and> (\<forall>a. om_find (ly_byAddress (fold add_slot mine ly)) a = index_of (\<lambda>x. x = a) (map fst (laid @ mine)))
     \<and> ly_groups (fold add_slot mine ly) = ly_groups ly"
  using assms
proof (induction mine arbitrary: ly laid)
  case Nil
  then show ?case by simp
next
  case (Cons one mine)
  have fresh: "fst one \<notin> set (map fst laid)" using Cons.prems(4) by auto
  have at: "index_of (\<lambda>x. x = a) (map fst (laid @ [one])) =
      (if a = fst one then Some (length laid) else index_of (\<lambda>x. x = a) (map fst laid))" for a
    using fresh index_of_snoc [of "fst one" "map fst laid" a] by simp
  have none: "om_find (ly_byAddress ly) (fst one) = None"
  proof -
    have "index_of (\<lambda>x. x = fst one) (map fst laid) = None"
      using fresh by (metis (mono_tags, lifting) index_of_None)
    with Cons.prems(3) show ?thesis by simp
  qed
  have "ly_slots (add_slot one ly) = map (\<lambda>one. slot_of (snd one)) (laid @ [one])"
    "om_wf (ly_byAddress (add_slot one ly))"
    "\<forall>a. om_find (ly_byAddress (add_slot one ly)) a = index_of (\<lambda>x. x = a) (map fst (laid @ [one]))"
    using Cons.prems(1-3) none unfolding at
    by (simp_all add: add_slot_def om_wf_emplace om_find_emplace)
  from Cons.IH [OF this] Cons.prems(4) show ?case by (simp add: add_slot_def)
qed

lemma layout_provider_ok:
  assumes "layout_ok laid ly" and "distinct (map fst (laid @ owned_by p pending))"
  shows "layout_ok (laid @ owned_by p pending) (layout_provider pending p ly)"
proof (cases "owned_by p pending = []")
  case True
  with assms(1) show ?thesis by (simp add: layout_provider_def)
next
  case False
  from assms(1) have ok: "ly_slots ly = map (\<lambda>one. slot_of (snd one)) laid" "om_wf (ly_byAddress ly)"
    "\<forall>a. om_find (ly_byAddress ly) a = index_of (\<lambda>x. x = a) (map fst laid)" by (simp_all add: layout_ok_def)
  from add_slots_ok [OF ok assms(2)] False assms(1) show ?thesis
    by (auto simp: layout_provider_def Let_def layout_ok_def tiled_append)
qed

lemma owned_by_disjoint: "p \<noteq> q \<Longrightarrow> distinct (map fst pending) \<Longrightarrow>
   fst ` set (owned_by p pending) \<inter> fst ` set (owned_by q pending) = {}"
proof (rule ccontr)
  assume ne: "p \<noteq> q" and d: "distinct (map fst pending)"
  assume "fst ` set (owned_by p pending) \<inter> fst ` set (owned_by q pending) \<noteq> {}"
  then obtain a r r' where "(a, r) \<in> set (owned_by p pending)" "(a, r') \<in> set (owned_by q pending)" by force
  then have "(a, r) \<in> set pending" "(a, r') \<in> set pending" "lr_providerIndex r = int p" "lr_providerIndex r' = int q"
    by (auto simp: owned_by_def)
  with eq_key_imp_eq_value [OF d] ne show False by (metis of_nat_eq_iff)
qed

lemma laid_out_distinct: "distinct (map fst pending) \<Longrightarrow> distinct (map fst (laid_out n pending))"
proof (induction n)
  case 0
  then show ?case by (simp add: laid_out_def)
next
  case (Suc n)
  have "fst ` set (owned_by p pending) \<inter> fst ` set (owned_by n pending) = {}" if "p < n" for p
    using that by (intro owned_by_disjoint [OF _ Suc.prems]) simp
  then have "fst ` set (laid_out n pending) \<inter> fst ` set (owned_by n pending) = {}"
    unfolding laid_out_def set_concat set_map image_UN
    by (intro equals0I) (elim IntE UN_E, metis IntI atLeastLessThan_iff empty_iff imageE set_upt)
  moreover have "distinct (map fst (owned_by n pending))"
    using Suc.prems by (simp add: owned_by_def distinct_map_filter)
  ultimately show ?case using Suc by (simp add: laid_out_def)
qed

lemma layout_all_ok:
  assumes "distinct (map fst pending)"
  shows "layout_ok (laid_out n pending) (layout_all n pending)"
proof (induction n)
  case 0
  show ?case by (simp add: layout_ok_def layout_all_def laid_out_def)
next
  case (Suc n)
  have "laid_out (Suc n) pending = laid_out n pending @ owned_by n pending" by (simp add: laid_out_def)
  with layout_provider_ok [OF Suc, of n pending] laid_out_distinct [OF assms, of "Suc n"]
  show ?case by (simp add: layout_all_def)
qed

lemma laid_out_all:
  assumes "\<forall>one \<in> set pending. 0 \<le> lr_providerIndex (snd one) \<and> lr_providerIndex (snd one) < int n"
  shows "set (laid_out n pending) = set pending"
proof -
  have "x \<in> set (laid_out n pending)" if "x \<in> set pending" for x
    using that assms by (auto simp: laid_out_def owned_by_def intro!: bexI [of _ "nat (lr_providerIndex (snd x))"])
  then show ?thesis by (auto simp: laid_out_def owned_by_def)
qed

subsection \<open>What resolution leaves pending\<close>

definition pending_ok :: "system \<Rightarrow> target_kind \<Rightarrow> pending \<Rightarrow> bool" where
  "pending_ok s k pending \<longleftrightarrow> distinct (map fst pending)
     \<and> (\<forall>(a, r) \<in> set pending. record_of s a = Some r \<and> availabilityGatePasses (leaf_avail (lr_core r)) k)"

lemma pend_leaves_ok:
  "pend_leaves s k ls pending = Inr out \<Longrightarrow> pending_ok s k pending \<Longrightarrow>
   pending_ok s k out \<and> address ` set ls \<subseteq> fst ` set out \<and> set pending \<subseteq> set out"
proof (induction ls arbitrary: pending)
  case Nil
  then show ?case by simp
next
  case (Cons l ls)
  show ?case
  proof (cases "address l \<in> fst ` set pending")
    case True
    with Cons.IH [of pending] Cons.prems show ?thesis by auto
  next
    case False
    with Cons.prems(1) obtain r where r: "record_of s (address l) = Some r"
      "availabilityGatePasses (leaf_avail (lr_core r)) k"
      "pend_leaves s k ls (pending @ [(address l, r)]) = Inr out"
      by (auto split: option.splits if_splits)
    have "pending_ok s k (pending @ [(address l, r)])"
      using Cons.prems(2) False r by (auto simp: pending_ok_def)
    from Cons.IH [OF r(3) this] show ?thesis by (auto intro: rev_image_eqI)
  qed
qed

lemma pend_exprs_ok:
  "pend_exprs s k cs pending = Inr out \<Longrightarrow> pending_ok s k pending \<Longrightarrow>
   pending_ok s k out \<and> set pending \<subseteq> set out
   \<and> (\<forall>c \<in> set cs. leaves c \<noteq> [] \<and> address ` set (leaves c) \<subseteq> fst ` set out)"
proof (induction cs arbitrary: pending)
  case Nil
  then show ?case by simp
next
  case (Cons c cs)
  then obtain mid where mid: "pend_leaves s k (leaves c) pending = Inr mid" "pend_exprs s k cs mid = Inr out"
    "leaves c \<noteq> []" by (auto split: sum.splits if_splits)
  from pend_leaves_ok [OF mid(1) Cons.prems(2)]
  have m: "pending_ok s k mid" "address ` set (leaves c) \<subseteq> fst ` set mid" "set pending \<subseteq> set mid" by auto
  from Cons.IH [OF mid(2) m(1)] m mid(3) show ?case by (auto 0 3)
qed

subsection \<open>The shape of a compiled plan\<close>

text \<open>
  The groups tile the slots from zero; the disclosure columns follow the slots, one per group in group
  order; the address table numbers the slots, each by one address.
\<close>

definition plan_shape :: "'r plan \<Rightarrow> bool" where
  "plan_shape pl \<longleftrightarrow>
     pl_groups pl \<noteq> [] \<and> pl_disclosureSlot pl = leafCount pl
     \<and> tiled 0 (map (\<lambda>g. (rg_offset g, rg_count g)) (pl_groups pl)) (leafCount pl)
     \<and> (\<forall>i < length (pl_groups pl). rg_disclosureSlot (pl_groups pl ! i) = leafCount pl + i)
     \<and> om_wf (pl_byAddress pl)
     \<and> (\<forall>a i. om_find (pl_byAddress pl) a = Some i \<longrightarrow> i < leafCount pl)
     \<and> (\<forall>i < leafCount pl. \<exists>!a. om_find (pl_byAddress pl) a = Some i)"

lemma link_step_core [simp]: "sl_core (link_step h e sl) = sl_core sl"
  "sl_hasRatioPair (link_step h e sl) = sl_hasRatioPair sl"
  by (simp_all add: link_step_def)

lemma fold_link_core [simp]: "sl_core (fold (link_step h) m sl) = sl_core sl"
  "sl_hasRatioPair (fold (link_step h) m sl) = sl_hasRatioPair sl"
  by (induction m arbitrary: sl) simp_all

lemma link_one_core [simp]: "sl_core (link_one m sl) = sl_core sl" "sl_hasRatioPair (link_one m sl) = sl_hasRatioPair sl"
  by (simp_all add: link_one_def)

lemma open_groups_Cons:
  assumes "open_groups opn column (g # gs) w = Some (Inr rs, w')"
  obtains r w1 rs' where "opn (gp_provider g) \<lparr>ls_addresses = gp_addresses g, ls_column = Some column\<rparr> w = Some (Some r, w1)"
    and "open_groups opn (column + 1) gs w1 = Some (Inr rs', w')"
    and "rs = \<lparr>rg_reader = r, rg_offset = gp_offset g, rg_count = gp_count g, rg_disclosureSlot = column\<rparr> # rs'"
proof (cases "opn (gp_provider g) \<lparr>ls_addresses = gp_addresses g, ls_column = Some column\<rparr> w")
  case None
  with assms show thesis by simp
next
  case (Some x)
  obtain y w1 where x: "x = (y, w1)" by force
  with assms Some obtain r where y: "y = Some r" by (cases y) auto
  show thesis
  proof (cases "open_groups opn (column + 1) gs w1")
    case None
    with assms Some x y show thesis by simp
  next
    case (Some z)
    obtain e w2 where z: "z = (e, w2)" by force
    with assms Some x y \<open>opn _ _ w = Some x\<close> obtain rs' where e: "e = Inr rs'" by (cases e) auto
    with assms Some x y z \<open>opn _ _ w = Some x\<close> show thesis by (intro that [of r w1 rs']) auto
  qed
qed

lemma open_groups_shape:
  "open_groups opn column gs w = Some (Inr rs, w') \<Longrightarrow>
   map (\<lambda>g. (rg_offset g, rg_count g)) rs = map (\<lambda>g. (gp_offset g, gp_count g)) gs
   \<and> (\<forall>i < length rs. rg_disclosureSlot (rs ! i) = column + i)"
proof (induction opn column gs w arbitrary: rs w' rule: open_groups.induct)
  case (1 opn column w)
  then show ?case by simp
next
  case (2 opn column g gs w)
  from "2.prems" obtain r w1 rs' where o: "opn (gp_provider g) \<lparr>ls_addresses = gp_addresses g, ls_column = Some column\<rparr> w
      = Some (Some r, w1)" and rest: "open_groups opn (column + 1) gs w1 = Some (Inr rs', w')"
    and rs: "rs = \<lparr>rg_reader = r, rg_offset = gp_offset g, rg_count = gp_count g, rg_disclosureSlot = column\<rparr> # rs'"
    by (rule open_groups_Cons)
  have ih: "map (\<lambda>g. (rg_offset g, rg_count g)) rs' = map (\<lambda>g. (gp_offset g, gp_count g)) gs
      \<and> (\<forall>i < length rs'. rg_disclosureSlot (rs' ! i) = column + 1 + i)"
    using "2.IH" [OF o refl refl rest] .
  have "rg_disclosureSlot (rs ! i) = column + i" if "i < length rs" for i
    using ih that by (cases i) (simp_all add: rs)
  with ih show ?case by (simp add: rs)
qed

lemma record_of_provider:
  assumes "tree_wf s" and "record_of s a = Some r"
  shows "0 \<le> lr_providerIndex r \<and> lr_providerIndex r < int (sys_providers s)"
proof -
  obtain p nm where sp: "splitLeafAddress a = (p, nm)" by force
  with assms(2) obtain node where n: "find_node s p = Some node" "List.find (leaf_named nm) (tn_leaves node) = Some r"
    by (auto simp: record_of_def split: option.splits)
  have "(canonicalize s p, node) \<in> set (sys_objects s)" using n(1) by (simp add: find_node_def om_find_Some_in)
  with assms(1) have "node_ok (sys_providers s) node" by (auto simp: tree_wf_def)
  moreover have "r \<in> set (tn_leaves node)" using n(2) by (auto simp: find_Some_iff)
  ultimately show ?thesis by (auto simp: node_ok_def leaves_ok_def leaf_ok_def)
qed

lemma compileCore_cases:
  assumes "compileCore opn here s tg exprs w = Some (Inr pl, w')"
  obtains pending gs where "pend_exprs s (tg_kind tg) exprs [] = Inr pending" and "exprs \<noteq> []" and "sys_open s"
    and "ly_groups (layout_all (sys_providers s) pending) \<noteq> []"
    and "open_groups opn (length (ly_slots (layout_all (sys_providers s) pending)))
           (ly_groups (layout_all (sys_providers s) pending)) w = Some (Inr gs, w')"
    and "pl = linkRatioSlots \<lparr>pl_slots = ly_slots (layout_all (sys_providers s) pending),
           pl_disclosureSlot = length (ly_slots (layout_all (sys_providers s) pending)),
           pl_byAddress = ly_byAddress (layout_all (sys_providers s) pending), pl_groups = gs,
           pl_boundThread = here\<rparr>"
proof -
  have op: "sys_open s" and ne: "exprs \<noteq> []"
    using assms by (auto simp: compileCore_def split: if_splits)
  then obtain pending where p: "pend_exprs s (tg_kind tg) exprs [] = Inr pending"
    using assms by (cases "pend_exprs s (tg_kind tg) exprs []") (simp_all add: compileCore_def)
  let ?ly = "layout_all (sys_providers s) pending"
  note c = assms [unfolded compileCore_def Let_def, simplified op ne p, simplified]
  have g: "ly_groups ?ly \<noteq> []" using c by (auto split: if_splits)
  obtain gs where gs: "open_groups opn (length (ly_slots ?ly)) (ly_groups ?ly) w = Some (Inr gs, w')"
    using c g by (cases "open_groups opn (length (ly_slots ?ly)) (ly_groups ?ly) w") (auto split: sum.splits)
  with c g have "pl = linkRatioSlots \<lparr>pl_slots = ly_slots ?ly, pl_disclosureSlot = length (ly_slots ?ly),
      pl_byAddress = ly_byAddress ?ly, pl_groups = gs, pl_boundThread = here\<rparr>" by simp
  with p ne op g gs show thesis by (rule that)
qed

lemma index_of_unique:
  assumes "distinct xs" and "i < length xs"
  shows "index_of (\<lambda>x. x = a) xs = Some i \<longleftrightarrow> a = xs ! i"
proof
  assume "index_of (\<lambda>x. x = a) xs = Some i"
  then show "a = xs ! i" by (blast dest: index_of_Some)
next
  assume a: "a = xs ! i"
  have "\<forall>j < i. xs ! j \<noteq> xs ! i" using assms by (simp add: nth_eq_iff_index_eq)
  with assms(2) show "index_of (\<lambda>x. x = a) xs = Some i" unfolding a by (intro index_ofI) auto
qed

lemma compiled_shape:
  assumes wf: "tree_wf s" and c: "compileCore opn here s tg exprs w = Some (Inr pl, w')"
  shows "plan_shape pl \<and> pl_boundThread pl = here
     \<and> (\<forall>c \<in> set exprs. leaves c \<noteq> [] \<and> (\<forall>l \<in> set (leaves c). \<exists>i r. om_find (pl_byAddress pl) (address l) = Some i
          \<and> i < leafCount pl \<and> record_of s (address l) = Some r \<and> sl_core (pl_slots pl ! i) = lr_core r
          \<and> availabilityGatePasses (leaf_avail (lr_core r)) (tg_kind tg)))"
  using c
proof (cases rule: compileCore_cases)
  case (1 pending gs)
  let ?n = "sys_providers s" and ?ly = "layout_all (sys_providers s) pending"
  have pend: "pending_ok s (tg_kind tg) pending"
    "\<forall>c \<in> set exprs. leaves c \<noteq> [] \<and> address ` set (leaves c) \<subseteq> fst ` set pending"
    using pend_exprs_ok [OF 1(1)] by (simp_all add: pending_ok_def)
  have d: "distinct (map fst pending)" using pend(1) by (simp add: pending_ok_def)
  have dl: "distinct (map fst (laid_out ?n pending))" using d by (rule laid_out_distinct)
  have all: "set (laid_out ?n pending) = set pending"
    using pend(1) record_of_provider [OF wf] by (intro laid_out_all) (auto simp: pending_ok_def)
  have ly: "layout_ok (laid_out ?n pending) ?ly" using d by (rule layout_all_ok)
  let ?L = "laid_out ?n pending"
  have slots: "ly_slots ?ly = map (\<lambda>one. slot_of (snd one)) ?L" using ly by (simp add: layout_ok_def)
  have find: "om_find (ly_byAddress ?ly) a = index_of (\<lambda>x. x = a) (map fst ?L)" for a
    using ly by (simp add: layout_ok_def)
  have lc: "leafCount pl = length ?L" by (simp add: 1(6) linkRatioSlots_def leafCount_def slots)
  have by_addr: "pl_byAddress pl = ly_byAddress ?ly" and gr: "pl_groups pl = gs"
    by (simp_all add: 1(6) linkRatioSlots_def)
  note og = open_groups_shape [OF 1(5)]
  have len: "length gs = length (ly_groups ?ly)" using og by (metis length_map)
  have shape: "plan_shape pl"
    unfolding plan_shape_def gr lc by_addr
  proof (intro conjI allI impI)
    show "gs \<noteq> []" using 1(4) len by auto
    show "pl_disclosureSlot pl = length ?L" by (simp add: 1(6) linkRatioSlots_def slots)
    show "tiled 0 (map (\<lambda>g. (rg_offset g, rg_count g)) gs) (length ?L)"
      using og ly by (simp add: layout_ok_def)
    show "rg_disclosureSlot (gs ! i) = length ?L + i" if "i < length gs" for i
      using og that by (simp add: slots)
    show "om_wf (ly_byAddress ?ly)" using ly by (simp add: layout_ok_def)
    show "i < length ?L" if "om_find (ly_byAddress ?ly) a = Some i" for a i
      using that index_of_bound [of "\<lambda>x. x = a" "map fst ?L" i] by (simp add: find)
    show "\<exists>!a. om_find (ly_byAddress ?ly) a = Some i" if "i < length ?L" for i
      unfolding find using index_of_unique [OF dl, of i] that by auto
  qed
  have leaf: "\<exists>i r. om_find (pl_byAddress pl) (address l) = Some i
          \<and> i < leafCount pl \<and> record_of s (address l) = Some r \<and> sl_core (pl_slots pl ! i) = lr_core r
          \<and> availabilityGatePasses (leaf_avail (lr_core r)) (tg_kind tg)"
    if "c \<in> set exprs" "l \<in> set (leaves c)" for c l
  proof -
    have "address l \<in> fst ` set pending" using pend(2) that by blast
    then obtain r where r: "(address l, r) \<in> set ?L" using all by auto
    then obtain i where i: "i < length ?L" "?L ! i = (address l, r)" by (auto simp: in_set_conv_nth)
    have "om_find (ly_byAddress ?ly) (address l) = Some i"
      unfolding find using index_of_unique [OF dl, of i] i by simp
    moreover have "sl_core (pl_slots pl ! i) = lr_core r"
      using i by (simp add: 1(6) linkRatioSlots_def slots slot_of_def)
    moreover have "record_of s (address l) = Some r \<and> availabilityGatePasses (leaf_avail (lr_core r)) (tg_kind tg)"
      using pend(1) r all by (auto simp: pending_ok_def)
    ultimately show ?thesis using i(1) lc by_addr by auto
  qed
  have "pl_boundThread pl = here" by (simp add: 1(6) linkRatioSlots_def)
  with shape leaf pend(2) show ?thesis by blast
qed

lemma fold_link_pairs:
  "distinct (map fst m) \<Longrightarrow>
   sl_ratioEnabled (fold (link_step h) m sl)
     = (case map_of m (h @ ''/enabled'') of None \<Rightarrow> sl_ratioEnabled sl | Some i \<Rightarrow> Some i)
   \<and> sl_ratioRunning (fold (link_step h) m sl)
     = (case map_of m (h @ ''/running'') of None \<Rightarrow> sl_ratioRunning sl | Some i \<Rightarrow> Some i)"
proof (induction m arbitrary: sl)
  case Nil
  then show ?case by simp
next
  case (Cons e m)
  obtain k i where e: "e = (k, i)" by force
  have fresh: "map_of m k = None" using Cons.prems by (simp add: e map_of_eq_None_iff)
  have ih: "sl_ratioEnabled (fold (link_step h) m sl')
       = (case map_of m (h @ ''/enabled'') of None \<Rightarrow> sl_ratioEnabled sl' | Some i \<Rightarrow> Some i)"
    "sl_ratioRunning (fold (link_step h) m sl')
       = (case map_of m (h @ ''/running'') of None \<Rightarrow> sl_ratioRunning sl' | Some i \<Rightarrow> Some i)" for sl'
    using Cons by simp_all
  consider "k = h @ ''/enabled''" | "k = h @ ''/running''" | "k \<noteq> h @ ''/enabled''" "k \<noteq> h @ ''/running''" by blast
  then show ?case
  proof cases
    case 1
    then have "link_step h e sl = sl\<lparr>sl_ratioEnabled := Some i\<rparr>" by (simp add: e link_step_def)
    with 1 fresh ih show ?thesis by (simp add: e split: option.split)
  next
    case 2
    then have "link_step h e sl = sl\<lparr>sl_ratioRunning := Some i\<rparr>" by (simp add: e link_step_def)
    with 2 fresh ih show ?thesis by (simp add: e split: option.split)
  next
    case 3
    then have "link_step h e sl = sl" by (simp add: e link_step_def)
    with 3 ih show ?thesis by (simp add: e split: option.split)
  qed
qed

lemma link_one_pairs:
  assumes "om_wf m" and "sl_ratioEnabled sl = None" and "sl_ratioRunning sl = None"
  shows "sl_ratioEnabled (link_one m sl) = (if sl_hasRatioPair sl then om_find m (slot_home sl @ ''/enabled'') else None)"
    and "sl_ratioRunning (link_one m sl) = (if sl_hasRatioPair sl then om_find m (slot_home sl @ ''/running'') else None)"
  using fold_link_pairs [OF om_wf_distinct [OF assms(1)], of "slot_home sl" sl] assms(2,3)
  by (auto simp: link_one_def om_find_def split: option.splits)

lemma slot_home_core: "sl_core sl = sl_core sl' \<Longrightarrow> slot_home sl = slot_home sl'"
  by (auto simp: slot_home_def split: option.split)

lemma compiled_pairs:
  assumes wf: "tree_wf s" and c: "compileCore opn here s tg exprs w = Some (Inr pl, w')"
  shows "\<forall>sl \<in> set (pl_slots pl).
     sl_ratioEnabled sl = (if sl_hasRatioPair sl then om_find (pl_byAddress pl) (slot_home sl @ ''/enabled'') else None)
   \<and> sl_ratioRunning sl = (if sl_hasRatioPair sl then om_find (pl_byAddress pl) (slot_home sl @ ''/running'') else None)"
  using c
proof (cases rule: compileCore_cases)
  case (1 pending gs)
  let ?m = "ly_byAddress (layout_all (sys_providers s) pending)"
  have d: "distinct (map fst pending)"
    using pend_exprs_ok [OF 1(1)] by (simp add: pending_ok_def)
  have m: "om_wf ?m" using compiled_shape [OF wf c] by (simp add: plan_shape_def 1(6) linkRatioSlots_def)
  have un: "sl_ratioEnabled sl = None \<and> sl_ratioRunning sl = None"
    if "sl \<in> set (ly_slots (layout_all (sys_providers s) pending))" for sl
    using layout_all_ok [OF d, of "sys_providers s"] that by (auto simp: layout_ok_def slot_of_def)
  show ?thesis
  proof
    fix sl
    assume "sl \<in> set (pl_slots pl)"
    then obtain sl0 where sl0: "sl0 \<in> set (ly_slots (layout_all (sys_providers s) pending))" "sl = link_one ?m sl0"
      by (auto simp: 1(6) linkRatioSlots_def)
    have home: "slot_home sl = slot_home sl0" by (rule slot_home_core) (simp add: sl0(2))
    show "sl_ratioEnabled sl = (if sl_hasRatioPair sl then om_find (pl_byAddress pl) (slot_home sl @ ''/enabled'') else None)
      \<and> sl_ratioRunning sl = (if sl_hasRatioPair sl then om_find (pl_byAddress pl) (slot_home sl @ ''/running'') else None)"
      unfolding home using link_one_pairs [OF m, of sl0] un [OF sl0(1)] by (simp add: 1(6) linkRatioSlots_def sl0(2))
  qed
qed

subsection \<open>The provider seam\<close>

text \<open>
  What a plan relies on when it opens windows: a window opened for a non-empty leaf set stands, reads
  one leaf per address and discloses in the column it was given; opening and reading keep the other
  windows standing and run on one thread, and what a window discloses is an enumerator.  \<open>fit\<close> is what the provider asks of the world it opens in.
\<close>

locale provider_seam = window_reader thunk standing width column points state advance
  for thunk :: "'r \<Rightarrow> 'w \<Rightarrow> point_sink \<Rightarrow> ('r \<times> 'w \<times> point_sink) checked"
    and standing width column points state advance +
  fixes opn :: "('r, 'w) opener" and fit :: "'w \<Rightarrow> bool" and thread :: "'w \<Rightarrow> thread_id"
  assumes opened: "fit w \<Longrightarrow> ls_addresses req \<noteq> [] \<Longrightarrow> opn i req w = Some (Some r, w') \<Longrightarrow>
      standing r w' \<and> width r = length (ls_addresses req) \<and> column r = ls_column req"
    and open_keeps: "fit w \<Longrightarrow> opn i req w = Some (x, w') \<Longrightarrow>
      fit w' \<and> thread w' = thread w \<and> (\<forall>q. standing q w \<longrightarrow> standing q w')"
    and read_keeps: "standing r w \<Longrightarrow> thread (snd (advance r w)) = thread w"
    and names_state: "availability_of_code (state r w) \<noteq> None"
begin

definition readers_fit :: "'r read_group list \<Rightarrow> 'w \<Rightarrow> bool" where
  "readers_fit gs w \<longleftrightarrow> (\<forall>g \<in> set gs. standing (rg_reader g) w \<and> width (rg_reader g) = rg_count g
     \<and> column (rg_reader g) = Some (rg_disclosureSlot g))"

lemma open_groups_fit:
  "open_groups opn c gs w = Some (Inr rs, w') \<Longrightarrow> fit w \<Longrightarrow>
   (\<forall>g \<in> set gs. gp_addresses g \<noteq> [] \<and> gp_count g = length (gp_addresses g)) \<Longrightarrow>
   fit w' \<and> thread w' = thread w \<and> readers_fit rs w' \<and> (\<forall>q. standing q w \<longrightarrow> standing q w')"
proof (induction gs arbitrary: c w rs)
  case Nil
  then show ?case by (simp add: readers_fit_def)
next
  case (Cons g gs)
  obtain r w1 rs' where o: "opn (gp_provider g) \<lparr>ls_addresses = gp_addresses g, ls_column = Some c\<rparr> w = Some (Some r, w1)"
    and rest: "open_groups opn (c + 1) gs w1 = Some (Inr rs', w')"
    and rs: "rs = \<lparr>rg_reader = r, rg_offset = gp_offset g, rg_count = gp_count g, rg_disclosureSlot = c\<rparr> # rs'"
    using Cons.prems(1) by (rule open_groups_Cons)
  have new: "standing r w1 \<and> width r = gp_count g \<and> column r = Some c"
    using opened [OF Cons.prems(2) _ o] Cons.prems(3) by simp
  note keep = open_keeps [OF Cons.prems(2) o]
  have ih: "fit w' \<and> thread w' = thread w1 \<and> readers_fit rs' w' \<and> (\<forall>q. standing q w1 \<longrightarrow> standing q w')"
    using Cons.IH [OF rest] keep Cons.prems(3) by simp
  then show ?case using new keep by (simp add: rs readers_fit_def)
qed

lemma compiled_readers_fit:
  assumes wf: "tree_wf s" and c: "compileCore opn here s tg exprs w = Some (Inr pl, w')" and "fit w"
  shows "readers_fit (pl_groups pl) w' \<and> thread w' = thread w \<and> fit w'"
  using c
proof (cases rule: compileCore_cases)
  case (1 pending gs)
  have "pending_ok s (tg_kind tg) pending" using pend_exprs_ok [OF 1(1)] by (simp add: pending_ok_def)
  then have d: "distinct (map fst pending)" by (simp add: pending_ok_def)
  let ?ly = "layout_all (sys_providers s) pending"
  note ly = layout_all_ok [OF d, of "sys_providers s"]
  have pos: "0 < c" if "tiled k xs e" "(off, c) \<in> set xs" for k xs e off c
    using that by (induction xs arbitrary: k) auto
  have "gp_addresses g \<noteq> [] \<and> gp_count g = length (gp_addresses g)" if g: "g \<in> set (ly_groups ?ly)" for g
  proof -
    have "0 < gp_count g"
      using ly g by (intro pos [of 0 "map (\<lambda>g. (gp_offset g, gp_count g)) (ly_groups ?ly)"
        "length (laid_out (sys_providers s) pending)" "gp_offset g"]) (auto simp: layout_ok_def)
    with ly g show ?thesis by (auto simp: layout_ok_def)
  qed
  with open_groups_fit [OF 1(5) assms(3)] show ?thesis by (simp add: 1(6) linkRatioSlots_def)
qed

end

text \<open>The shipped providers: a push provider opens on the thread of its counters, a fake one keeps its tables.\<close>

definition world_fit :: "world \<Rightarrow> bool" where
  "world_fit w \<longleftrightarrow> (\<forall>p \<in> set (w_providers w). case p of
      PushProvider pts \<Rightarrow> \<forall>x \<in> set pts. pp_owner x = w_thread w
    | FakeProvider f \<Rightarrow> fake_wf f
    | ClockProvider \<Rightarrow> True)"

lemma sampled_of_items:
  "sampled_of f as = Some ls \<Longrightarrow> length ls = length as
     \<and> (\<forall>l \<in> set ls. fake_item f (sa_path l) (sa_name l) \<noteq> None)"
  by (induction as arbitrary: ls) (auto simp: Let_def split: prod.splits option.splits)

lemma fake_open_shape:
  assumes "fake_open req f = (win, f')" and "fake_wf f"
  shows "fake_wf f' \<and> (\<forall>q. fake_standing q f \<longrightarrow> fake_standing q f')
     \<and> (\<forall>x. win = Some x \<longrightarrow> fake_standing x f' \<and> length (fw_leaves x) = length (ls_addresses req)
          \<and> fw_column x = ls_column req)"
proof (cases "over_limit (ls_addresses req) (fk_objects f)")
  case (Some y)
  then obtain m where "f' = f\<lparr>fk_lastRefusal := m\<rparr>" "win = None"
    using assms(1) by (cases y) (auto simp: fake_open_def)
  with assms(2) show ?thesis by (auto simp: fake_wf_def fake_standing_def fake_item_def)
next
  case None
  let ?f = "f\<lparr>fk_windowOpens := fk_windowOpens f + 1\<rparr>"
  from None assms(1) have f': "f' = ?f"
    and win: "win = map_option (\<lambda>ls. \<lparr>fw_leaves = ls, fw_column = ls_column req, fw_actions = 0\<rparr>)
                 (sampled_of ?f (ls_addresses req))"
    by (auto simp: fake_open_def Let_def)
  have wf: "fake_wf ?f" using assms(2) by (simp add: fake_wf_def)
  show ?thesis
    using sampled_of_items [of ?f "ls_addresses req"] wf
    by (auto simp: f' win fake_standing_def fake_item_def)
qed

lemma shipped_opened:
  assumes fit: "world_fit w" and ne: "ls_addresses req \<noteq> []" and o: "provider_open pf i req w = Some (Some r, w')"
  shows "window_standing r w' \<and> window_width r = length (ls_addresses req) \<and> window_column r = ls_column req"
proof -
  have i: "i < length (w_providers w)" using o by (auto simp: provider_open_def split: if_splits)
  then have at: "w_providers w ! i \<in> set (w_providers w)" by simp
  show ?thesis
  proof (cases "w_providers w ! i")
    case (PushProvider pts)
    with o i obtain win where win: "push_open pts req = Some (Some win)" "r = PushWindow i win" "w' = w"
      by (auto simp: provider_open_def)
    have own: "\<forall>x \<in> set pts. pp_owner x = w_thread w"
      using fit at PushProvider by (auto simp: world_fit_def)
    obtain cs where cs: "pw_cells win = cs" "length cs = length (ls_addresses req)"
      "\<forall>k < length cs. cs ! k < length pts" "\<forall>c \<in> set cs. pp_owner (pts ! c) = pw_owner win"
      using push_open_loop_shape [OF win(1) [unfolded push_open_def]] by auto
    obtain c where c: "c \<in> set cs" using ne cs(2) by (cases cs) auto
    then have "c < length pts" using cs(3) by (auto simp: in_set_conv_nth)
    then have "w_thread w = pw_owner win" using own cs(4) c by force
    with push_open_standing [of "push_world_of i w" req win] win ne PushProvider i show ?thesis
      by (simp add: push_world_of_def is_push_def)
  next
    case (FakeProvider f)
    with o i obtain f' win where fo: "fake_open req f = (Some win, f')" "r = FakeWindow i win"
      "w' = put_fake i f' w"
      by (auto simp: provider_open_def put_fake_def split: prod.splits)
    have "fake_wf f" using fit at FakeProvider by (auto simp: world_fit_def)
    with fake_open_shape [OF fo(1)] put_fake_at [of i w i f'] i FakeProvider show ?thesis
      by (simp add: fo is_fake_def)
  next
    case ClockProvider
    with o i obtain win where "clock_open (x86 pf) req = Some win" "r = ClockWindow win" "w' = w"
      by (auto simp: provider_open_def)
    moreover have "clock_open_kinds b as = Some ks \<Longrightarrow> length ks = length as" for b as ks
      by (induction as arbitrary: ks) (auto simp: Let_def split: if_splits)
    ultimately show ?thesis by (auto simp: clock_open_def)
  qed
qed

lemma shipped_open_keeps:
  assumes fit: "world_fit w" and o: "provider_open pf i req w = Some (x, w')"
  shows "world_fit w' \<and> w_thread w' = w_thread w \<and> (\<forall>q. window_standing q w \<longrightarrow> window_standing q w')"
proof -
  have i: "i < length (w_providers w)" using o by (auto simp: provider_open_def split: if_splits)
  then have at: "w_providers w ! i \<in> set (w_providers w)" by simp
  show ?thesis
  proof (cases "w_providers w ! i")
    case (FakeProvider f)
    with o i obtain f' win where fo: "fake_open req f = (win, f')" "w' = put_fake i f' w"
      by (auto simp: provider_open_def put_fake_def split: prod.splits)
    have wf: "fake_wf f" using fit at FakeProvider by (auto simp: world_fit_def)
    note sh = fake_open_shape [OF fo(1) wf]
    have "window_standing q w'" if "window_standing q w" for q
      unfolding fo(2) using that i FakeProvider sh
      by (intro window_standing_put_fake) (auto simp: is_fake_def fake_of_def)
    moreover have "world_fit w'"
      using fit sh by (auto simp: world_fit_def fo(2) put_fake_def dest!: set_update_subset_insert [THEN subsetD] split: provider.splits)
    ultimately show ?thesis by (simp add: fo(2))
  qed (use o i fit in \<open>auto simp: provider_open_def\<close>)
qed

interpretation shipped_seam: provider_seam "window_read pf" window_standing window_width window_column
  "window_points pf" window_state window_advance "provider_open pf" world_fit w_thread for pf
proof unfold_locales
  fix w req i r w'
  assume "world_fit w" "ls_addresses req \<noteq> []" "provider_open pf i req w = Some (Some r, w')"
  then show "window_standing r w' \<and> window_width r = length (ls_addresses req) \<and> window_column r = ls_column req"
    by (rule shipped_opened)
next
  fix w i req x w'
  assume "world_fit w" "provider_open pf i req w = Some (x, w')"
  then show "world_fit w' \<and> w_thread w' = w_thread w \<and> (\<forall>q. window_standing q w \<longrightarrow> window_standing q w')"
    by (rule shipped_open_keeps)
next
  fix r w
  show "w_thread (snd (window_advance r w)) = w_thread w" by (cases r) simp_all
  show "availability_of_code (window_state r w) \<noteq> None" by (cases r)
    (simp_all only: window_state.simps fake_state_def availability_code_roundtrip option.simps not_False_eq_True)
qed

subsection \<open>A demonstration system\<close>

definition demo_platform :: platform where
  "demo_platform = \<lparr>clock_gettime = (\<lambda>c n. Some (of_nat n, 7)), rdtsc = (\<lambda>n. of_nat n), x86 = True\<rparr>"

definition demo_counter :: "bool \<Rightarrow> u64 list \<Rightarrow> fake_counter" where
  "demo_counter pair pts = empty_counter\<lparr>fc_unit := ''ops'', fc_ratioPair := pair,
     fc_script := \<lparr>fs_points = pts, fs_tailDelta = 0, fs_deltaSeed = None\<rparr>\<rparr>"

definition demo_fake :: fake_provider where
  "demo_fake = \<lparr>fk_objects = [(''cpu'', \<lparr>fo_kind = ''pmu'', fo_alias = [], fo_description = [],
       fo_counters = [(''cycles'', demo_counter True [100, 130, 200]), (''enabled'', demo_counter False [0, 8, 16]),
         (''running'', demo_counter False [0, 4, 12])],
       fo_programmableCounters = Some 4, fo_groupLeafLimit = None\<rparr>)],
     fk_readActions = 0, fk_windowOpens = 0, fk_lastRefusal = []\<rparr>"

definition demo_push :: push_provider where
  "demo_push = [\<lparr>pp_value = 42, pp_owner = 1, pp_name = ''hits'', pp_description = [], pp_unit = ''ops''\<rparr>]"

definition demo_world :: world where
  "demo_world = \<lparr>w_thread = 1, w_providers = [PushProvider demo_push, FakeProvider demo_fake, ClockProvider], w_clock = 0\<rparr>"

fun register_all :: "object_seed list list \<Rightarrow> system \<Rightarrow> (error + system) checked" where
  "register_all [] s = Some (Inr s)"
| "register_all (b # bs) s =
     (case registerProvider s b of
        None \<Rightarrow> None
      | Some (Inl er) \<Rightarrow> Some (Inl er)
      | Some (Inr s1) \<Rightarrow> register_all bs s1)"

lemma register_all_reachable:
  "register_all bs s = Some (Inr s') \<Longrightarrow> reachable_tree s \<Longrightarrow> reachable_tree s'"
proof (induction bs arbitrary: s)
  case Nil
  then show ?case by simp
next
  case (Cons b bs)
  then obtain s1 where "registerProvider s b = Some (Inr s1)" "register_all bs s1 = Some (Inr s')"
    by (auto split: option.splits sum.splits)
  with Cons show ?case by (auto intro: reach_register)
qed

text \<open>The tree the three demonstration providers register, opened.\<close>

definition demo_cpu_leaves :: "leaf_record list" where
  "demo_cpu_leaves = map (leaf_of_seed ''cpu'' 1) (os_entries (hd (fake_enumerate demo_fake)))"

definition demo_machine_leaves :: "leaf_record list" where
  "demo_machine_leaves = map (leaf_of_seed ''machine'' 0) (os_entries (hd (push_enumerate demo_push)))
     @ map (leaf_of_seed ''machine'' 2) (clock_entries True)"

definition demo_tree :: system where
  "demo_tree = \<lparr>sys_providers = 3,
     sys_objects = [(''cpu'', \<lparr>tn_kind = ''pmu'', tn_path = ''cpu'', tn_alias = [], tn_description = [],
          tn_leaves = demo_cpu_leaves\<rparr>), (''machine'', machine_root\<lparr>tn_leaves := demo_machine_leaves\<rparr>)],
     sys_aliases = [], sys_limits = [(''cpu'', 4)], sys_open = False\<rparr>"

definition demo_system :: system where
  "demo_system = ensureOpen demo_tree"

text \<open>\<open>(cycles + hits) + (enabled + running)\<close>, as the operators lay it out.\<close>

definition demo_node :: "nat \<Rightarrow> int \<Rightarrow> int \<Rightarrow> int \<Rightarrow> expr_node" where
  "demo_node k l r lf = \<lparr>kind = k, left = l, right = r, leaf = lf, scale = one64\<rparr>"

definition demo_leaves :: "leaf_core list" where
  "demo_leaves = map lr_core [demo_cpu_leaves ! 0, demo_machine_leaves ! 0, demo_cpu_leaves ! 1, demo_cpu_leaves ! 2]"

definition demo_expr :: expr_core where
  "demo_expr = \<lparr>leaves = demo_leaves,
     nodes = [demo_node 0 (- 1) (- 1) 0, demo_node 0 (- 1) (- 1) 1, demo_node 1 0 1 (- 1),
       demo_node 0 (- 1) (- 1) 2, demo_node 0 (- 1) (- 1) 3, demo_node 1 3 4 (- 1), demo_node 1 2 5 (- 1)]\<rparr>"

definition demo_plan :: "window plan \<times> world" where
  "demo_plan = (case compileCore (provider_open demo_platform) 1 demo_system \<lparr>tg_kind = THREAD, tg_cpu = - 1\<rparr> [demo_expr] demo_world of
      Some (Inr pl, w) \<Rightarrow> (pl, w)
    | _ \<Rightarrow> (\<lparr>pl_slots = [], pl_disclosureSlot = 0, pl_byAddress = [], pl_groups = [], pl_boundThread = 0\<rparr>, demo_world))"

lemma demo_registered:
  "register_all (map (provider_enumerate demo_platform) (w_providers demo_world)) new_system = Some (Inr demo_tree)"
  by code_simp

lemma demo_reachable: "reachable_tree demo_system" "sys_open demo_system"
proof -
  have "reachable_tree demo_tree" using demo_registered reach_new by (rule register_all_reachable)
  then show "reachable_tree demo_system" by (simp add: demo_system_def reach_open)
  show "sys_open demo_system" by (simp add: demo_system_def ensureOpen_def)
qed

lemma demo_compile_value:
  "(case compileCore (provider_open demo_platform) 1 demo_system \<lparr>tg_kind = THREAD, tg_cpu = - 1\<rparr>
        [\<lparr>leaves = demo_leaves, nodes = ns\<rparr>] demo_world of
      Some (Inr _, _) \<Rightarrow> True | _ \<Rightarrow> False)"
  by code_simp

lemma demo_compiles:
  "compileCore (provider_open demo_platform) 1 demo_system \<lparr>tg_kind = THREAD, tg_cpu = - 1\<rparr> [demo_expr] demo_world
     = Some (Inr (fst demo_plan), snd demo_plan)"
proof -
  have ex: "(case x of Some (Inr _, _) \<Rightarrow> True | _ \<Rightarrow> False) \<Longrightarrow> \<exists>pl w. x = Some (Inr pl, w)"
    for x :: "(window plan expected \<times> world) checked"
    by (auto split: option.splits sum.splits prod.splits)
  from ex [OF demo_compile_value] obtain pl w where cw:
    "compileCore (provider_open demo_platform) 1 demo_system \<lparr>tg_kind = THREAD, tg_cpu = - 1\<rparr> [demo_expr] demo_world
      = Some (Inr pl, w)" unfolding demo_expr_def by blast
  then show ?thesis by (simp add: demo_plan_def)
qed

text \<open>
  C3. A plan compiled on a reachable tree is laid out soundly: its groups tile the slots, each group
  discloses in a column of its own past the last slot, the address table numbers the slots one to one,
  and every leaf of every expression has a slot that carries the catalog record the gate passed.
\<close>

theorem compiled_plan_layout:
  assumes "reachable_tree s" and "compileCore opn here s tg exprs w = Some (Inr pl, w')"
  shows "plan_shape pl \<and> pl_boundThread pl = here
     \<and> (\<forall>c \<in> set exprs. leaves c \<noteq> [] \<and> (\<forall>l \<in> set (leaves c). \<exists>i r. om_find (pl_byAddress pl) (address l) = Some i
          \<and> i < leafCount pl \<and> record_of s (address l) = Some r \<and> sl_core (pl_slots pl ! i) = lr_core r
          \<and> availabilityGatePasses (leaf_avail (lr_core r)) (tg_kind tg)))"
  by (rule compiled_shape [OF reachable_tree_wf [OF assms(1)] assms(2)])

theorem compiled_plan_layout_witness:
  "plan_shape (fst demo_plan) \<and> pl_boundThread (fst demo_plan) = 1
     \<and> (\<exists>i r. om_find (pl_byAddress (fst demo_plan)) (address (hd demo_leaves)) = Some i
          \<and> i < leafCount (fst demo_plan) \<and> record_of demo_system (address (hd demo_leaves)) = Some r
          \<and> sl_core (pl_slots (fst demo_plan) ! i) = lr_core r \<and> leaf_avail (lr_core r) = COUNTABLE)"
proof -
  have "demo_expr \<in> set [demo_expr]" "hd demo_leaves \<in> set (leaves demo_expr)"
    by (simp_all add: demo_expr_def demo_leaves_def)
  with compiled_plan_layout [OF demo_reachable(1) demo_compiles] show ?thesis
    by (fastforce simp: availabilityGatePasses_def)
qed

text \<open>
  Compiling links the multiplex pair of every slot that carries one: the enabled and running columns
  are those of the same object's \<open>enabled\<close> and \<open>running\<close> leaves when the plan reads them; no other slot
  is linked.
\<close>

theorem compiled_ratio_pairs:
  assumes "reachable_tree s" and "compileCore opn here s tg exprs w = Some (Inr pl, w')"
  shows "\<forall>sl \<in> set (pl_slots pl).
     sl_ratioEnabled sl = (if sl_hasRatioPair sl then om_find (pl_byAddress pl) (slot_home sl @ ''/enabled'') else None)
   \<and> sl_ratioRunning sl = (if sl_hasRatioPair sl then om_find (pl_byAddress pl) (slot_home sl @ ''/running'') else None)"
  by (rule compiled_pairs [OF reachable_tree_wf [OF assms(1)] assms(2)])

lemma demo_pair_value:
  "(case compileCore (provider_open demo_platform) 1 demo_system \<lparr>tg_kind = THREAD, tg_cpu = - 1\<rparr>
        [\<lparr>leaves = demo_leaves, nodes = ns\<rparr>] demo_world of
      Some (Inr pl, _) \<Rightarrow> om_find (pl_byAddress pl) ''cpu/enabled'' = Some 2 \<and> om_find (pl_byAddress pl) ''cpu/running'' = Some 3
        \<and> 1 < length (pl_slots pl) \<and> slot_home (pl_slots pl ! 1) = ''cpu'' \<and> sl_hasRatioPair (pl_slots pl ! 1)
    | _ \<Rightarrow> False)"
  by code_simp

theorem compiled_ratio_pairs_witness:
  "sl_ratioEnabled (pl_slots (fst demo_plan) ! 1) = Some 2 \<and> sl_ratioRunning (pl_slots (fst demo_plan) ! 1) = Some 3"
proof -
  have v: "om_find (pl_byAddress (fst demo_plan)) ''cpu/enabled'' = Some 2" "om_find (pl_byAddress (fst demo_plan)) ''cpu/running'' = Some 3"
    "slot_home (pl_slots (fst demo_plan) ! 1) = ''cpu''" "sl_hasRatioPair (pl_slots (fst demo_plan) ! 1)"
    "1 < length (pl_slots (fst demo_plan))"
    using demo_pair_value [of "nodes demo_expr"] demo_compiles by (simp_all add: demo_expr_def)
  from compiled_ratio_pairs [OF demo_reachable(1) demo_compiles, rule_format, OF nth_mem [OF v(5)]]
  show ?thesis by (simp add: v(1-4) [unfolded One_nat_def])
qed



end
