(* ===== verification/Recorder.thy ===== *)
theory Recorder
  imports Plan
begin

text \<open>
  Sampling: one action over every read group (\<open>sampleRow\<close>, \<open>samplePoint\<close> of
  \<open>source/counters/plan.cpp\<close>), the hard-stop and the ring recorder over an arena of the plan, and the
  two-point scope.  \<open>thunk\<close> is the read of a window and \<open>thread\<close> the running thread.  Heads and drop
  counts are \<open>nat\<close>: the 64-bit counters of the code wrap after \<open>2 ^ 64\<close> samples.
\<close>

type_synonym ('r, 'w) reader = "'r \<Rightarrow> 'w \<Rightarrow> point_sink \<Rightarrow> ('r \<times> 'w \<times> point_sink) checked"

fun sample_groups ::
  "('r, 'w) reader \<Rightarrow> 'r read_group list \<Rightarrow> 'w \<Rightarrow> point_sink \<Rightarrow> ('r read_group list \<times> 'w \<times> point_sink) checked" where
  "sample_groups thunk [] w s = Some ([], w, s)"
| "sample_groups thunk (g # gs) w s =
     (case thunk (rg_reader g) w s of
        None \<Rightarrow> None
      | Some (r, w1, s1) \<Rightarrow>
          (case sample_groups thunk gs w1 s1 of
             None \<Rightarrow> None
           | Some (gs', w2, s2) \<Rightarrow> Some (g\<lparr>rg_reader := r\<rparr> # gs', w2, s2)))"

definition sampleRow ::
  "('r, 'w) reader \<Rightarrow> 'r plan \<Rightarrow> 'w \<Rightarrow> u64 list \<Rightarrow> nat \<Rightarrow> nat \<Rightarrow> ('r plan \<times> 'w \<times> u64 list) checked" where
  "sampleRow thunk pl w buffer stride line =
     (case new_sink buffer (leafCount pl) (columnCount pl) stride line of
        None \<Rightarrow> None
      | Some s \<Rightarrow>
          (case sample_groups thunk (pl_groups pl) w s of
             None \<Rightarrow> None
           | Some (gs, w1, s1) \<Rightarrow>
               if checkAction s1 then Some (pl\<lparr>pl_groups := gs\<rparr>, w1, sk_cells s1) else None))"

definition samplePoint ::
  "('r, 'w) reader \<Rightarrow> ('w \<Rightarrow> thread_id) \<Rightarrow> 'r plan \<Rightarrow> 'w \<Rightarrow> u64 list \<Rightarrow> nat \<Rightarrow> nat \<Rightarrow> nat \<Rightarrow>
   ('r plan \<times> 'w \<times> u64 list \<times> nat) checked" where
  "samplePoint thunk thread pl w columns stride line head =
     (if thread w \<noteq> pl_boundThread pl then None
      else map_option (\<lambda>(pl', w', columns'). (pl', w', columns', head + 1)) (sampleRow thunk pl w columns stride line))"

definition hardStopSampleCore ::
  "('r, 'w) reader \<Rightarrow> ('w \<Rightarrow> thread_id) \<Rightarrow> 'r plan \<Rightarrow> 'w \<Rightarrow> u64 list \<Rightarrow> nat \<Rightarrow> nat \<Rightarrow>
   ('r plan \<times> 'w \<times> u64 list \<times> nat) checked" where
  "hardStopSampleCore thunk thread pl w columns capacity head =
     (if head < capacity then samplePoint thunk thread pl w columns capacity head head else None)"

definition ringSampleCore ::
  "('r, 'w) reader \<Rightarrow> ('w \<Rightarrow> thread_id) \<Rightarrow> 'r plan \<Rightarrow> 'w \<Rightarrow> u64 list \<Rightarrow> nat \<Rightarrow> nat \<Rightarrow> bool \<Rightarrow> nat \<Rightarrow>
   ('r plan \<times> 'w \<times> u64 list \<times> nat \<times> bool \<times> nat) checked" where
  "ringSampleCore thunk thread pl w columns capacity head wrapped dropped =
     (case samplePoint thunk thread pl w columns capacity (and head (capacity - 1)) head of
        None \<Rightarrow> None
      | Some (pl', w', columns', head') \<Rightarrow>
          if head' > capacity then Some (pl', w', columns', head', True, dropped + 1)
          else Some (pl', w', columns', head', wrapped, dropped))"

subsection \<open>Recorders over the arenas of a plan\<close>

record 'r compiled =
  co_plan :: "'r plan"
  co_arenas :: "u64 list list"

record recorder =
  rc_arena :: nat
  rc_capacity :: nat
  rc_head :: nat
  rc_wrapped :: bool
  rc_dropped :: nat

definition mint :: "nat \<Rightarrow> 'r compiled \<Rightarrow> recorder \<times> 'r compiled" where
  "mint capacity co =
     (\<lparr>rc_arena = length (co_arenas co), rc_capacity = capacity, rc_head = 0, rc_wrapped = False, rc_dropped = 0\<rparr>,
      co\<lparr>co_arenas := co_arenas co @ [replicate (capacity * columnCount (co_plan co)) 0]\<rparr>)"

definition hard_recorder :: "nat \<Rightarrow> 'r compiled \<Rightarrow> recorder \<times> 'r compiled" where
  "hard_recorder capacity co = mint capacity co"

definition ring_recorder :: "nat \<Rightarrow> 'r compiled \<Rightarrow> (recorder \<times> 'r compiled) expected" where
  "ring_recorder capacity co =
     (if capacity = 0 \<or> and capacity (capacity - 1) \<noteq> 0
      then Inl (plain_error ''ring capacity must be a non-zero power of two (FR-025)'')
      else Inr (mint capacity co))"

text \<open>\<open>RecorderHandle<HardStop>::sample\<close> and \<open>RecorderHandle<Ring>::sample\<close>.\<close>

definition hard_sample ::
  "('r, 'w) reader \<Rightarrow> ('w \<Rightarrow> thread_id) \<Rightarrow> recorder \<Rightarrow> 'r compiled \<Rightarrow> 'w \<Rightarrow> (recorder \<times> 'r compiled \<times> 'w) checked" where
  "hard_sample thunk thread h co w =
     (if rc_arena h \<ge> length (co_arenas co) then None
      else map_option (\<lambda>(pl, w', columns, head).
          (h\<lparr>rc_head := head\<rparr>, \<lparr>co_plan = pl, co_arenas = (co_arenas co)[rc_arena h := columns]\<rparr>, w'))
        (hardStopSampleCore thunk thread (co_plan co) w (co_arenas co ! rc_arena h) (rc_capacity h) (rc_head h)))"

definition ring_sample ::
  "('r, 'w) reader \<Rightarrow> ('w \<Rightarrow> thread_id) \<Rightarrow> recorder \<Rightarrow> 'r compiled \<Rightarrow> 'w \<Rightarrow> (recorder \<times> 'r compiled \<times> 'w) checked" where
  "ring_sample thunk thread h co w =
     (if rc_arena h \<ge> length (co_arenas co) then None
      else map_option (\<lambda>(pl, w', columns, head, wrapped, dropped).
          (h\<lparr>rc_head := head, rc_wrapped := wrapped, rc_dropped := dropped\<rparr>,
           \<lparr>co_plan = pl, co_arenas = (co_arenas co)[rc_arena h := columns]\<rparr>, w'))
        (ringSampleCore thunk thread (co_plan co) w (co_arenas co ! rc_arena h) (rc_capacity h) (rc_head h)
           (rc_wrapped h) (rc_dropped h)))"

record recorder_api =
  ra_columns :: "u64 list"
  ra_stride :: nat
  ra_count :: nat
  ra_wrapped :: bool
  ra_dropped :: nat

definition recorder_view :: "recorder \<Rightarrow> 'r compiled \<Rightarrow> recorder_api" where
  "recorder_view h co =
     \<lparr>ra_columns = co_arenas co ! rc_arena h, ra_stride = rc_capacity h,
      ra_count = (if rc_head h < rc_capacity h then rc_head h else rc_capacity h),
      ra_wrapped = rc_wrapped h, ra_dropped = rc_dropped h\<rparr>"

subsection \<open>The scope\<close>

record scope =
  sc_buffer :: "u64 list"
  sc_head :: nat
  sc_started :: bool
  sc_finished :: bool

definition new_scope :: "'r plan \<Rightarrow> scope" where
  "new_scope pl = \<lparr>sc_buffer = replicate (columnCount pl * 2) 0, sc_head = 0, sc_started = False, sc_finished = False\<rparr>"

definition scope_start ::
  "('r, 'w) reader \<Rightarrow> ('w \<Rightarrow> thread_id) \<Rightarrow> 'r plan \<Rightarrow> scope \<Rightarrow> 'w \<Rightarrow> ('r plan \<times> scope \<times> 'w) checked" where
  "scope_start thunk thread pl sc w =
     (if sc_started sc then None
      else
        case hardStopSampleCore thunk thread pl w (sc_buffer sc) 2 (sc_head sc) of
          None \<Rightarrow> None
        | Some (pl', w', buffer, head) \<Rightarrow>
            if head = 1 then Some (pl', sc\<lparr>sc_buffer := buffer, sc_head := head, sc_started := True\<rparr>, w') else None)"

definition scope_finish ::
  "('r, 'w) reader \<Rightarrow> ('w \<Rightarrow> thread_id) \<Rightarrow> 'r plan \<Rightarrow> scope \<Rightarrow> 'w \<Rightarrow> ('r plan \<times> scope \<times> 'w) checked" where
  "scope_finish thunk thread pl sc w =
     (if \<not> sc_started sc \<or> sc_finished sc then None
      else
        case hardStopSampleCore thunk thread pl w (sc_buffer sc) 2 (sc_head sc) of
          None \<Rightarrow> None
        | Some (pl', w', buffer, head) \<Rightarrow>
            if head = 2 then Some (pl', sc\<lparr>sc_buffer := buffer, sc_head := head, sc_finished := True\<rparr>, w') else None)"

definition scope_view :: "scope \<Rightarrow> recorder_api" where
  "scope_view sc = \<lparr>ra_columns = sc_buffer sc, ra_stride = 2, ra_count = sc_head sc, ra_wrapped = False, ra_dropped = 0\<rparr>"

subsection \<open>The row of one action\<close>

text \<open>What an action writes, group after group, and what it leaves behind.\<close>

fun action_points :: "('r \<Rightarrow> 'w \<Rightarrow> u64 list) \<Rightarrow> ('r \<Rightarrow> 'w \<Rightarrow> 'r \<times> 'w) \<Rightarrow> 'r read_group list \<Rightarrow> 'w \<Rightarrow> u64 list" where
  "action_points points advance [] w = []"
| "action_points points advance (g # gs) w =
     points (rg_reader g) w @ action_points points advance gs (snd (advance (rg_reader g) w))"

fun action_states :: "('r \<Rightarrow> 'w \<Rightarrow> u64) \<Rightarrow> ('r \<Rightarrow> 'w \<Rightarrow> 'r \<times> 'w) \<Rightarrow> 'r read_group list \<Rightarrow> 'w \<Rightarrow> u64 list" where
  "action_states state advance [] w = []"
| "action_states state advance (g # gs) w =
     state (rg_reader g) w # action_states state advance gs (snd (advance (rg_reader g) w))"

fun action_groups :: "('r \<Rightarrow> 'w \<Rightarrow> 'r \<times> 'w) \<Rightarrow> 'r read_group list \<Rightarrow> 'w \<Rightarrow> 'r read_group list" where
  "action_groups advance [] w = []"
| "action_groups advance (g # gs) w =
     g\<lparr>rg_reader := fst (advance (rg_reader g) w)\<rparr> # action_groups advance gs (snd (advance (rg_reader g) w))"

fun action_world :: "('r \<Rightarrow> 'w \<Rightarrow> 'r \<times> 'w) \<Rightarrow> 'r read_group list \<Rightarrow> 'w \<Rightarrow> 'w" where
  "action_world advance [] w = w"
| "action_world advance (g # gs) w = action_world advance gs (snd (advance (rg_reader g) w))"

definition action_row where
  "action_row points state advance pl w =
     action_points points advance (pl_groups pl) w @ action_states state advance (pl_groups pl) w"

definition action_plan where
  "action_plan advance pl w = pl\<lparr>pl_groups := action_groups advance (pl_groups pl) w\<rparr>"

text \<open>The rows of \<open>n\<close> actions in a row, and the plan and world after them.\<close>

fun history where
  "history points state advance 0 pl w = []"
| "history points state advance (Suc n) pl w =
     action_row points state advance pl w
       # history points state advance n (action_plan advance pl w) (action_world advance (pl_groups pl) w)"

subsection \<open>A run of samples\<close>

fun hard_run ::
  "('r, 'w) reader \<Rightarrow> ('w \<Rightarrow> thread_id) \<Rightarrow> nat \<Rightarrow> recorder \<Rightarrow> 'r compiled \<Rightarrow> 'w \<Rightarrow>
   (recorder \<times> 'r compiled \<times> 'w) checked" where
  "hard_run thunk thread 0 h co w = Some (h, co, w)"
| "hard_run thunk thread (Suc n) h co w =
     (case hard_sample thunk thread h co w of
        None \<Rightarrow> None
      | Some (h', co', w') \<Rightarrow> hard_run thunk thread n h' co' w')"

fun ring_run ::
  "('r, 'w) reader \<Rightarrow> ('w \<Rightarrow> thread_id) \<Rightarrow> nat \<Rightarrow> recorder \<Rightarrow> 'r compiled \<Rightarrow> 'w \<Rightarrow>
   (recorder \<times> 'r compiled \<times> 'w) checked" where
  "ring_run thunk thread 0 h co w = Some (h, co, w)"
| "ring_run thunk thread (Suc n) h co w =
     (case ring_sample thunk thread h co w of
        None \<Rightarrow> None
      | Some (h', co', w') \<Rightarrow> ring_run thunk thread n h' co' w')"

text \<open>The physical row of a logical index, as \<open>foldCore\<close> addresses it.\<close>

definition physical_row :: "recorder_api \<Rightarrow> nat \<Rightarrow> nat" where
  "physical_row rec i =
     (if ra_wrapped rec then (ra_dropped rec mod ra_stride rec + i) mod ra_stride rec else i)"

subsection \<open>Masking by a power of two\<close>

lemma and_pred_zero: "0 < c \<Longrightarrow> and c (c - 1) = (0::nat) \<Longrightarrow> \<exists>k. c = 2 ^ k"
proof (induction c rule: less_induct)
  case (less c)
  show ?case
  proof (cases "even c")
    case True
    then obtain d where c: "c = 2 * d" by (elim evenE)
    with less.prems(1) have d: "0 < d" "d < c" by simp_all
    have "c - 1 = Suc (2 * (d - 1))" using c d by simp
    then have "and c (c - 1) = 2 * and d (d - 1)" by (simp add: c and_nat_rec [of "2 * d"])
    with less.prems have "and d (d - 1) = 0" by simp
    with less.IH [OF d(2,1)] obtain k where "d = 2 ^ k" by blast
    then have "c = 2 ^ Suc k" by (simp add: c)
    then show ?thesis by blast
  next
    case False
    then obtain d where c: "c = Suc (2 * d)" by (metis oddE Suc_eq_plus1)
    have "and c (c - 1) = 2 * d" by (simp add: c and_nat_rec [of "Suc (2 * d)"])
    with less.prems c have "c = 2 ^ 0" by simp
    then show ?thesis by blast
  qed
qed

lemma and_mask_mod: "and h (2 ^ k - 1) = h mod (2 ^ k :: nat)"
  by (simp add: take_bit_eq_mod [symmetric] take_bit_eq_mask mask_eq_exp_minus_1)

subsection \<open>Sampling a plan whose windows stand\<close>

lemma tiled_last: "tiled k gs e \<Longrightarrow> k \<le> e"
  by (induction gs arbitrary: k) (auto, meson add_leD1)

context provider_seam
begin

abbreviation row_of where "row_of \<equiv> action_row points state advance"
abbreviation next_plan where "next_plan \<equiv> action_plan advance"
abbreviation next_world where "next_world pl w \<equiv> action_world advance (pl_groups pl) w"
abbreviation rows where "rows \<equiv> history points state advance"

lemma action_keeps:
  "readers_fit gs w \<Longrightarrow>
   readers_fit (action_groups advance gs w) (action_world advance gs w)
   \<and> thread (action_world advance gs w) = thread w
   \<and> (\<forall>q. standing q w \<longrightarrow> standing q (action_world advance gs w))
   \<and> map (\<lambda>g. (rg_offset g, rg_count g)) (action_groups advance gs w) = map (\<lambda>g. (rg_offset g, rg_count g)) gs
   \<and> map rg_disclosureSlot (action_groups advance gs w) = map rg_disclosureSlot gs
   \<and> length (action_points points advance gs w) = sum_list (map rg_count gs)
   \<and> length (action_states state advance gs w) = length gs"
proof (induction gs arbitrary: w)
  case Nil
  then show ?case by (simp add: readers_fit_def)
next
  case (Cons g gs)
  let ?w1 = "snd (advance (rg_reader g) w)"
  have g: "standing (rg_reader g) w" "width (rg_reader g) = rg_count g" "column (rg_reader g) = Some (rg_disclosureSlot g)"
    using Cons.prems by (simp_all add: readers_fit_def)
  have "readers_fit gs ?w1" using Cons.prems keeps_others [OF g(1)] by (simp add: readers_fit_def)
  note ih = Cons.IH [OF this]
  have "standing (fst (advance (rg_reader g) w)) ?w1" using g(1) by (rule stays)
  with ih g same_width [OF g(1)] same_column [OF g(1)] one_per_leaf [OF g(1)] read_keeps [OF g(1)] keeps_others [OF g(1)]
  show ?case by (simp add: readers_fit_def)
qed

lemma tiled_sum: "tiled k (map (\<lambda>g. (rg_offset g, rg_count g)) gs) e \<Longrightarrow> e = k + sum_list (map rg_count gs)"
  by (induction gs arbitrary: k) (auto, metis add.assoc)

lemma sample_groups_fills:
  assumes "readers_fit gs w" and "sink_ok s"
    and "tiled (sk_index s) (map (\<lambda>g. (rg_offset g, rg_count g)) gs) (sk_leafCount s)"
    and "\<forall>i < length gs. rg_disclosureSlot (gs ! i) = d + i"
    and "sk_leafCount s \<le> d" and "d + length gs \<le> sk_columnCount s"
  shows "\<exists>s'. sample_groups thunk gs w s = Some (action_groups advance gs w, action_world advance gs w, s')
     \<and> sink_ok s' \<and> same_frame s s' \<and> sk_index s' = sk_leafCount s
     \<and> (\<forall>c r. r < sk_stride s \<longrightarrow> at_row s' c r =
          (if r = sk_row s \<and> sk_index s \<le> c \<and> c < sk_leafCount s then action_points points advance gs w ! (c - sk_index s)
           else if r = sk_row s \<and> d \<le> c \<and> c < d + length gs then action_states state advance gs w ! (c - d)
           else at_row s c r))"
  using assms
proof (induction gs arbitrary: w s d)
  case Nil
  then show ?case by (auto simp: same_frame_def)
next
  case (Cons g gs)
  let ?r = "rg_reader g" and ?w1 = "snd (advance (rg_reader g) w)"
  have g: "standing ?r w" "width ?r = rg_count g" "column ?r = Some (rg_disclosureSlot g)" "rg_disclosureSlot g = d"
    using Cons.prems(1,4) by (auto simp: readers_fit_def)
  have tile: "tiled (sk_index s + rg_count g) (map (\<lambda>g. (rg_offset g, rg_count g)) gs) (sk_leafCount s)"
    using Cons.prems(3) by simp
  have room: "sk_index s + rg_count g \<le> sk_leafCount s" using tile by (rule tiled_last)
  have cols: "d < sk_columnCount s" using Cons.prems(6) by simp
  obtain s1 where s1: "thunk ?r w s = Some (fst (advance ?r w), ?w1, s1)" "sink_ok s1" "same_frame s s1"
    "sk_index s1 = sk_index s + rg_count g"
    "\<forall>c row. row < sk_stride s \<longrightarrow> at_row s1 c row =
            (if row = sk_row s \<and> sk_index s \<le> c \<and> c < sk_index s + rg_count g then points ?r w ! (c - sk_index s)
             else if row = sk_row s \<and> c = d then state ?r w else at_row s c row)"
    using read_fills [OF g(1) Cons.prems(2) _ g(3) cols [folded g(4)]] room Cons.prems(5) g by auto
  have fit1: "readers_fit gs ?w1" using Cons.prems(1) keeps_others [OF g(1)] by (simp add: readers_fit_def)
  have slots: "\<forall>i < length gs. rg_disclosureSlot (gs ! i) = Suc d + i"
    using Cons.prems(4) by (metis Suc_mono add_Suc_shift length_Cons nth_Cons_Suc)
  have fr: "sk_leafCount s1 = sk_leafCount s" "sk_stride s1 = sk_stride s" "sk_row s1 = sk_row s"
    "sk_columnCount s1 = sk_columnCount s" using s1(3) by (simp_all add: same_frame_def)
  obtain s2 where s2: "sample_groups thunk gs ?w1 s1 = Some (action_groups advance gs ?w1, action_world advance gs ?w1, s2)"
    "sink_ok s2" "same_frame s1 s2" "sk_index s2 = sk_leafCount s1"
    "\<forall>c r. r < sk_stride s1 \<longrightarrow> at_row s2 c r =
          (if r = sk_row s1 \<and> sk_index s1 \<le> c \<and> c < sk_leafCount s1 then action_points points advance gs ?w1 ! (c - sk_index s1)
           else if r = sk_row s1 \<and> Suc d \<le> c \<and> c < Suc d + length gs then action_states state advance gs ?w1 ! (c - Suc d)
           else at_row s1 c r)"
    using Cons.IH [OF fit1 s1(2), of "Suc d"] tile slots Cons.prems(5,6) fr s1(4) by auto
  have len: "length (points ?r w) = rg_count g" using one_per_leaf [OF g(1)] g(2) by simp
  have cells: "at_row s2 c r =
          (if r = sk_row s \<and> sk_index s \<le> c \<and> c < sk_leafCount s then action_points points advance (g # gs) w ! (c - sk_index s)
           else if r = sk_row s \<and> d \<le> c \<and> c < d + length (g # gs) then action_states state advance (g # gs) w ! (c - d)
           else at_row s c r)" if r: "r < sk_stride s" for c r
  proof -
    consider (here) "r = sk_row s" "sk_index s \<le> c" "c < sk_index s + rg_count g"
      | (later) "r = sk_row s" "sk_index s + rg_count g \<le> c" "c < sk_leafCount s"
      | (mine) "r = sk_row s" "c = d"
      | (theirs) "r = sk_row s" "Suc d \<le> c" "c < Suc d + length gs"
      | (none) "r \<noteq> sk_row s \<or> c < sk_index s \<or> (sk_leafCount s \<le> c \<and> c < d) \<or> d + length (g # gs) \<le> c"
      by (metis Suc_le_eq add_Suc_right add_Suc_shift length_Cons linorder_not_le nat_less_le)
    then show ?thesis
    proof cases
      case here
      then have "c - sk_index s < rg_count g" by simp
      with here r s1(5) s2(5) room fr s1(4) len Cons.prems(5) show ?thesis by (simp add: nth_append)
    next
      case later
      then have "\<not> c - sk_index s < rg_count g" "c - sk_index s - rg_count g = c - (sk_index s + rg_count g)" by simp_all
      with later r s2(5) fr s1(4) len show ?thesis by (simp add: nth_append)
    next
      case mine
      with r s1(5) s2(5) room fr s1(4) Cons.prems(5) show ?thesis by simp
    next
      case theirs
      then have "c - d = Suc (c - Suc d)" by simp
      with theirs r s2(5) fr s1(4) Cons.prems(5) show ?thesis by simp
    next
      case none
      with r s1(5) s2(5) room fr s1(4) Cons.prems(5) show ?thesis by auto
    qed
  qed
  have "same_frame s s2" using s1(3) s2(3) by (rule same_frame_trans)
  then show ?case using s1(1) s2(1,2,4) cells fr by (intro exI [of _ s2]) simp
qed

definition sampling_ok :: "'r plan \<Rightarrow> 'w \<Rightarrow> bool" where
  "sampling_ok pl w \<longleftrightarrow> plan_shape pl \<and> readers_fit (pl_groups pl) w"

lemma next_plan_ok:
  assumes "sampling_ok pl w"
  shows "sampling_ok (next_plan pl w) (next_world pl w)" and "thread (next_world pl w) = thread w"
    and "leafCount (next_plan pl w) = leafCount pl" and "columnCount (next_plan pl w) = columnCount pl"
    and "pl_boundThread (next_plan pl w) = pl_boundThread pl"
    and "pl_slots (next_plan pl w) = pl_slots pl" and "pl_byAddress (next_plan pl w) = pl_byAddress pl"
proof -
  have fit: "readers_fit (pl_groups pl) w" and sh: "plan_shape pl" using assms by (simp_all add: sampling_ok_def)
  note k = action_keeps [OF fit]
  let ?gs = "pl_groups pl" and ?gs' = "action_groups advance (pl_groups pl) w"
  have len: "length ?gs' = length ?gs" using k by (metis length_map)
  have ds: "rg_disclosureSlot (?gs' ! i) = rg_disclosureSlot (?gs ! i)" if "i < length ?gs" for i
    using k that len by (metis nth_map)
  show lc: "leafCount (next_plan pl w) = leafCount pl" by (simp add: action_plan_def leafCount_def)
  show "columnCount (next_plan pl w) = columnCount pl" by (simp add: action_plan_def columnCount_def len)
  show "pl_boundThread (next_plan pl w) = pl_boundThread pl" "pl_slots (next_plan pl w) = pl_slots pl"
    "pl_byAddress (next_plan pl w) = pl_byAddress pl" by (simp_all add: action_plan_def)
  show "thread (next_world pl w) = thread w" using k by simp
  have "plan_shape (next_plan pl w)"
    using sh k len ds unfolding plan_shape_def lc by (simp add: action_plan_def) (metis length_greater_0_conv)
  then show "sampling_ok (next_plan pl w) (next_world pl w)"
    using k by (simp add: sampling_ok_def action_plan_def)
qed

lemma row_length: "sampling_ok pl w \<Longrightarrow> length (row_of pl w) = columnCount pl"
  using action_keeps [of "pl_groups pl" w] tiled_sum [of 0 "pl_groups pl" "leafCount pl"]
  by (simp add: action_row_def sampling_ok_def columnCount_def plan_shape_def leafCount_def)

text \<open>The disclosure columns of a row hold the states of its groups.\<close>

lemma action_states_named:
  "\<forall>x \<in> set (action_states state advance gs w). availability_of_code x \<noteq> None"
  by (induction gs arbitrary: w) (simp_all add: names_state del: not_None_eq)

lemma row_states:
  assumes ok: "sampling_ok pl w" and d: "leafCount pl \<le> d" "d < columnCount pl"
  shows "availability_of_code (row_of pl w ! d) \<noteq> None"
proof -
  have lp: "length (action_points points advance (pl_groups pl) w) = leafCount pl"
    using ok action_keeps [of "pl_groups pl" w] tiled_sum [of 0 "pl_groups pl" "leafCount pl"]
    by (simp add: sampling_ok_def plan_shape_def)
  then have "row_of pl w ! d = action_states state advance (pl_groups pl) w ! (d - leafCount pl)"
    using d by (simp add: action_row_def nth_append)
  moreover have "d - leafCount pl < length (action_states state advance (pl_groups pl) w)"
    using row_length [OF ok] d lp by (simp add: action_row_def)
  ultimately show ?thesis using action_states_named [rule_format, OF nth_mem] by simp
qed

lemma rows_length: "length (rows n pl w) = n"
  by (induction n arbitrary: pl w) simp_all

lemma rows_states:
  "sampling_ok pl w \<Longrightarrow> leafCount pl \<le> d \<Longrightarrow> d < columnCount pl \<Longrightarrow> m < n \<Longrightarrow>
   availability_of_code (rows n pl w ! m ! d) \<noteq> None"
proof (induction n arbitrary: pl w m)
  case 0
  then show ?case by simp
next
  case (Suc n)
  note n = next_plan_ok [OF Suc.prems(1)]
  show ?case
  proof (cases m)
    case 0
    with row_states [OF Suc.prems(1-3)] show ?thesis by simp
  next
    case (Suc k)
    with Suc.IH [OF n(1), of k] Suc.prems n(3,4) show ?thesis by simp
  qed
qed

lemma sampleRow_fills:
  assumes ok: "sampling_ok pl w" and len: "length buffer = columnCount pl * stride" and line: "line < stride"
  shows "\<exists>buffer'. sampleRow thunk pl w buffer stride line = Some (next_plan pl w, next_world pl w, buffer')
     \<and> length buffer' = length buffer
     \<and> (\<forall>c < columnCount pl. \<forall>r < stride. cell buffer' stride c r =
          (if r = line then row_of pl w ! c else cell buffer stride c r))"
proof -
  have fit: "readers_fit (pl_groups pl) w" and sh: "plan_shape pl" using ok by (simp_all add: sampling_ok_def)
  let ?s = "\<lparr>sk_cells = buffer, sk_leafCount = leafCount pl, sk_columnCount = columnCount pl,
             sk_stride = stride, sk_row = line, sk_index = 0, sk_disclosureWritten = False\<rparr>"
  have new: "new_sink buffer (leafCount pl) (columnCount pl) stride line = Some ?s"
    using line by (simp add: new_sink_def)
  have "sink_ok ?s" using line len by (simp add: sink_ok_def columnCount_def leafCount_def)
  from sample_groups_fills [OF fit this, of "leafCount pl"] sh obtain s' where
    s': "sample_groups thunk (pl_groups pl) w ?s = Some (action_groups advance (pl_groups pl) w, next_world pl w, s')"
    "sink_ok s'" "same_frame ?s s'" "sk_index s' = leafCount pl"
    "\<forall>c r. r < stride \<longrightarrow> at_row s' c r =
          (if r = line \<and> c < leafCount pl then action_points points advance (pl_groups pl) w ! c
           else if r = line \<and> leafCount pl \<le> c \<and> c < leafCount pl + length (pl_groups pl)
           then action_states state advance (pl_groups pl) w ! (c - leafCount pl)
           else cell buffer stride c r)"
    by (auto simp: plan_shape_def columnCount_def leafCount_def)
  have fr: "sk_leafCount s' = leafCount pl" "sk_columnCount s' = columnCount pl" "sk_stride s' = stride"
    using s'(3) by (simp_all add: same_frame_def)
  have lp: "length (action_points points advance (pl_groups pl) w) = leafCount pl"
    using action_keeps [OF fit] tiled_sum [of 0 "pl_groups pl" "leafCount pl"] sh by (simp add: plan_shape_def)
  have "cell (sk_cells s') stride c r = (if r = line then row_of pl w ! c else cell buffer stride c r)"
    if c: "c < columnCount pl" and r: "r < stride" for c r
  proof -
    have at: "cell (sk_cells s') stride c r = at_row s' c r" by (simp add: fr)
    show ?thesis
      unfolding at using s'(5) r c lp
      by (auto simp: action_row_def nth_append columnCount_def leafCount_def)
  qed
  moreover have "length (sk_cells s') = length buffer" using s'(2) len by (simp add: sink_ok_def fr)
  moreover have "sampleRow thunk pl w buffer stride line = Some (next_plan pl w, next_world pl w, sk_cells s')"
    by (simp add: sampleRow_def new s'(1,4) checkAction_def fr action_plan_def)
  ultimately show ?thesis by blast
qed

definition ring_state :: "u64 list list \<Rightarrow> recorder \<Rightarrow> 'r compiled \<Rightarrow> 'w \<Rightarrow> bool" where
  "ring_state H h co w \<longleftrightarrow> sampling_ok (co_plan co) w \<and> thread w = pl_boundThread (co_plan co)
     \<and> rc_arena h < length (co_arenas co) \<and> (\<exists>k. rc_capacity h = 2 ^ k)
     \<and> length (co_arenas co ! rc_arena h) = columnCount (co_plan co) * rc_capacity h
     \<and> rc_head h = length H \<and> rc_wrapped h = (rc_capacity h < length H)
     \<and> rc_dropped h = length H - rc_capacity h
     \<and> (\<forall>m < length H. length H \<le> m + rc_capacity h \<longrightarrow> (\<forall>c < columnCount (co_plan co).
          cell (co_arenas co ! rc_arena h) (rc_capacity h) c (m mod rc_capacity h) = H ! m ! c))"

lemma ring_sample_step:
  assumes "ring_state H h co w"
  shows "\<exists>h' co'. ring_sample thunk thread h co w = Some (h', co', next_world (co_plan co) w)
     \<and> ring_state (H @ [row_of (co_plan co) w]) h' co' (next_world (co_plan co) w)
     \<and> co_plan co' = next_plan (co_plan co) w \<and> rc_capacity h' = rc_capacity h \<and> rc_arena h' = rc_arena h"
proof -
  let ?pl = "co_plan co" and ?buf = "co_arenas co ! rc_arena h" and ?cap = "rc_capacity h"
  let ?n = "length H"
  have ok: "sampling_ok ?pl w" and th: "thread w = pl_boundThread ?pl" and ar: "rc_arena h < length (co_arenas co)"
    and len: "length ?buf = columnCount ?pl * ?cap" and hd: "rc_head h = ?n"
    and wr: "rc_wrapped h = (?cap < ?n)" and dr: "rc_dropped h = ?n - ?cap"
    and past: "\<And>m c. m < ?n \<Longrightarrow> ?n \<le> m + ?cap \<Longrightarrow> c < columnCount ?pl \<Longrightarrow> cell ?buf ?cap c (m mod ?cap) = H ! m ! c"
    using assms by (auto simp: ring_state_def)
  obtain k where cap: "?cap = 2 ^ k" using assms by (auto simp: ring_state_def)
  then have pos: "0 < ?cap" by simp
  have mask: "and ?n (?cap - Suc 0) = ?n mod ?cap" using and_mask_mod [of ?n k] by (simp add: cap)
  obtain buf' where b: "sampleRow thunk ?pl w ?buf ?cap (?n mod ?cap) = Some (next_plan ?pl w, next_world ?pl w, buf')"
    "length buf' = length ?buf"
    "\<forall>c < columnCount ?pl. \<forall>r < ?cap. cell buf' ?cap c r =
        (if r = ?n mod ?cap then row_of ?pl w ! c else cell ?buf ?cap c r)"
    using sampleRow_fills [OF ok len, of "?n mod ?cap"] pos by auto
  let ?co = "\<lparr>co_plan = next_plan ?pl w, co_arenas = (co_arenas co)[rc_arena h := buf']\<rparr>"
  let ?h = "h\<lparr>rc_head := Suc ?n, rc_wrapped := (?cap < Suc ?n), rc_dropped := Suc ?n - ?cap\<rparr>"
  have step: "ring_sample thunk thread h co w = Some (?h, ?co, next_world ?pl w)"
  proof -
    have point: "samplePoint thunk thread ?pl w ?buf ?cap (and ?n (?cap - 1)) ?n
        = Some (next_plan ?pl w, next_world ?pl w, buf', Suc ?n)"
      using th mask b(1) by (simp add: samplePoint_def)
    have "ringSampleCore thunk thread ?pl w ?buf ?cap ?n (rc_wrapped h) (rc_dropped h)
        = Some (next_plan ?pl w, next_world ?pl w, buf', Suc ?n, ?cap < Suc ?n, Suc ?n - ?cap)"
      unfolding ringSampleCore_def point using wr dr by (cases "?cap < Suc ?n") auto
    with ar show ?thesis by (simp add: ring_sample_def hd)
  qed
  have cells: "cell buf' ?cap c (m mod ?cap) = (H @ [row_of ?pl w]) ! m ! c"
    if m: "m < Suc ?n" "Suc ?n \<le> m + ?cap" and c: "c < columnCount ?pl" for m c
  proof (cases "m = ?n")
    case True
    with b(3) c pos show ?thesis by simp
  next
    case False
    with m(1) have mn: "m < ?n" by simp
    have "m mod ?cap \<noteq> ?n mod ?cap"
    proof
      assume "m mod ?cap = ?n mod ?cap"
      then have "?cap dvd ?n - m" using mn by (metis less_imp_le mod_eq_dvd_iff_nat)
      with mn have "?cap \<le> ?n - m" by (intro dvd_imp_le) simp_all
      with m(2) mn show False by simp
    qed
    with b(3) c pos past [OF mn _ c] m(2) mn show ?thesis by (simp add: nth_append)
  qed
  have "ring_state (H @ [row_of ?pl w]) ?h ?co (next_world ?pl w)"
    using next_plan_ok [OF ok] th ar cap len b(2) cells by (auto simp: ring_state_def)
  with step show ?thesis by (intro exI [of _ ?h] exI [of _ ?co]) simp
qed

lemma ring_run_fills:
  "ring_state H h co w \<Longrightarrow>
   \<exists>h' co' w'. ring_run thunk thread n h co w = Some (h', co', w')
     \<and> ring_state (H @ rows n (co_plan co) w) h' co' w' \<and> rc_capacity h' = rc_capacity h
     \<and> columnCount (co_plan co') = columnCount (co_plan co)
     \<and> pl_slots (co_plan co') = pl_slots (co_plan co) \<and> pl_byAddress (co_plan co') = pl_byAddress (co_plan co)"
proof (induction n arbitrary: H h co w)
  case 0
  then show ?case by simp
next
  case (Suc n)
  obtain h1 co1 where s1: "ring_sample thunk thread h co w = Some (h1, co1, next_world (co_plan co) w)"
    "ring_state (H @ [row_of (co_plan co) w]) h1 co1 (next_world (co_plan co) w)"
    "co_plan co1 = next_plan (co_plan co) w" "rc_capacity h1 = rc_capacity h"
    using ring_sample_step [OF Suc.prems] by blast
  have "sampling_ok (co_plan co) w" using Suc.prems by (simp add: ring_state_def)
  with Suc.IH [OF s1(2)] s1 show ?case by (simp add: next_plan_ok(4,6,7))
qed

definition hard_state :: "u64 list list \<Rightarrow> recorder \<Rightarrow> 'r compiled \<Rightarrow> 'w \<Rightarrow> bool" where
  "hard_state H h co w \<longleftrightarrow> sampling_ok (co_plan co) w \<and> thread w = pl_boundThread (co_plan co)
     \<and> rc_arena h < length (co_arenas co)
     \<and> length (co_arenas co ! rc_arena h) = columnCount (co_plan co) * rc_capacity h
     \<and> rc_head h = length H \<and> length H \<le> rc_capacity h \<and> \<not> rc_wrapped h \<and> rc_dropped h = 0
     \<and> (\<forall>m < length H. \<forall>c < columnCount (co_plan co).
          cell (co_arenas co ! rc_arena h) (rc_capacity h) c m = H ! m ! c)"

lemma hard_sample_full: "hard_state H h co w \<Longrightarrow> length H = rc_capacity h \<Longrightarrow> hard_sample thunk thread h co w = None"
  by (simp add: hard_state_def hard_sample_def hardStopSampleCore_def)

lemma hard_sample_step:
  assumes "hard_state H h co w" and room: "length H < rc_capacity h"
  shows "\<exists>h' co'. hard_sample thunk thread h co w = Some (h', co', next_world (co_plan co) w)
     \<and> hard_state (H @ [row_of (co_plan co) w]) h' co' (next_world (co_plan co) w)
     \<and> co_plan co' = next_plan (co_plan co) w \<and> rc_capacity h' = rc_capacity h"
proof -
  let ?pl = "co_plan co" and ?buf = "co_arenas co ! rc_arena h" and ?cap = "rc_capacity h" and ?n = "length H"
  have ok: "sampling_ok ?pl w" and th: "thread w = pl_boundThread ?pl" and ar: "rc_arena h < length (co_arenas co)"
    and len: "length ?buf = columnCount ?pl * ?cap" and hd: "rc_head h = ?n"
    using assms by (auto simp: hard_state_def)
  obtain buf' where b: "sampleRow thunk ?pl w ?buf ?cap ?n = Some (next_plan ?pl w, next_world ?pl w, buf')"
    "length buf' = length ?buf"
    "\<forall>c < columnCount ?pl. \<forall>r < ?cap. cell buf' ?cap c r = (if r = ?n then row_of ?pl w ! c else cell ?buf ?cap c r)"
    using sampleRow_fills [OF ok len room] by blast
  let ?co = "\<lparr>co_plan = next_plan ?pl w, co_arenas = (co_arenas co)[rc_arena h := buf']\<rparr>"
  let ?h = "h\<lparr>rc_head := Suc ?n\<rparr>"
  have step: "hard_sample thunk thread h co w = Some (?h, ?co, next_world ?pl w)"
    using ar th room by (auto simp: hard_sample_def hardStopSampleCore_def samplePoint_def hd b(1))
  have "hard_state (H @ [row_of ?pl w]) ?h ?co (next_world ?pl w)"
    using next_plan_ok [OF ok] assms b(2,3) room by (auto simp: hard_state_def nth_append less_Suc_eq)
  with step show ?thesis by (intro exI [of _ ?h] exI [of _ ?co]) simp
qed

lemma hard_run_fills:
  "hard_state H h co w \<Longrightarrow> length H + n \<le> rc_capacity h \<Longrightarrow>
   \<exists>h' co' w'. hard_run thunk thread n h co w = Some (h', co', w')
     \<and> hard_state (H @ rows n (co_plan co) w) h' co' w' \<and> rc_capacity h' = rc_capacity h
     \<and> columnCount (co_plan co') = columnCount (co_plan co)
     \<and> pl_slots (co_plan co') = pl_slots (co_plan co) \<and> pl_byAddress (co_plan co') = pl_byAddress (co_plan co)"
proof (induction n arbitrary: H h co w)
  case 0
  then show ?case by simp
next
  case (Suc n)
  obtain h1 co1 where s1: "hard_sample thunk thread h co w = Some (h1, co1, next_world (co_plan co) w)"
    "hard_state (H @ [row_of (co_plan co) w]) h1 co1 (next_world (co_plan co) w)"
    "co_plan co1 = next_plan (co_plan co) w" "rc_capacity h1 = rc_capacity h"
    using hard_sample_step [OF Suc.prems(1)] Suc.prems(2) by auto
  have "sampling_ok (co_plan co) w" using Suc.prems by (simp add: hard_state_def)
  with Suc.IH [OF s1(2)] s1 Suc.prems(2) show ?case by (simp add: next_plan_ok(4,6,7))
qed

lemma hard_run_over:
  "hard_state H h co w \<Longrightarrow> rc_capacity h < length H + n \<Longrightarrow> hard_run thunk thread n h co w = None"
proof (induction n arbitrary: H h co w)
  case 0
  then show ?case by (simp add: hard_state_def)
next
  case (Suc n)
  show ?case
  proof (cases "length H < rc_capacity h")
    case True
    from hard_sample_step [OF Suc.prems(1) True] Suc.IH [of "H @ [row_of (co_plan co) w]"] Suc.prems(2)
    show ?thesis by auto
  next
    case False
    with Suc.prems(1) have "length H = rc_capacity h" by (simp add: hard_state_def)
    with hard_sample_full [OF Suc.prems(1)] show ?thesis by simp
  qed
qed

lemma scope_runs:
  assumes ok: "sampling_ok pl w" and th: "thread w = pl_boundThread pl"
  shows "\<exists>sc1 sc2. scope_start thunk thread pl (new_scope pl) w = Some (next_plan pl w, sc1, next_world pl w)
     \<and> scope_finish thunk thread (next_plan pl w) sc1 (next_world pl w)
         = Some (next_plan (next_plan pl w) (next_world pl w), sc2, next_world (next_plan pl w) (next_world pl w))
     \<and> sc_started sc1 \<and> \<not> sc_finished sc1 \<and> sc_started sc2 \<and> sc_finished sc2 \<and> ra_count (scope_view sc2) = 2
     \<and> (\<forall>j < 2. \<forall>c < columnCount pl. cell (ra_columns (scope_view sc2)) (ra_stride (scope_view sc2)) c j = rows 2 pl w ! j ! c)"
proof -
  let ?w1 = "next_world pl w" and ?pl1 = "next_plan pl w"
  note n1 = next_plan_ok [OF ok]
  let ?b0 = "replicate (columnCount pl * 2) (0::u64)"
  obtain b1 where b1: "sampleRow thunk pl w ?b0 2 0 = Some (?pl1, ?w1, b1)" "length b1 = columnCount pl * 2"
    "\<forall>c < columnCount pl. \<forall>r < 2. cell b1 2 c r = (if r = 0 then row_of pl w ! c else cell ?b0 2 c r)"
    using sampleRow_fills [OF ok, of ?b0 2 0] by auto
  obtain b2 where b2: "sampleRow thunk ?pl1 ?w1 b1 2 1 = Some (next_plan ?pl1 ?w1, next_world ?pl1 ?w1, b2)"
    "\<forall>c < columnCount pl. \<forall>r < 2. cell b2 2 c r = (if r = 1 then row_of ?pl1 ?w1 ! c else cell b1 2 c r)"
    using sampleRow_fills [OF n1(1), of b1 2 1] b1(2) by (auto simp: n1(4))
  let ?sc1 = "\<lparr>sc_buffer = b1, sc_head = 1, sc_started = True, sc_finished = False\<rparr>"
  let ?sc2 = "\<lparr>sc_buffer = b2, sc_head = 2, sc_started = True, sc_finished = True\<rparr>"
  have "scope_start thunk thread pl (new_scope pl) w = Some (?pl1, ?sc1, ?w1)"
    using th b1(1) by (simp add: scope_start_def new_scope_def hardStopSampleCore_def samplePoint_def)
  moreover have "scope_finish thunk thread ?pl1 ?sc1 ?w1 = Some (next_plan ?pl1 ?w1, ?sc2, next_world ?pl1 ?w1)"
    using th n1(2,5) b2(1) by (simp add: scope_finish_def hardStopSampleCore_def samplePoint_def)
  moreover have "cell b2 2 c j = rows 2 pl w ! j ! c" if "j < 2" "c < columnCount pl" for j c
    using that b1(3) b2(2) by (auto simp: numeral_2_eq_2 less_Suc_eq)
  ultimately show ?thesis
    by (intro exI [of _ ?sc1] exI [of _ ?sc2]) (simp add: scope_view_def)
qed

end

lemma compiled_sampling_ok:
  assumes "reachable_tree s" and "compileCore (provider_open pf) (w_thread w) s tg exprs w = Some (Inr pl, w1)"
    and "world_fit w"
  shows "shipped_seam.sampling_ok pl w1" and "w_thread w1 = pl_boundThread pl"
proof -
  have wf: "tree_wf s" using assms(1) by (rule reachable_tree_wf)
  note fit = shipped_seam.compiled_readers_fit [OF wf assms(2,3)]
  note sh = compiled_shape [OF wf assms(2)]
  show "shipped_seam.sampling_ok pl w1" using fit sh by (simp add: shipped_seam.sampling_ok_def)
  show "w_thread w1 = pl_boundThread pl" using fit sh by simp
qed

lemma compiled_ring_run:
  assumes "reachable_tree s" and "compileCore (provider_open pf) (w_thread w) s tg exprs w = Some (Inr pl, w1)"
    and "world_fit w" and "ring_recorder capacity \<lparr>co_plan = pl, co_arenas = arenas\<rparr> = Inr (h, co)"
  obtains h' co' w' where "ring_run (window_read pf) w_thread n h co w1 = Some (h', co', w')"
    and "shipped_seam.ring_state (history (window_points pf) window_state window_advance n pl w1) h' co' w'"
    and "rc_capacity h' = capacity" and "columnCount (co_plan co') = columnCount pl"
    and "pl_slots (co_plan co') = pl_slots pl" and "pl_byAddress (co_plan co') = pl_byAddress pl"
proof -
  note ok = compiled_sampling_ok [OF assms(1-3)]
  have cap: "0 < capacity" "and capacity (capacity - 1) = 0"
    and h: "h = \<lparr>rc_arena = length arenas, rc_capacity = capacity, rc_head = 0, rc_wrapped = False, rc_dropped = 0\<rparr>"
    and co: "co = \<lparr>co_plan = pl, co_arenas = arenas @ [replicate (capacity * columnCount pl) 0]\<rparr>"
    using assms(4) by (auto simp: ring_recorder_def mint_def split: if_splits)
  have "shipped_seam.ring_state [] h co w1"
    using ok and_pred_zero [OF cap] cap(1) by (simp add: shipped_seam.ring_state_def h co mult.commute)
  from shipped_seam.ring_run_fills [OF this, of pf n] show ?thesis
    by (auto simp: h co intro: that)
qed

text \<open>
  C6. A ring recorder over a plan compiled from the shipped providers samples without end and retains
  the newest rows: after \<open>n\<close> samples its view holds \<open>min n capacity\<close> rows, counts the others as
  dropped, and logical row \<open>j\<close>, addressed as the folds address it, holds every column of sample
  \<open>dropped + j\<close>.
\<close>

theorem ring_recorder_retains_the_newest:
  assumes "reachable_tree s" and "compileCore (provider_open pf) (w_thread w) s tg exprs w = Some (Inr pl, w1)"
    and "world_fit w" and "ring_recorder capacity \<lparr>co_plan = pl, co_arenas = arenas\<rparr> = Inr (h, co)"
  shows "\<exists>h' co' w'. ring_run (window_read pf) w_thread n h co w1 = Some (h', co', w')
     \<and> ra_count (recorder_view h' co') = min n capacity
     \<and> ra_dropped (recorder_view h' co') = n - capacity
     \<and> ra_wrapped (recorder_view h' co') = (capacity < n)
     \<and> (\<forall>j < min n capacity. \<forall>c < columnCount pl.
          cell (ra_columns (recorder_view h' co')) capacity c (physical_row (recorder_view h' co') j)
            = history (window_points pf) window_state window_advance n pl w1 ! (n - capacity + j) ! c)"
proof -
  obtain h' co' w' where
    run: "ring_run (window_read pf) w_thread n h co w1 = Some (h', co', w')"
    and st: "shipped_seam.ring_state (history (window_points pf) window_state window_advance n pl w1) h' co' w'"
    and same: "rc_capacity h' = capacity" "columnCount (co_plan co') = columnCount pl"
    by (rule compiled_ring_run [OF assms])
  have len: "length (history (window_points pf) window_state window_advance n pl w1) = n"
    by (rule shipped_seam.rows_length)
  let ?v = "recorder_view h' co'"
  have v: "ra_count ?v = min n capacity" "ra_dropped ?v = n - capacity" "ra_wrapped ?v = (capacity < n)"
    "ra_stride ?v = capacity" "ra_columns ?v = co_arenas co' ! rc_arena h'"
    using st len same by (auto simp: recorder_view_def shipped_seam.ring_state_def min_def)
  have "cell (ra_columns ?v) capacity c (physical_row ?v j)
      = history (window_points pf) window_state window_advance n pl w1 ! (n - capacity + j) ! c"
    if j: "j < min n capacity" and c: "c < columnCount pl" for j c
  proof -
    have "physical_row ?v j = (n - capacity + j) mod capacity"
      using v j by (simp add: physical_row_def mod_add_left_eq)
    moreover have "n - capacity + j < n" "n \<le> n - capacity + j + capacity" using j by linarith+
    ultimately show ?thesis using st same len c v(5) by (simp add: shipped_seam.ring_state_def)
  qed
  with run v show ?thesis by blast
qed

text \<open>
  A hard-stop recorder over such a plan takes exactly its capacity of samples: within it every
  sample is kept in its own row, every column of it, and one sample more breaks the contract.
\<close>

theorem hard_stop_recorder_keeps_every_sample:
  assumes "reachable_tree s" and "compileCore (provider_open pf) (w_thread w) s tg exprs w = Some (Inr pl, w1)"
    and "world_fit w" and "hard_recorder capacity \<lparr>co_plan = pl, co_arenas = arenas\<rparr> = (h, co)"
  shows "case hard_run (window_read pf) w_thread n h co w1 of
       None \<Rightarrow> capacity < n
     | Some (h', co', w') \<Rightarrow> n \<le> capacity \<and> ra_count (recorder_view h' co') = n
         \<and> \<not> ra_wrapped (recorder_view h' co')
         \<and> (\<forall>j < n. \<forall>c < columnCount pl. cell (ra_columns (recorder_view h' co')) capacity c j
              = history (window_points pf) window_state window_advance n pl w1 ! j ! c)"
proof -
  note ok = compiled_sampling_ok [OF assms(1-3)]
  have h: "h = \<lparr>rc_arena = length arenas, rc_capacity = capacity, rc_head = 0, rc_wrapped = False, rc_dropped = 0\<rparr>"
    and co: "co = \<lparr>co_plan = pl, co_arenas = arenas @ [replicate (capacity * columnCount pl) 0]\<rparr>"
    using assms(4) by (auto simp: hard_recorder_def mint_def)
  have st: "shipped_seam.hard_state [] h co w1"
    using ok by (simp add: shipped_seam.hard_state_def h co mult.commute)
  show ?thesis
  proof (cases "n \<le> capacity")
    case True
    with shipped_seam.hard_run_fills [OF st, of n pf] obtain h' co' w' where
      run: "hard_run (window_read pf) w_thread n h co w1 = Some (h', co', w')"
      and st': "shipped_seam.hard_state (history (window_points pf) window_state window_advance n pl w1) h' co' w'"
      and same: "rc_capacity h' = capacity" "columnCount (co_plan co') = columnCount pl"
      by (auto simp: h co)
    have "length (history (window_points pf) window_state window_advance n pl w1) = n"
      by (induction n arbitrary: pl w1) simp_all
    with run st' same True show ?thesis
      by (auto simp: recorder_view_def shipped_seam.hard_state_def)
  next
    case False
    with shipped_seam.hard_run_over [OF st, of n pf] show ?thesis by (simp add: h)
  qed
qed

text \<open>
  A scope is a two-point window used once: starting and finishing a fresh scope records the two
  actions around the region, in order, and every other order of calls (finishing before starting,
  starting twice, finishing twice) breaks the contract.
\<close>

theorem scope_is_a_two_point_window:
  assumes "reachable_tree s" and "compileCore (provider_open pf) (w_thread w) s tg exprs w = Some (Inr pl, w1)"
    and "world_fit w"
  shows "scope_finish (window_read pf) w_thread pl (new_scope pl) w1 = None
     \<and> (\<exists>pl1 sc1 w2 pl2 sc2 w3.
          scope_start (window_read pf) w_thread pl (new_scope pl) w1 = Some (pl1, sc1, w2)
        \<and> scope_start (window_read pf) w_thread pl1 sc1 w2 = None
        \<and> scope_finish (window_read pf) w_thread pl1 sc1 w2 = Some (pl2, sc2, w3)
        \<and> scope_start (window_read pf) w_thread pl2 sc2 w3 = None
        \<and> scope_finish (window_read pf) w_thread pl2 sc2 w3 = None
        \<and> ra_count (scope_view sc2) = 2
        \<and> (\<forall>j < 2. \<forall>c < columnCount pl. cell (ra_columns (scope_view sc2)) (ra_stride (scope_view sc2)) c j
             = history (window_points pf) window_state window_advance 2 pl w1 ! j ! c))"
proof -
  note ok = compiled_sampling_ok [OF assms]
  have "scope_finish (window_read pf) w_thread pl (new_scope pl) w1 = None"
    by (simp add: scope_finish_def new_scope_def)
  moreover from shipped_seam.scope_runs [OF ok, of pf] obtain pl1 sc1 w2 pl2 sc2 w3 where
    "scope_start (window_read pf) w_thread pl (new_scope pl) w1 = Some (pl1, sc1, w2)"
    "scope_finish (window_read pf) w_thread pl1 sc1 w2 = Some (pl2, sc2, w3)"
    "sc_started sc1" "sc_started sc2" "sc_finished sc2" "ra_count (scope_view sc2) = 2"
    "\<forall>j < 2. \<forall>c < columnCount pl. cell (ra_columns (scope_view sc2)) (ra_stride (scope_view sc2)) c j
             = history (window_points pf) window_state window_advance 2 pl w1 ! j ! c"
    by blast
  moreover from this have "scope_start (window_read pf) w_thread pl1 sc1 w2 = None"
    "scope_start (window_read pf) w_thread pl2 sc2 w3 = None" "scope_finish (window_read pf) w_thread pl2 sc2 w3 = None"
    by (simp_all add: scope_start_def scope_finish_def)
  ultimately show ?thesis by blast
qed

subsection \<open>At the demonstration system\<close>

lemma demo_compiled_here:
  "compileCore (provider_open demo_platform) (w_thread demo_world) demo_system \<lparr>tg_kind = THREAD, tg_cpu = - 1\<rparr> [demo_expr] demo_world
     = Some (Inr (fst demo_plan), snd demo_plan)"
  using demo_compiles by (simp add: demo_world_def)

lemma demo_world_fit: "world_fit demo_world"
  by (simp add: world_fit_def demo_world_def demo_push_def demo_fake_def fake_wf_def om_wf_Cons)

definition demo_compiled :: "window compiled" where
  "demo_compiled = \<lparr>co_plan = fst demo_plan, co_arenas = []\<rparr>"

lemma demo_ring: "ring_recorder 2 \<lparr>co_plan = fst demo_plan, co_arenas = []\<rparr> = Inr (fst (mint 2 demo_compiled), snd (mint 2 demo_compiled))"
  by (simp add: ring_recorder_def demo_compiled_def)

theorem ring_recorder_retains_the_newest_witness:
  "\<exists>h' co' w'. ring_run (window_read demo_platform) w_thread 5 (fst (mint 2 demo_compiled)) (snd (mint 2 demo_compiled)) (snd demo_plan) = Some (h', co', w')
     \<and> ra_count (recorder_view h' co') = 2 \<and> ra_dropped (recorder_view h' co') = 3 \<and> ra_wrapped (recorder_view h' co')
     \<and> (\<forall>j < 2. \<forall>c < columnCount (fst demo_plan).
          cell (ra_columns (recorder_view h' co')) 2 c (physical_row (recorder_view h' co') j)
            = history (window_points demo_platform) window_state window_advance 5 (fst demo_plan) (snd demo_plan) ! (3 + j) ! c)"
  using ring_recorder_retains_the_newest [OF demo_reachable(1) demo_compiled_here demo_world_fit demo_ring, of 5] by simp

theorem hard_stop_recorder_keeps_every_sample_witness:
  "case hard_run (window_read demo_platform) w_thread 3 (fst (hard_recorder 2 demo_compiled)) (snd (hard_recorder 2 demo_compiled)) (snd demo_plan) of
       None \<Rightarrow> (2::nat) < 3
     | Some (h', co', w') \<Rightarrow> (3::nat) \<le> 2 \<and> ra_count (recorder_view h' co') = 3
         \<and> \<not> ra_wrapped (recorder_view h' co')
         \<and> (\<forall>j < 3. \<forall>c < columnCount (fst demo_plan). cell (ra_columns (recorder_view h' co')) 2 c j
              = history (window_points demo_platform) window_state window_advance 3 (fst demo_plan) (snd demo_plan) ! j ! c)"
  by (rule hard_stop_recorder_keeps_every_sample [OF demo_reachable(1) demo_compiled_here demo_world_fit, of 2 "[]"])
     (simp add: demo_compiled_def)

theorem scope_is_a_two_point_window_witness:
  "scope_finish (window_read demo_platform) w_thread (fst demo_plan) (new_scope (fst demo_plan)) (snd demo_plan) = None
     \<and> (\<exists>pl1 sc1 w2 pl2 sc2 w3.
          scope_start (window_read demo_platform) w_thread (fst demo_plan) (new_scope (fst demo_plan)) (snd demo_plan) = Some (pl1, sc1, w2)
        \<and> scope_start (window_read demo_platform) w_thread pl1 sc1 w2 = None
        \<and> scope_finish (window_read demo_platform) w_thread pl1 sc1 w2 = Some (pl2, sc2, w3)
        \<and> scope_start (window_read demo_platform) w_thread pl2 sc2 w3 = None
        \<and> scope_finish (window_read demo_platform) w_thread pl2 sc2 w3 = None
        \<and> ra_count (scope_view sc2) = 2
        \<and> (\<forall>j < 2. \<forall>c < columnCount (fst demo_plan). cell (ra_columns (scope_view sc2)) (ra_stride (scope_view sc2)) c j
             = history (window_points demo_platform) window_state window_advance 2 (fst demo_plan) (snd demo_plan) ! j ! c))"
  by (rule scope_is_a_two_point_window [OF demo_reachable(1) demo_compiled_here demo_world_fit])

end
