(* ===== verification/Fold.thy ===== *)
theory Fold
  imports Recorder
begin

text \<open>
  The folds of \<open>source/counters/fold.cpp\<close> over a recorded window: the value of a spine over leaf deltas
  modulo \<open>2 ^ 64\<close>, the gap state of the end points, the multiplex ratio, the raw view of a leaf, the
  pair folds, the scope metric and the fan-out fold.  \<open>None\<close> is a violated contract, a missing address
  (\<open>at\<close>), a read outside a buffer, or a cell of a disclosure column that names no enumerator.
\<close>

record 'r fold_context =
  fx_layout :: "'r plan"
  fx_rec :: recorder_api
  fx_i :: nat
  fx_j :: nat

definition point_at :: "recorder_api \<Rightarrow> nat \<Rightarrow> nat \<Rightarrow> u64 checked" where
  "point_at rec slot line =
     (let pos = slot * ra_stride rec + line
      in if pos < length (ra_columns rec) then Some (ra_columns rec ! pos) else None)"

text \<open>\<open>column[j] - column[i]\<close>, modulo \<open>2 ^ 64\<close>.\<close>

definition delta_of :: "'r fold_context \<Rightarrow> nat \<Rightarrow> u64 checked" where
  "delta_of fx slot =
     (case point_at (fx_rec fx) slot (fx_j fx) of
        None \<Rightarrow> None
      | Some b \<Rightarrow> map_option (\<lambda>a. b - a) (point_at (fx_rec fx) slot (fx_i fx)))"

definition leaf_delta :: "'r fold_context \<Rightarrow> leaf_core \<Rightarrow> binary64 option" where
  "leaf_delta fx l =
     (case om_find (pl_byAddress (fx_layout fx)) (address l) of
        None \<Rightarrow> None
      | Some slot \<Rightarrow> map_option of_u64 (delta_of fx slot))"

definition eval_fold :: "'r fold_context \<Rightarrow> expr_core \<Rightarrow> int \<Rightarrow> binary64 checked" where
  "eval_fold fx c index = eval_spine (leaf_delta fx) c (length (nodes c)) index"

definition sameDouble :: "binary64 \<Rightarrow> binary64 \<Rightarrow> bool" where
  "sameDouble a b \<longleftrightarrow> a = b"

definition carriesScale :: "expr_core \<Rightarrow> bool" where
  "carriesScale c \<longleftrightarrow> list_ex (\<lambda>n. \<not> sameDouble (scale n) one64) (nodes c)"

fun leafSign_fuel :: "expr_core \<Rightarrow> nat \<Rightarrow> int \<Rightarrow> int \<Rightarrow> int \<Rightarrow> int checked" where
  "leafSign_fuel c 0 nodeIndex targetLeaf sign = None"
| "leafSign_fuel c (Suc fuel) nodeIndex targetLeaf sign =
     (if nodeIndex < 0 \<or> nat nodeIndex \<ge> length (nodes c) then None
      else
        let node = nodes c ! nat nodeIndex
        in if kind node = 0 then Some (if leaf node = targetLeaf then sign else 0)
           else if kind node = 4 then leafSign_fuel c fuel (left node) targetLeaf sign
           else
             (case leafSign_fuel c fuel (left node) targetLeaf sign of
                None \<Rightarrow> None
              | Some l \<Rightarrow>
                  map_option (\<lambda>r. l + r)
                    (leafSign_fuel c fuel (right node) targetLeaf (if kind node = 3 then - sign else sign))))"

definition leafSign :: "expr_core \<Rightarrow> int \<Rightarrow> int \<Rightarrow> int \<Rightarrow> int checked" where
  "leafSign c nodeIndex targetLeaf sign = leafSign_fuel c (length (nodes c)) nodeIndex targetLeaf sign"

fun group_column :: "'r read_group list \<Rightarrow> nat \<Rightarrow> nat option" where
  "group_column [] sl = None"
| "group_column (g # gs) sl =
     (if sl < rg_offset g + rg_count g then Some (rg_disclosureSlot g) else group_column gs sl)"

definition disclosureSlotFor :: "'r fold_context \<Rightarrow> nat \<Rightarrow> nat" where
  "disclosureSlotFor fx sl =
     (case group_column (pl_groups (fx_layout fx)) sl of
        Some d \<Rightarrow> d
      | None \<Rightarrow> pl_disclosureSlot (fx_layout fx))"

definition leafRatio :: "'r fold_context \<Rightarrow> nat \<Rightarrow> binary64 option checked" where
  "leafRatio fx sl =
     (if sl \<ge> leafCount (fx_layout fx) then None
      else
        case sl_ratioEnabled (pl_slots (fx_layout fx) ! sl) of
          None \<Rightarrow> Some None
        | Some en \<Rightarrow>
            (case sl_ratioRunning (pl_slots (fx_layout fx) ! sl) of
               None \<Rightarrow> None
             | Some ru \<Rightarrow>
                 (case delta_of fx en of
                    None \<Rightarrow> None
                  | Some elapsed \<Rightarrow>
                      if elapsed = 0 then Some None
                      else map_option (\<lambda>ran. Some (ddiv (of_u64 ran) (of_u64 elapsed))) (delta_of fx ru))))"

record ratio_result =
  rr_ratio :: binary64
  rr_multiplexed :: bool

fun window_ratio_loop ::
  "'r fold_context \<Rightarrow> expr_core \<Rightarrow> nat \<Rightarrow> leaf_core list \<Rightarrow> ratio_result \<Rightarrow> ratio_result checked" where
  "window_ratio_loop fx c index [] out = Some out"
| "window_ratio_loop fx c index (l # ls) out =
     (case om_find (pl_byAddress (fx_layout fx)) (address l) of
        None \<Rightarrow> None
      | Some sl \<Rightarrow>
          (case leafRatio fx sl of
             None \<Rightarrow> None
           | Some None \<Rightarrow> window_ratio_loop fx c (index + 1) ls out
           | Some (Some one) \<Rightarrow>
               (case leafSign c (root c) (int index) 1 of
                  None \<Rightarrow> None
                | Some sign \<Rightarrow>
                    let out1 = (if sign \<noteq> 0
                          then out\<lparr>rr_ratio := dmul (rr_ratio out) (if sign > 0 then one else ddiv one64 one)\<rparr>
                          else out);
                        out2 = (if dless one one64 then out1\<lparr>rr_multiplexed := True\<rparr> else out1)
                    in window_ratio_loop fx c (index + 1) ls out2)))"

definition windowRatio :: "'r fold_context \<Rightarrow> expr_core \<Rightarrow> ratio_result checked" where
  "windowRatio fx c = window_ratio_loop fx c 0 (leaves c) \<lparr>rr_ratio = one64, rr_multiplexed = False\<rparr>"

definition endPointState :: "'r fold_context \<Rightarrow> nat \<Rightarrow> nat \<Rightarrow> availability checked" where
  "endPointState fx line sl =
     (case point_at (fx_rec fx) (disclosureSlotFor fx sl) line of
        None \<Rightarrow> None
      | Some w \<Rightarrow> availability_of_code w)"

fun any_gap :: "'r fold_context \<Rightarrow> leaf_core list \<Rightarrow> bool checked" where
  "any_gap fx [] = Some False"
| "any_gap fx (l # ls) =
     (case om_find (pl_byAddress (fx_layout fx)) (address l) of
        None \<Rightarrow> None
      | Some sl \<Rightarrow>
          (case endPointState fx (fx_i fx) sl of
             None \<Rightarrow> None
           | Some a \<Rightarrow>
               if a = GAP then Some True
               else
                 (case endPointState fx (fx_j fx) sl of
                    None \<Rightarrow> None
                  | Some b \<Rightarrow> if b = GAP then Some True else any_gap fx ls)))"

definition windowIsGap :: "'r fold_context \<Rightarrow> expr_core \<Rightarrow> bool checked" where
  "windowIsGap fx c = any_gap fx (leaves c)"

fun pushes_grow :: "'r fold_context \<Rightarrow> leaf_core list \<Rightarrow> unit checked" where
  "pushes_grow fx [] = Some ()"
| "pushes_grow fx (l # ls) =
     (if leaf_mode l \<noteq> PUSH_LOAD then pushes_grow fx ls
      else
        case om_find (pl_byAddress (fx_layout fx)) (address l) of
          None \<Rightarrow> None
        | Some sl \<Rightarrow>
            (case point_at (fx_rec fx) sl (fx_j fx) of
               None \<Rightarrow> None
             | Some b \<Rightarrow>
                 (case point_at (fx_rec fx) sl (fx_i fx) of
                    None \<Rightarrow> None
                  | Some a \<Rightarrow> if a \<le> b then pushes_grow fx ls else None)))"

definition gap_result :: metric_result where
  "gap_result = \<lparr>fold_value = zero64, runningRatio = one64, result_availability = GAP, result_scaled = False\<rparr>"

definition fold_measured :: "'r fold_context \<Rightarrow> expr_core \<Rightarrow> metric_result checked" where
  "fold_measured fx c =
     (case windowRatio fx c of
        None \<Rightarrow> None
      | Some disclosure \<Rightarrow>
          if leaves c = [] then None
          else
            (case om_find (pl_byAddress (fx_layout fx)) (address (hd (leaves c))) of
               None \<Rightarrow> None
             | Some rootSlot \<Rightarrow>
                 (case eval_fold fx c (root c) of
                    None \<Rightarrow> None
                  | Some v \<Rightarrow>
                      map_option (\<lambda>state. \<lparr>fold_value = v, runningRatio = rr_ratio disclosure,
                          result_availability = state,
                          result_scaled = rr_multiplexed disclosure \<or> carriesScale c\<rparr>)
                        (endPointState fx (fx_j fx) rootSlot))))"

definition fold_context_of :: "'r plan \<Rightarrow> recorder_api \<Rightarrow> nat \<Rightarrow> nat \<Rightarrow> 'r fold_context" where
  "fold_context_of pl rec i j =
     \<lparr>fx_layout = pl, fx_rec = rec, fx_i = physical_row rec i, fx_j = physical_row rec j\<rparr>"

definition foldCore :: "'r plan \<Rightarrow> expr_core \<Rightarrow> recorder_api \<Rightarrow> nat \<Rightarrow> nat \<Rightarrow> metric_result checked" where
  "foldCore pl c rec i j =
     (if \<not> (i < j \<and> j < ra_count rec) then None
      else if core_empty c then Some default_result
      else
        let fx = fold_context_of pl rec i j
        in case pushes_grow fx (leaves c) of
             None \<Rightarrow> None
           | Some _ \<Rightarrow>
               (case windowIsGap fx c of
                  None \<Rightarrow> None
                | Some True \<Rightarrow> Some gap_result
                | Some False \<Rightarrow> fold_measured fx c))"

subsection \<open>The folds over a whole window\<close>

definition fold_first_last :: "'r plan \<Rightarrow> expr_core \<Rightarrow> recorder_api \<Rightarrow> metric_result checked" where
  "fold_first_last pl c rec =
     (if ra_count rec < 2 then None else foldCore pl c rec 0 (ra_count rec - 1))"

fun fold_pairs_from :: "'r plan \<Rightarrow> expr_core \<Rightarrow> recorder_api \<Rightarrow> nat \<Rightarrow> nat \<Rightarrow> metric_result list checked" where
  "fold_pairs_from pl c rec k 0 = Some []"
| "fold_pairs_from pl c rec k (Suc n) =
     (case foldCore pl c rec k (k + 1) of
        None \<Rightarrow> None
      | Some r \<Rightarrow> map_option (Cons r) (fold_pairs_from pl c rec (k + 1) n))"

definition foldPairsCore :: "'r plan \<Rightarrow> expr_core \<Rightarrow> recorder_api \<Rightarrow> metric_result list checked" where
  "foldPairsCore pl c rec =
     (if ra_count rec < 2 then None else fold_pairs_from pl c rec 0 (ra_count rec - 1))"

definition metricCore :: "'r plan \<Rightarrow> scope \<Rightarrow> expr_core \<Rightarrow> metric_result checked" where
  "metricCore pl sc c =
     (if sc_started sc \<and> sc_finished sc then foldCore pl c (scope_view sc) 0 1 else None)"

record points_view =
  pv_objectPath :: string
  pv_name :: string
  pv_description :: string
  pv_unit :: string
  pv_slot :: nat
  pv_points :: "u64 list"
  pv_count :: nat
  pv_ratio :: binary64
  pv_availability :: availability

text \<open>The pointer \<open>points\<close> is the buffer from the column's base on.\<close>

definition rawCore ::
  "'r plan \<Rightarrow> expr_core \<Rightarrow> recorder_api \<Rightarrow> string \<Rightarrow> string \<Rightarrow> points_view expected checked" where
  "rawCore pl c rec objectPath leafName =
     (let addr = objectPath @ ''/'' @ leafName
      in case List.find (\<lambda>l. address l = addr) (leaves c) of
           None \<Rightarrow> Some (Inl (plain_error (''expression does not contain leaf '' @ quoted addr)))
         | Some l \<Rightarrow>
             (case om_find (pl_byAddress pl) addr of
                None \<Rightarrow> None
              | Some sl \<Rightarrow>
                  let oldest = (if ra_wrapped rec then ra_dropped rec mod ra_stride rec else 0);
                      fx = \<lparr>fx_layout = pl, fx_rec = rec, fx_i = oldest,
                            fx_j = (if ra_wrapped rec then (oldest + ra_stride rec - 1) mod ra_stride rec
                                    else if ra_count rec = 0 then 0 else ra_count rec - 1)\<rparr>
                  in case endPointState fx (fx_j fx) sl of
                       None \<Rightarrow> None
                     | Some state \<Rightarrow>
                         map_option (\<lambda>ratio. Inr \<lparr>pv_objectPath = objectPath, pv_name = leaf_name l,
                              pv_description = leaf_description l, pv_unit = leaf_unit l, pv_slot = sl,
                              pv_points = drop (sl * ra_stride rec) (ra_columns rec), pv_count = ra_count rec,
                              pv_ratio = ratio, pv_availability = state\<rparr>)
                           (if state = GAP then Some one64
                            else map_option (\<lambda>r. case r of None \<Rightarrow> one64 | Some x \<Rightarrow> x) (leafRatio fx sl))))"

fun fanout_folds :: "'r plan \<Rightarrow> expr_core \<Rightarrow> recorder_api \<Rightarrow> string list \<Rightarrow> (string \<times> metric_result) list checked" where
  "fanout_folds pl c rec [] = Some []"
| "fanout_folds pl c rec (path # paths) =
     (case (if ra_count rec = 0 then None else foldCore pl (instantiateCore c path) rec 0 (ra_count rec - 1)) of
        None \<Rightarrow> None
      | Some m \<Rightarrow> map_option (Cons (path, m)) (fanout_folds pl c rec paths))"

definition fanoutFoldCore :: "'r fanout \<Rightarrow> expr_core \<Rightarrow> recorder_api \<Rightarrow> (string \<times> metric_result) list checked" where
  "fanoutFoldCore fan c rec = fanout_folds (fan_inner fan) c rec (fan_paths fan)"

subsection \<open>Windows a fold can read\<close>

definition window_ok :: "'r plan \<Rightarrow> recorder_api \<Rightarrow> bool" where
  "window_ok pl rec \<longleftrightarrow> plan_shape pl \<and> length (ra_columns rec) = columnCount pl * ra_stride rec
     \<and> ra_count rec \<le> ra_stride rec
     \<and> (\<forall>d r. leafCount pl \<le> d \<and> d < columnCount pl \<and> r < ra_count rec \<longrightarrow>
          availability_of_code (cell (ra_columns rec) (ra_stride rec) d (physical_row rec r)) \<noteq> None)"

definition operands_ok :: "expr_core \<Rightarrow> bool" where
  "operands_ok c \<longleftrightarrow> (\<forall>n \<in> set (nodes c). kind n = 4 \<longrightarrow> 0 \<le> left n)"

text \<open>The enabled and running columns of a slot are linked together or not at all.\<close>

definition pair_ok :: "'r plan \<Rightarrow> nat \<Rightarrow> bool" where
  "pair_ok pl sl \<longleftrightarrow>
     (case sl_ratioEnabled (pl_slots pl ! sl) of
        None \<Rightarrow> True
      | Some en \<Rightarrow> en < leafCount pl \<and> (\<exists>ru < leafCount pl. sl_ratioRunning (pl_slots pl ! sl) = Some ru))"

definition leaf_ready :: "'r fold_context \<Rightarrow> leaf_core \<Rightarrow> bool" where
  "leaf_ready fx l \<longleftrightarrow>
     (\<exists>sl. om_find (pl_byAddress (fx_layout fx)) (address l) = Some sl \<and> pair_ok (fx_layout fx) sl
        \<and> (leaf_mode l = PUSH_LOAD \<longrightarrow>
             cell (ra_columns (fx_rec fx)) (ra_stride (fx_rec fx)) sl (fx_i fx)
               \<le> cell (ra_columns (fx_rec fx)) (ra_stride (fx_rec fx)) sl (fx_j fx)))"

definition fold_ready :: "'r plan \<Rightarrow> recorder_api \<Rightarrow> nat \<Rightarrow> nat \<Rightarrow> expr_core \<Rightarrow> bool" where
  "fold_ready pl rec i j c \<longleftrightarrow> spine_wf c \<and> nodes c \<noteq> [] \<and> operands_ok c
     \<and> (\<forall>l \<in> set (leaves c). leaf_ready (fold_context_of pl rec i j) l)"

lemma physical_row_bound:
  "i < ra_count rec \<Longrightarrow> ra_count rec \<le> ra_stride rec \<Longrightarrow> physical_row rec i < ra_stride rec"
  by (simp add: physical_row_def)

lemma point_at_cell:
  assumes "window_ok pl rec" and "sl < columnCount pl" and "line < ra_stride rec"
  shows "point_at rec sl line = Some (cell (ra_columns rec) (ra_stride rec) sl line)"
  using cell_position [OF assms(3,2)] assms(1) by (simp add: point_at_def cell_def window_ok_def)

definition fold_window :: "'r plan \<Rightarrow> recorder_api \<Rightarrow> nat \<Rightarrow> nat \<Rightarrow> bool" where
  "fold_window pl rec i j \<longleftrightarrow> window_ok pl rec \<and> i < j \<and> j < ra_count rec"

lemma fold_context_simps [simp]:
  "fx_layout (fold_context_of pl rec i j) = pl" "fx_rec (fold_context_of pl rec i j) = rec"
  "fx_i (fold_context_of pl rec i j) = physical_row rec i" "fx_j (fold_context_of pl rec i j) = physical_row rec j"
  by (simp_all add: fold_context_of_def)

lemma window_lines:
  assumes "fold_window pl rec i j"
  shows "physical_row rec i < ra_stride rec" and "physical_row rec j < ra_stride rec"
  using assms by (auto simp: fold_window_def window_ok_def intro!: physical_row_bound)

lemma window_rows: "fold_window pl rec i j \<Longrightarrow> i < ra_count rec" "fold_window pl rec i j \<Longrightarrow> j < ra_count rec"
  by (auto simp: fold_window_def)

lemma slot_bound: "window_ok pl rec \<Longrightarrow> om_find (pl_byAddress pl) a = Some sl \<Longrightarrow> sl < leafCount pl"
  by (auto simp: window_ok_def plan_shape_def)

lemma leaf_column: "sl < leafCount pl \<Longrightarrow> sl < columnCount pl"
  by (simp add: columnCount_def leafCount_def)

lemma delta_at:
  assumes fw: "fold_window pl rec i j" and sl: "sl < leafCount pl"
  shows "delta_of (fold_context_of pl rec i j) sl =
     Some (cell (ra_columns rec) (ra_stride rec) sl (physical_row rec j)
           - cell (ra_columns rec) (ra_stride rec) sl (physical_row rec i))"
  using fw window_lines [OF fw] point_at_cell [OF _ leaf_column [OF sl]]
  by (simp add: delta_of_def fold_window_def)

lemma tiled_column:
  "tiled k (map (\<lambda>g. (rg_offset g, rg_count g)) gs) e \<Longrightarrow> k \<le> sl \<Longrightarrow> sl < e \<Longrightarrow>
   (\<forall>n < length gs. rg_disclosureSlot (gs ! n) = d + n) \<Longrightarrow>
   \<exists>n < length gs. group_column gs sl = Some (d + n)"
proof (induction gs arbitrary: k d)
  case Nil
  then show ?case by simp
next
  case (Cons g gs)
  show ?case
  proof (cases "sl < rg_offset g + rg_count g")
    case True
    with Cons.prems(4) show ?thesis by auto
  next
    case False
    have "\<forall>n < length gs. rg_disclosureSlot (gs ! n) = Suc d + n"
      using Cons.prems(4) by (metis Suc_mono add_Suc_shift length_Cons nth_Cons_Suc)
    with Cons.IH [of "k + rg_count g" "Suc d"] Cons.prems(1,3) False
    obtain n where "n < length gs" "group_column gs sl = Some (Suc d + n)" by auto
    with False show ?thesis by (intro exI [of _ "Suc n"]) simp
  qed
qed

text \<open>The column a leaf's disclosure is read from is that of a group, past the leaves.\<close>

lemma disclosure_column:
  assumes "plan_shape pl" and "sl < leafCount pl"
  shows "leafCount pl \<le> disclosureSlotFor (fold_context_of pl rec i j) sl"
    and "disclosureSlotFor (fold_context_of pl rec i j) sl < columnCount pl"
proof -
  obtain n where "n < length (pl_groups pl)" "group_column (pl_groups pl) sl = Some (leafCount pl + n)"
    using tiled_column [of 0 "pl_groups pl" "leafCount pl" sl "leafCount pl"] assms
    by (auto simp: plan_shape_def)
  then show "leafCount pl \<le> disclosureSlotFor (fold_context_of pl rec i j) sl"
    "disclosureSlotFor (fold_context_of pl rec i j) sl < columnCount pl"
    by (simp_all add: disclosureSlotFor_def columnCount_def leafCount_def)
qed

lemma endPointState_total:
  assumes w: "window_ok pl rec" and sl: "sl < leafCount pl" and r: "r < ra_count rec"
  shows "endPointState (fold_context_of pl rec i j) (physical_row rec r) sl \<noteq> None"
proof -
  have line: "physical_row rec r < ra_stride rec" using w r by (auto simp: window_ok_def intro!: physical_row_bound)
  have "plan_shape pl" using w by (simp add: window_ok_def)
  note d = disclosure_column [OF this sl, of rec i j]
  have "availability_of_code (cell (ra_columns rec) (ra_stride rec) (disclosureSlotFor (fold_context_of pl rec i j) sl)
      (physical_row rec r)) \<noteq> None" using w d r by (simp add: window_ok_def)
  then show ?thesis by (simp add: endPointState_def point_at_cell [OF w d(2) line])
qed

text \<open>A gap of a leaf: its group disclosed one at either end point of the window.\<close>

definition leaf_gap :: "'r plan \<Rightarrow> recorder_api \<Rightarrow> nat \<Rightarrow> nat \<Rightarrow> leaf_core \<Rightarrow> bool" where
  "leaf_gap pl rec i j l \<longleftrightarrow>
     (case om_find (pl_byAddress pl) (address l) of
        None \<Rightarrow> False
      | Some sl \<Rightarrow>
          endPointState (fold_context_of pl rec i j) (physical_row rec i) sl = Some GAP
          \<or> endPointState (fold_context_of pl rec i j) (physical_row rec j) sl = Some GAP)"

lemma any_gap_iff:
  assumes fw: "fold_window pl rec i j"
  shows "\<forall>l \<in> set ls. om_find (pl_byAddress pl) (address l) \<noteq> None \<Longrightarrow>
    any_gap (fold_context_of pl rec i j) ls = Some (\<exists>l \<in> set ls. leaf_gap pl rec i j l)"
proof (induction ls)
  case Nil
  then show ?case by simp
next
  case (Cons l ls)
  then obtain sl where sl: "om_find (pl_byAddress pl) (address l) = Some sl" by auto
  have w: "window_ok pl rec" using fw by (simp add: fold_window_def)
  obtain a where a: "endPointState (fold_context_of pl rec i j) (physical_row rec i) sl = Some a"
    using endPointState_total [OF w slot_bound [OF w sl] window_rows(1) [OF fw]] by blast
  obtain b where b: "endPointState (fold_context_of pl rec i j) (physical_row rec j) sl = Some b"
    using endPointState_total [OF w slot_bound [OF w sl] window_rows(2) [OF fw]] by blast
  have "leaf_gap pl rec i j l \<longleftrightarrow> a = GAP \<or> b = GAP" by (simp add: leaf_gap_def sl a b)
  with Cons sl a b show ?case by auto
qed

lemma pushes_grow_ok:
  assumes fw: "fold_window pl rec i j"
  shows "\<forall>l \<in> set ls. leaf_ready (fold_context_of pl rec i j) l \<Longrightarrow> pushes_grow (fold_context_of pl rec i j) ls = Some ()"
proof (induction ls)
  case Nil
  then show ?case by simp
next
  case (Cons l ls)
  have w: "window_ok pl rec" using fw by (simp add: fold_window_def)
  from Cons.prems obtain sl where sl: "om_find (pl_byAddress pl) (address l) = Some sl"
    "leaf_mode l = PUSH_LOAD \<longrightarrow> cell (ra_columns rec) (ra_stride rec) sl (physical_row rec i)
        \<le> cell (ra_columns rec) (ra_stride rec) sl (physical_row rec j)"
    by (auto simp: leaf_ready_def)
  note b = leaf_column [OF slot_bound [OF w sl(1)]]
  show ?case
    using Cons sl point_at_cell [OF w b window_lines(1) [OF fw]] point_at_cell [OF w b window_lines(2) [OF fw]] by simp
qed

lemma leafRatio_ok:
  assumes fw: "fold_window pl rec i j" and "sl < leafCount pl" and "pair_ok pl sl"
  shows "leafRatio (fold_context_of pl rec i j) sl \<noteq> None"
  using assms(2,3) delta_at [OF fw] by (auto simp: leafRatio_def pair_ok_def split: option.splits)

lemma leafSign_total:
  assumes wf: "nodes_wf (length (leaves c)) 0 (nodes c)" and op: "operands_ok c"
  shows "0 \<le> index \<Longrightarrow> index < int f \<Longrightarrow> nat index < length (nodes c) \<Longrightarrow> leafSign_fuel c f index t s \<noteq> None"
proof (induction f arbitrary: index s)
  case 0
  then show ?case by simp
next
  case (Suc f)
  let ?n = "nodes c ! nat index"
  have n: "node_wf (length (leaves c)) (nat index) ?n" using wf Suc.prems by (simp add: nodes_wf_def)
  have four: "kind ?n = 4 \<longrightarrow> 0 \<le> left ?n" using op Suc.prems by (simp add: operands_ok_def)
  have child: "leafSign_fuel c f k t s' \<noteq> None" if "0 \<le> k" "k < int (nat index)" for k s'
    using that Suc.prems by (intro Suc.IH) auto
  note lt = node_wf_child [OF n]
  have l: "kind ?n \<noteq> 0 \<Longrightarrow> leafSign_fuel c f (left ?n) t s' \<noteq> None" for s'
    using n four lt(1) by (intro child) (auto simp: node_wf_def)
  have r: "kind ?n \<noteq> 0 \<Longrightarrow> kind ?n \<noteq> 4 \<Longrightarrow> leafSign_fuel c f (right ?n) t s' \<noteq> None" for s'
    using n lt(2) by (intro child) (auto simp: node_wf_def)
  show ?case
  proof (cases "kind ?n = 0 \<or> kind ?n = 4")
    case True
    with Suc.prems l [of s] show ?thesis by (auto simp: Let_def)
  next
    case False
    obtain x where x: "leafSign_fuel c f (left ?n) t s = Some x" using l [of s] False by auto
    obtain y where y: "leafSign_fuel c f (right ?n) t (if kind ?n = 3 then - s else s) = Some y"
      using r [of "if kind ?n = 3 then - s else s"] False
      by (cases "leafSign_fuel c f (right ?n) t (if kind ?n = 3 then - s else s)") auto
    from False Suc.prems x y show ?thesis by (simp add: Let_def)
  qed
qed

lemma window_ratio_total:
  assumes fw: "fold_window pl rec i j" and "spine_wf c" and "nodes c \<noteq> []" and "operands_ok c"
  shows "\<forall>l \<in> set ls. leaf_ready (fold_context_of pl rec i j) l \<Longrightarrow>
    window_ratio_loop (fold_context_of pl rec i j) c k ls out \<noteq> None"
proof (induction ls arbitrary: k out)
  case Nil
  then show ?case by simp
next
  case (Cons l ls)
  have w: "window_ok pl rec" using fw by (simp add: fold_window_def)
  from Cons.prems obtain sl where sl: "om_find (pl_byAddress pl) (address l) = Some sl" "pair_ok pl sl"
    by (auto simp: leaf_ready_def)
  obtain one where ratio: "leafRatio (fold_context_of pl rec i j) sl = Some one"
    using leafRatio_ok [OF fw slot_bound [OF w sl(1)] sl(2)] by blast
  note rb = root_bounds [OF assms(3)]
  have "leafSign c (root c) (int k) 1 \<noteq> None"
    unfolding leafSign_def using assms rb by (intro leafSign_total) (auto simp: spine_wf_def)
  then obtain sign where sign: "leafSign c (root c) (int k) 1 = Some sign" by blast
  have rest: "window_ratio_loop (fold_context_of pl rec i j) c k' ls out' \<noteq> None" for k' out'
    using Cons by simp
  show ?case
    using rest by (cases one) (simp_all add: sl(1) ratio sign Let_def)
qed

lemma eval_fold_total:
  assumes fw: "fold_window pl rec i j" and "spine_wf c" and "nodes c \<noteq> []"
    and ready: "\<forall>l \<in> set (leaves c). leaf_ready (fold_context_of pl rec i j) l"
  shows "eval_fold (fold_context_of pl rec i j) c (root c) \<noteq> None"
proof -
  have w: "window_ok pl rec" using fw by (simp add: fold_window_def)
  have "leaf_delta (fold_context_of pl rec i j) l \<noteq> None" if l: "l \<in> set (leaves c)" for l
  proof -
    obtain sl where "om_find (pl_byAddress pl) (address l) = Some sl"
      using ready l by (auto simp: leaf_ready_def)
    with delta_at [OF fw slot_bound [OF w this]] show ?thesis by (simp add: leaf_delta_def)
  qed
  moreover note rb = root_bounds [OF assms(3)]
  ultimately show ?thesis
    unfolding eval_fold_def using assms(2) by (intro eval_spine_total) (auto simp: spine_wf_def)
qed

lemma leaves_nonempty:
  assumes "spine_wf c" and "nodes c \<noteq> []" and "operands_ok c"
  shows "leaves c \<noteq> []"
proof
  assume "leaves c = []"
  moreover have "node_wf (length (leaves c)) 0 (nodes c ! 0)"
    using assms(1,2) by (simp add: spine_wf_def nodes_wf_def)
  moreover have "kind (nodes c ! 0) = 4 \<longrightarrow> 0 \<le> left (nodes c ! 0)"
    using assms(2,3) by (simp add: operands_ok_def)
  ultimately show False by (cases "kind (nodes c ! 0) = 0") (auto simp: node_wf_def)
qed

lemma fold_ready_result:
  assumes fw: "fold_window pl rec i j" and ready: "fold_ready pl rec i j c"
  shows "if \<exists>l \<in> set (leaves c). leaf_gap pl rec i j l then foldCore pl c rec i j = Some gap_result
    else \<exists>r. foldCore pl c rec i j = Some r \<and> eval_root (leaf_delta (fold_context_of pl rec i j)) c = Some (fold_value r)
       \<and> result_availability r \<noteq> GAP \<and> (\<exists>d. windowRatio (fold_context_of pl rec i j) c = Some d
            \<and> runningRatio r = rr_ratio d \<and> result_scaled r = (rr_multiplexed d \<or> carriesScale c))"
proof -
  let ?fx = "fold_context_of pl rec i j"
  have w: "window_ok pl rec" using fw by (simp add: fold_window_def)
  have c: "spine_wf c" "nodes c \<noteq> []" "operands_ok c" and l: "\<forall>l \<in> set (leaves c). leaf_ready ?fx l"
    using ready by (simp_all add: fold_ready_def)
  have found: "\<forall>l \<in> set (leaves c). om_find (pl_byAddress pl) (address l) \<noteq> None"
    using l by (auto simp: leaf_ready_def)
  have start: "foldCore pl c rec i j = (case windowIsGap ?fx c of None \<Rightarrow> None
      | Some True \<Rightarrow> Some gap_result | Some False \<Rightarrow> fold_measured ?fx c)"
    using fw c(2) pushes_grow_ok [OF fw l] by (simp add: foldCore_def core_empty_def Let_def fold_window_def)
  have gap: "windowIsGap ?fx c = Some (\<exists>l \<in> set (leaves c). leaf_gap pl rec i j l)"
    unfolding windowIsGap_def by (rule any_gap_iff [OF fw found])
  show ?thesis
  proof (cases "\<exists>l \<in> set (leaves c). leaf_gap pl rec i j l")
    case True
    then show ?thesis by (simp add: start gap)
  next
    case False
    obtain d where d: "windowRatio ?fx c = Some d"
      using window_ratio_total [OF fw c l] unfolding windowRatio_def by blast
    obtain v where v: "eval_fold ?fx c (root c) = Some v" using eval_fold_total [OF fw c(1,2) l] by blast
    have ne: "leaves c \<noteq> []" using c by (rule leaves_nonempty)
    then have hd: "hd (leaves c) \<in> set (leaves c)" by simp
    then obtain sl where sl: "om_find (pl_byAddress pl) (address (hd (leaves c))) = Some sl" using found by blast
    obtain b where b: "endPointState ?fx (physical_row rec j) sl = Some b"
      using endPointState_total [OF w slot_bound [OF w sl] window_rows(2) [OF fw]] by blast
    have ng: "b \<noteq> GAP" using False hd sl b by (auto simp: leaf_gap_def)
    have "eval_root (leaf_delta ?fx) c = Some v" using v by (simp add: eval_fold_def eval_root_def)
    with False ng show ?thesis
      by (simp add: start gap fold_measured_def d ne sl v b)
  qed
qed

lemma expr_of_leaf_simps:
  "leaves (expr_of_leaf l) = [l]"
  "nodes (expr_of_leaf l) = [\<lparr>kind = 0, left = - 1, right = - 1, leaf = 0, scale = one64\<rparr>]"
  by (simp_all add: expr_of_leaf_def addLeaf_def addNode_def empty_core_def)

lemma expr_of_leaf_eval: "eval_root v (expr_of_leaf l) = v l"
  by (simp add: eval_root_def root_def expr_of_leaf_simps eval_node_def)

lemma expr_of_leaf_operands: "operands_ok (expr_of_leaf l)"
  by (simp add: operands_ok_def expr_of_leaf_simps)

text \<open>A plan of one leaf and one group, and a window in which its counter wraps.\<close>

definition wrap_plan :: "unit plan" where
  "wrap_plan = \<lparr>pl_slots = [\<lparr>sl_core = named_leaf ''cpu'' ''a'', sl_hasRatioPair = False, sl_ratioEnabled = None,
        sl_ratioRunning = None\<rparr>], pl_disclosureSlot = 1, pl_byAddress = [(''cpu/a'', 0)],
     pl_groups = [\<lparr>rg_reader = (), rg_offset = 0, rg_count = 1, rg_disclosureSlot = 1\<rparr>], pl_boundThread = 1\<rparr>"

definition wrap_window :: recorder_api where
  "wrap_window = \<lparr>ra_columns = [- 1, 4, 0, 0], ra_stride = 2, ra_count = 2, ra_wrapped = False, ra_dropped = 0\<rparr>"

lemma wrap_find: "om_find [(''cpu/a'', 0)] a = (if a = ''cpu/a'' then Some (0::nat) else None)"
  by (simp add: om_find_def)

lemma wrap_window_ok: "window_ok wrap_plan wrap_window"
proof -
  have shape: "plan_shape wrap_plan"
    by (auto simp: plan_shape_def wrap_plan_def leafCount_def om_wf_def wrap_find intro!: ex1I [of _ "''cpu/a''"] split: if_splits)
  have "availability_of_code (cell [- 1, 4, 0, 0] 2 1 r) \<noteq> None" if "r < 2" for r
    using that by (cases r) (simp_all add: cell_def availability_of_code_def)
  with shape show ?thesis
    by (auto simp: window_ok_def wrap_plan_def wrap_window_def columnCount_def leafCount_def physical_row_def less_Suc_eq)
qed

lemma wrap_fold_ready: "fold_ready wrap_plan wrap_window 0 1 (expr_of_leaf (named_leaf ''cpu'' ''a''))"
  using expr_of_leaf_wf expr_of_leaf_operands
  by (simp add: fold_ready_def leaf_ready_def expr_of_leaf_simps pair_ok_def wrap_plan_def named_leaf_def wrap_find)

lemma wrap_no_gap: "\<not> leaf_gap wrap_plan wrap_window 0 1 (named_leaf ''cpu'' ''a'')"
  by (simp add: leaf_gap_def wrap_plan_def wrap_window_def named_leaf_def wrap_find endPointState_def point_at_def
      fold_context_of_def disclosureSlotFor_def physical_row_def availability_of_code_def)

text \<open>
  C4. A fold over a sound window always answers, and honestly: if the disclosure column of a leaf
  holds a gap at either end point it answers the gap result (value 0, ratio 1, unscaled), otherwise
  the value of the spine over the leaf deltas under a state that is not a gap.
\<close>

theorem fold_answers:
  assumes "window_ok pl rec" and "i < j" and "j < ra_count rec" and "fold_ready pl rec i j c"
  shows "if \<exists>l \<in> set (leaves c). leaf_gap pl rec i j l then foldCore pl c rec i j = Some gap_result
    else \<exists>r. foldCore pl c rec i j = Some r \<and> result_availability r \<noteq> GAP
       \<and> eval_root (leaf_delta (fold_context_of pl rec i j)) c = Some (fold_value r)"
  using fold_ready_result [OF _ assms(4)] assms(1-3) by (auto simp: fold_window_def split: if_splits)

theorem fold_answers_witness:
  "\<exists>r. foldCore wrap_plan (expr_of_leaf (named_leaf ''cpu'' ''a'')) wrap_window 0 1 = Some r \<and> result_availability r \<noteq> GAP"
  using fold_answers [OF wrap_window_ok zero_less_one _ wrap_fold_ready] wrap_no_gap
  by (auto simp: expr_of_leaf_simps wrap_window_def)

subsection \<open>Wrap-around\<close>

text \<open>
  One wrap of a hardware counter subtracts out of a fold: if the counter advanced by \<open>n\<close> between
  two measured points, wrapping past \<open>2 ^ 64\<close> or not, the fold over them is \<open>n\<close>, exactly when
  \<open>n < 2 ^ 53\<close>.
\<close>

theorem fold_subtracts_the_wrap:
  assumes "window_ok pl rec" and "i < j" and "j < ra_count rec" and "fold_ready pl rec i j (expr_of_leaf l)"
    and "\<not> leaf_gap pl rec i j l" and "om_find (pl_byAddress pl) (address l) = Some sl"
    and "cell (ra_columns rec) (ra_stride rec) sl (physical_row rec j)
         = cell (ra_columns rec) (ra_stride rec) sl (physical_row rec i) + of_nat n" and "n < 2 ^ 53"
  shows "\<exists>r. foldCore pl (expr_of_leaf l) rec i j = Some r \<and> represents (fold_value r) (int n)"
proof -
  have fw: "fold_window pl rec i j" using assms(1-3) by (simp add: fold_window_def)
  have d: "delta_of (fold_context_of pl rec i j) sl = Some (of_nat n)"
    using delta_at [OF fw slot_bound [OF assms(1,6)]] assms(7) by simp
  have "unat (of_nat n :: u64) = n" using assms(8) by (simp add: unat_of_nat)
  then have rep: "represents (of_u64 (of_nat n)) (int n)" using of_u64_exact [of "of_nat n"] assms(8) by simp
  from fold_ready_result [OF fw assms(4)] assms(5) obtain r where
    "foldCore pl (expr_of_leaf l) rec i j = Some r"
    "eval_root (leaf_delta (fold_context_of pl rec i j)) (expr_of_leaf l) = Some (fold_value r)"
    by (auto simp: expr_of_leaf_simps)
  with rep show ?thesis by (simp add: expr_of_leaf_eval leaf_delta_def assms(6) d)
qed

theorem fold_subtracts_the_wrap_witness:
  "\<exists>r. foldCore wrap_plan (expr_of_leaf (named_leaf ''cpu'' ''a'')) wrap_window 0 1 = Some r \<and> represents (fold_value r) 5"
proof -
  have "\<exists>r. foldCore wrap_plan (expr_of_leaf (named_leaf ''cpu'' ''a'')) wrap_window 0 1 = Some r
      \<and> represents (fold_value r) (int 5)"
    by (rule fold_subtracts_the_wrap [OF wrap_window_ok zero_less_one _ wrap_fold_ready wrap_no_gap, where sl = 0])
       (simp_all add: wrap_window_def wrap_plan_def named_leaf_def wrap_find cell_def physical_row_def)
  then show ?thesis by simp
qed

subsection \<open>Folds compose\<close>

lemma addLeaf_leaves: "set (leaves (fst (addLeaf c l))) \<subseteq> insert l (set (leaves c))"
  by (auto simp: addLeaf_def split: option.splits)

lemma add_leaves_subset: "set (leaves (fst (add_leaves c ls))) \<subseteq> set (leaves c) \<union> set ls"
proof (induction ls arbitrary: c)
  case Nil
  then show ?case by simp
next
  case (Cons l ls)
  obtain c1 i where a: "addLeaf c l = (c1, i)" by force
  obtain c2 js where b: "add_leaves c1 ls = (c2, js)" by force
  show ?case using Cons [of c1] addLeaf_leaves [of c l] by (auto simp: a b)
qed

text \<open>What a splice leaves of the leaves and of the operands of its arguments.\<close>

lemma splice_leaves:
  assumes "splice dst src = (out, r)" and "spine_wf dst"
  shows "set (leaves out) \<subseteq> set (leaves dst) \<union> set (leaves src)"
    and "address ` set (leaves out) = address ` set (leaves dst) \<union> address ` set (leaves src)"
    and "operands_ok dst \<Longrightarrow> operands_ok src \<Longrightarrow> operands_ok out"
proof -
  obtain dst1 remap where al: "add_leaves dst (leaves src) = (dst1, remap)" by force
  note spec = add_leaves_spec [OF al]
  have d: "distinct (map address (leaves dst))" using assms(2) by (simp add: spine_wf_def)
  have out: "out = dst1\<lparr>nodes := nodes dst @ map (remap_node (int (length (nodes dst))) remap) (nodes src)\<rparr>"
    using assms(1) spec [OF d] by (simp add: splice_eq [OF al])
  show "set (leaves out) \<subseteq> set (leaves dst) \<union> set (leaves src)"
    using add_leaves_subset [of dst "leaves src"] by (simp add: out al)
  show "address ` set (leaves out) = address ` set (leaves dst) \<union> address ` set (leaves src)"
    using spec [OF d] by (simp add: out)
  show "operands_ok out" if "operands_ok dst" "operands_ok src"
    using that by (auto simp: operands_ok_def out remap_node_def)
qed

definition composes :: "expr_core \<Rightarrow> expr_core \<Rightarrow> expr_core \<Rightarrow> bool" where
  "composes out a b \<longleftrightarrow> spine_wf out \<and> nodes out \<noteq> [] \<and> (operands_ok a \<longrightarrow> operands_ok b \<longrightarrow> operands_ok out)
     \<and> set (leaves out) \<subseteq> set (leaves a) \<union> set (leaves b)
     \<and> address ` set (leaves out) = address ` set (leaves a) \<union> address ` set (leaves b)"

lemma operands_ok_binary: "operands_ok m \<Longrightarrow> k \<noteq> 4 \<Longrightarrow> operands_ok (fst (addNode m (binary_node k l r)))"
  by (auto simp: operands_ok_def addNode_def binary_node_def)

lemma operators_compose:
  assumes "spine_wf a" "nodes a \<noteq> []" and "spine_wf b" "nodes b \<noteq> []"
  shows "composes (expr_plus a b) a b" and "composes (expr_minus a b) a b" and "composes (expr_divide a b) a b"
    and "composes (expr_scale k a) a a"
proof -
  note wf = operators_wf [OF assms]
  obtain m r where sp: "splice a b = (m, r)" by force
  note s = splice_leaves [OF sp assms(1)]
  show "composes (expr_plus a b) a b" "composes (expr_minus a b) a b"
    using wf s operands_ok_binary [of m] unfolding composes_def
    by (simp_all add: expr_plus_def expr_minus_def sp) (simp_all add: addNode_def)
  obtain m1 l where sp1: "splice empty_core a = (m1, l)" by force
  obtain m2 r2 where sp2: "splice m1 b = (m2, r2)" by force
  note s1 = splice_leaves [OF sp1 spine_wf_empty]
  have m1: "spine_wf m1" by (rule splice_wf(1) [OF spine_wf_empty assms(1) sp1])
  note s2 = splice_leaves [OF sp2 m1]
  have "operands_ok empty_core" by (simp add: operands_ok_def empty_core_def)
  then show "composes (expr_divide a b) a b"
    using wf s1 s2 operands_ok_binary [of m2] unfolding composes_def
    by (simp add: expr_divide_def sp1 sp2) (auto simp: addNode_def empty_core_def)
  show "composes (expr_scale k a) a a"
    using wf assms root_bounds [OF assms(2)]
    by (auto simp: composes_def expr_scale_def scaleAll_def addNode_def operands_ok_def)
qed

lemma composes_ready:
  assumes "composes out a b" and "fold_ready pl rec i j a" and "fold_ready pl rec i j b"
  shows "fold_ready pl rec i j out"
    and "(\<exists>l \<in> set (leaves out). leaf_gap pl rec i j l) \<longleftrightarrow>
         (\<exists>l \<in> set (leaves a). leaf_gap pl rec i j l) \<or> (\<exists>l \<in> set (leaves b). leaf_gap pl rec i j l)"
proof -
  show "fold_ready pl rec i j out" using assms by (auto simp: composes_def fold_ready_def)
  define g where "g = (\<lambda>x. case om_find (pl_byAddress pl) x of None \<Rightarrow> False | Some sl \<Rightarrow>
      endPointState (fold_context_of pl rec i j) (physical_row rec i) sl = Some GAP
      \<or> endPointState (fold_context_of pl rec i j) (physical_row rec j) sl = Some GAP)"
  have gap: "(\<exists>l \<in> set ls. leaf_gap pl rec i j l) \<longleftrightarrow> (\<exists>x \<in> address ` set ls. g x)" for ls
    by (auto simp: leaf_gap_def g_def)
  have un: "address ` set (leaves out) = address ` set (leaves a) \<union> address ` set (leaves b)"
    using assms(1) by (simp add: composes_def)
  show "(\<exists>l \<in> set (leaves out). leaf_gap pl rec i j l) \<longleftrightarrow>
         (\<exists>l \<in> set (leaves a). leaf_gap pl rec i j l) \<or> (\<exists>l \<in> set (leaves b). leaf_gap pl rec i j l)"
    unfolding gap un by (rule bex_Un)
qed

lemma fold_composed:
  assumes fw: "fold_window pl rec i j" and a: "fold_ready pl rec i j a" and b: "fold_ready pl rec i j b"
    and out: "composes out a b"
    and ev: "eval_root (leaf_delta (fold_context_of pl rec i j)) out
       = combine f (eval_root (leaf_delta (fold_context_of pl rec i j)) a) (eval_root (leaf_delta (fold_context_of pl rec i j)) b)"
    and ra: "foldCore pl a rec i j = Some ra" and rb: "foldCore pl b rec i j = Some rb"
  shows "\<exists>r. foldCore pl out rec i j = Some r
     \<and> (if result_availability ra = GAP \<or> result_availability rb = GAP then r = gap_result
        else result_availability r \<noteq> GAP \<and> fold_value r = f (fold_value ra) (fold_value rb))"
proof -
  note o = composes_ready [OF out a b]
  have gr: "result_availability gap_result = GAP" by (simp add: gap_result_def)
  let ?g = "\<lambda>c. \<exists>l \<in> set (leaves c). leaf_gap pl rec i j l"
  have one: "(result_availability rc = GAP) = ?g c \<and> (\<not> ?g c \<longrightarrow>
      eval_root (leaf_delta (fold_context_of pl rec i j)) c = Some (fold_value rc))"
    if "fold_ready pl rec i j c" "foldCore pl c rec i j = Some rc" for c rc
    using fold_ready_result [OF fw that(1)] that(2) gr by (cases "?g c") auto
  show ?thesis
  proof (cases "?g out")
    case True
    with fold_ready_result [OF fw o(1)] one [OF a ra] one [OF b rb] o(2) show ?thesis by auto
  next
    case False
    with fold_ready_result [OF fw o(1)] obtain r where r: "foldCore pl out rec i j = Some r"
      "eval_root (leaf_delta (fold_context_of pl rec i j)) out = Some (fold_value r)" "result_availability r \<noteq> GAP"
      by auto
    from False o(2) have "\<not> ?g a" "\<not> ?g b" by blast+
    with one [OF a ra] one [OF b rb] r ev show ?thesis by auto
  qed
qed

lemma leaf_delta_by_address: "by_address (leaf_delta fx)"
  by (simp add: by_address_def leaf_delta_def)

text \<open>
  Folding commutes with composing: over a sound window the fold of \<open>a + b\<close>, \<open>a - b\<close> and
  \<open>a / b\<close> is the operation on the two folds, and the composition gaps exactly when an operand does.
\<close>

theorem folds_compose:
  assumes "window_ok pl rec" and "i < j" and "j < ra_count rec"
    and "fold_ready pl rec i j a" and "fold_ready pl rec i j b"
  shows "\<exists>ra rb. foldCore pl a rec i j = Some ra \<and> foldCore pl b rec i j = Some rb
     \<and> (\<forall>(op, f) \<in> {(expr_plus, dadd), (expr_minus, dsub), (expr_divide, ddiv)}.
          \<exists>r. foldCore pl (op a b) rec i j = Some r
            \<and> (if result_availability ra = GAP \<or> result_availability rb = GAP then r = gap_result
               else result_availability r \<noteq> GAP \<and> fold_value r = f (fold_value ra) (fold_value rb)))"
proof -
  have fw: "fold_window pl rec i j" using assms(1-3) by (simp add: fold_window_def)
  have a: "spine_wf a" "nodes a \<noteq> []" and b: "spine_wf b" "nodes b \<noteq> []"
    using assms(4,5) by (simp_all add: fold_ready_def)
  obtain ra where ra: "foldCore pl a rec i j = Some ra"
    using fold_ready_result [OF fw assms(4)] by (auto split: if_splits)
  obtain rb where rb: "foldCore pl b rec i j = Some rb"
    using fold_ready_result [OF fw assms(5)] by (auto split: if_splits)
  note ev = operators_eval [OF leaf_delta_by_address a b, of "fold_context_of pl rec i j"]
  note co = operators_compose [OF a b]
  show ?thesis
    using ra rb fold_composed [OF fw assms(4,5) co(1) _ ra rb, of dadd] ev
      fold_composed [OF fw assms(4,5) co(2) _ ra rb, of dsub]
      fold_composed [OF fw assms(4,5) co(3) _ ra rb, of ddiv]
    by (intro exI [of _ ra] exI [of _ rb]) simp
qed

theorem folds_compose_witness:
  "\<exists>ra r. foldCore wrap_plan (expr_of_leaf (named_leaf ''cpu'' ''a'')) wrap_window 0 1 = Some ra
     \<and> foldCore wrap_plan (expr_divide (expr_of_leaf (named_leaf ''cpu'' ''a'')) (expr_of_leaf (named_leaf ''cpu'' ''a'')))
         wrap_window 0 1 = Some r"
  using folds_compose [OF wrap_window_ok zero_less_one _ wrap_fold_ready wrap_fold_ready]
  by (fastforce simp: wrap_window_def)

subsection \<open>Folds over recorded windows\<close>

text \<open>The advance of the leaves between two rows of a history.\<close>

definition history_delta :: "'r plan \<Rightarrow> u64 list list \<Rightarrow> nat \<Rightarrow> nat \<Rightarrow> leaf_core \<Rightarrow> binary64 option" where
  "history_delta pl H m n l =
     map_option (\<lambda>sl. of_u64 (H ! n ! sl - H ! m ! sl)) (om_find (pl_byAddress pl) (address l))"

context provider_seam
begin

lemma ring_window:
  assumes st: "ring_state H h co w"
    and named: "\<forall>m < length H. \<forall>d. leafCount (co_plan co) \<le> d \<and> d < columnCount (co_plan co)
      \<longrightarrow> availability_of_code (H ! m ! d) \<noteq> None"
  shows "j < ra_count (recorder_view h co) \<Longrightarrow> c < columnCount (co_plan co) \<Longrightarrow>
      cell (ra_columns (recorder_view h co)) (ra_stride (recorder_view h co)) c (physical_row (recorder_view h co) j)
        = H ! (length H - rc_capacity h + j) ! c"
    and "window_ok (co_plan co) (recorder_view h co)"
proof -
  let ?v = "recorder_view h co"
  have v: "ra_count ?v = min (length H) (rc_capacity h)" "ra_dropped ?v = length H - rc_capacity h"
    "ra_wrapped ?v = (rc_capacity h < length H)" "ra_stride ?v = rc_capacity h"
    "ra_columns ?v = co_arenas co ! rc_arena h"
    using st by (auto simp: recorder_view_def ring_state_def min_def)
  have cells: "cell (ra_columns ?v) (ra_stride ?v) c (physical_row ?v j) = H ! (length H - rc_capacity h + j) ! c"
    if j: "j < ra_count ?v" and c: "c < columnCount (co_plan co)" for j c
  proof -
    have "physical_row ?v j = (length H - rc_capacity h + j) mod rc_capacity h"
      using v j by (simp add: physical_row_def mod_add_left_eq)
    moreover have "length H - rc_capacity h + j < length H" "length H \<le> length H - rc_capacity h + j + rc_capacity h"
      using j v(1) by linarith+
    ultimately show ?thesis using st c v by (simp add: ring_state_def)
  qed
  then show "j < ra_count ?v \<Longrightarrow> c < columnCount (co_plan co) \<Longrightarrow>
      cell (ra_columns ?v) (ra_stride ?v) c (physical_row ?v j) = H ! (length H - rc_capacity h + j) ! c" .
  have "availability_of_code (cell (ra_columns ?v) (ra_stride ?v) d (physical_row ?v r)) \<noteq> None"
    if "leafCount (co_plan co) \<le> d" "d < columnCount (co_plan co)" "r < ra_count ?v" for d r
  proof -
    have "length H - rc_capacity h + r < length H" using that(3) v(1) by linarith
    with named that(1,2) have "availability_of_code (H ! (length H - rc_capacity h + r) ! d) \<noteq> None" by blast
    then show ?thesis unfolding cells [OF that(3,2)] .
  qed
  with st v show "window_ok (co_plan co) ?v"
    by (simp add: window_ok_def ring_state_def sampling_ok_def)
qed

end

lemma eval_spine_cong:
  assumes "\<forall>l \<in> set (leaves c). v l = v' l"
  shows "eval_spine v c f k = eval_spine v' c f k"
proof (induction f arbitrary: k)
  case 0
  then show ?case by simp
next
  case (Suc f)
  have node: "eval_node v (leaves c) n a b = eval_node v' (leaves c) n a b" for n a b
    using assms by (auto simp: eval_node_def)
  show ?case by (simp add: Suc node)
qed

lemma eval_root_cong:
  "\<forall>l \<in> set (leaves c). v l = v' l \<Longrightarrow> eval_root v c = eval_root v' c"
  by (simp add: eval_root_def eval_spine_cong)

text \<open>
  C2. From sampling to folding: over the retained rows of a ring recorder on a compiled plan, a fold that
  discloses no gap evaluates the expression on the advances of its leaves between the two samples the
  rows hold; otherwise it is the gap result.
\<close>

theorem recorded_fold_is_the_advance:
  assumes "reachable_tree s" and "compileCore (provider_open pf) (w_thread w) s tg exprs w = Some (Inr pl, w1)"
    and "world_fit w" and "ring_recorder capacity \<lparr>co_plan = pl, co_arenas = arenas\<rparr> = Inr (h, co)"
    and run: "ring_run (window_read pf) w_thread n h co w1 = Some (h', co', w')"
    and ij: "i < j" "j < min n capacity"
    and ready: "fold_ready (co_plan co') (recorder_view h' co') i j c"
  shows "if \<exists>l \<in> set (leaves c). leaf_gap (co_plan co') (recorder_view h' co') i j l
    then foldCore (co_plan co') c (recorder_view h' co') i j = Some gap_result
    else \<exists>r. foldCore (co_plan co') c (recorder_view h' co') i j = Some r
       \<and> eval_root (history_delta pl (history (window_points pf) window_state window_advance n pl w1)
            (n - capacity + i) (n - capacity + j)) c = Some (fold_value r)"
proof -
  let ?H = "history (window_points pf) window_state window_advance n pl w1" and ?v = "recorder_view h' co'"
  from compiled_ring_run [OF assms(1-4), of n] run
  have st: "shipped_seam.ring_state ?H h' co' w'" and same: "rc_capacity h' = capacity"
    "columnCount (co_plan co') = columnCount pl" "pl_slots (co_plan co') = pl_slots pl"
    "pl_byAddress (co_plan co') = pl_byAddress pl" by (metis option.inject prod.inject)+
  have len: "length ?H = n" by (rule shipped_seam.rows_length)
  have lc: "leafCount (co_plan co') = leafCount pl" by (simp add: leafCount_def same)
  have named: "\<forall>m < length ?H. \<forall>d. leafCount (co_plan co') \<le> d \<and> d < columnCount (co_plan co')
      \<longrightarrow> availability_of_code (?H ! m ! d) \<noteq> None"
    using shipped_seam.rows_states [OF compiled_sampling_ok(1) [OF assms(1-3)]] by (simp add: len lc same)
  note win = shipped_seam.ring_window [OF st named]
  have count: "ra_count ?v = min n capacity"
    using st len same by (auto simp: recorder_view_def shipped_seam.ring_state_def min_def)
  have fw: "fold_window (co_plan co') ?v i j" using win(2) ij by (simp add: fold_window_def count)
  have delta: "leaf_delta (fold_context_of (co_plan co') ?v i j) l
      = history_delta pl ?H (n - capacity + i) (n - capacity + j) l" for l
  proof (cases "om_find (pl_byAddress pl) (address l)")
    case None
    then show ?thesis by (simp add: leaf_delta_def history_delta_def same)
  next
    case (Some sl)
    have "sl < leafCount (co_plan co')" using slot_bound [OF win(2)] Some by (simp add: same)
    note b = delta_at [OF fw this] leaf_column [OF this]
    have "cell (ra_columns ?v) (ra_stride ?v) sl (physical_row ?v k) = ?H ! (n - capacity + k) ! sl"
      if "k < min n capacity" for k
      using win(1) [of k sl] b(2) that by (simp add: count len same)
    with ij b(1) Some show ?thesis by (simp add: leaf_delta_def history_delta_def same)
  qed
  then show ?thesis
    using fold_ready_result [OF fw ready]
      eval_root_cong [of c "leaf_delta (fold_context_of (co_plan co') ?v i j)"
        "history_delta pl ?H (n - capacity + i) (n - capacity + j)"] by auto
qed

lemma demo_slots_value:
  "(case compileCore (provider_open demo_platform) 1 demo_system \<lparr>tg_kind = THREAD, tg_cpu = - 1\<rparr>
        [\<lparr>leaves = demo_leaves, nodes = ns\<rparr>] demo_world of
      Some (Inr pl, _) \<Rightarrow> om_find (pl_byAddress pl) ''cpu/running'' = Some 3 \<and> sl_ratioEnabled (pl_slots pl ! 3) = None
    | _ \<Rightarrow> False)"
  by code_simp

lemma demo_slots:
  "om_find (pl_byAddress (fst demo_plan)) ''cpu/running'' = Some 3" "sl_ratioEnabled (pl_slots (fst demo_plan) ! 3) = None"
  using demo_slots_value [of "nodes demo_expr"] demo_compiles by (simp_all add: demo_expr_def)

lemma demo_leaf: "address (demo_leaves ! 3) = ''cpu/running'' \<and> leaf_mode (demo_leaves ! 3) \<noteq> PUSH_LOAD"
  by code_simp

theorem recorded_fold_is_the_advance_witness:
  "\<exists>h' co' w' out. ring_run (window_read demo_platform) w_thread 5 (fst (mint 2 demo_compiled)) (snd (mint 2 demo_compiled)) (snd demo_plan)
       = Some (h', co', w')
     \<and> foldCore (co_plan co') (expr_of_leaf (demo_leaves ! 3)) (recorder_view h' co') 0 1 = Some out"
proof -
  obtain h' co' w' where run: "ring_run (window_read demo_platform) w_thread 5 (fst (mint 2 demo_compiled)) (snd (mint 2 demo_compiled))
      (snd demo_plan) = Some (h', co', w')"
    and slots: "pl_slots (co_plan co') = pl_slots (fst demo_plan)" "pl_byAddress (co_plan co') = pl_byAddress (fst demo_plan)"
    by (rule compiled_ring_run [OF demo_reachable(1) demo_compiled_here demo_world_fit demo_ring])
  have "fold_ready (co_plan co') (recorder_view h' co') 0 1 (expr_of_leaf (demo_leaves ! 3))"
    using expr_of_leaf_wf expr_of_leaf_operands demo_leaf
    by (simp add: fold_ready_def leaf_ready_def expr_of_leaf_simps pair_ok_def slots demo_slots)
  from recorded_fold_is_the_advance [OF demo_reachable(1) demo_compiled_here demo_world_fit demo_ring run _ _ this] run
  show ?thesis by (auto split: if_splits)
qed

subsection \<open>Half a ratio pair\<close>

text \<open>
  A plan that reads the enabled leaf of an object and not its running leaf links half of the pair, and
  no fold of a leaf that carries the pair can be answered over any of its windows: the contract of
  \<open>leafRatio\<close>, which expects the two columns to be linked together, is broken.
\<close>

theorem half_a_pair_breaks_the_fold:
  assumes "reachable_tree s" and "compileCore opn here s tg exprs w = Some (Inr pl, w')"
    and "window_ok pl rec" and "i < j" and "j < ra_count rec"
    and "om_find (pl_byAddress pl) (address l) = Some sl" and "sl_hasRatioPair (pl_slots pl ! sl)"
    and "om_find (pl_byAddress pl) (slot_home (pl_slots pl ! sl) @ ''/enabled'') \<noteq> None"
    and "om_find (pl_byAddress pl) (slot_home (pl_slots pl ! sl) @ ''/running'') = None"
    and "\<not> leaf_gap pl rec i j l"
  shows "foldCore pl (expr_of_leaf l) rec i j = None"
proof -
  let ?fx = "fold_context_of pl rec i j"
  have fw: "fold_window pl rec i j" using assms(3-5) by (simp add: fold_window_def)
  have sl: "sl < leafCount pl" using assms(3,6) by (rule slot_bound)
  then have "pl_slots pl ! sl \<in> set (pl_slots pl)" by (simp add: leafCount_def)
  from compiled_pairs [OF reachable_tree_wf [OF assms(1)] assms(2), rule_format, OF this] assms(7-9)
  have "leafRatio ?fx sl = None" using sl by (auto simp: leafRatio_def)
  then have ratio: "windowRatio ?fx (expr_of_leaf l) = None"
    by (simp add: windowRatio_def expr_of_leaf_simps assms(6))
  have "windowIsGap ?fx (expr_of_leaf l) = Some False"
    using any_gap_iff [OF fw, of "[l]"] assms(6,10) by (simp add: windowIsGap_def expr_of_leaf_simps)
  then show ?thesis
    using ratio fw expr_of_leaf_wf(2) [of l]
    by (auto simp: foldCore_def core_empty_def Let_def fold_measured_def fold_window_def split: option.split)
qed

text \<open>The demonstration provider, read without its \<open>running\<close> counter, over a window of zeros.\<close>

definition half_leaves :: "leaf_core list" where
  "half_leaves = map lr_core [demo_cpu_leaves ! 0, demo_cpu_leaves ! 1]"

definition half_plan :: "window plan" where
  "half_plan = (case compileCore (provider_open demo_platform) 1 demo_system \<lparr>tg_kind = THREAD, tg_cpu = - 1\<rparr>
        [\<lparr>leaves = half_leaves, nodes = []\<rparr>] demo_world of
      Some (Inr pl, w) \<Rightarrow> pl
    | _ \<Rightarrow> \<lparr>pl_slots = [], pl_disclosureSlot = 0, pl_byAddress = [], pl_groups = [], pl_boundThread = 0\<rparr>)"

lemma half_plan_value:
  "(case compileCore (provider_open demo_platform) 1 demo_system \<lparr>tg_kind = THREAD, tg_cpu = - 1\<rparr>
        [\<lparr>leaves = half_leaves, nodes = []\<rparr>] demo_world of
      Some (Inr pl, _) \<Rightarrow> pl_byAddress pl = [(''cpu/cycles'', 0), (''cpu/enabled'', 1)] \<and> length (pl_slots pl) = 2
        \<and> length (pl_groups pl) = 1
        \<and> slot_home (pl_slots pl ! 0) = ''cpu'' \<and> sl_hasRatioPair (pl_slots pl ! 0)
    | _ \<Rightarrow> False)"
  by code_simp

lemma half_plan_compiles:
  "\<exists>w. compileCore (provider_open demo_platform) 1 demo_system \<lparr>tg_kind = THREAD, tg_cpu = - 1\<rparr>
     [\<lparr>leaves = half_leaves, nodes = []\<rparr>] demo_world = Some (Inr half_plan, w)"
  using half_plan_value by (auto simp: half_plan_def split: option.splits sum.splits prod.splits)

lemma half_plan_simps:
  "pl_byAddress half_plan = [(''cpu/cycles'', 0), (''cpu/enabled'', 1)]" "length (pl_slots half_plan) = 2"
  "length (pl_groups half_plan) = 1" "slot_home (pl_slots half_plan ! 0) = ''cpu''" "sl_hasRatioPair (pl_slots half_plan ! 0)"
  using half_plan_value by (auto simp: half_plan_def split: option.splits sum.splits prod.splits)

definition half_window :: recorder_api where
  "half_window = \<lparr>ra_columns = [0, 0, 0, 0, 0, 0], ra_stride = 2, ra_count = 2, ra_wrapped = False, ra_dropped = 0\<rparr>"

lemma half_window_cell: "c < 3 \<Longrightarrow> r < 2 \<Longrightarrow> cell (ra_columns half_window) 2 c r = 0"
  by (auto simp: half_window_def cell_def numeral_3_eq_3 numeral_2_eq_2 less_Suc_eq)

lemma half_window_ok: "window_ok half_plan half_window"
proof -
  obtain w where c: "compileCore (provider_open demo_platform) 1 demo_system \<lparr>tg_kind = THREAD, tg_cpu = - 1\<rparr>
     [\<lparr>leaves = half_leaves, nodes = []\<rparr>] demo_world = Some (Inr half_plan, w)" using half_plan_compiles by blast
  have "plan_shape half_plan" using compiled_shape [OF reachable_tree_wf [OF demo_reachable(1)] c] by blast
  moreover have cols: "columnCount half_plan = 3" by (simp add: columnCount_def half_plan_simps)
  moreover have "availability_of_code (cell (ra_columns half_window) (ra_stride half_window) d (physical_row half_window r)) \<noteq> None"
    if "d < 3" "r < ra_count half_window" for d r
    using half_window_cell [OF that(1), of r] that(2)
    by (simp add: half_window_def physical_row_def availability_of_code_def)
  ultimately show ?thesis by (simp add: window_ok_def cols) (simp add: half_window_def)
qed

theorem half_a_pair_breaks_the_fold_witness:
  "foldCore half_plan (expr_of_leaf (named_leaf ''cpu'' ''cycles'')) half_window 0 1 = None"
proof -
  obtain w where c: "compileCore (provider_open demo_platform) 1 demo_system \<lparr>tg_kind = THREAD, tg_cpu = - 1\<rparr>
     [\<lparr>leaves = half_leaves, nodes = []\<rparr>] demo_world = Some (Inr half_plan, w)" using half_plan_compiles by blast
  have find: "om_find (pl_byAddress half_plan) a
      = (if a = ''cpu/cycles'' then Some 0 else if a = ''cpu/enabled'' then Some 1 else None)" for a
    by (simp add: half_plan_simps om_find_def)
  let ?l = "named_leaf ''cpu'' ''cycles''"
  have at: "om_find (pl_byAddress half_plan) (address ?l) = Some 0" by (simp add: find named_leaf_def)
  have d: "disclosureSlotFor (fold_context_of half_plan half_window 0 1) 0 < 3"
    using disclosure_column(2) [of half_plan 0 half_window 0 1] half_window_ok
    by (simp add: window_ok_def columnCount_def leafCount_def half_plan_simps)
  have "endPointState (fold_context_of half_plan half_window 0 1) (physical_row half_window r) 0 = Some COUNTABLE"
    if "r < 2" for r
    using half_window_cell [OF d that] that d point_at_cell [OF half_window_ok, of _ r]
    by (simp add: endPointState_def half_window_def physical_row_def columnCount_def half_plan_simps availability_of_code_def)
  then have "\<not> leaf_gap half_plan half_window 0 1 ?l" using at by (simp add: leaf_gap_def)
  from half_a_pair_breaks_the_fold [OF demo_reachable(1) c half_window_ok _ _ at _ _ _ this] show ?thesis
    by (simp add: half_plan_simps(4,5) find half_window_def)
qed

end
