(* ===== verification/Encode.thy ===== *)
theory Encode
  imports Prelude
begin

unbundle bit_operations_syntax

text \<open>
  Config-word composition of \<open>source/counters/linux_pmu/encode.cpp\<close>: the kernel's format files are
  parsed into bit ranges, and the semantic fields of a table row are placed in the config words those
  ranges name.  A \<open>std::string_view\<close> is a string; the pair of a \<open>bool\<close> result and the
  \<open>FormatRange\<close> vector it fills is returned as such; \<open>None\<close> is behaviour C++ leaves undefined (signed
  overflow, a shift by the width of the operand or more).  The main results: a format that is spelled is
  parsed back, and composition places bit \<open>i\<close> of a field at position \<open>i\<close> of its format, no other bit.
\<close>

record format_range =
  configWord :: int
  low :: int
  high :: int

type_synonym field_value = "string \<times> u64"
type_synonym field_format = "string \<times> format_range list"
type_synonym config_words = "(int \<times> u64) list"

definition int_max :: int where
  "int_max = 2147483647"

definition isConfigLetter :: "char \<Rightarrow> bool" where
  "isConfigLetter byte \<longleftrightarrow> is_lower byte"

definition isConfigDigit :: "char \<Rightarrow> bool" where
  "isConfigDigit byte \<longleftrightarrow> is_digit byte"

text \<open>The trailing index of a config-word name; a name that continues after it is word 0.\<close>

fun word_index :: "string \<Rightarrow> int \<Rightarrow> int checked" where
  "word_index [] word = Some word"
| "word_index (c # cs) word =
     (if \<not> isConfigDigit c then Some 0
      else if word * 10 + int (digit_value c) > int_max then None
      else word_index cs (word * 10 + int (digit_value c)))"

definition wordOf :: "string \<Rightarrow> int checked" where
  "wordOf name = word_index (dropWhile isConfigLetter name) 0"

text \<open>The lambda \<open>read\<close>: one or two decimal digits.\<close>

definition read_position :: "string \<Rightarrow> int option" where
  "read_position digits =
     (if digits = [] \<or> length digits > 2 then None
      else if list_all is_digit digits then Some (int (digits_value 10 digits)) else None)"

definition parse_piece :: "int \<Rightarrow> string \<Rightarrow> format_range option" where
  "parse_piece word piece =
     (let dash = find_char (CHR ''-'') piece 0;
          lowOk = read_position (case dash of None \<Rightarrow> piece | Some d \<Rightarrow> take d piece);
          highOk = (case dash of None \<Rightarrow> lowOk | Some d \<Rightarrow> read_position (drop (d + 1) piece))
      in case (lowOk, highOk) of
           (Some lo, Some hi) \<Rightarrow>
             if hi < lo then None else Some \<lparr>configWord = word, low = lo, high = hi\<rparr>
         | _ \<Rightarrow> None)"

text \<open>The loop over the pieces between commas, from the cursor on.\<close>

function parse_ranges :: "int \<Rightarrow> string \<Rightarrow> format_range list \<Rightarrow> format_range list option" where
  "parse_ranges word rest parsed =
     (let piece = takeWhile (\<lambda>c. c \<noteq> CHR '','') rest
      in if piece = [] then Some parsed
         else
           case parse_piece word piece of
             None \<Rightarrow> None
           | Some r \<Rightarrow>
               if dropWhile (\<lambda>c. c \<noteq> CHR '','') rest = [] then Some (parsed @ [r])
               else parse_ranges word (tl (dropWhile (\<lambda>c. c \<noteq> CHR '','') rest)) (parsed @ [r]))"
  by pat_completeness auto

termination
proof (relation "measure (\<lambda>(word, rest, parsed). length rest)")
  fix word rest parsed and piece :: string and r
  assume "dropWhile (\<lambda>c. c \<noteq> CHR '','') rest \<noteq> []"
  moreover have "length (dropWhile (\<lambda>c. c \<noteq> CHR '','') rest) \<le> length rest" by (rule length_dropWhile_le)
  ultimately show "((word, tl (dropWhile (\<lambda>c. c \<noteq> CHR '','') rest), parsed @ [r]), word, rest, parsed)
      \<in> measure (\<lambda>(word, rest, parsed). length rest)"
    by (cases "dropWhile (\<lambda>c. c \<noteq> CHR '','') rest") auto
qed simp

declare parse_ranges.simps [simp del]

definition parseFormatField :: "string \<Rightarrow> (bool \<times> format_range list) checked" where
  "parseFormatField spec =
     (case find_char (CHR '':'') spec 0 of
        None \<Rightarrow> Some (False, [])
      | Some colon \<Rightarrow>
          map_option (\<lambda>word.
              case parse_ranges word (drop (colon + 1) spec) [] of
                None \<Rightarrow> (False, [])
              | Some parsed \<Rightarrow> if parsed = [] then (False, []) else (True, parsed))
            (wordOf (take colon spec)))"

text \<open>\<open>std::from_chars\<close> at base ten for \<open>int\<close>: the value and the unread tail, or an error.\<close>

definition from_chars_int :: "string \<Rightarrow> (int \<times> string) option" where
  "from_chars_int s =
     (let negative = starts_with s ''-'';
          body = (if negative then tl s else s);
          digits = takeWhile is_digit body;
          value = (if negative then - int (digits_value 10 digits) else int (digits_value 10 digits))
      in if digits = [] \<or> value > int_max \<or> value < - int_max - 1 then None
         else Some (value, dropWhile is_digit body))"

definition fixed_prefix :: string where
  "fixed_prefix = ''Fixed counter ''"

definition fixedCounterDesignation :: "string \<Rightarrow> int" where
  "fixedCounterDesignation t =
     (if \<not> starts_with t fixed_prefix then - 1
      else
        case from_chars_int (drop (length fixed_prefix) t) of
          None \<Rightarrow> - 1
        | Some (number, rest) \<Rightarrow> if rest \<noteq> [] \<or> number < 0 then - 1 else number)"

definition pmuRowTakesFixedAlias :: "field_value list \<Rightarrow> int \<Rightarrow> bool" where
  "pmuRowTakesFixedAlias fs fixedCounter \<longleftrightarrow>
     fixedCounter \<ge> 0 \<and> \<not> list_ex (\<lambda>field. fst field = ''event'') fs"

definition pmuFixedCounterAlias :: "u32 \<Rightarrow> string" where
  "pmuFixedCounterAlias number =
     (if number = 0 then ''instructions''
      else if number = 1 then ''cpu-cycles''
      else if number = 2 then ''ref-cycles''
      else [])"

subsection \<open>Composition\<close>

fun merge_word :: "int \<Rightarrow> u64 \<Rightarrow> config_words \<Rightarrow> config_words" where
  "merge_word w placed [] = [(w, placed)]"
| "merge_word w placed (e # es) =
     (if fst e = w then (w, snd e OR placed) # es else e # merge_word w placed es)"

definition range_width :: "format_range \<Rightarrow> u64" where
  "range_width r = of_int (high r - low r + 1)"

definition range_capacity :: "u64 \<Rightarrow> u64" where
  "range_capacity width = (if width \<ge> 64 then - 1 else push_bit (unat width) 1 - 1)"

text \<open>
  The loop over the ranges of one field: the shift it ends with and the words, \<open>Inl ()\<close> when the
  composition is refused.
\<close>

fun place_ranges :: "u64 \<Rightarrow> format_range list \<Rightarrow> u32 \<Rightarrow> config_words \<Rightarrow> (unit + (u32 \<times> config_words)) checked" where
  "place_ranges v [] shift composed = Some (Inr (shift, composed))"
| "place_ranges v (r # rs) shift composed =
     (if shift \<ge> 64 then Some (Inl ())
      else if low r < 0 \<or> low r \<ge> 64 then None
      else
        let width = range_width r;
            chunk = drop_bit (unat shift) v AND range_capacity width;
            placed = push_bit (nat (low r)) chunk
        in place_ranges v rs (shift + ucast width) (merge_word (configWord r) placed composed))"

definition format_of :: "string \<Rightarrow> field_format list \<Rightarrow> format_range list option" where
  "format_of name formats = map_option snd (List.find (\<lambda>f. fst f = name) formats)"

fun compose_fields :: "field_format list \<Rightarrow> field_value list \<Rightarrow> config_words \<Rightarrow> config_words option checked" where
  "compose_fields formats [] composed = Some (Some composed)"
| "compose_fields formats ((name, v) # fs) composed =
     (case format_of name formats of
        None \<Rightarrow> Some None
      | Some ranges \<Rightarrow>
          if ranges = [] then Some None
          else
            (case place_ranges v ranges 0 composed of
               None \<Rightarrow> None
             | Some (Inl _) \<Rightarrow> Some None
             | Some (Inr (shift, composed1)) \<Rightarrow>
                 if shift < 64 \<and> drop_bit (unat shift) v \<noteq> 0 then Some None
                 else compose_fields formats fs composed1))"

text \<open>\<open>Some None\<close> is the refusal, which leaves the caller's words alone.\<close>

definition pmuComposeConfig :: "field_value list \<Rightarrow> field_format list \<Rightarrow> config_words option checked" where
  "pmuComposeConfig fs formats = compose_fields formats fs []"

text \<open>The merge of one own word into the alias words: \<open>None\<close> when a bit is placed twice.\<close>

fun merge_disjoint :: "int \<Rightarrow> u64 \<Rightarrow> config_words \<Rightarrow> config_words option" where
  "merge_disjoint w v [] = Some [(w, v)]"
| "merge_disjoint w v (t # ts) =
     (if fst t \<noteq> w then map_option (Cons t) (merge_disjoint w v ts)
      else if snd t AND v \<noteq> 0 then None
      else Some ((w, snd t OR v) # ts))"

fun merge_own :: "config_words \<Rightarrow> config_words \<Rightarrow> config_words option" where
  "merge_own [] merged = Some merged"
| "merge_own ((w, v) # own) merged =
     (case merge_disjoint w v merged of None \<Rightarrow> None | Some merged1 \<Rightarrow> merge_own own merged1)"

definition own_fields :: "field_value list \<Rightarrow> field_value list" where
  "own_fields fs = List.filter (\<lambda>field. fst field \<noteq> ''umask'') fs"

text \<open>\<open>Inl\<close> carries the refusal sentence.\<close>

definition pmuComposeFixedCounterRow ::
  "u32 \<Rightarrow> config_words \<Rightarrow> field_value list \<Rightarrow> field_format list \<Rightarrow> (string + config_words) checked" where
  "pmuComposeFixedCounterRow number aliasWords fs formats =
     (if aliasWords = [] then
        Some (Inl (''this kernel publishes no alias for fixed counter '' @ decimal (unat number)
          @ '', so the row names a counter with no encoding on this host''))
      else
        case pmuComposeConfig (own_fields fs) formats of
          None \<Rightarrow> None
        | Some None \<Rightarrow>
            Some (Inl (''the row for fixed counter '' @ decimal (unat number)
              @ '' carries a field this device publishes no format for''))
        | Some (Some composed) \<Rightarrow>
            (case merge_own composed aliasWords of
               None \<Rightarrow>
                 Some (Inl (''the row for fixed counter '' @ decimal (unat number)
                   @ '' places bits the kernel alias of that counter already places''))
             | Some merged \<Rightarrow> Some (Inr merged)))"

subsection \<open>Spelling a format\<close>

definition spell_range :: "format_range \<Rightarrow> string" where
  "spell_range r =
     (if high r = low r then decimal (nat (low r)) else decimal (nat (low r)) @ CHR ''-'' # decimal (nat (high r)))"

fun spell_ranges :: "format_range list \<Rightarrow> string" where
  "spell_ranges [] = []"
| "spell_ranges [r] = spell_range r"
| "spell_ranges (r # rs) = spell_range r @ CHR '','' # spell_ranges rs"

definition spell_format :: "string \<Rightarrow> nat \<Rightarrow> format_range list \<Rightarrow> string" where
  "spell_format letters w ranges =
     letters @ (if w = 0 then [] else decimal w) @ CHR '':'' # spell_ranges ranges"

definition two_digit :: "format_range \<Rightarrow> bool" where
  "two_digit r \<longleftrightarrow> 0 \<le> low r \<and> low r \<le> high r \<and> high r \<le> 99"

lemma digit_no_punctuation:
  assumes "is_digit c"
  shows "c \<noteq> CHR '',''" "c \<noteq> CHR ''-''" "c \<noteq> CHR '':''" "\<not> is_lower c"
  using assms by (auto simp: is_digit_def is_lower_def)

lemma decimal_length: "n < 100 \<Longrightarrow> length (decimal n) \<le> 2"
  by (cases "n < 10") (simp_all add: decimal.simps [of n] decimal.simps [of "n div 10"])

lemma read_decimal:
  assumes "0 \<le> i" and "i \<le> 99"
  shows "read_position (decimal (nat i)) = Some i"
proof -
  have "nat i < 100" using assms by linarith
  then have "length (decimal (nat i)) \<le> 2" by (rule decimal_length)
  with assms(1) decimal_digits [of "nat i"] show ?thesis by (simp add: read_position_def list_all_iff)
qed

lemma find_char_first:
  "c \<notin> set pre \<Longrightarrow> find_char c (pre @ c # post) 0 = Some (length pre)"
  by (auto simp: find_char_def index_of_append split: option.split dest: index_of_Some)

lemma find_char_fresh: "c \<notin> set s \<Longrightarrow> find_char c s 0 = None"
  by (auto simp: find_char_def index_of_None)

lemma parse_spelled_piece:
  assumes "two_digit r"
  shows "parse_piece (configWord r) (spell_range r) = Some r"
proof -
  have no: "CHR ''-'' \<notin> set (decimal n)" for n using decimal_digits digit_no_punctuation(2) by blast
  have lo: "read_position (decimal (nat (low r))) = Some (low r)"
    and hi: "read_position (decimal (nat (high r))) = Some (high r)"
    using assms by (auto simp: two_digit_def intro!: read_decimal)
  show ?thesis
  proof (cases "high r = low r")
    case True
    with lo show ?thesis by (simp add: parse_piece_def spell_range_def find_char_fresh [OF no])
  next
    case False
    with lo hi assms show ?thesis
      by (simp add: parse_piece_def spell_range_def find_char_first [OF no] two_digit_def)
  qed
qed

lemma spell_range_shape: "spell_range r \<noteq> []" "\<forall>c \<in> set (spell_range r). c \<noteq> CHR '',''"
  using decimal_digits digit_no_punctuation(1) by (auto simp: spell_range_def)

lemma parse_spelled_ranges:
  "ranges \<noteq> [] \<Longrightarrow> \<forall>r \<in> set ranges. two_digit r \<and> configWord r = w \<Longrightarrow>
   parse_ranges w (spell_ranges ranges) parsed = Some (parsed @ ranges)"
proof (induction ranges arbitrary: parsed rule: spell_ranges.induct)
  case 1
  then show ?case by simp
next
  case (2 r)
  then have "parse_piece w (spell_range r) = Some r" using parse_spelled_piece [of r] by auto
  moreover have tw: "takeWhile (\<lambda>c. c \<noteq> CHR '','') (spell_range r) = spell_range r"
    "dropWhile (\<lambda>c. c \<noteq> CHR '','') (spell_range r) = []"
    using spell_range_shape(2) by auto
  ultimately show ?case
    using spell_range_shape(1) [of r] by (subst parse_ranges.simps) (simp add: tw)
next
  case (3 r r' rs)
  have "two_digit r" "configWord r = w" using "3.prems"(2) by simp_all
  then have p: "parse_piece w (spell_range r) = Some r" using parse_spelled_piece by blast
  have tw: "takeWhile (\<lambda>c. c \<noteq> CHR '','') (spell_range r @ CHR '','' # x) = spell_range r"
    "dropWhile (\<lambda>c. c \<noteq> CHR '','') (spell_range r @ CHR '','' # x) = CHR '','' # x" for x
    using spell_range_shape(2) [of r] by (simp_all add: takeWhile_append2 dropWhile_append2)
  have ih: "parse_ranges w (spell_ranges (r' # rs)) (parsed @ [r]) = Some ((parsed @ [r]) @ r' # rs)"
    using "3.prems" by (intro "3.IH") simp_all
  show ?case
    unfolding spell_ranges.simps
    by (subst parse_ranges.simps) (simp only: Let_def tw p spell_range_shape(1) option.simps ih list.simps list.sel if_False, simp)
qed

lemma digits_from: "v \<le> foldl (\<lambda>v c. 10 * v + digit_value c) v cs"
proof (induction cs arbitrary: v)
  case Nil
  then show ?case by simp
next
  case (Cons c cs)
  have "v \<le> 10 * v + digit_value c" by simp
  also note Cons
  finally show ?case by simp
qed

lemma word_index_digits:
  "\<forall>c \<in> set cs. is_digit c \<Longrightarrow> int (foldl (\<lambda>v c. 10 * v + digit_value c) v cs) \<le> int_max \<Longrightarrow>
   word_index cs (int v) = Some (int (foldl (\<lambda>v c. 10 * v + digit_value c) v cs))"
proof (induction cs arbitrary: v)
  case Nil
  then show ?case by simp
next
  case (Cons c cs)
  have "int (10 * v + digit_value c) \<le> int_max"
    using Cons.prems(2) digits_from [of "10 * v + digit_value c" cs] by simp
  moreover have "word_index cs (int (10 * v + digit_value c)) = Some (int (foldl (\<lambda>v c. 10 * v + digit_value c) v (c # cs)))"
    using Cons.IH [of "10 * v + digit_value c"] Cons.prems by simp
  ultimately show ?case using Cons.prems(1) by (simp add: isConfigDigit_def algebra_simps)
qed

lemma wordOf_spelled:
  assumes "\<forall>c \<in> set letters. is_lower c" and "int w \<le> int_max"
  shows "wordOf (letters @ (if w = 0 then [] else decimal w)) = Some (int w)"
proof -
  have "dropWhile isConfigLetter (decimal w) = decimal w"
    using decimal_digits [of w] digit_no_punctuation(4) decimal_nonempty [of w]
    by (cases "decimal w") (auto simp: isConfigLetter_def)
  moreover have "word_index (decimal w) (int 0) = Some (int w)"
    using word_index_digits [OF decimal_digits, of 0 w] assms(2) digits_value_decimal [of w]
    by (simp add: digits_value_def)
  ultimately show ?thesis
    using assms(1) by (auto simp: wordOf_def isConfigLetter_def dropWhile_append2)
qed

lemma spelled_format_lemma:
  assumes "\<forall>c \<in> set letters. is_lower c" and "int w \<le> int_max" and "ranges \<noteq> []"
    and "\<forall>r \<in> set ranges. two_digit r \<and> configWord r = int w"
  shows "parseFormatField (spell_format letters w ranges) = Some (True, ranges)"
proof -
  let ?name = "letters @ (if w = 0 then [] else decimal w)"
  have "CHR '':'' \<notin> set ?name"
    using assms(1) decimal_digits [of w] digit_no_punctuation(3) by (auto simp: is_lower_def)
  then have "find_char (CHR '':'') (spell_format letters w ranges) 0 = Some (length ?name)"
    using find_char_first [of "CHR '':''" ?name "spell_ranges ranges"] by (simp add: spell_format_def)
  moreover have "take (length ?name) (spell_format letters w ranges) = ?name"
    "drop (length ?name + 1) (spell_format letters w ranges) = spell_ranges ranges"
    by (simp_all add: spell_format_def)
  ultimately show ?thesis
    using wordOf_spelled [OF assms(1,2)] parse_spelled_ranges [OF assms(3,4), of "[]"] assms(3)
    by (simp only: parseFormatField_def option.simps) simp
qed

text \<open>
  A format file that spells ranges of positions below 100 is parsed back to exactly those ranges, all
  of the config word its name selects.
\<close>

theorem spelled_format_is_parsed:
  assumes "\<forall>c \<in> set letters. is_lower c" and "int w \<le> int_max" and "ranges \<noteq> []"
    and "\<forall>r \<in> set ranges. two_digit r \<and> configWord r = int w"
  shows "parseFormatField (spell_format letters w ranges) = Some (True, ranges)"
  using assms by (rule spelled_format_lemma)

lemma spelled_example:
  "spell_format ''config'' 1 [\<lparr>configWord = 1, low = 0, high = 7\<rparr>, \<lparr>configWord = 1, low = 32, high = 32\<rparr>,
      \<lparr>configWord = 1, low = 40, high = 43\<rparr>] = ''config1:0-7,32,40-43''"
  by code_simp

theorem spelled_format_is_parsed_witness:
  "parseFormatField ''config1:0-7,32,40-43'' = Some (True,
     [\<lparr>configWord = 1, low = 0, high = 7\<rparr>, \<lparr>configWord = 1, low = 32, high = 32\<rparr>, \<lparr>configWord = 1, low = 40, high = 43\<rparr>])"
  using spelled_format_is_parsed [of "''config''" 1
      "[\<lparr>configWord = 1, low = 0, high = 7\<rparr>, \<lparr>configWord = 1, low = 32, high = 32\<rparr>, \<lparr>configWord = 1, low = 40, high = 43\<rparr>]"]
  unfolding spelled_example by (simp add: two_digit_def int_max_def is_lower_def)

subsection \<open>Placing the bits of a field\<close>

text \<open>Where the bits of a value go: the positions of the ranges, in order.\<close>

definition range_positions :: "format_range \<Rightarrow> (int \<times> nat) list" where
  "range_positions r = map (\<lambda>k. (configWord r, nat (low r) + k)) [0..<nat (high r - low r + 1)]"

definition positions :: "format_range list \<Rightarrow> (int \<times> nat) list" where
  "positions rs = concat (map range_positions rs)"

definition range_ok :: "format_range \<Rightarrow> bool" where
  "range_ok r \<longleftrightarrow> 0 \<le> low r \<and> low r \<le> high r \<and> high r < 64"

definition word_bit :: "config_words \<Rightarrow> int \<Rightarrow> nat \<Rightarrow> bool" where
  "word_bit ws w p = (case map_of ws w of None \<Rightarrow> False | Some x \<Rightarrow> bit x p)"

lemma word_bit_Nil [simp]: "\<not> word_bit [] w p"
  by (simp add: word_bit_def)

lemma word_bit_Cons: "word_bit ((v, x) # ws) w p = (if w = v then bit x p else word_bit ws w p)"
  by (simp add: word_bit_def)

lemma word_bit_merge: "word_bit (merge_word v x ws) w p \<longleftrightarrow> word_bit ws w p \<or> w = v \<and> bit x p"
  by (induction v x ws rule: merge_word.induct) (auto simp: word_bit_Cons bit_or_iff)

lemma range_width_unat:
  assumes "range_ok r"
  shows "unat (range_width r) = nat (high r - low r + 1)"
proof -
  have "range_width r = of_nat (nat (high r - low r + 1))" using assms by (simp add: range_width_def range_ok_def)
  moreover have "nat (high r - low r + 1) \<le> 64" using assms by (auto simp: range_ok_def)
  ultimately show ?thesis by (simp add: unat_of_nat)
qed

lemma range_capacity_mask: "unat width \<le> 64 \<Longrightarrow> range_capacity width = mask (unat width)"
proof (cases "width \<ge> 64")
  case True
  moreover assume "unat width \<le> 64"
  ultimately have "unat width = 64" by (simp add: word_le_nat_alt)
  then show ?thesis using True by (simp add: range_capacity_def mask_eq_iff_w2p flip: mask_full)
next
  case False
  then show ?thesis by (simp add: range_capacity_def mask_eq_decr_exp push_bit_eq_mult)
qed

text \<open>One range takes the bits of the value from the shift on and puts them from its low position on.\<close>

lemma placed_bit:
  assumes "range_ok r"
  shows "bit (push_bit (nat (low r)) (drop_bit s v AND range_capacity (range_width r))) p
    \<longleftrightarrow> (\<exists>k < nat (high r - low r + 1). p = nat (low r) + k \<and> bit v (s + k))"
proof -
  let ?k = "nat (high r - low r + 1)"
  have w: "unat (range_width r) = ?k" using assms by (rule range_width_unat)
  have le: "?k \<le> 64" "nat (low r) + ?k \<le> 64" using assms by (auto simp: range_ok_def)
  have cap: "range_capacity (range_width r) = mask ?k" using range_capacity_mask [of "range_width r"] w le by simp
  show ?thesis
  proof
    assume "bit (push_bit (nat (low r)) (drop_bit s v AND range_capacity (range_width r))) p"
    then have "nat (low r) \<le> p" "bit v (s + (p - nat (low r)))" "p - nat (low r) < ?k"
      by (auto simp: cap bit_push_bit_iff bit_and_iff bit_mask_iff bit_drop_bit_eq)
    then show "\<exists>k < ?k. p = nat (low r) + k \<and> bit v (s + k)"
      by (intro exI [of _ "p - nat (low r)"]) simp
  next
    assume "\<exists>k < ?k. p = nat (low r) + k \<and> bit v (s + k)"
    then obtain k where k: "k < ?k" "p = nat (low r) + k" "bit v (s + k)" by blast
    moreover have "k < 64" "p < 64" using k le by linarith+
    ultimately show "bit (push_bit (nat (low r)) (drop_bit s v AND range_capacity (range_width r))) p"
      by (simp add: cap bit_push_bit_iff bit_and_iff bit_mask_iff bit_drop_bit_eq)
  qed
qed

lemma positions_simps [simp]:
  "positions [] = []" "positions (r # rs) = range_positions r @ positions rs"
  by (simp_all add: positions_def)

lemma range_positions_length [simp]: "length (range_positions r) = nat (high r - low r + 1)"
  by (simp add: range_positions_def)

lemma nth_append_ex:
  "(\<exists>i < length (xs @ ys). P ((xs @ ys) ! i) i) \<longleftrightarrow>
   (\<exists>i < length xs. P (xs ! i) i) \<or> (\<exists>i < length ys. P (ys ! i) (length xs + i))"
proof
  assume "\<exists>i < length (xs @ ys). P ((xs @ ys) ! i) i"
  then obtain i where i: "i < length (xs @ ys)" "P ((xs @ ys) ! i) i" by blast
  show "(\<exists>i < length xs. P (xs ! i) i) \<or> (\<exists>i < length ys. P (ys ! i) (length xs + i))"
  proof (cases "i < length xs")
    case True
    with i show ?thesis by (auto simp: nth_append)
  next
    case False
    with i have "i - length xs < length ys" "P (ys ! (i - length xs)) (length xs + (i - length xs))"
      by (auto simp: nth_append)
    then show ?thesis by blast
  qed
next
  assume "(\<exists>i < length xs. P (xs ! i) i) \<or> (\<exists>i < length ys. P (ys ! i) (length xs + i))"
  then show "\<exists>i < length (xs @ ys). P ((xs @ ys) ! i) i"
  proof
    assume "\<exists>i < length xs. P (xs ! i) i"
    then obtain i where "i < length xs" "P (xs ! i) i" by blast
    then show ?thesis by (intro exI [of _ i]) (simp add: nth_append)
  next
    assume "\<exists>i < length ys. P (ys ! i) (length xs + i)"
    then obtain i where "i < length ys" "P (ys ! i) (length xs + i)" by blast
    then show ?thesis by (intro exI [of _ "length xs + i"]) simp
  qed
qed

lemma place_ranges_bits:
  assumes "\<forall>r \<in> set rs. range_ok r" and "unat shift + length (positions rs) \<le> 64"
  shows "\<exists>shift' composed'. place_ranges v rs shift composed = Some (Inr (shift', composed'))
     \<and> unat shift' = unat shift + length (positions rs)
     \<and> (\<forall>w p. word_bit composed' w p \<longleftrightarrow> word_bit composed w p
          \<or> (\<exists>i < length (positions rs). positions rs ! i = (w, p) \<and> bit v (unat shift + i)))"
  using assms
proof (induction rs arbitrary: shift composed)
  case Nil
  then show ?case by simp
next
  case (Cons r rs)
  let ?k = "nat (high r - low r + 1)"
  have r: "range_ok r" using Cons.prems by simp
  then have k: "0 < ?k" "?k \<le> 64" by (auto simp: range_ok_def)
  have lt: "unat shift < 64" using Cons.prems k by simp
  let ?placed = "push_bit (nat (low r)) (drop_bit (unat shift) v AND range_capacity (range_width r))"
  let ?shift = "shift + ucast (range_width r) :: u32"
  have "unat (ucast (range_width r) :: u32) = ?k"
    using range_width_unat [OF r] k by (simp add: unsigned_ucast_eq take_bit_nat_eq_self)
  then have sh: "unat ?shift = unat shift + ?k" using lt k by (simp add: unat_add_lem [THEN iffD1])
  have start: "place_ranges v (r # rs) shift composed = place_ranges v rs ?shift (merge_word (configWord r) ?placed composed)"
    using lt r by (simp add: Let_def word_le_nat_alt range_ok_def)
  have "unat ?shift + length (positions rs) \<le> 64" using Cons.prems(2) sh by simp
  with Cons.IH [of ?shift "merge_word (configWord r) ?placed composed"] Cons.prems(1)
  obtain shift' composed' where rec: "place_ranges v rs ?shift (merge_word (configWord r) ?placed composed) = Some (Inr (shift', composed'))"
    "unat shift' = unat ?shift + length (positions rs)"
    "\<And>w p. word_bit composed' w p \<longleftrightarrow> word_bit (merge_word (configWord r) ?placed composed) w p
          \<or> (\<exists>i < length (positions rs). positions rs ! i = (w, p) \<and> bit v (unat ?shift + i))"
    by auto
  have head: "(\<exists>i < length (range_positions r). range_positions r ! i = (w, p) \<and> bit v (unat shift + i))
      \<longleftrightarrow> w = configWord r \<and> bit ?placed p" for w p
    unfolding placed_bit [OF r] by (auto simp: range_positions_def)
  have "word_bit composed' w p \<longleftrightarrow> word_bit composed w p
          \<or> (\<exists>i < length (positions (r # rs)). positions (r # rs) ! i = (w, p) \<and> bit v (unat shift + i))" for w p
    unfolding positions_simps(2) nth_append_ex [where P = "\<lambda>x i. x = (w, p) \<and> bit v (unat shift + i)"] head
    unfolding rec(3) word_bit_merge sh by (simp add: add.assoc disj.assoc)
  with rec(1,2) show ?case by (intro exI [of _ shift'] exI [of _ composed']) (simp add: start sh del: place_ranges.simps)
qed

text \<open>A field is encodable when the device publishes its format and the value fits the positions.\<close>

definition field_fits :: "field_format list \<Rightarrow> field_value \<Rightarrow> bool" where
  "field_fits formats field \<longleftrightarrow>
     (case format_of (fst field) formats of
        None \<Rightarrow> False
      | Some rs \<Rightarrow> rs \<noteq> [] \<and> unat (snd field) < 2 ^ length (positions rs))"

definition formats_ok :: "field_format list \<Rightarrow> bool" where
  "formats_ok formats \<longleftrightarrow>
     (\<forall>f \<in> set formats. (\<forall>r \<in> set (snd f). range_ok r) \<and> length (positions (snd f)) \<le> 64)"

definition field_bit :: "field_format list \<Rightarrow> field_value \<Rightarrow> int \<Rightarrow> nat \<Rightarrow> bool" where
  "field_bit formats field w p \<longleftrightarrow>
     (case format_of (fst field) formats of
        None \<Rightarrow> False
      | Some rs \<Rightarrow> \<exists>i < length (positions rs). positions rs ! i = (w, p) \<and> bit (snd field) i)"

lemma unat_u64_bound: "unat (v::u64) < 2 ^ 64"
  using unsigned_less [of v, where 'a = nat] by simp

lemma drop_bit_zero_iff: "drop_bit n (v::u64) = 0 \<longleftrightarrow> unat v < 2 ^ n"
proof -
  have "drop_bit n v = 0 \<longleftrightarrow> unat (drop_bit n v) = 0" by (simp add: unat_eq_0)
  also have "unat (drop_bit n v) = unat v div 2 ^ n" 
    unfolding unsigned_drop_bit_eq using unat_u64_bound [of v] by (simp add: drop_bit_eq_div take_bit_nat_eq_self)
  finally show ?thesis by (simp add: div_eq_0_iff)
qed

lemma format_of_ok:
  assumes "formats_ok formats" and "format_of name formats = Some rs"
  shows "(\<forall>r \<in> set rs. range_ok r) \<and> length (positions rs) \<le> 64"
proof -
  obtain f where "List.find (\<lambda>f. fst f = name) formats = Some f" and rs: "snd f = rs"
    using assms(2) by (auto simp: format_of_def)
  then have "f \<in> set formats" by (auto simp: find_Some_iff)
  with assms(1) rs show ?thesis by (auto simp: formats_ok_def)
qed

lemma compose_one:
  assumes ok: "formats_ok formats" and f: "format_of name formats = Some rs" and ne: "rs \<noteq> []"
  shows "if unat v < 2 ^ length (positions rs)
    then \<exists>composed1. compose_fields formats ((name, v) # fs) composed = compose_fields formats fs composed1
      \<and> (\<forall>w p. word_bit composed1 w p \<longleftrightarrow> word_bit composed w p \<or> field_bit formats (name, v) w p)
    else compose_fields formats ((name, v) # fs) composed = Some None"
proof -
  have rs: "\<forall>r \<in> set rs. range_ok r" "length (positions rs) \<le> 64" using format_of_ok [OF ok f] by simp_all
  then have "unat (0::u32) + length (positions rs) \<le> 64" by simp
  from place_ranges_bits [OF rs(1) this, of v composed] obtain shift' composed' where
    p: "place_ranges v rs 0 composed = Some (Inr (shift', composed'))" "unat shift' = length (positions rs)"
    "\<And>w p. word_bit composed' w p \<longleftrightarrow> word_bit composed w p
          \<or> (\<exists>i < length (positions rs). positions rs ! i = (w, p) \<and> bit v i)"
    by auto
  have small: "(shift' < 64 \<and> drop_bit (unat shift') v \<noteq> 0) \<longleftrightarrow> \<not> unat v < 2 ^ length (positions rs)"
  proof (cases "length (positions rs) = 64")
    case True
    then have "\<not> shift' < 64" using p(2) by (simp add: word_less_nat_alt)
    with True unat_u64_bound [of v] show ?thesis by simp
  next
    case False
    then have "shift' < 64" using p(2) rs(2) by (simp add: word_less_nat_alt)
    then show ?thesis by (simp add: drop_bit_zero_iff p(2))
  qed
  have step: "compose_fields formats ((name, v) # fs) composed
      = (if \<not> unat v < 2 ^ length (positions rs) then Some None else compose_fields formats fs composed')"
    unfolding small [symmetric] using p(1) ne by (simp add: f)
  show ?thesis
  proof (cases "unat v < 2 ^ length (positions rs)")
    case True
    with step p(3) show ?thesis by (auto simp: field_bit_def f)
  next
    case False
    with step show ?thesis by simp
  qed
qed

lemma compose_fields_bits:
  assumes ok: "formats_ok formats"
  shows "if \<forall>field \<in> set fs. field_fits formats field
    then \<exists>ws. compose_fields formats fs composed = Some (Some ws)
      \<and> (\<forall>w p. word_bit ws w p \<longleftrightarrow> word_bit composed w p \<or> (\<exists>field \<in> set fs. field_bit formats field w p))
    else compose_fields formats fs composed = Some None"
proof (induction fs arbitrary: composed)
  case Nil
  then show ?case by simp
next
  case (Cons field fs)
  obtain name v where field: "field = (name, v)" by force
  show ?case
  proof (cases "format_of name formats")
    case None
    then show ?thesis by (simp add: field field_fits_def)
  next
    case (Some rs)
    show ?thesis
    proof (cases "rs = []")
      case True
      then show ?thesis by (simp add: field field_fits_def Some)
    next
      case ne: False
      note one = compose_one [OF ok Some ne, of v fs composed]
      show ?thesis
      proof (cases "unat v < 2 ^ length (positions rs)")
        case True
        with one obtain composed1 where c: "compose_fields formats (field # fs) composed = compose_fields formats fs composed1"
          "\<And>w p. word_bit composed1 w p \<longleftrightarrow> word_bit composed w p \<or> field_bit formats field w p"
          by (auto simp: field)
        have fits: "field_fits formats field" using True ne by (simp add: field field_fits_def Some)
        show ?thesis using Cons.IH [of composed1] by (simp add: c fits disj.assoc split: if_splits)
      next
        case False
        with one have "compose_fields formats (field # fs) composed = Some None" by (simp add: field)
        moreover have "\<not> field_fits formats field" using False by (simp add: field field_fits_def Some)
        ultimately show ?thesis by simp
      qed
    qed
  qed
qed

text \<open>
  C7. Composition is the placement of bits: with the formats of a device, it succeeds exactly when every
  field has a format and fits it, and then bit \<open>p\<close> of word \<open>w\<close> is set exactly when some field has a set bit
  whose position in its format is bit \<open>p\<close> of word \<open>w\<close>; otherwise it is refused and nothing is composed.
\<close>

theorem composition_places_the_bits:
  assumes "formats_ok formats"
  shows "if \<forall>field \<in> set fs. field_fits formats field
    then \<exists>ws. pmuComposeConfig fs formats = Some (Some ws)
      \<and> (\<forall>w p. word_bit ws w p \<longleftrightarrow> (\<exists>field \<in> set fs. field_bit formats field w p))
    else pmuComposeConfig fs formats = Some None"
  using compose_fields_bits [OF assms, of fs "[]"] by (auto simp: pmuComposeConfig_def split: if_splits)

lemma field_bit_search:
  "field_bit formats field w p \<longleftrightarrow>
     (case format_of (fst field) formats of
        None \<Rightarrow> False
      | Some rs \<Rightarrow> list_ex (\<lambda>i. positions rs ! i = (w, p) \<and> bit (snd field) i) [0..<length (positions rs)])"
  by (auto simp: field_bit_def list_ex_iff split: option.splits)

definition core_formats :: "field_format list" where
  "core_formats = [(''event'', [\<lparr>configWord = 0, low = 0, high = 7\<rparr>, \<lparr>configWord = 0, low = 32, high = 35\<rparr>]),
     (''umask'', [\<lparr>configWord = 0, low = 8, high = 15\<rparr>])]"

lemma core_formats_ok: "formats_ok core_formats"
  by (simp add: formats_ok_def core_formats_def range_ok_def range_positions_def)

theorem composition_places_the_bits_witness:
  "\<exists>ws. pmuComposeConfig [(''event'', 0x10E), (''umask'', 0x41)] core_formats = Some (Some ws) \<and> word_bit ws 0 32 \<and> \<not> word_bit ws 0 0"
proof -
  have f: "format_of ''event'' core_formats = Some [\<lparr>configWord = 0, low = 0, high = 7\<rparr>, \<lparr>configWord = 0, low = 32, high = 35\<rparr>]"
    "format_of ''umask'' core_formats = Some [\<lparr>configWord = 0, low = 8, high = 15\<rparr>]"
    by (simp_all add: format_of_def core_formats_def)
  have pos: "positions [\<lparr>configWord = 0, low = 0, high = 7\<rparr>, \<lparr>configWord = 0, low = 32, high = 35\<rparr>]
      = map (Pair 0) [0, 1, 2, 3, 4, 5, 6, 7, 32, 33, 34, 35]"
    "positions [\<lparr>configWord = 0, low = 8, high = 15\<rparr>] = map (Pair 0) [8, 9, 10, 11, 12, 13, 14, 15]"
    by (simp_all add: range_positions_def upt_rec)
  have fits: "\<forall>field \<in> set [(''event'', 0x10E), (''umask'', 0x41)]. field_fits core_formats field"
    by (simp add: field_fits_def f pos)
  with composition_places_the_bits [OF core_formats_ok, of "[(''event'', 0x10E), (''umask'', 0x41)]"]
  obtain ws where "pmuComposeConfig [(''event'', 0x10E), (''umask'', 0x41)] core_formats = Some (Some ws)"
    "\<And>w p. word_bit ws w p \<longleftrightarrow> (\<exists>field \<in> set [(''event'', 0x10E), (''umask'', 0x41)]. field_bit core_formats field w p)"
    by (auto split: if_splits)
  then show ?thesis
    by (simp add: field_bit_search f upt_rec range_positions_def)
qed

subsection \<open>Reading a field back\<close>

definition gather :: "config_words \<Rightarrow> format_range list \<Rightarrow> u64" where
  "gather ws rs = horner_sum of_bool 2 (map (\<lambda>(w, p). word_bit ws w p) (positions rs))"

definition field_positions :: "field_format list \<Rightarrow> field_value \<Rightarrow> (int \<times> nat) list" where
  "field_positions formats field = (case format_of (fst field) formats of None \<Rightarrow> [] | Some rs \<Rightarrow> positions rs)"

lemma distinct_concat_same:
  "distinct (concat (map g xs)) \<Longrightarrow> a \<in> set xs \<Longrightarrow> b \<in> set xs \<Longrightarrow> y \<in> set (g a) \<Longrightarrow> y \<in> set (g b) \<Longrightarrow> a = b"
  by (induction xs) (auto simp: disjoint_iff)

lemma distinct_concat_part: "distinct (concat (map g xs)) \<Longrightarrow> a \<in> set xs \<Longrightarrow> distinct (g a)"
  by (induction xs) auto

lemma high_bits_clear:
  assumes "unat (v::u64) < 2 ^ n" and "n \<le> m"
  shows "\<not> bit v m"
proof -
  have "drop_bit n v = 0" using assms(1) by (simp add: drop_bit_zero_iff)
  then have "\<not> bit (drop_bit n v) (m - n)" by simp
  with assms(2) show ?thesis by (simp add: bit_drop_bit_eq)
qed

text \<open>
  Composed words hold every field losslessly: when no two fields share a bit position, reading the
  positions of a field's format out of the composed words gives the value of the field.
\<close>

theorem composed_fields_read_back:
  assumes ok: "formats_ok formats" and comp: "pmuComposeConfig fs formats = Some (Some ws)"
    and dis: "distinct (concat (map (field_positions formats) fs))"
    and field: "(name, v) \<in> set fs" and f: "format_of name formats = Some rs"
  shows "gather ws rs = v"
proof (rule bit_eqI)
  fix n
  have all: "\<forall>field \<in> set fs. field_fits formats field"
    and bits: "\<And>w p. word_bit ws w p \<longleftrightarrow> (\<exists>field \<in> set fs. field_bit formats field w p)"
    using compose_fields_bits [OF ok, of fs "[]"] comp by (auto simp: pmuComposeConfig_def split: if_splits)
  have fits: "unat v < 2 ^ length (positions rs)" using all field by (force simp: field_fits_def f)
  have len: "length (positions rs) \<le> 64" using format_of_ok [OF ok f] by simp
  have fp: "field_positions formats (name, v) = positions rs" by (simp add: field_positions_def f)
  have at: "word_bit ws (fst (positions rs ! n)) (snd (positions rs ! n)) \<longleftrightarrow> bit v n"
    if n: "n < length (positions rs)"
  proof
    assume "bit v n"
    with n have "field_bit formats (name, v) (fst (positions rs ! n)) (snd (positions rs ! n))"
      by (auto simp: field_bit_def f)
    with field bits show "word_bit ws (fst (positions rs ! n)) (snd (positions rs ! n))" by blast
  next
    assume "word_bit ws (fst (positions rs ! n)) (snd (positions rs ! n))"
    then obtain field' where f': "field' \<in> set fs" "field_bit formats field' (fst (positions rs ! n)) (snd (positions rs ! n))"
      using bits by blast
    then obtain i where i: "i < length (field_positions formats field')"
      "field_positions formats field' ! i = positions rs ! n" "bit (snd field') i"
      by (auto simp: field_bit_def field_positions_def split: option.splits)
    have "positions rs ! n \<in> set (field_positions formats field')" using i(1,2) nth_mem by metis
    moreover have "positions rs ! n \<in> set (field_positions formats (name, v))" using n by (simp add: fp)
    ultimately have same: "field' = (name, v)" by (rule distinct_concat_same [OF dis f'(1) field])
    have "distinct (positions rs)" using distinct_concat_part [OF dis field] by (simp add: fp)
    with i n same have "i = n" by (simp add: fp nth_eq_iff_index_eq)
    with i(3) same show "bit v n" by simp
  qed
  show "bit (gather ws rs) n \<longleftrightarrow> bit v n"
  proof (cases "n < length (positions rs)")
    case True
    with at [OF True] len show ?thesis
      by (simp add: gather_def bit_horner_sum_bit_iff case_prod_beta)
  next
    case False
    then show ?thesis using high_bits_clear [OF fits] by (simp add: gather_def bit_horner_sum_bit_iff)
  qed
qed

theorem composed_fields_read_back_witness:
  "\<exists>ws. pmuComposeConfig [(''event'', 0x10E), (''umask'', 0x41)] core_formats = Some (Some ws)
     \<and> gather ws [\<lparr>configWord = 0, low = 0, high = 7\<rparr>, \<lparr>configWord = 0, low = 32, high = 35\<rparr>] = 0x10E"
proof -
  have f: "format_of ''event'' core_formats = Some [\<lparr>configWord = 0, low = 0, high = 7\<rparr>, \<lparr>configWord = 0, low = 32, high = 35\<rparr>]"
    "format_of ''umask'' core_formats = Some [\<lparr>configWord = 0, low = 8, high = 15\<rparr>]"
    by (simp_all add: format_of_def core_formats_def)
  let ?fs = "[(''event'', 0x10E), (''umask'', 0x41)] :: field_value list"
  have "\<forall>field \<in> set ?fs. field_fits core_formats field" by (simp add: field_fits_def f)
  then obtain ws where ws: "pmuComposeConfig ?fs core_formats = Some (Some ws)"
    using compose_fields_bits [OF core_formats_ok, of ?fs "[]"] by (auto simp: pmuComposeConfig_def split: if_splits)
  have dis: "distinct (concat (map (field_positions core_formats) ?fs))"
    by (simp add: field_positions_def f range_positions_def upt_rec)
  from composed_fields_read_back [OF core_formats_ok ws dis _ f(1), of "0x10E"] ws show ?thesis by simp
qed

subsection \<open>The fixed-counter row\<close>

lemma keys_merge_word: "fst ` set (merge_word w x ws) = insert w (fst ` set ws)"
  by (induction w x ws rule: merge_word.induct) auto

lemma distinct_merge_word: "distinct (map fst ws) \<Longrightarrow> distinct (map fst (merge_word w x ws))"
proof (induction w x ws rule: merge_word.induct)
  case (1 w x)
  then show ?case by simp
next
  case (2 w x e es)
  then show ?case using keys_merge_word [of w x es] by auto
qed

lemma distinct_place_ranges:
  "place_ranges v rs shift ws = Some (Inr (shift', ws')) \<Longrightarrow> distinct (map fst ws) \<Longrightarrow> distinct (map fst ws')"
  by (induction v rs shift ws rule: place_ranges.induct) (auto simp: Let_def distinct_merge_word split: if_splits)

lemma distinct_compose_fields:
  "compose_fields formats fs ws = Some (Some ws') \<Longrightarrow> distinct (map fst ws) \<Longrightarrow> distinct (map fst ws')"
proof (induction fs arbitrary: ws)
  case Nil
  then show ?case by simp
next
  case (Cons field fs)
  obtain name v where field: "field = (name, v)" by force
  obtain rs where rs: "format_of name formats = Some rs" "rs \<noteq> []"
    using Cons.prems(1) by (auto simp: field split: option.splits if_splits)
  obtain y where y: "place_ranges v rs 0 ws = Some y"
    using Cons.prems(1) by (cases "place_ranges v rs 0 ws") (simp_all add: field rs)
  obtain shift ws1 where ws1: "y = Inr (shift, ws1)"
    using Cons.prems(1) by (cases y) (auto simp: field rs y)
  have "compose_fields formats fs ws1 = Some (Some ws')"
    using Cons.prems(1) by (simp add: field rs y ws1 split: if_splits)
  moreover have "distinct (map fst ws1)" using distinct_place_ranges y Cons.prems(2) unfolding ws1 by blast
  ultimately show ?case by (rule Cons.IH)
qed

lemma merge_disjoint_bits:
  "case merge_disjoint w v ts of
     None \<Rightarrow> \<exists>p. word_bit ts w p \<and> bit v p
   | Some ts' \<Rightarrow> (\<forall>p. \<not> (word_bit ts w p \<and> bit v p))
       \<and> (\<forall>w' p. word_bit ts' w' p \<longleftrightarrow> word_bit ts w' p \<or> w' = w \<and> bit v p)"
proof (induction w v ts rule: merge_disjoint.induct)
  case (1 w v)
  then show ?case by (auto simp: word_bit_Cons)
next
  case (2 w v t ts)
  obtain k x where t: "t = (k, x)" by force
  show ?case
  proof (cases "k = w")
    case True
    show ?thesis
    proof (cases "x AND v = 0")
      case True
      then have "\<not> (bit x p \<and> bit v p)" for p using bit_and_iff [of x v p] by simp
      with True \<open>k = w\<close> show ?thesis by (auto simp: t word_bit_Cons bit_or_iff)
    next
      case False
      then obtain p where "bit (x AND v) p" using bit_eqI [of "x AND v" 0] by auto
      with False True show ?thesis by (auto simp: t word_bit_Cons bit_and_iff)
    qed
  next
    case False
    with 2 show ?thesis by (cases "merge_disjoint w v ts") (auto simp: t word_bit_Cons)
  qed
qed

lemma merge_own_bits:
  "distinct (map fst own) \<Longrightarrow>
   (case merge_own own ts of
      None \<Rightarrow> \<exists>w p. word_bit ts w p \<and> word_bit own w p
    | Some ts' \<Rightarrow> (\<forall>w p. \<not> (word_bit ts w p \<and> word_bit own w p))
        \<and> (\<forall>w p. word_bit ts' w p \<longleftrightarrow> word_bit ts w p \<or> word_bit own w p))"
proof (induction own ts rule: merge_own.induct)
  case (1 ts)
  then show ?case by simp
next
  case (2 w v own ts)
  have fresh: "\<not> word_bit own w p" for p
  proof -
    have "map_of own w = None" using "2.prems" by (simp add: map_of_eq_None_iff)
    then show ?thesis by (simp add: word_bit_def)
  qed
  show ?case
  proof (cases "merge_disjoint w v ts")
    case None
    with merge_disjoint_bits [where w = w and v = v and ts = ts] show ?thesis by (auto simp: word_bit_Cons)
  next
    case (Some ts1)
    with merge_disjoint_bits [where w = w and v = v and ts = ts] have one: "\<And>p. \<not> (word_bit ts w p \<and> bit v p)"
      "\<And>w' p. word_bit ts1 w' p \<longleftrightarrow> word_bit ts w' p \<or> w' = w \<and> bit v p" by simp_all
    have ih: "case merge_own own ts1 of
        None \<Rightarrow> \<exists>w p. word_bit ts1 w p \<and> word_bit own w p
      | Some ts' \<Rightarrow> (\<forall>w p. \<not> (word_bit ts1 w p \<and> word_bit own w p))
          \<and> (\<forall>w p. word_bit ts' w p \<longleftrightarrow> word_bit ts1 w p \<or> word_bit own w p)"
      using "2.IH" [OF Some] "2.prems" by simp
    show ?thesis
    proof (cases "merge_own own ts1")
      case None
      with ih obtain w' p where "word_bit ts1 w' p" "word_bit own w' p" by auto
      with one(2) fresh have "word_bit ts w' p \<and> word_bit ((w, v) # own) w' p" by (auto simp: word_bit_Cons)
      with Some None show ?thesis by auto
    next
      case (Some ts2)
      with ih have two: "\<And>w p. \<not> (word_bit ts1 w p \<and> word_bit own w p)"
        "\<And>w p. word_bit ts2 w p \<longleftrightarrow> word_bit ts1 w p \<or> word_bit own w p" by simp_all
      have "\<not> (word_bit ts w' p \<and> word_bit ((w, v) # own) w' p)" for w' p
        using one two(1) [of w' p] by (auto simp: word_bit_Cons)
      moreover have "word_bit ts2 w' p \<longleftrightarrow> word_bit ts w' p \<or> word_bit ((w, v) # own) w' p" for w' p
        using one(2) two(2) fresh by (auto simp: word_bit_Cons)
      ultimately show ?thesis using Some \<open>merge_disjoint w v ts = Some ts1\<close> by simp
    qed
  qed
qed

text \<open>
  A fixed-counter row is the kernel alias with the row's own bits beside it: the umask, which on such a
  row is no filter, places nothing; the row is refused when a field has no encoding or when a bit would be
  placed twice, and otherwise the words hold exactly the bits of the alias and of the other fields.
\<close>

theorem fixed_counter_row_joins_the_alias:
  assumes ok: "formats_ok formats" and given: "aliasWords \<noteq> []"
  shows "if (\<exists>field \<in> set (own_fields fs). \<not> field_fits formats field)
        \<or> (\<exists>w p. word_bit aliasWords w p \<and> (\<exists>field \<in> set (own_fields fs). field_bit formats field w p))
    then \<exists>refusal. pmuComposeFixedCounterRow number aliasWords fs formats = Some (Inl refusal)
    else \<exists>ws. pmuComposeFixedCounterRow number aliasWords fs formats = Some (Inr ws)
      \<and> (\<forall>w p. word_bit ws w p \<longleftrightarrow> word_bit aliasWords w p \<or> (\<exists>field \<in> set (own_fields fs). field_bit formats field w p))"
proof -
  show ?thesis
  proof (cases "\<forall>field \<in> set (own_fields fs). field_fits formats field")
    case False
    then have "pmuComposeConfig (own_fields fs) formats = Some None"
      using compose_fields_bits [OF ok, of "own_fields fs" "[]"] by (auto simp: pmuComposeConfig_def split: if_splits)
    with False given show ?thesis by (auto simp: pmuComposeFixedCounterRow_def)
  next
    case True
    then obtain ws where ws: "pmuComposeConfig (own_fields fs) formats = Some (Some ws)"
      "\<And>w p. word_bit ws w p \<longleftrightarrow> (\<exists>field \<in> set (own_fields fs). field_bit formats field w p)"
      using compose_fields_bits [OF ok, of "own_fields fs" "[]"] by (auto simp: pmuComposeConfig_def split: if_splits)
    have "distinct (map fst ws)" using ws(1) distinct_compose_fields [of formats "own_fields fs" "[]" ws]
      by (simp add: pmuComposeConfig_def)
    note m = merge_own_bits [OF this, of aliasWords]
    show ?thesis
    proof (cases "merge_own ws aliasWords")
      case None
      with m ws(2) have "\<exists>w p. word_bit aliasWords w p \<and> (\<exists>field \<in> set (own_fields fs). field_bit formats field w p)" by simp
      with None ws(1) given show ?thesis by (simp add: pmuComposeFixedCounterRow_def)
    next
      case (Some merged)
      with m ws(2) have "\<not> (\<exists>w p. word_bit aliasWords w p \<and> (\<exists>field \<in> set (own_fields fs). field_bit formats field w p))"
        "\<forall>w p. word_bit merged w p \<longleftrightarrow> word_bit aliasWords w p \<or> (\<exists>field \<in> set (own_fields fs). field_bit formats field w p)" by auto
      with True Some ws(1) given show ?thesis by (auto simp: pmuComposeFixedCounterRow_def)
    qed
  qed
qed

theorem fixed_counter_row_joins_the_alias_witness:
  "\<exists>refusal. pmuComposeFixedCounterRow 1 [(0, 0x3C)] [(''umask'', 2), (''event'', 4)] core_formats = Some (Inl refusal)"
proof -
  have f: "format_of ''event'' core_formats = Some [\<lparr>configWord = 0, low = 0, high = 7\<rparr>, \<lparr>configWord = 0, low = 32, high = 35\<rparr>]"
    by (simp add: format_of_def core_formats_def)
  have "field_bit core_formats (''event'', 4) 0 2"
    by (simp add: field_bit_search f range_positions_def upt_rec)
  moreover have "word_bit [(0, 0x3C)] 0 2" by (simp add: word_bit_def)
  ultimately have "\<exists>w p. word_bit [(0, 0x3C)] w p
      \<and> (\<exists>field \<in> set (own_fields [(''umask'', 2), (''event'', 4)]). field_bit core_formats field w p)"
    by (auto simp: own_fields_def)
  with fixed_counter_row_joins_the_alias [OF core_formats_ok, of "[(0, 0x3C)]" "[(''umask'', 2), (''event'', 4)]" 1]
  show ?thesis by auto
qed

subsection \<open>The designation of a fixed counter\<close>

lemma digits_split:
  "list_all is_digit ds \<Longrightarrow> takeWhile is_digit ds = ds \<and> dropWhile is_digit ds = []"
  by (auto simp: list_all_iff)

lemma no_digits_left: "dropWhile is_digit s = [] \<Longrightarrow> takeWhile is_digit s = s \<and> list_all is_digit s"
  by (auto simp: dropWhile_eq_Nil_conv list_all_iff)

text \<open>
  A text designates the fixed counter \<open>n\<close> exactly when it is the prefix and a decimal number of value
  \<open>n\<close> within \<open>int\<close> and nothing else; a negative zero is the one number with a sign it takes.
\<close>

theorem fixed_counter_designation_exact:
  "fixedCounterDesignation t = int n \<longleftrightarrow>
     int n \<le> int_max \<and> (\<exists>ds. ds \<noteq> [] \<and> list_all is_digit ds \<and> digits_value 10 ds = n
       \<and> (t = fixed_prefix @ ds \<or> n = 0 \<and> t = fixed_prefix @ CHR ''-'' # ds))"
proof
  assume des: "fixedCounterDesignation t = int n"
  then obtain s where t: "t = fixed_prefix @ s" by (auto simp: fixedCounterDesignation_def starts_with_iff split: if_splits)
  then have fc: "from_chars_int s = Some (int n, [])"
    using des by (auto simp: fixedCounterDesignation_def starts_with_iff split: option.splits if_splits)
  show "int n \<le> int_max \<and> (\<exists>ds. ds \<noteq> [] \<and> list_all is_digit ds \<and> digits_value 10 ds = n
       \<and> (t = fixed_prefix @ ds \<or> n = 0 \<and> t = fixed_prefix @ CHR ''-'' # ds))"
  proof (cases "starts_with s ''-''")
    case True
    then obtain ds where s: "s = CHR ''-'' # ds" by (auto simp: starts_with_iff)
    have d: "dropWhile is_digit ds = []" using fc s
      by (auto simp: from_chars_int_def starts_with_def Let_def split: if_splits)
    have "digits_value 10 (takeWhile is_digit ds) = 0" "takeWhile is_digit ds \<noteq> []" "n = 0" using fc s
      by (auto simp: from_chars_int_def starts_with_def Let_def split: if_splits)
    then have "digits_value 10 ds = 0" "ds \<noteq> []" "n = 0" "list_all is_digit ds"
      unfolding conjunct1 [OF no_digits_left [OF d]] using no_digits_left [OF d] by simp_all
    with s t show ?thesis by (auto simp: int_max_def)
  next
    case False
    have d: "dropWhile is_digit s = []" using fc False by (auto simp: from_chars_int_def Let_def split: if_splits)
    have "digits_value 10 (takeWhile is_digit s) = n" "takeWhile is_digit s \<noteq> []" "int n \<le> int_max"
      using fc False by (auto simp: from_chars_int_def Let_def split: if_splits)
    then have "digits_value 10 s = n" "s \<noteq> []" "int n \<le> int_max" "list_all is_digit s"
      unfolding conjunct1 [OF no_digits_left [OF d]] using no_digits_left [OF d] by simp_all
    with t show ?thesis by blast
  qed
next
  assume "int n \<le> int_max \<and> (\<exists>ds. ds \<noteq> [] \<and> list_all is_digit ds \<and> digits_value 10 ds = n
       \<and> (t = fixed_prefix @ ds \<or> n = 0 \<and> t = fixed_prefix @ CHR ''-'' # ds))"
  then obtain ds where n: "int n \<le> int_max" and ds: "ds \<noteq> []" "list_all is_digit ds" "digits_value 10 ds = n"
    and t: "t = fixed_prefix @ ds \<or> n = 0 \<and> t = fixed_prefix @ CHR ''-'' # ds" by blast
  have plus: "\<not> starts_with ds ''-''"
    using ds(1,2) digit_no_punctuation(2) by (cases ds) (auto simp: starts_with_def)
  have tw: "takeWhile is_digit ds = ds" "dropWhile is_digit ds = []" using digits_split [OF ds(2)] by simp_all
  from t show "fixedCounterDesignation t = int n"
  proof
    assume t: "t = fixed_prefix @ ds"
    have "from_chars_int ds = Some (int n, [])"
      using n ds plus by (simp add: from_chars_int_def Let_def int_max_def tw)
    with t show ?thesis by (simp add: fixedCounterDesignation_def)
  next
    assume t: "n = 0 \<and> t = fixed_prefix @ CHR ''-'' # ds"
    then have "from_chars_int (CHR ''-'' # ds) = Some (0, [])"
      using n ds by (simp add: from_chars_int_def Let_def int_max_def starts_with_def tw)
    with t show ?thesis by (simp add: fixedCounterDesignation_def)
  qed
qed

subsection \<open>Positions past the word\<close>

text \<open>
  C37. The parser takes two-digit positions up to 99, and a field whose first range starts at 64 or above is
  then shifted by more than the width of the word: composing it is undefined, not a refusal.
\<close>

theorem wide_position_is_accepted_and_breaks_composition:
  assumes "int w \<le> int_max" and "64 \<le> low r" and "low r \<le> high r" and "high r \<le> 99" and "configWord r = int w"
  shows "parseFormatField (spell_format ''config'' w [r]) = Some (True, [r])
    \<and> pmuComposeConfig ((name, v) # fs) ((name, [r]) # formats) = None"
proof
  show "parseFormatField (spell_format ''config'' w [r]) = Some (True, [r])"
    by (rule spelled_format_lemma) (use assms in \<open>simp_all add: two_digit_def is_lower_def\<close>)
  show "pmuComposeConfig ((name, v) # fs) ((name, [r]) # formats) = None"
    using assms(2) by (simp add: pmuComposeConfig_def format_of_def)
qed

theorem wide_position_is_accepted_and_breaks_composition_witness:
  "parseFormatField (spell_format ''config'' 0 [\<lparr>configWord = 0, low = 70, high = 71\<rparr>]) = Some (True, [\<lparr>configWord = 0, low = 70, high = 71\<rparr>])
    \<and> pmuComposeConfig [(''event'', 1)] [(''event'', [\<lparr>configWord = 0, low = 70, high = 71\<rparr>])] = None"
  by (rule wide_position_is_accepted_and_breaks_composition) (simp_all add: int_max_def)

end
