(* ===== verification/Formula.thy ===== *)
theory Formula
  imports Prelude Binary64
begin

text \<open>
  The formula reader of \<open>source/counters/linux_pmu/metric_formula.cpp\<close>: the scanner that cuts a metric
  row's text into tokens and the recursive-descent parser that builds its node tree.  A refusal is
  \<open>Inl\<close>; \<open>None\<close> is a violated contract, a read past a vector, or spent fuel.  Fuel bounds the depth of
  the recursion only: the parser is given eight units per token, which \<open>Formula_Facts\<close> proves to be
  enough.  \<open>std::strtod\<close> on a decimal literal is the correctly rounded quotient it spells.
\<close>

datatype metric_refusal =
  MALFORMED | UNSUPPORTED | CYCLE | UNKNOWN_SCALE | UNKNOWN_CONSTANT | NESTED | DIMENSION | UNRESOLVED | COLLISION

record metric_failure =
  mf_kind :: metric_refusal
  mf_reason :: string
  mf_suggestions :: "string list"

datatype formula_kind =
  REFERENCE | CONSTANT | HOST_CONSTANT | ADD | SUBTRACT | MULTIPLY | DIVIDE | MINIMUM | MAXIMUM
| HAS_EVENT | SOURCE_COUNT | CONDITIONAL | GREATER | LESS

record formula_node =
  fn_kind :: formula_kind
  fn_left :: int
  fn_right :: int
  fn_third :: int
  fn_spelling :: string
  fn_event :: string
  fn_device :: string
  fn_modifier :: string
  fn_privilege :: string
  fn_value :: binary64

record formula_tree =
  ft_nodes :: "formula_node list"
  ft_root :: int

definition refusal :: "metric_refusal \<Rightarrow> string \<Rightarrow> metric_failure" where
  "refusal k reason = \<lparr>mf_kind = k, mf_reason = reason, mf_suggestions = []\<rparr>"

definition malformed :: "string \<Rightarrow> nat \<Rightarrow> metric_failure" where
  "malformed what offset = refusal MALFORMED (''malformed formula: '' @ what @ '' at offset '' @ decimal offset)"

definition unsupported :: "string \<Rightarrow> nat \<Rightarrow> metric_failure" where
  "unsupported what offset =
     refusal UNSUPPORTED (''unsupported construct '' @ what @ '' at offset '' @ decimal offset)"

subsection \<open>References\<close>

record reference =
  rf_device :: string
  rf_event :: string
  rf_modifier :: string
  rf_privilege :: string

definition backslash :: char where
  "backslash = CHR 0x5C"

fun unescape :: "string \<Rightarrow> string checked" where
  "unescape [] = Some []"
| "unescape (c # cs) =
     (if c \<noteq> backslash then map_option (Cons c) (unescape cs)
      else case cs of [] \<Rightarrow> None | d # ds \<Rightarrow> map_option (Cons d) (unescape ds))"

text \<open>The first unescaped comma before the last character.\<close>

fun find_comma :: "string \<Rightarrow> nat \<Rightarrow> nat option" where
  "find_comma (c # d # cs) at =
     (if c = backslash then find_comma cs (at + 2)
      else if c = CHR '','' then Some at
      else find_comma (d # cs) (at + 1))"
| "find_comma _ at = None"

definition decodeReference :: "string \<Rightarrow> reference checked" where
  "decodeReference raw =
     (let colon = find_char (CHR '':'') raw 0;
          privilege = (case colon of None \<Rightarrow> [] | Some c \<Rightarrow> drop (c + 1) raw);
          raw1 = (case colon of None \<Rightarrow> raw | Some c \<Rightarrow> take c raw)
      in case (find_char (CHR ''@'') raw1 0, rfind_char (CHR ''@'') raw1) of
           (Some opened, Some closed) \<Rightarrow>
             (let body = (if closed = opened then drop (opened + 1) raw1
                          else substr raw1 (opened + 1) (closed - opened - 1))
              in case find_comma body 0 of
                   None \<Rightarrow>
                     map_option (\<lambda>event. \<lparr>rf_device = take opened raw1, rf_event = event, rf_modifier = [],
                         rf_privilege = privilege\<rparr>) (unescape body)
                 | Some comma \<Rightarrow>
                     (case unescape (take comma body) of
                        None \<Rightarrow> None
                      | Some event \<Rightarrow>
                          map_option (\<lambda>modifier. \<lparr>rf_device = take opened raw1, rf_event = event,
                              rf_modifier = modifier, rf_privilege = privilege\<rparr>)
                            (unescape (drop (comma + 1) body))))
         | _ \<Rightarrow>
             map_option (\<lambda>event. \<lparr>rf_device = [], rf_event = event, rf_modifier = [], rf_privilege = privilege\<rparr>)
               (unescape raw1))"

definition isReferenceChar :: "char \<Rightarrow> bool" where
  "isReferenceChar c \<longleftrightarrow> is_alnum c \<or> c = CHR ''_'' \<or> c = CHR ''.'' \<or> c = CHR ''-''"

definition isWordChar :: "char \<Rightarrow> bool" where
  "isWordChar c \<longleftrightarrow> is_alnum c"

subsection \<open>Tokens\<close>

datatype scanned_kind =
  END_TEXT | NUMBER | REFERENCE_TEXT | CONSTANT_NAME | LEFT_PAREN | RIGHT_PAREN | COMMA | PLUS | MINUS
| TIMES | DIVIDED | GREATER_THAN | LESS_THAN | IF_WORD | ELSE_WORD

record scanned =
  sc_kind :: scanned_kind
  sc_text :: string
  sc_number :: binary64
  sc_offset :: nat

definition plain_token :: "scanned_kind \<Rightarrow> nat \<Rightarrow> scanned" where
  "plain_token k offset = \<lparr>sc_kind = k, sc_text = [], sc_number = zero64, sc_offset = offset\<rparr>"

definition operatorKind :: "char \<Rightarrow> scanned_kind" where
  "operatorKind c =
     (if c = CHR ''('' then LEFT_PAREN
      else if c = CHR '')'' then RIGHT_PAREN
      else if c = CHR '','' then COMMA
      else if c = CHR ''+'' then PLUS
      else if c = CHR ''-'' then MINUS
      else if c = CHR ''*'' then TIMES
      else if c = CHR ''/'' then DIVIDED
      else if c = CHR ''>'' then GREATER_THAN
      else if c = CHR ''<'' then LESS_THAN
      else END_TEXT)"

text \<open>The inner loop over an \<open>@\<close> body: the position of the closing \<open>@\<close> or one at or past the end.\<close>

function close_body :: "string \<Rightarrow> nat \<Rightarrow> nat" where
  "close_body s pos =
     (if pos < length s \<and> s ! pos \<noteq> CHR ''@''
      then close_body s (pos + (if s ! pos = backslash then 2 else 1))
      else pos)"
  by pat_completeness auto

termination
  by (relation "measure (\<lambda>(s, pos). length s - pos)") auto

function word_end :: "string \<Rightarrow> nat \<Rightarrow> nat" where
  "word_end s pos = (if pos < length s \<and> isWordChar (s ! pos) then word_end s (pos + 1) else pos)"
  by pat_completeness auto

termination
  by (relation "measure (\<lambda>(s, pos). length s - pos)") auto

declare close_body.simps [simp del] word_end.simps [simp del]

lemma close_body_ge: "pos \<le> close_body s pos"
proof (induction s pos rule: close_body.induct)
  case (1 s pos)
  then show ?case by (subst close_body.simps) (auto split: if_splits)
qed

lemma word_end_ge: "pos \<le> word_end s pos"
proof (induction s pos rule: word_end.induct)
  case (1 s pos)
  then show ?case by (subst word_end.simps) auto
qed

text \<open>\<open>None\<close> is \<open>npos\<close>: an \<open>@\<close> opens a modifier that nothing closes.\<close>

function scanReferenceEnd :: "string \<Rightarrow> nat \<Rightarrow> nat option" where
  "scanReferenceEnd s pos =
     (if pos < length s then
        if isReferenceChar (s ! pos) then scanReferenceEnd s (pos + 1)
        else if s ! pos = backslash \<and> pos + 1 < length s then scanReferenceEnd s (pos + 2)
        else if s ! pos = CHR ''@'' then
          if close_body s (pos + 1) \<ge> length s then None
          else scanReferenceEnd s (close_body s (pos + 1) + 1)
        else if s ! pos = CHR '':'' \<and> pos + 1 < length s \<and> isWordChar (s ! (pos + 1))
        then scanReferenceEnd s (word_end s (pos + 1))
        else Some pos
      else Some pos)"
  by pat_completeness auto

termination
proof (relation "measure (\<lambda>(s, pos). length s - pos)")
  fix s :: string and pos :: nat
  assume "pos < length s"
  then show "((s, close_body s (pos + 1) + 1), s, pos) \<in> measure (\<lambda>(s, pos). length s - pos)"
    using close_body_ge [of "pos + 1" s] by simp
  from \<open>pos < length s\<close> show "((s, word_end s (pos + 1)), s, pos) \<in> measure (\<lambda>(s, pos). length s - pos)"
    using word_end_ge [of "pos + 1" s] by simp
qed auto

declare scanReferenceEnd.simps [simp del]

subsection \<open>Numbers\<close>

text \<open>
  \<open>std::strtod\<close> in the C locale on a text that starts with a digit or a dot, when it takes the whole
  text: digits, an optional point with digits, one digit at least, an optional exponent.
\<close>

definition decimal_value :: "string \<Rightarrow> string \<Rightarrow> int \<Rightarrow> binary64" where
  "decimal_value whole fraction exponent =
     (let m = digits_value 10 (whole @ fraction); k = exponent - int (length fraction)
      in if k < 0 then round64 False m (10 ^ nat (- k)) else round64 False (m * 10 ^ nat k) 1)"

definition exponent_value :: "string \<Rightarrow> int option" where
  "exponent_value s =
     (case s of
        [] \<Rightarrow> None
      | c # cs \<Rightarrow>
          let signed = (c = CHR ''+'' \<or> c = CHR ''-''); digits = (if signed then cs else s)
          in if digits = [] \<or> \<not> list_all is_digit digits then None
             else Some (if c = CHR ''-'' then - int (digits_value 10 digits) else int (digits_value 10 digits)))"

definition strtod_whole :: "string \<Rightarrow> binary64 option" where
  "strtod_whole s =
     (let whole = takeWhile is_digit s; rest = dropWhile is_digit s;
          dot = starts_with rest ''.'';
          fraction = (if dot then takeWhile is_digit (tl rest) else []);
          tail = (if dot then dropWhile is_digit (tl rest) else rest)
      in if whole = [] \<and> fraction = [] then None
         else if tail = [] then Some (decimal_value whole fraction 0)
         else if hd tail = CHR ''e'' \<or> hd tail = CHR ''E''
         then map_option (decimal_value whole fraction) (exponent_value (tl tail))
         else None)"

text \<open>\<open>std::strtoull\<close> at base 16 saturates.\<close>

definition strtoull_hex :: "string \<Rightarrow> u64" where
  "strtoull_hex digits = (if digits_value 16 digits \<ge> 2 ^ 64 then - 1 else of_nat (digits_value 16 digits))"

function number_end :: "string \<Rightarrow> nat \<Rightarrow> nat" where
  "number_end s pos =
     (if pos < length s \<and>
         (is_digit (s ! pos) \<or> s ! pos = CHR ''.'' \<or> s ! pos = CHR ''e'' \<or> s ! pos = CHR ''E''
          \<or> ((s ! pos = CHR ''+'' \<or> s ! pos = CHR ''-'')
              \<and> (s ! (pos - 1) = CHR ''e'' \<or> s ! (pos - 1) = CHR ''E'')))
      then number_end s (pos + 1) else pos)"
  by pat_completeness auto

termination
  by (relation "measure (\<lambda>(s, pos). length s - pos)") auto

function hex_end :: "string \<Rightarrow> nat \<Rightarrow> nat" where
  "hex_end s pos = (if pos < length s \<and> is_xdigit (s ! pos) then hex_end s (pos + 1) else pos)"
  by pat_completeness auto

termination
  by (relation "measure (\<lambda>(s, pos). length s - pos)") auto

declare number_end.simps [simp del] hex_end.simps [simp del]

definition scanNumber :: "string \<Rightarrow> nat \<Rightarrow> (nat \<times> binary64) option" where
  "scanNumber s pos =
     (if substr s pos 2 = ''0x'' \<or> substr s pos 2 = ''0X''
      then Some (hex_end s (pos + 2),
                 of_u64 (strtoull_hex (substr s (pos + 2) (hex_end s (pos + 2) - (pos + 2)))))
      else
        map_option (Pair (number_end s pos)) (strtod_whole (substr s pos (number_end s pos - pos))))"

subsection \<open>The parser\<close>

text \<open>The tokens from the cursor on, and the nodes made so far.\<close>

type_synonym pstate = "scanned list \<times> formula_node list"
type_synonym 'a parser = "pstate \<Rightarrow> (metric_failure + 'a \<times> pstate) checked"

definition return_p :: "'a \<Rightarrow> 'a parser" where
  "return_p x s = Some (Inr (x, s))"

definition fail_p :: "metric_failure \<Rightarrow> 'a parser" where
  "fail_p er s = Some (Inl er)"

definition stuck_p :: "'a parser" where
  "stuck_p s = None"

definition bind_p :: "'a parser \<Rightarrow> ('a \<Rightarrow> 'b parser) \<Rightarrow> 'b parser" where
  "bind_p p k s =
     (case p s of
        None \<Rightarrow> None
      | Some (Inl er) \<Rightarrow> Some (Inl er)
      | Some (Inr (x, s')) \<Rightarrow> k x s')"

definition token :: "scanned parser" where
  "token s = (case fst s of [] \<Rightarrow> None | t # ts \<Rightarrow> Some (Inr (t, s)))"

definition advance :: "unit parser" where
  "advance s = (case fst s of [] \<Rightarrow> None | t # ts \<Rightarrow> Some (Inr ((), (ts, snd s))))"

definition blank_node :: "formula_kind \<Rightarrow> formula_node" where
  "blank_node k = \<lparr>fn_kind = k, fn_left = - 1, fn_right = - 1, fn_third = - 1, fn_spelling = [], fn_event = [],
     fn_device = [], fn_modifier = [], fn_privilege = [], fn_value = zero64\<rparr>"

definition push_node :: "formula_node \<Rightarrow> int parser" where
  "push_node n s = Some (Inr (int (length (snd s)), (fst s, snd s @ [n])))"

definition add :: "formula_kind \<Rightarrow> int \<Rightarrow> int \<Rightarrow> int \<Rightarrow> int parser" where
  "add k l r third = push_node ((blank_node k)\<lparr>fn_left := l, fn_right := r, fn_third := third\<rparr>)"

definition literal :: "binary64 \<Rightarrow> int parser" where
  "literal v = push_node ((blank_node CONSTANT)\<lparr>fn_value := v\<rparr>)"

definition minus_one64 :: binary64 where
  "minus_one64 = dneg one64"

text \<open>The walks over a made subtree; \<open>bad\<close> says which kind of node is looked for.\<close>

fun subtree_holds :: "(formula_kind \<Rightarrow> bool) \<Rightarrow> formula_node list \<Rightarrow> nat \<Rightarrow> int \<Rightarrow> bool checked" where
  "subtree_holds bad ns 0 index = None"
| "subtree_holds bad ns (Suc f) index =
     (if index < 0 \<or> nat index \<ge> length ns then None
      else if bad (fn_kind (ns ! nat index)) then Some True
      else
        case (if fn_left (ns ! nat index) < 0 then Some False
              else subtree_holds bad ns f (fn_left (ns ! nat index))) of
          None \<Rightarrow> None
        | Some True \<Rightarrow> Some True
        | Some False \<Rightarrow>
            if fn_right (ns ! nat index) < 0 then Some False
            else subtree_holds bad ns f (fn_right (ns ! nat index)))"

definition holdsConditional :: "int \<Rightarrow> bool parser" where
  "holdsConditional index s =
     map_option (\<lambda>b. Inr (b, s)) (subtree_holds (\<lambda>k. k = CONDITIONAL) (snd s) (length (snd s)) index)"

definition predicate_kind :: "formula_kind \<Rightarrow> bool" where
  "predicate_kind k \<longleftrightarrow> k = HAS_EVENT \<or> k = SOURCE_COUNT \<or> k = CONDITIONAL \<or> k = GREATER \<or> k = LESS"

definition nested :: "int \<Rightarrow> bool parser" where
  "nested index s = map_option (\<lambda>b. Inr (b, s)) (subtree_holds predicate_kind (snd s) (length (snd s)) index)"

text \<open>The node of a token that names something; the reference it decodes to is a parameter.\<close>

definition named_node :: "formula_kind \<Rightarrow> string \<Rightarrow> reference \<Rightarrow> formula_node" where
  "named_node k spelling rf = (blank_node k)\<lparr>fn_spelling := spelling, fn_event := rf_event rf,
     fn_device := rf_device rf, fn_modifier := rf_modifier rf, fn_privilege := rf_privilege rf\<rparr>"

definition parse_reference :: "scanned \<Rightarrow> int parser" where
  "parse_reference hd_tok =
     (case decodeReference (sc_text hd_tok) of
        None \<Rightarrow> stuck_p
      | Some rf \<Rightarrow> push_node (named_node REFERENCE (sc_text hd_tok) rf))"

definition node_at :: "int \<Rightarrow> formula_node parser" where
  "node_at index s =
     (if index < 0 \<or> nat index \<ge> length (snd s) then None else Some (Inr (snd s ! nat index, s)))"

definition parse_helper :: "scanned \<Rightarrow> int list \<Rightarrow> bool \<Rightarrow> int parser" where
  "parse_helper hd_tok arguments predicate =
     (case arguments of
        [argument] \<Rightarrow>
          bind_p (node_at argument) (\<lambda>n.
            if fn_kind n \<noteq> REFERENCE
            then fail_p (refusal NESTED (''predicate argument of '' @ quoted (sc_text hd_tok)
                   @ '' is not a reference at offset '' @ decimal (sc_offset hd_tok)))
            else push_node ((blank_node (if predicate then HAS_EVENT else SOURCE_COUNT))
                   \<lparr>fn_spelling := fn_spelling n, fn_event := fn_event n, fn_device := fn_device n,
                    fn_modifier := fn_modifier n, fn_privilege := fn_privilege n\<rparr>))
      | _ \<Rightarrow> fail_p (malformed (quoted (sc_text hd_tok) @ '' takes one argument'') (sc_offset hd_tok)))"

fun refuse_nested :: "scanned \<Rightarrow> int list \<Rightarrow> unit parser" where
  "refuse_nested hd_tok [] = return_p ()"
| "refuse_nested hd_tok (a # as) =
     bind_p (nested a) (\<lambda>b.
       if b then fail_p (refusal NESTED (''predicate or conditional nested inside '' @ quoted (sc_text hd_tok)
              @ '' at offset '' @ decimal (sc_offset hd_tok)))
       else refuse_nested hd_tok as)"

fun fold_arguments :: "formula_kind \<Rightarrow> int \<Rightarrow> int list \<Rightarrow> int parser" where
  "fold_arguments k folded [] = return_p folded"
| "fold_arguments k folded (a # as) = bind_p (add k folded a (- 1)) (\<lambda>made. fold_arguments k made as)"

text \<open>What a call becomes once its arguments and the closing parenthesis are read.\<close>

definition apply_function :: "scanned \<Rightarrow> int list \<Rightarrow> int parser" where
  "apply_function hd_tok arguments =
     (if sc_text hd_tok = ''has_event'' \<or> sc_text hd_tok = ''source_count''
      then parse_helper hd_tok arguments (sc_text hd_tok = ''has_event'')
      else
        case arguments of
          one # two # others \<Rightarrow>
            bind_p (refuse_nested hd_tok arguments) (\<lambda>_.
              if sc_text hd_tok = ''d_ratio''
              then bind_p (literal one64) (\<lambda>unit. bind_p (add MAXIMUM two unit (- 1)) (\<lambda>guard.
                     add DIVIDE one guard (- 1)))
              else fold_arguments (if sc_text hd_tok = ''min'' then MINIMUM else MAXIMUM) one (two # others))
        | _ \<Rightarrow> fail_p (malformed (quoted (sc_text hd_tok) @ '' needs two arguments'') (sc_offset hd_tok)))"

definition known_function :: "string \<Rightarrow> bool" where
  "known_function name \<longleftrightarrow> name \<in> {''min'', ''max'', ''d_ratio'', ''has_event'', ''source_count''}"

fun conditional :: "nat \<Rightarrow> int parser"
and comparison :: "nat \<Rightarrow> int parser"
and additive :: "nat \<Rightarrow> int parser"
and additive_loop :: "nat \<Rightarrow> int \<Rightarrow> int parser"
and multiplicative :: "nat \<Rightarrow> int parser"
and multiplicative_loop :: "nat \<Rightarrow> int \<Rightarrow> int parser"
and unary :: "nat \<Rightarrow> int parser"
and primary :: "nat \<Rightarrow> int parser"
and arguments :: "nat \<Rightarrow> int list \<Rightarrow> int list parser"
where
  "conditional 0 = stuck_p"
| "conditional (Suc f) =
     bind_p (additive f) (\<lambda>v. bind_p token (\<lambda>t.
       if sc_kind t \<noteq> IF_WORD then return_p v
       else bind_p advance (\<lambda>_. bind_p (comparison f) (\<lambda>test. bind_p token (\<lambda>e.
         if sc_kind e \<noteq> ELSE_WORD then fail_p (malformed (''expected '' @ quoted ''else'') (sc_offset e))
         else bind_p advance (\<lambda>_. bind_p (conditional f) (\<lambda>other. add CONDITIONAL v test other)))))))"
| "comparison 0 = stuck_p"
| "comparison (Suc f) =
     bind_p (additive f) (\<lambda>l. bind_p token (\<lambda>t.
       if sc_kind t \<noteq> GREATER_THAN \<and> sc_kind t \<noteq> LESS_THAN
       then bind_p (holdsConditional l) (\<lambda>b.
              if b then fail_p (unsupported ''a conditional inside the test of a conditional'' (sc_offset t))
              else return_p l)
       else bind_p advance (\<lambda>_. bind_p (additive f) (\<lambda>r.
              bind_p (holdsConditional l) (\<lambda>b. bind_p (if b then return_p True else holdsConditional r) (\<lambda>c.
                bind_p token (\<lambda>u.
                  if c then fail_p (unsupported ''a conditional inside the test of a conditional'' (sc_offset u))
                  else add (if sc_kind t = GREATER_THAN then GREATER else LESS) l r (- 1))))))))"
| "additive 0 = stuck_p"
| "additive (Suc f) = bind_p (multiplicative f) (additive_loop f)"
| "additive_loop 0 l = stuck_p"
| "additive_loop (Suc f) l =
     bind_p token (\<lambda>t.
       if sc_kind t = PLUS \<or> sc_kind t = MINUS
       then bind_p advance (\<lambda>_. bind_p (multiplicative f) (\<lambda>r.
              bind_p (add (if sc_kind t = PLUS then ADD else SUBTRACT) l r (- 1)) (additive_loop f)))
       else return_p l)"
| "multiplicative 0 = stuck_p"
| "multiplicative (Suc f) = bind_p (unary f) (multiplicative_loop f)"
| "multiplicative_loop 0 l = stuck_p"
| "multiplicative_loop (Suc f) l =
     bind_p token (\<lambda>t.
       if sc_kind t = TIMES \<or> sc_kind t = DIVIDED
       then bind_p advance (\<lambda>_. bind_p (unary f) (\<lambda>r.
              bind_p (add (if sc_kind t = TIMES then MULTIPLY else DIVIDE) l r (- 1)) (multiplicative_loop f)))
       else return_p l)"
| "unary 0 = stuck_p"
| "unary (Suc f) =
     bind_p token (\<lambda>t.
       if sc_kind t \<noteq> MINUS then primary f
       else bind_p advance (\<lambda>_. bind_p (unary f) (\<lambda>operand.
              bind_p (literal minus_one64) (\<lambda>one. add MULTIPLY one operand (- 1)))))"
| "primary 0 = stuck_p"
| "primary (Suc f) =
     bind_p token (\<lambda>h.
       if sc_kind h = NUMBER then bind_p advance (\<lambda>_. literal (sc_number h))
       else if sc_kind h = CONSTANT_NAME
       then bind_p advance (\<lambda>_. push_node ((blank_node HOST_CONSTANT)\<lparr>fn_spelling := sc_text h\<rparr>))
       else if sc_kind h = LEFT_PAREN
       then bind_p advance (\<lambda>_. bind_p (conditional f) (\<lambda>inner. bind_p token (\<lambda>t.
              if sc_kind t \<noteq> RIGHT_PAREN then fail_p (malformed (''expected '' @ quoted '')'') (sc_offset t))
              else bind_p advance (\<lambda>_. return_p inner))))
       else if sc_kind h \<noteq> REFERENCE_TEXT then fail_p (malformed ''expected a value'' (sc_offset h))
       else bind_p advance (\<lambda>_. bind_p token (\<lambda>t.
              if sc_kind t \<noteq> LEFT_PAREN then parse_reference h
              else if \<not> known_function (sc_text h)
              then fail_p (unsupported (''function '' @ quoted (sc_text h)) (sc_offset h))
              else bind_p advance (\<lambda>_. bind_p (arguments f []) (\<lambda>as. bind_p token (\<lambda>u.
                     if sc_kind u \<noteq> RIGHT_PAREN
                     then fail_p (malformed (''expected '' @ quoted '','' @ '' or '' @ quoted '')'') (sc_offset u))
                     else bind_p advance (\<lambda>_. apply_function h as)))))))"
| "arguments 0 as = stuck_p"
| "arguments (Suc f) as =
     bind_p token (\<lambda>t.
       if sc_kind t = RIGHT_PAREN then return_p as
       else bind_p (conditional f) (\<lambda>a. bind_p token (\<lambda>u.
              if sc_kind u \<noteq> COMMA then return_p (as @ [a])
              else bind_p advance (\<lambda>_. arguments f (as @ [a])))))"

definition parse_fuel :: "scanned list \<Rightarrow> nat" where
  "parse_fuel ts = 8 * length ts"

definition parser_parse :: "scanned list \<Rightarrow> (metric_failure + formula_tree) checked" where
  "parser_parse ts =
     (case bind_p (conditional (parse_fuel ts)) (\<lambda>r. bind_p token (\<lambda>t.
              if sc_kind t \<noteq> END_TEXT then fail_p (malformed ''trailing text'' (sc_offset t)) else return_p r))
            (ts, []) of
        None \<Rightarrow> None
      | Some (Inl er) \<Rightarrow> Some (Inl er)
      | Some (Inr (r, s)) \<Rightarrow> Some (Inr \<lparr>ft_nodes = snd s, ft_root = r\<rparr>))"

subsection \<open>The scanner\<close>

lemma scanReferenceEnd_ge: "scanReferenceEnd s pos = Some e \<Longrightarrow> pos \<le> e"
proof (induction s pos rule: scanReferenceEnd.induct)
  case (1 s pos)
  have c: "pos + 1 \<le> close_body s (pos + 1)" and w: "pos + 1 \<le> word_end s (pos + 1)"
    by (rule close_body_ge, rule word_end_ge)
  from "1.prems" show ?case
    by (subst (asm) scanReferenceEnd.simps) (use 1 c w in \<open>force split: if_splits\<close>)
qed

lemma scanReferenceEnd_step:
  assumes "pos < length s" and "isReferenceChar (s ! pos)" and "scanReferenceEnd s pos = Some e"
  shows "pos < e"
  using assms scanReferenceEnd_ge [of s "pos + 1" e] by (subst (asm) scanReferenceEnd.simps) simp

lemma number_end_ge: "pos \<le> number_end s pos"
proof (induction s pos rule: number_end.induct)
  case (1 s pos)
  then show ?case by (subst number_end.simps) auto
qed

lemma hex_end_ge: "pos \<le> hex_end s pos"
proof (induction s pos rule: hex_end.induct)
  case (1 s pos)
  then show ?case by (subst hex_end.simps) auto
qed

lemma scanNumber_step:
  assumes "pos < length s" and "is_digit (s ! pos) \<or> s ! pos = CHR ''.''" and "scanNumber s pos = Some (e, v)"
  shows "pos < e"
proof (cases "substr s pos 2 = ''0x'' \<or> substr s pos 2 = ''0X''")
  case True
  then show ?thesis using assms(3) hex_end_ge [of "pos + 2" s] by (auto simp: scanNumber_def)
next
  case False
  have "number_end s pos = number_end s (pos + 1)" using assms(1,2) by (subst number_end.simps) auto
  then have "pos < number_end s pos" using number_end_ge [of "pos + 1" s] by simp
  with False assms(3) show ?thesis by (auto simp: scanNumber_def)
qed

definition cons_token :: "scanned \<Rightarrow> metric_failure + scanned list \<Rightarrow> metric_failure + scanned list" where
  "cons_token t r = (case r of Inl er \<Rightarrow> Inl er | Inr ts \<Rightarrow> Inr (t # ts))"

definition word_token :: "string \<Rightarrow> nat \<Rightarrow> scanned" where
  "word_token word pos =
     (if word = ''if'' then plain_token IF_WORD pos
      else if word = ''else'' then plain_token ELSE_WORD pos
      else (plain_token REFERENCE_TEXT pos)\<lparr>sc_text := word\<rparr>)"

function scan_tokens :: "string \<Rightarrow> nat \<Rightarrow> metric_failure + scanned list" where
  "scan_tokens s pos =
     (if pos \<ge> length s then Inr [plain_token END_TEXT pos]
      else if is_space (s ! pos) then scan_tokens s (pos + 1)
      else if operatorKind (s ! pos) \<noteq> END_TEXT
      then cons_token (plain_token (operatorKind (s ! pos)) pos) (scan_tokens s (pos + 1))
      else if s ! pos = CHR ''#'' then
        (case scanReferenceEnd s (pos + 1) of
           None \<Rightarrow> Inl (malformed (''unterminated '' @ quoted ''@'' @ '' reference'') pos)
         | Some e \<Rightarrow>
             if e = pos + 1 then Inl (malformed ''empty constant name'' pos)
             else cons_token ((plain_token CONSTANT_NAME pos)\<lparr>sc_text := substr s (pos + 1) (e - pos - 1)\<rparr>)
                    (scan_tokens s e))
      else if is_alpha (s ! pos) \<or> s ! pos = CHR ''_'' then
        (case scanReferenceEnd s pos of
           None \<Rightarrow> Inl (malformed (''unterminated '' @ quoted ''@'' @ '' reference'') pos)
         | Some e \<Rightarrow> cons_token (word_token (substr s pos (e - pos)) pos) (scan_tokens s e))
      else if is_digit (s ! pos) \<or> s ! pos = CHR ''.'' then
        (case scanNumber s pos of
           None \<Rightarrow> Inl (malformed ''numeric literal'' pos)
         | Some (e, v) \<Rightarrow> cons_token ((plain_token NUMBER pos)\<lparr>sc_number := v\<rparr>) (scan_tokens s e))
      else Inl (unsupported (quoted [s ! pos]) pos))"
  by pat_completeness auto

termination
proof (relation "measure (\<lambda>(s, pos). length s - pos)")
  fix s :: string and pos e :: nat
  assume "\<not> length s \<le> pos" "scanReferenceEnd s (pos + 1) = Some e"
  then show "((s, e), s, pos) \<in> measure (\<lambda>(s, pos). length s - pos)"
    using scanReferenceEnd_ge [of s "pos + 1" e] by simp
next
  fix s :: string and pos e :: nat
  assume "\<not> length s \<le> pos" "is_alpha (s ! pos) \<or> s ! pos = CHR ''_''" "scanReferenceEnd s pos = Some e"
  then show "((s, e), s, pos) \<in> measure (\<lambda>(s, pos). length s - pos)"
    using scanReferenceEnd_step [of pos s e] by (auto simp: isReferenceChar_def is_alnum_def)
next
  fix s :: string and pos e :: nat and x v
  assume "\<not> length s \<le> pos" "is_digit (s ! pos) \<or> s ! pos = CHR ''.''" "scanNumber s pos = Some x" "(e, v) = x"
  then show "((s, e), s, pos) \<in> measure (\<lambda>(s, pos). length s - pos)"
    using scanNumber_step [of pos s e v] by auto
qed auto

declare scan_tokens.simps [simp del]

definition parseFormula :: "string \<Rightarrow> (metric_failure + formula_tree) checked" where
  "parseFormula s =
     (case scan_tokens s 0 of
        Inl er \<Rightarrow> Some (Inl er)
      | Inr tokens \<Rightarrow> parser_parse tokens)"

end
