(* ===== verification/Formula_Facts.thy ===== *)
theory Formula_Facts
  imports Formula
begin

text \<open>
  What the formula reader guarantees.  A grammar over tokens says which formulas there are and which
  expression each spells; the parser is shown to build, in its node vector, exactly the expression the
  grammar gives to the tokens it consumed, with every operand below the node that uses it, and to return
  on every token vector with the fuel it is given.
\<close>

subsection \<open>Expressions and the nodes that denote them\<close>

datatype fexpr =
  F_number binary64
| F_host string
| F_named formula_kind string reference
| F_binary formula_kind fexpr fexpr
| F_conditional fexpr fexpr fexpr

definition node_is :: "formula_node list \<Rightarrow> int \<Rightarrow> formula_node \<Rightarrow> bool" where
  "node_is ns i n \<longleftrightarrow> 0 \<le> i \<and> nat i < length ns \<and> ns ! nat i = n"

fun operation_kind :: "formula_kind \<Rightarrow> bool" where
  "operation_kind REFERENCE = False"
| "operation_kind CONSTANT = False"
| "operation_kind HOST_CONSTANT = False"
| "operation_kind HAS_EVENT = False"
| "operation_kind SOURCE_COUNT = False"
| "operation_kind CONDITIONAL = False"
| "operation_kind _ = True"

fun denotes :: "formula_node list \<Rightarrow> int \<Rightarrow> fexpr \<Rightarrow> bool" where
  "denotes ns i (F_number v) \<longleftrightarrow> node_is ns i ((blank_node CONSTANT)\<lparr>fn_value := v\<rparr>)"
| "denotes ns i (F_host name) \<longleftrightarrow> node_is ns i ((blank_node HOST_CONSTANT)\<lparr>fn_spelling := name\<rparr>)"
| "denotes ns i (F_named k spelling rf) \<longleftrightarrow> node_is ns i (named_node k spelling rf)"
| "denotes ns i (F_binary k a b) \<longleftrightarrow>
     operation_kind k \<and> (\<exists>l r. node_is ns i ((blank_node k)\<lparr>fn_left := l, fn_right := r, fn_third := - 1\<rparr>)
        \<and> denotes ns l a \<and> denotes ns r b)"
| "denotes ns i (F_conditional a b c) \<longleftrightarrow>
     (\<exists>l r t. node_is ns i ((blank_node CONDITIONAL)\<lparr>fn_left := l, fn_right := r, fn_third := t\<rparr>)
        \<and> denotes ns l a \<and> denotes ns r b \<and> denotes ns t c)"

fun has_kind :: "(formula_kind \<Rightarrow> bool) \<Rightarrow> fexpr \<Rightarrow> bool" where
  "has_kind bad (F_number v) \<longleftrightarrow> bad CONSTANT"
| "has_kind bad (F_host name) \<longleftrightarrow> bad HOST_CONSTANT"
| "has_kind bad (F_named k spelling rf) \<longleftrightarrow> bad k"
| "has_kind bad (F_binary k a b) \<longleftrightarrow> bad k \<or> has_kind bad a \<or> has_kind bad b"
| "has_kind bad (F_conditional a b c) \<longleftrightarrow> bad CONDITIONAL \<or> has_kind bad a \<or> has_kind bad b"

text \<open>Every operand stands below the node that uses it.\<close>

definition fnodes_wf :: "formula_node list \<Rightarrow> bool" where
  "fnodes_wf ns \<longleftrightarrow>
     (\<forall>i < length ns. fn_left (ns ! i) < int i \<and> fn_right (ns ! i) < int i \<and> fn_third (ns ! i) < int i)"

lemma fnodes_wf_snoc:
  "fnodes_wf ns \<Longrightarrow> fn_left n < int (length ns) \<Longrightarrow> fn_right n < int (length ns) \<Longrightarrow> fn_third n < int (length ns) \<Longrightarrow>
   fnodes_wf (ns @ [n])"
  by (auto simp: fnodes_wf_def nth_append less_Suc_eq)

lemma node_is_append: "node_is ns i n \<Longrightarrow> node_is (ns @ ms) i n"
  by (auto simp: node_is_def nth_append)

lemma denotes_append: "denotes ns i e \<Longrightarrow> denotes (ns @ ms) i e"
proof (induction e arbitrary: i)
  case (F_binary k a b)
  then show ?case by (auto intro: node_is_append)
next
  case (F_conditional a b c)
  then show ?case by (auto intro: node_is_append) (blast intro: node_is_append)
qed (auto intro: node_is_append)

lemma denotes_bounds: "denotes ns i e \<Longrightarrow> 0 \<le> i \<and> i < int (length ns)"
  by (cases e) (auto simp: node_is_def)

lemma blank_node_simps [simp]:
  "fn_kind (blank_node k) = k" "fn_left (blank_node k) = - 1" "fn_right (blank_node k) = - 1"
  "fn_third (blank_node k) = - 1"
  by (simp_all add: blank_node_def)

lemma named_node_simps [simp]:
  "fn_kind (named_node k sp rf) = k" "fn_left (named_node k sp rf) = - 1" "fn_right (named_node k sp rf) = - 1"
  "fn_third (named_node k sp rf) = - 1"
  by (simp_all add: named_node_def)

lemma node_below: "fnodes_wf ns \<Longrightarrow> node_is ns i n \<Longrightarrow> fn_left n < i \<and> fn_right n < i \<and> fn_third n < i"
  by (auto simp: fnodes_wf_def node_is_def dest: spec [of _ "nat i"])

lemma subtree_holds_denotes:
  "fnodes_wf ns \<Longrightarrow> denotes ns i e \<Longrightarrow> i < int f \<Longrightarrow> subtree_holds bad ns f i = Some (has_kind bad e)"
proof (induction e arbitrary: i f)
  case (F_binary k a b)
  then obtain l r where n: "node_is ns i ((blank_node k)\<lparr>fn_left := l, fn_right := r, fn_third := - 1\<rparr>)"
    and ab: "denotes ns l a" "denotes ns r b" by auto
  obtain f' where f: "f = Suc f'" using F_binary.prems(3) denotes_bounds [OF F_binary.prems(2)] by (cases f) auto
  have lr: "l < int f'" "r < int f'" using node_below [OF F_binary.prems(1) n] F_binary.prems(3) f by simp_all
  show ?case
    using n F_binary.IH(1) [OF F_binary.prems(1) ab(1) lr(1)] F_binary.IH(2) [OF F_binary.prems(1) ab(2) lr(2)]
      denotes_bounds [OF ab(1)] denotes_bounds [OF ab(2)]
    by (auto simp: f node_is_def split: bool.split)
next
  case (F_conditional a b c)
  then obtain l r t where n: "node_is ns i ((blank_node CONDITIONAL)\<lparr>fn_left := l, fn_right := r, fn_third := t\<rparr>)"
    and ab: "denotes ns l a" "denotes ns r b" by auto
  obtain f' where f: "f = Suc f'" using F_conditional.prems(3) denotes_bounds [OF F_conditional.prems(2)] by (cases f) auto
  have lr: "l < int f'" "r < int f'" using node_below [OF F_conditional.prems(1) n] F_conditional.prems(3) f by simp_all
  show ?case
    using n F_conditional.IH(1) [OF F_conditional.prems(1) ab(1) lr(1)] F_conditional.IH(2) [OF F_conditional.prems(1) ab(2) lr(2)]
      denotes_bounds [OF ab(1)] denotes_bounds [OF ab(2)]
    by (auto simp: f node_is_def split: bool.split)
next
  case (F_number v)
  obtain f' where f: "f = Suc f'" using F_number.prems(3) denotes_bounds [OF F_number.prems(2)] by (cases f) auto
  show ?case using F_number.prems(2) by (simp add: f node_is_def)
next
  case (F_host name)
  obtain f' where f: "f = Suc f'" using F_host.prems(3) denotes_bounds [OF F_host.prems(2)] by (cases f) auto
  show ?case using F_host.prems(2) by (simp add: f node_is_def)
next
  case (F_named k spelling rf)
  obtain f' where f: "f = Suc f'" using F_named.prems(3) denotes_bounds [OF F_named.prems(2)] by (cases f) auto
  show ?case using F_named.prems(2) by (simp add: f node_is_def)
qed

subsection \<open>The grammar\<close>

datatype level = Cond | Test | Sum | Product | Signed | Atom

definition conditional_kind :: "formula_kind \<Rightarrow> bool" where
  "conditional_kind k \<longleftrightarrow> k = CONDITIONAL"

text \<open>The expression a call of one of the five functions stands for.\<close>

definition call_value :: "string \<Rightarrow> fexpr list \<Rightarrow> fexpr option" where
  "call_value name es =
     (if name = ''has_event'' \<or> name = ''source_count'' then
        (case es of
           [F_named k spelling rf] \<Rightarrow>
             if k = REFERENCE then Some (F_named (if name = ''has_event'' then HAS_EVENT else SOURCE_COUNT) spelling rf)
             else None
         | _ \<Rightarrow> None)
      else if length es < 2 \<or> list_ex (has_kind predicate_kind) es then None
      else if name = ''d_ratio''
      then Some (F_binary DIVIDE (es ! 0) (F_binary MAXIMUM (es ! 1) (F_number one64)))
      else if name = ''min'' then Some (foldl (F_binary MINIMUM) (hd es) (tl es))
      else if name = ''max'' then Some (foldl (F_binary MAXIMUM) (hd es) (tl es))
      else None)"

inductive spells :: "level \<Rightarrow> scanned list \<Rightarrow> fexpr \<Rightarrow> bool"
  and spells_args :: "scanned list \<Rightarrow> fexpr list \<Rightarrow> bool"
where
  plain_value: "spells Sum ts e \<Longrightarrow> spells Cond ts e"
| conditional_value: "spells Sum v a \<Longrightarrow> sc_kind i = IF_WORD \<Longrightarrow> spells Test t b \<Longrightarrow> sc_kind w = ELSE_WORD \<Longrightarrow>
    spells Cond el c \<Longrightarrow> spells Cond (v @ i # t @ w # el) (F_conditional a b c)"
| plain_test: "spells Sum ts e \<Longrightarrow> \<not> has_kind conditional_kind e \<Longrightarrow> spells Test ts e"
| compared: "spells Sum l a \<Longrightarrow> sc_kind op = GREATER_THAN \<or> sc_kind op = LESS_THAN \<Longrightarrow> spells Sum r b \<Longrightarrow>
    \<not> has_kind conditional_kind a \<Longrightarrow> \<not> has_kind conditional_kind b \<Longrightarrow>
    spells Test (l @ op # r) (F_binary (if sc_kind op = GREATER_THAN then GREATER else LESS) a b)"
| one_term: "spells Product ts e \<Longrightarrow> spells Sum ts e"
| added: "spells Sum l a \<Longrightarrow> sc_kind op = PLUS \<or> sc_kind op = MINUS \<Longrightarrow> spells Product r b \<Longrightarrow>
    spells Sum (l @ op # r) (F_binary (if sc_kind op = PLUS then ADD else SUBTRACT) a b)"
| one_factor: "spells Signed ts e \<Longrightarrow> spells Product ts e"
| multiplied: "spells Product l a \<Longrightarrow> sc_kind op = TIMES \<or> sc_kind op = DIVIDED \<Longrightarrow> spells Signed r b \<Longrightarrow>
    spells Product (l @ op # r) (F_binary (if sc_kind op = TIMES then MULTIPLY else DIVIDE) a b)"
| unsigned: "spells Atom ts e \<Longrightarrow> spells Signed ts e"
| negated: "sc_kind m = MINUS \<Longrightarrow> spells Signed ts e \<Longrightarrow>
    spells Signed (m # ts) (F_binary MULTIPLY (F_number minus_one64) e)"
| number: "sc_kind t = NUMBER \<Longrightarrow> spells Atom [t] (F_number (sc_number t))"
| host_fact: "sc_kind t = CONSTANT_NAME \<Longrightarrow> spells Atom [t] (F_host (sc_text t))"
| parenthesised: "sc_kind l = LEFT_PAREN \<Longrightarrow> spells Cond ts e \<Longrightarrow> sc_kind r = RIGHT_PAREN \<Longrightarrow>
    spells Atom (l # ts @ [r]) e"
| named: "sc_kind t = REFERENCE_TEXT \<Longrightarrow> decodeReference (sc_text t) = Some rf \<Longrightarrow>
    spells Atom [t] (F_named REFERENCE (sc_text t) rf)"
| called: "sc_kind h = REFERENCE_TEXT \<Longrightarrow> sc_kind l = LEFT_PAREN \<Longrightarrow> spells_args ts es \<Longrightarrow>
    sc_kind r = RIGHT_PAREN \<Longrightarrow> call_value (sc_text h) es = Some e \<Longrightarrow> spells Atom (h # l # ts @ [r]) e"
| no_arguments: "spells_args [] []"
| one_argument: "spells Cond ts e \<Longrightarrow> spells_args ts [e]"
| more_arguments: "spells Cond ts e \<Longrightarrow> sc_kind c = COMMA \<Longrightarrow> spells_args us es \<Longrightarrow> spells_args (ts @ c # us) (e # es)"

subsection \<open>States of the parser\<close>

text \<open>
  A run is judged in two ways: with \<open>tot\<close> the parser must return, which needs tokens whose references
  decode; without it only what it returns is judged.
\<close>

definition tokens_ok :: "bool \<Rightarrow> scanned list \<Rightarrow> bool" where
  "tokens_ok tot ts \<longleftrightarrow> ts \<noteq> [] \<and> sc_kind (last ts) = END_TEXT \<and> (\<forall>t \<in> set (butlast ts). sc_kind t \<noteq> END_TEXT)
     \<and> (tot \<longrightarrow> (\<forall>t \<in> set ts. sc_kind t = REFERENCE_TEXT \<longrightarrow> decodeReference (sc_text t) \<noteq> None))"

definition state_ok :: "bool \<Rightarrow> pstate \<Rightarrow> bool" where
  "state_ok tot s \<longleftrightarrow> tokens_ok tot (fst s) \<and> fnodes_wf (snd s)"

definition holds :: "bool \<Rightarrow> (metric_failure + 'a \<times> pstate) checked \<Rightarrow> ('a \<Rightarrow> pstate \<Rightarrow> bool) \<Rightarrow> bool" where
  "holds tot r Q =
     (case r of None \<Rightarrow> \<not> tot | Some (Inl _) \<Rightarrow> True | Some (Inr (x, s)) \<Rightarrow> Q x s)"

definition grown :: "bool \<Rightarrow> pstate \<Rightarrow> scanned list \<Rightarrow> pstate \<Rightarrow> bool" where
  "grown tot s used s' \<longleftrightarrow> state_ok tot s' \<and> fst s = used @ fst s' \<and> (\<exists>ms. snd s' = snd s @ ms)"

definition reads :: "bool \<Rightarrow> level \<Rightarrow> pstate \<Rightarrow> int \<Rightarrow> pstate \<Rightarrow> bool" where
  "reads tot L s i s' \<longleftrightarrow>
     (\<exists>used e. grown tot s used s' \<and> used \<noteq> [] \<and> spells L used e \<and> denotes (snd s') i e)"

lemma holds_simps [simp]:
  "holds tot (stuck_p s) Q \<longleftrightarrow> \<not> tot" "holds tot (return_p x s) Q \<longleftrightarrow> Q x s" "holds tot (fail_p er s) Q"
  "holds tot None Q \<longleftrightarrow> \<not> tot" "holds tot (Some (Inr (x, s))) Q \<longleftrightarrow> Q x s"
  by (simp_all add: holds_def stuck_p_def return_p_def fail_p_def)

lemma holds_mono: "holds tot r R \<Longrightarrow> (\<And>x s. R x s \<Longrightarrow> Q x s) \<Longrightarrow> holds tot r Q"
  by (auto simp: holds_def split: option.splits sum.splits)

lemma holds_bind:
  assumes "holds tot (p s) R" and "\<And>x s'. R x s' \<Longrightarrow> holds tot (k x s') Q"
  shows "holds tot (bind_p p k s) Q"
proof (cases "p s")
  case None
  with assms(1) show ?thesis by (simp add: bind_p_def)
next
  case (Some r)
  show ?thesis
  proof (cases r)
    case (Inl er)
    with Some show ?thesis by (simp add: bind_p_def holds_def)
  next
    case (Inr y)
    obtain x s' where y: "y = (x, s')" by (metis surj_pair)
    with Inr Some assms(1) have "R x s'" by simp
    from assms(2) [OF this] show ?thesis by (simp add: bind_p_def Some Inr y)
  qed
qed

lemma bind_token: "fst s = t # ts \<Longrightarrow> bind_p token k s = k t s"
  by (simp add: bind_p_def token_def)

lemma bind_advance: "fst s = t # ts \<Longrightarrow> bind_p advance k s = k () (ts, snd s)"
  by (simp add: bind_p_def advance_def)

lemma bind_push: "bind_p (push_node n) k s = k (int (length (snd s))) (fst s, snd s @ [n])"
  by (simp add: bind_p_def push_node_def)

lemma bind_return: "bind_p (return_p x) k s = k x s"
  by (simp add: bind_p_def return_p_def)

lemma bind_return_right: "bind_p p return_p s = p s"
  by (auto simp: bind_p_def return_p_def split: option.splits sum.splits)

lemma bind_Inl: "p s = Some (Inl er) \<Longrightarrow> bind_p p k s = Some (Inl er)"
  by (simp add: bind_p_def)

lemma bind_same: "p s = q s \<Longrightarrow> bind_p p k s = bind_p q k s"
  by (simp add: bind_p_def)

lemma state_token: "state_ok tot s \<Longrightarrow> \<exists>t ts. fst s = t # ts"
  by (cases "fst s") (auto simp: state_ok_def tokens_ok_def)

lemma state_advance:
  assumes "state_ok tot s" and "fst s = t # ts" and "sc_kind t \<noteq> END_TEXT"
  shows "state_ok tot (ts, snd s)"
proof -
  have "ts \<noteq> []" using assms by (auto simp: state_ok_def tokens_ok_def)
  with assms show ?thesis by (auto simp: state_ok_def tokens_ok_def)
qed

lemma state_push:
  assumes "state_ok tot s" and "fn_left n < int (length (snd s))" and "fn_right n < int (length (snd s))"
    and "fn_third n < int (length (snd s))"
  shows "state_ok tot (fst s, snd s @ [n])"
  using assms fnodes_wf_snoc by (auto simp: state_ok_def)

lemma grown_refl: "state_ok tot s \<Longrightarrow> grown tot s [] s"
  by (simp add: grown_def)

lemma grown_trans: "grown tot s us s1 \<Longrightarrow> grown tot s1 vs s2 \<Longrightarrow> grown tot s (us @ vs) s2"
  by (auto simp: grown_def)

lemma grown_advance:
  "grown tot s us s1 \<Longrightarrow> fst s1 = t # ts \<Longrightarrow> sc_kind t \<noteq> END_TEXT \<Longrightarrow> grown tot s (us @ [t]) (ts, snd s1)"
  using state_advance [of tot s1 t ts] by (auto simp: grown_def)

lemma grown_push:
  "grown tot s us s1 \<Longrightarrow> fn_left n < int (length (snd s1)) \<Longrightarrow> fn_right n < int (length (snd s1)) \<Longrightarrow>
   fn_third n < int (length (snd s1)) \<Longrightarrow> grown tot s us (fst s1, snd s1 @ [n])"
  using state_push [of tot s1 n] by (auto simp: grown_def)

lemma grown_state: "grown tot s us s1 \<Longrightarrow> state_ok tot s1"
  by (simp add: grown_def)

lemma grown_denotes: "grown tot s us s1 \<Longrightarrow> denotes (snd s) i e \<Longrightarrow> denotes (snd s1) i e"
  by (auto simp: grown_def intro: denotes_append)

lemma grown_fuel: "grown tot s us s1 \<Longrightarrow> length (fst s) = length us + length (fst s1)"
  by (simp add: grown_def)

lemma node_is_last: "node_is (ns @ [n]) (int (length ns)) n"
  by (simp add: node_is_def)

text \<open>Appending the node of an operation on two denoted operands.\<close>

lemma denotes_binary:
  assumes "denotes ns l a" and "denotes ns r b" and "operation_kind k"
  shows "denotes (ns @ [(blank_node k)\<lparr>fn_left := l, fn_right := r, fn_third := - 1\<rparr>]) (int (length ns)) (F_binary k a b)"
  using denotes_append [OF assms(1)] denotes_append [OF assms(2)] assms(3) node_is_last by fastforce

lemma holds_add_binary:
  assumes "state_ok tot s" and "denotes (snd s) l a" and "denotes (snd s) r b"
    and "operation_kind k"
    and "\<And>s'. grown tot s [] s' \<Longrightarrow> denotes (snd s') (int (length (snd s))) (F_binary k a b) \<Longrightarrow>
      holds tot (cont (int (length (snd s))) s') Q"
  shows "holds tot (bind_p (add k l r (- 1)) cont s) Q"
  using assms(5) [OF grown_push [OF grown_refl [OF assms(1)], of "(blank_node k)\<lparr>fn_left := l, fn_right := r, fn_third := - 1\<rparr>"]]
    denotes_bounds [OF assms(2)] denotes_bounds [OF assms(3)] denotes_binary [OF assms(2-4)]
  by (simp add: add_def bind_push)

lemma holds_last_binary:
  assumes "state_ok tot s" and "denotes (snd s) l a" and "denotes (snd s) r b" and "operation_kind k"
  shows "holds tot (add k l r (- 1) s) (\<lambda>i s'. grown tot s [] s' \<and> denotes (snd s') i (F_binary k a b))"
  using holds_add_binary [OF assms, of return_p "\<lambda>i s'. grown tot s [] s' \<and> denotes (snd s') i (F_binary k a b)"]
  by (simp add: bind_return_right)

lemma holds_bool_walk:
  assumes "state_ok tot s" and "denotes (snd s) i e"
  shows "bind_p (holdsConditional i) k s = k (has_kind conditional_kind e) s"
    and "bind_p (nested i) k s = k (has_kind predicate_kind e) s"
  using subtree_holds_denotes [OF _ assms(2), of "length (snd s)"] denotes_bounds [OF assms(2)] assms(1)
  by (simp_all add: bind_p_def holdsConditional_def nested_def state_ok_def conditional_kind_def [abs_def])

subsection \<open>Calls\<close>

lemma refuse_nested_holds:
  assumes "state_ok tot s" and "list_all2 (denotes (snd s)) as es"
    and "\<not> list_ex (has_kind predicate_kind) es \<Longrightarrow> holds tot (k () s) Q"
  shows "holds tot (bind_p (refuse_nested h as) k s) Q"
  using assms(2,3)
proof (induction as arbitrary: es)
  case Nil
  then show ?case by (simp add: bind_return)
next
  case (Cons a as)
  then obtain e es' where es: "es = e # es'" and d: "denotes (snd s) a e" "list_all2 (denotes (snd s)) as es'"
    by (auto simp: list_all2_Cons1)
  have walk: "refuse_nested h (a # as) s =
      (if has_kind predicate_kind e
       then fail_p (refusal NESTED (''predicate or conditional nested inside '' @ quoted (sc_text h)
              @ '' at offset '' @ decimal (sc_offset h))) s
       else refuse_nested h as s)"
    by (simp add: holds_bool_walk(2) [OF assms(1) d(1)])
  show ?case
  proof (cases "has_kind predicate_kind e")
    case True
    with walk obtain er where "refuse_nested h (a # as) s = Some (Inl er)" by (auto simp: fail_p_def)
    then show ?thesis by (simp only: bind_Inl) (simp add: holds_def)
  next
    case False
    then have "holds tot (bind_p (refuse_nested h as) k s) Q" using Cons.IH [OF d(2)] Cons.prems(2) by (simp add: es)
    moreover have "refuse_nested h (a # as) s = refuse_nested h as s" using False walk by simp
    then have "bind_p (refuse_nested h (a # as)) k s = bind_p (refuse_nested h as) k s" by (rule bind_same)
    ultimately show ?thesis by (simp only:)
  qed
qed

lemma fold_arguments_holds:
  assumes "state_ok tot s" and "denotes (snd s) i e" and "list_all2 (denotes (snd s)) as es" and k: "operation_kind k"
  shows "holds tot (fold_arguments k i as s)
    (\<lambda>i' s'. grown tot s [] s' \<and> denotes (snd s') i' (foldl (F_binary k) e es))"
  using assms(1-3)
proof (induction as arbitrary: i e es s)
  case Nil
  then show ?case by (simp add: grown_refl)
next
  case (Cons a as)
  then obtain x es' where es: "es = x # es'" and d: "denotes (snd s) a x" "list_all2 (denotes (snd s)) as es'"
    by (auto simp: list_all2_Cons1)
  show ?case
    unfolding fold_arguments.simps es foldl_Cons
  proof (rule holds_add_binary [OF Cons.prems(1,2) d(1) k])
    fix s1
    assume s1: "grown tot s [] s1" "denotes (snd s1) (int (length (snd s))) (F_binary k e x)"
    have "list_all2 (denotes (snd s1)) as es'"
      using d(2) by (rule list_all2_mono) (rule grown_denotes [OF s1(1)])
    from Cons.IH [OF grown_state [OF s1(1)] s1(2) this]
    show "holds tot (fold_arguments k (int (length (snd s))) as s1)
        (\<lambda>i' s'. grown tot s [] s' \<and> denotes (snd s') i' (foldl (F_binary k) (F_binary k e x) es'))"
      by (rule holds_mono) (use grown_trans [OF s1(1)] in force)
  qed
qed

lemma holds_literal:
  assumes "state_ok tot s"
    and "\<And>s'. grown tot s [] s' \<Longrightarrow> denotes (snd s') (int (length (snd s))) (F_number v) \<Longrightarrow>
      holds tot (cont (int (length (snd s))) s') Q"
  shows "holds tot (bind_p (literal v) cont s) Q"
  using assms(2) [OF grown_push [OF grown_refl [OF assms(1)], of "(blank_node CONSTANT)\<lparr>fn_value := v\<rparr>"]]
    node_is_last [of "snd s"]
  by (simp add: literal_def bind_push)

lemma helper_holds:
  assumes st: "state_ok tot s" and as: "list_all2 (denotes (snd s)) as es"
    and name: "sc_text h = ''has_event'' \<or> sc_text h = ''source_count''"
  shows "holds tot (parse_helper h as (sc_text h = ''has_event'') s)
    (\<lambda>i s'. grown tot s [] s' \<and> (\<exists>e. call_value (sc_text h) es = Some e \<and> denotes (snd s') i e))"
proof (cases "\<exists>a. as = [a]")
  case False
  then show ?thesis by (auto simp: parse_helper_def split: list.splits)
next
  case True
  then obtain a e where a: "as = [a]" "es = [e]" "denotes (snd s) a e" using as by (auto simp: list_all2_Cons1)
  have node: "node_at a s = Some (Inr (snd s ! nat a, s))" 
  proof -
    have "0 \<le> a" "nat a < length (snd s)" using denotes_bounds [OF a(3)] by auto
    then show ?thesis by (simp add: node_at_def)
  qed
  show ?thesis
  proof (cases "fn_kind (snd s ! nat a) = REFERENCE")
    case False
    then show ?thesis by (simp add: a(1) parse_helper_def bind_p_def node fail_p_def holds_def)
  next
    case True
    then obtain spelling rf where e: "e = F_named REFERENCE spelling rf" and n: "snd s ! nat a = named_node REFERENCE spelling rf"
      using a(3) by (cases e) (auto simp: node_is_def)
    let ?k = "if sc_text h = ''has_event'' then HAS_EVENT else SOURCE_COUNT"
    have cv: "call_value (sc_text h) es = Some (F_named ?k spelling rf)" using name by (auto simp: call_value_def a e)
    have "parse_helper h as (sc_text h = ''has_event'') s = push_node (named_node ?k spelling rf) s"
      by (simp add: a(1) parse_helper_def bind_p_def node n) (simp add: named_node_def blank_node_def)
    moreover have "grown tot s [] (fst s, snd s @ [named_node ?k spelling rf])"
      by (rule grown_push [OF grown_refl [OF st]]) simp_all
    ultimately show ?thesis using node_is_last by (simp add: cv push_node_def)
  qed
qed

lemma apply_function_holds:
  assumes st: "state_ok tot s" and as: "list_all2 (denotes (snd s)) as es" and known: "known_function (sc_text h)"
  shows "holds tot (apply_function h as s)
    (\<lambda>i s'. grown tot s [] s' \<and> (\<exists>e. call_value (sc_text h) es = Some e \<and> denotes (snd s') i e))"
proof (cases "sc_text h = ''has_event'' \<or> sc_text h = ''source_count''")
  case True
  with helper_holds [OF st as True] show ?thesis by (auto simp: apply_function_def)
next
  case False
  show ?thesis
  proof (cases "\<exists>a b cs. as = a # b # cs")
    case short: False
    with False show ?thesis by (auto simp: apply_function_def split: list.splits)
  next
    case True
    then obtain a b cs where ab: "as = a # b # cs" by blast
    then obtain x y zs where es: "es = x # y # zs" and d: "denotes (snd s) a x" "denotes (snd s) b y"
      "list_all2 (denotes (snd s)) cs zs"
      using as by (auto simp: list_all2_Cons1)
    have start: "apply_function h as s = bind_p (refuse_nested h as) (\<lambda>_.
              if sc_text h = ''d_ratio''
              then bind_p (literal one64) (\<lambda>unit. bind_p (add MAXIMUM b unit (- 1)) (\<lambda>guard.
                     add DIVIDE a guard (- 1)))
              else fold_arguments (if sc_text h = ''min'' then MINIMUM else MAXIMUM) a (b # cs)) s"
      using False by (simp add: apply_function_def ab)
    show ?thesis
      unfolding start
    proof (rule refuse_nested_holds [OF st as])
      assume clean: "\<not> list_ex (has_kind predicate_kind) es"
      show "holds tot ((if sc_text h = ''d_ratio''
              then bind_p (literal one64) (\<lambda>unit. bind_p (add MAXIMUM b unit (- 1)) (\<lambda>guard.
                     add DIVIDE a guard (- 1)))
              else fold_arguments (if sc_text h = ''min'' then MINIMUM else MAXIMUM) a (b # cs)) s)
          (\<lambda>i s'. grown tot s [] s' \<and> (\<exists>e. call_value (sc_text h) es = Some e \<and> denotes (snd s') i e))"
      proof (cases "sc_text h = ''d_ratio''")
        case True
        have cv: "call_value (sc_text h) es = Some (F_binary DIVIDE x (F_binary MAXIMUM y (F_number one64)))"
          using clean by (simp add: call_value_def True es)
        have "holds tot (bind_p (literal one64) (\<lambda>unit. bind_p (add MAXIMUM b unit (- 1)) (\<lambda>guard.
                     add DIVIDE a guard (- 1))) s)
          (\<lambda>i s'. grown tot s [] s' \<and> denotes (snd s') i (F_binary DIVIDE x (F_binary MAXIMUM y (F_number one64))))"
        proof (rule holds_literal [OF st], rule holds_add_binary)
          fix s1
          assume s1: "grown tot s [] s1" "denotes (snd s1) (int (length (snd s))) (F_number one64)"
          show "state_ok tot s1" "denotes (snd s1) b y" "denotes (snd s1) (int (length (snd s))) (F_number one64)" "operation_kind MAXIMUM"
            using grown_state [OF s1(1)] grown_denotes [OF s1(1) d(2)] s1(2) by simp_all
          fix s2
          assume s2: "grown tot s1 [] s2" "denotes (snd s2) (int (length (snd s1))) (F_binary MAXIMUM y (F_number one64))"
          have "denotes (snd s2) a x" by (rule grown_denotes [OF s2(1) grown_denotes [OF s1(1) d(1)]])
          from holds_last_binary [OF grown_state [OF s2(1)] this s2(2), of DIVIDE, simplified]
          show "holds tot (add DIVIDE a (int (length (snd s1))) (- 1) s2)
            (\<lambda>i s'. grown tot s [] s' \<and> denotes (snd s') i (F_binary DIVIDE x (F_binary MAXIMUM y (F_number one64))))"
            by (rule holds_mono) (use grown_trans [OF s1(1) grown_trans [OF s2(1)]] in force)
        qed
        with True cv show ?thesis by simp
      next
        case other: False
        let ?k = "if sc_text h = ''min'' then MINIMUM else MAXIMUM"
        have cv: "call_value (sc_text h) es = Some (foldl (F_binary ?k) x (y # zs))"
          using clean False other known by (auto simp: call_value_def es known_function_def)
        have "list_all2 (denotes (snd s)) (b # cs) (y # zs)" using d by simp
        from fold_arguments_holds [OF st d(1) this, of ?k] other [simplified] cv show ?thesis by simp
      qed
    qed
  qed
qed

subsection \<open>The parser reads the grammar\<close>

definition value_ok :: "bool \<Rightarrow> nat \<Rightarrow> level \<Rightarrow> nat \<Rightarrow> int parser \<Rightarrow> bool" where
  "value_ok tot f L k p \<longleftrightarrow>
     (\<forall>s. state_ok tot s \<longrightarrow> (tot \<longrightarrow> 8 * length (fst s) \<le> f + k) \<longrightarrow> holds tot (p s) (reads tot L s))"

text \<open>A loop goes on from an operand that is already read.\<close>

definition continues :: "bool \<Rightarrow> level \<Rightarrow> scanned list \<Rightarrow> pstate \<Rightarrow> int \<Rightarrow> pstate \<Rightarrow> bool" where
  "continues tot L used s i s' \<longleftrightarrow>
     (\<exists>us e. grown tot s us s' \<and> spells L (used @ us) e \<and> denotes (snd s') i e)"

definition loop_ok :: "bool \<Rightarrow> nat \<Rightarrow> level \<Rightarrow> nat \<Rightarrow> (int \<Rightarrow> int parser) \<Rightarrow> bool" where
  "loop_ok tot f L k p \<longleftrightarrow>
     (\<forall>s l used e. state_ok tot s \<longrightarrow> (tot \<longrightarrow> 8 * length (fst s) \<le> f + k) \<longrightarrow> spells L used e \<longrightarrow>
        denotes (snd s) l e \<longrightarrow> holds tot (p l s) (continues tot L used s))"

definition reads_args :: "bool \<Rightarrow> fexpr list \<Rightarrow> pstate \<Rightarrow> int list \<Rightarrow> pstate \<Rightarrow> bool" where
  "reads_args tot es s as s' \<longleftrightarrow>
     (\<exists>us es'. grown tot s us s' \<and> spells_args us es' \<and> list_all2 (denotes (snd s')) as (es @ es'))"

definition args_ok :: "bool \<Rightarrow> nat \<Rightarrow> nat \<Rightarrow> (int list \<Rightarrow> int list parser) \<Rightarrow> bool" where
  "args_ok tot f k p \<longleftrightarrow>
     (\<forall>s as es. state_ok tot s \<longrightarrow> (tot \<longrightarrow> 8 * length (fst s) \<le> f + k) \<longrightarrow>
        list_all2 (denotes (snd s)) as es \<longrightarrow> holds tot (p as s) (reads_args tot es s))"

lemma value_okD:
  "value_ok tot f L k p \<Longrightarrow> state_ok tot s \<Longrightarrow> (tot \<Longrightarrow> 8 * length (fst s) \<le> f + k) \<Longrightarrow> holds tot (p s) (reads tot L s)"
  unfolding value_ok_def by blast

lemma value_okI:
  "(\<And>s. state_ok tot s \<Longrightarrow> (tot \<Longrightarrow> 8 * length (fst s) \<le> f + k) \<Longrightarrow> holds tot (p s) (reads tot L s)) \<Longrightarrow>
   value_ok tot f L k p"
  unfolding value_ok_def by blast

lemma loop_okD:
  "loop_ok tot f L k p \<Longrightarrow> state_ok tot s \<Longrightarrow> (tot \<Longrightarrow> 8 * length (fst s) \<le> f + k) \<Longrightarrow> spells L used e \<Longrightarrow>
   denotes (snd s) l e \<Longrightarrow> holds tot (p l s) (continues tot L used s)"
  unfolding loop_ok_def by blast

lemma readsE:
  assumes "reads tot L s i s'"
  obtains used e where "grown tot s used s'" "used \<noteq> []" "spells L used e" "denotes (snd s') i e" "state_ok tot s'"
    "length (fst s') < length (fst s)"
  using assms by (auto simp: reads_def grown_def)

lemma readsI:
  "grown tot s used s' \<Longrightarrow> used \<noteq> [] \<Longrightarrow> spells L used e \<Longrightarrow> denotes (snd s') i e \<Longrightarrow> reads tot L s i s'"
  by (auto simp: reads_def)

lemma reads_after:
  assumes "grown tot s us s1" and "reads tot L s1 i s2"
  obtains vs e where "grown tot s (us @ vs) s2" "vs \<noteq> []" "spells L vs e" "denotes (snd s2) i e" "state_ok tot s2"
    "length (fst s2) < length (fst s1)" "\<And>j x. denotes (snd s1) j x \<Longrightarrow> denotes (snd s2) j x"
  using assms(2)
proof (rule readsE)
  fix used e
  assume r: "grown tot s1 used s2" "used \<noteq> []" "spells L used e" "denotes (snd s2) i e" "state_ok tot s2"
    "length (fst s2) < length (fst s1)"
  show thesis
    by (rule that [OF grown_trans [OF assms(1) r(1)] r(2-6)]) (rule grown_denotes [OF r(1)])
qed

text \<open>A read of one level is a read of a level above it.\<close>

lemma reads_level:
  "reads tot L s i s' \<Longrightarrow> (\<And>ts e. spells L ts e \<Longrightarrow> spells M ts e) \<Longrightarrow> reads tot M s i s'"
  by (auto simp: reads_def)

lemma start_loop:
  assumes p: "value_ok tot f L k p" and q: "loop_ok tot f M k' q" and "k' \<le> k + 8"
    and lift: "\<And>ts e. spells L ts e \<Longrightarrow> spells M ts e"
    and st: "state_ok tot s" and fuel: "tot \<Longrightarrow> 8 * length (fst s) \<le> f + k" "tot \<Longrightarrow> 8 * length (fst s) \<le> f + k' + 8"
  shows "holds tot (bind_p p q s) (reads tot M s)"
proof (rule holds_bind [where R = "reads tot L s"])
  show "holds tot (p s) (reads tot L s)" by (rule value_okD [OF p st fuel(1)])
  fix i s1
  assume "reads tot L s i s1"
  then show "holds tot (q i s1) (reads tot M s)"
  proof (rule readsE)
    fix used e
    assume r: "grown tot s used s1" "used \<noteq> []" "spells L used e" "denotes (snd s1) i e" "state_ok tot s1"
      "length (fst s1) < length (fst s)"
    have "8 * length (fst s1) \<le> f + k'" if tot using fuel(2) [OF that] r(6) by simp
    from loop_okD [OF q r(5) this lift [OF r(3)] r(4)] show "holds tot (q i s1) (reads tot M s)"
    proof (rule holds_mono)
      fix j s2
      assume "continues tot M used s1 j s2"
      then obtain us e' where c: "grown tot s1 us s2" "spells M (used @ us) e'" "denotes (snd s2) j e'"
        by (auto simp: continues_def)
      show "reads tot M s j s2"
        by (rule readsI [OF grown_trans [OF r(1) c(1)] _ c(2,3)]) (simp add: r(2))
    qed
  qed
qed

text \<open>One round of a loop: an operator, an operand, the node, and on.\<close>

lemma loop_round:
  assumes p: "value_ok tot f L k p" and q: "loop_ok tot f M k' q" and "operation_kind op"
    and join: "\<And>r b. spells L r b \<Longrightarrow> spells M (used @ t # r) (F_binary op a b)"
    and st: "state_ok tot s" and tok: "fst s = t # ts" "sc_kind t \<noteq> END_TEXT"
    and fuel: "tot \<Longrightarrow> 8 * length (fst s) \<le> f + k + 8" "tot \<Longrightarrow> 8 * length (fst s) \<le> f + k' + 8"
    and l: "denotes (snd s) l a"
  shows "holds tot (bind_p advance (\<lambda>_. bind_p p (\<lambda>r. bind_p (add op l r (- 1)) q)) s) (continues tot M used s)"
  unfolding bind_advance [OF tok(1)]
proof (rule holds_bind [where R = "reads tot L (ts, snd s)"])
  have g0: "grown tot s [t] (ts, snd s)" using grown_advance [OF grown_refl [OF st] tok] by simp
  have st0: "state_ok tot (ts, snd s)" by (rule grown_state [OF g0])
  show "holds tot (p (ts, snd s)) (reads tot L (ts, snd s))"
    by (rule value_okD [OF p st0]) (use fuel(1) tok(1) in simp)
  fix i s1
  assume "reads tot L (ts, snd s) i s1"
  then show "holds tot (bind_p (add op l i (- 1)) q s1) (continues tot M used s)"
  proof (rule reads_after [OF g0])
    fix vs b
    assume r: "grown tot s ([t] @ vs) s1" "vs \<noteq> []" "spells L vs b" "denotes (snd s1) i b" "state_ok tot s1"
      "length (fst s1) < length (fst (ts, snd s))" "\<And>j x. denotes (snd (ts, snd s)) j x \<Longrightarrow> denotes (snd s1) j x"
    have la: "denotes (snd s1) l a" using r(7) l by simp
    show "holds tot (bind_p (add op l i (- 1)) q s1) (continues tot M used s)"
    proof (rule holds_add_binary [OF r(5) la r(4) assms(3)])
      fix s2
      assume s2: "grown tot s1 [] s2" "denotes (snd s2) (int (length (snd s1))) (F_binary op a b)"
      have "8 * length (fst s2) \<le> f + k'" if tot
        using fuel(2) [OF that] r(6) tok(1) grown_fuel [OF s2(1)] by simp
      from loop_okD [OF q grown_state [OF s2(1)] this join [OF r(3)] s2(2)]
      show "holds tot (q (int (length (snd s1))) s2) (continues tot M used s)"
      proof (rule holds_mono)
        fix j s3
        assume "continues tot M (used @ t # vs) s2 j s3"
        then obtain us e' where c: "grown tot s2 us s3" "spells M ((used @ t # vs) @ us) e'" "denotes (snd s3) j e'"
          by (auto simp: continues_def)
        have "grown tot s (([t] @ vs) @ [] @ us) s3" by (rule grown_trans [OF r(1) grown_trans [OF s2(1) c(1)]])
        with c show "continues tot M used s j s3" by (auto simp: continues_def)
      qed
    qed
  qed
qed

lemma additive_step:
  assumes "value_ok tot f Product 5 (multiplicative f)" and "loop_ok tot f Sum 5 (additive_loop f)"
  shows "value_ok tot (Suc f) Sum 4 (additive (Suc f))"
proof (rule value_okI)
  fix s
  assume st: "state_ok tot s" and fuel: "tot \<Longrightarrow> 8 * length (fst s) \<le> Suc f + 4"
  show "holds tot (additive (Suc f) s) (reads tot Sum s)"
    unfolding additive.simps by (rule start_loop [OF assms _ one_term st]) (use fuel in simp_all)
qed

lemma multiplicative_step:
  assumes "value_ok tot f Signed 6 (unary f)" and "loop_ok tot f Product 6 (multiplicative_loop f)"
  shows "value_ok tot (Suc f) Product 5 (multiplicative (Suc f))"
proof (rule value_okI)
  fix s
  assume st: "state_ok tot s" and fuel: "tot \<Longrightarrow> 8 * length (fst s) \<le> Suc f + 5"
  show "holds tot (multiplicative (Suc f) s) (reads tot Product s)"
    unfolding multiplicative.simps by (rule start_loop [OF assms _ one_factor st]) (use fuel in simp_all)
qed

lemma continues_stop: "state_ok tot s \<Longrightarrow> spells L used e \<Longrightarrow> denotes (snd s) l e \<Longrightarrow> continues tot L used s l s"
  unfolding continues_def using grown_refl [of tot s] by (intro exI [of _ "[]"] exI [of _ e]) simp

lemma additive_loop_step:
  assumes "value_ok tot f Product 5 (multiplicative f)" and "loop_ok tot f Sum 5 (additive_loop f)"
  shows "loop_ok tot (Suc f) Sum 5 (additive_loop (Suc f))"
  unfolding loop_ok_def
proof (intro allI impI)
  fix s l used e
  assume st: "state_ok tot s" and fuel: "tot \<longrightarrow> 8 * length (fst s) \<le> Suc f + 5"
    and l: "spells Sum used e" "denotes (snd s) l e"
  obtain t ts where tok: "fst s = t # ts" using state_token [OF st] by blast
  show "holds tot (additive_loop (Suc f) l s) (continues tot Sum used s)"
  proof (cases "sc_kind t = PLUS \<or> sc_kind t = MINUS")
    case True
    then have "additive_loop (Suc f) l s = bind_p advance (\<lambda>_. bind_p (multiplicative f) (\<lambda>r.
        bind_p (add (if sc_kind t = PLUS then ADD else SUBTRACT) l r (- 1)) (additive_loop f))) s"
      by (simp add: bind_token [OF tok])
    moreover have "holds tot (bind_p advance (\<lambda>_. bind_p (multiplicative f) (\<lambda>r.
        bind_p (add (if sc_kind t = PLUS then ADD else SUBTRACT) l r (- 1)) (additive_loop f))) s) (continues tot Sum used s)"
      by (rule loop_round [OF assms _ added [OF l(1) True] st tok _ _ _ l(2)]) (use True fuel in auto)
    ultimately show ?thesis by simp
  next
    case False
    with continues_stop [OF st l] show ?thesis by (simp add: bind_token [OF tok])
  qed
qed

lemma multiplicative_loop_step:
  assumes "value_ok tot f Signed 6 (unary f)" and "loop_ok tot f Product 6 (multiplicative_loop f)"
  shows "loop_ok tot (Suc f) Product 6 (multiplicative_loop (Suc f))"
  unfolding loop_ok_def
proof (intro allI impI)
  fix s l used e
  assume st: "state_ok tot s" and fuel: "tot \<longrightarrow> 8 * length (fst s) \<le> Suc f + 6"
    and l: "spells Product used e" "denotes (snd s) l e"
  obtain t ts where tok: "fst s = t # ts" using state_token [OF st] by blast
  show "holds tot (multiplicative_loop (Suc f) l s) (continues tot Product used s)"
  proof (cases "sc_kind t = TIMES \<or> sc_kind t = DIVIDED")
    case True
    then have "multiplicative_loop (Suc f) l s = bind_p advance (\<lambda>_. bind_p (unary f) (\<lambda>r.
        bind_p (add (if sc_kind t = TIMES then MULTIPLY else DIVIDE) l r (- 1)) (multiplicative_loop f))) s"
      by (simp add: bind_token [OF tok])
    moreover have "holds tot (bind_p advance (\<lambda>_. bind_p (unary f) (\<lambda>r.
        bind_p (add (if sc_kind t = TIMES then MULTIPLY else DIVIDE) l r (- 1)) (multiplicative_loop f))) s)
        (continues tot Product used s)"
      by (rule loop_round [OF assms _ multiplied [OF l(1) True] st tok _ _ _ l(2)]) (use True fuel in auto)
    ultimately show ?thesis by simp
  next
    case False
    with continues_stop [OF st l] show ?thesis by (simp add: bind_token [OF tok])
  qed
qed

lemma unary_step:
  assumes un: "value_ok tot f Signed 6 (unary f)" and pr: "value_ok tot f Atom 7 (primary f)"
  shows "value_ok tot (Suc f) Signed 6 (unary (Suc f))"
proof (rule value_okI)
  fix s
  assume st: "state_ok tot s" and fuel: "tot \<Longrightarrow> 8 * length (fst s) \<le> Suc f + 6"
  obtain t ts where tok: "fst s = t # ts" using state_token [OF st] by blast
  show "holds tot (unary (Suc f) s) (reads tot Signed s)"
  proof (cases "sc_kind t = MINUS")
    case False
    have "holds tot (primary f s) (reads tot Atom s)" by (rule value_okD [OF pr st]) (use fuel in simp)
    then have "holds tot (primary f s) (reads tot Signed s)" by (rule holds_mono) (blast intro: reads_level unsigned)
    with False show ?thesis by (simp add: bind_token [OF tok])
  next
    case True
    then have g0: "grown tot s [t] (ts, snd s)" using grown_advance [OF grown_refl [OF st] tok] by simp
    have start: "unary (Suc f) s = bind_p (unary f) (\<lambda>operand.
        bind_p (literal minus_one64) (\<lambda>one. add MULTIPLY one operand (- 1))) (ts, snd s)"
      using True by (simp add: bind_token [OF tok] bind_advance [OF tok])
    show ?thesis
      unfolding start
    proof (rule holds_bind [where R = "reads tot Signed (ts, snd s)"])
      show "holds tot (unary f (ts, snd s)) (reads tot Signed (ts, snd s))"
        by (rule value_okD [OF un grown_state [OF g0]]) (use fuel tok in simp)
      fix i s1
      assume "reads tot Signed (ts, snd s) i s1"
      then show "holds tot (bind_p (literal minus_one64) (\<lambda>one. add MULTIPLY one i (- 1)) s1) (reads tot Signed s)"
      proof (rule reads_after [OF g0])
        fix vs e
        assume r: "grown tot s ([t] @ vs) s1" "vs \<noteq> []" "spells Signed vs e" "denotes (snd s1) i e" "state_ok tot s1"
        show "holds tot (bind_p (literal minus_one64) (\<lambda>one. add MULTIPLY one i (- 1)) s1) (reads tot Signed s)"
        proof (rule holds_literal [OF r(5)])
          fix s2
          assume s2: "grown tot s1 [] s2" "denotes (snd s2) (int (length (snd s1))) (F_number minus_one64)"
          have "operation_kind MULTIPLY" by simp
          from holds_last_binary [OF grown_state [OF s2(1)] s2(2) grown_denotes [OF s2(1) r(4)] this]
          show "holds tot (add MULTIPLY (int (length (snd s1))) i (- 1) s2) (reads tot Signed s)"
          proof (rule holds_mono)
            fix j s3
            assume j: "grown tot s2 [] s3 \<and> denotes (snd s3) j (F_binary MULTIPLY (F_number minus_one64) e)"
            then have "grown tot s (([t] @ vs) @ [] @ []) s3" using grown_trans [OF r(1) grown_trans [OF s2(1)]] by blast
            then have g3: "grown tot s (t # vs) s3" by simp
            show "reads tot Signed s j s3"
              by (rule readsI [OF g3 _ negated [OF True r(3)] conjunct2 [OF j]]) simp
          qed
        qed
      qed
    qed
  qed
qed

lemma arguments_step:
  assumes co: "value_ok tot f Cond 3 (conditional f)" and ar: "args_ok tot f 2 (arguments f)"
  shows "args_ok tot (Suc f) 2 (arguments (Suc f))"
  unfolding args_ok_def
proof (intro allI impI)
  fix s as es
  assume st: "state_ok tot s" and fuel: "tot \<longrightarrow> 8 * length (fst s) \<le> Suc f + 2"
    and as: "list_all2 (denotes (snd s)) as es"
  obtain t ts where tok: "fst s = t # ts" using state_token [OF st] by blast
  show "holds tot (arguments (Suc f) as s) (reads_args tot es s)"
  proof (cases "sc_kind t = RIGHT_PAREN")
    case True
    have "reads_args tot es s as s"
      unfolding reads_args_def using grown_refl [OF st] as no_arguments by (intro exI [of _ "[]"]) simp
    with True show ?thesis by (simp add: bind_token [OF tok])
  next
    case False
    have start: "arguments (Suc f) as s = bind_p (conditional f) (\<lambda>a. bind_p token (\<lambda>u.
              if sc_kind u \<noteq> COMMA then return_p (as @ [a])
              else bind_p advance (\<lambda>_. arguments f (as @ [a])))) s"
      using False by (simp add: bind_token [OF tok])
    show ?thesis
      unfolding start
    proof (rule holds_bind [where R = "reads tot Cond s"])
      show "holds tot (conditional f s) (reads tot Cond s)" by (rule value_okD [OF co st]) (use fuel in simp)
      fix a s1
      assume "reads tot Cond s a s1"
      then show "holds tot (bind_p token (\<lambda>u. if sc_kind u \<noteq> COMMA then return_p (as @ [a])
              else bind_p advance (\<lambda>_. arguments f (as @ [a]))) s1) (reads_args tot es s)"
      proof (rule readsE)
        fix used e
        assume r: "grown tot s used s1" "used \<noteq> []" "spells Cond used e" "denotes (snd s1) a e" "state_ok tot s1"
          "length (fst s1) < length (fst s)"
        obtain u us where tok1: "fst s1 = u # us" using state_token [OF r(5)] by blast
        have as1: "list_all2 (denotes (snd s1)) (as @ [a]) (es @ [e])"
          using list_all2_mono [OF as grown_denotes [OF r(1)]] r(4) by (simp add: list_all2_appendI)
        show "holds tot (bind_p token (\<lambda>u. if sc_kind u \<noteq> COMMA then return_p (as @ [a])
              else bind_p advance (\<lambda>_. arguments f (as @ [a]))) s1) (reads_args tot es s)"
        proof (cases "sc_kind u = COMMA")
          case False
          have "reads_args tot es s (as @ [a]) s1"
            unfolding reads_args_def using r(1) one_argument [OF r(3)] as1 by blast
          with False show ?thesis by (simp add: bind_token [OF tok1])
        next
          case True
          then have g2: "grown tot s (used @ [u]) (us, snd s1)" using grown_advance [OF r(1) tok1] by simp
          have "tot \<longrightarrow> 8 * length (fst (us, snd s1)) \<le> f + 2" using fuel r(6) tok1 by auto
          then have "holds tot (arguments f (as @ [a]) (us, snd s1)) (reads_args tot (es @ [e]) (us, snd s1))"
            using ar grown_state [OF g2] as1 unfolding args_ok_def by (metis snd_conv)
          then have "holds tot (arguments f (as @ [a]) (us, snd s1)) (reads_args tot es s)"
          proof (rule holds_mono)
            fix bs s3
            assume "reads_args tot (es @ [e]) (us, snd s1) bs s3"
            then obtain vs es' where v: "grown tot (us, snd s1) vs s3" "spells_args vs es'"
              "list_all2 (denotes (snd s3)) bs ((es @ [e]) @ es')" unfolding reads_args_def by blast
            have "grown tot s ((used @ [u]) @ vs) s3" by (rule grown_trans [OF g2 v(1)])
            moreover have "spells_args ((used @ [u]) @ vs) (e # es')" using more_arguments [OF r(3) True v(2)] by simp
            ultimately show "reads_args tot es s bs s3" unfolding reads_args_def using v(3) by fastforce
          qed
          with True show ?thesis by (simp add: bind_token [OF tok1] bind_advance [OF tok1])
        qed
      qed
    qed
  qed
qed

lemma reference_holds:
  assumes g: "grown tot s [h] s1" and st: "state_ok tot s" and tok: "fst s = h # ts" and k: "sc_kind h = REFERENCE_TEXT"
  shows "holds tot (parse_reference h s1) (reads tot Atom s)"
proof (cases "decodeReference (sc_text h)")
  case None
  then have "\<not> tot" using st tok k by (auto simp: state_ok_def tokens_ok_def)
  with None show ?thesis by (simp add: parse_reference_def)
next
  case (Some rf)
  let ?n = "named_node REFERENCE (sc_text h) rf"
  have g2: "grown tot s [h] (fst s1, snd s1 @ [?n])" by (rule grown_push [OF g]) simp_all
  have d: "denotes (snd s1 @ [?n]) (int (length (snd s1))) (F_named REFERENCE (sc_text h) rf)"
    by (simp add: node_is_last)
  have "reads tot Atom s (int (length (snd s1))) (fst s1, snd s1 @ [?n])"
    by (rule readsI [OF g2 _ named [OF k Some]]) (simp_all only: d snd_conv list.simps not_False_eq_True)
  then show ?thesis by (simp add: parse_reference_def Some push_node_def)
qed

lemma call_holds:
  assumes g: "grown tot s [h, l] s1" and st: "state_ok tot s" and k: "sc_kind h = REFERENCE_TEXT" "sc_kind l = LEFT_PAREN"
    and known: "known_function (sc_text h)" and ar: "args_ok tot f 2 (arguments f)"
    and fuel: "tot \<Longrightarrow> 8 * length (fst s) \<le> f + 8"
  shows "holds tot (bind_p (arguments f []) (\<lambda>as. bind_p token (\<lambda>u.
                     if sc_kind u \<noteq> RIGHT_PAREN
                     then fail_p (malformed (''expected '' @ quoted '','' @ '' or '' @ quoted '')'') (sc_offset u))
                     else bind_p advance (\<lambda>_. apply_function h as))) s1) (reads tot Atom s)"
proof (rule holds_bind [where R = "reads_args tot [] s1"])
  have "tot \<longrightarrow> 8 * length (fst s1) \<le> f + 2" using fuel grown_fuel [OF g] by auto
  then show "holds tot (arguments f [] s1) (reads_args tot [] s1)"
    using ar grown_state [OF g] unfolding args_ok_def by blast
  fix as s2
  assume "reads_args tot [] s1 as s2"
  then obtain us es where u: "grown tot s1 us s2" "spells_args us es" "list_all2 (denotes (snd s2)) as es"
    by (auto simp: reads_args_def)
  have g2: "grown tot s ([h, l] @ us) s2" by (rule grown_trans [OF g u(1)])
  obtain r rs where tok: "fst s2 = r # rs" using state_token [OF grown_state [OF u(1)]] by blast
  show "holds tot (bind_p token (\<lambda>u. if sc_kind u \<noteq> RIGHT_PAREN
                     then fail_p (malformed (''expected '' @ quoted '','' @ '' or '' @ quoted '')'') (sc_offset u))
                     else bind_p advance (\<lambda>_. apply_function h as)) s2) (reads tot Atom s)"
  proof (cases "sc_kind r = RIGHT_PAREN")
    case False
    then show ?thesis by (simp add: bind_token [OF tok])
  next
    case True
    then have g3: "grown tot s (([h, l] @ us) @ [r]) (rs, snd s2)" using grown_advance [OF g2 tok] by simp
    from apply_function_holds [OF grown_state [OF g3] _ known, of as es] u(3)
    have "holds tot (apply_function h as (rs, snd s2))
      (\<lambda>i s'. grown tot (rs, snd s2) [] s' \<and> (\<exists>e. call_value (sc_text h) es = Some e \<and> denotes (snd s') i e))" by simp
    then have "holds tot (apply_function h as (rs, snd s2)) (reads tot Atom s)"
    proof (rule holds_mono)
      fix i s4
      assume "grown tot (rs, snd s2) [] s4 \<and> (\<exists>e. call_value (sc_text h) es = Some e \<and> denotes (snd s4) i e)"
      then obtain e where e: "grown tot (rs, snd s2) [] s4" "call_value (sc_text h) es = Some e" "denotes (snd s4) i e" by blast
      have g4: "grown tot s (h # l # us @ [r]) s4" using grown_trans [OF g3 e(1)] by simp
      show "reads tot Atom s i s4" by (rule readsI [OF g4 _ called [OF k u(2) True e(2)] e(3)]) simp
    qed
    with True show ?thesis by (simp add: bind_token [OF tok] bind_advance [OF tok])
  qed
qed

lemma paren_holds:
  assumes g: "grown tot s [l] s1" and st: "state_ok tot s" and k: "sc_kind l = LEFT_PAREN"
    and co: "value_ok tot f Cond 3 (conditional f)" and fuel: "tot \<Longrightarrow> 8 * length (fst s) \<le> f + 8"
  shows "holds tot (bind_p (conditional f) (\<lambda>inner. bind_p token (\<lambda>t.
              if sc_kind t \<noteq> RIGHT_PAREN then fail_p (malformed (''expected '' @ quoted '')'') (sc_offset t))
              else bind_p advance (\<lambda>_. return_p inner))) s1) (reads tot Atom s)"
proof (rule holds_bind [where R = "reads tot Cond s1"])
  show "holds tot (conditional f s1) (reads tot Cond s1)"
    by (rule value_okD [OF co grown_state [OF g]]) (use fuel grown_fuel [OF g] in simp)
  fix i s2
  assume "reads tot Cond s1 i s2"
  then show "holds tot (bind_p token (\<lambda>t.
              if sc_kind t \<noteq> RIGHT_PAREN then fail_p (malformed (''expected '' @ quoted '')'') (sc_offset t))
              else bind_p advance (\<lambda>_. return_p i)) s2) (reads tot Atom s)"
  proof (rule reads_after [OF g])
    fix vs e
    assume r: "grown tot s ([l] @ vs) s2" "vs \<noteq> []" "spells Cond vs e" "denotes (snd s2) i e" "state_ok tot s2"
    obtain t ts where tok: "fst s2 = t # ts" using state_token [OF r(5)] by blast
    show ?thesis
    proof (cases "sc_kind t = RIGHT_PAREN")
      case False
      then show ?thesis by (simp add: bind_token [OF tok])
    next
      case True
      then have g3: "grown tot s (l # vs @ [t]) (ts, snd s2)" using grown_advance [OF r(1) tok] by simp
      have "reads tot Atom s i (ts, snd s2)"
        by (rule readsI [OF g3 _ parenthesised [OF k r(3) True]]) (simp_all add: r(4))
      with True show ?thesis by (simp add: bind_token [OF tok] bind_advance [OF tok])
    qed
  qed
qed

lemma primary_step:
  assumes co: "value_ok tot f Cond 3 (conditional f)" and ar: "args_ok tot f 2 (arguments f)"
  shows "value_ok tot (Suc f) Atom 7 (primary (Suc f))"
proof (rule value_okI)
  fix s
  assume st: "state_ok tot s" and fuel: "tot \<Longrightarrow> 8 * length (fst s) \<le> Suc f + 7"
  obtain h ts where tok: "fst s = h # ts" using state_token [OF st] by blast
  have g: "grown tot s [h] (ts, snd s)" if "sc_kind h \<noteq> END_TEXT"
    using grown_advance [OF grown_refl [OF st] tok that] by simp
  have f8: "tot \<Longrightarrow> 8 * length (fst s) \<le> f + 8" using fuel by simp
  consider "sc_kind h = NUMBER" | "sc_kind h = CONSTANT_NAME" | "sc_kind h = LEFT_PAREN" | "sc_kind h = REFERENCE_TEXT"
    | "sc_kind h \<notin> {NUMBER, CONSTANT_NAME, LEFT_PAREN, REFERENCE_TEXT}" by blast
  then show "holds tot (primary (Suc f) s) (reads tot Atom s)"
  proof cases
    case 1
    let ?n = "(blank_node CONSTANT)\<lparr>fn_value := sc_number h\<rparr>"
    have "grown tot s [h] (fst (ts, snd s), snd (ts, snd s) @ [?n])" by (rule grown_push [OF g]) (simp_all add: 1)
    then have "reads tot Atom s (int (length (snd s))) (ts, snd s @ [?n])"
      by (intro readsI [OF _ _ number [OF 1]]) (simp_all add: node_is_last)
    with 1 show ?thesis by (simp add: bind_token [OF tok] bind_advance [OF tok] literal_def push_node_def)
  next
    case 2
    let ?n = "(blank_node HOST_CONSTANT)\<lparr>fn_spelling := sc_text h\<rparr>"
    have "grown tot s [h] (fst (ts, snd s), snd (ts, snd s) @ [?n])" by (rule grown_push [OF g]) (simp_all add: 2)
    then have "reads tot Atom s (int (length (snd s))) (ts, snd s @ [?n])"
      by (intro readsI [OF _ _ host_fact [OF 2]]) (simp_all add: node_is_last)
    with 2 show ?thesis by (simp add: bind_token [OF tok] bind_advance [OF tok] push_node_def)
  next
    case 3
    with paren_holds [OF g st 3 co f8] show ?thesis by (simp add: bind_token [OF tok] bind_advance [OF tok])
  next
    case 4
    have g1: "grown tot s [h] (ts, snd s)" by (rule g) (simp add: 4)
    obtain t us where tok1: "fst (ts, snd s) = t # us" using state_token [OF grown_state [OF g1]] by blast
    have start: "primary (Suc f) s = (if sc_kind t \<noteq> LEFT_PAREN then parse_reference h
              else if \<not> known_function (sc_text h)
              then fail_p (unsupported (''function '' @ quoted (sc_text h)) (sc_offset h))
              else bind_p advance (\<lambda>_. bind_p (arguments f []) (\<lambda>as. bind_p token (\<lambda>u.
                     if sc_kind u \<noteq> RIGHT_PAREN
                     then fail_p (malformed (''expected '' @ quoted '','' @ '' or '' @ quoted '')'') (sc_offset u))
                     else bind_p advance (\<lambda>_. apply_function h as))))) (ts, snd s)"
      by (simp add: bind_token [OF tok] bind_advance [OF tok] bind_token [OF tok1] 4)
    show ?thesis
    proof (cases "sc_kind t = LEFT_PAREN \<and> known_function (sc_text h)")
      case True
      then have g2: "grown tot s [h, t] (us, snd s)" using grown_advance [OF g1 tok1] by simp
      from call_holds [OF g2 st 4 _ _ ar f8] True show ?thesis
        unfolding start by (simp add: bind_advance [OF tok1])
    next
      case False
      with reference_holds [OF g1 st tok 4] show ?thesis unfolding start by auto
    qed
  next
    case 5
    then show ?thesis by (simp add: bind_token [OF tok])
  qed
qed

lemma comparison_step:
  assumes ad: "value_ok tot f Sum 4 (additive f)"
  shows "value_ok tot (Suc f) Test 3 (comparison (Suc f))"
proof (rule value_okI)
  fix s
  assume st: "state_ok tot s" and fuel: "tot \<Longrightarrow> 8 * length (fst s) \<le> Suc f + 3"
  show "holds tot (comparison (Suc f) s) (reads tot Test s)"
    unfolding comparison.simps
  proof (rule holds_bind [where R = "reads tot Sum s"])
    show "holds tot (additive f s) (reads tot Sum s)" by (rule value_okD [OF ad st]) (use fuel in simp)
    fix l s1
    assume "reads tot Sum s l s1"
    then show "holds tot (bind_p token (\<lambda>t.
       if sc_kind t \<noteq> GREATER_THAN \<and> sc_kind t \<noteq> LESS_THAN
       then bind_p (holdsConditional l) (\<lambda>b.
              if b then fail_p (unsupported ''a conditional inside the test of a conditional'' (sc_offset t))
              else return_p l)
       else bind_p advance (\<lambda>_. bind_p (additive f) (\<lambda>r.
              bind_p (holdsConditional l) (\<lambda>b. bind_p (if b then return_p True else holdsConditional r) (\<lambda>c.
                bind_p token (\<lambda>u.
                  if c then fail_p (unsupported ''a conditional inside the test of a conditional'' (sc_offset u))
                  else add (if sc_kind t = GREATER_THAN then GREATER else LESS) l r (- 1))))))) s1) (reads tot Test s)"
    proof (rule readsE)
      fix used a
      assume r: "grown tot s used s1" "used \<noteq> []" "spells Sum used a" "denotes (snd s1) l a" "state_ok tot s1"
        "length (fst s1) < length (fst s)"
      obtain t ts where tok: "fst s1 = t # ts" using state_token [OF r(5)] by blast
      show ?thesis
      proof (cases "sc_kind t = GREATER_THAN \<or> sc_kind t = LESS_THAN")
        case False
        have "\<not> has_kind conditional_kind a \<Longrightarrow> reads tot Test s l s1"
          by (rule readsI [OF r(1,2) plain_test [OF r(3)] r(4)])
        with False show ?thesis by (auto simp: bind_token [OF tok] holds_bool_walk(1) [OF r(5,4)])
      next
        case True
        then have g1: "grown tot s (used @ [t]) (ts, snd s1)" using grown_advance [OF r(1) tok] by auto
        have start: "bind_p token (\<lambda>t.
           if sc_kind t \<noteq> GREATER_THAN \<and> sc_kind t \<noteq> LESS_THAN
           then bind_p (holdsConditional l) (\<lambda>b.
                  if b then fail_p (unsupported ''a conditional inside the test of a conditional'' (sc_offset t))
                  else return_p l)
           else bind_p advance (\<lambda>_. bind_p (additive f) (\<lambda>r.
                  bind_p (holdsConditional l) (\<lambda>b. bind_p (if b then return_p True else holdsConditional r) (\<lambda>c.
                    bind_p token (\<lambda>u.
                      if c then fail_p (unsupported ''a conditional inside the test of a conditional'' (sc_offset u))
                      else add (if sc_kind t = GREATER_THAN then GREATER else LESS) l r (- 1))))))) s1
          = bind_p (additive f) (\<lambda>r.
                  bind_p (holdsConditional l) (\<lambda>b. bind_p (if b then return_p True else holdsConditional r) (\<lambda>c.
                    bind_p token (\<lambda>u.
                      if c then fail_p (unsupported ''a conditional inside the test of a conditional'' (sc_offset u))
                      else add (if sc_kind t = GREATER_THAN then GREATER else LESS) l r (- 1))))) (ts, snd s1)"
          using True by (auto simp: bind_token [OF tok] bind_advance [OF tok])
        show ?thesis
          unfolding start
        proof (rule holds_bind [where R = "reads tot Sum (ts, snd s1)"])
          show "holds tot (additive f (ts, snd s1)) (reads tot Sum (ts, snd s1))"
            by (rule value_okD [OF ad grown_state [OF g1]]) (use fuel r(6) tok in simp)
          fix i s2
          assume "reads tot Sum (ts, snd s1) i s2"
          then show "holds tot (bind_p (holdsConditional l) (\<lambda>b. bind_p (if b then return_p True else holdsConditional i) (\<lambda>c.
                    bind_p token (\<lambda>u.
                      if c then fail_p (unsupported ''a conditional inside the test of a conditional'' (sc_offset u))
                      else add (if sc_kind t = GREATER_THAN then GREATER else LESS) l i (- 1)))) s2) (reads tot Test s)"
          proof (rule reads_after [OF g1])
            fix vs b
            assume q: "grown tot s ((used @ [t]) @ vs) s2" "vs \<noteq> []" "spells Sum vs b" "denotes (snd s2) i b" "state_ok tot s2"
              "\<And>j x. denotes (snd (ts, snd s1)) j x \<Longrightarrow> denotes (snd s2) j x"
            have la: "denotes (snd s2) l a" using q(6) r(4) by simp
            obtain u us where tok2: "fst s2 = u # us" using state_token [OF q(5)] by blast
            let ?op = "if sc_kind t = GREATER_THAN then GREATER else LESS"
            have "holds tot (add ?op l i (- 1) s2) (reads tot Test s)"
              if clean: "\<not> has_kind conditional_kind a" "\<not> has_kind conditional_kind b"
            proof -
              have "operation_kind ?op" by simp
              from holds_last_binary [OF q(5) la q(4) this] show ?thesis
              proof (rule holds_mono)
                fix j s3
                assume j: "grown tot s2 [] s3 \<and> denotes (snd s3) j (F_binary ?op a b)"
                then have "grown tot s (((used @ [t]) @ vs) @ []) s3" using grown_trans [OF q(1)] by blast
                then have g3: "grown tot s (used @ t # vs) s3" by simp
                show "reads tot Test s j s3"
                  by (rule readsI [OF g3 _ compared [OF r(3) True q(3) clean] conjunct2 [OF j]]) simp
              qed
            qed
            then show ?thesis
              by (auto simp: holds_bool_walk(1) [OF q(5) la] holds_bool_walk(1) [OF q(5,4)] bind_return bind_token [OF tok2])
          qed
        qed
      qed
    qed
  qed
qed

lemma denotes_conditional:
  assumes "denotes ns l a" and "denotes ns r b" and "denotes ns t c"
  shows "denotes (ns @ [(blank_node CONDITIONAL)\<lparr>fn_left := l, fn_right := r, fn_third := t\<rparr>]) (int (length ns)) (F_conditional a b c)"
  using denotes_append [OF assms(1)] denotes_append [OF assms(2)] denotes_append [OF assms(3)] node_is_last
  by fastforce

lemma holds_conditional_node:
  assumes st: "state_ok tot s" and d: "denotes (snd s) l a" "denotes (snd s) r b" "denotes (snd s) t c"
  shows "holds tot (add CONDITIONAL l r t s) (\<lambda>i s'. grown tot s [] s' \<and> denotes (snd s') i (F_conditional a b c))"
proof -
  let ?n = "(blank_node CONDITIONAL)\<lparr>fn_left := l, fn_right := r, fn_third := t\<rparr>"
  have "grown tot s [] (fst s, snd s @ [?n])"
    using denotes_bounds [OF d(1)] denotes_bounds [OF d(2)] denotes_bounds [OF d(3)]
    by (intro grown_push [OF grown_refl [OF st]]) simp_all
  moreover have "denotes (snd s @ [?n]) (int (length (snd s))) (F_conditional a b c)" by (rule denotes_conditional [OF d])
  ultimately show ?thesis by (simp add: add_def push_node_def del: denotes.simps)
qed

lemma conditional_step:
  assumes ad: "value_ok tot f Sum 4 (additive f)" and cm: "value_ok tot f Test 3 (comparison f)"
    and co: "value_ok tot f Cond 3 (conditional f)"
  shows "value_ok tot (Suc f) Cond 3 (conditional (Suc f))"
proof (rule value_okI)
  fix s
  assume st: "state_ok tot s" and fuel: "tot \<Longrightarrow> 8 * length (fst s) \<le> Suc f + 3"
  show "holds tot (conditional (Suc f) s) (reads tot Cond s)"
    unfolding conditional.simps
  proof (rule holds_bind [where R = "reads tot Sum s"])
    show "holds tot (additive f s) (reads tot Sum s)" by (rule value_okD [OF ad st]) (use fuel in simp)
    fix v s1
    assume "reads tot Sum s v s1"
    then show "holds tot (bind_p token (\<lambda>t.
       if sc_kind t \<noteq> IF_WORD then return_p v
       else bind_p advance (\<lambda>_. bind_p (comparison f) (\<lambda>test. bind_p token (\<lambda>e.
         if sc_kind e \<noteq> ELSE_WORD then fail_p (malformed (''expected '' @ quoted ''else'') (sc_offset e))
         else bind_p advance (\<lambda>_. bind_p (conditional f) (\<lambda>other. add CONDITIONAL v test other)))))) s1) (reads tot Cond s)"
    proof (rule readsE)
      fix used a
      assume r: "grown tot s used s1" "used \<noteq> []" "spells Sum used a" "denotes (snd s1) v a" "state_ok tot s1"
        "length (fst s1) < length (fst s)"
      obtain t ts where tok: "fst s1 = t # ts" using state_token [OF r(5)] by blast
      show ?thesis
      proof (cases "sc_kind t = IF_WORD")
        case False
        with readsI [OF r(1,2) plain_value [OF r(3)] r(4)] show ?thesis by (simp add: bind_token [OF tok])
      next
        case True
        then have g1: "grown tot s (used @ [t]) (ts, snd s1)" using grown_advance [OF r(1) tok] by simp
        have len1: "length ts < length (fst s)" using r(6) tok by simp
        have "holds tot (bind_p (comparison f) (\<lambda>test. bind_p token (\<lambda>e.
         if sc_kind e \<noteq> ELSE_WORD then fail_p (malformed (''expected '' @ quoted ''else'') (sc_offset e))
         else bind_p advance (\<lambda>_. bind_p (conditional f) (\<lambda>other. add CONDITIONAL v test other)))) (ts, snd s1)) (reads tot Cond s)"
        proof (rule holds_bind [where R = "reads tot Test (ts, snd s1)"])
          show "holds tot (comparison f (ts, snd s1)) (reads tot Test (ts, snd s1))"
            by (rule value_okD [OF cm grown_state [OF g1]]) (use fuel len1 in simp)
          fix i s2
          assume "reads tot Test (ts, snd s1) i s2"
          then show "holds tot (bind_p token (\<lambda>e.
             if sc_kind e \<noteq> ELSE_WORD then fail_p (malformed (''expected '' @ quoted ''else'') (sc_offset e))
             else bind_p advance (\<lambda>_. bind_p (conditional f) (\<lambda>other. add CONDITIONAL v i other))) s2) (reads tot Cond s)"
          proof (rule reads_after [OF g1])
            fix vs b
            assume q: "grown tot s ((used @ [t]) @ vs) s2" "vs \<noteq> []" "spells Test vs b" "denotes (snd s2) i b" "state_ok tot s2"
              "length (fst s2) < length (fst (ts, snd s1))"
              "\<And>j x. denotes (snd (ts, snd s1)) j x \<Longrightarrow> denotes (snd s2) j x"
            have va: "denotes (snd s2) v a" using q(7) r(4) by simp
            obtain w ws where tok2: "fst s2 = w # ws" using state_token [OF q(5)] by blast
            show ?thesis
            proof (cases "sc_kind w = ELSE_WORD")
              case False
              then show ?thesis by (simp add: bind_token [OF tok2])
            next
              case els: True
              then have g2: "grown tot s (((used @ [t]) @ vs) @ [w]) (ws, snd s2)" using grown_advance [OF q(1) tok2] by simp
              have "holds tot (bind_p (conditional f) (\<lambda>other. add CONDITIONAL v i other) (ws, snd s2)) (reads tot Cond s)"
              proof (rule holds_bind [where R = "reads tot Cond (ws, snd s2)"])
                show "holds tot (conditional f (ws, snd s2)) (reads tot Cond (ws, snd s2))"
                  by (rule value_okD [OF co grown_state [OF g2]]) (use fuel len1 q(6) tok2 in simp)
                fix k s3
                assume "reads tot Cond (ws, snd s2) k s3"
                then show "holds tot (add CONDITIONAL v i k s3) (reads tot Cond s)"
                proof (rule reads_after [OF g2])
                  fix us c
                  assume z: "grown tot s ((((used @ [t]) @ vs) @ [w]) @ us) s3" "spells Cond us c" "denotes (snd s3) k c"
                    "state_ok tot s3" "\<And>j x. denotes (snd (ws, snd s2)) j x \<Longrightarrow> denotes (snd s3) j x"
                  have "denotes (snd s3) v a" "denotes (snd s3) i b" using z(5) va q(4) by simp_all
                  from holds_conditional_node [OF z(4) this z(3)] show ?thesis
                  proof (rule holds_mono)
                    fix j s4
                    assume j: "grown tot s3 [] s4 \<and> denotes (snd s4) j (F_conditional a b c)"
                    then have "grown tot s (((((used @ [t]) @ vs) @ [w]) @ us) @ []) s4" using grown_trans [OF z(1)] by blast
                    then have g4: "grown tot s (used @ t # vs @ w # us) s4" by simp
                    show "reads tot Cond s j s4"
                      by (rule readsI [OF g4 _ conditional_value [OF r(3) True q(3) els z(2)] conjunct2 [OF j]]) simp
                  qed
                qed
              qed
              with els show ?thesis by (simp add: bind_token [OF tok2] bind_advance [OF tok2])
            qed
          qed
        qed
        with True show ?thesis by (simp add: bind_token [OF tok] bind_advance [OF tok])
      qed
    qed
  qed
qed

subsection \<open>The whole parser\<close>

lemma no_fuel:
  assumes "tot \<longrightarrow> 8 * length (fst s) \<le> k" and "k < 8" and "state_ok tot s"
  shows "\<not> tot"
  using assms state_token [OF assms(3)] by auto

lemma value_ok_no_fuel: "k < 8 \<Longrightarrow> value_ok tot 0 L k stuck_p"
  by (rule value_okI) (use no_fuel in force)

lemma loop_ok_no_fuel: "k < 8 \<Longrightarrow> loop_ok tot 0 L k (\<lambda>_. stuck_p)"
  unfolding loop_ok_def using no_fuel by force

lemma args_ok_no_fuel: "k < 8 \<Longrightarrow> args_ok tot 0 k (\<lambda>_. stuck_p)"
  unfolding args_ok_def using no_fuel by force

text \<open>
  The constants say how far below eight units per token each function may start: a round of the grammar
  goes through seven functions before a token is consumed.
\<close>

lemma parser_ok:
  "value_ok tot f Cond 3 (conditional f) \<and> value_ok tot f Test 3 (comparison f)
   \<and> value_ok tot f Sum 4 (additive f) \<and> loop_ok tot f Sum 5 (additive_loop f)
   \<and> value_ok tot f Product 5 (multiplicative f) \<and> loop_ok tot f Product 6 (multiplicative_loop f)
   \<and> value_ok tot f Signed 6 (unary f) \<and> value_ok tot f Atom 7 (primary f) \<and> args_ok tot f 2 (arguments f)"
proof (induction f)
  case 0
  have "conditional 0 = stuck_p" "comparison 0 = stuck_p" "additive 0 = stuck_p" "additive_loop 0 = (\<lambda>_. stuck_p)"
    "multiplicative 0 = stuck_p" "multiplicative_loop 0 = (\<lambda>_. stuck_p)" "unary 0 = stuck_p" "primary 0 = stuck_p"
    "arguments 0 = (\<lambda>_. stuck_p)" by (simp_all add: fun_eq_iff)
  then show ?case by (simp only:) (simp add: value_ok_no_fuel loop_ok_no_fuel args_ok_no_fuel)
next
  case (Suc f)
  then have co: "value_ok tot f Cond 3 (conditional f)" and cm: "value_ok tot f Test 3 (comparison f)"
    and ad: "value_ok tot f Sum 4 (additive f)" and al: "loop_ok tot f Sum 5 (additive_loop f)"
    and mu: "value_ok tot f Product 5 (multiplicative f)" and ml: "loop_ok tot f Product 6 (multiplicative_loop f)"
    and un: "value_ok tot f Signed 6 (unary f)" and pr: "value_ok tot f Atom 7 (primary f)"
    and ar: "args_ok tot f 2 (arguments f)" by blast+
  show ?case
    by (intro conjI conditional_step [OF ad cm co] comparison_step [OF ad] additive_step [OF mu al]
        additive_loop_step [OF mu al] multiplicative_step [OF un ml] multiplicative_loop_step [OF un ml]
        unary_step [OF un pr] primary_step [OF co ar] arguments_step [OF co ar])
qed

lemma parser_parse_holds:
  assumes "tokens_ok tot ts"
  shows "case parser_parse ts of
      None \<Rightarrow> \<not> tot
    | Some (Inl er) \<Rightarrow> True
    | Some (Inr tree) \<Rightarrow> \<exists>us t e. ts = us @ [t] \<and> sc_kind t = END_TEXT \<and> spells Cond us e
        \<and> denotes (ft_nodes tree) (ft_root tree) e \<and> fnodes_wf (ft_nodes tree)"
proof -
  have st: "state_ok tot (ts, [])" using assms by (simp add: state_ok_def fnodes_wf_def)
  let ?Q = "\<lambda>r s. \<exists>us t e. ts = us @ [t] \<and> sc_kind t = END_TEXT \<and> spells Cond us e
        \<and> denotes (snd s) r e \<and> fnodes_wf (snd s)"
  let ?stop = "\<lambda>r. bind_p token (\<lambda>t. if sc_kind t \<noteq> END_TEXT then fail_p (malformed ''trailing text'' (sc_offset t))
      else return_p r)"
  have "holds tot (bind_p (conditional (parse_fuel ts)) ?stop (ts, [])) ?Q"
  proof (rule holds_bind)
    show "holds tot (conditional (parse_fuel ts) (ts, [])) (reads tot Cond (ts, []))"
      by (rule value_okD [OF _ st]) (use parser_ok in \<open>blast, simp add: parse_fuel_def\<close>)
  next
    fix r s
    assume "reads tot Cond (ts, []) r s"
    then obtain used e where g: "grown tot (ts, []) used s" and sp: "spells Cond used e" and d: "denotes (snd s) r e"
      and so: "state_ok tot s" by (elim readsE)
    obtain t us where tok: "fst s = t # us" using state_token [OF so] by blast
    show "holds tot (?stop r s) ?Q"
    proof (cases "sc_kind t = END_TEXT")
      case True
      then have "us = []" using so by (auto simp: state_ok_def tokens_ok_def tok split: if_splits)
      moreover have "ts = used @ fst s" using g by (simp add: grown_def)
      ultimately have "?Q r s" using True sp d so tok by (auto simp: state_ok_def)
      with True show ?thesis by (simp add: bind_token [OF tok])
    next
      case False
      then show ?thesis by (simp add: bind_token [OF tok])
    qed
  qed
  then show ?thesis
    unfolding parser_parse_def holds_def by (auto split: option.splits sum.splits)
qed

text \<open>The node a run answers is the last one made; this needs nothing of the tokens.\<close>

definition newest :: "int \<Rightarrow> pstate \<Rightarrow> bool" where
  "newest i s \<longleftrightarrow> i + 1 = int (length (snd s))"

lemma holds_any: "holds False r (\<lambda>_ _. True)"
  by (auto simp: holds_def split: option.split sum.split)

lemma holds_bindI: "(\<And>x s'. holds False (k x s') Q) \<Longrightarrow> holds False (bind_p p k s) Q"
  by (rule holds_bind [OF holds_any])

lemma holds_push_newest: "holds False (push_node n s) newest" "holds False (add k l r t s) newest"
    "holds False (literal v s) newest"
  by (simp_all add: push_node_def add_def literal_def newest_def holds_def)

lemma holds_bind_advance: "(\<And>ts. holds False (k () (ts, snd s)) Q) \<Longrightarrow> holds False (bind_p advance k s) Q"
  by (rule holds_bind [where R = "\<lambda>_ s'. \<exists>ts. s' = (ts, snd s)"]) (auto simp: advance_def holds_def split: list.split)

lemma holds_bind_token: "(\<And>t. holds False (k t s) Q) \<Longrightarrow> holds False (bind_p token k s) Q"
  by (rule holds_bind [where R = "\<lambda>_ s'. s' = s"]) (auto simp: token_def holds_def split: list.split)

lemma holds_bind_walk:
  "(\<And>b. holds False (k b s) Q) \<Longrightarrow> holds False (bind_p (holdsConditional i) k s) Q"
  "(\<And>b. holds False (k b s) Q) \<Longrightarrow> holds False (bind_p (nested i) k s) Q"
  by (rule holds_bind [where R = "\<lambda>_ s'. s' = s"];
      force simp: holdsConditional_def nested_def holds_def split: option.split)+

lemma fold_arguments_newest: "as \<noteq> [] \<or> newest i s \<Longrightarrow> holds False (fold_arguments k i as s) newest"
proof (induction as arbitrary: i s)
  case (Cons a as)
  show ?case
    unfolding fold_arguments.simps
    by (rule holds_bind [OF holds_push_newest(2)]) (rule Cons.IH, blast)
qed simp

lemma apply_function_newest: "holds False (apply_function h as s) newest"
proof -
  have "holds False (parse_helper h as b s) newest" for b
    by (auto simp: parse_helper_def split: list.split intro!: holds_bindI holds_push_newest)
  then show ?thesis
    by (auto simp: apply_function_def simp del: fold_arguments.simps split: list.split
        intro!: holds_bindI holds_push_newest fold_arguments_newest)
qed

lemma parser_newest:
  "(\<forall>s. holds False (conditional f s) newest) \<and> (\<forall>s. holds False (comparison f s) newest)
   \<and> (\<forall>s. holds False (additive f s) newest) \<and> (\<forall>l s. newest l s \<longrightarrow> holds False (additive_loop f l s) newest)
   \<and> (\<forall>s. holds False (multiplicative f s) newest) \<and> (\<forall>l s. newest l s \<longrightarrow> holds False (multiplicative_loop f l s) newest)
   \<and> (\<forall>s. holds False (unary f s) newest) \<and> (\<forall>s. holds False (primary f s) newest)"
proof (induction f)
  case (Suc f)
  then have ih: "\<And>s. holds False (conditional f s) newest" "\<And>s. holds False (comparison f s) newest"
    "\<And>s. holds False (additive f s) newest" "\<And>l s. newest l s \<Longrightarrow> holds False (additive_loop f l s) newest"
    "\<And>s. holds False (multiplicative f s) newest" "\<And>l s. newest l s \<Longrightarrow> holds False (multiplicative_loop f l s) newest"
    "\<And>s. holds False (unary f s) newest" "\<And>s. holds False (primary f s) newest" by blast+
  note steps = holds_bindI holds_push_newest ih
  have "holds False (conditional (Suc f) s) newest" for s
    unfolding conditional.simps
    by (rule holds_bind [OF ih(3)], rule holds_bind_token) (auto intro!: steps)
  moreover have "holds False (comparison (Suc f) s) newest" for s
    unfolding comparison.simps
  proof (rule holds_bind [OF ih(3)], rule holds_bind_token)
    fix l s' t
    assume l: "newest l s'"
    let ?test = "\<lambda>op. bind_p advance (\<lambda>_. bind_p (additive f) (\<lambda>r. bind_p (holdsConditional l) (\<lambda>b.
        bind_p (if b then return_p True else holdsConditional r) (\<lambda>c. bind_p token (\<lambda>u.
          if c then fail_p (unsupported ''a conditional inside the test of a conditional'' (sc_offset u))
          else add op l r (- 1))))))"
    let ?plain = "bind_p (holdsConditional l) (\<lambda>b. if b
        then fail_p (unsupported ''a conditional inside the test of a conditional'' (sc_offset t)) else return_p l)"
    have "holds False (?test op s') newest" for op by (auto intro!: holds_bindI holds_push_newest)
    moreover have "holds False (?plain s') newest" by (rule holds_bind_walk) (simp add: l)
    ultimately show "holds False ((if sc_kind t \<noteq> GREATER_THAN \<and> sc_kind t \<noteq> LESS_THAN then ?plain
        else ?test (if sc_kind t = GREATER_THAN then GREATER else LESS)) s') newest" by simp
  qed
  moreover have "holds False (additive (Suc f) s) newest" for s
    unfolding additive.simps by (rule holds_bind [OF ih(5)]) (rule ih(4))
  moreover have "holds False (additive_loop (Suc f) l s) newest" if "newest l s" for l s
    unfolding additive_loop.simps
    by (rule holds_bind_token) (use that in \<open>auto intro!: holds_bindI holds_bind [OF holds_push_newest(2)] ih\<close>)
  moreover have "holds False (multiplicative (Suc f) s) newest" for s
    unfolding multiplicative.simps by (rule holds_bind [OF ih(7)]) (rule ih(6))
  moreover have "holds False (multiplicative_loop (Suc f) l s) newest" if "newest l s" for l s
    unfolding multiplicative_loop.simps
    by (rule holds_bind_token) (use that in \<open>auto intro!: holds_bindI holds_bind [OF holds_push_newest(2)] ih\<close>)
  moreover have "holds False (unary (Suc f) s) newest" for s
    unfolding unary.simps by (rule holds_bind_token) (auto intro!: steps)
  moreover have "holds False (primary (Suc f) s) newest" for s
  proof -
    have paren: "holds False (bind_p (conditional f) (\<lambda>inner. bind_p token (\<lambda>t.
        if sc_kind t \<noteq> RIGHT_PAREN then fail_p (malformed (''expected '' @ quoted '')'') (sc_offset t))
        else bind_p advance (\<lambda>_. return_p inner))) s) newest" for s
      by (rule holds_bind [OF ih(1)], rule holds_bind_token) (auto simp: newest_def intro!: holds_bind_advance)
    show ?thesis
      unfolding primary.simps
      by (rule holds_bind_token) (auto simp: parse_reference_def split: option.split
          intro!: holds_bind_advance holds_bind_token holds_push_newest paren apply_function_newest holds_bind [OF holds_any])
  qed
  ultimately show ?case by blast
qed (simp_all add: stuck_p_def)

lemma parser_parse_newest:
  "parser_parse ts = Some (Inr tree) \<Longrightarrow> ft_root tree + 1 = int (length (ft_nodes tree))"
proof -
  assume "parser_parse ts = Some (Inr tree)"
  moreover have "holds False (bind_p (conditional (parse_fuel ts)) (\<lambda>r. bind_p token (\<lambda>t.
      if sc_kind t \<noteq> END_TEXT then fail_p (malformed ''trailing text'' (sc_offset t)) else return_p r)) (ts, [])) newest"
    by (rule holds_bind [where R = newest]) (use parser_newest in \<open>auto intro!: holds_bind_token\<close>)
  ultimately show ?thesis
    by (auto simp: parser_parse_def holds_def newest_def split: option.splits sum.splits)
qed

subsection \<open>The tokens of a text\<close>

lemma unescape_plain: "backslash \<notin> set s \<Longrightarrow> unescape s = Some s"
  by (induction s) auto

lemma set_substr: "set (substr s i n) \<subseteq> set s"
  unfolding substr_def using set_take_subset set_drop_subset by (metis subset_trans)

lemma decodeReference_plain:
  assumes "backslash \<notin> set raw"
  shows "decodeReference raw \<noteq> None"
proof -
  have part: "unescape t = Some t" if "set t \<subseteq> set raw" for t
    using that assms by (intro unescape_plain) blast
  have sub: "set (take a t) \<subseteq> set raw" "set (drop a t) \<subseteq> set raw" "set (substr t a b) \<subseteq> set raw"
    if "set t \<subseteq> set raw" for a b t
    using that set_take_subset [of a t] set_drop_subset [of a t] set_substr [of t a b] by (blast)+
  define raw1 where "raw1 = (case find_char (CHR '':'') raw 0 of None \<Rightarrow> raw | Some c \<Rightarrow> take c raw)"
  have r1: "set raw1 \<subseteq> set raw" by (auto simp: raw1_def sub split: option.split dest: in_set_takeD)
  define body where "body opened closed = (if closed = opened then drop (opened + 1) raw1
      else substr raw1 (opened + 1) (closed - opened - 1))" for opened closed
  have b: "set (body opened closed) \<subseteq> set raw" for opened closed by (simp add: body_def sub r1)
  note parts = part [OF sub(1) [OF b]] part [OF sub(2) [OF b]] part [OF b] part [OF r1]
  show ?thesis
    unfolding decodeReference_def Let_def raw1_def [symmetric] body_def [symmetric]
    by (simp add: parts split: option.split)
qed

lemma tokens_ok_cons:
  "tokens_ok tot ts \<Longrightarrow> sc_kind t \<noteq> END_TEXT \<Longrightarrow>
   (tot \<Longrightarrow> sc_kind t = REFERENCE_TEXT \<Longrightarrow> decodeReference (sc_text t) \<noteq> None) \<Longrightarrow> tokens_ok tot (t # ts)"
  by (auto simp: tokens_ok_def)

lemma tokens_ok_end: "tokens_ok tot [plain_token END_TEXT pos]"
  by (simp add: tokens_ok_def plain_token_def)

lemma word_token_ok:
  "sc_kind (word_token word pos) \<noteq> END_TEXT"
  "backslash \<notin> set word \<Longrightarrow> sc_kind (word_token word pos) = REFERENCE_TEXT \<Longrightarrow>
   decodeReference (sc_text (word_token word pos)) \<noteq> None"
  by (auto simp: word_token_def plain_token_def intro: decodeReference_plain [THEN notE] dest: decodeReference_plain)

lemma cons_token_Inr: "cons_token t r = Inr ts \<Longrightarrow> \<exists>us. r = Inr us \<and> ts = t # us"
  by (cases r) (auto simp: cons_token_def)

lemma scan_tokens_ok: "scan_tokens s pos = Inr ts \<Longrightarrow> tokens_ok (backslash \<notin> set s) ts"
proof (induction s pos arbitrary: ts rule: scan_tokens.induct)
  case (1 s pos)
  let ?c = "s ! pos" and ?tot = "backslash \<notin> set s"
  have cons: "tokens_ok ?tot ts"
    if "cons_token t (scan_tokens s e) = Inr ts" "\<And>us. scan_tokens s e = Inr us \<Longrightarrow> tokens_ok ?tot us"
      "sc_kind t \<noteq> END_TEXT" "?tot \<Longrightarrow> sc_kind t = REFERENCE_TEXT \<Longrightarrow> decodeReference (sc_text t) \<noteq> None" for t e
    using cons_token_Inr [OF that(1)] that(2-4) tokens_ok_cons by metis
  consider (finish) "pos \<ge> length s" | (space) "pos < length s" "is_space ?c"
    | (op) "pos < length s" "\<not> is_space ?c" "operatorKind ?c \<noteq> END_TEXT"
    | (host) "pos < length s" "\<not> is_space ?c" "operatorKind ?c = END_TEXT" "?c = CHR ''#''"
    | (word) "pos < length s" "\<not> is_space ?c" "operatorKind ?c = END_TEXT" "?c \<noteq> CHR ''#''" "is_alpha ?c \<or> ?c = CHR ''_''"
    | (num) "pos < length s" "\<not> is_space ?c" "operatorKind ?c = END_TEXT" "?c \<noteq> CHR ''#''"
        "\<not> (is_alpha ?c \<or> ?c = CHR ''_'')" "is_digit ?c \<or> ?c = CHR ''.''"
    | (bad) "pos < length s" "\<not> is_space ?c" "operatorKind ?c = END_TEXT" "?c \<noteq> CHR ''#''"
        "\<not> (is_alpha ?c \<or> ?c = CHR ''_'')" "\<not> (is_digit ?c \<or> ?c = CHR ''.'')"
    using not_le by blast
  then show ?case
  proof cases
    case finish
    with "1.prems" show ?thesis by (subst (asm) scan_tokens.simps) (auto simp: tokens_ok_end)
  next
    case space
    with "1.prems" have "scan_tokens s (pos + 1) = Inr ts" by (subst (asm) scan_tokens.simps) simp
    with "1.IH"(1) space show ?thesis by simp
  next
    case op
    with "1.prems" have "cons_token (plain_token (operatorKind ?c) pos) (scan_tokens s (pos + 1)) = Inr ts"
      by (subst (asm) scan_tokens.simps) simp
    then show ?thesis
      by (rule cons) (use op "1.IH"(2) in \<open>auto simp: plain_token_def operatorKind_def split: if_splits\<close>)
  next
    case host
    with "1.prems" obtain e where e: "scanReferenceEnd s (pos + 1) = Some e" "e \<noteq> pos + 1"
      and made: "cons_token ((plain_token CONSTANT_NAME pos)\<lparr>sc_text := substr s (pos + 1) (e - pos - 1)\<rparr>)
                    (scan_tokens s e) = Inr ts"
      by (subst (asm) scan_tokens.simps) (auto split: option.splits if_splits)
    from made show ?thesis by (rule cons) (use host e "1.IH"(3) in \<open>auto simp: plain_token_def\<close>)
  next
    case word
    with "1.prems" obtain e where e: "scanReferenceEnd s pos = Some e"
      and made: "cons_token (word_token (substr s pos (e - pos)) pos) (scan_tokens s e) = Inr ts"
      by (subst (asm) scan_tokens.simps) (auto split: option.splits)
    have "?tot \<Longrightarrow> backslash \<notin> set (substr s pos (e - pos))" using set_substr by fast
    with made show ?thesis
      by (intro cons [OF made] word_token_ok) (use word e "1.IH"(4) in auto)
  next
    case num
    with "1.prems" obtain e v where e: "scanNumber s pos = Some (e, v)"
      and made: "cons_token ((plain_token NUMBER pos)\<lparr>sc_number := v\<rparr>) (scan_tokens s e) = Inr ts"
      by (subst (asm) scan_tokens.simps) (auto split: option.splits)
    from made show ?thesis by (rule cons) (use num e "1.IH"(5) in \<open>auto simp: plain_token_def\<close>)
  next
    case bad
    with "1.prems" show ?thesis by (subst (asm) scan_tokens.simps) auto
  qed
qed

subsection \<open>What a reader of a metric table may rely on\<close>

lemma parse_spells:
  assumes "parseFormula s = Some (Inr tree)"
  shows "\<exists>ts stop e. scan_tokens s 0 = Inr (ts @ [stop]) \<and> sc_kind stop = END_TEXT \<and> spells Cond ts e
      \<and> denotes (ft_nodes tree) (ft_root tree) e \<and> fnodes_wf (ft_nodes tree)
      \<and> ft_root tree + 1 = int (length (ft_nodes tree))"
proof -
  from assms obtain ts where sc: "scan_tokens s 0 = Inr ts" and pa: "parser_parse ts = Some (Inr tree)"
    by (auto simp: parseFormula_def split: sum.splits)
  from parser_parse_holds [OF scan_tokens_ok [OF sc]] pa sc parser_parse_newest [OF pa] show ?thesis by fastforce
qed

text \<open>
  C5. What the formula reader accepts is what the grammar says: the tokens of the text, up to the end
  marker, spell an expression, the returned tree denotes that expression at its root, no node of the
  tree uses a node that was not made before it, and the root is the last node.
\<close>

theorem formula_is_read_by_the_grammar:
  assumes "parseFormula s = Some (Inr tree)"
  shows "\<exists>ts stop e. scan_tokens s 0 = Inr (ts @ [stop]) \<and> sc_kind stop = END_TEXT \<and> spells Cond ts e
      \<and> denotes (ft_nodes tree) (ft_root tree) e \<and> fnodes_wf (ft_nodes tree)
      \<and> ft_root tree + 1 = int (length (ft_nodes tree))"
  using assms by (rule parse_spells)

lemma scan_quotient:
  "scan_tokens ''a / b'' 0 = Inr [(plain_token REFERENCE_TEXT 0)\<lparr>sc_text := ''a''\<rparr>, plain_token DIVIDED 2,
     (plain_token REFERENCE_TEXT 4)\<lparr>sc_text := ''b''\<rparr>, plain_token END_TEXT 5]"
  by (simp add: scan_tokens.simps scanReferenceEnd.simps isReferenceChar_def is_alnum_def is_alpha_def is_upper_def
      is_lower_def is_digit_def is_space_def operatorKind_def cons_token_def word_token_def substr_def backslash_def eval_nat_numeral)

lemma parse_quotient:
  "parseFormula ''a / b'' = Some (Inr \<lparr>ft_nodes =
     [named_node REFERENCE ''a'' \<lparr>rf_device = [], rf_event = ''a'', rf_modifier = [], rf_privilege = []\<rparr>,
      named_node REFERENCE ''b'' \<lparr>rf_device = [], rf_event = ''b'', rf_modifier = [], rf_privilege = []\<rparr>,
      (blank_node DIVIDE)\<lparr>fn_left := 0, fn_right := 1\<rparr>], ft_root = 2\<rparr>)"
proof -
  have a: "decodeReference ''a'' = Some \<lparr>rf_device = [], rf_event = ''a'', rf_modifier = [], rf_privilege = []\<rparr>"
    "decodeReference ''b'' = Some \<lparr>rf_device = [], rf_event = ''b'', rf_modifier = [], rf_privilege = []\<rparr>"
    by (simp_all add: decodeReference_def find_char_def backslash_def)
  show ?thesis
    by (simp add: parseFormula_def scan_quotient parser_parse_def parse_fuel_def eval_nat_numeral bind_p_def token_def advance_def
        parse_reference_def a push_node_def return_p_def add_def plain_token_def blank_node_def named_node_def)
qed

lemma formula_is_read_by_the_grammar_witness:
  "\<exists>tree ts stop e. parseFormula ''a / b'' = Some (Inr tree) \<and> scan_tokens ''a / b'' 0 = Inr (ts @ [stop])
      \<and> spells Cond ts e \<and> denotes (ft_nodes tree) (ft_root tree) e \<and> fnodes_wf (ft_nodes tree)"
  using formula_is_read_by_the_grammar [OF parse_quotient] parse_quotient by blast

lemma parse_plain:
  assumes "backslash \<notin> set s"
  shows "parseFormula s \<noteq> None"
proof (cases "scan_tokens s 0")
  case (Inr ts)
  then have "tokens_ok True ts" using scan_tokens_ok [OF Inr] assms by simp
  from parser_parse_holds [OF this] Inr show ?thesis by (auto simp: parseFormula_def split: option.splits)
qed (simp add: parseFormula_def)

text \<open>
  A text without a backslash is always answered, with a tree or with a refusal: the parser's recursion
  ends within eight calls per token, and no read runs past the tokens or the nodes.
\<close>

theorem formula_parse_returns:
  assumes "backslash \<notin> set s"
  shows "parseFormula s \<noteq> None"
  using assms by (rule parse_plain)

lemma formula_parse_returns_witness: "parseFormula ''d_ratio(a, b - 1) if c > #slots else cpu@d@:u'' \<noteq> None"
  by (rule formula_parse_returns) (simp add: backslash_def)

lemma scan_reference_chars:
  "pos \<le> length s \<Longrightarrow> list_all isReferenceChar (drop pos s) \<Longrightarrow> scanReferenceEnd s pos = Some (length s)"
proof (induction s pos rule: scanReferenceEnd.induct)
  case (1 s pos)
  show ?case
  proof (cases "pos < length s")
    case True
    have "drop pos s = s ! pos # drop (Suc pos) s" using True by (simp add: Cons_nth_drop_Suc)
    with 1 True show ?thesis by (subst scanReferenceEnd.simps) simp
  next
    case False
    with "1.prems" show ?thesis by (subst scanReferenceEnd.simps) simp
  qed
qed

lemma scan_reference_prefix:
  assumes "list_all isReferenceChar w"
  shows "scanReferenceEnd (u @ w @ r) (length u) = scanReferenceEnd (u @ w @ r) (length u + length w)"
  using assms
proof (induction w arbitrary: u)
  case (Cons c w)
  have "scanReferenceEnd (u @ (c # w) @ r) (length u) = scanReferenceEnd (u @ (c # w) @ r) (length u + 1)"
    using Cons.prems by (subst scanReferenceEnd.simps) simp
  also have "\<dots> = scanReferenceEnd ((u @ [c]) @ w @ r) (length (u @ [c]))" by simp
  also have "\<dots> = scanReferenceEnd ((u @ [c]) @ w @ r) (length (u @ [c]) + length w)"
    using Cons.prems by (intro Cons.IH) simp
  finally show ?case by simp
qed simp

lemma backslash_plain: "\<not> isReferenceChar backslash" "isReferenceChar c \<Longrightarrow> c \<noteq> backslash" "isReferenceChar c \<Longrightarrow> c \<noteq> CHR '':''"
    "isReferenceChar c \<Longrightarrow> c \<noteq> CHR ''@''"
  by (auto simp: isReferenceChar_def backslash_def is_alnum_def is_alpha_def is_upper_def is_lower_def is_digit_def)

lemma alpha_starts_word:
  "is_alpha c \<Longrightarrow> \<not> is_space c \<and> operatorKind c = END_TEXT \<and> c \<noteq> CHR ''#'' \<and> isReferenceChar c"
proof -
  assume a: "is_alpha c"
  then have "65 \<le> (of_char c :: nat)" by (auto simp: is_alpha_def is_upper_def is_lower_def)
  then have "c \<noteq> d" if "(of_char d :: nat) < 65" for d using that by auto
  then have "c \<noteq> CHR ''(''" "c \<noteq> CHR '')''" "c \<noteq> CHR '',''" "c \<noteq> CHR ''+''" "c \<noteq> CHR ''-''" "c \<noteq> CHR ''*''"
    "c \<noteq> CHR ''/''" "c \<noteq> CHR ''>''" "c \<noteq> CHR ''<''" "c \<noteq> CHR ''#''" by simp_all
  with a \<open>65 \<le> (of_char c :: nat)\<close> show ?thesis
    by (simp add: isReferenceChar_def is_alnum_def is_space_def operatorKind_def)
qed

lemma scan_tokens_end: "scan_tokens s (length s) = Inr [plain_token END_TEXT (length s)]"
  by (subst scan_tokens.simps) simp

lemma scan_one_reference:
  assumes "s \<noteq> []" and "is_alpha (hd s)" and "scanReferenceEnd s 0 = Some (length s)" and "s \<noteq> ''if''" and "s \<noteq> ''else''"
  shows "scan_tokens s 0 = Inr [(plain_token REFERENCE_TEXT 0)\<lparr>sc_text := s\<rparr>, plain_token END_TEXT (length s)]"
  using assms alpha_starts_word [OF assms(2)] scan_tokens_end [of s]
  by (subst scan_tokens.simps) (simp add: hd_conv_nth cons_token_def word_token_def substr_def)

lemma parse_one_reference:
  assumes "sc_kind t = REFERENCE_TEXT" and "sc_kind stop = END_TEXT"
  shows "parser_parse [t, stop] =
    (case decodeReference (sc_text t) of
       None \<Rightarrow> None
     | Some rf \<Rightarrow> Some (Inr \<lparr>ft_nodes = [named_node REFERENCE (sc_text t) rf], ft_root = 0\<rparr>))"
proof -
  have fuel: "parse_fuel [t, stop] = Suc (Suc (Suc (Suc (Suc (Suc 10)))))" by (simp add: parse_fuel_def)
  show ?thesis
    unfolding parser_parse_def fuel using assms
    by (simp add: bind_p_def token_def advance_def parse_reference_def push_node_def return_p_def stuck_p_def numeral_eq_Suc
        split: option.split)
qed

text \<open>
  C36. A reference with an escaped colon is not answered at all: the scanner takes the escape and its colon
  into the reference, the decoder cuts the reference at the first colon without regard to escapes, and the
  part before it ends in a backslash that has no partner, which the decoder's contract excludes.
\<close>

theorem escaped_colon_breaks_the_contract:
  assumes "w \<noteq> []" and "is_alpha (hd w)" and "list_all isReferenceChar w" and "list_all isReferenceChar v"
  shows "parseFormula (w @ [backslash, CHR '':''] @ v) = None"
proof -
  define s where "s = w @ [backslash, CHR '':''] @ v"
  have len: "length s = length w + 2 + length v" by (simp add: s_def)
  have "scanReferenceEnd s 0 = scanReferenceEnd s (length w)"
    using scan_reference_prefix [OF assms(3), of "[]"] by (simp add: s_def)
  also have "\<dots> = scanReferenceEnd s (length w + 2)"
    by (subst scanReferenceEnd.simps) (simp add: len, simp add: s_def nth_append backslash_plain)
  also have "\<dots> = Some (length s)" by (rule scan_reference_chars) (use assms(4) in \<open>simp_all add: s_def\<close>)
  finally have e: "scanReferenceEnd s 0 = Some (length s)" .
  have "backslash \<in> set s" by (simp add: s_def)
  then have kw: "s \<noteq> ''if''" "s \<noteq> ''else''" by (auto simp: backslash_def)
  have toks: "scan_tokens s 0 = Inr [(plain_token REFERENCE_TEXT 0)\<lparr>sc_text := s\<rparr>, plain_token END_TEXT (length s)]"
    using assms(1,2) kw e by (intro scan_one_reference) (simp_all add: s_def)
  have plain: "CHR '':'' \<notin> set w" "CHR ''@'' \<notin> set w" "backslash \<notin> set w"
    using assms(3) backslash_plain by (auto simp: list_all_iff)
  have none: "index_of (\<lambda>x. x = CHR '':'') w = None" using plain(1) by (subst index_of_None) blast
  have colon: "find_char (CHR '':'') s 0 = Some (length w + 1)"
    by (simp add: find_char_def s_def backslash_def index_of_append none)
  have cut: "take (length w + 1) s = w @ [backslash]" by (simp add: s_def)
  have noat: "find_char (CHR ''@'') (w @ [backslash]) 0 = None"
    using plain(2) by (auto simp: find_char_def index_of_None backslash_def)
  have stuck: "unescape (w @ [backslash]) = None" using plain(3) by (induction w) auto
  have "decodeReference s = None"
    unfolding decodeReference_def Let_def colon option.case cut noat stuck by simp
  then have "parser_parse [(plain_token REFERENCE_TEXT 0)\<lparr>sc_text := s\<rparr>, plain_token END_TEXT (length s)] = None"
    by (subst parse_one_reference) (simp_all add: plain_token_def)
  then have "parseFormula s = None" by (simp add: parseFormula_def toks)
  then show ?thesis unfolding s_def .
qed

lemma escaped_colon_breaks_the_contract_witness:
  "parseFormula (''a'' @ [backslash, CHR '':''] @ ''b'') = None \<and> isReferenceChar (CHR ''b'')"
  using escaped_colon_breaks_the_contract [of "''a''" "''b''"]
  by (simp add: isReferenceChar_def is_alnum_def is_alpha_def is_lower_def)

end
