(* ===== verification/Resolve.thy ===== *)
theory Resolve
  imports Formula Tree
begin

text \<open>
  The second half of \<open>source/counters/linux_pmu/metric_formula.cpp\<close>, with the two pinned tables of
  \<open>metric_tables.hpp\<close> and the scope rule of \<open>provider.cpp\<close>: the parsed metric rows of an event table
  are resolved against one host, each into a published spine or a refusal.  The resolver's state is the
  row vector, the colours of the depth-first walk and the chain of names under resolution; \<open>None\<close> is a
  read outside a vector or spent fuel.  The open system answers objects and leaves through the system
  tree; what the topology files hold is a field of the host.  Dimension exponents are \<open>int\<close>.
\<close>

subsection \<open>Event-table entries and parsed rows\<close>

record pmu_table_entry =
  pe_name :: string
  pe_description :: string
  pe_unit :: string
  pe_fixedCounter :: int
  pe_fields :: "(string \<times> u64) list"
  pe_metricName :: string
  pe_metricExpr :: string
  pe_scaleUnit :: string
  pe_group :: string
  pe_threshold :: string
  pe_fileName :: string

record parsed_metric_row =
  pr_name :: string
  pr_group :: string
  pr_scope :: string
  pr_scaleUnit :: string
  pr_description :: string
  pr_threshold :: string
  pr_tree :: formula_tree
  pr_parsed :: bool
  pr_refusal :: metric_refusal
  pr_reason :: string

record parsed_metric_table =
  pt_rows :: "parsed_metric_row list"
  pt_index :: "(string, nat) omap"

definition parsed_row :: "pmu_table_entry \<Rightarrow> metric_failure + formula_tree \<Rightarrow> parsed_metric_row" where
  "parsed_row e answer =
     (let made = \<lparr>pr_name = pe_metricName e, pr_group = pe_group e, pr_scope = pe_unit e,
          pr_scaleUnit = pe_scaleUnit e, pr_description = pe_description e, pr_threshold = pe_threshold e,
          pr_tree = \<lparr>ft_nodes = [], ft_root = - 1\<rparr>, pr_parsed = False, pr_refusal = MALFORMED, pr_reason = []\<rparr>
      in case answer of
           Inr tree \<Rightarrow> made\<lparr>pr_tree := tree, pr_parsed := True\<rparr>
         | Inl failed \<Rightarrow> made\<lparr>pr_refusal := mf_kind failed, pr_reason := mf_reason failed\<rparr>)"

definition collided_row :: "nat \<Rightarrow> parsed_metric_row \<Rightarrow> parsed_metric_row" where
  "collided_row kept made = made\<lparr>pr_parsed := False, pr_refusal := COLLISION,
     pr_reason := ''metric name '' @ quoted (pr_name made) @ '' is already carried by row ''
       @ decimal (kept + 1) @ '' of the same directory (FR-011)''\<rparr>"

definition append_row :: "parsed_metric_row \<Rightarrow> parsed_metric_table \<Rightarrow> parsed_metric_table" where
  "append_row made t =
     (case om_find (pt_index t) (pr_name made) of
        None \<Rightarrow> \<lparr>pt_rows = pt_rows t @ [made],
                 pt_index = om_emplace (pr_name made) (length (pt_rows t)) (pt_index t)\<rparr>
      | Some kept \<Rightarrow> t\<lparr>pt_rows := pt_rows t @ [collided_row kept made]\<rparr>)"

fun parse_rows_loop :: "pmu_table_entry list \<Rightarrow> parsed_metric_table \<Rightarrow> parsed_metric_table checked" where
  "parse_rows_loop [] t = Some t"
| "parse_rows_loop (e # es) t =
     (if pe_metricName e = [] then parse_rows_loop es t
      else
        case parseFormula (pe_metricExpr e) of
          None \<Rightarrow> None
        | Some answer \<Rightarrow> parse_rows_loop es (append_row (parsed_row e answer) t))"

definition parseMetricRows :: "pmu_table_entry list \<Rightarrow> parsed_metric_table checked" where
  "parseMetricRows entries = parse_rows_loop entries \<lparr>pt_rows = [], pt_index = []\<rparr>"

subsection \<open>The pinned tables\<close>

definition decimal64 :: "nat \<Rightarrow> nat \<Rightarrow> binary64" where
  "decimal64 numerator places = round64 False numerator (10 ^ places)"

definition kScaleRules :: "(string \<times> binary64) list" where
  "kScaleRules =
     [(''100%'', decimal64 100 0), (''100%ops'', decimal64 100 0), (''100%slots'', decimal64 100 0),
      (''1GHz'', decimal64 1 0), (''1MB/s'', decimal64 1 0), (''1SMI#'', decimal64 1 0),
      (''1core clocks'', decimal64 1 0), (''1cycles / elision'', decimal64 1 0),
      (''1cycles / transaction'', decimal64 1 0), (''1e3per_1k_instr'', decimal64 1000 0),
      (''1ns'', decimal64 1 0), (''1per_branch'', decimal64 1 0), (''1per_instr'', decimal64 1 0),
      (''1per_memclk'', decimal64 1 0), (''1per_sec'', decimal64 1 0), (''1slots'', decimal64 1 0),
      (''3.0517578125e-5MiB'', decimal64 30517578125 15), (''3.2e-5MB/s'', decimal64 32 6),
      (''3e-5MiB'', decimal64 3 5), (''4Bytes'', decimal64 4 0),
      (''6.103515625E-5MiB/sec'', decimal64 6103515625 14), (''6.103515625e-5MiB'', decimal64 6103515625 14),
      (''6.1e-5MiB'', decimal64 61 6), (''6.4e-5MB/s'', decimal64 64 6), (''6000000000ns'', decimal64 6000000000 0)]"

definition scaleRuleFor :: "string \<Rightarrow> (string \<times> binary64) option" where
  "scaleRuleFor spelling = List.find (\<lambda>rule. fst rule = spelling) kScaleRules"

text \<open>
  The host: the open system, the directory of the event table, the cpu number \<open>sched_getcpu\<close> answers and
  the content of the files under the file root, \<open>None\<close> for one that does not read.
\<close>

record metric_host =
  mh_system :: system
  mh_directory :: string
  mh_cpu :: int
  mh_files :: "string \<Rightarrow> string option"

definition host_objects :: "metric_host \<Rightarrow> string \<Rightarrow> tree_node list expected" where
  "host_objects h k = snd (objects_of (mh_system h) k [])"

definition of_count :: "nat \<Rightarrow> binary64" where
  "of_count n = round64 False n 1"

definition countObjects :: "metric_host \<Rightarrow> string \<Rightarrow> binary64 option" where
  "countObjects h k = (case host_objects h k of Inl _ \<Rightarrow> None | Inr os \<Rightarrow> Some (of_count (length os)))"

definition firstLineOf :: "metric_host \<Rightarrow> string \<Rightarrow> string option" where
  "firstLineOf h path =
     (case mh_files h path of
        None \<Rightarrow> None
      | Some content \<Rightarrow>
          let text = takeWhile (\<lambda>c. c \<noteq> CHR 0x0A) content in if text = [] then None else Some text)"

definition siblingListFor :: "metric_host \<Rightarrow> string option" where
  "siblingListFor h =
     (let topology = ''sys/devices/system/cpu/cpu'' @ decimal_int (mh_cpu h) @ ''/topology/''
      in case firstLineOf h (topology @ ''core_cpus_list'') of
           Some text \<Rightarrow> Some text
         | None \<Rightarrow> firstLineOf h (topology @ ''thread_siblings_list''))"

definition names_more_than_one :: "string \<Rightarrow> bool" where
  "names_more_than_one text \<longleftrightarrow> find_char (CHR '','') text 0 \<noteq> None \<or> find_char (CHR ''-'') text 0 \<noteq> None"

definition smtStateFromSiblingList :: "metric_host \<Rightarrow> binary64 option" where
  "smtStateFromSiblingList h =
     map_option (\<lambda>text. if names_more_than_one text then one64 else zero64) (siblingListFor h)"

definition coreWideFromSiblingList :: "string \<Rightarrow> binary64 option" where
  "coreWideFromSiblingList text =
     (if \<not> list_ex is_digit text then None
      else Some (if names_more_than_one text then zero64 else one64))"

definition coreWideFlag :: "metric_host \<Rightarrow> binary64 option" where
  "coreWideFlag h = Option.bind (siblingListFor h) coreWideFromSiblingList"

definition readSmtState :: "metric_host \<Rightarrow> binary64 option" where
  "readSmtState h =
     (case countObjects h ''core'' of
        None \<Rightarrow> smtStateFromSiblingList h
      | Some cores \<Rightarrow>
          (case countObjects h ''thread'' of
             None \<Rightarrow> None
           | Some threads \<Rightarrow> Some (if dless cores threads then one64 else zero64)))"

definition kHostFacts :: "(string \<times> (metric_host \<Rightarrow> binary64 option)) list" where
  "kHostFacts =
     [(''num_cpus_online'', \<lambda>h. countObjects h ''thread''),
      (''num_cores'', \<lambda>h. countObjects h ''core''),
      (''num_packages'', \<lambda>h. countObjects h ''package''),
      (''SMT_on'', readSmtState),
      (''core_wide'', coreWideFlag)]"

definition hostFactFor :: "string \<Rightarrow> (metric_host \<Rightarrow> binary64 option) option" where
  "hostFactFor name = map_option snd (List.find (\<lambda>fact. fst fact = name) kHostFacts)"

subsection \<open>The scope rule\<close>

definition to_lower :: "char \<Rightarrow> char" where
  "to_lower c = (if is_upper c then char_of ((of_char c :: nat) + 32) else c)"

text \<open>The instance suffix of a device or unit name: the underscore before a final run of digits.\<close>

definition suffixAt :: "string \<Rightarrow> nat option" where
  "suffixAt text =
     (case rfind_char (CHR ''_'') text of
        None \<Rightarrow> None
      | Some mark \<Rightarrow>
          if mark + 1 = length text \<or> \<not> list_all is_digit (drop (mark + 1) text) then None else Some mark)"

definition unit_class :: "string \<Rightarrow> string" where
  "unit_class folded =
     (if folded = ''dfpmc'' then ''amd_df''
      else if folded = ''l3pmc'' then ''amd_l3''
      else if folded = ''umcpmc'' then ''amd_umc''
      else folded)"

definition device_class :: "string \<Rightarrow> string \<Rightarrow> string" where
  "device_class devicePath folded =
     (let classOf = (if starts_with devicePath ''uncore_'' then drop 7 devicePath else devicePath)
      in map to_lower
           (case (suffixAt folded, suffixAt classOf) of
              (None, Some mark) \<Rightarrow> take mark classOf
            | _ \<Rightarrow> classOf))"

definition scopeReaches :: "string \<Rightarrow> string \<Rightarrow> bool" where
  "scopeReaches devicePath scope =
     (let folded = map to_lower scope
      in if folded = [] \<or> folded = ''core''
         then devicePath = ''cpu'' \<or> devicePath = ''cpu_core'' \<or> devicePath = ''cpu_atom''
         else unit_class folded = device_class devicePath folded)"

definition deviceLabel :: "string \<Rightarrow> string" where
  "deviceLabel device =
     (if device = [] \<or> device = ''core'' \<or> device = ''cpu'' \<or> device = ''cpu_core'' \<or> device = ''cpu_atom''
      then ''core'' else device)"

subsection \<open>Spines under construction\<close>

record metric_spine =
  sp_core :: expr_core
  sp_dimension :: dimension
  sp_avail :: availability
  sp_objectPath :: string
  sp_name :: string

definition no_dimension :: dimension where
  "no_dimension = \<lparr>time_exp = 0, events_exp = 0\<rparr>"

definition literalSpine :: "binary64 \<Rightarrow> metric_spine" where
  "literalSpine v =
     \<lparr>sp_core = fst (addNode empty_core \<lparr>kind = 4, left = - 1, right = - 1, leaf = - 1, scale = v\<rparr>),
      sp_dimension = no_dimension, sp_avail = COUNTABLE, sp_objectPath = [], sp_name = []\<rparr>"

definition asLiteral :: "metric_spine \<Rightarrow> binary64 option" where
  "asLiteral s =
     (case nodes (sp_core s) of
        [n] \<Rightarrow> if kind n \<noteq> 4 then None else Some (scale n)
      | _ \<Rightarrow> None)"

definition isZero :: "binary64 \<Rightarrow> bool" where
  "isZero v \<longleftrightarrow> \<not> dless zero64 v"

definition isNotZero :: "binary64 \<Rightarrow> bool" where
  "isNotZero v \<longleftrightarrow> dless zero64 v \<or> dless v zero64"

definition dimensionWords :: "dimension \<Rightarrow> string" where
  "dimensionWords d = ''events^'' @ decimal_int (events_exp d) @ '' time^'' @ decimal_int (time_exp d)"

definition describe :: "formula_node \<Rightarrow> metric_spine \<Rightarrow> string" where
  "describe n s =
     (if fn_kind n = REFERENCE
      then quoted (fn_spelling n) @ '' ('' @ dimensionWords (sp_dimension s) @ '')''
      else ''a subtree ('' @ dimensionWords (sp_dimension s) @ '')'')"

definition worstAvailability :: "availability \<Rightarrow> availability \<Rightarrow> availability" where
  "worstAvailability l r = (if l = COUNTABLE then r else l)"

definition combineDimension :: "formula_kind \<Rightarrow> dimension \<Rightarrow> dimension \<Rightarrow> dimension" where
  "combineDimension k l r =
     (if k = MULTIPLY
      then \<lparr>time_exp = time_exp l + time_exp r, events_exp = events_exp l + events_exp r\<rparr>
      else if k = DIVIDE
      then \<lparr>time_exp = time_exp l - time_exp r, events_exp = events_exp l - events_exp r\<rparr>
      else l)"

definition isArithmetic :: "formula_kind \<Rightarrow> bool" where
  "isArithmetic k \<longleftrightarrow> k = ADD \<or> k = SUBTRACT \<or> k = MULTIPLY \<or> k = DIVIDE \<or> k = MINIMUM \<or> k = MAXIMUM"

fun spineKind :: "formula_kind \<Rightarrow> nat" where
  "spineKind ADD = 1"
| "spineKind SUBTRACT = 2"
| "spineKind DIVIDE = 3"
| "spineKind MULTIPLY = 4"
| "spineKind MINIMUM = 5"
| "spineKind _ = 6"

definition leafDimension :: "leaf_core \<Rightarrow> dimension" where
  "leafDimension l =
     (if leaf_unit l = ''nanoseconds'' \<or> leaf_unit l = ''seconds''
      then \<lparr>time_exp = 1, events_exp = 0\<rparr> else \<lparr>time_exp = 0, events_exp = 1\<rparr>)"

subsection \<open>The resolver\<close>

record metric_definition =
  md_name :: string
  md_group :: string
  md_unit :: string
  md_description :: string
  md_threshold :: string
  md_objectPath :: string
  md_core :: expr_core
  md_time :: int
  md_events :: int
  md_avail :: availability
  md_published :: bool
  md_refusal :: metric_refusal
  md_reason :: string
  md_suggestions :: "string list"

definition blank_definition :: metric_definition where
  "blank_definition = \<lparr>md_name = [], md_group = [], md_unit = [], md_description = [], md_threshold = [],
     md_objectPath = [], md_core = empty_core, md_time = 0, md_events = 0, md_avail = COUNTABLE,
     md_published = False, md_refusal = MALFORMED, md_reason = [], md_suggestions = []\<rparr>"

record resolver =
  rs_table :: parsed_metric_table
  rs_events :: "pmu_table_entry list"
  rs_host :: metric_host

definition kWhite :: nat where "kWhite = 0"
definition kGrey :: nat where "kGrey = 1"
definition kBlack :: nat where "kBlack = 2"
definition kExpansionLimit :: nat where "kExpansionLimit = 64"
definition kRootObject :: string where "kRootObject = ''machine''"

record resolution =
  rn_rows :: "metric_definition list"
  rn_colour :: "nat list"
  rn_chain :: "string list"

fun find_leaf_loop :: "tree_node list \<Rightarrow> string \<Rightarrow> string \<Rightarrow> string list \<Rightarrow> (string \<times> leaf_core) expected" where
  "find_leaf_loop [] label event found =
     Inl \<lparr>message = ''names no event the scope '' @ quoted label @ '' reaches (FR-014)'', suggestions = found\<rparr>"
| "find_leaf_loop (ob # obs) label event found =
     (if \<not> scopeReaches (tn_path ob) label then find_leaf_loop obs label event found
      else
        case resolveLeafCore ob event of
          Inr l \<Rightarrow> Inr (tn_path ob, l)
        | Inl er \<Rightarrow> find_leaf_loop obs label event (found @ suggestions er))"

definition findLeaf :: "resolver \<Rightarrow> string \<Rightarrow> string \<Rightarrow> (string \<times> leaf_core) expected" where
  "findLeaf r label event =
     (case host_objects (rs_host r) ''pmu'' of
        Inl _ \<Rightarrow> Inl (plain_error ''names no event: the host publishes no pmu object (FR-014)'')
      | Inr obs \<Rightarrow> find_leaf_loop obs label event [])"

definition scope_label :: "formula_node \<Rightarrow> string \<Rightarrow> string" where
  "scope_label n scope = deviceLabel (if fn_device n = [] then scope else fn_device n)"

definition readFact :: "resolver \<Rightarrow> string \<Rightarrow> metric_failure + binary64" where
  "readFact r name =
     (case hostFactFor name of
        None \<Rightarrow> Inl (refusal UNKNOWN_CONSTANT (''no reader answers the constant '' @ quoted (CHR ''#'' # name) @ '' (FR-006)''))
      | Some read \<Rightarrow>
          (case read (rs_host r) of
             None \<Rightarrow> Inl (refusal UNKNOWN_CONSTANT (''this host publishes no value for the constant ''
                      @ quoted (CHR ''#'' # name) @ '' (FR-006)''))
           | Some v \<Rightarrow> Inr v))"

definition hasEvent :: "resolver \<Rightarrow> formula_node \<Rightarrow> string \<Rightarrow> bool" where
  "hasEvent r n scope =
     (case findLeaf r (scope_label n scope) (fn_event n) of
        Inl _ \<Rightarrow> False
      | Inr (path, l) \<Rightarrow> leaf_avail l = COUNTABLE)"

definition sourceCount :: "resolver \<Rightarrow> formula_node \<Rightarrow> binary64" where
  "sourceCount r n =
     of_count (length (filter (\<lambda>e. pe_metricName e = [] \<and> pe_name e = fn_event n) (rs_events r)))"

definition fact_operation :: "formula_kind \<Rightarrow> binary64 \<Rightarrow> binary64 \<Rightarrow> binary64" where
  "fact_operation k l r =
     (if k = MULTIPLY then dmul l r
      else if k = DIVIDE then ddiv l r
      else if k = SUBTRACT then dsub l r
      else if k = MINIMUM then dmin l r
      else if k = MAXIMUM then dmax l r
      else dadd l r)"

fun fact :: "resolver \<Rightarrow> nat \<Rightarrow> formula_tree \<Rightarrow> int \<Rightarrow> string \<Rightarrow> (metric_failure + binary64) checked" where
  "fact r 0 tree index scope = None"
| "fact r (Suc f) tree index scope =
     (if index < 0 \<or> nat index \<ge> length (ft_nodes tree) then None
      else
        let n = ft_nodes tree ! nat index
        in if fn_kind n = CONSTANT then Some (Inr (fn_value n))
           else if fn_kind n = HOST_CONSTANT then Some (readFact r (fn_spelling n))
           else if fn_kind n = HAS_EVENT then Some (Inr (if hasEvent r n scope then one64 else zero64))
           else if fn_kind n = SOURCE_COUNT then Some (Inr (sourceCount r n))
           else if isArithmetic (fn_kind n) then
             (case fact r f tree (fn_left n) scope of
                None \<Rightarrow> None
              | Some (Inl er) \<Rightarrow> Some (Inl er)
              | Some (Inr a) \<Rightarrow>
                  (case fact r f tree (fn_right n) scope of
                     None \<Rightarrow> None
                   | Some (Inl er) \<Rightarrow> Some (Inl er)
                   | Some (Inr b) \<Rightarrow> Some (Inr (fact_operation (fn_kind n) a b))))
           else Some (Inl (refusal UNSUPPORTED (''the conditional test needs the run-time value of ''
                  @ ''a reference or a nested test (D-09)''))))"

definition node_of :: "formula_tree \<Rightarrow> int \<Rightarrow> formula_node checked" where
  "node_of tree index =
     (if index < 0 \<or> nat index \<ge> length (ft_nodes tree) then None else Some (ft_nodes tree ! nat index))"

definition decide :: "resolver \<Rightarrow> formula_tree \<Rightarrow> int \<Rightarrow> string \<Rightarrow> (metric_failure + bool) checked" where
  "decide r tree index scope =
     (case node_of tree index of
        None \<Rightarrow> None
      | Some c \<Rightarrow>
          (case node_of tree (fn_right c) of
             None \<Rightarrow> None
           | Some test \<Rightarrow>
               let settle = (\<lambda>i. fact r (length (ft_nodes tree)) tree i scope)
               in if fn_kind test \<noteq> GREATER \<and> fn_kind test \<noteq> LESS
                  then map_option (map_sum id isNotZero) (settle (fn_right c))
                  else
                    case settle (fn_left test) of
                      None \<Rightarrow> None
                    | Some (Inl er) \<Rightarrow> Some (Inl er)
                    | Some (Inr a) \<Rightarrow>
                        map_option (map_sum id (\<lambda>b. if fn_kind test = GREATER then dless b a else dless a b))
                          (settle (fn_right test))))"

text \<open>\<open>Resolver::leaf\<close> and \<open>Resolver::spineNodeOfLeaf\<close>: a reference that is no metric names a catalog leaf.\<close>

definition leaf_spine :: "resolver \<Rightarrow> formula_node \<Rightarrow> string \<Rightarrow> metric_failure + metric_spine" where
  "leaf_spine r n scope =
     (if fn_modifier n \<noteq> []
      then Inl (refusal UNSUPPORTED (''the modifier '' @ quoted (fn_modifier n) @ '' of reference ''
             @ quoted (fn_spelling n) @ '' names a config the catalog entry does not carry''))
      else
        case findLeaf r (scope_label n scope) (fn_event n) of
          Inl er \<Rightarrow> Inl \<lparr>mf_kind = UNRESOLVED,
              mf_reason = ''reference '' @ quoted (fn_spelling n) @ '' '' @ message er, mf_suggestions = suggestions er\<rparr>
        | Inr (path, l) \<Rightarrow> Inr \<lparr>sp_core = expr_of_leaf l, sp_dimension = leafDimension l, sp_avail = leaf_avail l,
              sp_objectPath = path, sp_name = fn_event n\<rparr>)"

definition pairing :: "formula_kind \<Rightarrow> bool" where
  "pairing k \<longleftrightarrow> k = ADD \<or> k = SUBTRACT \<or> k = MINIMUM \<or> k = MAXIMUM"

definition guarded :: "formula_kind \<Rightarrow> bool \<Rightarrow> bool \<Rightarrow> bool" where
  "guarded k l r \<longleftrightarrow> (k = MINIMUM \<or> k = MAXIMUM) \<and> l \<noteq> r"

text \<open>\<open>Resolver::arithmetic\<close> once both operands are walked.\<close>

definition join_spines ::
  "formula_node \<Rightarrow> formula_node \<Rightarrow> formula_node \<Rightarrow> metric_spine \<Rightarrow> metric_spine \<Rightarrow> metric_failure + metric_spine" where
  "join_spines n ln rn l r =
     (let lit = asLiteral l; rlit = asLiteral r; g = guarded (fn_kind n) (lit \<noteq> None) (rlit \<noteq> None)
      in if fn_kind n = DIVIDE \<and> (case rlit of None \<Rightarrow> False | Some d \<Rightarrow> isZero d)
         then Inl (refusal UNSUPPORTED (''the formula divides by zero: '' @ describe rn r @ '' (FR-012)''))
         else if pairing (fn_kind n) \<and> \<not> g
           \<and> (events_exp (sp_dimension l) \<noteq> events_exp (sp_dimension r)
               \<or> time_exp (sp_dimension l) \<noteq> time_exp (sp_dimension r))
         then Inl (refusal DIMENSION (''terms do not compose: '' @ describe ln l @ '' and '' @ describe rn r @ '' (FR-010)''))
         else
           let (core, rightRoot) = splice (sp_core l) (sp_core r)
           in Inr \<lparr>sp_core = fst (addNode core (binary_node (spineKind (fn_kind n)) (root (sp_core l)) rightRoot)),
                sp_dimension = (if g then (if lit \<noteq> None then sp_dimension r else sp_dimension l)
                                else combineDimension (fn_kind n) (sp_dimension l) (sp_dimension r)),
                sp_avail = worstAvailability (sp_avail l) (sp_avail r),
                sp_objectPath = (if sp_objectPath l = [] then sp_objectPath r else sp_objectPath l),
                sp_name = (if sp_name l = [] then sp_name r else sp_name l)\<rparr>)"

definition chainText :: "string list \<Rightarrow> string \<Rightarrow> string" where
  "chainText chain name = concat (map (\<lambda>step. step @ '' -> '') chain) @ name"

definition spine_of_definition :: "metric_definition \<Rightarrow> string \<Rightarrow> metric_failure + metric_spine" where
  "spine_of_definition d name =
     (if \<not> md_published d
      then Inl \<lparr>mf_kind = md_refusal d, mf_reason = md_reason d, mf_suggestions = md_suggestions d\<rparr>
      else Inr \<lparr>sp_core = md_core d, sp_dimension = \<lparr>time_exp = md_time d, events_exp = md_events d\<rparr>,
             sp_avail = md_avail d, sp_objectPath = md_objectPath d, sp_name = name\<rparr>)"

text \<open>What \<open>publish\<close> makes of a row before and after its tree is walked.\<close>

definition row_definition :: "parsed_metric_row \<Rightarrow> metric_definition" where
  "row_definition p = blank_definition\<lparr>md_name := pr_name p, md_group := pr_group p, md_unit := pr_scaleUnit p,
     md_description := pr_description p, md_threshold := pr_threshold p, md_objectPath := kRootObject\<rparr>"

definition scale_of_row :: "parsed_metric_row \<Rightarrow> (string \<times> binary64) option" where
  "scale_of_row p = (if pr_scaleUnit p = [] then None else scaleRuleFor (pr_scaleUnit p))"

definition row_refusal :: "parsed_metric_row \<Rightarrow> metric_definition option" where
  "row_refusal p =
     (if \<not> pr_parsed p
      then Some ((row_definition p)\<lparr>md_refusal := pr_refusal p, md_reason := pr_reason p\<rparr>)
      else if pr_scaleUnit p \<noteq> [] \<and> scale_of_row p = None
      then Some ((row_definition p)\<lparr>md_refusal := UNKNOWN_SCALE,
             md_reason := ''no scale rule carries the ScaleUnit '' @ quoted (pr_scaleUnit p) @ '' (FR-018)''\<rparr>)
      else None)"

definition row_answer :: "parsed_metric_row \<Rightarrow> metric_failure + metric_spine \<Rightarrow> metric_definition" where
  "row_answer p answer =
     (case answer of
        Inl failed \<Rightarrow> (row_definition p)\<lparr>md_refusal := mf_kind failed, md_reason := mf_reason failed,
            md_suggestions := mf_suggestions failed\<rparr>
      | Inr s \<Rightarrow> (row_definition p)\<lparr>md_published := True,
            md_core := (case scale_of_row p of None \<Rightarrow> sp_core s | Some rule \<Rightarrow> scaleAll (sp_core s) (snd rule)),
            md_avail := sp_avail s, md_time := time_exp (sp_dimension s), md_events := events_exp (sp_dimension s),
            md_objectPath := (if sp_objectPath s = [] then kRootObject else sp_objectPath s)\<rparr>)"

type_synonym 'a walk = "resolution \<Rightarrow> ((metric_failure + 'a) \<times> resolution) checked"

text \<open>
  The walk over one tree; \<open>exp\<close> is the expansion of a metric reference.  A tree of \<open>n\<close> nodes is walked
  with \<open>2 * n\<close> units of fuel, two calls for each level.
\<close>

fun walk :: "resolver \<Rightarrow> (nat \<Rightarrow> metric_spine walk) \<Rightarrow> nat \<Rightarrow> formula_tree \<Rightarrow> int \<Rightarrow> string \<Rightarrow> metric_spine walk"
and arithmetic :: "resolver \<Rightarrow> (nat \<Rightarrow> metric_spine walk) \<Rightarrow> nat \<Rightarrow> formula_tree \<Rightarrow> int \<Rightarrow> string \<Rightarrow> metric_spine walk"
where
  "walk r exp 0 tree index scope st = None"
| "walk r exp (Suc f) tree index scope st =
     (case node_of tree index of
        None \<Rightarrow> None
      | Some n \<Rightarrow>
          if fn_kind n = REFERENCE then
            (case om_find (pt_index (rs_table r)) (fn_spelling n) of
               Some i \<Rightarrow> exp i st
             | None \<Rightarrow> Some (leaf_spine r n scope, st))
          else if fn_kind n = CONSTANT then Some (Inr (literalSpine (fn_value n)), st)
          else if fn_kind n = HOST_CONSTANT then Some (map_sum id literalSpine (readFact r (fn_spelling n)), st)
          else if fn_kind n = HAS_EVENT
          then Some (Inr (literalSpine (if hasEvent r n scope then one64 else zero64)), st)
          else if fn_kind n = SOURCE_COUNT then Some (Inr (literalSpine (sourceCount r n)), st)
          else if fn_kind n = CONDITIONAL then
            (case decide r tree index scope of
               None \<Rightarrow> None
             | Some (Inl er) \<Rightarrow> Some (Inl er, st)
             | Some (Inr b) \<Rightarrow> walk r exp f tree (if b then fn_left n else fn_third n) scope st)
          else arithmetic r exp f tree index scope st)"
| "arithmetic r exp 0 tree index scope st = None"
| "arithmetic r exp (Suc f) tree index scope st =
     (case node_of tree index of
        None \<Rightarrow> None
      | Some n \<Rightarrow>
          (case walk r exp f tree (fn_left n) scope st of
             None \<Rightarrow> None
           | Some (Inl er, st1) \<Rightarrow> Some (Inl er, st1)
           | Some (Inr l, st1) \<Rightarrow>
               (case walk r exp f tree (fn_right n) scope st1 of
                  None \<Rightarrow> None
                | Some (Inl er, st2) \<Rightarrow> Some (Inl er, st2)
                | Some (Inr rt, st2) \<Rightarrow>
                    (case (node_of tree (fn_left n), node_of tree (fn_right n)) of
                       (Some ln, Some rn) \<Rightarrow> Some (join_spines n ln rn l rt, st2)
                     | _ \<Rightarrow> None))))"

text \<open>
  \<open>Resolver::expand\<close>, \<open>publish\<close> and \<open>resolveRow\<close> call each other: \<open>resolve\<close> is the resolution of a row,
  \<open>exp\<close> the expansion of a reference, and the knot is tied on the number of rows under resolution.
\<close>

definition expand :: "resolver \<Rightarrow> (nat \<Rightarrow> resolution \<Rightarrow> resolution checked) \<Rightarrow> nat \<Rightarrow> metric_spine walk" where
  "expand r resolve i st =
     (if i \<ge> length (pt_rows (rs_table r)) \<or> i \<ge> length (rn_colour st) \<or> i \<ge> length (rn_rows st) then None
      else
        let name = pr_name (pt_rows (rs_table r) ! i)
        in if rn_colour st ! i = kGrey
           then Some (Inl (refusal CYCLE (''metric reference cycle: '' @ chainText (rn_chain st) name @ '' (FR-012)'')), st)
           else if length (rn_chain st) \<ge> kExpansionLimit
           then Some (Inl (refusal CYCLE (''metric chain longer than '' @ decimal kExpansionLimit
                  @ '' references at '' @ quoted name @ '' (FR-012)'')), st)
           else if rn_colour st ! i = kWhite
           then (case resolve i st of
                   None \<Rightarrow> None
                 | Some st1 \<Rightarrow> Some (spine_of_definition (rn_rows st1 ! i) name, st1))
           else Some (spine_of_definition (rn_rows st ! i) name, st))"

definition publish :: "resolver \<Rightarrow> (nat \<Rightarrow> metric_spine walk) \<Rightarrow> nat \<Rightarrow> resolution \<Rightarrow> (metric_definition \<times> resolution) checked" where
  "publish r exp i st =
     (if i \<ge> length (pt_rows (rs_table r)) then None
      else
        let p = pt_rows (rs_table r) ! i
        in case row_refusal p of
             Some d \<Rightarrow> Some (d, st)
           | None \<Rightarrow>
               (case walk r exp (2 * length (ft_nodes (pr_tree p))) (pr_tree p) (ft_root (pr_tree p)) (pr_scope p) st of
                  None \<Rightarrow> None
                | Some (answer, st1) \<Rightarrow> Some (row_answer p answer, st1)))"

fun resolveRow :: "resolver \<Rightarrow> nat \<Rightarrow> nat \<Rightarrow> resolution \<Rightarrow> resolution checked" where
  "resolveRow r 0 i st = None"
| "resolveRow r (Suc f) i st =
     (if i \<ge> length (pt_rows (rs_table r)) \<or> i \<ge> length (rn_colour st) \<or> i \<ge> length (rn_rows st) then None
      else
        case publish r (expand r (resolveRow r f)) i (st\<lparr>rn_colour := (rn_colour st)[i := kGrey],
               rn_chain := rn_chain st @ [pr_name (pt_rows (rs_table r) ! i)]\<rparr>) of
          None \<Rightarrow> None
        | Some (d, st1) \<Rightarrow>
            Some \<lparr>rn_rows = (rn_rows st1)[i := d], rn_colour = (rn_colour st1)[i := kBlack],
              rn_chain = butlast (rn_chain st1)\<rparr>)"

text \<open>A row is under resolution once at a time, so one unit for each row is enough.\<close>

definition resolve_fuel :: "parsed_metric_table \<Rightarrow> nat" where
  "resolve_fuel t = length (pt_rows t)"

definition start_resolution :: "parsed_metric_table \<Rightarrow> resolution" where
  "start_resolution t = \<lparr>rn_rows = replicate (length (pt_rows t)) blank_definition,
     rn_colour = replicate (length (pt_rows t)) kWhite, rn_chain = []\<rparr>"

fun run_from :: "resolver \<Rightarrow> nat list \<Rightarrow> resolution \<Rightarrow> resolution checked" where
  "run_from r [] st = Some st"
| "run_from r (i # is) st =
     (if rn_colour st ! i = kWhite
      then (case resolveRow r (resolve_fuel (rs_table r)) i st of
              None \<Rightarrow> None
            | Some st1 \<Rightarrow> run_from r is st1)
      else run_from r is st)"

definition metricRows :: "resolver \<Rightarrow> metric_definition list checked" where
  "metricRows r =
     map_option rn_rows
       (run_from r [0..<length (pt_rows (rs_table r))] (start_resolution (rs_table r)))"

subsection \<open>The answers by name\<close>

definition noSuchMetric :: "string \<Rightarrow> (string \<times> string) list \<Rightarrow> error" where
  "noSuchMetric name candidates =
     \<lparr>message = ''no metric named '' @ quoted name @ '' in the event table of this host (FR-016)'',
      suggestions = nearMisses name candidates\<rparr>"

definition definition_answer :: "metric_definition \<Rightarrow> metric_definition expected" where
  "definition_answer d =
     (if \<not> md_published d
      then Inl \<lparr>message = md_name d @ '': '' @ md_reason d, suggestions = md_suggestions d\<rparr>
      else Inr d)"

definition metricDefinition :: "resolver \<Rightarrow> string \<Rightarrow> metric_definition expected checked" where
  "metricDefinition r name =
     (case om_find (pt_index (rs_table r)) name of
        None \<Rightarrow>
          Some (Inl (noSuchMetric name (map (\<lambda>p. (pr_name p, pr_description p)) (pt_rows (rs_table r)))))
      | Some i \<Rightarrow>
          (case resolveRow r (resolve_fuel (rs_table r)) i (start_resolution (rs_table r)) of
             None \<Rightarrow> None
           | Some st \<Rightarrow> Some (definition_answer (rn_rows st ! i))))"

record resolved_metric_table =
  rt_rows :: "metric_definition list"
  rt_index :: "(string, nat) omap"

text \<open>
  The table of a directory is a parameter: \<open>pmuLoadTable\<close> answers the entries the build embeds.  The
  caches of the code keep the first answer of each call; the model computes it.
\<close>

type_synonym table_loader = "string \<Rightarrow> pmu_table_entry list"

definition resolvedMetricTable :: "table_loader \<Rightarrow> metric_host \<Rightarrow> resolved_metric_table checked" where
  "resolvedMetricTable load h =
     (case parseMetricRows (load (mh_directory h)) of
        None \<Rightarrow> None
      | Some t \<Rightarrow>
          map_option (\<lambda>rows. \<lparr>rt_rows = rows, rt_index = pt_index t\<rparr>)
            (metricRows \<lparr>rs_table = t, rs_events = load (mh_directory h), rs_host = h\<rparr>))"

definition metricRowsOnHost :: "table_loader \<Rightarrow> metric_host \<Rightarrow> metric_definition list checked" where
  "metricRowsOnHost load h =
     (if mh_directory h = [] then Some [] else map_option rt_rows (resolvedMetricTable load h))"

definition metricCandidates :: "metric_definition list \<Rightarrow> (string \<times> string) list" where
  "metricCandidates rows = map (\<lambda>d. (md_name d, md_description d)) rows"

definition metricDefinitionIn :: "resolved_metric_table \<Rightarrow> string \<Rightarrow> metric_definition expected checked" where
  "metricDefinitionIn t name =
     (case om_find (rt_index t) name of
        None \<Rightarrow> Some (Inl (noSuchMetric name (metricCandidates (rt_rows t))))
      | Some i \<Rightarrow> if i \<ge> length (rt_rows t) then None else Some (definition_answer (rt_rows t ! i)))"

definition metricDefinitionOnHost :: "table_loader \<Rightarrow> metric_host \<Rightarrow> string \<Rightarrow> metric_definition expected checked" where
  "metricDefinitionOnHost load h name =
     (if mh_directory h = []
      then Some (Inl (plain_error ''this CPU matched no event-table directory (FR-017)''))
      else Option.bind (resolvedMetricTable load h) (\<lambda>t. metricDefinitionIn t name))"

record metric_view =
  mv_expression :: expr_core
  mv_group :: string
  mv_unit :: string
  mv_threshold :: string

definition metricViewResponse :: "metric_definition expected \<Rightarrow> metric_view expected" where
  "metricViewResponse answer =
     map_sum id (\<lambda>d. \<lparr>mv_expression = md_core d, mv_group = md_group d, mv_unit = md_unit d,
       mv_threshold = md_threshold d\<rparr>) answer"

record metric_listing =
  ml_objectPath :: string
  ml_name :: string
  ml_group :: string
  ml_unit :: string
  ml_description :: string
  ml_threshold :: string
  ml_avail :: availability
  ml_refusal :: metric_refusal
  ml_published :: bool
  ml_reason :: string

definition listing_of :: "metric_definition \<Rightarrow> metric_listing" where
  "listing_of d = \<lparr>ml_objectPath = md_objectPath d, ml_name = md_name d, ml_group = md_group d, ml_unit = md_unit d,
     ml_description = md_description d, ml_threshold = md_threshold d, ml_avail = md_avail d,
     ml_refusal = md_refusal d, ml_published = md_published d, ml_reason = md_reason d\<rparr>"

definition metricListingsOnHost :: "table_loader \<Rightarrow> metric_host \<Rightarrow> metric_listing list checked" where
  "metricListingsOnHost load h = map_option (map listing_of) (metricRowsOnHost load h)"

fun metricRefusalName :: "metric_refusal \<Rightarrow> string" where
  "metricRefusalName MALFORMED = ''MALFORMED''"
| "metricRefusalName UNSUPPORTED = ''UNSUPPORTED''"
| "metricRefusalName CYCLE = ''CYCLE''"
| "metricRefusalName UNKNOWN_SCALE = ''UNKNOWN_SCALE''"
| "metricRefusalName UNKNOWN_CONSTANT = ''UNKNOWN_CONSTANT''"
| "metricRefusalName NESTED = ''NESTED''"
| "metricRefusalName DIMENSION = ''DIMENSION''"
| "metricRefusalName UNRESOLVED = ''UNRESOLVED''"
| "metricRefusalName COLLISION = ''COLLISION''"

datatype core_coverage = WHOLE_CORE | ONE_THREAD

definition half64 :: binary64 where
  "half64 = round64 False 1 2"

definition coreWideCoverage :: "metric_host \<Rightarrow> core_coverage option" where
  "coreWideCoverage h = map_option (\<lambda>flag. if dless half64 flag then WHOLE_CORE else ONE_THREAD) (coreWideFlag h)"

definition metricByName :: "table_loader \<Rightarrow> metric_host \<Rightarrow> string \<Rightarrow> metric_view expected checked" where
  "metricByName load h name = map_option metricViewResponse (metricDefinitionOnHost load h name)"

end
