(* ===== verification/Resolve_Facts.thy ===== *)
theory Resolve_Facts
  imports Resolve Formula_Facts
begin

text \<open>
  What a resolved metric table guarantees.  The meaning of a formula on a host is defined by rules over the
  expressions of the grammar: a value under a valuation of the leaves, its dimension, and the literal it
  is when the load settles it.  A published row holds a well-formed spine that evaluates to the meaning
  of its formula, the resolution of every parsed table returns, and no published row reaches a cycle of
  references.
\<close>

subsection \<open>The meaning of a formula on a host\<close>

fun fact_means :: "resolver \<Rightarrow> string \<Rightarrow> fexpr \<Rightarrow> binary64 option" where
  "fact_means r scope (F_number v) = Some v"
| "fact_means r scope (F_host name) = (case readFact r name of Inl _ \<Rightarrow> None | Inr v \<Rightarrow> Some v)"
| "fact_means r scope (F_named k sp rf) =
     (if k = HAS_EVENT then Some (if hasEvent r (named_node k sp rf) scope then one64 else zero64)
      else if k = SOURCE_COUNT then Some (sourceCount r (named_node k sp rf))
      else None)"
| "fact_means r scope (F_binary k a b) =
     (if isArithmetic k then combine (fact_operation k) (fact_means r scope a) (fact_means r scope b) else None)"
| "fact_means r scope (F_conditional a t b) = None"

fun test_means :: "resolver \<Rightarrow> string \<Rightarrow> fexpr \<Rightarrow> bool option" where
  "test_means r scope (F_binary k a b) =
     (if k = GREATER \<or> k = LESS then
        (case (fact_means r scope a, fact_means r scope b) of
           (Some x, Some y) \<Rightarrow> Some (if k = GREATER then dless y x else dless x y)
         | _ \<Rightarrow> None)
      else map_option isNotZero (fact_means r scope (F_binary k a b)))"
| "test_means r scope e = map_option isNotZero (fact_means r scope e)"

text \<open>The fold multiplies a product by the scale of its node, which is one.\<close>

definition value_operation :: "formula_kind \<Rightarrow> binary64 \<Rightarrow> binary64 \<Rightarrow> binary64" where
  "value_operation k x y = (if k = MULTIPLY then dmul (dmul one64 x) y else fact_operation k x y)"

fun value_expr :: "fexpr \<Rightarrow> bool" where
  "value_expr (F_number v) = True"
| "value_expr (F_host name) = True"
| "value_expr (F_named k sp rf) = (k = REFERENCE \<or> k = HAS_EVENT \<or> k = SOURCE_COUNT)"
| "value_expr (F_binary k a b) = (isArithmetic k \<and> value_expr a \<and> value_expr b)"
| "value_expr (F_conditional a t b) = (value_expr a \<and> value_expr b)"

fun formed :: "fexpr \<Rightarrow> bool" where
  "formed (F_named k sp rf) = (k = REFERENCE \<or> k = HAS_EVENT \<or> k = SOURCE_COUNT)"
| "formed (F_binary k a b) = (formed a \<and> formed b)"
| "formed (F_conditional a t b) = (formed a \<and> formed t \<and> formed b)"
| "formed _ = True"

definition composable :: "formula_kind \<Rightarrow> binary64 option \<Rightarrow> dimension \<Rightarrow> binary64 option \<Rightarrow> dimension \<Rightarrow> bool" where
  "composable k l dl m dm \<longleftrightarrow>
     \<not> (k = DIVIDE \<and> (\<exists>z. m = Some z \<and> isZero z))
     \<and> (pairing k \<longrightarrow> guarded k (l \<noteq> None) (m \<noteq> None) \<or> dl = dm)"

definition joined_dimension :: "formula_kind \<Rightarrow> binary64 option \<Rightarrow> dimension \<Rightarrow> binary64 option \<Rightarrow> dimension \<Rightarrow> dimension" where
  "joined_dimension k l dl m dm =
     (if guarded k (l \<noteq> None) (m \<noteq> None) then (if l \<noteq> None then dm else dl) else combineDimension k dl dm)"

inductive formula_means ::
    "resolver \<Rightarrow> valuation \<Rightarrow> string \<Rightarrow> fexpr \<Rightarrow> binary64 option \<Rightarrow> dimension \<Rightarrow> binary64 option \<Rightarrow> bool"
  and row_means :: "resolver \<Rightarrow> valuation \<Rightarrow> nat \<Rightarrow> binary64 option \<Rightarrow> dimension \<Rightarrow> binary64 option \<Rightarrow> bool"
  for r v
where
  literal_number: "formula_means r v sc (F_number x) (Some x) no_dimension (Some x)"
| literal_fact: "readFact r name = Inr x \<Longrightarrow> formula_means r v sc (F_host name) (Some x) no_dimension (Some x)"
| literal_helper: "k = HAS_EVENT \<or> k = SOURCE_COUNT \<Longrightarrow> fact_means r sc (F_named k sp rf) = Some x \<Longrightarrow>
    formula_means r v sc (F_named k sp rf) (Some x) no_dimension (Some x)"
| metric: "om_find (pt_index (rs_table r)) sp = Some i \<Longrightarrow> row_means r v i l d x \<Longrightarrow>
    formula_means r v sc (F_named REFERENCE sp rf) l d x"
| counter: "om_find (pt_index (rs_table r)) sp = None \<Longrightarrow> rf_modifier rf = [] \<Longrightarrow>
    findLeaf r (scope_label (named_node REFERENCE sp rf) sc) (rf_event rf) = Inr (path, lf) \<Longrightarrow>
    formula_means r v sc (F_named REFERENCE sp rf) None (leafDimension lf) (v lf)"
| chosen: "test_means r sc t = Some True \<Longrightarrow> formula_means r v sc a l d x \<Longrightarrow>
    formula_means r v sc (F_conditional a t b) l d x"
| otherwise: "test_means r sc t = Some False \<Longrightarrow> formula_means r v sc b l d x \<Longrightarrow>
    formula_means r v sc (F_conditional a t b) l d x"
| operation: "isArithmetic k \<Longrightarrow> formula_means r v sc a l dl x \<Longrightarrow> formula_means r v sc b m dm y \<Longrightarrow>
    composable k l dl m dm \<Longrightarrow>
    formula_means r v sc (F_binary k a b) None (joined_dimension k l dl m dm) (combine (value_operation k) x y)"
| plain_row: "i < length (pt_rows (rs_table r)) \<Longrightarrow> p = pt_rows (rs_table r) ! i \<Longrightarrow> pr_parsed p \<Longrightarrow>
    denotes (ft_nodes (pr_tree p)) (ft_root (pr_tree p)) e \<Longrightarrow> formed e \<Longrightarrow> pr_scaleUnit p = [] \<Longrightarrow>
    formula_means r v (pr_scope p) e l d x \<Longrightarrow> row_means r v i l d x"
| scaled_row: "i < length (pt_rows (rs_table r)) \<Longrightarrow> p = pt_rows (rs_table r) ! i \<Longrightarrow> pr_parsed p \<Longrightarrow>
    denotes (ft_nodes (pr_tree p)) (ft_root (pr_tree p)) e \<Longrightarrow> formed e \<Longrightarrow> pr_scaleUnit p \<noteq> [] \<Longrightarrow>
    scaleRuleFor (pr_scaleUnit p) = Some rule \<Longrightarrow>
    formula_means r v (pr_scope p) e l d x \<Longrightarrow> row_means r v i None d (map_option (dmul (snd rule)) x)"

subsection \<open>Load-time values\<close>

lemma node_of_is: "node_is (ft_nodes tree) i n \<longleftrightarrow> node_of tree i = Some n"
  by (auto simp: node_is_def node_of_def)

lemma helper_reads:
  "fn_event (named_node k sp rf) = rf_event rf" "fn_device (named_node k sp rf) = rf_device rf"
  "fn_modifier (named_node k sp rf) = rf_modifier rf" "fn_spelling (named_node k sp rf) = sp"
  by (simp_all add: named_node_def)

lemma fact_ok:
  "fnodes_wf (ft_nodes tree) \<Longrightarrow> denotes (ft_nodes tree) i e \<Longrightarrow> i < int f \<Longrightarrow> formed e \<Longrightarrow>
   \<exists>a. fact r f tree i scope = Some a \<and> fact_means r scope e = (case a of Inl _ \<Rightarrow> None | Inr x \<Rightarrow> Some x)"
proof (induction e arbitrary: i f)
  case (F_binary k a b)
  then obtain l m where n: "node_is (ft_nodes tree) i ((blank_node k)\<lparr>fn_left := l, fn_right := m, fn_third := - 1\<rparr>)"
    and ab: "denotes (ft_nodes tree) l a" "denotes (ft_nodes tree) m b" and op: "operation_kind k" by auto
  obtain f' where f: "f = Suc f'" using F_binary.prems(3) denotes_bounds [OF F_binary.prems(2)] by (cases f) auto
  have lm: "l < int f'" "m < int f'" using node_below [OF F_binary.prems(1) n] F_binary.prems(3) f by simp_all
  obtain x where x: "fact r f' tree l scope = Some x" "fact_means r scope a = (case x of Inl _ \<Rightarrow> None | Inr v \<Rightarrow> Some v)"
    using F_binary.IH(1) [OF F_binary.prems(1) ab(1) lm(1)] F_binary.prems(4) by auto
  obtain y where y: "fact r f' tree m scope = Some y" "fact_means r scope b = (case y of Inl _ \<Rightarrow> None | Inr v \<Rightarrow> Some v)"
    using F_binary.IH(2) [OF F_binary.prems(1) ab(2) lm(2)] F_binary.prems(4) by auto
  have k: "k \<noteq> CONSTANT" "k \<noteq> HOST_CONSTANT" "k \<noteq> HAS_EVENT" "k \<noteq> SOURCE_COUNT" using op by auto
  from n k show ?case by (auto simp: f node_is_def Let_def x y split: sum.splits)
next
  case (F_conditional a b c)
  then obtain l m t where n: "node_is (ft_nodes tree) i ((blank_node CONDITIONAL)\<lparr>fn_left := l, fn_right := m, fn_third := t\<rparr>)"
    by auto
  obtain f' where f: "f = Suc f'" using F_conditional.prems(3) denotes_bounds [OF F_conditional.prems(2)] by (cases f) auto
  from n show ?case by (simp add: f node_is_def isArithmetic_def)
next
  case (F_number v)
  obtain f' where f: "f = Suc f'" using F_number.prems(3) denotes_bounds [OF F_number.prems(2)] by (cases f) auto
  show ?case using F_number.prems(2) by (simp add: f node_is_def)
next
  case (F_host name)
  obtain f' where f: "f = Suc f'" using F_host.prems(3) denotes_bounds [OF F_host.prems(2)] by (cases f) auto
  show ?case using F_host.prems(2) by (simp add: f node_is_def)
next
  case (F_named k spelling rf)
  obtain f' where f: "f = Suc f'" using F_named.prems(3) denotes_bounds [OF F_named.prems(2)] by (cases f) auto
  show ?case using F_named.prems(2,4) by (auto simp: f node_is_def isArithmetic_def Let_def helper_reads)
qed

lemma decide_ok:
  assumes wf: "fnodes_wf (ft_nodes tree)" and d: "denotes (ft_nodes tree) i (F_conditional a t b)" and fm: "formed t"
  shows "\<exists>ans. decide r tree i scope = Some ans \<and> test_means r scope t = (case ans of Inl _ \<Rightarrow> None | Inr x \<Rightarrow> Some x)"
proof -
  from d obtain l m u where n: "node_of tree i = Some ((blank_node CONDITIONAL)\<lparr>fn_left := l, fn_right := m, fn_third := u\<rparr>)"
    and m: "denotes (ft_nodes tree) m t" by (auto simp: node_of_is)
  have settled: "\<exists>a. fact r (length (ft_nodes tree)) tree j scope = Some a
      \<and> fact_means r scope e = (case a of Inl _ \<Rightarrow> None | Inr x \<Rightarrow> Some x)"
    if "denotes (ft_nodes tree) j e" "formed e" for j e
    using fact_ok [OF wf that(1) _ that(2)] denotes_bounds [OF that(1)] by simp
  have "0 \<le> m \<and> nat m < length (ft_nodes tree)" using denotes_bounds [OF m] by (simp add: nat_less_iff)
  then obtain test where test: "node_of tree m = Some test" by (auto simp: node_of_def)
  show ?thesis
  proof (cases "fn_kind test = GREATER \<or> fn_kind test = LESS")
    case True
    then obtain k x y where e: "t = F_binary k x y" and k: "k = fn_kind test"
      using m test fm by (cases t) (auto simp: node_of_is)
    from m obtain l' m' where at: "node_of tree m = Some ((blank_node k)\<lparr>fn_left := l', fn_right := m', fn_third := - 1\<rparr>)"
      and xy: "denotes (ft_nodes tree) l' x" "denotes (ft_nodes tree) m' y" by (auto simp: e node_of_is)
    have lm: "fn_left test = l'" "fn_right test = m'" "denotes (ft_nodes tree) l' x" "denotes (ft_nodes tree) m' y"
      using at test xy by auto
    obtain p where p: "fact r (length (ft_nodes tree)) tree l' scope = Some p"
      "fact_means r scope x = (case p of Inl _ \<Rightarrow> None | Inr v \<Rightarrow> Some v)"
      using settled [OF lm(3)] fm e by auto
    obtain q where q: "fact r (length (ft_nodes tree)) tree m' scope = Some q"
      "fact_means r scope y = (case q of Inl _ \<Rightarrow> None | Inr v \<Rightarrow> Some v)"
      using settled [OF lm(4)] fm e by auto
    from True show ?thesis
      by (auto simp: decide_def n test lm p q e k Let_def split: sum.split)
  next
    case False
    have k: "\<not> (k = GREATER \<or> k = LESS)" if "t = F_binary k x y" for k x y
      using m test False that by (auto simp: node_of_is)
    have tm: "test_means r scope t = map_option isNotZero (fact_means r scope t)"
      by (cases t) (use k in auto)
    obtain p where p: "fact r (length (ft_nodes tree)) tree m scope = Some p"
      "fact_means r scope t = (case p of Inl _ \<Rightarrow> None | Inr v \<Rightarrow> Some v)"
      using settled [OF m fm] by blast
    from False show ?thesis
      by (auto simp: decide_def n test p tm Let_def split: sum.split)
  qed
qed

subsection \<open>Spines and what they stand for\<close>

definition core_literal :: "expr_core \<Rightarrow> binary64 option" where
  "core_literal c = (case nodes c of [n] \<Rightarrow> if kind n \<noteq> 4 then None else Some (scale n) | _ \<Rightarrow> None)"

lemma asLiteral_core: "asLiteral s = core_literal (sp_core s)"
  by (simp add: asLiteral_def core_literal_def)

definition whole :: "expr_core \<Rightarrow> bool" where
  "whole c \<longleftrightarrow> spine_wf c \<and> nodes c \<noteq> []"

lemma literal_whole: "whole (sp_core (literalSpine x))" "core_literal (sp_core (literalSpine x)) = Some x"
    "eval_root v (sp_core (literalSpine x)) = Some x" "sp_dimension (literalSpine x) = no_dimension"
  by (simp_all add: whole_def literalSpine_def addNode_def empty_core_def spine_wf_def nodes_wf_def node_wf_def core_literal_def
      eval_root_def root_def eval_node_def)

lemma leaf_whole: "whole (expr_of_leaf l)" "core_literal (expr_of_leaf l) = None" "eval_root v (expr_of_leaf l) = v l"
  by (simp add: whole_def expr_of_leaf_wf)
    (simp_all add: expr_of_leaf_def addLeaf_def empty_core_def addNode_def core_literal_def eval_root_def root_def eval_node_def)

lemma scaled_whole:
  assumes "whole c"
  shows "whole (scaleAll c k)" and "core_literal (scaleAll c k) = None"
    and "eval_root v (scaleAll c k) = map_option (dmul k) (eval_root v c)"
proof -
  have n: "node_wf (length (leaves c)) (length (nodes c)) \<lparr>kind = 4, left = root c, right = - 1, leaf = - 1, scale = k\<rparr>"
    using assms root_bounds [of c] by (simp add: node_wf_def whole_def)
  have wf: "spine_wf c" and ne: "nodes c \<noteq> []" using assms by (simp_all add: whole_def)
  show "whole (scaleAll c k)"
    unfolding whole_def scaleAll_def using eval_root_append(1) [OF wf n] by (simp add: addNode_def)
  show "core_literal (scaleAll c k) = None"
    using ne by (cases "nodes c") (simp_all add: core_literal_def scaleAll_def addNode_def split: list.split)
  show "eval_root v (scaleAll c k) = map_option (dmul k) (eval_root v c)"
    unfolding scaleAll_def eval_root_append(2) [OF wf n]
    using root_bounds [OF ne] by (simp add: eval_node_def eval_root_def)
qed

lemma joined_whole:
  assumes l: "whole a" and m: "whole b" and k: "isArithmetic k" and sp: "splice a b = (c, rt)"
  shows "whole (fst (addNode c (binary_node (spineKind k) (root a) rt)))"
    and "core_literal (fst (addNode c (binary_node (spineKind k) (root a) rt))) = None"
    and "by_address v \<Longrightarrow> eval_root v (fst (addNode c (binary_node (spineKind k) (root a) rt)))
      = combine (value_operation k) (eval_root v a) (eval_root v b)"
proof -
  have a: "spine_wf a" "0 \<le> root a" "root a < int (length (nodes a))" and b: "spine_wf b" "nodes b \<noteq> []"
    using l m root_bounds [of a] by (simp_all add: whole_def)
  have kinds: "spineKind k \<in> {1, 2, 3, 4, 5, 6}" by (cases k) simp_all
  have v: "by_address (\<lambda>l. None)" by (simp add: by_address_def)
  show "whole (fst (addNode c (binary_node (spineKind k) (root a) rt)))"
    unfolding whole_def using splice_binary(1) [OF v a b kinds sp] by (simp add: addNode_def)
  have "length (nodes c) = length (nodes a) + length (nodes b)" using splice_wf [OF a(1) b(1) sp] by simp
  then have "nodes c \<noteq> []" using b(2) by auto
  then show "core_literal (fst (addNode c (binary_node (spineKind k) (root a) rt))) = None"
    by (cases "nodes c") (simp_all add: core_literal_def addNode_def split: list.split)
  assume "by_address v"
  from splice_binary(2) [OF this a b kinds sp]
  have "eval_root v (fst (addNode c (binary_node (spineKind k) (root a) rt))) =
      eval_node v (leaves c) (binary_node (spineKind k) (root a) rt) (eval_root v a) (eval_root v b)"
    by (simp add: eval_root_def)
  also have "\<dots> = combine (value_operation k) (eval_root v a) (eval_root v b)"
    using k a(2) splice_eval(3) [OF v a(1) b(1) sp] root_bounds [OF b(2)]
    by (cases "eval_root v a"; cases "eval_root v b"; cases k)
      (simp_all add: eval_node_def binary_node_def value_operation_def fact_operation_def isArithmetic_def)
  finally show "eval_root v (fst (addNode c (binary_node (spineKind k) (root a) rt)))
      = combine (value_operation k) (eval_root v a) (eval_root v b)" .
qed

subsection \<open>The references a row visits\<close>

inductive visits :: "resolver \<Rightarrow> formula_tree \<Rightarrow> string \<Rightarrow> int \<Rightarrow> nat \<Rightarrow> bool" for r tree scope where
  visit_metric: "node_of tree i = Some n \<Longrightarrow> fn_kind n = REFERENCE \<Longrightarrow>
    om_find (pt_index (rs_table r)) (fn_spelling n) = Some j \<Longrightarrow> visits r tree scope i j"
| visit_arm: "node_of tree i = Some n \<Longrightarrow> fn_kind n = CONDITIONAL \<Longrightarrow> decide r tree i scope = Some (Inr b) \<Longrightarrow>
    visits r tree scope (if b then fn_left n else fn_third n) j \<Longrightarrow> visits r tree scope i j"
| visit_left: "node_of tree i = Some n \<Longrightarrow> isArithmetic (fn_kind n) \<Longrightarrow> visits r tree scope (fn_left n) j \<Longrightarrow>
    visits r tree scope i j"
| visit_right: "node_of tree i = Some n \<Longrightarrow> isArithmetic (fn_kind n) \<Longrightarrow> visits r tree scope (fn_right n) j \<Longrightarrow>
    visits r tree scope i j"

inductive_cases visitsE: "visits r tree scope i j"

definition row_visits :: "resolver \<Rightarrow> nat \<Rightarrow> nat \<Rightarrow> bool" where
  "row_visits r i j \<longleftrightarrow>
     (let p = pt_rows (rs_table r) ! i
      in i < length (pt_rows (rs_table r)) \<and> row_refusal p = None
         \<and> visits r (pr_tree p) (pr_scope p) (ft_root (pr_tree p)) j)"

text \<open>A grounded row starts no infinite chain of visits.\<close>

definition grounded :: "resolver \<Rightarrow> nat \<Rightarrow> bool" where
  "grounded r i \<longleftrightarrow> Wellfounded.accp (\<lambda>j i. row_visits r i j) i"

lemma groundedI: "(\<And>j. row_visits r i j \<Longrightarrow> grounded r j) \<Longrightarrow> grounded r i"
  unfolding grounded_def by (rule accp.intros)

lemma grounded_acyclic: "grounded r i \<Longrightarrow> \<not> (row_visits r)\<^sup>+\<^sup>+ i i"
  unfolding grounded_def
proof (induction rule: accp.induct)
  case (accI i)
  show ?case
  proof
    assume cyc: "(row_visits r)\<^sup>+\<^sup>+ i i"
    then obtain j where j: "row_visits r i j" "(row_visits r)\<^sup>*\<^sup>* j i" by (meson tranclpD)
    then have "(row_visits r)\<^sup>+\<^sup>+ j j" by (meson rtranclp_into_tranclp1)
    with accI(2) [OF j(1)] show False by simp
  qed
qed

subsection \<open>The invariant of a resolution\<close>

definition sound_spine :: "resolver \<Rightarrow> formula_tree \<Rightarrow> string \<Rightarrow> int \<Rightarrow> fexpr \<Rightarrow> metric_spine \<Rightarrow> bool" where
  "sound_spine r tree scope i e s \<longleftrightarrow>
     whole (sp_core s)
     \<and> (\<forall>v. by_address v \<longrightarrow> formula_means r v scope e (asLiteral s) (sp_dimension s) (eval_root v (sp_core s)))
     \<and> (\<forall>j. visits r tree scope i j \<longrightarrow> grounded r j)"

definition sound_reference :: "resolver \<Rightarrow> nat \<Rightarrow> metric_spine \<Rightarrow> bool" where
  "sound_reference r i s \<longleftrightarrow>
     whole (sp_core s)
     \<and> (\<forall>v. by_address v \<longrightarrow> row_means r v i (asLiteral s) (sp_dimension s) (eval_root v (sp_core s)))
     \<and> grounded r i"

definition definition_dimension :: "metric_definition \<Rightarrow> dimension" where
  "definition_dimension d = \<lparr>time_exp = md_time d, events_exp = md_events d\<rparr>"

definition sound_row :: "resolver \<Rightarrow> nat \<Rightarrow> metric_definition \<Rightarrow> bool" where
  "sound_row r i d \<longleftrightarrow>
     whole (md_core d)
     \<and> (\<forall>v. by_address v \<longrightarrow> row_means r v i (core_literal (md_core d)) (definition_dimension d) (eval_root v (md_core d)))
     \<and> grounded r i"

definition settled :: "parsed_metric_row \<Rightarrow> metric_definition \<Rightarrow> bool" where
  "settled p d \<longleftrightarrow> row_refusal p = Some d \<or> (row_refusal p = None \<and> (\<exists>answer. d = row_answer p answer))"

definition coloured :: "nat \<Rightarrow> resolution \<Rightarrow> nat set" where
  "coloured c st = {i. i < length (rn_colour st) \<and> rn_colour st ! i = c}"

definition resolution_ok :: "resolver \<Rightarrow> resolution \<Rightarrow> bool" where
  "resolution_ok r st \<longleftrightarrow>
     length (rn_rows st) = length (pt_rows (rs_table r)) \<and> length (rn_colour st) = length (pt_rows (rs_table r))
     \<and> (\<forall>i < length (rn_rows st). md_published (rn_rows st ! i) \<longrightarrow> sound_row r i (rn_rows st ! i))
     \<and> (\<forall>i \<in> coloured kBlack st. settled (pt_rows (rs_table r) ! i) (rn_rows st ! i))
     \<and> coloured kWhite st \<union> coloured kGrey st \<union> coloured kBlack st = {..<length (pt_rows (rs_table r))}"

definition advanced :: "resolver \<Rightarrow> resolution \<Rightarrow> resolution \<Rightarrow> bool" where
  "advanced r st st' \<longleftrightarrow>
     resolution_ok r st' \<and> rn_chain st' = rn_chain st \<and> coloured kGrey st' = coloured kGrey st
     \<and> coloured kWhite st' \<subseteq> coloured kWhite st \<and> coloured kBlack st \<subseteq> coloured kBlack st'"

lemma finite_coloured [simp]: "finite (coloured c st)"
  by (simp add: coloured_def)

lemma advanced_refl: "resolution_ok r st \<Longrightarrow> advanced r st st"
  by (simp add: advanced_def)

lemma advanced_trans: "advanced r st st1 \<Longrightarrow> advanced r st1 st2 \<Longrightarrow> advanced r st st2"
  by (auto simp: advanced_def)

lemma advanced_ok: "advanced r st st' \<Longrightarrow> resolution_ok r st'"
  by (simp add: advanced_def)

lemma advanced_white: "advanced r st st' \<Longrightarrow> card (coloured kWhite st) \<le> m \<Longrightarrow> card (coloured kWhite st') \<le> m"
  using card_mono [OF finite_coloured, of "coloured kWhite st'" kWhite st] by (auto simp: advanced_def)

definition table_ok :: "parsed_metric_table \<Rightarrow> bool" where
  "table_ok t \<longleftrightarrow>
     (\<forall>name i. om_find (pt_index t) name = Some i \<longrightarrow> i < length (pt_rows t))
     \<and> (\<forall>p \<in> set (pt_rows t). pr_parsed p \<longrightarrow> fnodes_wf (ft_nodes (pr_tree p))
          \<and> (\<exists>e. denotes (ft_nodes (pr_tree p)) (ft_root (pr_tree p)) e \<and> value_expr e \<and> formed e))"

definition exp_ok :: "resolver \<Rightarrow> nat \<Rightarrow> (nat \<Rightarrow> metric_spine walk) \<Rightarrow> bool" where
  "exp_ok r m exp \<longleftrightarrow>
     (\<forall>i st. resolution_ok r st \<longrightarrow> i < length (pt_rows (rs_table r)) \<longrightarrow> card (coloured kWhite st) \<le> m \<longrightarrow>
        (\<exists>a st'. exp i st = Some (a, st') \<and> advanced r st st' \<and> (\<forall>s. a = Inr s \<longrightarrow> sound_reference r i s)))"

definition walked :: "resolver \<Rightarrow> formula_tree \<Rightarrow> string \<Rightarrow> int \<Rightarrow> fexpr \<Rightarrow> resolution \<Rightarrow>
    ((metric_failure + metric_spine) \<times> resolution) checked \<Rightarrow> bool" where
  "walked r tree scope i e st ans \<longleftrightarrow>
     (\<exists>a st'. ans = Some (a, st') \<and> advanced r st st' \<and> (\<forall>s. a = Inr s \<longrightarrow> sound_spine r tree scope i e s))"

lemma walked_still:
  "resolution_ok r st \<Longrightarrow> (\<And>s. a = Inr s \<Longrightarrow> sound_spine r tree scope i e s) \<Longrightarrow> walked r tree scope i e st (Some (a, st))"
  by (auto simp: walked_def advanced_refl)

lemma sound_literal:
  "(\<And>v. formula_means r v scope e (Some x) no_dimension (Some x)) \<Longrightarrow> (\<And>j. \<not> visits r tree scope i j) \<Longrightarrow>
   sound_spine r tree scope i e (literalSpine x)"
  by (simp add: sound_spine_def asLiteral_core literal_whole)

lemma no_visits:
  assumes "node_of tree i = Some n" and "fn_kind n \<noteq> REFERENCE" and "fn_kind n \<noteq> CONDITIONAL" and "\<not> isArithmetic (fn_kind n)"
  shows "\<not> visits r tree scope i j"
  using assms by (auto elim: visitsE)

lemma join_spines_Inr:
  assumes j: "join_spines n ln rn l m = Inr s" and sp: "splice (sp_core l) (sp_core m) = (c, rt)"
  shows "sp_core s = fst (addNode c (binary_node (spineKind (fn_kind n)) (root (sp_core l)) rt))"
    and "sp_dimension s = joined_dimension (fn_kind n) (asLiteral l) (sp_dimension l) (asLiteral m) (sp_dimension m)"
proof -
  define g where "g = guarded (fn_kind n) (asLiteral l \<noteq> None) (asLiteral m \<noteq> None)"
  define zero where "zero = (fn_kind n = DIVIDE \<and> (case asLiteral m of None \<Rightarrow> False | Some d \<Rightarrow> isZero d))"
  define apart where "apart = (pairing (fn_kind n) \<and> \<not> g
    \<and> (events_exp (sp_dimension l) \<noteq> events_exp (sp_dimension m) \<or> time_exp (sp_dimension l) \<noteq> time_exp (sp_dimension m)))"
  note parts = g_def [symmetric] zero_def [symmetric] apart_def [symmetric]
  have "\<not> zero" using j unfolding join_spines_def Let_def parts by (cases zero) simp_all
  moreover have "\<not> apart" using j \<open>\<not> zero\<close> unfolding join_spines_def Let_def parts by (cases apart) simp_all
  ultimately have s: "s = \<lparr>sp_core = fst (addNode c (binary_node (spineKind (fn_kind n)) (root (sp_core l)) rt)),
      sp_dimension = (if g then (if asLiteral l \<noteq> None then sp_dimension m else sp_dimension l)
                      else combineDimension (fn_kind n) (sp_dimension l) (sp_dimension m)),
      sp_avail = worstAvailability (sp_avail l) (sp_avail m),
      sp_objectPath = (if sp_objectPath l = [] then sp_objectPath m else sp_objectPath l),
      sp_name = (if sp_name l = [] then sp_name m else sp_name l)\<rparr>"
    using j unfolding join_spines_def Let_def parts sp by (simp only: if_False prod.case sum.inject)
  show "sp_core s = fst (addNode c (binary_node (spineKind (fn_kind n)) (root (sp_core l)) rt))"
    unfolding s by simp
  show "sp_dimension s = joined_dimension (fn_kind n) (asLiteral l) (sp_dimension l) (asLiteral m) (sp_dimension m)"
    unfolding s joined_dimension_def g_def by simp
qed

lemma join_spines_sound:
  assumes n: "node_of tree i = Some n" "fn_kind n = k" "isArithmetic k"
    and l: "sound_spine r tree scope (fn_left n) a l" and m: "sound_spine r tree scope (fn_right n) b m"
    and j: "join_spines n ln rn l m = Inr s"
  shows "sound_spine r tree scope i (F_binary k a b) s"
proof -
  obtain c rt where sp: "splice (sp_core l) (sp_core m) = (c, rt)" by force
  have comp: "composable k (asLiteral l) (sp_dimension l) (asLiteral m) (sp_dimension m)"
    using j n(2) unfolding composable_def join_spines_def Let_def
    by (auto split: if_splits option.splits)
  have s: "sp_core s = fst (addNode c (binary_node (spineKind k) (root (sp_core l)) rt))"
    "sp_dimension s = joined_dimension k (asLiteral l) (sp_dimension l) (asLiteral m) (sp_dimension m)"
    using join_spines_Inr [OF j sp] n(2) by simp_all
  have w: "whole (sp_core l)" "whole (sp_core m)" using l m by (simp_all add: sound_spine_def)
  note jw = joined_whole [OF w n(3) sp]
  have "formula_means r v scope (F_binary k a b) (asLiteral s) (sp_dimension s) (eval_root v (sp_core s))"
    if v: "by_address v" for v
    unfolding asLiteral_core s jw(2) jw(3) [OF v]
    using l m v comp by (intro operation [OF n(3)]) (simp_all add: sound_spine_def asLiteral_core)
  moreover have "grounded r j" if "visits r tree scope i j" for j
    using that l m n by (auto simp: sound_spine_def isArithmetic_def elim: visitsE)
  ultimately show ?thesis by (simp add: sound_spine_def s jw(1))
qed

subsection \<open>The walk\<close>

lemma walkedE:
  assumes "walked r tree scope i e st ans"
  obtains a st' where "ans = Some (a, st')" "advanced r st st'" "\<forall>s. a = Inr s \<longrightarrow> sound_spine r tree scope i e s"
  using assms unfolding walked_def by blast

lemma walk_operation:
  assumes n: "node_of tree i = Some n" "fn_kind n = k" "isArithmetic k"
    and l: "walked r tree scope (fn_left n) a st (walk r exp f tree (fn_left n) scope st)"
    and m: "\<And>st1. advanced r st st1 \<Longrightarrow> walked r tree scope (fn_right n) b st1 (walk r exp f tree (fn_right n) scope st1)"
    and nodes: "node_of tree (fn_left n) \<noteq> None" "node_of tree (fn_right n) \<noteq> None"
  shows "walked r tree scope i (F_binary k a b) st (arithmetic r exp (Suc f) tree i scope st)"
proof -
  from l obtain x st1 where x: "walk r exp f tree (fn_left n) scope st = Some (x, st1)" "advanced r st st1"
    "\<forall>s. x = Inr s \<longrightarrow> sound_spine r tree scope (fn_left n) a s" by (rule walkedE)
  show ?thesis
  proof (cases x)
    case (Inl er)
    then show ?thesis using x(2) by (simp add: n x(1) walked_def)
  next
    case (Inr s1)
    from m [OF x(2)] obtain y st2 where y: "walk r exp f tree (fn_right n) scope st1 = Some (y, st2)" "advanced r st1 st2"
      "\<forall>s. y = Inr s \<longrightarrow> sound_spine r tree scope (fn_right n) b s" by (rule walkedE)
    have adv: "advanced r st st2" using x(2) y(2) by (rule advanced_trans)
    show ?thesis
    proof (cases y)
      case (Inl er)
      then show ?thesis using adv by (simp add: n x(1) y(1) Inr walked_def)
    next
      case (Inr s2)
      obtain ln rn where ln: "node_of tree (fn_left n) = Some ln" "node_of tree (fn_right n) = Some rn" using nodes by blast
      have "sound_spine r tree scope i (F_binary k a b) s" if "join_spines n ln rn s1 s2 = Inr s" for s
        using join_spines_sound [OF n _ _ that] x(3) y(3) \<open>x = Inr s1\<close> Inr by blast
      then show ?thesis using adv by (simp add: n x(1) y(1) \<open>x = Inr s1\<close> Inr ln walked_def)
    qed
  qed
qed

lemma reference_sound:
  assumes n: "node_of tree i = Some (named_node REFERENCE sp rf)"
  shows "om_find (pt_index (rs_table r)) sp = Some j \<Longrightarrow> sound_reference r j s \<Longrightarrow>
      sound_spine r tree scope i (F_named REFERENCE sp rf) s"
    and "om_find (pt_index (rs_table r)) sp = None \<Longrightarrow> leaf_spine r (named_node REFERENCE sp rf) scope = Inr s \<Longrightarrow>
      sound_spine r tree scope i (F_named REFERENCE sp rf) s"
proof -
  assume j: "om_find (pt_index (rs_table r)) sp = Some j" and s: "sound_reference r j s"
  have "grounded r k" if "visits r tree scope i k" for k
    using that s n j by (auto simp: sound_reference_def helper_reads isArithmetic_def elim: visitsE)
  moreover have "formula_means r v scope (F_named REFERENCE sp rf) (asLiteral s) (sp_dimension s) (eval_root v (sp_core s))"
    if "by_address v" for v using s that by (intro metric [OF j]) (simp add: sound_reference_def)
  ultimately show "sound_spine r tree scope i (F_named REFERENCE sp rf) s"
    using s by (simp add: sound_spine_def sound_reference_def)
next
  assume j: "om_find (pt_index (rs_table r)) sp = None" and s: "leaf_spine r (named_node REFERENCE sp rf) scope = Inr s"
  then obtain path lf where lf: "rf_modifier rf = []"
      "findLeaf r (scope_label (named_node REFERENCE sp rf) scope) (rf_event rf) = Inr (path, lf)"
    and c: "sp_core s = expr_of_leaf lf" "sp_dimension s = leafDimension lf"
    by (auto simp: leaf_spine_def helper_reads split: if_splits sum.splits)
  have "\<not> visits r tree scope i k" for k
    using n j by (auto simp: helper_reads isArithmetic_def elim: visitsE)
  then show "sound_spine r tree scope i (F_named REFERENCE sp rf) s"
    using counter [OF j lf] by (simp add: sound_spine_def asLiteral_core c leaf_whole)
qed

lemma walk_ok:
  assumes tok: "table_ok (rs_table r)" and ex: "exp_ok r m exp" and wf: "fnodes_wf (ft_nodes tree)"
  shows "denotes (ft_nodes tree) i e \<Longrightarrow> value_expr e \<Longrightarrow> formed e \<Longrightarrow> 2 * nat i + 2 \<le> f \<Longrightarrow> resolution_ok r st \<Longrightarrow>
    card (coloured kWhite st) \<le> m \<Longrightarrow> walked r tree scope i e st (walk r exp f tree i scope st)"
proof (induction e arbitrary: i f st)
  case (F_number x)
  then have n: "node_of tree i = Some ((blank_node CONSTANT)\<lparr>fn_value := x\<rparr>)" by (simp add: node_of_is)
  obtain f' where f: "f = Suc f'" using F_number.prems(4) by (cases f) auto
  have "sound_spine r tree scope i (F_number x) (literalSpine x)"
    by (rule sound_literal [OF literal_number]) (rule no_visits [OF n], simp_all add: isArithmetic_def)
  then show ?case using F_number.prems(5) by (auto simp: f n intro: walked_still)
next
  case (F_host name)
  then have n: "node_of tree i = Some ((blank_node HOST_CONSTANT)\<lparr>fn_spelling := name\<rparr>)" by (simp add: node_of_is)
  obtain f' where f: "f = Suc f'" using F_host.prems(4) by (cases f) auto
  have "sound_spine r tree scope i (F_host name) (literalSpine x)" if "readFact r name = Inr x" for x
    by (rule sound_literal [OF literal_fact [OF that]]) (rule no_visits [OF n], simp_all add: isArithmetic_def)
  then show ?case using F_host.prems(5) by (auto simp: f n intro!: walked_still split: sum.split) (metis map_sum.simps sum.distinct(1) sum.exhaust sum.inject(2))
next
  case (F_named k sp rf)
  then have n: "node_of tree i = Some (named_node k sp rf)" by (simp add: node_of_is)
  obtain f' where f: "f = Suc f'" using F_named.prems(4) by (cases f) auto
  consider "k = REFERENCE" | "k = HAS_EVENT \<or> k = SOURCE_COUNT" using F_named.prems(2) by auto
  then show ?case
  proof cases
    case 1
    note rn = n [unfolded 1]
    show ?thesis
    proof (cases "om_find (pt_index (rs_table r)) sp")
      case None
      then show ?thesis
        using F_named.prems(5) by (auto simp: f rn helper_reads 1 intro!: walked_still reference_sound(2) [OF rn])
    next
      case (Some j)
      then have "j < length (pt_rows (rs_table r))" using tok by (simp add: table_ok_def)
      with ex F_named.prems(5,6) obtain a st' where a: "exp j st = Some (a, st')" "advanced r st st'"
        "\<forall>s. a = Inr s \<longrightarrow> sound_reference r j s" unfolding exp_ok_def by blast
      with Some show ?thesis
        by (auto simp: f rn helper_reads 1 walked_def intro!: reference_sound(1) [OF rn])
    qed
  next
    case 2
    have lit: "sound_spine r tree scope i (F_named k sp rf) (literalSpine x)" if "fact_means r scope (F_named k sp rf) = Some x" for x
      by (rule sound_literal [OF literal_helper [OF 2 that]]) (rule no_visits [OF n], use 2 in \<open>auto simp: isArithmetic_def\<close>)
    with 2 show ?thesis using F_named.prems(5) by (auto simp: f n intro!: walked_still)
  qed
next
  case (F_binary k a b)
  then obtain l u where n: "node_of tree i = Some ((blank_node k)\<lparr>fn_left := l, fn_right := u, fn_third := - 1\<rparr>)"
    and ab: "denotes (ft_nodes tree) l a" "denotes (ft_nodes tree) u b" by (auto simp: node_of_is)
  from F_binary.prems(2,3) have k: "isArithmetic k" and va: "value_expr a" "value_expr b" "formed a" "formed b" by auto
  have below: "l < i" "u < i" using node_below [OF wf] n by (force simp: node_of_is [symmetric])+
  obtain f' where f: "f = Suc (Suc f')" using F_binary.prems(4) by (metis Suc_le_D add_2_eq_Suc' Suc_le_mono)
  have fuel: "2 * nat l + 2 \<le> f'" "2 * nat u + 2 \<le> f'"
    using below denotes_bounds [OF ab(1)] denotes_bounds [OF ab(2)] F_binary.prems(4) f by linarith+
  have "walked r tree scope i (F_binary k a b) st (arithmetic r exp (Suc f') tree i scope st)"
  proof (rule walk_operation [OF n])
    let ?n = "(blank_node k)\<lparr>fn_left := l, fn_right := u, fn_third := - 1\<rparr>"
    show "fn_kind ?n = k" "isArithmetic k" using k by simp_all
    show "walked r tree scope (fn_left ?n) a st (walk r exp f' tree (fn_left ?n) scope st)"
      using F_binary.IH(1) [OF ab(1) va(1,3) fuel(1) F_binary.prems(5,6)] by simp
    show "walked r tree scope (fn_right ?n) b st1 (walk r exp f' tree (fn_right ?n) scope st1)" if "advanced r st st1" for st1
      using F_binary.IH(2) [OF ab(2) va(2,4) fuel(2) advanced_ok [OF that] advanced_white [OF that F_binary.prems(6)]] by simp
    show "node_of tree (fn_left ?n) \<noteq> None" "node_of tree (fn_right ?n) \<noteq> None"
      using denotes_bounds [OF ab(1)] denotes_bounds [OF ab(2)] by (auto simp: node_of_def)
  qed
  moreover have "walk r exp f tree i scope st = arithmetic r exp (Suc f') tree i scope st"
    using k by (simp add: f n isArithmetic_def del: arithmetic.simps) auto
  ultimately show ?case by simp
next
  case (F_conditional a t b)
  then obtain l u w where n: "node_of tree i = Some ((blank_node CONDITIONAL)\<lparr>fn_left := l, fn_right := u, fn_third := w\<rparr>)"
    and ab: "denotes (ft_nodes tree) l a" "denotes (ft_nodes tree) w b" by (auto simp: node_of_is)
  from F_conditional.prems(2,3) have va: "value_expr a" "value_expr b" "formed a" "formed b" "formed t" by auto
  have below: "l < i" "w < i" using node_below [OF wf] n by (force simp: node_of_is [symmetric])+
  obtain f' where f: "f = Suc f'" using F_conditional.prems(4) by (cases f) auto
  have fuel: "2 * nat l + 2 \<le> f'" "2 * nat w + 2 \<le> f'"
    using below denotes_bounds [OF ab(1)] denotes_bounds [OF ab(2)] F_conditional.prems(4) f by linarith+
  obtain ans where ans: "decide r tree i scope = Some ans" "test_means r scope t = (case ans of Inl _ \<Rightarrow> None | Inr x \<Rightarrow> Some x)"
    using decide_ok [OF wf F_conditional.prems(1) va(5)] by blast
  show ?case
  proof (cases ans)
    case (Inl er)
    then show ?thesis using F_conditional.prems(5) by (auto simp: f n ans(1) intro: walked_still)
  next
    case (Inr c)
    let ?j = "if c then l else w" and ?e = "if c then a else b"
    have "walked r tree scope ?j ?e st (walk r exp f' tree ?j scope st)"
      using F_conditional.IH(1) [OF ab(1) va(1,3) fuel(1) F_conditional.prems(5,6)]
        F_conditional.IH(3) [OF ab(2) va(2,4) fuel(2) F_conditional.prems(5,6)] by simp
    then obtain x st' where x: "walk r exp f' tree ?j scope st = Some (x, st')" "advanced r st st'"
      "\<forall>s. x = Inr s \<longrightarrow> sound_spine r tree scope ?j ?e s" by (rule walkedE)
    have tm: "test_means r scope t = Some c" by (simp add: ans(2) Inr)
    have "sound_spine r tree scope i (F_conditional a t b) s" if "x = Inr s" for s
    proof -
      note s = x(3) [rule_format, OF that]
      have "formula_means r v scope (F_conditional a t b) (asLiteral s) (sp_dimension s) (eval_root v (sp_core s))"
        if "by_address v" for v
        using s that tm by (cases c) (auto simp: sound_spine_def intro: chosen otherwise)
      moreover have "grounded r j" if "visits r tree scope i j" for j
        using that s n ans(1) Inr by (cases c) (auto simp: sound_spine_def isArithmetic_def elim: visitsE)
      ultimately show ?thesis using s by (simp add: sound_spine_def)
    qed
    then show ?thesis using x(1,2) by (cases c) (simp_all add: f n ans(1) Inr walked_def)
  qed
qed

subsection \<open>The resolution of a row and of a table\<close>

lemma expand_ok:
  assumes res: "\<And>i st. resolution_ok r st \<Longrightarrow> i \<in> coloured kWhite st \<Longrightarrow> card (coloured kWhite st) \<le> m \<Longrightarrow>
      \<exists>st'. resolve i st = Some st' \<and> advanced r st st'"
  shows "exp_ok r m (expand r resolve)"
  unfolding exp_ok_def
proof (intro allI impI)
  fix i st
  assume st: "resolution_ok r st" and i: "i < length (pt_rows (rs_table r))" and m: "card (coloured kWhite st) \<le> m"
  have len: "length (rn_rows st) = length (pt_rows (rs_table r))" "length (rn_colour st) = length (pt_rows (rs_table r))"
    using st by (simp_all add: resolution_ok_def)
  have fin: "sound_reference r i s"
    if "resolution_ok r st'" "spine_of_definition (rn_rows st' ! i) name = Inr s" for st' name s
  proof -
    from that(2) have p: "md_published (rn_rows st' ! i)"
      and s: "sp_core s = md_core (rn_rows st' ! i)" "sp_dimension s = definition_dimension (rn_rows st' ! i)"
      by (auto simp: spine_of_definition_def definition_dimension_def split: if_splits)
    from that(1) p i have "sound_row r i (rn_rows st' ! i)" by (simp add: resolution_ok_def)
    then show ?thesis by (simp add: sound_row_def sound_reference_def s asLiteral_core)
  qed
  consider "rn_colour st ! i = kGrey" | "rn_colour st ! i \<noteq> kGrey" "kExpansionLimit \<le> length (rn_chain st)"
    | "rn_colour st ! i = kWhite" "\<not> kExpansionLimit \<le> length (rn_chain st)"
    | "rn_colour st ! i \<noteq> kGrey" "rn_colour st ! i \<noteq> kWhite" "\<not> kExpansionLimit \<le> length (rn_chain st)" by blast
  then show "\<exists>a st'. expand r resolve i st = Some (a, st') \<and> advanced r st st' \<and> (\<forall>s. a = Inr s \<longrightarrow> sound_reference r i s)"
  proof cases
    case 3
    then have "i \<in> coloured kWhite st" using i len by (simp add: coloured_def)
    from res [OF st this m] obtain st' where st': "resolve i st = Some st'" "advanced r st st'" by blast
    with 3 i len show ?thesis
      by (auto simp: expand_def Let_def kWhite_def kGrey_def intro: fin [OF advanced_ok [OF st'(2)]])
  qed (use i len st in \<open>auto simp: expand_def Let_def kWhite_def kGrey_def intro: advanced_refl fin [OF st]\<close>)
qed

lemma row_answer_sound:
  assumes i: "i < length (pt_rows (rs_table r))" "p = pt_rows (rs_table r) ! i" and ok: "row_refusal p = None"
    and d: "denotes (ft_nodes (pr_tree p)) (ft_root (pr_tree p)) e" "formed e"
    and s: "sound_spine r (pr_tree p) (pr_scope p) (ft_root (pr_tree p)) e s"
  shows "sound_row r i (row_answer p (Inr s))"
proof -
  have parsed: "pr_parsed p" using ok by (auto simp: row_refusal_def split: if_splits)
  have g: "grounded r i" by (rule groundedI) (use s i(2) in \<open>auto simp: row_visits_def Let_def sound_spine_def\<close>)
  have w: "whole (sp_core s)" using s by (simp add: sound_spine_def)
  have dim: "definition_dimension (row_answer p (Inr s)) = sp_dimension s"
    by (simp add: definition_dimension_def row_answer_def row_definition_def)
  have mean: "formula_means r v (pr_scope p) e (core_literal (sp_core s)) (sp_dimension s) (eval_root v (sp_core s))"
    if "by_address v" for v using s that by (simp add: sound_spine_def asLiteral_core)
  show ?thesis
  proof (cases "pr_scaleUnit p = []")
    case True
    then have c: "md_core (row_answer p (Inr s)) = sp_core s" by (simp add: row_answer_def scale_of_row_def row_definition_def)
    show ?thesis
      unfolding sound_row_def dim c using w g plain_row [OF i parsed d(1,2) True mean] by blast
  next
    case False
    then obtain rule where rule: "scaleRuleFor (pr_scaleUnit p) = Some rule"
      using ok by (auto simp: row_refusal_def scale_of_row_def split: if_splits)
    then have c: "md_core (row_answer p (Inr s)) = scaleAll (sp_core s) (snd rule)"
      using False by (simp add: row_answer_def scale_of_row_def row_definition_def)
    show ?thesis
      unfolding sound_row_def dim c scaled_whole(2) [OF w] scaled_whole(3) [OF w]
      using scaled_whole(1) [OF w] g scaled_row [OF i parsed d(1,2) False rule mean] by blast
  qed
qed

lemma publish_ok:
  assumes tok: "table_ok (rs_table r)" and ex: "exp_ok r m exp" and i: "i < length (pt_rows (rs_table r))"
    and st: "resolution_ok r st" and m: "card (coloured kWhite st) \<le> m"
  shows "\<exists>d st'. publish r exp i st = Some (d, st') \<and> advanced r st st' \<and> settled (pt_rows (rs_table r) ! i) d
    \<and> (md_published d \<longrightarrow> sound_row r i d)"
proof -
  define p where "p = pt_rows (rs_table r) ! i"
  show ?thesis
  proof (cases "row_refusal p")
    case (Some d)
    then have "\<not> md_published d" by (auto simp: row_refusal_def row_definition_def blank_definition_def split: if_splits)
    with Some st i show ?thesis by (auto simp: publish_def p_def settled_def intro: advanced_refl)
  next
    case None
    then have "pr_parsed p" by (auto simp: row_refusal_def split: if_splits)
    then obtain e where e: "fnodes_wf (ft_nodes (pr_tree p))" "denotes (ft_nodes (pr_tree p)) (ft_root (pr_tree p)) e"
      "value_expr e" "formed e" using tok i nth_mem [of i "pt_rows (rs_table r)"] unfolding table_ok_def p_def by blast
    have fuel: "2 * nat (ft_root (pr_tree p)) + 2 \<le> 2 * length (ft_nodes (pr_tree p))" using denotes_bounds [OF e(2)] by linarith
    from walk_ok [OF tok ex e(1,2,3,4) fuel st m, of "pr_scope p"] obtain a st' where
      a: "walk r exp (2 * length (ft_nodes (pr_tree p))) (pr_tree p) (ft_root (pr_tree p)) (pr_scope p) st = Some (a, st')"
      "advanced r st st'" "\<forall>s. a = Inr s \<longrightarrow> sound_spine r (pr_tree p) (pr_scope p) (ft_root (pr_tree p)) e s"
      by (rule walkedE)
    have "sound_row r i (row_answer p a)" if "md_published (row_answer p a)"
    proof (cases a)
      case (Inl er)
      with that show ?thesis by (simp add: row_answer_def row_definition_def blank_definition_def)
    next
      case (Inr s)
      with a(3) row_answer_sound [OF i p_def None e(2,4)] show ?thesis by blast
    qed
    moreover have "publish r exp i st = Some (row_answer p a, st')" using i None a(1) by (simp add: publish_def p_def [symmetric])
    ultimately show ?thesis using a(2) None unfolding settled_def p_def [symmetric] by blast
  qed
qed

lemma coloured_update:
  assumes "i < length (rn_colour st)"
  shows "coloured c (st\<lparr>rn_colour := (rn_colour st)[i := c'], rn_chain := ch\<rparr>)
    = (if c = c' then insert i (coloured c st) else coloured c st - {i})"
  using assms by (auto simp: coloured_def nth_list_update split: if_splits)

lemma coloured_rebuilt:
  "i < length (rn_colour st) \<Longrightarrow> coloured c \<lparr>rn_rows = rows, rn_colour = (rn_colour st)[i := c'], rn_chain = ch\<rparr>
    = (if c = c' then insert i (coloured c st) else coloured c st - {i})"
  by (auto simp: coloured_def nth_list_update split: if_splits)

lemma colours_differ [simp]: "kWhite \<noteq> kGrey" "kGrey \<noteq> kWhite" "kWhite \<noteq> kBlack" "kBlack \<noteq> kWhite" "kGrey \<noteq> kBlack"
    "kBlack \<noteq> kGrey"
  by (simp_all add: kWhite_def kGrey_def kBlack_def)

lemma coloured_disjoint: "i \<in> coloured c st \<Longrightarrow> c \<noteq> c' \<Longrightarrow> i \<notin> coloured c' st"
  by (simp add: coloured_def)

lemma resolveRow_ok:
  assumes tok: "table_ok (rs_table r)"
  shows "resolution_ok r st \<Longrightarrow> i \<in> coloured kWhite st \<Longrightarrow> card (coloured kWhite st) \<le> f \<Longrightarrow>
    \<exists>st'. resolveRow r f i st = Some st' \<and> advanced r st st' \<and> i \<in> coloured kBlack st'"
proof (induction f arbitrary: i st)
  case 0
  then show ?case by (metis card_0_eq empty_iff finite_coloured le_zero_eq)
next
  case (Suc f)
  let ?n = "length (pt_rows (rs_table r))"
  have len: "length (rn_rows st) = ?n" "length (rn_colour st) = ?n" using Suc.prems(1) by (simp_all add: resolution_ok_def)
  have i: "i < ?n" using Suc.prems(2) len by (simp add: coloured_def)
  define st0 where "st0 = st\<lparr>rn_colour := (rn_colour st)[i := kGrey], rn_chain := rn_chain st @ [pr_name (pt_rows (rs_table r) ! i)]\<rparr>"
  have col0: "coloured c st0 = (if c = kGrey then insert i (coloured c st) else coloured c st - {i})" for c
    unfolding st0_def by (rule coloured_update) (simp add: len i)
  have "resolution_ok r st0"
    using Suc.prems(1) i unfolding resolution_ok_def col0 by (auto simp: st0_def)
  moreover have "card (coloured kWhite st0) \<le> f"
    using Suc.prems(2,3) by (simp add: col0 card_Diff_singleton)
  moreover have "exp_ok r f (expand r (resolveRow r f))"
    by (rule expand_ok) (use Suc.IH in blast)
  ultimately obtain d st1 where d: "publish r (expand r (resolveRow r f)) i st0 = Some (d, st1)" "advanced r st0 st1"
    "settled (pt_rows (rs_table r) ! i) d" "md_published d \<longrightarrow> sound_row r i d"
    using publish_ok [OF tok _ i] by blast
  define st2 where "st2 = \<lparr>rn_rows = (rn_rows st1)[i := d], rn_colour = (rn_colour st1)[i := kBlack], rn_chain = butlast (rn_chain st1)\<rparr>"
  have ok1: "resolution_ok r st1" using d(2) by (rule advanced_ok)
  have len1: "length (rn_rows st1) = ?n" "length (rn_colour st1) = ?n" using ok1 by (simp_all add: resolution_ok_def)
  have col2: "coloured c st2 = (if c = kBlack then insert i (coloured c st1) else coloured c st1 - {i})" for c
    unfolding st2_def by (rule coloured_rebuilt) (simp add: len1 i)
  have rows2: "rn_rows st2 ! j = (if j = i then d else rn_rows st1 ! j)" for j
    by (simp add: st2_def nth_list_update len1 i)
  have len2: "length (rn_rows st2) = ?n" "length (rn_colour st2) = ?n" by (simp_all add: st2_def len1)
  have ok2: "resolution_ok r st2"
    using ok1 d(3,4) i unfolding resolution_ok_def col2 rows2 len2 len1 by auto
  have step: "rn_chain st1 = rn_chain st0" "coloured kGrey st1 = insert i (coloured kGrey st)"
    "coloured kWhite st1 \<subseteq> coloured kWhite st - {i}" "coloured kBlack st - {i} \<subseteq> coloured kBlack st1"
    using d(2) by (simp_all add: advanced_def col0)
  have "i \<notin> coloured kGrey st" "i \<notin> coloured kBlack st" using coloured_disjoint [OF Suc.prems(2)] by simp_all
  then have "advanced r st st2"
    unfolding advanced_def using ok2 step by (auto simp: col2) (simp add: st2_def step(1) st0_def)
  moreover have "resolveRow r (Suc f) i st = Some st2" using i len d(1) by (simp add: st0_def st2_def)
  moreover have "i \<in> coloured kBlack st2" by (simp add: col2)
  ultimately show ?case by blast
qed

lemma start_ok: "resolution_ok r (start_resolution (rs_table r))"
    "coloured kWhite (start_resolution (rs_table r)) = {..<length (pt_rows (rs_table r))}"
    "coloured kBlack (start_resolution (rs_table r)) = {}" "coloured kGrey (start_resolution (rs_table r)) = {}"
  by (auto simp: resolution_ok_def start_resolution_def coloured_def blank_definition_def)

lemma white_bound:
  assumes "resolution_ok r st"
  shows "card (coloured kWhite st) \<le> resolve_fuel (rs_table r)"
proof -
  have "coloured kWhite st \<subseteq> {..<length (pt_rows (rs_table r))}" using assms by (auto simp: coloured_def resolution_ok_def)
  from card_mono [OF _ this] show ?thesis by (simp add: resolve_fuel_def)
qed

lemma run_ok:
  assumes tok: "table_ok (rs_table r)"
  shows "resolution_ok r st \<Longrightarrow> coloured kGrey st = {} \<Longrightarrow> coloured kWhite st \<subseteq> set is \<Longrightarrow>
    set is \<subseteq> {..<length (pt_rows (rs_table r))} \<Longrightarrow>
    \<exists>st'. run_from r is st = Some st' \<and> resolution_ok r st' \<and> coloured kBlack st' = {..<length (pt_rows (rs_table r))}"
proof (induction "is" arbitrary: st)
  case Nil
  then show ?case by (auto simp: resolution_ok_def)
next
  case (Cons i xs)
  have len: "i < length (rn_colour st)" using Cons.prems(1,4) by (simp add: resolution_ok_def)
  show ?case
  proof (cases "rn_colour st ! i = kWhite")
    case True
    then have "i \<in> coloured kWhite st" using len by (simp add: coloured_def)
    from resolveRow_ok [OF tok Cons.prems(1) this white_bound [OF Cons.prems(1)]] obtain st1 where
      st1: "resolveRow r (resolve_fuel (rs_table r)) i st = Some st1" "advanced r st st1" "i \<in> coloured kBlack st1" by blast
    have "coloured kWhite st1 \<subseteq> set xs"
      using st1(2,3) Cons.prems(3) coloured_disjoint [of i kBlack st1 kWhite] by (auto simp: advanced_def)
    moreover have "coloured kGrey st1 = {}" using st1(2) Cons.prems(2) by (simp add: advanced_def)
    ultimately show ?thesis
      using Cons.IH [OF advanced_ok [OF st1(2)]] Cons.prems(4) True by (simp add: st1(1))
  next
    case False
    then have "i \<notin> coloured kWhite st" by (simp add: coloured_def)
    with Cons.prems have "coloured kWhite st \<subseteq> set xs" by auto
    with Cons.IH [OF Cons.prems(1,2)] Cons.prems(4) False show ?thesis by simp
  qed
qed

lemma metricRows_ok:
  assumes tok: "table_ok (rs_table r)"
  obtains rows where "metricRows r = Some rows" and "length rows = length (pt_rows (rs_table r))"
    and "\<And>i. i < length rows \<Longrightarrow> settled (pt_rows (rs_table r) ! i) (rows ! i)"
    and "\<And>i. i < length rows \<Longrightarrow> md_published (rows ! i) \<Longrightarrow> sound_row r i (rows ! i)"
proof -
  let ?n = "length (pt_rows (rs_table r))"
  have "coloured kWhite (start_resolution (rs_table r)) \<subseteq> set [0..<?n]" "set [0..<?n] \<subseteq> {..<?n}"
    by (auto simp: start_ok)
  from run_ok [OF tok start_ok(1,4) this] obtain st where st: "run_from r [0..<?n] (start_resolution (rs_table r)) = Some st"
    "resolution_ok r st" "coloured kBlack st = {..<?n}" by blast
  show thesis
  proof (rule that [of "rn_rows st"])
    show "metricRows r = Some (rn_rows st)" by (simp add: metricRows_def st(1))
    show "length (rn_rows st) = ?n" using st(2) by (simp add: resolution_ok_def)
    show "settled (pt_rows (rs_table r) ! i) (rn_rows st ! i)" if "i < length (rn_rows st)" for i
      using st(2,3) that by (simp add: resolution_ok_def)
    show "sound_row r i (rn_rows st ! i)" if "i < length (rn_rows st)" "md_published (rn_rows st ! i)" for i
      using st(2) that by (simp add: resolution_ok_def)
  qed
qed

subsection \<open>Parsed tables\<close>

lemma foldl_binary_expr:
  "value_expr e \<Longrightarrow> list_all value_expr es \<Longrightarrow> isArithmetic k \<Longrightarrow> value_expr (foldl (F_binary k) e es)"
  "formed e \<Longrightarrow> list_all formed es \<Longrightarrow> formed (foldl (F_binary k) e es)"
  by (induction es arbitrary: e) auto

lemma call_value_expr:
  assumes "list_all value_expr es" and "list_all formed es" and "call_value name es = Some e"
  shows "value_expr e \<and> formed e"
proof (cases "name = ''has_event'' \<or> name = ''source_count''")
  case True
  with assms(3) show ?thesis by (auto simp: call_value_def split: list.splits fexpr.splits if_splits)
next
  case False
  then have len: "2 \<le> length es" and e: "e = F_binary DIVIDE (es ! 0) (F_binary MAXIMUM (es ! 1) (F_number one64))
      \<or> e = foldl (F_binary MINIMUM) (hd es) (tl es) \<or> e = foldl (F_binary MAXIMUM) (hd es) (tl es)"
    using assms(3) by (auto simp: call_value_def split: if_splits)
  obtain a b more where es: "es = a # b # more" using len by (metis Suc_le_length_iff numeral_2_eq_2)
  from e show ?thesis
    using assms(1,2) foldl_binary_expr [of "F_binary MINIMUM a b" more MINIMUM] foldl_binary_expr [of "F_binary MAXIMUM a b" more MAXIMUM]
    by (auto simp: es isArithmetic_def)
qed

lemma spells_expr:
  "spells L ts e \<Longrightarrow> (L \<noteq> Test \<longrightarrow> value_expr e) \<and> formed e"
  "spells_args ts es \<Longrightarrow> list_all value_expr es \<and> list_all formed es"
proof (induction rule: spells_spells_args.inducts)
  case (called h l ts es t e)
  then show ?case using call_value_expr by blast
qed (auto simp: isArithmetic_def)

lemma parsed_tree_ok:
  assumes "parseFormula s = Some (Inr tree)"
  shows "fnodes_wf (ft_nodes tree) \<and> (\<exists>e. denotes (ft_nodes tree) (ft_root tree) e \<and> value_expr e \<and> formed e)"
proof -
  from assms obtain ts where sc: "scan_tokens s 0 = Inr ts" and pa: "parser_parse ts = Some (Inr tree)"
    by (auto simp: parseFormula_def split: sum.splits)
  from parser_parse_holds [OF scan_tokens_ok [OF sc]] pa spells_expr(1) show ?thesis by fastforce
qed

lemma append_row_ok:
  assumes t: "table_ok t \<and> om_wf (pt_index t)"
    and p: "pr_parsed p \<longrightarrow> fnodes_wf (ft_nodes (pr_tree p))
      \<and> (\<exists>e. denotes (ft_nodes (pr_tree p)) (ft_root (pr_tree p)) e \<and> value_expr e \<and> formed e)"
  shows "table_ok (append_row p t) \<and> om_wf (pt_index (append_row p t))"
proof (cases "om_find (pt_index t) (pr_name p)")
  case None
  have idx: "pt_index (append_row p t) = om_emplace (pr_name p) (length (pt_rows t)) (pt_index t)"
    and rows: "pt_rows (append_row p t) = pt_rows t @ [p]" using None by (simp_all add: append_row_def)
  show ?thesis
    using t p unfolding table_ok_def idx rows
    by (auto simp: om_wf_emplace om_find_emplace None less_SucI split: if_splits)
next
  case (Some kept)
  then show ?thesis using t by (auto simp: append_row_def collided_row_def table_ok_def less_SucI)
qed

lemma parse_rows_ok:
  "table_ok t \<and> om_wf (pt_index t) \<Longrightarrow> parse_rows_loop es t = Some t' \<Longrightarrow> table_ok t'"
proof (induction es arbitrary: t)
  case (Cons e es)
  show ?case
  proof (cases "pe_metricName e = []")
    case True
    with Cons show ?thesis by simp
  next
    case False
    with Cons.prems(2) obtain answer where a: "parseFormula (pe_metricExpr e) = Some answer"
      "parse_rows_loop es (append_row (parsed_row e answer) t) = Some t'" by (auto split: option.splits)
    have "fnodes_wf (ft_nodes (pr_tree (parsed_row e answer)))
      \<and> (\<exists>f. denotes (ft_nodes (pr_tree (parsed_row e answer))) (ft_root (pr_tree (parsed_row e answer))) f \<and> value_expr f \<and> formed f)"
      if "pr_parsed (parsed_row e answer)"
    proof -
      obtain tree where tree: "answer = Inr tree" "pr_tree (parsed_row e answer) = tree"
        using \<open>pr_parsed (parsed_row e answer)\<close> by (cases answer) (auto simp: parsed_row_def Let_def)
      with parsed_tree_ok a(1) show ?thesis by simp
    qed
    then have "pr_parsed (parsed_row e answer) \<longrightarrow> fnodes_wf (ft_nodes (pr_tree (parsed_row e answer)))
      \<and> (\<exists>f. denotes (ft_nodes (pr_tree (parsed_row e answer))) (ft_root (pr_tree (parsed_row e answer))) f \<and> value_expr f \<and> formed f)"
      by (rule impI)
    from append_row_ok [OF Cons.prems(1) this] a(2) Cons.IH show ?thesis by blast
  qed
qed simp

lemma parseMetricRows_ok: "parseMetricRows entries = Some t \<Longrightarrow> table_ok t"
  unfolding parseMetricRows_def by (erule parse_rows_ok [rotated]) (simp add: table_ok_def)

text \<open>What the index and the rows say of the entries that were read.\<close>

definition first_entry :: "pmu_table_entry list \<Rightarrow> string \<Rightarrow> pmu_table_entry \<Rightarrow> bool" where
  "first_entry es name e \<longleftrightarrow>
     (\<exists>pre post. es = pre @ e # post \<and> pe_metricName e = name \<and> name \<notin> pe_metricName ` set pre)"

definition indexed :: "pmu_table_entry list \<Rightarrow> parsed_metric_table \<Rightarrow> bool" where
  "indexed es t \<longleftrightarrow>
     om_wf (pt_index t)
     \<and> map pr_name (pt_rows t) = map pe_metricName (filter (\<lambda>e. pe_metricName e \<noteq> []) es)
     \<and> (\<forall>name. om_find (pt_index t) name = None \<longleftrightarrow> name = [] \<or> name \<notin> pe_metricName ` set es)
     \<and> (\<forall>name i. om_find (pt_index t) name = Some i \<longrightarrow> i < length (pt_rows t)
          \<and> (\<exists>e answer. first_entry es name e \<and> parseFormula (pe_metricExpr e) = Some answer
                \<and> pt_rows t ! i = parsed_row e answer))"

lemma first_entry_snoc: "first_entry es name e \<Longrightarrow> first_entry (es @ [x]) name e"
  unfolding first_entry_def by force

lemma pr_name_parsed [simp]: "pr_name (parsed_row e answer) = pe_metricName e"
  by (simp add: parsed_row_def Let_def split: sum.split)

lemma append_row_indexed:
  assumes t: "indexed es t" and a: "parseFormula (pe_metricExpr e) = Some answer" and ne: "pe_metricName e \<noteq> []"
  shows "indexed (es @ [e]) (append_row (parsed_row e answer) t)"
proof (cases "om_find (pt_index t) (pe_metricName e)")
  case None
  let ?n = "pe_metricName e"
  have fresh: "?n \<notin> pe_metricName ` set es" using t None ne by (simp add: indexed_def)
  have idx: "pt_index (append_row (parsed_row e answer) t) = om_emplace ?n (length (pt_rows t)) (pt_index t)"
    and rows: "pt_rows (append_row (parsed_row e answer) t) = pt_rows t @ [parsed_row e answer]"
    using None by (simp_all add: append_row_def)
  have wf: "om_wf (pt_index t)" using t by (simp add: indexed_def)
  have find: "om_find (om_emplace ?n (length (pt_rows t)) (pt_index t)) name
      = (if name = ?n then Some (length (pt_rows t)) else om_find (pt_index t) name)" for name
    by (simp add: om_find_emplace [OF wf] None)
  have mine: "first_entry (es @ [e]) ?n e" using fresh unfolding first_entry_def by blast
  show ?thesis
    unfolding indexed_def idx rows find
  proof (intro conjI allI impI)
    show "om_wf (om_emplace ?n (length (pt_rows t)) (pt_index t))" using t by (simp add: indexed_def om_wf_emplace)
    show "map pr_name (pt_rows t @ [parsed_row e answer]) = map pe_metricName (filter (\<lambda>e. pe_metricName e \<noteq> []) (es @ [e]))"
      using t ne by (simp add: indexed_def)
    show "((if name = ?n then Some (length (pt_rows t)) else om_find (pt_index t) name) = None)
        = (name = [] \<or> name \<notin> pe_metricName ` set (es @ [e]))" for name
      using t ne by (auto simp: indexed_def)
    fix name i
    assume i: "(if name = ?n then Some (length (pt_rows t)) else om_find (pt_index t) name) = Some i"
    have "i < length (pt_rows t @ [parsed_row e answer]) \<and> (\<exists>f answer'. first_entry (es @ [e]) name f
        \<and> parseFormula (pe_metricExpr f) = Some answer' \<and> (pt_rows t @ [parsed_row e answer]) ! i = parsed_row f answer')"
    proof (cases "name = ?n")
      case True
      with i mine a show ?thesis by auto
    next
      case False
      with i t obtain f answer' where "i < length (pt_rows t)" "first_entry es name f" "parseFormula (pe_metricExpr f) = Some answer'"
        "pt_rows t ! i = parsed_row f answer'" unfolding indexed_def by metis
      then show ?thesis using first_entry_snoc [of es name f e] by (simp add: nth_append) blast
    qed
    then show "i < length (pt_rows t @ [parsed_row e answer])"
      and "\<exists>f answer'. first_entry (es @ [e]) name f \<and> parseFormula (pe_metricExpr f) = Some answer'
        \<and> (pt_rows t @ [parsed_row e answer]) ! i = parsed_row f answer'" by blast+
  qed
next
  case (Some kept)
  define q where "q = collided_row kept (parsed_row e answer)"
  have q: "pr_name q = pe_metricName e" "append_row (parsed_row e answer) t = t\<lparr>pt_rows := pt_rows t @ [q]\<rparr>"
    using Some by (simp_all add: append_row_def q_def) (simp add: collided_row_def)
  have held: "pe_metricName e \<in> pe_metricName ` set es" using t Some ne by (metis indexed_def option.distinct(1))
  have old: "i < length (pt_rows t) \<and> (\<exists>f answer. first_entry es name f \<and> parseFormula (pe_metricExpr f) = Some answer
      \<and> pt_rows t ! i = parsed_row f answer)" if "om_find (pt_index t) name = Some i" for name i
    using t that unfolding indexed_def by blast
  show ?thesis
    unfolding indexed_def q(2)
  proof (intro conjI allI impI)
    show "om_wf (pt_index (t\<lparr>pt_rows := pt_rows t @ [q]\<rparr>))" using t by (simp add: indexed_def)
    show "map pr_name (pt_rows (t\<lparr>pt_rows := pt_rows t @ [q]\<rparr>)) = map pe_metricName (filter (\<lambda>e. pe_metricName e \<noteq> []) (es @ [e]))"
      using t ne q(1) by (simp add: indexed_def)
    show "(om_find (pt_index (t\<lparr>pt_rows := pt_rows t @ [q]\<rparr>)) name = None) = (name = [] \<or> name \<notin> pe_metricName ` set (es @ [e]))" for name
      using t held by (auto simp: indexed_def)
    fix name i
    assume "om_find (pt_index (t\<lparr>pt_rows := pt_rows t @ [q]\<rparr>)) name = Some i"
    then have "om_find (pt_index t) name = Some i" by simp
    from old [OF this] obtain f answer where f: "i < length (pt_rows t)" "first_entry es name f"
      "parseFormula (pe_metricExpr f) = Some answer" "pt_rows t ! i = parsed_row f answer" by blast
    show "i < length (pt_rows (t\<lparr>pt_rows := pt_rows t @ [q]\<rparr>))" using f(1) by simp
    show "\<exists>f answer. first_entry (es @ [e]) name f \<and> parseFormula (pe_metricExpr f) = Some answer
        \<and> pt_rows (t\<lparr>pt_rows := pt_rows t @ [q]\<rparr>) ! i = parsed_row f answer"
      using f(1,3,4) first_entry_snoc [OF f(2), of e] by (simp add: nth_append) blast
  qed
qed

lemma skip_indexed:
  assumes t: "indexed es t" and e: "pe_metricName e = []"
  shows "indexed (es @ [e]) t"
  unfolding indexed_def
proof (intro conjI allI impI)
  show "om_wf (pt_index t)" "map pr_name (pt_rows t) = map pe_metricName (filter (\<lambda>e. pe_metricName e \<noteq> []) (es @ [e]))"
    "(om_find (pt_index t) name = None) = (name = [] \<or> name \<notin> pe_metricName ` set (es @ [e]))" for name
    using t e by (auto simp: indexed_def)
  fix name i
  assume i: "om_find (pt_index t) name = Some i"
  show "i < length (pt_rows t)" using t i by (simp add: indexed_def)
  from t i obtain f answer where "first_entry es name f" "parseFormula (pe_metricExpr f) = Some answer"
    "pt_rows t ! i = parsed_row f answer" unfolding indexed_def by blast
  then show "\<exists>f answer. first_entry (es @ [e]) name f \<and> parseFormula (pe_metricExpr f) = Some answer
      \<and> pt_rows t ! i = parsed_row f answer" using first_entry_snoc by blast
qed

lemma parse_rows_indexed: "indexed seen t \<Longrightarrow> parse_rows_loop es t = Some t' \<Longrightarrow> indexed (seen @ es) t'"
proof (induction es arbitrary: seen t)
  case (Cons e es)
  show ?case
  proof (cases "pe_metricName e = []")
    case True
    with Cons.IH [OF skip_indexed [OF Cons.prems(1)]] Cons.prems(2) show ?thesis by simp
  next
    case False
    with Cons.prems(2) obtain answer where a: "parseFormula (pe_metricExpr e) = Some answer"
      "parse_rows_loop es (append_row (parsed_row e answer) t) = Some t'" by (auto split: option.splits)
    from Cons.IH [OF append_row_indexed [OF Cons.prems(1) a(1) False] a(2)] show ?thesis by simp
  qed
qed simp

lemma parseMetricRows_indexed: "parseMetricRows entries = Some t \<Longrightarrow> indexed entries t"
  using parse_rows_indexed [of "[]" "\<lparr>pt_rows = [], pt_index = []\<rparr>" entries t]
  by (simp add: parseMetricRows_def indexed_def)

lemma parse_rows_return:
  "\<forall>e \<in> set es. backslash \<notin> set (pe_metricExpr e) \<Longrightarrow> parse_rows_loop es t \<noteq> None"
proof (induction es arbitrary: t)
  case (Cons e es)
  have "parseFormula (pe_metricExpr e) \<noteq> None" using Cons.prems parse_plain by simp
  with Cons show ?case by auto
qed simp

end
