(* ===== verification/Metrics.thy ===== *)
theory Metrics
  imports Resolve_Facts
begin

text \<open>
  What a caller of the metric surface may rely on: the answer to a metric name is the formula of the first
  table row of that name, every row of a table is listed, no published row reaches a cycle, a scope label
  reaches the devices of its class, and the coverage of a core is what one sibling list says.
\<close>

subsection \<open>A node denotes one expression\<close>

lemma named_node_eq: "named_node k sp rf = named_node k' sp' rf' \<longleftrightarrow> k = k' \<and> sp = sp' \<and> rf = rf'"
  by (cases rf; cases rf') (auto simp: named_node_def blank_node_def)

lemma node_eqs:
  "(blank_node k)\<lparr>fn_left := l, fn_right := r, fn_third := t\<rparr> = (blank_node k')\<lparr>fn_left := l', fn_right := r', fn_third := t'\<rparr>
    \<longleftrightarrow> k = k' \<and> l = l' \<and> r = r' \<and> t = t'"
  "(blank_node CONSTANT)\<lparr>fn_value := x\<rparr> = (blank_node CONSTANT)\<lparr>fn_value := y\<rparr> \<longleftrightarrow> x = y"
  "(blank_node HOST_CONSTANT)\<lparr>fn_spelling := n\<rparr> = (blank_node HOST_CONSTANT)\<lparr>fn_spelling := m\<rparr> \<longleftrightarrow> n = m"
  by (auto simp: blank_node_def)

lemma node_is_unique: "node_is ns i n \<Longrightarrow> node_is ns i m \<Longrightarrow> n = m"
  by (simp add: node_is_def)

lemma node_is_kind: "node_is ns i n \<Longrightarrow> node_is ns i m \<Longrightarrow> fn_kind n = fn_kind m"
  using node_is_unique by blast

fun head_kind :: "fexpr \<Rightarrow> formula_kind" where
  "head_kind (F_number v) = CONSTANT"
| "head_kind (F_host name) = HOST_CONSTANT"
| "head_kind (F_named k sp rf) = k"
| "head_kind (F_binary k a b) = k"
| "head_kind (F_conditional a t b) = CONDITIONAL"

lemma denotes_head: "denotes ns i e \<Longrightarrow> \<exists>n. node_is ns i n \<and> fn_kind n = head_kind e"
  by (cases e) fastforce+

lemma same_head: "denotes ns i e \<Longrightarrow> denotes ns i f \<Longrightarrow> head_kind f = head_kind e"
  by (metis denotes_head node_is_kind)

lemma denotes_unique:
  "denotes ns i e \<Longrightarrow> formed e \<Longrightarrow> denotes ns i f \<Longrightarrow> formed f \<Longrightarrow> e = f"
proof (induction e arbitrary: i f)
  case (F_number v)
  from same_head [OF F_number.prems(1,3)] have k: "head_kind f = CONSTANT" by simp
  then obtain w where f: "f = F_number w" using F_number.prems(3,4) by (cases f) auto
  from node_is_unique [OF F_number.prems(1,3) [unfolded f denotes.simps]] show ?case by (simp only: f node_eqs)
next
  case (F_host name)
  from same_head [OF F_host.prems(1,3)] have k: "head_kind f = HOST_CONSTANT" by simp
  then obtain w where f: "f = F_host w" using F_host.prems(3,4) by (cases f) auto
  from node_is_unique [OF F_host.prems(1,3) [unfolded f denotes.simps]] show ?case by (simp only: f node_eqs)
next
  case (F_named k sp rf)
  from same_head [OF F_named.prems(1,3)] have "head_kind f = k" by simp
  then obtain sp' rf' where f: "f = F_named k sp' rf'" using F_named.prems by (cases f) auto
  from node_is_unique [OF F_named.prems(1,3) [unfolded f denotes.simps]] show ?case by (simp add: f named_node_eq)
next
  case (F_binary k a b)
  from same_head [OF F_binary.prems(1,3)] have "head_kind f = k" by simp
  then obtain a' b' where f: "f = F_binary k a' b'" using F_binary.prems by (cases f) auto
  from F_binary.prems(1) obtain l r where n: "node_is ns i ((blank_node k)\<lparr>fn_left := l, fn_right := r, fn_third := - 1\<rparr>)"
    and ab: "denotes ns l a" "denotes ns r b" by auto
  from F_binary.prems(3) obtain l' r' where n': "node_is ns i ((blank_node k)\<lparr>fn_left := l', fn_right := r', fn_third := - 1\<rparr>)"
    and ab': "denotes ns l' a'" "denotes ns r' b'" by (auto simp: f)
  have "l = l'" "r = r'" using node_is_unique [OF n n'] by (simp_all only: node_eqs)
  with F_binary.IH ab ab' F_binary.prems(2,4) show ?case by (auto simp: f)
next
  case (F_conditional a t b)
  from same_head [OF F_conditional.prems(1,3)] have "head_kind f = CONDITIONAL" by simp
  then obtain a' t' b' where f: "f = F_conditional a' t' b'" using F_conditional.prems by (cases f) auto
  from F_conditional.prems(1) obtain l r w where n: "node_is ns i ((blank_node CONDITIONAL)\<lparr>fn_left := l, fn_right := r, fn_third := w\<rparr>)"
    and ab: "denotes ns l a" "denotes ns r t" "denotes ns w b" by auto
  from F_conditional.prems(3) obtain l' r' w' where n': "node_is ns i ((blank_node CONDITIONAL)\<lparr>fn_left := l', fn_right := r', fn_third := w'\<rparr>)"
    and ab': "denotes ns l' a'" "denotes ns r' t'" "denotes ns w' b'" by (auto simp: f)
  have "l = l'" "r = r'" "w = w'" using node_is_unique [OF n n'] by (simp_all only: node_eqs)
  with F_conditional.IH ab ab' F_conditional.prems(2,4) show ?case by (auto simp: f)
qed

subsection \<open>The answer to a metric name\<close>

inductive_cases row_meansE: "row_means r v i l d x"

definition resolver_of :: "table_loader \<Rightarrow> metric_host \<Rightarrow> parsed_metric_table \<Rightarrow> resolver" where
  "resolver_of load h t = \<lparr>rs_table = t, rs_events = load (mh_directory h), rs_host = h\<rparr>"

text \<open>The factor the table's scale text stands for; a row without one has none.\<close>

definition scaled_value :: "string \<Rightarrow> binary64 option \<Rightarrow> binary64 option" where
  "scaled_value scaleUnit x =
     (if scaleUnit = [] then x
      else case scaleRuleFor scaleUnit of None \<Rightarrow> None | Some rule \<Rightarrow> map_option (dmul (snd rule)) x)"

lemma parsed_row_Inr:
  "pr_tree (parsed_row e (Inr tree)) = tree" "pr_scope (parsed_row e answer) = pe_unit e"
  "pr_scaleUnit (parsed_row e answer) = pe_scaleUnit e" "\<not> pr_parsed (parsed_row e (Inl er))"
  by (simp_all add: parsed_row_def Let_def split: sum.split)

lemma row_means_entry:
  assumes rm: "row_means r v i l d x" and p: "pt_rows (rs_table r) ! i = parsed_row e answer"
    and a: "parseFormula (pe_metricExpr e) = Some answer"
  obtains tree ts stop f m y where "parseFormula (pe_metricExpr e) = Some (Inr tree)"
    and "scan_tokens (pe_metricExpr e) 0 = Inr (ts @ [stop])" and "sc_kind stop = END_TEXT" and "spells Cond ts f"
    and "denotes (ft_nodes tree) (ft_root tree) f"
    and "formula_means r v (pe_unit e) f m d y" and "x = scaled_value (pe_scaleUnit e) y"
proof -
  from rm obtain f m y where f: "pr_parsed (parsed_row e answer)" "formed f"
    "denotes (ft_nodes (pr_tree (parsed_row e answer))) (ft_root (pr_tree (parsed_row e answer))) f"
    "formula_means r v (pe_unit e) f m d y" "x = scaled_value (pe_scaleUnit e) y"
    by (rule row_meansE) (auto simp: p parsed_row_Inr scaled_value_def)
  from f(1) obtain tree where tree: "answer = Inr tree" by (cases answer) (simp_all add: parsed_row_Inr)
  from parse_spells [OF a [unfolded tree]] obtain ts stop g where g: "scan_tokens (pe_metricExpr e) 0 = Inr (ts @ [stop])"
    "sc_kind stop = END_TEXT" "spells Cond ts g" "denotes (ft_nodes tree) (ft_root tree) g" by blast
  have "g = f" using denotes_unique [OF g(4) _ _ f(2)] spells_expr(1) [OF g(3)] f(3) by (simp add: tree parsed_row_Inr)
  with g f a tree that show thesis by blast
qed

lemma host_answer:
  assumes "metricDefinitionOnHost load h name = Some (Inr d)"
  obtains t i rows e answer where "parseMetricRows (load (mh_directory h)) = Some t"
    and "metricRows (resolver_of load h t) = Some rows" and "i < length rows" and "d = rows ! i" and "md_published d"
    and "first_entry (load (mh_directory h)) name e" and "parseFormula (pe_metricExpr e) = Some answer"
    and "pt_rows t ! i = parsed_row e answer"
    and "sound_row (resolver_of load h t) i d"
proof -
  from assms obtain t rows where t: "parseMetricRows (load (mh_directory h)) = Some t"
    and rows: "metricRows (resolver_of load h t) = Some rows"
    and d: "metricDefinitionIn \<lparr>rt_rows = rows, rt_index = pt_index t\<rparr> name = Some (Inr d)"
    by (auto simp: metricDefinitionOnHost_def resolvedMetricTable_def resolver_of_def bind_eq_Some_conv split: if_splits option.splits)
  from d obtain i where i: "om_find (pt_index t) name = Some i" "i < length rows" "d = rows ! i" "md_published d"
    by (auto simp: metricDefinitionIn_def definition_answer_def split: option.splits if_splits)
  obtain e answer where e: "first_entry (load (mh_directory h)) name e" "parseFormula (pe_metricExpr e) = Some answer"
    "pt_rows t ! i = parsed_row e answer" using parseMetricRows_indexed [OF t] i(1) unfolding indexed_def by blast
  have tok: "table_ok (rs_table (resolver_of load h t))" using parseMetricRows_ok [OF t] by (simp add: resolver_of_def)
  have "sound_row (resolver_of load h t) i d"
    by (rule metricRows_ok [OF tok]) (use rows i in auto)
  with t rows i e that show thesis by blast
qed

text \<open>
  C1. A metric name is answered by its formula.  When the lookup of a name answers a view, the first row of
  the event table that carries the name has a formula text whose tokens spell an expression, and the spine
  of the view, under any valuation of the leaves by their address, evaluates to the meaning of that
  expression on the host, with the factor of the row's scale text applied: events are read where the scope
  reaches them, host facts and the arm of a conditional are settled, and a reference to another metric
  stands for that metric.
\<close>

theorem named_metric_is_its_formula:
  assumes "metricByName load h name = Some (Inr view)" and "by_address v"
  shows "\<exists>t e ts stop f l d x. parseMetricRows (load (mh_directory h)) = Some t
      \<and> first_entry (load (mh_directory h)) name e
      \<and> scan_tokens (pe_metricExpr e) 0 = Inr (ts @ [stop]) \<and> sc_kind stop = END_TEXT \<and> spells Cond ts f
      \<and> formula_means (resolver_of load h t) v (pe_unit e) f l d x
      \<and> spine_wf (mv_expression view) \<and> eval_root v (mv_expression view) = scaled_value (pe_scaleUnit e) x"
proof -
  from assms(1) obtain ans where ans: "metricDefinitionOnHost load h name = Some ans" "metricViewResponse ans = Inr view"
    unfolding metricByName_def by blast
  then obtain d where d: "metricDefinitionOnHost load h name = Some (Inr d)" and view: "mv_expression view = md_core d"
    by (cases ans) (auto simp: metricViewResponse_def)
  from d obtain t i rows e answer where t: "parseMetricRows (load (mh_directory h)) = Some t"
    and e: "first_entry (load (mh_directory h)) name e" "parseFormula (pe_metricExpr e) = Some answer" "pt_rows t ! i = parsed_row e answer"
    and sound: "sound_row (resolver_of load h t) i d" by (rule host_answer)
  from sound assms(2) have rm: "row_means (resolver_of load h t) v i (core_literal (md_core d)) (definition_dimension d) (eval_root v (md_core d))"
    and wf: "spine_wf (md_core d)" by (simp_all add: sound_row_def whole_def)
  have "pt_rows (rs_table (resolver_of load h t)) ! i = parsed_row e answer" using e(3) by (simp add: resolver_of_def)
  from rm this e(2) obtain tree ts stop f m y where spelled: "scan_tokens (pe_metricExpr e) 0 = Inr (ts @ [stop])"
    "sc_kind stop = END_TEXT" "spells Cond ts f"
    and means: "formula_means (resolver_of load h t) v (pe_unit e) f m (definition_dimension d) y"
      "eval_root v (mv_expression view) = scaled_value (pe_scaleUnit e) y"
    unfolding view by (rule row_means_entry)
  have "spine_wf (mv_expression view)" using wf by (simp add: view)
  with t e(1) spelled means show ?thesis by blast
qed

text \<open>Every row of a table takes part in the listing under its own name, in table order.\<close>

lemma settled_name: "settled p d \<Longrightarrow> md_name d = pr_name p \<and> md_group d = pr_group p \<and> md_unit d = pr_scaleUnit p
    \<and> md_description d = pr_description p \<and> md_threshold d = pr_threshold p"
  unfolding settled_def
proof (elim disjE conjE exE)
  fix answer
  assume "d = row_answer p answer"
  then show ?thesis by (cases answer) (simp_all add: row_answer_def row_definition_def)
qed (auto simp: row_refusal_def row_definition_def split: if_splits)

lemma host_rows:
  assumes "parseMetricRows (load (mh_directory h)) = Some t"
  obtains rows where "metricRows (resolver_of load h t) = Some rows" and "length rows = length (pt_rows t)"
    and "\<forall>i < length rows. settled (pt_rows t ! i) (rows ! i)"
    and "\<forall>i < length rows. md_published (rows ! i) \<longrightarrow> sound_row (resolver_of load h t) i (rows ! i)"
proof -
  have tok: "table_ok (rs_table (resolver_of load h t))" using parseMetricRows_ok [OF assms] by (simp add: resolver_of_def)
  have table: "rs_table (resolver_of load h t) = t" by (simp add: resolver_of_def)
  show thesis by (rule metricRows_ok [OF tok]) (use that in \<open>auto simp: table\<close>)
qed

text \<open>
  The listing of a host accounts for every metric row of its table: when no formula of the directory
  spells a backslash, the resolution of the whole table returns, and the listing names the metric rows of
  the table one by one in table order, with the group, unit, description and threshold text of each.
\<close>

theorem every_metric_row_is_listed:
  assumes "\<forall>e \<in> set (load (mh_directory h)). backslash \<notin> set (pe_metricExpr e)" and "mh_directory h \<noteq> []"
  shows "\<exists>ls. metricListingsOnHost load h = Some ls
      \<and> map ml_name ls = map pe_metricName (filter (\<lambda>e. pe_metricName e \<noteq> []) (load (mh_directory h)))"
proof -
  obtain t where t: "parseMetricRows (load (mh_directory h)) = Some t"
    using parse_rows_return [OF assms(1)] unfolding parseMetricRows_def by blast
  from t obtain rows where rows: "metricRows (resolver_of load h t) = Some rows" "length rows = length (pt_rows t)"
    and set: "\<forall>i < length rows. settled (pt_rows t ! i) (rows ! i)" by (rule host_rows)
  have names: "map md_name rows = map pr_name (pt_rows t)"
    by (rule nth_equalityI) (use rows(2) set settled_name in auto)
  have "metricListingsOnHost load h = Some (map listing_of rows)"
    using assms(2) t rows(1) by (simp add: metricListingsOnHost_def metricRowsOnHost_def resolvedMetricTable_def resolver_of_def)
  moreover have "map ml_name (map listing_of rows) = map md_name rows" by (simp add: listing_of_def)
  ultimately show ?thesis using names parseMetricRows_indexed [OF t] by (simp add: indexed_def)
qed

text \<open>
  C10. A metric that reaches itself is refused: no row of a resolved table whose walk visits, through
  references to other metrics that conditionals leave in force, a row on a cycle of such references is
  published.
\<close>

theorem cyclic_metrics_are_refused:
  assumes "parseMetricRows (load (mh_directory h)) = Some t" and "metricRows (resolver_of load h t) = Some rows"
    and "i < length rows" and "(row_visits (resolver_of load h t))\<^sup>*\<^sup>* i j" and "(row_visits (resolver_of load h t))\<^sup>+\<^sup>+ j j"
  shows "\<not> md_published (rows ! i)"
proof
  assume "md_published (rows ! i)"
  with assms(1-3) have "grounded (resolver_of load h t) i"
    by (elim host_rows) (auto simp: sound_row_def)
  with assms(4) have "grounded (resolver_of load h t) j"
    by (induction rule: rtranclp_induct) (auto simp: grounded_def intro: accp_downward)
  with grounded_acyclic assms(5) show False by blast
qed

subsection \<open>Concrete tables\<close>

definition table_entry :: "string \<Rightarrow> string \<Rightarrow> pmu_table_entry" where
  "table_entry name expr = \<lparr>pe_name = [], pe_description = [], pe_unit = [], pe_fixedCounter = - 1, pe_fields = [],
     pe_metricName = name, pe_metricExpr = expr, pe_scaleUnit = [], pe_group = [], pe_threshold = [], pe_fileName = []\<rparr>"

definition demo_host :: metric_host where
  "demo_host = \<lparr>mh_system = example_tree, mh_directory = ''skylake'', mh_cpu = 0, mh_files = (\<lambda>path. None)\<rparr>"

definition ratio_table :: table_loader where
  "ratio_table directory = [table_entry ''ratio'' ''cycles / cycles'']"

definition plain_reference :: "string \<Rightarrow> reference" where
  "plain_reference event = \<lparr>rf_device = [], rf_event = event, rf_modifier = [], rf_privilege = []\<rparr>"

lemma scan_ratio:
  "scan_tokens ''cycles / cycles'' 0 = Inr [(plain_token REFERENCE_TEXT 0)\<lparr>sc_text := ''cycles''\<rparr>, plain_token DIVIDED 7,
     (plain_token REFERENCE_TEXT 9)\<lparr>sc_text := ''cycles''\<rparr>, plain_token END_TEXT 15]"
  by (simp add: scan_tokens.simps scanReferenceEnd.simps isReferenceChar_def is_alnum_def is_alpha_def is_upper_def
      is_lower_def is_digit_def is_space_def operatorKind_def cons_token_def word_token_def substr_def backslash_def eval_nat_numeral)

definition ratio_tree :: formula_tree where
  "ratio_tree = \<lparr>ft_nodes =
     [named_node REFERENCE ''cycles'' (plain_reference ''cycles''),
      named_node REFERENCE ''cycles'' (plain_reference ''cycles''),
      (blank_node DIVIDE)\<lparr>fn_left := 0, fn_right := 1\<rparr>], ft_root = 2\<rparr>"

lemma parse_ratio: "parseFormula ''cycles / cycles'' = Some (Inr ratio_tree)"
proof -
  have a: "decodeReference ''cycles'' = Some (plain_reference ''cycles'')"
    by (simp add: decodeReference_def find_char_def backslash_def plain_reference_def)
  show ?thesis
    by (simp add: parseFormula_def scan_ratio parser_parse_def parse_fuel_def eval_nat_numeral bind_p_def token_def advance_def
        parse_reference_def a push_node_def return_p_def add_def plain_token_def blank_node_def named_node_def ratio_tree_def plain_reference_def)
qed

definition ratio_parsed :: parsed_metric_table where
  "ratio_parsed = \<lparr>pt_rows = [parsed_row (table_entry ''ratio'' ''cycles / cycles'') (Inr ratio_tree)], pt_index = [(''ratio'', 0)]\<rparr>"

lemma parse_ratio_table: "parseMetricRows (ratio_table directory) = Some ratio_parsed"
  by (simp add: parseMetricRows_def ratio_table_def table_entry_def parse_ratio append_row_def ratio_parsed_def)

definition cycles_leaf :: leaf_core where
  "cycles_leaf = lr_core (leaf_of_seed ''cpu'' 0 (hd (os_entries example_seed)))"

lemma find_cycles:
  assumes "rs_host r = demo_host"
  shows "leaf_spine r (named_node REFERENCE ''cycles'' (plain_reference ''cycles'')) [] = Inr \<lparr>sp_core = expr_of_leaf cycles_leaf,
    sp_dimension = leafDimension cycles_leaf, sp_avail = COUNTABLE, sp_objectPath = ''cpu'', sp_name = ''cycles''\<rparr>"
proof -
  have reach: "scopeReaches ''cpu'' ''core''"
    by (simp add: scopeReaches_def to_lower_def is_upper_def)
  have obs: "host_objects demo_host ''pmu'' = Inr [\<lparr>tn_kind = ''pmu'', tn_path = ''cpu'', tn_alias = ''core0'', tn_description = [],
         tn_leaves = [leaf_of_seed ''cpu'' 0 (hd (os_entries example_seed))]\<rparr>]"
    by (simp add: host_objects_def objects_of_def demo_host_def example_tree_def machine_root_def ensureOpen_def Let_def)
  have "findLeaf r ''core'' ''cycles'' = Inr (''cpu'', cycles_leaf)"
    by (simp add: findLeaf_def assms obs reach resolveLeafCore_def leaf_named_def leaf_of_seed_def example_seed_def cycles_leaf_def)
  then show ?thesis
    by (simp add: leaf_spine_def scope_label_def helper_reads plain_reference_def deviceLabel_def)
      (simp add: cycles_leaf_def leaf_of_seed_def example_seed_def)
qed

lemma ratio_answers: "\<exists>view. metricByName ratio_table demo_host ''ratio'' = Some (Inr view)"
proof -
  define r where "r = resolver_of ratio_table demo_host ratio_parsed"
  have host: "rs_host r = demo_host" and table: "rs_table r = ratio_parsed" by (simp_all add: r_def resolver_of_def)
  define s where "s = \<lparr>sp_core = expr_of_leaf cycles_leaf, sp_dimension = leafDimension cycles_leaf, sp_avail = COUNTABLE,
    sp_objectPath = ''cpu'', sp_name = ''cycles''\<rparr>"
  let ?n = "named_node REFERENCE ''cycles'' (plain_reference ''cycles'')"
  let ?d = "(blank_node DIVIDE)\<lparr>fn_left := 0, fn_right := 1\<rparr>"
  have leaf: "leaf_spine r ?n [] = Inr s" unfolding s_def by (rule find_cycles [OF host])
  have tree: "node_of ratio_tree 0 = Some ?n" "node_of ratio_tree 1 = Some ?n" "node_of ratio_tree 2 = Some ?d"
    by (simp_all add: node_of_def ratio_tree_def)
  have noidx: "om_find (pt_index (rs_table r)) ''cycles'' = None" by (simp add: table ratio_parsed_def om_find_Cons)
  have "asLiteral s = None" by (simp add: s_def asLiteral_core leaf_whole)
  then have "\<exists>s'. join_spines ?d ?n ?n s s = Inr s'"
    by (cases "splice (sp_core s) (sp_core s)") (simp add: join_spines_def pairing_def)
  then obtain s' where join: "join_spines ?d ?n ?n s s = Inr s'" by blast
  have w: "walk r exp 6 ratio_tree 2 [] st = Some (Inr s', st)" for exp st
    by (simp add: eval_nat_numeral tree [simplified] noidx leaf join helper_reads)
  let ?row = "parsed_row (table_entry ''ratio'' ''cycles / cycles'') (Inr ratio_tree)"
  have row: "row_refusal ?row = None" "pr_tree ?row = ratio_tree" "pr_scope ?row = []" "pr_name ?row = ''ratio''"
    "ft_root ratio_tree = 2" "length (ft_nodes ratio_tree) = 3"
    by (simp_all add: row_refusal_def parsed_row_def table_entry_def ratio_tree_def)
  have rows: "pt_rows (rs_table r) = [?row]" by (simp add: table ratio_parsed_def)
  have "metricRows r = Some [row_answer ?row (Inr s')]"
    by (simp add: metricRows_def rows start_resolution_def resolve_fuel_def publish_def row w)
  then have "metricDefinitionOnHost ratio_table demo_host ''ratio'' = metricDefinitionIn
      \<lparr>rt_rows = [row_answer ?row (Inr s')], rt_index = pt_index ratio_parsed\<rparr> ''ratio''"
    by (simp add: metricDefinitionOnHost_def resolvedMetricTable_def parse_ratio_table r_def resolver_of_def demo_host_def)
  moreover have "md_published (row_answer ?row (Inr s'))" by (simp add: row_answer_def)
  ultimately show ?thesis
    by (simp add: metricByName_def metricDefinitionIn_def ratio_parsed_def om_find_Cons definition_answer_def metricViewResponse_def)
qed

lemma cycles_by_address: "by_address (\<lambda>l. Some one64)"
  by (simp add: by_address_def)

lemma named_metric_is_its_formula_witness:
  "\<exists>view t e f l d x. metricByName ratio_table demo_host ''ratio'' = Some (Inr view)
      \<and> first_entry (ratio_table ''skylake'') ''ratio'' e
      \<and> formula_means (resolver_of ratio_table demo_host t) (\<lambda>l. Some one64) (pe_unit e) f l d x
      \<and> eval_root (\<lambda>l. Some one64) (mv_expression view) = scaled_value (pe_scaleUnit e) x"
proof -
  have dir: "mh_directory demo_host = ''skylake''" by (simp add: demo_host_def)
  obtain view where view: "metricByName ratio_table demo_host ''ratio'' = Some (Inr view)" using ratio_answers by blast
  with named_metric_is_its_formula [OF view cycles_by_address] show ?thesis unfolding dir by blast
qed

lemma every_metric_row_is_listed_witness:
  "\<exists>ls. metricListingsOnHost ratio_table demo_host = Some ls \<and> map ml_name ls = [''ratio'']"
  using every_metric_row_is_listed [of ratio_table demo_host]
  by (simp add: ratio_table_def table_entry_def backslash_def demo_host_def)

definition loop_table :: table_loader where
  "loop_table directory = [table_entry ''m'' ''m'']"

definition loop_tree :: formula_tree where
  "loop_tree = \<lparr>ft_nodes = [named_node REFERENCE ''m'' (plain_reference ''m'')], ft_root = 0\<rparr>"

lemma parse_loop: "parseFormula ''m'' = Some (Inr loop_tree)"
proof -
  have ref: "list_all isReferenceChar ''m''" by (simp add: isReferenceChar_def is_alnum_def is_alpha_def is_lower_def)
  have "scanReferenceEnd ''m'' 0 = Some (length ''m'')" by (rule scan_reference_chars) (use ref in simp_all)
  then have toks: "scan_tokens ''m'' 0 = Inr [(plain_token REFERENCE_TEXT 0)\<lparr>sc_text := ''m''\<rparr>, plain_token END_TEXT (length ''m'')]"
    by (intro scan_one_reference) (simp_all add: is_alpha_def is_lower_def)
  have "decodeReference ''m'' = Some (plain_reference ''m'')"
    by (simp add: decodeReference_def find_char_def backslash_def plain_reference_def)
  then have "parser_parse [(plain_token REFERENCE_TEXT 0)\<lparr>sc_text := ''m''\<rparr>, plain_token END_TEXT (length ''m'')] = Some (Inr loop_tree)"
    by (subst parse_one_reference) (simp_all add: plain_token_def loop_tree_def)
  then show ?thesis by (simp add: parseFormula_def toks)
qed

definition loop_parsed :: parsed_metric_table where
  "loop_parsed = \<lparr>pt_rows = [parsed_row (table_entry ''m'' ''m'') (Inr loop_tree)], pt_index = [(''m'', 0)]\<rparr>"

lemma parse_loop_table: "parseMetricRows (loop_table directory) = Some loop_parsed"
  by (simp add: parseMetricRows_def loop_table_def table_entry_def parse_loop append_row_def loop_parsed_def)

lemma loop_visits: "row_visits (resolver_of loop_table demo_host loop_parsed) 0 0"
proof -
  have "node_of loop_tree 0 = Some (named_node REFERENCE ''m'' (plain_reference ''m''))" by (simp add: node_of_def loop_tree_def)
  then have "visits (resolver_of loop_table demo_host loop_parsed) loop_tree [] 0 0"
    by (rule visit_metric) (simp_all add: helper_reads resolver_of_def loop_parsed_def om_find_Cons)
  moreover have "ft_root loop_tree = 0" by (simp add: loop_tree_def)
  ultimately show ?thesis
    by (simp add: row_visits_def resolver_of_def loop_parsed_def parsed_row_def table_entry_def row_refusal_def)
qed

lemma cyclic_metrics_are_refused_witness:
  "\<exists>rows. metricRows (resolver_of loop_table demo_host loop_parsed) = Some rows \<and> \<not> md_published (rows ! 0)"
proof -
  obtain rows where rows: "metricRows (resolver_of loop_table demo_host loop_parsed) = Some rows" "length rows = length (pt_rows loop_parsed)"
    by (rule host_rows [where h = demo_host, OF parse_loop_table])
  then have "0 < length rows" by (simp add: loop_parsed_def)
  moreover have "(row_visits (resolver_of loop_table demo_host loop_parsed))\<^sup>+\<^sup>+ 0 0" using loop_visits by (rule tranclp.r_into_trancl)
  ultimately have "\<not> md_published (rows ! 0)"
    by (intro cyclic_metrics_are_refused [OF parse_loop_table rows(1) _ rtranclp.rtrancl_refl])
  with rows(1) show ?thesis by blast
qed

subsection \<open>Scope labels and devices\<close>

lemma suffixAt_instance:
  assumes "ds \<noteq> []" and "list_all is_digit ds"
  shows "suffixAt (dev @ ''_'' @ ds) = Some (length dev)"
proof -
  have "\<not> is_digit (CHR ''_'')" by (simp add: is_digit_def)
  then have "CHR ''_'' \<notin> set ds" using assms(2) by (auto simp: list_all_iff)
  then have "rfind_char (CHR ''_'') (dev @ CHR ''_'' # ds) = Some (length dev)" by (rule rfind_char_join)
  then show ?thesis using assms by (simp add: suffixAt_def)
qed

text \<open>
  A scope label reaches the devices of its class: a label that names a class reaches exactly the
  numbered instances of the device of that class, without regard to case and with the vendor names of the
  unit map, and a label that carries an instance number reaches that instance alone.
\<close>

theorem scope_label_reaches_its_class:
  assumes "map to_lower scope \<notin> {[], ''core''}" and "ds \<noteq> []" and "list_all is_digit ds"
  shows "scopeReaches (''uncore_'' @ dev @ ''_'' @ ds) scope
    \<longleftrightarrow> unit_class (map to_lower scope)
        = map to_lower (if suffixAt (map to_lower scope) = None then dev else dev @ ''_'' @ ds)"
proof -
  define full where "full = ''uncore_'' @ dev @ ''_'' @ ds"
  have "starts_with full ''uncore_''" unfolding full_def by (rule starts_with_append)
  moreover have "drop 7 full = dev @ ''_'' @ ds" unfolding full_def by (simp add: eval_nat_numeral)
  ultimately have bare: "(if starts_with full ''uncore_'' then drop 7 full else full) = dev @ ''_'' @ ds" by (simp only: if_True)
  have "take (length dev) (dev @ ''_'' @ ds) = dev" by simp
  then have "device_class full folded = map to_lower (if suffixAt folded = None then dev else dev @ ''_'' @ ds)" for folded
    unfolding device_class_def bare Let_def suffixAt_instance [OF assms(2,3)] by (cases "suffixAt folded") (simp_all only: option.case prod.case if_True if_False option.distinct simp_thms)
  with assms(1) show ?thesis unfolding full_def [symmetric] by (auto simp: scopeReaches_def Let_def)
qed

lemma scope_label_reaches_its_class_witness:
  "scopeReaches ''uncore_imc_0'' ''iMC'' \<and> \<not> scopeReaches ''uncore_cbox_1'' ''cbox_0''"
proof -
  have low: "to_lower (CHR ''i'') = CHR ''i''" "to_lower (CHR ''M'') = CHR ''m''" "to_lower (CHR ''m'') = CHR ''m''"
    "to_lower (CHR ''C'') = CHR ''c''" "to_lower (CHR ''c'') = CHR ''c''" "to_lower (CHR ''b'') = CHR ''b''"
    "to_lower (CHR ''o'') = CHR ''o''" "to_lower (CHR ''x'') = CHR ''x''" "to_lower (CHR ''_'') = CHR ''_''"
    "to_lower (CHR ''0'') = CHR ''0''" "to_lower (CHR ''1'') = CHR ''1''"
    by code_simp+
  have suf: "suffixAt ''imc'' = None" "suffixAt ''cbox_0'' = Some 4"
    by (simp_all add: suffixAt_def rfind_char_def is_digit_def)
  show ?thesis
    using scope_label_reaches_its_class [of "''iMC''" "''0''" "''imc''"] scope_label_reaches_its_class [of "''cbox_0''" "''1''" "''cbox''"]
    by (simp add: low suf is_digit_def unit_class_def)
qed

subsection \<open>The coverage of a core\<close>

lemma half64_value: "half64 = Finite False 4503599627370496 (- 53)"
proof -
  have "bit_len 2 = 2" by (simp add: bit_len.simps [of 2] bit_len_1)
  then have "floor_log2 1 2 = - 1" by (simp add: floor_log2_def bit_len_1 shift_den_def shift_num_def)
  then show ?thesis
    by (simp add: half64_def round64_def Let_def shift_num_def shift_den_def round_even_def sig_top_def min_exp_def max_exp_def)
qed

lemma half_between: "dless half64 one64" "\<not> dless half64 zero64"
  by (simp_all add: half64_value one64_value zero64_def signed_sig_def)

text \<open>
  The coverage of a core is what the sibling list of one cpu says: no answer when neither file of the
  cpu the call runs on reads or the text names no digit, one thread when the text has a comma or a dash, and
  the whole core otherwise.
\<close>

theorem core_coverage_reads_one_list:
  "coreWideCoverage h =
     (case siblingListFor h of
        None \<Rightarrow> None
      | Some text \<Rightarrow>
          if \<not> list_ex is_digit text then None
          else if CHR '','' \<in> set text \<or> CHR ''-'' \<in> set text then Some ONE_THREAD else Some WHOLE_CORE)"
proof -
  have more: "names_more_than_one s \<longleftrightarrow> CHR '','' \<in> set s \<or> CHR ''-'' \<in> set s" for s
    by (simp add: names_more_than_one_def find_char_None)
  show ?thesis
    by (simp add: coreWideCoverage_def coreWideFlag_def coreWideFromSiblingList_def more half_between split: option.split)
qed

end
