(* ===== verification/Ordering.thy ===== *)
theory Ordering
  imports Prelude "HOL-Library.Multiset"
begin

text \<open>
  \<open>std::sort\<close> and \<open>std::ranges::sort\<close> with a comparator.  The library may leave equivalent elements in any
  order; the model keeps them in their first order.  The locale \<open>weak_order\<close> is what the library asks of a
  comparator on the elements it is given.  Its lemmas say what every caller relies on, and that a second
  sorted arrangement of the same elements agrees with the model's up to equivalence; where the comparator
  separates the elements, it is the same list.
\<close>

fun insert_by :: "('a \<Rightarrow> 'a \<Rightarrow> bool) \<Rightarrow> 'a \<Rightarrow> 'a list \<Rightarrow> 'a list" where
  "insert_by lt x [] = [x]"
| "insert_by lt x (y # ys) = (if lt y x then y # insert_by lt x ys else x # y # ys)"

definition sort_by :: "('a \<Rightarrow> 'a \<Rightarrow> bool) \<Rightarrow> 'a list \<Rightarrow> 'a list" where
  "sort_by lt xs = foldr (insert_by lt) xs []"

definition in_order :: "('a \<Rightarrow> 'a \<Rightarrow> bool) \<Rightarrow> 'a list \<Rightarrow> bool" where
  "in_order lt xs \<longleftrightarrow> sorted_wrt (\<lambda>a b. \<not> lt b a) xs"

lemma sort_by_simps [simp]:
  "sort_by lt [] = []"
  "sort_by lt (x # xs) = insert_by lt x (sort_by lt xs)"
  by (simp_all add: sort_by_def)

lemma in_order_simps [simp]:
  "in_order lt []"
  "in_order lt (x # xs) \<longleftrightarrow> (\<forall>y\<in>set xs. \<not> lt y x) \<and> in_order lt xs"
  by (simp_all add: in_order_def)

lemma mset_insert_by [simp]: "mset (insert_by lt x xs) = add_mset x (mset xs)"
  by (induction xs) simp_all

lemma mset_sort_by [simp]: "mset (sort_by lt xs) = mset xs"
  by (induction xs) simp_all

lemma set_insert_by [simp]: "set (insert_by lt x xs) = insert x (set xs)"
  by (induction xs) auto

lemma set_sort_by [simp]: "set (sort_by lt xs) = set xs"
  by (induction xs) simp_all

lemma length_insert_by [simp]: "length (insert_by lt x xs) = Suc (length xs)"
  by (induction xs) simp_all

lemma length_sort_by [simp]: "length (sort_by lt xs) = length xs"
  by (induction xs) simp_all

lemma distinct_insert_by [simp]: "distinct (insert_by lt x xs) \<longleftrightarrow> x \<notin> set xs \<and> distinct xs"
  by (induction xs) auto

lemma distinct_sort_by [simp]: "distinct (sort_by lt xs) = distinct xs"
  by (induction xs) simp_all

lemma sort_by_eq_Nil [simp]: "sort_by lt xs = [] \<longleftrightarrow> xs = []"
  by (metis length_0_conv length_sort_by)

lemma in_order_nth: "in_order lt xs \<Longrightarrow> i < j \<Longrightarrow> j < length xs \<Longrightarrow> \<not> lt (xs ! j) (xs ! i)"
  by (simp add: in_order_def sorted_wrt_iff_nth_less)

lemma in_order_append:
  "in_order lt (xs @ ys) \<longleftrightarrow> in_order lt xs \<and> in_order lt ys \<and> (\<forall>x\<in>set xs. \<forall>y\<in>set ys. \<not> lt y x)"
  by (auto simp: in_order_def sorted_wrt_append)

lemma in_order_hd: "in_order lt xs \<Longrightarrow> x \<in> set xs \<Longrightarrow> \<not> lt x x \<Longrightarrow> \<not> lt x (hd xs)"
  by (cases xs) auto

lemma in_order_last: "in_order lt xs \<Longrightarrow> x \<in> set xs \<Longrightarrow> \<not> lt x x \<Longrightarrow> \<not> lt (last xs) x"
  by (induction xs) (auto split: if_splits)

locale weak_order =
  fixes ok :: "'a \<Rightarrow> bool" and lt :: "'a \<Rightarrow> 'a \<Rightarrow> bool"
  assumes asym: "ok a \<Longrightarrow> ok b \<Longrightarrow> lt a b \<Longrightarrow> \<not> lt b a"
    and neg_trans: "ok a \<Longrightarrow> ok b \<Longrightarrow> ok c \<Longrightarrow> \<not> lt a b \<Longrightarrow> \<not> lt b c \<Longrightarrow> \<not> lt a c"
begin

lemma irrefl: "ok a \<Longrightarrow> \<not> lt a a"
  using asym by blast

lemma in_order_insert_by:
  "ok x \<Longrightarrow> (\<forall>y\<in>set xs. ok y) \<Longrightarrow> in_order lt xs \<Longrightarrow> in_order lt (insert_by lt x xs)"
proof (induction xs)
  case (Cons y ys)
  then show ?case using asym [of x y] neg_trans [of _ y x] by (auto simp del: split_paired_All)
qed simp

lemma in_order_sort_by: "(\<forall>x\<in>set xs. ok x) \<Longrightarrow> in_order lt (sort_by lt xs)"
  by (induction xs) (simp_all add: in_order_insert_by)

lemma in_order_unique:
  assumes "\<forall>x\<in>set xs. ok x" and "\<forall>x\<in>set xs. \<forall>y\<in>set xs. lt x y \<or> lt y x \<or> x = y"
    and "mset ys = mset xs" and "in_order lt ys" and "in_order lt xs"
  shows "ys = xs"
  using assms
proof (induction xs arbitrary: ys)
  case (Cons x xs)
  then obtain y zs where ys: "ys = y # zs" by (cases ys) auto
  have "x \<in> set ys" "y \<in> set (x # xs)" using Cons.prems(3) ys by (metis list.set_intros(1) mset_eq_setD)+
  then have "\<not> lt x y" "\<not> lt y x" using Cons.prems(1,4,5) ys irrefl by auto
  then have "x = y" using Cons.prems(2) \<open>y \<in> set (x # xs)\<close> by auto
  then show ?case using Cons ys by simp
qed simp

lemma sort_by_unique:
  assumes "\<forall>x\<in>set xs. ok x" and "\<forall>x\<in>set xs. \<forall>y\<in>set xs. lt x y \<or> lt y x \<or> x = y"
    and "mset ys = mset xs" and "in_order lt ys"
  shows "ys = sort_by lt xs"
  using in_order_unique [of "sort_by lt xs" ys] in_order_sort_by assms by simp

lemma sort_by_order_free:
  assumes "\<forall>x\<in>set xs. ok x" and "\<forall>x\<in>set xs. \<forall>y\<in>set xs. lt x y \<or> lt y x \<or> x = y" and "mset ys = mset xs"
  shows "sort_by lt ys = sort_by lt xs"
proof (rule sort_by_unique [OF assms(1,2)])
  show "mset (sort_by lt ys) = mset xs" using assms(3) by simp
  show "in_order lt (sort_by lt ys)"
    using assms(1,3) by (intro in_order_sort_by) (metis mset_eq_setD)
qed

end

interpretation by_less: weak_order "\<lambda>_::'a::linorder. True" "(<)"
  by unfold_locales auto

end
