(* ===== verification/Doubles.thy ===== *)
theory Doubles
  imports Complex_Main Binary64 Ordering
begin

text \<open>
  The order and the bounds of \<open>double\<close>.  \<open>dvalue\<close> is the real number a finite double stands for; the
  comparison of the sources is the comparison of these numbers, so it is a weak order away from NaN, which is
  what \<open>std::sort\<close> asks for.  A rounded result never leaves the interval of two doubles that encloses the exact
  one (\<open>round64_le\<close>, \<open>round64_ge\<close>).  The square root, the zero test and the absolute value are the remaining
  operations of the harness.
\<close>

subsection \<open>Values and order\<close>

fun dvalue :: "binary64 \<Rightarrow> real" where
  "dvalue (Finite s m e) = real_of_int (signed_sig s m) * 2 powi e"
| "dvalue _ = 0"

fun is_finite :: "binary64 \<Rightarrow> bool" where
  "is_finite (Finite _ _ _) = True"
| "is_finite _ = False"

fun dzero :: "binary64 \<Rightarrow> bool" where
  "dzero (Finite _ m _) \<longleftrightarrow> m = 0"
| "dzero _ \<longleftrightarrow> False"

fun dabs :: "binary64 \<Rightarrow> binary64" where
  "dabs (Finite _ m e) = Finite False m e"
| "dabs (Infinite _) = Infinite False"
| "dabs NaN = NaN"

lemma powi_pos: "0 < (2::real) powi e"
  by simp

lemma powi_less_iff: "(2::real) powi i < 2 powi j \<longleftrightarrow> i < j"
  by (metis linorder_not_le one_less_numeral_iff power_int_increasing power_int_strict_increasing semiring_norm(76) order_less_le
      zero_less_one one_le_numeral)

lemma powi_le_iff: "(2::real) powi i \<le> 2 powi j \<longleftrightarrow> i \<le> j"
  using powi_less_iff [of j i] by linarith

lemma powi_shift: "k \<le> e \<Longrightarrow> (2::real) ^ nat (e - k) * 2 powi k = 2 powi e"
  by (simp add: power_int_of_nat [symmetric] flip: power_int_add)

lemma dless_finite:
  "dless (Finite s m e) (Finite t n f) \<longleftrightarrow> dvalue (Finite s m e) < dvalue (Finite t n f)"
proof -
  define k where "k = min e f"
  let ?a = "signed_sig s m * 2 ^ nat (e - k)" and ?b = "signed_sig t n * 2 ^ nat (f - k)"
  have "dvalue (Finite s m e) = real_of_int ?a * 2 powi k" "dvalue (Finite t n f) = real_of_int ?b * 2 powi k"
    by (simp_all only: dvalue.simps of_int_mult of_int_power of_int_numeral mult.assoc powi_shift k_def
        min.cobounded1 min.cobounded2)
  moreover have "(real_of_int ?a * 2 powi k < real_of_int ?b * 2 powi k) = (?a < ?b)"
    by (simp only: mult_less_cancel_right_pos zero_less_power_int zero_less_numeral of_int_less_iff)
  moreover have "dless (Finite s m e) (Finite t n f) = (?a < ?b)" by (simp add: k_def Let_def)
  ultimately show ?thesis by (simp only:)
qed

declare dless.simps(7) [simp del] dless_finite [simp]

lemma dless_value: "is_finite a \<Longrightarrow> is_finite b \<Longrightarrow> dless a b \<longleftrightarrow> dvalue a < dvalue b"
  by (cases a; cases b) (simp_all del: dvalue.simps)

lemma not_NaN_finite: "is_finite a \<Longrightarrow> a \<noteq> NaN"
  by (cases a) simp_all

lemma dzero_value: "is_finite d \<Longrightarrow> dzero d \<longleftrightarrow> dvalue d = 0"
  by (cases d) (simp_all add: signed_sig_def)

lemma dless_asym: "dless a b \<Longrightarrow> \<not> dless b a"
  by (cases a; cases b) (auto simp del: dvalue.simps)

lemma dless_neg_trans: "b \<noteq> NaN \<Longrightarrow> \<not> dless a b \<Longrightarrow> \<not> dless b c \<Longrightarrow> \<not> dless a c"
  by (cases a; cases b; cases c) (auto simp del: dvalue.simps)

lemma dless_irrefl [simp]: "\<not> dless a a"
  using dless_asym by blast

interpretation by_value: weak_order "\<lambda>d. d \<noteq> NaN" dless
  by unfold_locales (use dless_asym dless_neg_trans in blast)+

text \<open>\<open>std::sort\<close> of doubles: the comparator is no weak order on a list with a NaN, and the sort undefined.\<close>

definition sort_doubles :: "binary64 list \<Rightarrow> binary64 list checked" where
  "sort_doubles xs = (if NaN \<in> set xs then None else Some (sort_by dless xs))"

lemma sort_doubles_Some:
  "sort_doubles xs = Some ys \<longleftrightarrow> NaN \<notin> set xs \<and> ys = sort_by dless xs"
  by (auto simp: sort_doubles_def)

lemma sorted_doubles:
  assumes "sort_doubles xs = Some ys"
  shows "mset ys = mset xs" and "in_order dless ys" and "length ys = length xs"
proof -
  have "\<forall>x\<in>set xs. x \<noteq> NaN" and y: "ys = sort_by dless xs" using assms by (auto simp: sort_doubles_Some)
  from by_value.in_order_sort_by [OF this(1)] show "in_order dless ys" by (simp add: y)
qed (use assms in \<open>simp_all add: sort_doubles_Some\<close>)

subsection \<open>Rounding keeps to an enclosing interval\<close>

text \<open>The exponent and the significand before the carry.\<close>

definition round_exp :: "nat \<Rightarrow> nat \<Rightarrow> int" where
  "round_exp n d = max min_exp (floor_log2 n d - 52)"

definition round_sig :: "nat \<Rightarrow> nat \<Rightarrow> nat" where
  "round_sig n d = round_even (shift_num n (round_exp n d)) (shift_den d (round_exp n d))"

lemma scaled_quotient:
  "0 < d \<Longrightarrow> real (shift_num n e) / real (shift_den d e) = real n / real d * 2 powi (- e)"
  by (cases "0 \<le> e") (simp_all add: shift_num_eq shift_den_eq power_int_def divide_simps)

lemma shift_le:
  assumes "0 < d" and "real n / real d * 2 powi (- e) \<le> real k"
  shows "shift_num n e \<le> k * shift_den d e"
proof -
  have "0 < real (shift_den d e)" using shift_den_pos [OF assms(1)] by simp
  then have "real (shift_num n e) \<le> real k * real (shift_den d e)"
    using assms(2) unfolding scaled_quotient [OF assms(1), symmetric] by (simp add: pos_divide_le_eq)
  then show ?thesis by (metis of_nat_le_iff of_nat_mult)
qed

lemma shift_ge:
  assumes "0 < d" and "real k \<le> real n / real d * 2 powi (- e)"
  shows "k * shift_den d e \<le> shift_num n e"
proof -
  have "0 < real (shift_den d e)" using shift_den_pos [OF assms(1)] by simp
  then have "real k * real (shift_den d e) \<le> real (shift_num n e)"
    using assms(2) unfolding scaled_quotient [OF assms(1), symmetric] by (simp add: pos_le_divide_eq)
  then show ?thesis by (metis of_nat_le_iff of_nat_mult)
qed

lemma round_sig_le:
  assumes "0 < d" and "real n / real d \<le> real k * 2 powi (round_exp n d)"
  shows "round_sig n d \<le> k"
proof -
  have "real n / real d * 2 powi (- round_exp n d) \<le> real k"
    using assms(2) unfolding power_int_minus divide_inverse [symmetric] by (simp only: pos_divide_le_eq powi_pos)
  from shift_le [OF assms(1) this] show ?thesis
    unfolding round_sig_def by (intro round_even_le shift_den_pos assms(1))
qed

lemma round_sig_ge:
  assumes "0 < d" and "real k * 2 powi (round_exp n d) \<le> real n / real d"
  shows "k \<le> round_sig n d"
proof -
  have "real k \<le> real n / real d * 2 powi (- round_exp n d)"
    using assms(2) unfolding power_int_minus divide_inverse [symmetric] by (simp only: pos_le_divide_eq powi_pos)
  from shift_ge [OF assms(1) this] show ?thesis
    unfolding round_sig_def by (intro round_even_ge shift_den_pos assms(1))
qed

lemma exact_lower:
  assumes "0 < n" and "0 < d" and "round_exp n d \<noteq> min_exp"
  shows "2 ^ 52 * 2 powi (round_exp n d) \<le> real n / real d" and "sig_top \<le> round_sig n d"
proof -
  let ?e = "round_exp n d"
  have e: "?e = floor_log2 n d - 52" using assms(3) by (auto simp: round_exp_def max_def split: if_splits)
  have "2 ^ 52 * shift_den d ?e \<le> shift_num n ?e" by (rule scaled_lower [OF assms(1,2) e])
  then have "real (2 ^ 52 * shift_den d ?e) \<le> real (shift_num n ?e)" by (simp only: of_nat_le_iff)
  then have "2 ^ 52 \<le> real (shift_num n ?e) / real (shift_den d ?e)"
    using shift_den_pos [OF assms(2), of ?e] by (simp add: pos_le_divide_eq)
  then show l: "2 ^ 52 * 2 powi ?e \<le> real n / real d"
    unfolding scaled_quotient [OF assms(2)] power_int_minus divide_inverse [symmetric] by (simp only: pos_le_divide_eq powi_pos)
  show "sig_top \<le> round_sig n d" using round_sig_ge [OF assms(2), of sig_top] l by (simp add: sig_top_def)
qed

lemma round64_shape:
  assumes "0 < n" and "0 < d"
  obtains m e where "real m * 2 powi e = real (round_sig n d) * 2 powi (round_exp n d)"
    and "round64 s n d = (if e > max_exp then Infinite s else Finite s m e)"
    and "e > max_exp \<longrightarrow> sig_top \<le> m"
proof -
  have up: "min_exp \<le> max_exp" by (simp add: min_exp_def max_exp_def)
  show ?thesis
  proof (cases "round_sig n d = 2 * sig_top")
    case True
    have "real sig_top * 2 powi (round_exp n d + 1) = real (round_sig n d) * 2 powi (round_exp n d)"
      by (simp add: True power_int_add)
    moreover have "round64 s n d = (if round_exp n d + 1 > max_exp then Infinite s else Finite s sig_top (round_exp n d + 1))"
      using True assms(1) by (simp add: round64_def Let_def round_exp_def round_sig_def)
    ultimately show ?thesis by (rule that) simp
  next
    case False
    have "round64 s n d = (if round_exp n d > max_exp then Infinite s else Finite s (round_sig n d) (round_exp n d))"
      using False assms(1) by (simp add: round64_def Let_def round_exp_def round_sig_def)
    moreover have "sig_top \<le> round_sig n d" if "round_exp n d > max_exp"
      using exact_lower(2) [OF assms] that up by simp
    ultimately show ?thesis using that [of "round_sig n d" "round_exp n d"] by simp
  qed
qed

lemma rescale_real: "k \<le> e \<Longrightarrow> real m * 2 powi e = real (m * 2 ^ nat (e - k)) * 2 powi k"
  by (simp add: powi_shift mult.assoc)

lemma canonical_upper:
  assumes "canonical s m e"
  shows "real m * 2 powi e \<le> (2 ^ 53 - 1) * 2 powi e"
  using assms by (simp add: canonical_def sig_top_def)

lemma round64_le:
  assumes d: "0 < d" and b: "canonical t mb eb" and le: "real n / real d \<le> real mb * 2 powi eb"
  shows "\<exists>m e. round64 s n d = Finite s m e \<and> real m * 2 powi e \<le> real mb * 2 powi eb"
proof (cases "n = 0")
  case True
  then show ?thesis by (auto simp: round64_def)
next
  case False
  then have n: "0 < n" by simp
  have sig: "real (round_sig n d) * 2 powi (round_exp n d) \<le> real mb * 2 powi eb"
  proof (cases "round_exp n d \<le> eb")
    case True
    have "round_sig n d \<le> mb * 2 ^ nat (eb - round_exp n d)"
      using le unfolding rescale_real [OF True] by (rule round_sig_le [OF d])
    then have "real (round_sig n d) * 2 powi (round_exp n d)
        \<le> real (mb * 2 ^ nat (eb - round_exp n d)) * 2 powi (round_exp n d)"
      by (intro mult_right_mono) (simp_all only: of_nat_le_iff powi_pos less_imp_le)
    then show ?thesis by (simp only: rescale_real [OF True])
  next
    case False
    then have "round_exp n d \<noteq> min_exp" using b by (simp add: canonical_def)
    from exact_lower(1) [OF n d this] le have "2 ^ 52 * 2 powi (round_exp n d) \<le> real mb * 2 powi eb" by linarith
    also have "\<dots> \<le> (2 ^ 53 - 1) * 2 powi eb" by (rule canonical_upper [OF b])
    also have "\<dots> < 2 ^ 52 * 2 powi (eb + 1)" by (simp add: power_int_add)
    also have "\<dots> \<le> 2 ^ 52 * 2 powi (round_exp n d)"
      using False by (intro mult_left_mono power_int_increasing) simp_all
    finally show ?thesis by simp
  qed
  obtain m e where v: "real m * 2 powi e = real (round_sig n d) * 2 powi (round_exp n d)"
    and r: "round64 s n d = (if e > max_exp then Infinite s else Finite s m e)" and top: "e > max_exp \<longrightarrow> sig_top \<le> m"
    by (rule round64_shape [OF n d, where s = s])
  have "\<not> e > max_exp"
  proof
    assume e: "e > max_exp"
    have "2 ^ 53 * 2 powi max_exp = 2 ^ 52 * (2::real) powi (max_exp + 1)" by (simp add: power_int_add)
    also have "\<dots> \<le> 2 ^ 52 * 2 powi e" using e by (intro mult_left_mono power_int_increasing) simp_all
    also have "\<dots> \<le> real m * 2 powi e" using top e by (simp add: sig_top_def)
    also have "\<dots> \<le> real mb * 2 powi eb" using sig v by simp
    also have "\<dots> \<le> (2 ^ 53 - 1) * 2 powi eb" by (rule canonical_upper [OF b])
    also have "\<dots> \<le> (2 ^ 53 - 1) * 2 powi max_exp"
      using b by (intro mult_left_mono power_int_increasing) (simp_all add: canonical_def)
    finally show False by simp
  qed
  then show ?thesis using r v sig by auto
qed

lemma round64_ge:
  assumes d: "0 < d" and b: "canonical t mb eb" and le: "real mb * 2 powi eb \<le> real n / real d"
  shows "round64 s n d = Infinite s \<or> (\<exists>m e. round64 s n d = Finite s m e \<and> real mb * 2 powi eb \<le> real m * 2 powi e)"
proof (cases "n = 0")
  case True
  then have "real mb * 2 powi eb \<le> 0" using le by simp
  then show ?thesis using True by (auto simp: round64_def)
next
  case False
  then have n: "0 < n" by simp
  have sig: "real mb * 2 powi eb \<le> real (round_sig n d) * 2 powi (round_exp n d)"
  proof (cases "round_exp n d \<le> eb")
    case True
    have "mb * 2 ^ nat (eb - round_exp n d) \<le> round_sig n d"
      using le unfolding rescale_real [OF True] by (rule round_sig_ge [OF d])
    then have "real (mb * 2 ^ nat (eb - round_exp n d)) * 2 powi (round_exp n d)
        \<le> real (round_sig n d) * 2 powi (round_exp n d)"
      by (intro mult_right_mono) (simp_all only: of_nat_le_iff powi_pos less_imp_le)
    then show ?thesis by (simp only: rescale_real [OF True])
  next
    case False
    then have "round_exp n d \<noteq> min_exp" using b by (simp add: canonical_def)
    from exact_lower(2) [OF n d this] have top: "sig_top \<le> round_sig n d" .
    have "real mb * 2 powi eb \<le> (2 ^ 53 - 1) * 2 powi eb" by (rule canonical_upper [OF b])
    also have "\<dots> \<le> 2 ^ 52 * 2 powi (eb + 1)" by (simp add: power_int_add)
    also have "\<dots> \<le> 2 ^ 52 * 2 powi (round_exp n d)"
      using False by (intro mult_left_mono power_int_increasing) simp_all
    also have "\<dots> \<le> real (round_sig n d) * 2 powi (round_exp n d)" using top by (simp add: sig_top_def)
    finally show ?thesis .
  qed
  obtain m e where v: "real m * 2 powi e = real (round_sig n d) * 2 powi (round_exp n d)"
    and r: "round64 s n d = (if e > max_exp then Infinite s else Finite s m e)" and "e > max_exp \<longrightarrow> sig_top \<le> m"
    by (rule round64_shape [OF n d, where s = s])
  show ?thesis using r v sig by auto
qed

text \<open>\<open>rounds x r\<close>: the double \<open>r\<close> is on the same side of every double as the real \<open>x\<close>.\<close>

definition rounds :: "real \<Rightarrow> binary64 \<Rightarrow> bool" where
  "rounds x r \<longleftrightarrow> r \<noteq> NaN
     \<and> (\<forall>b. is_finite b \<longrightarrow> well_formed64 b \<longrightarrow> dvalue b \<le> x \<longrightarrow> \<not> dless r b)
     \<and> (\<forall>b. is_finite b \<longrightarrow> well_formed64 b \<longrightarrow> x \<le> dvalue b \<longrightarrow> \<not> dless b r)"

lemma roundsD:
  assumes "rounds x r"
  shows "r \<noteq> NaN"
    and "is_finite b \<Longrightarrow> well_formed64 b \<Longrightarrow> dvalue b \<le> x \<Longrightarrow> \<not> dless r b"
    and "is_finite b \<Longrightarrow> well_formed64 b \<Longrightarrow> x \<le> dvalue b \<Longrightarrow> \<not> dless b r"
  using assms unfolding rounds_def by blast+

lemma dvalue_sign:
  "dvalue (Finite s m e) = (if s then - (real m * 2 powi e) else real m * 2 powi e)"
  by (simp add: signed_sig_def)

lemma rounds_round64:
  assumes d: "0 < d"
  shows "rounds (if s then - (real n / real d) else real n / real d) (round64 s n d)"
proof -
  have q: "0 \<le> real n / real d" by simp
  have notnan: "round64 s n d \<noteq> NaN" by (simp add: round64_def Let_def)
  have pos: "0 \<le> real m * 2 powi e" for m :: nat and e by simp
  have shape: "round64 s n d = Infinite s \<or> (\<exists>m e. round64 s n d = Finite s m e)" by (auto simp: round64_def Let_def)
  show ?thesis
    unfolding rounds_def
  proof (intro conjI allI impI notnan)
    fix b assume fb: "is_finite b" "well_formed64 b"
    then obtain t mb eb where b: "b = Finite t mb eb" "canonical t mb eb" by (cases b) auto
    have dv: "dvalue b = (if t then - (real mb * 2 powi eb) else real mb * 2 powi eb)" by (simp only: b dvalue_sign)
    show "\<not> dless (round64 s n d) b" if le: "dvalue b \<le> (if s then - (real n / real d) else real n / real d)"
    proof (cases s)
      case True
      then have "real n / real d \<le> real mb * 2 powi eb" using le q pos [of mb eb] unfolding dv by (cases t; simp; linarith)
      moreover have "t \<or> mb = 0"
      proof (cases t)
        case False
        then have "real mb * 2 powi eb \<le> 0" using le True q unfolding dv by (simp; linarith)
        then show ?thesis using powi_pos [of eb] by (metis linorder_not_le mult_pos_pos of_nat_0_less_iff neq0_conv)
      qed simp
      ultimately have this: "real n / real d \<le> real mb * 2 powi eb" "t \<or> mb = 0" by blast+
      from round64_le [OF d b(2) this(1)] obtain m e where "round64 s n d = Finite s m e" "real m * 2 powi e \<le> real mb * 2 powi eb"
        by blast
      then show ?thesis using True \<open>t \<or> mb = 0\<close> unfolding b(1) dless_finite dvalue_sign \<open>round64 s n d = _\<close>
        using pos [of m e] by auto
    next
      case False
      show ?thesis
      proof (cases t)
        case True
        then show ?thesis using shape False pos [of mb eb] unfolding b(1)
          by (elim disjE exE) (simp_all only: dless_finite dvalue_sign, auto simp: not_less intro: order_trans [OF _ pos])
      next
        case False
        then have "real mb * 2 powi eb \<le> real n / real d" using le dv \<open>\<not> s\<close> by simp
        from round64_ge [OF d b(2) this, of s] show ?thesis using False \<open>\<not> s\<close> unfolding b(1)
          by (elim disjE exE conjE) (simp_all only: dless_finite dvalue_sign, simp_all)
      qed
    qed
    show "\<not> dless b (round64 s n d)" if le: "(if s then - (real n / real d) else real n / real d) \<le> dvalue b"
    proof (cases s)
      case False
      then have "real n / real d \<le> real mb * 2 powi eb" using le q pos [of mb eb] unfolding dv by (cases t; simp; linarith)
      moreover have "\<not> t \<or> mb = 0"
      proof (cases t)
        case True
        then have "real mb * 2 powi eb \<le> 0" using le False q unfolding dv by (simp; linarith)
        then show ?thesis using powi_pos [of eb] by (metis linorder_not_le mult_pos_pos of_nat_0_less_iff neq0_conv)
      qed simp
      ultimately have this: "real n / real d \<le> real mb * 2 powi eb" "\<not> t \<or> mb = 0" by blast+
      from round64_le [OF d b(2) this(1)] obtain m e where "round64 s n d = Finite s m e" "real m * 2 powi e \<le> real mb * 2 powi eb"
        by blast
      then show ?thesis using False \<open>\<not> t \<or> mb = 0\<close> unfolding b(1) dless_finite dvalue_sign \<open>round64 s n d = _\<close>
        using pos [of m e] by auto
    next
      case True
      show ?thesis
      proof (cases t)
        case False
        then show ?thesis using shape True pos [of mb eb] unfolding b(1)
          by (elim disjE exE) (simp_all only: dless_finite dvalue_sign, auto simp: not_less intro: order_trans [OF _ pos])
      next
        case t: True
        then have "real mb * 2 powi eb \<le> real n / real d" using le dv True by simp
        from round64_ge [OF d b(2) this, of s] show ?thesis using True t unfolding b(1)
          by (elim disjE exE conjE) (simp_all only: dless_finite dvalue_sign, simp_all)
      qed
    qed
  qed
qed

subsection \<open>The operations\<close>

lemma shift_quotient: "real (shift_den a k) / real (shift_num 1 k) = real a * 2 powi k"
  by (cases "0 \<le> k") (simp_all add: shift_den_eq shift_num_eq power_int_def divide_simps)

lemma shift_num_pos: "0 < n \<Longrightarrow> 0 < shift_num n k"
  by (simp add: shift_num_eq)

lemma zero_value: "dvalue (Finite s 0 e) = 0"
  by (simp add: signed_sig_def)

lemma rounds_zero: "rounds 0 (Finite s 0 e)"
  unfolding rounds_def by (auto simp: dless_value zero_value simp del: dvalue.simps dless_finite)

lemma rounds_signed:
  "rounds (real_of_int z * 2 powi k) (round64 (z < 0) (shift_den (nat \<bar>z\<bar>) k) (shift_num 1 k))"
proof -
  have "real (nat \<bar>z\<bar>) = (if z < 0 then - real_of_int z else real_of_int z)" by simp
  then have "(if z < 0 then - (real (shift_den (nat \<bar>z\<bar>) k) / real (shift_num 1 k))
      else real (shift_den (nat \<bar>z\<bar>) k) / real (shift_num 1 k)) = real_of_int z * 2 powi k"
    unfolding shift_quotient by simp
  then show ?thesis using rounds_round64 [of "shift_num 1 k" "z < 0" "shift_den (nat \<bar>z\<bar>) k"] shift_num_pos [of 1 k] by simp
qed

lemma rounds_dadd:
  assumes "is_finite a" and "is_finite b"
  shows "rounds (dvalue a + dvalue b) (dadd a b)"
proof -
  obtain s m e t n f where ab: "a = Finite s m e" "b = Finite t n f" using assms by (cases a; cases b) auto
  define k where "k = min e f"
  define z where "z = signed_sig s m * 2 ^ nat (e - k) + signed_sig t n * 2 ^ nat (f - k)"
  have v: "dvalue a + dvalue b = real_of_int z * 2 powi k"
    by (simp only: ab dvalue.simps z_def of_int_add distrib_right of_int_mult of_int_power of_int_numeral mult.assoc powi_shift
        k_def min.cobounded1 min.cobounded2)
  have "dadd a b = (if z = 0 then Finite (s \<and> t) 0 min_exp
      else round64 (z < 0) (shift_den (nat \<bar>z\<bar>) k) (shift_num 1 k))"
    by (simp only: ab dadd.simps Let_def k_def z_def)
  then show ?thesis using rounds_signed [of z k] rounds_zero v by simp
qed

lemma dvalue_dneg: "dvalue (dneg a) = - dvalue a" "is_finite (dneg a) = is_finite a" "well_formed64 (dneg a) = well_formed64 a"
  by (cases a; simp add: signed_sig_def canonical_def)+

lemma rounds_dsub: "is_finite a \<Longrightarrow> is_finite b \<Longrightarrow> rounds (dvalue a - dvalue b) (dsub a b)"
  using rounds_dadd [of a "dneg b"] by (simp add: dsub_def dvalue_dneg)

lemma rounds_dmul:
  assumes "is_finite a" and "is_finite b"
  shows "rounds (dvalue a * dvalue b) (dmul a b)"
proof -
  obtain s m e t n f where ab: "a = Finite s m e" "b = Finite t n f" using assms by (cases a; cases b) auto
  have "dvalue a * dvalue b = (if s \<noteq> t then - (real (m * n) * 2 powi (e + f)) else real (m * n) * 2 powi (e + f))"
    by (simp add: ab dvalue_sign power_int_add del: dvalue.simps)
  then show ?thesis
    using rounds_round64 [of "shift_num 1 (e + f)" "s \<noteq> t" "shift_den (m * n) (e + f)"] shift_num_pos [of 1 "e + f"]
    unfolding shift_quotient ab dmul.simps by simp
qed

lemma rounds_ddiv:
  assumes "is_finite a" and "is_finite b" and "\<not> dzero b"
  shows "rounds (dvalue a / dvalue b) (ddiv a b)"
proof -
  obtain s m e t n f where ab: "a = Finite s m e" "b = Finite t n f" "n \<noteq> 0" using assms by (cases a; cases b) auto
  have "real (shift_den m (e - f)) / real (shift_num n (e - f)) = real m / real n * 2 powi (e - f)"
    using ab(3) by (cases "0 \<le> e - f") (simp_all add: shift_den_eq shift_num_eq power_int_def divide_simps)
  then have "dvalue a / dvalue b = (if s \<noteq> t then - (real (shift_den m (e - f)) / real (shift_num n (e - f)))
      else real (shift_den m (e - f)) / real (shift_num n (e - f)))"
    by (simp add: ab dvalue_sign power_int_diff del: dvalue.simps)
  then show ?thesis
    using rounds_round64 [of "shift_num n (e - f)" "s \<noteq> t" "shift_den m (e - f)"] shift_num_pos [of n "e - f"] ab
    by simp
qed

lemma wf_round: "0 < d \<Longrightarrow> well_formed64 (round64 s n d)"
  by (rule round64_well_formed)

lemma wf_zero: "well_formed64 (Finite s 0 min_exp)"
  by (simp add: canonical_def min_exp_def max_exp_def sig_top_def)

lemma wf_ops:
  "well_formed64 a \<Longrightarrow> well_formed64 b \<Longrightarrow> well_formed64 (dadd a b)"
  "well_formed64 a \<Longrightarrow> well_formed64 b \<Longrightarrow> well_formed64 (dsub a b)"
  "well_formed64 a \<Longrightarrow> well_formed64 b \<Longrightarrow> well_formed64 (dmul a b)"
  "well_formed64 a \<Longrightarrow> well_formed64 b \<Longrightarrow> well_formed64 (ddiv a b)"
proof -
  have add: "well_formed64 (dadd a b)" for a b
    by (cases a; cases b) (auto simp: Let_def wf_round wf_zero shift_num_pos simp del: well_formed64.simps(1))
  then show "well_formed64 (dadd a b)" "well_formed64 (dsub a b)" by (simp_all add: dsub_def)
  show "well_formed64 (dmul a b)"
    by (cases a; cases b) (auto simp: wf_round shift_num_pos simp del: well_formed64.simps(1))
  show "well_formed64 (ddiv a b)"
    by (cases a; cases b) (auto simp: wf_round wf_zero shift_num_pos simp del: well_formed64.simps(1))
qed

lemma rounds_between:
  assumes "rounds x r" and "is_finite a" "well_formed64 a" "is_finite b" "well_formed64 b"
    and "dvalue a \<le> x" and "x \<le> dvalue b"
  shows "is_finite r" and "dvalue a \<le> dvalue r" and "dvalue r \<le> dvalue b"
proof -
  have r: "r \<noteq> NaN" "\<not> dless r a" "\<not> dless b r" using roundsD [OF assms(1)] assms by blast+
  show f: "is_finite r" using r assms(2,4) by (cases r; cases a; cases b) (auto split: if_splits)
  show "dvalue a \<le> dvalue r" "dvalue r \<le> dvalue b" using r assms(2,4) f by (simp_all add: dless_value not_less del: dless_finite)
qed

text \<open>A power of two in range is a double, and so is half a double that is large enough.\<close>

definition power64 :: "int \<Rightarrow> binary64" where
  "power64 k = (if k + 1022 < 0 then Finite False (2 ^ nat (k + 1074)) min_exp else Finite False sig_top (k - 52))"

lemma power64:
  assumes "- 1074 \<le> k" and "k \<le> 1023"
  shows "is_finite (power64 k)" and "well_formed64 (power64 k)" and "dvalue (power64 k) = 2 powi k"
proof -
  show "is_finite (power64 k)" by (simp add: power64_def)
  have "(2::nat) ^ nat (k + 1074) < 2 ^ 53" if "k + 1022 < 0" using that by (intro power_strict_increasing) simp_all
  then show "well_formed64 (power64 k)" using assms by (auto simp: power64_def canonical_def sig_top_def min_exp_def max_exp_def)
  have "(2::real) ^ nat (k + 1074) * 2 powi (- 1074) = 2 powi k" using powi_shift [of "- 1074" k] assms by simp
  moreover have "(2::real) ^ 52 * 2 powi (k - 52) = 2 powi k" by (simp add: power_int_diff)
  ultimately show "dvalue (power64 k) = 2 powi k"
    by (simp add: power64_def sig_top_def min_exp_def signed_sig_def)
qed

lemma half64:
  assumes "well_formed64 a" and "is_finite a" and "2 powi (- 1020) \<le> dvalue a"
  shows "\<exists>b. is_finite b \<and> well_formed64 b \<and> dvalue b = dvalue a / 2"
proof -
  obtain s m e where a: "a = Finite s m e" using assms(2) by (cases a) auto
  have c: "canonical s m e" using assms(1) by (simp add: a)
  have "e \<noteq> min_exp"
  proof
    assume e: "e = min_exp"
    have "dvalue a \<le> real m * 2 powi e" unfolding a dvalue_sign by simp
    also have "\<dots> \<le> (2 ^ 53 - 1) * 2 powi e" by (rule canonical_upper [OF c])
    also have "\<dots> < 2 ^ 53 * 2 powi min_exp" unfolding e by (intro mult_strict_right_mono) simp_all
    also have "\<dots> = 2 powi (53 + min_exp)" by (simp add: power_int_add)
    also have "\<dots> < 2 powi (- 1020)" by (intro power_int_strict_increasing) (simp_all add: min_exp_def)
    finally show False using assms(3) by simp
  qed
  then have "canonical s m (e - 1)" using c by (simp add: canonical_def)
  moreover have "dvalue (Finite s m (e - 1)) = dvalue a / 2" by (simp add: a power_int_diff)
  ultimately show ?thesis by (intro exI [of _ "Finite s m (e - 1)"]) simp
qed

text \<open>A quotient of at most half the least double rounds to zero.\<close>

lemma round64_tiny:
  assumes d: "0 < d" and tiny: "n * 2 ^ 1075 < d"
  shows "round64 s n d = Finite s 0 min_exp"
proof (cases "n = 0")
  case False
  then have n: "0 < n" by simp
  define l where "l = floor_log2 n d"
  have l: "l < - 1074"
  proof (rule ccontr)
    assume "\<not> l < - 1074"
    then have p: "nat (- l) + 1 \<le> 1075 + nat l" by arith
    have b: "d * 2 ^ nat l \<le> n * 2 ^ nat (- l)"
      using floor_log2_bounds [OF n d] by (simp add: l_def shift_num_eq shift_den_eq)
    have "n * 2 ^ (nat (- l) + 1) \<le> n * 2 ^ (1075 + nat l)" using p by (intro mult_left_mono power_increasing) simp_all
    also have "\<dots> = n * 2 ^ 1075 * 2 ^ nat l" by (simp only: power_add mult.assoc)
    also have "\<dots> < d * 2 ^ nat l" using tiny by simp
    finally show False using b by simp
  qed
  then have e: "max min_exp (floor_log2 n d - 52) = min_exp" by (simp add: l_def min_exp_def)
  have "2 * shift_num n min_exp < shift_den d min_exp" using tiny by (simp add: shift_num_eq shift_den_eq min_exp_def)
  then have "round_even (shift_num n min_exp) (shift_den d min_exp) = 0" by (simp add: round_even_def)
  then show ?thesis unfolding round64_def Let_def e by (simp add: sig_top_def min_exp_def max_exp_def)
qed (simp add: round64_def)

lemma ddiv_tiny:
  assumes ab: "is_finite a" "is_finite b" and nz: "\<not> dzero b" and tiny: "\<bar>dvalue a / dvalue b\<bar> < 2 powi (- 1075)"
  shows "is_finite (ddiv a b)" and "dvalue (ddiv a b) = 0"
proof -
  obtain s m e t n f where d: "a = Finite s m e" "b = Finite t n f" "n \<noteq> 0" using ab nz by (cases a; cases b) auto
  have q: "real (shift_den m (e - f)) / real (shift_num n (e - f)) = real m / real n * 2 powi (e - f)"
    using d(3) by (cases "0 \<le> e - f") (simp_all add: shift_den_eq shift_num_eq power_int_def divide_simps)
  have pos: "0 < shift_num n (e - f)" using d(3) by (simp add: shift_num_eq)
  have absq: "real m / real n * 2 powi (e - f) = \<bar>dvalue a / dvalue b\<bar>"
    by (simp add: d signed_sig_def abs_mult power_int_diff)
  have "real (shift_den m (e - f)) / real (shift_num n (e - f)) < 2 powi (- 1075)"
    using tiny unfolding q by (simp only: absq)
  then have "real (shift_den m (e - f) * 2 ^ 1075) < real (shift_num n (e - f))"
    using pos by (simp add: power_int_minus divide_simps split: if_split_asm)
  then have "shift_den m (e - f) * 2 ^ 1075 < shift_num n (e - f)" by (simp only: of_nat_less_iff)
  from round64_tiny [OF pos this] have "ddiv a b = Finite (s \<noteq> t) 0 min_exp" using d by simp
  then show "is_finite (ddiv a b)" "dvalue (ddiv a b) = 0" by (simp_all add: signed_sig_def)
qed

text \<open>Away from the two zeros, a value is one double.\<close>

lemma canonical_unique:
  assumes "canonical s m e" and "canonical t n f" and "m \<noteq> 0" and "real m * 2 powi e = real n * 2 powi f"
  shows "m = n \<and> e = f"
proof -
  have le: "f \<le> e" if c: "canonical s m e" "canonical t n f" "m \<noteq> 0" "real m * 2 powi e = real n * 2 powi f" for s m e t n f
  proof (rule ccontr)
    assume "\<not> f \<le> e"
    then have ef: "e < f" by simp
    then have "sig_top \<le> n" using c(1,2) by (auto simp: canonical_def)
    have "real m * 2 powi e \<le> (2 ^ 53 - 1) * 2 powi e" by (rule canonical_upper [OF c(1)])
    also have "\<dots> < 2 ^ 52 * 2 powi (e + 1)" by (simp add: power_int_add)
    also have "\<dots> \<le> 2 ^ 52 * 2 powi f" using ef by (intro mult_left_mono power_int_increasing) simp_all
    also have "\<dots> \<le> real n * 2 powi f" using \<open>sig_top \<le> n\<close> by (simp add: sig_top_def)
    finally show False using c(4) by simp
  qed
  have "0 < real m * 2 powi e" using assms(3) by simp
  then have "n \<noteq> 0" unfolding assms(4) by (cases "n = 0") simp_all
  then have "e = f" using le [OF assms] le [OF assms(2,1) _ assms(4) [symmetric]] by simp
  then show ?thesis using assms(4) by simp
qed

lemma dvalue_unique:
  assumes "well_formed64 a" "is_finite a" "well_formed64 b" "is_finite b" and "dvalue a = dvalue b" and "\<not> dzero a"
  shows "a = b"
proof -
  obtain s m e t n f where ab: "a = Finite s m e" "b = Finite t n f" using assms(2,4) by (cases a; cases b) auto
  have c: "canonical s m e" "canonical t n f" "m \<noteq> 0" using assms by (simp_all add: ab)
  have pos: "0 < real m * 2 powi e" "0 \<le> real n * 2 powi f" using c(3) by simp_all
  have "s = t" and "real m * 2 powi e = real n * 2 powi f"
    using assms(5) pos unfolding ab dvalue_sign
    by (cases s; cases t; simp only: if_True if_False refl neg_equal_iff_equal; linarith)+
  with canonical_unique [OF c] show ?thesis by (simp add: ab)
qed

text \<open>A natural number as a double: \<open>static_cast<double>\<close> of a \<open>std::size_t\<close>.\<close>

definition of_nat64 :: "nat \<Rightarrow> binary64" where
  "of_nat64 n = round64 False n 1"

lemma of_u64_nat: "of_u64 w = of_nat64 (unat w)"
  by (simp add: of_u64_def of_nat64_def)

lemma represents_value:
  assumes "represents r x"
  shows "is_finite r" and "dvalue r = of_int x"
proof -
  obtain s m e where r: "r = Finite s m e" using assms by (cases r) auto
  then show "is_finite r" by simp
  have "real_of_int (signed_sig s m * 2 ^ nat e) = real_of_int (x * 2 ^ nat (- e))" using assms by (simp only: r represents.simps)
  then show "dvalue r = of_int x"
    by (cases "0 \<le> e") (simp_all add: r power_int_def divide_simps)
qed

lemma of_nat64_exact:
  assumes "n < 2 ^ 53"
  shows "is_finite (of_nat64 n)" and "dvalue (of_nat64 n) = real n" and "well_formed64 (of_nat64 n)"
proof -
  have r: "represents (of_nat64 n) (int n)"
    using round64_exact [of 1 n n False] assms by (simp add: of_nat64_def)
  from represents_value [OF r] show "is_finite (of_nat64 n)" "dvalue (of_nat64 n) = real n" by simp_all
qed (simp add: of_nat64_def wf_round)

text \<open>In the normal range a rounded result is within one part in \<open>2 ^ 52\<close> of the exact one.\<close>

lemma binade:
  assumes "0 < (x::real)"
  obtains l where "2 powi l \<le> x" and "x < 2 powi (l + 1)"
proof -
  define l where "l = \<lfloor>log 2 x\<rfloor>"
  have "2 powr real_of_int l \<le> x" "x < 2 powr real_of_int (l + 1)"
    using assms by (simp_all add: l_def le_log_iff [symmetric] log_less_iff [symmetric])
  moreover have p: "2 powr real_of_int i = 2 powi i" for i by (simp add: powr_real_of_int')
  ultimately show ?thesis using that [of l] by (simp only: p)
qed

lemma rounds_near:
  assumes r: "rounds x r" and low: "2 powi (- 1000) \<le> x" and up: "x \<le> 2 powi 1000"
  shows "is_finite r" and "x * (1 - 1 / 2 ^ 52) \<le> dvalue r" and "dvalue r \<le> x * (1 + 1 / 2 ^ 52)"
proof -
  have x: "0 < x" using low powi_pos [of "- 1000"] by linarith
  obtain l where l: "2 powi l \<le> x" "x < 2 powi (l + 1)" by (rule binade [OF x])
  have "(2::real) powi (- 1000) < 2 powi (l + 1)" "2 powi l \<le> (2::real) powi 1000" using low up l by linarith+
  then have range: "- 1001 \<le> l" "l \<le> 1000" by (simp_all only: powi_less_iff powi_le_iff)
  define e where "e = l - 52"
  define k where "k = nat \<lfloor>x / 2 powi e\<rfloor>"
  have e: "2 powi e * 2 ^ 52 = (2::real) powi l" "2 powi e * 2 ^ 53 = (2::real) powi (l + 1)"
    by (simp_all add: e_def power_int_diff power_int_add)
  have q: "2 ^ 52 \<le> x / 2 powi e" "x / 2 powi e < 2 ^ 53"
    using l unfolding e [symmetric] by (simp_all add: pos_le_divide_eq pos_divide_less_eq mult.commute)
  then have "real k = of_int \<lfloor>x / 2 powi e\<rfloor>" by (simp add: k_def)
  then have k: "real k \<le> x / 2 powi e" "x / 2 powi e < real k + 1" by linarith+
  have "2 ^ 52 < real k + 1" "real k < 2 ^ 53" using k q by linarith+
  then have "real (2 ^ 52) < real (k + 1)" "real k < real (2 ^ 53)" by simp_all
  then have kb: "2 ^ 52 \<le> k" "k < 2 ^ 53" unfolding of_nat_less_iff by simp_all
  define a b where "a = Finite False k e"
    and "b = (if k + 1 = 2 ^ 53 then Finite False sig_top (e + 1) else Finite False (k + 1) e)"
  have ab: "is_finite a" "well_formed64 a" "is_finite b" "well_formed64 b"
    using kb range by (auto simp: a_def b_def canonical_def sig_top_def min_exp_def max_exp_def e_def)
  have va: "dvalue a = real k * 2 powi e" by (simp add: a_def signed_sig_def)
  have vb: "dvalue b = (real k + 1) * 2 powi e"
  proof (cases "k + 1 = 2 ^ 53")
    case True
    then have "real (k + 1) = real (2 ^ 53)" by (simp only:)
    then have "real k + 1 = 2 * 2 ^ 52" by simp
    then show ?thesis using True by (simp add: b_def sig_top_def signed_sig_def power_int_add)
  qed (simp add: b_def signed_sig_def)
  have in_ab: "dvalue a \<le> x" "x \<le> dvalue b"
    using k unfolding va vb by (simp_all add: pos_le_divide_eq pos_divide_less_eq)
  have step: "dvalue b = dvalue a + 2 powi e" unfolding va vb by (simp add: algebra_simps)
  have ulp: "2 powi e \<le> x * (1 / 2 ^ 52)" using q(1) by (simp add: pos_le_divide_eq mult.commute)
  note between = rounds_between [OF r ab in_ab]
  show "is_finite r" by (rule between(1))
  show "x * (1 - 1 / 2 ^ 52) \<le> dvalue r" "dvalue r \<le> x * (1 + 1 / 2 ^ 52)"
    using between(2,3) in_ab step ulp unfolding right_diff_distrib distrib_left mult_1_right by linarith+
qed

subsection \<open>The square root\<close>

fun isqrt :: "nat \<Rightarrow> nat" where
  "isqrt n = (if n = 0 then 0 else let r = 2 * isqrt (n div 4) in if (r + 1) * (r + 1) \<le> n then r + 1 else r)"

declare isqrt.simps [simp del]

lemma isqrt_bounds: "isqrt n * isqrt n \<le> n \<and> n < (isqrt n + 1) * (isqrt n + 1)"
proof (induction n rule: less_induct)
  case (less n)
  show ?case
  proof (cases "n = 0")
    case True
    then show ?thesis by (simp add: isqrt.simps [of 0])
  next
    case False
    define r where "r = isqrt (n div 4)"
    have ih: "r * r \<le> n div 4" "n div 4 < (r + 1) * (r + 1)" using less [of "n div 4"] False by (simp_all add: r_def)
    then have "4 * (r * r) \<le> n" "n < 4 * ((r + 1) * (r + 1))" by linarith+
    then have "2 * r * (2 * r) \<le> n" "n < (2 * r + 2) * (2 * r + 2)" by (simp_all add: algebra_simps)
    then show ?thesis
      unfolding isqrt.simps [of n] r_def [symmetric] Let_def using False by (simp add: algebra_simps)
  qed
qed

fun dsqrt :: "binary64 \<Rightarrow> binary64" where
  "dsqrt NaN = NaN"
| "dsqrt (Infinite s) = (if s then NaN else Infinite False)"
| "dsqrt (Finite s m e) =
     (if m = 0 then Finite s 0 min_exp
      else if s then NaN
      else
        let p = (if even e then 128 else 129);
            n = m * 2 ^ nat p;
            k = (e - p) div 2;
            r = isqrt n;
            q = (if r * r = n then 2 * r else 2 * r + 1)
        in round64 False (shift_den q (k - 1)) (shift_num 1 (k - 1)))"

lemma sticky_root:
  assumes b: "canonical t mb eb" and n: "2 ^ 128 \<le> n"
  defines "q \<equiv> if isqrt n * isqrt n = n then 2 * isqrt n else 2 * isqrt n + 1"
  shows "real mb * 2 powi eb \<le> sqrt (real n) * 2 powi k \<Longrightarrow> real mb * 2 powi eb \<le> real q * 2 powi (k - 1)"
    and "sqrt (real n) * 2 powi k \<le> real mb * 2 powi eb \<Longrightarrow> real q * 2 powi (k - 1) \<le> real mb * 2 powi eb"
proof -
  define r where "r = isqrt n"
  have rb: "r * r \<le> n" "n < (r + 1) * (r + 1)" using isqrt_bounds [of n] by (simp_all add: r_def)
  have big: "2 ^ 63 \<le> r"
  proof (rule ccontr)
    assume "\<not> 2 ^ 63 \<le> r"
    then have "(r + 1) * (r + 1) \<le> 2 ^ 63 * 2 ^ 63" by (intro mult_le_mono) simp_all
    then show False using rb(2) n by simp
  qed
  have q: "real q * 2 powi (k - 1) = real q / 2 * 2 powi k" by (simp add: power_int_diff)
  have q2: "2 * r \<le> q" "q \<le> 2 * r + 1" "q = 2 * r \<longleftrightarrow> r * r = n" by (simp_all add: q_def r_def)
  have root: "real r \<le> sqrt (real n)" using rb(1) by (intro real_le_rsqrt) (metis of_nat_le_iff of_nat_mult power2_eq_square)
  have small: "real mb * 2 powi eb < real r * 2 powi k" if "eb < k"
  proof -
    have "real mb * 2 powi eb \<le> (2 ^ 53 - 1) * 2 powi eb" by (rule canonical_upper [OF b])
    also have "\<dots> < 2 ^ 53 * 2 powi k" using that by (intro mult_strict_mono power_int_strict_increasing) simp_all
    also have "\<dots> \<le> real r * 2 powi k" using big by (intro mult_right_mono) simp_all
    finally show ?thesis .
  qed
  have whole: "real mb * 2 powi eb = real (mb * 2 ^ nat (eb - k)) * 2 powi k" if "\<not> eb < k"
    using that by (intro rescale_real) simp
  define c where "c = mb * 2 ^ nat (eb - k)"
  show "real mb * 2 powi eb \<le> real q * 2 powi (k - 1)" if le: "real mb * 2 powi eb \<le> sqrt (real n) * 2 powi k"
  proof (cases "eb < k")
    case True
    have "real r * 2 powi k \<le> real q / 2 * 2 powi k" using q2(1) by (intro mult_right_mono) simp_all
    with small [OF True] show ?thesis unfolding q by linarith
  next
    case False
    have "real c \<le> sqrt (real n)" using le unfolding whole [OF False] c_def [symmetric] by simp
    then have "real c * real c \<le> sqrt (real n) * sqrt (real n)" by (intro mult_mono) simp_all
    then have "real c * real c \<le> real n" by simp
    then have "c * c \<le> n" by (metis of_nat_le_iff of_nat_mult)
    then have "c < r + 1" using rb(2) by (meson linorder_not_le mult_le_mono order_trans not_less)
    then show ?thesis using q2(1) unfolding whole [OF False] c_def [symmetric] q by (intro mult_right_mono) simp_all
  qed
  show "real q * 2 powi (k - 1) \<le> real mb * 2 powi eb" if le: "sqrt (real n) * 2 powi k \<le> real mb * 2 powi eb"
  proof (cases "eb < k")
    case True
    have "real r * 2 powi k \<le> sqrt (real n) * 2 powi k" using root by (intro mult_right_mono) simp_all
    with small [OF True] le show ?thesis by linarith
  next
    case False
    have c: "sqrt (real n) \<le> real c" using le unfolding whole [OF False] c_def [symmetric] by simp
    then have "sqrt (real n) * sqrt (real n) \<le> real c * real c" by (intro mult_mono) simp_all
    then have "real n \<le> real c * real c" by simp
    then have nc: "n \<le> c * c" by (metis of_nat_le_iff of_nat_mult)
    have "r \<le> c" using root c by linarith
    have "q \<le> 2 * c"
    proof (cases "r = c")
      case True
      then show ?thesis using nc rb(1) q2(3) by simp
    next
      case False
      then show ?thesis using \<open>r \<le> c\<close> q2(2) by simp
    qed
    then show ?thesis unfolding whole [OF False] c_def [symmetric] q by (intro mult_right_mono) simp_all
  qed
qed

theorem rounds_dsqrt:
  assumes "is_finite a" and "0 \<le> dvalue a"
  shows "rounds (sqrt (dvalue a)) (dsqrt a)"
proof -
  obtain s m e where a: "a = Finite s m e" using assms(1) by (cases a) auto
  show ?thesis
  proof (cases "m = 0")
    case True
    then show ?thesis using rounds_zero by (simp add: a zero_value del: dvalue.simps)
  next
    case False
    define p :: int where "p = (if even e then 128 else 129)"
    define n where "n = m * 2 ^ nat p"
    define k where "k = (e - p) div 2"
    define q where "q = (if isqrt n * isqrt n = n then 2 * isqrt n else 2 * isqrt n + 1)"
    have s: "\<not> s"
    proof
      assume s
      then have "real m * 2 powi e \<le> 0" using assms(2) by (simp add: a dvalue_sign del: dvalue.simps)
      then show False using False powi_pos [of e] by (metis linorder_not_le mult_pos_pos of_nat_0_less_iff neq0_conv)
    qed
    have ek: "e = p + 2 * k" unfolding k_def p_def by auto
    have "(2::nat) ^ 128 \<le> 2 ^ nat p" by (intro power_increasing) (simp_all add: p_def)
    also have "\<dots> \<le> m * 2 ^ nat p" using False by simp
    finally have n128: "2 ^ 128 \<le> n" by (simp only: n_def)
    have "(2::real) ^ nat p = 2 powi p" by (simp add: power_int_def p_def)
    moreover have "2 powi e = 2 powi p * (2 powi k * (2::real) powi k)"
    proof -
      have "e = p + (k + k)" using ek by simp
      then have "(2::real) powi e = 2 powi (p + (k + k))" by simp
      also have "\<dots> = 2 powi p * 2 powi (k + k)" by (rule power_int_add) simp
      also have "(2::real) powi (k + k) = 2 powi k * 2 powi k" by (rule power_int_add) simp
      finally show ?thesis .
    qed
    ultimately have "real n * (2 powi k * 2 powi k) = real m * 2 powi e"
      by (simp only: n_def of_nat_mult of_nat_power of_nat_numeral mult.assoc)
    then have "real n * (2 powi k * 2 powi k) = dvalue a"
      unfolding a dvalue_sign using s by simp
    then have "sqrt (dvalue a) = sqrt (real n * (2 powi k * 2 powi k))" by simp
    then have root: "sqrt (dvalue a) = sqrt (real n) * 2 powi k" by (simp only: real_sqrt_mult real_sqrt_mult_self) simp
    have d: "dsqrt a = round64 False (shift_den q (k - 1)) (shift_num 1 (k - 1))"
      using False s by (simp add: a Let_def p_def n_def k_def q_def)
    have r: "rounds (real q * 2 powi (k - 1)) (dsqrt a)"
      using rounds_round64 [of "shift_num 1 (k - 1)" False "shift_den q (k - 1)"] shift_num_pos [of 1 "k - 1"]
      unfolding d shift_quotient by simp
    have pos: "0 \<le> sqrt (dvalue a)" "0 \<le> real q * 2 powi (k - 1)" using assms(2) by simp_all
    show ?thesis
      unfolding rounds_def
    proof (intro conjI allI impI roundsD(1) [OF r])
      fix b assume fb: "is_finite b" "well_formed64 b"
      then obtain t mb eb where b: "b = Finite t mb eb" "canonical t mb eb" by (cases b) auto
      note sticky = sticky_root [OF b(2) n128, folded q_def, of k]
      have nn: "0 \<le> real mb * 2 powi eb" by simp
      show "\<not> dless (dsqrt a) b" if "dvalue b \<le> sqrt (dvalue a)"
      proof (rule roundsD(2) [OF r fb])
        show "dvalue b \<le> real q * 2 powi (k - 1)"
          using that sticky(1) order_trans [OF _ pos(2), of "- (real mb * 2 powi eb)"] nn
          unfolding b(1) dvalue_sign root by (cases t) auto
      qed
      show "\<not> dless b (dsqrt a)" if "sqrt (dvalue a) \<le> dvalue b"
      proof (rule roundsD(3) [OF r fb])
        have "\<not> t \<or> real mb * 2 powi eb = 0" 
        proof (cases t)
          case True
          then have "sqrt (dvalue a) \<le> - (real mb * 2 powi eb)" using that by (simp only: b(1) dvalue_sign if_True)
          then have "real mb * 2 powi eb = 0" using pos(1) nn by linarith
          then show ?thesis by simp
        qed simp
        then show "real q * 2 powi (k - 1) \<le> dvalue b"
          using that sticky(2) unfolding b(1) dvalue_sign root by (cases t) auto
      qed
    qed
  qed
qed

lemma wf_dsqrt: "well_formed64 (dsqrt a)"
  by (cases a) (auto simp: Let_def wf_round wf_zero shift_num_pos simp del: well_formed64.simps(1))

subsection \<open>Ceilings\<close>

text \<open>
  \<open>static_cast<std::uint64_t> (std::ceil (x))\<close>: the ceiling of a finite double is a double again; a NaN, an
  infinity and a ceiling outside the range make the cast undefined.
\<close>

definition ceil_int :: "int \<Rightarrow> int \<Rightarrow> int" where
  "ceil_int z e = (if 0 \<le> e then z * 2 ^ nat e else - ((- z) div 2 ^ nat (- e)))"

lemma ceil_int: "ceil_int z e = \<lceil>real_of_int z * 2 powi e\<rceil>"
proof (cases "0 \<le> e")
  case True
  then have "real_of_int z * 2 powi e = real_of_int (z * 2 ^ nat e)" by (simp add: power_int_def)
  then show ?thesis using True by (simp only: ceil_int_def if_True ceiling_of_int)
next
  case False
  then have "real_of_int z * 2 powi e = real_of_int z / real_of_int (2 ^ nat (- e))"
    by (simp only: power_int_def if_False of_int_power of_int_numeral divide_inverse power_inverse)
  then have "\<lceil>real_of_int z * 2 powi e\<rceil> = - ((- z) div 2 ^ nat (- e))" by (simp only: ceiling_divide_eq_div)
  then show ?thesis using False by (simp add: ceil_int_def)
qed

fun ceil_u64 :: "binary64 \<Rightarrow> nat checked" where
  "ceil_u64 (Finite s m e) =
     (let c = ceil_int (signed_sig s m) e in if c < 0 \<or> 2 ^ 64 \<le> c then None else Some (nat c))"
| "ceil_u64 _ = None"

lemma ceil_u64_value:
  assumes "is_finite a"
  shows "ceil_u64 a = (if \<lceil>dvalue a\<rceil> < 0 \<or> 2 ^ 64 \<le> \<lceil>dvalue a\<rceil> then None else Some (nat \<lceil>dvalue a\<rceil>))"
proof -
  obtain s m e where a: "a = Finite s m e" using assms by (cases a) auto
  show ?thesis unfolding a ceil_u64.simps Let_def ceil_int dvalue.simps by (rule refl)
qed

end
