(* ===== verification/Calibrate.thy ===== *)
theory Calibrate
  imports Recorder Doubles
begin

text \<open>
  The cost of one sampling action: \<open>calibrate\<close> and the three accessors of \<open>source/counters/plan.cpp\<close>.  The first
  request runs the read sequence of the plan over a scratch buffer of two rows, times every action between two
  readings of the steady clock, and takes the median cost of an empty bracket off every timing; later requests
  answer from the cache.  \<open>now k\<close> is the \<open>k\<close>th reading of the clock, in nanoseconds.
\<close>

record overhead_sample =
  oh_minNs :: binary64
  oh_medianNs :: binary64
  oh_maxNs :: binary64

record calibration =
  cal_calibrated :: bool
  cal_overhead :: overhead_sample
  cal_buffer :: "u64 list"

definition new_calibration :: calibration where
  "new_calibration =
     \<lparr>cal_calibrated = False, cal_overhead = \<lparr>oh_minNs = zero64, oh_medianNs = zero64, oh_maxNs = zero64\<rparr>, cal_buffer = []\<rparr>"

definition kCalibrationWarmup :: nat where "kCalibrationWarmup = 64"
definition kCalibrationSamples :: nat where "kCalibrationSamples = 257"
definition kRows :: nat where "kRows = 2"

text \<open>\<open>std::chrono::duration<double, std::nano>\<close> of a difference of two readings.\<close>

definition nanoseconds :: "int \<Rightarrow> binary64" where
  "nanoseconds d = round64 (d < 0) (nat \<bar>d\<bar>) 1"

text \<open>\<open>n\<close> actions of the plan on the scratch rows, from \<open>head\<close> on.\<close>

fun scratch_rows ::
  "('r, 'w) reader \<Rightarrow> nat \<Rightarrow> 'r plan \<Rightarrow> 'w \<Rightarrow> u64 list \<Rightarrow> nat \<Rightarrow> ('r plan \<times> 'w \<times> u64 list \<times> nat) checked" where
  "scratch_rows thunk 0 pl w columns head = Some (pl, w, columns, head)"
| "scratch_rows thunk (Suc n) pl w columns head =
     (case sampleRow thunk pl w columns kRows (and head (kRows - 1)) of
        None \<Rightarrow> None
      | Some (pl', w', columns') \<Rightarrow> scratch_rows thunk n pl' w' columns' (head + 1))"

definition bracket_costs :: "(nat \<Rightarrow> int) \<Rightarrow> nat \<Rightarrow> nat \<Rightarrow> binary64 list" where
  "bracket_costs now base n = map (\<lambda>i. nanoseconds (now (base + 2 * i + 1) - now (base + 2 * i))) [0..<n]"

definition over_bracket :: "binary64 \<Rightarrow> binary64 \<Rightarrow> binary64" where
  "over_bracket bracket cost = dmax zero64 (dsub cost bracket)"

definition overhead_of :: "binary64 list \<Rightarrow> binary64 list \<Rightarrow> overhead_sample checked" where
  "overhead_of timings brackets =
     Option.bind (sort_doubles brackets) (\<lambda>empties.
       if length empties div 2 \<ge> length empties then None
       else map_option (\<lambda>costs. \<lparr>oh_minNs = hd costs, oh_medianNs = costs ! (length costs div 2), oh_maxNs = last costs\<rparr>)
              (sort_doubles (map (over_bracket (empties ! (length empties div 2))) timings)))"

definition calibrate ::
  "('r, 'w) reader \<Rightarrow> (nat \<Rightarrow> int) \<Rightarrow> 'r plan \<Rightarrow> 'w \<Rightarrow> calibration \<Rightarrow> ('r plan \<times> 'w \<times> calibration) checked" where
  "calibrate thunk now pl w cal =
     (if cal_calibrated cal then Some (pl, w, cal)
      else
        case scratch_rows thunk kCalibrationWarmup pl w (replicate (columnCount pl * kRows) 0) 0 of
          None \<Rightarrow> None
        | Some (pl1, w1, columns1, head) \<Rightarrow>
            (case scratch_rows thunk kCalibrationSamples pl1 w1 columns1 head of
               None \<Rightarrow> None
             | Some (pl2, w2, columns2, _) \<Rightarrow>
                 map_option (\<lambda>oh. (pl2, w2, \<lparr>cal_calibrated = True, cal_overhead = oh, cal_buffer = columns2\<rparr>))
                   (overhead_of (bracket_costs now 0 kCalibrationSamples)
                      (bracket_costs now (2 * kCalibrationSamples) kCalibrationSamples))))"

text \<open>The accessors, with the contract each ensures.\<close>

definition sampleOverheadNsMin where
  "sampleOverheadNsMin thunk now pl w cal =
     (case calibrate thunk now pl w cal of
        None \<Rightarrow> None
      | Some (pl', w', cal') \<Rightarrow>
          if dless (oh_minNs (cal_overhead cal')) zero64 then None else Some (oh_minNs (cal_overhead cal'), pl', w', cal'))"

definition sampleOverheadNsMedian where
  "sampleOverheadNsMedian thunk now pl w cal =
     (case calibrate thunk now pl w cal of
        None \<Rightarrow> None
      | Some (pl', w', cal') \<Rightarrow>
          if dless (oh_medianNs (cal_overhead cal')) zero64 then None else Some (oh_medianNs (cal_overhead cal'), pl', w', cal'))"

definition sampleOverheadNsMax where
  "sampleOverheadNsMax thunk now pl w cal =
     (case calibrate thunk now pl w cal of
        None \<Rightarrow> None
      | Some (pl', w', cal') \<Rightarrow>
          if dless (oh_maxNs (cal_overhead cal')) (oh_minNs (cal_overhead cal')) then None
          else Some (oh_maxNs (cal_overhead cal'), pl', w', cal'))"

subsection \<open>Timings of a steady clock\<close>

definition steady :: "(nat \<Rightarrow> int) \<Rightarrow> bool" where
  "steady now \<longleftrightarrow> (\<forall>i. now i \<le> now (Suc i) \<and> 0 \<le> now i \<and> now i < 2 ^ 63)"

definition timing :: "binary64 \<Rightarrow> bool" where
  "timing d \<longleftrightarrow> is_finite d \<and> well_formed64 d \<and> 0 \<le> dvalue d \<and> dvalue d \<le> 2 powi 63"

lemma timing_D: "timing d \<Longrightarrow> is_finite d \<and> d \<noteq> NaN"
  by (auto simp: timing_def)

lemma nanoseconds_timing:
  assumes "0 \<le> d" and "d < 2 ^ 63"
  shows "timing (nanoseconds d)"
proof -
  have "real (nat d) < real (2 ^ 63)" using assms by (simp only: of_nat_less_iff) simp
  then have up: "real (nat d) \<le> dvalue (power64 63)" by (simp add: power64)
  have z: "is_finite (power64 (- 1074))" "well_formed64 zero64" "is_finite zero64" "dvalue zero64 = 0"
    by (simp_all add: power64 zero64_def signed_sig_def canonical_def sig_top_def min_exp_def max_exp_def)
  have r: "rounds (real (nat d)) (nanoseconds d)" using rounds_round64 [of 1 False "nat d"] assms by (simp add: nanoseconds_def)
  have p: "is_finite (power64 63)" "well_formed64 (power64 63)" "dvalue (power64 63) = 2 powi 63" by (rule power64; simp)+
  from rounds_between [OF r z(3,2) p(1,2) _ up] show ?thesis
    unfolding timing_def p(3) z(4) by (simp add: nanoseconds_def wf_round)
qed

lemma bracket_timings: "steady now \<Longrightarrow> \<forall>d\<in>set (bracket_costs now base n). timing d"
proof
  fix d assume st: "steady now" and "d \<in> set (bracket_costs now base n)"
  then obtain j where d: "d = nanoseconds (now (Suc j) - now j)" by (auto simp: bracket_costs_def)
  have "now j \<le> now (Suc j)" "0 \<le> now j" "now (Suc j) < 2 ^ 63" using st by (simp_all add: steady_def)
  then show "timing d" unfolding d by (intro nanoseconds_timing) linarith+
qed

lemma over_bracket_timing:
  assumes "timing b" and "timing c"
  shows "timing (over_bracket b c)"
proof -
  have b: "is_finite b" "well_formed64 b" "0 \<le> dvalue b" "dvalue b \<le> 2 powi 63"
    and c: "is_finite c" "well_formed64 c" "0 \<le> dvalue c" "dvalue c \<le> 2 powi 63" using assms by (simp_all add: timing_def)
  have z: "is_finite zero64" "well_formed64 zero64" "dvalue zero64 = 0"
    by (simp_all add: zero64_def signed_sig_def canonical_def sig_top_def min_exp_def max_exp_def)
  have nb: "is_finite (dneg b)" "well_formed64 (dneg b)" "dvalue (dneg b) = - dvalue b"
    using b by (simp_all add: dvalue_dneg)
  have "is_finite (dsub c b)" "dvalue (dsub c b) \<le> dvalue c"
    using rounds_between [OF rounds_dsub [OF c(1) b(1)] nb(1,2) c(1,2)] b c nb(3) by simp_all
  moreover have "well_formed64 (dsub c b)" using b c by (intro wf_ops)
  ultimately show ?thesis
    using z c(4) by (auto simp: timing_def over_bracket_def dmax_def dless_value simp del: dless_finite)
qed

lemma overhead_of_timings:
  assumes t: "\<forall>d\<in>set timings. timing d" "timings \<noteq> []" and b: "\<forall>d\<in>set brackets. timing d" "brackets \<noteq> []"
  obtains oh where "overhead_of timings brackets = Some oh"
    and "0 \<le> dvalue (oh_minNs oh)" and "\<not> dless (oh_minNs oh) zero64" and "\<not> dless (oh_medianNs oh) zero64"
    and "\<not> dless (oh_medianNs oh) (oh_minNs oh)" and "\<not> dless (oh_maxNs oh) (oh_medianNs oh)"
    and "\<not> dless (oh_maxNs oh) (oh_minNs oh)"
proof -
  have "NaN \<notin> set brackets" using b timing_D by blast
  then obtain es where es: "sort_doubles brackets = Some es" by (simp add: sort_doubles_def)
  note e = sorted_doubles [OF es]
  have el: "length es div 2 < length es" using e(3) b(2) by (cases es) auto
  then have "es ! (length es div 2) \<in> set brackets" using e(1) by (metis mset_eq_setD nth_mem)
  then have bt: "timing (es ! (length es div 2))" using b by blast
  define cs where "cs = map (over_bracket (es ! (length es div 2))) timings"
  have ct: "\<forall>d\<in>set cs. timing d" "cs \<noteq> []" using t over_bracket_timing [OF bt] by (auto simp: cs_def)
  then have "NaN \<notin> set cs" using timing_D by blast
  then obtain os where os: "sort_doubles cs = Some os" by (simp add: sort_doubles_def)
  note o = sorted_doubles [OF os]
  have ne: "os \<noteq> []" and so: "set os = set cs" using o ct(2) by (auto dest: mset_eq_setD)
  let ?m = "os ! (length os div 2)"
  have ml: "length os div 2 < length os" using ne by simp
  then have mem: "hd os \<in> set os" "last os \<in> set os" "?m \<in> set os" using ne by simp_all
  then have ts: "timing (hd os)" "timing (last os)" "timing ?m" using ct so by blast+
  have nz: "\<not> dless d zero64" if "timing d" for d
    using that by (auto simp: timing_def dless_value zero64_def signed_sig_def simp del: dless_finite dvalue.simps)
      (simp add: signed_sig_def)
  have order: "\<not> dless ?m (hd os)" "\<not> dless (last os) ?m" "\<not> dless (last os) (hd os)"
    using in_order_hd [OF o(2)] in_order_last [OF o(2)] mem by simp_all
  have "overhead_of timings brackets = Some \<lparr>oh_minNs = hd os, oh_medianNs = ?m, oh_maxNs = last os\<rparr>"
    using el by (simp add: overhead_of_def es cs_def [symmetric] os)
  then show ?thesis using that order ts nz by (simp add: timing_def)
qed

subsection \<open>The calibration of a plan whose windows stand\<close>

text \<open>The plan and the world after \<open>n\<close> actions.\<close>

fun after_actions where
  "after_actions advance 0 pl w = (pl, w)"
| "after_actions advance (Suc n) pl w =
     after_actions advance n (action_plan advance pl w) (action_world advance (pl_groups pl) w)"

context provider_seam
begin

lemma scratch_rows_run:
  "sampling_ok pl w \<Longrightarrow> length columns = columnCount pl * kRows \<Longrightarrow>
   \<exists>columns'. scratch_rows thunk n pl w columns head
       = Some (fst (after_actions advance n pl w), snd (after_actions advance n pl w), columns', head + n)
     \<and> sampling_ok (fst (after_actions advance n pl w)) (snd (after_actions advance n pl w))
     \<and> columnCount (fst (after_actions advance n pl w)) = columnCount pl \<and> length columns' = columnCount pl * kRows"
proof (induction n arbitrary: pl w columns head)
  case (Suc n)
  have line: "and head (kRows - 1) < kRows" using and_mask_mod [of head 1] by (simp add: kRows_def)
  obtain b where b: "sampleRow thunk pl w columns kRows (and head (kRows - 1)) = Some (next_plan pl w, next_world pl w, b)"
    "length b = length columns"
    using sampleRow_fills [OF Suc.prems line] by blast
  note n = next_plan_ok [OF Suc.prems(1)]
  from Suc.IH [OF n(1), of b "head + 1"] b Suc.prems(2) n(4) show ?case by auto
qed simp

lemma after_actions_add:
  "after_actions advance (m + n) pl w = after_actions advance n (fst (after_actions advance m pl w)) (snd (after_actions advance m pl w))"
  by (induction m arbitrary: pl w) simp_all

lemma calibrate_runs:
  assumes ok: "sampling_ok pl w" and clock: "steady now"
  shows "\<exists>cal. calibrate thunk now pl w new_calibration
       = Some (fst (after_actions advance 321 pl w), snd (after_actions advance 321 pl w), cal)
     \<and> cal_calibrated cal \<and> 0 \<le> dvalue (oh_minNs (cal_overhead cal))
     \<and> \<not> dless (oh_minNs (cal_overhead cal)) zero64 \<and> \<not> dless (oh_medianNs (cal_overhead cal)) zero64
     \<and> \<not> dless (oh_medianNs (cal_overhead cal)) (oh_minNs (cal_overhead cal))
     \<and> \<not> dless (oh_maxNs (cal_overhead cal)) (oh_medianNs (cal_overhead cal))
     \<and> \<not> dless (oh_maxNs (cal_overhead cal)) (oh_minNs (cal_overhead cal))"
proof -
  let ?p = "\<lambda>n. fst (after_actions advance n pl w)" and ?w = "\<lambda>n. snd (after_actions advance n pl w)"
  obtain c1 where c1: "scratch_rows thunk 64 pl w (replicate (columnCount pl * kRows) 0) 0 = Some (?p 64, ?w 64, c1, 0 + 64)"
    "sampling_ok (?p 64) (?w 64)" "columnCount (?p 64) = columnCount pl" "length c1 = columnCount pl * kRows"
    using scratch_rows_run [OF ok, of "replicate (columnCount pl * kRows) 0" 64 0] by auto
  obtain c2 where c2: "scratch_rows thunk 257 (?p 64) (?w 64) c1 (0 + 64) = Some (?p 321, ?w 321, c2, 0 + 64 + 257)"
    using scratch_rows_run [OF c1(2), of c1 257 "0 + 64"] c1(3,4) after_actions_add [of 64 257 pl w] by auto
  have ne: "bracket_costs now b 257 \<noteq> []" for b by (simp add: bracket_costs_def)
  obtain oh where oh: "overhead_of (bracket_costs now 0 257) (bracket_costs now (2 * 257) 257) = Some oh"
    "0 \<le> dvalue (oh_minNs oh)" "\<not> dless (oh_minNs oh) zero64" "\<not> dless (oh_medianNs oh) zero64"
    "\<not> dless (oh_medianNs oh) (oh_minNs oh)" "\<not> dless (oh_maxNs oh) (oh_medianNs oh)"
    "\<not> dless (oh_maxNs oh) (oh_minNs oh)"
    by (rule overhead_of_timings [OF bracket_timings [OF clock] ne bracket_timings [OF clock] ne])
  have "calibrate thunk now pl w new_calibration
      = Some (?p 321, ?w 321, \<lparr>cal_calibrated = True, cal_overhead = oh, cal_buffer = c2\<rparr>)"
    unfolding calibrate_def kCalibrationWarmup_def kCalibrationSamples_def c1(1) option.case prod.case c2 oh(1)
    by (simp add: new_calibration_def)
  with oh show ?thesis by auto
qed

end

text \<open>
  The overhead figures of a plan compiled from the shipped providers are durations in order,
  \<open>0 \<le> min \<le> median \<le> max\<close>, so no accessor breaks its contract; the first request samples exactly 321 actions, and
  a later request reads neither the windows nor the clock again and answers the same.
\<close>

theorem overhead_is_measured_once:
  assumes "reachable_tree s" and "compileCore (provider_open pf) (w_thread w) s tg exprs w = Some (Inr pl, w1)"
    and "world_fit w" and "steady now"
  shows "\<exists>pl2 w2 cal least middle most.
      after_actions window_advance 321 pl w1 = (pl2, w2)
    \<and> sampleOverheadNsMin (window_read pf) now pl w1 new_calibration = Some (least, pl2, w2, cal)
    \<and> sampleOverheadNsMedian (window_read pf) now pl w1 new_calibration = Some (middle, pl2, w2, cal)
    \<and> sampleOverheadNsMax (window_read pf) now pl w1 new_calibration = Some (most, pl2, w2, cal)
    \<and> 0 \<le> dvalue least \<and> \<not> dless middle least \<and> \<not> dless most middle
    \<and> (\<forall>later pl3 w3. sampleOverheadNsMin (window_read pf) later pl3 w3 cal = Some (least, pl3, w3, cal)
         \<and> sampleOverheadNsMedian (window_read pf) later pl3 w3 cal = Some (middle, pl3, w3, cal)
         \<and> sampleOverheadNsMax (window_read pf) later pl3 w3 cal = Some (most, pl3, w3, cal))"
proof -
  from shipped_seam.calibrate_runs [OF compiled_sampling_ok(1) [OF assms(1-3)] assms(4), of pf]
  obtain cal where cal: "calibrate (window_read pf) now pl w1 new_calibration
      = Some (fst (after_actions window_advance 321 pl w1), snd (after_actions window_advance 321 pl w1), cal)"
    "cal_calibrated cal" "0 \<le> dvalue (oh_minNs (cal_overhead cal))"
    "\<not> dless (oh_minNs (cal_overhead cal)) zero64" "\<not> dless (oh_medianNs (cal_overhead cal)) zero64"
    "\<not> dless (oh_medianNs (cal_overhead cal)) (oh_minNs (cal_overhead cal))"
    "\<not> dless (oh_maxNs (cal_overhead cal)) (oh_medianNs (cal_overhead cal))"
    "\<not> dless (oh_maxNs (cal_overhead cal)) (oh_minNs (cal_overhead cal))" by blast
  then show ?thesis
    by (intro exI [of _ "fst (after_actions window_advance 321 pl w1)"] exI [of _ "snd (after_actions window_advance 321 pl w1)"]
          exI [of _ cal] exI conjI allI)
       (simp_all add: sampleOverheadNsMin_def sampleOverheadNsMedian_def sampleOverheadNsMax_def calibrate_def [of _ _ _ _ cal])
qed

theorem overhead_is_measured_once_witness:
  "\<exists>pl2 w2 cal least.
      sampleOverheadNsMin (window_read demo_platform) (\<lambda>k. 7) (fst demo_plan) (snd demo_plan) new_calibration = Some (least, pl2, w2, cal)
    \<and> 0 \<le> dvalue least"
proof -
  have "steady (\<lambda>k. 7)" by (simp add: steady_def)
  from overhead_is_measured_once [OF demo_reachable(1) demo_compiled_here demo_world_fit this] show ?thesis by blast
qed

end
