(* ===== verification/Counter_Limits.thy ===== *)
theory Counter_Limits
  imports Vocabulary Ordered_Map Encode "HOL-Library.Multiset"
begin

text \<open>
  The limit of programmable counters a device publishes: the decode of the CPUID words
  (\<open>linux_pmu/counter_limits.cpp\<close>), the search with copies of one event (\<open>linux_pmu/group_probe.cpp\<close>), the
  pass that chooses between them (\<open>linux_pmu/limit_fill.cpp\<close>) and the record of the finder
  (\<open>limit_source.cpp\<close>).

  The CPUID instruction, the watchdog file and the kernel are arguments.  The kernel is a record of calls on a
  state of its own, so that a theorem holds for every kernel, whatever it answers.  Two maps live for the
  process: the settled searches and the recorded finders.
\<close>

unbundle bit_operations_syntax

subsection \<open>The register words\<close>

datatype limit_vendor = INTEL | ZHAOXIN | AMD | OTHER

record limit_registers =
  maxLeaf :: u32
  vendorEbx :: u32
  vendorEdx :: u32
  vendorEcx :: u32
  perfMonEax :: u32
  perfMonEdx :: u32
  unified0Eax :: u32
  unified1Eax :: u32
  maxExtended :: u32
  extendedEcx :: u32
  amdPerfEax :: u32
  amdPerfEbx :: u32

record cpuid_words =
  cw_eax :: u32
  cw_ebx :: u32
  cw_ecx :: u32
  cw_edx :: u32

text \<open>\<open>__get_cpuid_count\<close> of a leaf and a sub-leaf: \<open>None\<close> where it answers false and leaves its words alone.\<close>

type_synonym cpuid = "u32 \<Rightarrow> u32 \<Rightarrow> cpuid_words option"

definition cpuid_words_or_zero :: "cpuid \<Rightarrow> u32 \<Rightarrow> u32 \<Rightarrow> cpuid_words" where
  "cpuid_words_or_zero q leaf sub =
     (case q leaf sub of None \<Rightarrow> \<lparr>cw_eax = 0, cw_ebx = 0, cw_ecx = 0, cw_edx = 0\<rparr> | Some w \<Rightarrow> w)"

definition kProgrammableLeaf :: u32 where "kProgrammableLeaf = 0x0A"
definition kUnifiedLeaf :: u32 where "kUnifiedLeaf = 0x23"
definition kMaxExtendedLeaf :: u32 where "kMaxExtendedLeaf = 0x80000000"
definition kExtendedFeaturesLeaf :: u32 where "kExtendedFeaturesLeaf = 0x80000001"
definition kAmdPerfMonLeaf :: u32 where "kAmdPerfMonLeaf = 0x80000022"

definition readCounterLimitRegisters :: "cpuid \<Rightarrow> limit_registers" where
  "readCounterLimitRegisters q =
     (let w = cpuid_words_or_zero q
      in \<lparr>maxLeaf = cw_eax (w 0 0), vendorEbx = cw_ebx (w 0 0), vendorEdx = cw_edx (w 0 0), vendorEcx = cw_ecx (w 0 0),
          perfMonEax = cw_eax (w kProgrammableLeaf 0), perfMonEdx = cw_edx (w kProgrammableLeaf 0),
          unified0Eax = cw_eax (w kUnifiedLeaf 0), unified1Eax = cw_eax (w kUnifiedLeaf 1),
          maxExtended = cw_eax (w kMaxExtendedLeaf 0), extendedEcx = cw_ecx (w kExtendedFeaturesLeaf 0),
          amdPerfEax = cw_eax (w kAmdPerfMonLeaf 0), amdPerfEbx = cw_ebx (w kAmdPerfMonLeaf 0)\<rparr>)"

text \<open>Characters of a name as three little-endian words.\<close>

fun pack_word :: "string \<Rightarrow> u32" where
  "pack_word [] = 0"
| "pack_word (c # cs) = of_char c + 256 * pack_word cs"

definition vendorWords :: "string \<Rightarrow> u32 list" where
  "vendorWords name = [pack_word (take 4 name), pack_word (take 4 (drop 4 name)), pack_word (take 4 (drop 8 name))]"

definition spellsWords :: "limit_registers \<Rightarrow> u32 list \<Rightarrow> bool" where
  "spellsWords r ws \<longleftrightarrow> [vendorEbx r, vendorEdx r, vendorEcx r] = ws"

definition vendorOf :: "limit_registers \<Rightarrow> limit_vendor" where
  "vendorOf r =
     (if spellsWords r (vendorWords ''GenuineIntel'') then INTEL
      else if spellsWords r (vendorWords ''CentaurHauls'') \<or> spellsWords r (vendorWords ''  Shanghai  '') then ZHAOXIN
      else if spellsWords r (vendorWords ''AuthenticAMD'') \<or> spellsWords r (vendorWords ''HygonGenuine'') then AMD
      else OTHER)"

subsection \<open>The decodes\<close>

definition intelCoreLimit :: "limit_registers \<Rightarrow> nat option" where
  "intelCoreLimit r =
     (if perfMonEax r AND 0xFF = 0 then None else Some (unat (drop_bit 8 (perfMonEax r) AND 0xFF)))"

definition amdCoreLimit :: "limit_registers \<Rightarrow> nat option" where
  "amdCoreLimit r =
     (if kAmdPerfMonLeaf \<le> maxExtended r \<and> amdPerfEax r AND 1 \<noteq> 0 then Some (unat (amdPerfEbx r AND 0xF))
      else if extendedEcx r AND push_bit 23 1 \<noteq> 0 then Some 6
      else Some 4)"

definition fixedCycles :: "limit_registers \<Rightarrow> bool" where
  "fixedCycles r \<longleftrightarrow> 2 \<le> perfMonEax r AND 0xFF \<and> 2 \<le> perfMonEdx r AND 0x1F"

definition watchdogValueFrom :: "string \<Rightarrow> int" where
  "watchdogValueFrom t = (case from_chars_int t of None \<Rightarrow> - 1 | Some (n, _) \<Rightarrow> n)"

definition isHybrid :: "string list \<Rightarrow> bool" where
  "isHybrid names \<longleftrightarrow> list_ex (\<lambda>n. n = ''cpu_core'' \<or> n = ''cpu_atom'') names"

definition core_name :: "string \<Rightarrow> bool" where
  "core_name n \<longleftrightarrow> n = ''cpu'' \<or> n = ''cpu_core'' \<or> n = ''cpu_atom''"

definition limitForDevice :: "string \<Rightarrow> limit_vendor \<Rightarrow> bool \<Rightarrow> limit_registers \<Rightarrow> nat option" where
  "limitForDevice deviceName vendor hybrid r =
     (if \<not> core_name deviceName then None
      else if hybrid \<and> unified0Eax r OR unified1Eax r \<noteq> 0 then None
      else
        case vendor of
          INTEL \<Rightarrow> intelCoreLimit r
        | ZHAOXIN \<Rightarrow> intelCoreLimit r
        | AMD \<Rightarrow> amdCoreLimit r
        | OTHER \<Rightarrow> None)"

definition publishMinusOne :: "nat \<Rightarrow> nat option" where
  "publishMinusOne hardware = (if hardware \<le> 1 then None else Some (hardware - 1))"

definition usableCounters :: "nat option \<Rightarrow> limit_vendor \<Rightarrow> int \<Rightarrow> bool \<Rightarrow> nat option" where
  "usableCounters hardware vendor watchdog hasFixed =
     (case hardware of
        None \<Rightarrow> None
      | Some h \<Rightarrow>
          if h = 0 then None
          else if watchdog \<noteq> 1 then hardware
          else if (vendor = INTEL \<or> vendor = ZHAOXIN) \<and> hasFixed then hardware
          else publishMinusOne h)"

definition kProbeCorePrefix :: string where "kProbeCorePrefix = ''armv8_''"
definition kProbeEventName :: string where "kProbeEventName = ''branch-instructions''"

definition isProbeCoreDevice :: "string \<Rightarrow> bool" where
  "isProbeCoreDevice n \<longleftrightarrow> core_name n \<or> starts_with n kProbeCorePrefix"

definition probeEventNameForDevice :: "string \<Rightarrow> limit_vendor \<Rightarrow> string option" where
  "probeEventNameForDevice n vendor =
     (if starts_with n kProbeCorePrefix then None
      else if vendor = OTHER then None else Some kProbeEventName)"

subsection \<open>The group search\<close>

text \<open>
  The calls of \<open>KernelCalls\<close> the search makes.  An open answers the descriptor or the number of the error.  The
  read answers the count of bytes and the three words of the buffer as it left them.
\<close>

record group_probe_options =
  gp_deviceName :: string
  gp_pmuType :: u32
  gp_eventConfig :: u64

record probe_attr =
  pa_type :: u32
  pa_config :: u64
  pa_exclude_kernel :: bool
  pa_exclude_hv :: bool
  pa_disabled :: bool
  pa_pinned :: bool

datatype group_request = GROUP_ENABLE | GROUP_DISABLE

record 'k kernel_calls =
  kc_open :: "probe_attr \<Rightarrow> int \<Rightarrow> int \<Rightarrow> int \<Rightarrow> 'k \<Rightarrow> (int + int) \<times> 'k"
  kc_ioctl :: "int \<Rightarrow> group_request \<Rightarrow> 'k \<Rightarrow> 'k"
  kc_read :: "int \<Rightarrow> 'k \<Rightarrow> (int \<times> u64 \<times> u64 \<times> u64) \<times> 'k"
  kc_close :: "int \<Rightarrow> 'k \<Rightarrow> 'k"

datatype probe_status = OPEN_REFUSED | RUNS_SHORT | READ_SHORT | PERMISSION_REFUSED | CAP_REACHED

record size_verdict =
  openedAll :: bool
  permission :: bool
  readShort :: bool
  fits :: bool

record probe_answer =
  pb_count :: "nat option"
  pb_status :: probe_status

definition kGroupProbeMaxSize :: nat where "kGroupProbeMaxSize = 32"
definition kReadWords :: nat where "kReadWords = 3"
definition kProbePid :: int where "kProbePid = 0"
definition kProbeCpu :: int where "kProbeCpu = - 1"
definition EPERM :: int where "EPERM = 1"
definition EACCES :: int where "EACCES = 13"

definition fillProbeAttr :: "group_probe_options \<Rightarrow> probe_attr" where
  "fillProbeAttr o' = \<lparr>pa_type = gp_pmuType o', pa_config = gp_eventConfig o', pa_exclude_kernel = True,
     pa_exclude_hv = True, pa_disabled = True, pa_pinned = False\<rparr>"

text \<open>The opens of one size: the copies still to open, the descriptors so far, and the error that stopped them.\<close>

fun open_copies :: "'k kernel_calls \<Rightarrow> group_probe_options \<Rightarrow> nat \<Rightarrow> int list \<Rightarrow> 'k \<Rightarrow> (int list \<times> int option) \<times> 'k" where
  "open_copies kc o' 0 opened k = ((opened, None), k)"
| "open_copies kc o' (Suc n) opened k =
     (case kc_open kc (fillProbeAttr o') kProbePid kProbeCpu (if opened = [] then - 1 else hd opened) k of
        (Inl errno, k1) \<Rightarrow> ((opened, Some errno), k1)
      | (Inr fd, k1) \<Rightarrow> open_copies kc o' n (opened @ [fd]) k1)"

definition searchOneSize :: "'k kernel_calls \<Rightarrow> group_probe_options \<Rightarrow> nat \<Rightarrow> 'k \<Rightarrow> size_verdict \<times> 'k" where
  "searchOneSize kc o' sz k =
     (case open_copies kc o' sz [] k of
        ((opened, failed), k1) \<Rightarrow>
          let v = \<lparr>openedAll = (length opened = sz),
                   permission = (case failed of None \<Rightarrow> False | Some e \<Rightarrow> e = EACCES \<or> e = EPERM),
                   readShort = False, fits = False\<rparr>;
              (v', k2) =
                (if length opened = sz
                 then
                   let leader = hd opened;
                       (answer, k') = kc_read kc leader (kc_ioctl kc leader GROUP_ENABLE k1);
                       (returned, _, enabled, running) = answer;
                       short = returned < int (kReadWords * 8)
                   in (v\<lparr>readShort := short, fits := \<not> short \<and> 0 < enabled \<and> running = enabled\<rparr>,
                       kc_ioctl kc leader GROUP_DISABLE k')
                 else (v, k1))
          in (v', foldl (\<lambda>s fd. kc_close kc fd s) k2 opened))"

fun probe_sizes :: "'k kernel_calls \<Rightarrow> group_probe_options \<Rightarrow> nat list \<Rightarrow> 'k \<Rightarrow> probe_answer \<times> 'k" where
  "probe_sizes kc o' [] k = (\<lparr>pb_count = None, pb_status = CAP_REACHED\<rparr>, k)"
| "probe_sizes kc o' (sz # rest) k =
     (case searchOneSize kc o' sz k of
        (v, k1) \<Rightarrow>
          if permission v then (\<lparr>pb_count = None, pb_status = PERMISSION_REFUSED\<rparr>, k1)
          else if \<not> fits v
          then (\<lparr>pb_count = (if sz > 1 then Some (sz - 1) else None),
                 pb_status = (if readShort v then READ_SHORT else if \<not> openedAll v then OPEN_REFUSED else RUNS_SHORT)\<rparr>, k1)
          else probe_sizes kc o' rest k1)"

definition probeGroupLimit :: "'k kernel_calls \<Rightarrow> group_probe_options \<Rightarrow> 'k \<Rightarrow> probe_answer \<times> 'k" where
  "probeGroupLimit kc o' k = probe_sizes kc o' [1..<Suc kGroupProbeMaxSize] k"

subsection \<open>The record of the finder\<close>

datatype limit_source = NONE | DECODE | PROBE

record limit_store =
  ls_settled :: "(string, nat option) omap"
  ls_sources :: "(string, limit_source) omap"

definition new_limit_store :: limit_store where
  "new_limit_store = \<lparr>ls_settled = [], ls_sources = []\<rparr>"

definition recordLimitSource :: "string \<Rightarrow> limit_source \<Rightarrow> limit_store \<Rightarrow> limit_store" where
  "recordLimitSource path source st =
     (if source = NONE then st\<lparr>ls_sources := om_erase path (ls_sources st)\<rparr>
      else st\<lparr>ls_sources := om_assign path source (ls_sources st)\<rparr>)"

definition clearLimitSources :: "limit_store \<Rightarrow> limit_store" where
  "clearLimitSources st = st\<lparr>ls_sources := []\<rparr>"

definition objectLimitSource :: "limit_store \<Rightarrow> string \<Rightarrow> limit_source checked" where
  "objectLimitSource st path =
     (case om_find (ls_sources st) path of
        None \<Rightarrow> Some NONE
      | Some answer \<Rightarrow> if answer = NONE then None else Some answer)"

subsection \<open>The pass over one device\<close>

record pmu_entry =
  pe_name :: string
  pe_description :: string
  pe_words :: "(int \<times> u64) list"
  pe_isTimePair :: bool
  pe_avail :: availability
  pe_mode :: read_mode
  pe_probedKinds :: target_mask

record pmu_device =
  pd_path :: string
  pd_description :: string
  pd_type :: int
  pd_formats :: "(string \<times> format_range list) list"
  pd_entries :: "pmu_entry list"
  pd_hasTimePair :: bool
  pd_deviceScoped :: bool

record limit_fill =
  lf_count :: "nat option"
  lf_source :: limit_source

definition searchedLimit ::
  "'k kernel_calls \<Rightarrow> pmu_device \<Rightarrow> string \<Rightarrow> limit_store \<times> 'k \<Rightarrow> nat option \<times> limit_store \<times> 'k" where
  "searchedLimit kc device eventName s =
     (case om_find (ls_settled (fst s)) (pd_path device) of
        Some answer \<Rightarrow> (answer, s)
      | None \<Rightarrow>
          (case find (\<lambda>e. pe_name e = eventName) (pd_entries device) of
             None \<Rightarrow> (None, s)
           | Some entry \<Rightarrow>
               (case pe_words entry of
                  [] \<Rightarrow> (None, s)
                | w # _ \<Rightarrow>
                    let (answer, k1) = probeGroupLimit kc
                          \<lparr>gp_deviceName = pd_path device, gp_pmuType = word_of_int (pd_type device), gp_eventConfig = snd w\<rparr> (snd s)
                    in (pb_count answer,
                        (fst s)\<lparr>ls_settled := om_emplace (pd_path device) (pb_count answer) (ls_settled (fst s))\<rparr>, k1))))"

definition fillDeviceLimit ::
  "'k kernel_calls \<Rightarrow> pmu_device \<Rightarrow> limit_vendor \<Rightarrow> int \<Rightarrow> bool \<Rightarrow> nat option \<Rightarrow> limit_store \<times> 'k \<Rightarrow>
    (limit_fill \<times> limit_store \<times> 'k) checked" where
  "fillDeviceLimit kc device vendor watchdog hasFixed decoded s =
     (let (fill, s1) =
        (if decoded \<noteq> None
         then
           let count = usableCounters decoded vendor watchdog hasFixed
           in (\<lparr>lf_count = count, lf_source = (if count \<noteq> None then DECODE else NONE)\<rparr>, s)
         else if isProbeCoreDevice (pd_path device)
         then
           (case probeEventNameForDevice (pd_path device) vendor of
              None \<Rightarrow> (\<lparr>lf_count = None, lf_source = NONE\<rparr>, s)
            | Some eventName \<Rightarrow>
                (case searchedLimit kc device eventName s of
                   (None, s') \<Rightarrow> (\<lparr>lf_count = None, lf_source = NONE\<rparr>, s')
                 | (Some c, s') \<Rightarrow> (\<lparr>lf_count = Some c, lf_source = PROBE\<rparr>, s')))
         else (\<lparr>lf_count = None, lf_source = NONE\<rparr>, s));
        s2 = (recordLimitSource (pd_path device) (lf_source fill) (fst s1), snd s1)
      in if (lf_count fill \<noteq> None) = (lf_source fill \<noteq> NONE) then Some (fill, s2) else None)"

subsection \<open>The search counts the largest size that fits and leaks no descriptor\<close>

text \<open>A kernel that also keeps the descriptors it has handed out and not yet got back.\<close>

definition tracked :: "'k kernel_calls \<Rightarrow> ('k \<times> int multiset) kernel_calls" where
  "tracked kc = \<lparr>
     kc_open = (\<lambda>a p c g s. case kc_open kc a p c g (fst s) of
        (Inl e, k) \<Rightarrow> (Inl e, (k, snd s)) | (Inr fd, k) \<Rightarrow> (Inr fd, (k, add_mset fd (snd s)))),
     kc_ioctl = (\<lambda>fd r s. (kc_ioctl kc fd r (fst s), snd s)),
     kc_read = (\<lambda>fd s. case kc_read kc fd (fst s) of (a, k) \<Rightarrow> (a, (k, snd s))),
     kc_close = (\<lambda>fd s. (kc_close kc fd (fst s), snd s - {#fd#}))\<rparr>"

lemma tracked_simps [simp]:
  "kc_open (tracked kc) a p c g (k, live) =
     (case kc_open kc a p c g k of (Inl e, k') \<Rightarrow> (Inl e, (k', live)) | (Inr fd, k') \<Rightarrow> (Inr fd, (k', add_mset fd live)))"
  "kc_ioctl (tracked kc) fd r (k, live) = (kc_ioctl kc fd r k, live)"
  "kc_read (tracked kc) fd (k, live) = (case kc_read kc fd k of (a, k') \<Rightarrow> (a, (k', live)))"
  "kc_close (tracked kc) fd (k, live) = (kc_close kc fd k, live - {#fd#})"
  by (simp_all add: tracked_def cong: sum.case_cong)

lemma open_copies_extends:
  "open_copies kc o' n opened k = ((os, e), k') \<Longrightarrow> \<exists>xs. os = opened @ xs \<and> length xs \<le> n"
proof (induction n arbitrary: opened k)
  case (Suc n)
  then show ?case by (fastforce split: prod.splits sum.splits)
qed simp

lemma open_copies_tracked:
  assumes "open_copies kc o' n opened k = ((opened @ xs, e), k')"
  shows "open_copies (tracked kc) o' n opened (k, live) = ((opened @ xs, e), (k', live + mset xs))"
  using assms
proof (induction n arbitrary: opened xs k live)
  case (Suc n)
  show ?case
  proof (cases "kc_open kc (fillProbeAttr o') kProbePid kProbeCpu (if opened = [] then - 1 else hd opened) k")
    case (Pair a k1)
    show ?thesis
    proof (cases a)
      case (Inl x)
      then show ?thesis using Suc.prems Pair by simp
    next
      case (Inr fd)
      then have *: "open_copies kc o' n (opened @ [fd]) k1 = ((opened @ xs, e), k')" using Suc.prems Pair by simp
      then obtain ys where "xs = fd # ys" using open_copies_extends by fastforce
      then show ?thesis using Suc.IH [of "opened @ [fd]" k1 ys "add_mset fd live"] * Inr Pair by simp
    qed
  qed
qed simp

lemma close_all_tracked:
  "foldl (\<lambda>s fd. kc_close (tracked kc) fd s) (k, live + mset fds) fds = (foldl (\<lambda>s fd. kc_close kc fd s) k fds, live)"
  by (induction fds arbitrary: k) simp_all

lemma searchOneSize_tracked:
  "searchOneSize kc o' n k = (v, k') \<Longrightarrow> searchOneSize (tracked kc) o' n (k, live) = (v, (k', live))"
proof -
  assume s: "searchOneSize kc o' n k = (v, k')"
  obtain os e k1 where o1: "open_copies kc o' n [] k = ((os, e), k1)" by (metis prod.exhaust)
  have o2: "open_copies (tracked kc) o' n [] (k, live) = ((os, e), (k1, live + mset os))"
    using open_copies_tracked [of kc o' n "[]" k os] o1 by simp
  show ?thesis
    using s unfolding searchOneSize_def o1 o2
    by (auto simp: Let_def close_all_tracked split: prod.splits)
qed

lemma probe_sizes_tracked:
  "probe_sizes kc o' ns k = (a, k') \<Longrightarrow> probe_sizes (tracked kc) o' ns (k, live) = (a, (k', live))"
proof (induction ns arbitrary: k)
  case (Cons n ns)
  then show ?case by (cases "searchOneSize kc o' n k") (auto simp: searchOneSize_tracked split: if_splits)
qed simp

lemma all_opened:
  "open_copies kc o' n opened k = ((os, e), k1) \<Longrightarrow> length os = n + length opened \<Longrightarrow> e = None"
proof (induction n arbitrary: opened k)
  case (Suc n)
  obtain a k2 where a: "kc_open kc (fillProbeAttr o') kProbePid kProbeCpu (if opened = [] then - 1 else hd opened) k = (a, k2)"
    by force
  show ?case
    using Suc a open_copies_extends [of kc o' n] by (cases a) force+
qed simp

lemma fits_opened:
  assumes "searchOneSize kc o' n k = (v, k')" and "fits v"
  shows "\<not> permission v \<and> openedAll v \<and> \<not> readShort v"
proof -
  obtain os e k1 where o1: "open_copies kc o' n [] k = ((os, e), k1)" by (metis prod.exhaust)
  obtain ret w0 en ru k2 where r: "kc_read kc (hd os) (kc_ioctl kc (hd os) GROUP_ENABLE k1) = ((ret, w0, en, ru), k2)"
    by (metis prod.exhaust)
  show ?thesis
  proof (cases "length os = n")
    case True
    then show ?thesis using assms all_opened [OF o1] by (auto simp: searchOneSize_def o1 r Let_def)
  next
    case False
    then show ?thesis using assms by (auto simp: searchOneSize_def o1 Let_def)
  qed
qed

text \<open>The kernel after the search has tried the sizes up to \<open>n\<close>, and its verdict on one size.\<close>

fun kernel_after :: "'k kernel_calls \<Rightarrow> group_probe_options \<Rightarrow> nat \<Rightarrow> 'k \<Rightarrow> 'k" where
  "kernel_after kc o' 0 k = k"
| "kernel_after kc o' (Suc n) k = snd (searchOneSize kc o' (Suc n) (kernel_after kc o' n k))"

definition verdict :: "'k kernel_calls \<Rightarrow> group_probe_options \<Rightarrow> nat \<Rightarrow> 'k \<Rightarrow> size_verdict" where
  "verdict kc o' n k = fst (searchOneSize kc o' n (kernel_after kc o' (n - 1) k))"

lemma probe_sizes_from:
  assumes "\<forall>m\<in>{1..n}. fits (verdict kc o' m k)" and "n \<le> kGroupProbeMaxSize"
  shows "probe_sizes kc o' [Suc n..<Suc kGroupProbeMaxSize] (kernel_after kc o' n k) = probeGroupLimit kc o' k"
  using assms
proof (induction n)
  case (Suc n)
  then have fit: "fits (verdict kc o' (Suc n) k)" by simp
  obtain v k1 where v: "searchOneSize kc o' (Suc n) (kernel_after kc o' n k) = (v, k1)" by force
  then have "fits v" "\<not> permission v" using fit fits_opened [OF v] by (simp_all add: verdict_def)
  moreover have "[Suc n..<Suc kGroupProbeMaxSize] = Suc n # [Suc (Suc n)..<Suc kGroupProbeMaxSize]"
    using Suc.prems(2) upt_conv_Cons by simp
  ultimately show ?case using Suc v by simp
qed (simp add: probeGroupLimit_def)

lemma probe_answer_at:
  assumes "\<forall>m\<in>{1..n}. fits (verdict kc o' m k)" and "n < kGroupProbeMaxSize" and "\<not> fits (verdict kc o' (Suc n) k)"
  shows "pb_count (fst (probeGroupLimit kc o' k))
    = (if permission (verdict kc o' (Suc n) k) \<or> n = 0 then None else Some n)"
proof -
  have "[Suc n..<Suc kGroupProbeMaxSize] = Suc n # [Suc (Suc n)..<Suc kGroupProbeMaxSize]"
    using assms(2) upt_conv_Cons by simp
  then show ?thesis
    unfolding probe_sizes_from [OF assms(1) less_imp_le [OF assms(2)], symmetric]
    using assms(3)
    by (cases "searchOneSize kc o' (Suc n) (kernel_after kc o' n k)") (auto simp: verdict_def simp del: upt_Suc)
qed

lemma probe_reaches_cap:
  assumes "\<forall>m\<in>{1..kGroupProbeMaxSize}. fits (verdict kc o' m k)"
  shows "pb_count (fst (probeGroupLimit kc o' k)) = None"
  using probe_sizes_from [OF assms order_refl, symmetric] by simp

text \<open>C30. The group search answers a count exactly when every size up to it fits and the next size, no larger
  than the cap, fails for a reason other than permission.  Whatever the kernel answers, every descriptor the
  search opened is closed when it returns.\<close>

theorem group_search_counts_and_closes:
  "(pb_count (fst (probeGroupLimit kc o' k)) = Some n \<longleftrightarrow>
     1 \<le> n \<and> n < kGroupProbeMaxSize \<and> (\<forall>m\<in>{1..n}. fits (verdict kc o' m k))
     \<and> \<not> fits (verdict kc o' (Suc n) k) \<and> \<not> permission (verdict kc o' (Suc n) k))
   \<and> probeGroupLimit (tracked kc) o' (k, live) =
       (fst (probeGroupLimit kc o' k), (snd (probeGroupLimit kc o' k), live))"
proof
  show "probeGroupLimit (tracked kc) o' (k, live) =
      (fst (probeGroupLimit kc o' k), (snd (probeGroupLimit kc o' k), live))"
    by (simp add: probeGroupLimit_def probe_sizes_tracked)
  let ?f = "\<lambda>m. fits (verdict kc o' m k)"
  show "pb_count (fst (probeGroupLimit kc o' k)) = Some n \<longleftrightarrow>
     1 \<le> n \<and> n < kGroupProbeMaxSize \<and> (\<forall>m\<in>{1..n}. ?f m) \<and> \<not> ?f (Suc n) \<and> \<not> permission (verdict kc o' (Suc n) k)"
  proof (cases "\<forall>m\<in>{1..kGroupProbeMaxSize}. ?f m")
    case True
    then have "?f (Suc n)" if "n < kGroupProbeMaxSize" using that by simp
    then show ?thesis using probe_reaches_cap [OF True] by auto
  next
    case False
    then obtain m where m: "m \<in> {1..kGroupProbeMaxSize}" "\<not> ?f m" by blast
    define l where "l = (LEAST m. 1 \<le> m \<and> \<not> ?f m)"
    have l: "1 \<le> l" "\<not> ?f l" "l \<le> m" unfolding l_def
      using m LeastI [of "\<lambda>m. 1 \<le> m \<and> \<not> ?f m" m] Least_le [of "\<lambda>m. 1 \<le> m \<and> \<not> ?f m" m] by auto
    have below: "\<forall>j\<in>{1..l - 1}. ?f j"
    proof
      fix j assume "j \<in> {1..l - 1}"
      then have "1 \<le> j" "j < l" using l(1) by auto
      then show "?f j" unfolding l_def using not_less_Least [of j "\<lambda>m. 1 \<le> m \<and> \<not> ?f m"] by blast
    qed
    have answer: "pb_count (fst (probeGroupLimit kc o' k))
        = (if permission (verdict kc o' l k) \<or> l = 1 then None else Some (l - 1))"
      using probe_answer_at [OF below] l m by auto
    have "n = l - 1" if "1 \<le> n" "\<forall>j\<in>{1..n}. ?f j" "\<not> ?f (Suc n)"
    proof -
      have "\<not> n < l - 1" using below that(3) by auto
      moreover have "\<not> l \<le> n" using that(2) l by auto
      ultimately show ?thesis by linarith
    qed
    note n = this
    show ?thesis
    proof
      assume "pb_count (fst (probeGroupLimit kc o' k)) = Some n"
      then have "\<not> permission (verdict kc o' l k)" "l \<noteq> 1" "n = l - 1" using answer by (simp_all split: if_split_asm)
      then have "l = Suc n" "1 \<le> n" "\<not> permission (verdict kc o' l k)" using l(1) by simp_all
      then show "1 \<le> n \<and> n < kGroupProbeMaxSize \<and> (\<forall>m\<in>{1..n}. ?f m) \<and> \<not> ?f (Suc n)
          \<and> \<not> permission (verdict kc o' (Suc n) k)"
        using below l m(1) by simp
    next
      assume "1 \<le> n \<and> n < kGroupProbeMaxSize \<and> (\<forall>m\<in>{1..n}. ?f m) \<and> \<not> ?f (Suc n)
          \<and> \<not> permission (verdict kc o' (Suc n) k)"
      moreover from this have "l = Suc n" using n l(1) by simp
      ultimately show "pb_count (fst (probeGroupLimit kc o' k)) = Some n" using answer by simp
    qed
  qed
qed

text \<open>A kernel that runs a group whole while it holds at most \<open>c\<close> events; its state is the open descriptors.\<close>

definition counting_kernel :: "nat \<Rightarrow> int list kernel_calls" where
  "counting_kernel c = \<lparr>
     kc_open = (\<lambda>a p cpu g fds. (Inr (int (length fds) + 3), (int (length fds) + 3) # fds)),
     kc_ioctl = (\<lambda>fd r fds. fds),
     kc_read = (\<lambda>fd fds. ((24, 7, 1, if length fds \<le> c then 1 else 0), fds)),
     kc_close = (\<lambda>fd fds. remove1 fd fds)\<rparr>"

definition branch_probe :: group_probe_options where
  "branch_probe = \<lparr>gp_deviceName = ''cpu'', gp_pmuType = 4, gp_eventConfig = 0xC4\<rparr>"

lemma open_copies_numeral:
  "open_copies kc o' (numeral m) opened k = open_copies kc o' (Suc (pred_numeral m)) opened k"
  by (simp only: numeral_eq_Suc)

lemma copies_open:
  "open_copies (counting_kernel c) o' n (map (\<lambda>i. int i + 3) [0..<j]) (rev (map (\<lambda>i. int i + 3) [0..<j]))
     = ((map (\<lambda>i. int i + 3) [0..<j + n], None), rev (map (\<lambda>i. int i + 3) [0..<j + n]))"
proof (induction n arbitrary: j)
  case (Suc n)
  then show ?case using Suc [of "Suc j"] by (simp add: counting_kernel_def)
qed simp

lemma copies_opened:
  "open_copies (counting_kernel c) o' (Suc 0) [] [] = (([3], None), [3])"
  "open_copies (counting_kernel c) o' 2 [] [] = (([3, 4], None), [4, 3])"
  "open_copies (counting_kernel c) o' 3 [] [] = (([3, 4, 5], None), [5, 4, 3])"
  using copies_open [of c o' 1 0] copies_open [of c o' 2 0] copies_open [of c o' 3 0] by (simp_all add: upt_rec)

lemma two_fit:
  "searchOneSize (counting_kernel 2) o' (Suc 0) []
     = (\<lparr>openedAll = True, permission = False, readShort = False, fits = True\<rparr>, [])"
  "searchOneSize (counting_kernel 2) o' 2 []
     = (\<lparr>openedAll = True, permission = False, readShort = False, fits = True\<rparr>, [])"
  "searchOneSize (counting_kernel 2) o' 3 []
     = (\<lparr>openedAll = True, permission = False, readShort = False, fits = False\<rparr>, [])"
  unfolding searchOneSize_def copies_opened by (simp_all add: counting_kernel_def Let_def kReadWords_def)

lemma two_searched:
  "probeGroupLimit (counting_kernel 2) o' [] = (\<lparr>pb_count = Some 2, pb_status = RUNS_SHORT\<rparr>, [])"
proof -
  have "[1..<Suc kGroupProbeMaxSize] = Suc 0 # 2 # 3 # [4..<33]"
    by (simp add: kGroupProbeMaxSize_def upt_conv_Cons del: upt_Suc)
  then show ?thesis using two_fit by (simp add: probeGroupLimit_def del: upt_Suc)
qed

lemma two_fit_verdicts:
  "fits (verdict (counting_kernel 2) branch_probe 1 [])" "fits (verdict (counting_kernel 2) branch_probe 2 [])"
  "\<not> fits (verdict (counting_kernel 2) branch_probe 3 [])" "\<not> permission (verdict (counting_kernel 2) branch_probe 3 [])"
  using two_fit by (simp_all add: verdict_def numeral_2_eq_2 numeral_3_eq_3 del: open_copies.simps)

theorem group_search_counts_and_closes_witness:
  "pb_count (fst (probeGroupLimit (counting_kernel 2) branch_probe [])) = Some 2
   \<and> snd (probeGroupLimit (tracked (counting_kernel 2)) branch_probe ([], {#5#})) = ([], {#5#})"
proof -
  have "\<forall>m\<in>{1..2}. fits (verdict (counting_kernel 2) branch_probe m [])"
    using two_fit_verdicts(1,2) by (auto simp: le_Suc_eq numeral_2_eq_2)
  then have "pb_count (fst (probeGroupLimit (counting_kernel 2) branch_probe [])) = Some 2"
    using group_search_counts_and_closes [of "counting_kernel 2" branch_probe "[]" 2 "{#5#}"] two_fit_verdicts(3,4)
    by (simp add: kGroupProbeMaxSize_def)
  then show ?thesis
    using two_searched group_search_counts_and_closes [of "counting_kernel 2" branch_probe "[]" 2 "{#5#}"] by simp
qed

subsection \<open>A published limit names its finder, and a search is paid once\<close>

definition limit_store_ok :: "limit_store \<Rightarrow> bool" where
  "limit_store_ok st \<longleftrightarrow> om_wf (ls_settled st) \<and> om_wf (ls_sources st) \<and> (\<forall>p. om_find (ls_sources st) p \<noteq> Some NONE)"

lemma new_limit_store_ok [simp]: "limit_store_ok new_limit_store"
  by (simp add: limit_store_ok_def new_limit_store_def)

lemma recorded_source:
  assumes "limit_store_ok st"
  shows "limit_store_ok (recordLimitSource path source st)"
    and "objectLimitSource (recordLimitSource path source st) path = Some source"
    and "p \<noteq> path \<Longrightarrow> objectLimitSource (recordLimitSource path source st) p = objectLimitSource st p"
    and "ls_settled (recordLimitSource path source st) = ls_settled st"
  using assms
  by (auto simp: limit_store_ok_def recordLimitSource_def objectLimitSource_def om_find_erase om_wf_erase om_facts)

lemma searched_kept:
  assumes "limit_store_ok (fst s)" and "searchedLimit kc device e s = (c, s')"
  shows "limit_store_ok (fst s')" and "ls_sources (fst s') = ls_sources (fst s)"
    and "searchedLimit kc device e (fst s', k2) = (c, (fst s', k2))"
  using assms
  by (auto simp: searchedLimit_def limit_store_ok_def om_facts split: option.splits list.splits prod.splits)

lemma recorded_twice:
  "limit_store_ok st \<Longrightarrow> recordLimitSource p src (recordLimitSource p src st) = recordLimitSource p src st"
  by (auto simp: recordLimitSource_def limit_store_ok_def om_find_erase om_erase_absent om_assign_twice om_facts)

lemma searched_records:
  "searchedLimit kc device e (st, k) = (c, (st', k')) \<Longrightarrow>
   searchedLimit kc device e (st\<lparr>ls_sources := x\<rparr>, k) = (c, (st'\<lparr>ls_sources := x\<rparr>, k'))"
  by (auto simp: searchedLimit_def split: option.splits list.splits prod.splits)

lemma record_sources: "recordLimitSource p src st = st\<lparr>ls_sources := ls_sources (recordLimitSource p src st)\<rparr>"
  by (simp add: recordLimitSource_def)

text \<open>The choice of the finder, before the record.\<close>

definition chosen ::
  "'k kernel_calls \<Rightarrow> pmu_device \<Rightarrow> limit_vendor \<Rightarrow> int \<Rightarrow> bool \<Rightarrow> nat option \<Rightarrow> limit_store \<times> 'k \<Rightarrow> limit_fill \<times> limit_store \<times> 'k" where
  "chosen kc device vendor watchdog hasFixed decoded s =
     (let searched = isProbeCoreDevice (pd_path device) \<and> probeEventNameForDevice (pd_path device) vendor = Some kProbeEventName;
          (c, s') = (if decoded \<noteq> None then (usableCounters decoded vendor watchdog hasFixed, s)
                     else if searched then searchedLimit kc device kProbeEventName s else (None, s))
      in (\<lparr>lf_count = c, lf_source = (if c = None then NONE else if decoded \<noteq> None then DECODE else PROBE)\<rparr>, s'))"

lemma fillDeviceLimit_chosen:
  "fillDeviceLimit kc device vendor watchdog hasFixed decoded s =
     (case chosen kc device vendor watchdog hasFixed decoded s of
        (fill, (st, k)) \<Rightarrow> Some (fill, (recordLimitSource (pd_path device) (lf_source fill) st, k)))"
proof (cases decoded)
  case None
  show ?thesis
  proof (cases "isProbeCoreDevice (pd_path device) \<and> probeEventNameForDevice (pd_path device) vendor = Some kProbeEventName")
    case True
    then show ?thesis
      using None by (cases "searchedLimit kc device kProbeEventName s")
        (auto simp: fillDeviceLimit_def chosen_def split: option.splits)
  next
    case False
    then have "\<not> isProbeCoreDevice (pd_path device) \<or> probeEventNameForDevice (pd_path device) vendor = None"
      by (auto simp: probeEventNameForDevice_def split: if_splits)
    then show ?thesis using None by (auto simp: fillDeviceLimit_def chosen_def split: prod.splits)
  qed
qed (auto simp: fillDeviceLimit_def chosen_def Let_def split: prod.splits)

lemma chosen_kept:
  assumes "limit_store_ok (fst s)" and "chosen kc device vendor watchdog hasFixed decoded s = (fill, s')"
  shows "limit_store_ok (fst s')" and "ls_sources (fst s') = ls_sources (fst s)"
    and "lf_count fill \<noteq> None \<longleftrightarrow> lf_source fill \<noteq> NONE"
    and "decoded \<noteq> None \<Longrightarrow> s' = s \<and> lf_count fill = usableCounters decoded vendor watchdog hasFixed"
  using assms searched_kept(1,2) [OF assms(1)]
  by (auto simp: chosen_def Let_def split: prod.splits if_splits)

text \<open>The pass over one device violates no contract.  It publishes a count exactly when it names a finder,
  the recorded finder of the device is that one, the records of other devices stand, a decoded count is the
  decode less the watchdog and opens nothing in the kernel.\<close>

theorem published_limit_names_its_finder:
  assumes "limit_store_ok (fst s)"
  shows "\<exists>fill s'. fillDeviceLimit kc device vendor watchdog hasFixed decoded s = Some (fill, s')
     \<and> limit_store_ok (fst s')
     \<and> (lf_count fill \<noteq> None \<longleftrightarrow> lf_source fill \<noteq> NONE)
     \<and> objectLimitSource (fst s') (pd_path device) = Some (lf_source fill)
     \<and> (\<forall>p. p \<noteq> pd_path device \<longrightarrow> objectLimitSource (fst s') p = objectLimitSource (fst s) p)
     \<and> (decoded \<noteq> None \<longrightarrow> snd s' = snd s \<and> lf_count fill = usableCounters decoded vendor watchdog hasFixed)"
proof -
  obtain fill st k where c: "chosen kc device vendor watchdog hasFixed decoded s = (fill, (st, k))" by (metis prod.exhaust)
  note kept = chosen_kept [OF assms c]
  have "objectLimitSource st p = objectLimitSource (fst s) p" for p
    using kept(2) by (simp add: objectLimitSource_def)
  then show ?thesis
    using kept recorded_source [of st] by (auto simp: fillDeviceLimit_chosen c)
qed

text \<open>A second pass over the same device with the same host answers the same limit from any later state of
  the kernel and makes no call to it, while the settled searches stand.\<close>

theorem limit_search_is_paid_once:
  assumes "limit_store_ok (fst s)"
    and "fillDeviceLimit kc device vendor watchdog hasFixed decoded s = Some (fill, (st, k))"
  shows "fillDeviceLimit kc device vendor watchdog hasFixed decoded (st, later) = Some (fill, (st, later))"
proof -
  obtain st1 where c: "chosen kc device vendor watchdog hasFixed decoded s = (fill, (st1, k))"
    and st: "st = recordLimitSource (pd_path device) (lf_source fill) st1"
    using assms(2) by (auto simp: fillDeviceLimit_chosen split: prod.splits)
  have "chosen kc device vendor watchdog hasFixed decoded (st1, later) = (fill, (st1, later))"
    using c searched_kept(3) [OF assms(1)] by (auto simp: chosen_def Let_def split: prod.splits if_splits)
  then have "chosen kc device vendor watchdog hasFixed decoded (st, later) = (fill, (st, later))"
    unfolding st by (subst (1 2) record_sources) (auto simp: chosen_def Let_def searched_records split: prod.splits if_splits)
  then show ?thesis
    using recorded_twice chosen_kept(1) [OF assms(1) c] by (simp add: fillDeviceLimit_chosen st)
qed

definition demo_entry :: pmu_entry where
  "demo_entry = \<lparr>pe_name = kProbeEventName, pe_description = [], pe_words = [(0, 0xC4)], pe_isTimePair = False,
     pe_avail = COUNTABLE, pe_mode = SYSCALL, pe_probedKinds = 1\<rparr>"

definition demo_device :: pmu_device where
  "demo_device = \<lparr>pd_path = ''cpu'', pd_description = [], pd_type = 4, pd_formats = [], pd_entries = [demo_entry],
     pd_hasTimePair = True, pd_deviceScoped = False\<rparr>"

lemma demo_path: "pd_path demo_device = ''cpu''"
  by (simp add: demo_device_def)

lemma demo_fill:
  "fillDeviceLimit (counting_kernel 2) demo_device AMD 1 False None (new_limit_store, [])
     = Some (\<lparr>lf_count = Some 2, lf_source = PROBE\<rparr>,
         (\<lparr>ls_settled = [(''cpu'', Some 2)], ls_sources = [(''cpu'', PROBE)]\<rparr>, []))"
  by (simp add: fillDeviceLimit_def searchedLimit_def demo_device_def demo_entry_def isProbeCoreDevice_def core_name_def
      probeEventNameForDevice_def kProbeCorePrefix_def starts_with_def new_limit_store_def recordLimitSource_def
      two_searched Let_def)

theorem published_limit_names_its_finder_witness:
  "limit_store_ok (fst (new_limit_store, [])) \<and>
   (\<exists>fill s'. fillDeviceLimit (counting_kernel 2) demo_device AMD 1 False None (new_limit_store, []) = Some (fill, s')
     \<and> lf_count fill = Some 2 \<and> objectLimitSource (fst s') ''cpu'' = Some PROBE)"
  using published_limit_names_its_finder [of "(new_limit_store, [])" "counting_kernel 2" demo_device AMD 1 False None]
  by (simp add: demo_fill demo_path)

theorem limit_search_is_paid_once_witness:
  "fillDeviceLimit (counting_kernel 2) demo_device AMD 1 False None
     (\<lparr>ls_settled = [(''cpu'', Some 2)], ls_sources = [(''cpu'', PROBE)]\<rparr>, [7])
   = Some (\<lparr>lf_count = Some 2, lf_source = PROBE\<rparr>, (\<lparr>ls_settled = [(''cpu'', Some 2)], ls_sources = [(''cpu'', PROBE)]\<rparr>, [7]))"
  by (rule limit_search_is_paid_once [OF _ demo_fill]) simp

end
