(* ===== verification/Passes.thy ===== *)
theory Passes
  imports Vocabulary Doubles
begin

text \<open>
  Multi-pass collection (\<open>src/source/harness/pass_plan.cpp\<close>): the method a run settles to, the first-fit plan
  that seats the columns of a run in passes within the counter limits of its devices, the merge of the passes'
  results and the spread between passes.

  A column asks, per counter source, for a set of leaf addresses.  \<open>need\<close> is the set of addresses a set of
  columns asks of a source and \<open>in_limits\<close> says that no limit is exceeded: the specification of the plan speaks of
  these two alone.
\<close>

datatype metric_method = AUTO | PASSES | MULTIPLEX

definition settleMethod :: "metric_method \<Rightarrow> bool \<Rightarrow> nat \<Rightarrow> metric_method" where
  "settleMethod requested anyLimit metricColumns =
     (if metricColumns = 0 then AUTO
      else if \<not> anyLimit then MULTIPLEX
      else if requested = AUTO then PASSES
      else requested)"

subsection \<open>The plan\<close>

record column_leaves =
  cl_source :: nat
  cl_addresses :: "string list"

type_synonym column_ask = "column_leaves list"
type_synonym source_limits = "nat option list"

record pass_plan =
  pp_columns :: "nat list list"
  pp_exclusive :: "bool list"
  pp_measuringPass :: "nat list"

definition empty_plan :: pass_plan where
  "empty_plan = \<lparr>pp_columns = [], pp_exclusive = [], pp_measuringPass = []\<rparr>"

definition askedAddresses :: "column_ask \<Rightarrow> nat \<Rightarrow> string list list" where
  "askedAddresses groups sources =
     foldl (\<lambda>asked g. asked[cl_source g := asked ! cl_source g @ cl_addresses g]) (replicate sources []) groups"

definition claimedAddresses :: "string list \<Rightarrow> string list \<Rightarrow> string list" where
  "claimedAddresses held asked = foldl (\<lambda>claims a. if a \<in> set claims then claims else claims @ [a]) held asked"

definition exceeds_limit :: "nat option \<Rightarrow> string list \<Rightarrow> bool" where
  "exceeds_limit limit claims = (case limit of None \<Rightarrow> False | Some l \<Rightarrow> l < length claims)"

definition holdsColumn :: "string list list \<Rightarrow> string list list \<Rightarrow> source_limits \<Rightarrow> bool" where
  "holdsColumn claims asked limits =
     list_all (\<lambda>s. \<not> exceeds_limit (limits ! s) (claimedAddresses (claims ! s) (asked ! s))) [0..<length limits]"

definition everyGroupNamesPricedSource :: "column_ask list \<Rightarrow> source_limits \<Rightarrow> bool" where
  "everyGroupNamesPricedSource columnLeaves limits =
     list_all (list_all (\<lambda>g. cl_source g < length limits)) columnLeaves"

record pass_state =
  ps_columns :: "nat list list"
  ps_exclusive :: "bool list"
  ps_claims :: "string list list list"
  ps_measuring :: "nat list"

text \<open>The loop body of one column: whether it is alone over a limit, the first open pass that holds it, the
  pass that opens when none does, and the claims of its pass.\<close>

definition column_alone :: "string list list \<Rightarrow> source_limits \<Rightarrow> bool" where
  "column_alone asked limits =
     list_ex (\<lambda>s. exceeds_limit (limits ! s) (claimedAddresses [] (asked ! s))) [0..<length limits]"

definition first_fit :: "string list list list \<Rightarrow> string list list \<Rightarrow> source_limits \<Rightarrow> nat" where
  "first_fit claims asked limits =
     (case index_of (\<lambda>c. holdsColumn c asked limits) claims of Some p \<Rightarrow> p | None \<Rightarrow> length claims)"

definition seat_column :: "column_ask list \<Rightarrow> source_limits \<Rightarrow> nat \<Rightarrow> pass_state \<Rightarrow> pass_state" where
  "seat_column columnLeaves limits column st =
     (let asked = askedAddresses (columnLeaves ! column) (length limits);
          alone = column_alone asked limits;
          found = (if alone then 0 else first_fit (ps_claims st) asked limits);
          opens = alone \<or> found = length (ps_columns st);
          pass = (if opens then length (ps_columns st) else found);
          st1 = (if opens
                 then st\<lparr>ps_columns := ps_columns st @ [[]], ps_exclusive := ps_exclusive st @ [alone],
                         ps_claims := ps_claims st @ [replicate (length limits) []]\<rparr>
                 else st)
      in st1\<lparr>ps_claims := (ps_claims st1)[pass := map2 claimedAddresses (ps_claims st1 ! pass) asked],
             ps_columns := (ps_columns st1)[pass := ps_columns st1 ! pass @ [column]],
             ps_measuring := (ps_measuring st1)[column := pass]\<rparr>)"

definition seat_columns :: "column_ask list \<Rightarrow> source_limits \<Rightarrow> nat \<Rightarrow> pass_state" where
  "seat_columns columnLeaves limits n =
     fold (seat_column columnLeaves limits) [0..<n]
       \<lparr>ps_columns = [], ps_exclusive = [], ps_claims = [], ps_measuring = replicate (length columnLeaves) 0\<rparr>"

text \<open>The assertions on the finished plan.\<close>

definition plan_asserts :: "source_limits \<Rightarrow> pass_state \<Rightarrow> bool" where
  "plan_asserts limits st \<longleftrightarrow>
     list_all (\<lambda>p. ps_columns st ! p \<noteq> [] \<and> sorted_wrt (<) (ps_columns st ! p)
         \<and> (p > 0 \<longrightarrow> hd (ps_columns st ! (p - 1)) < hd (ps_columns st ! p))
         \<and> (\<not> ps_exclusive st ! p \<longrightarrow>
              list_all (\<lambda>s. \<not> exceeds_limit (limits ! s) (ps_claims st ! p ! s)) [0..<length limits]))
       [0..<length (ps_columns st)]"

definition planPasses :: "column_ask list \<Rightarrow> source_limits \<Rightarrow> pass_plan checked" where
  "planPasses columnLeaves limits =
     (if \<not> everyGroupNamesPricedSource columnLeaves limits then None
      else if \<not> list_ex (\<lambda>l. l \<noteq> None) limits then Some empty_plan
      else
        let st = seat_columns columnLeaves limits (length columnLeaves)
        in if plan_asserts limits st
           then Some \<lparr>pp_columns = ps_columns st, pp_exclusive = ps_exclusive st, pp_measuringPass = ps_measuring st\<rparr>
           else None)"

subsection \<open>What the columns of a pass need\<close>

definition column_need :: "column_ask \<Rightarrow> nat \<Rightarrow> string set" where
  "column_need ask s = (\<Union>g\<in>set ask. if cl_source g = s then set (cl_addresses g) else {})"

definition need :: "column_ask list \<Rightarrow> nat \<Rightarrow> nat set \<Rightarrow> string set" where
  "need columnLeaves s C = (\<Union>c\<in>C. column_need (columnLeaves ! c) s)"

definition in_limits :: "column_ask list \<Rightarrow> source_limits \<Rightarrow> nat set \<Rightarrow> bool" where
  "in_limits columnLeaves limits C \<longleftrightarrow>
     (\<forall>s < length limits. \<forall>l. limits ! s = Some l \<longrightarrow> card (need columnLeaves s C) \<le> l)"

lemma claimed_facts:
  "distinct held \<Longrightarrow> distinct (claimedAddresses held asked)"
  "set (claimedAddresses held asked) = set held \<union> set asked"
  by (induction asked arbitrary: held) (auto simp: claimedAddresses_def)

lemma asked_length [simp]: "length (askedAddresses ask n) = n"
proof -
  have "length (foldl (\<lambda>asked g. asked[cl_source g := asked ! cl_source g @ cl_addresses g]) xs ask) = length xs"
    for xs :: "string list list"
    by (induction ask arbitrary: xs) simp_all
  then show ?thesis by (simp add: askedAddresses_def)
qed

lemma asked_need:
  assumes "list_all (\<lambda>g. cl_source g < n) ask" and "s < n"
  shows "set (askedAddresses ask n ! s) = column_need ask s"
proof -
  have "set (foldl (\<lambda>asked g. asked[cl_source g := asked ! cl_source g @ cl_addresses g]) xs ask ! s)
      = set (xs ! s) \<union> column_need ask s" if "length xs = n" for xs
    using assms(1) that
  proof (induction ask arbitrary: xs)
    case (Cons g ask)
    then show ?case using \<open>s < n\<close> by (auto simp: column_need_def nth_list_update)
  qed (simp add: column_need_def)
  from this [of "replicate n []"] show ?thesis using assms(2) by (simp add: askedAddresses_def)
qed

lemma finite_need [simp]: "finite C \<Longrightarrow> finite (need columnLeaves s C)"
  by (auto simp: need_def column_need_def)

lemma need_insert: "need columnLeaves s (insert c C) = need columnLeaves s C \<union> column_need (columnLeaves ! c) s"
  by (auto simp: need_def)

lemma need_mono: "C \<subseteq> D \<Longrightarrow> need columnLeaves s C \<subseteq> need columnLeaves s D"
  by (auto simp: need_def)

lemma within_mono: "C \<subseteq> D \<Longrightarrow> finite D \<Longrightarrow> in_limits columnLeaves limits D \<Longrightarrow> in_limits columnLeaves limits C"
  unfolding in_limits_def by (meson card_mono finite_need need_mono order_trans)

lemma exceeds_limit_card:
  "distinct xs \<Longrightarrow> exceeds_limit limit xs \<longleftrightarrow> (\<exists>l. limit = Some l \<and> l < card (set xs))"
  by (auto simp: exceeds_limit_def distinct_card split: option.splits)

subsection \<open>First fit\<close>

text \<open>
  What holds after the columns below \<open>n\<close> are seated.  The claims of a pass are the needs of its columns; a pass is
  exclusive exactly when its columns exceed a limit, and then it has one column; every column stands in the pass
  the plan names, and no earlier pass could have held it.
\<close>

definition seated :: "column_ask list \<Rightarrow> source_limits \<Rightarrow> nat \<Rightarrow> nat list list \<Rightarrow> bool list \<Rightarrow> nat list \<Rightarrow> bool" where
  "seated cols limits n columns exclusive measuring \<longleftrightarrow>
     length exclusive = length columns \<and> length measuring = length cols
     \<and> (\<forall>c < n. measuring ! c < length columns)
     \<and> (\<forall>p < length columns. set (columns ! p) = {c. c < n \<and> measuring ! c = p} \<and> columns ! p \<noteq> []
          \<and> sorted_wrt (<) (columns ! p)
          \<and> (exclusive ! p \<longleftrightarrow> \<not> in_limits cols limits (set (columns ! p)))
          \<and> (exclusive ! p \<longrightarrow> length (columns ! p) = 1))
     \<and> sorted_wrt (<) (map hd columns)
     \<and> (\<forall>c < n. \<forall>q < measuring ! c. \<not> in_limits cols limits (insert c {d \<in> set (columns ! q). d < c}))"

definition claims_ok :: "column_ask list \<Rightarrow> source_limits \<Rightarrow> nat list list \<Rightarrow> string list list list \<Rightarrow> bool" where
  "claims_ok cols limits columns claims \<longleftrightarrow>
     length claims = length columns
     \<and> (\<forall>p < length columns. length (claims ! p) = length limits
          \<and> (\<forall>s < length limits. distinct (claims ! p ! s) \<and> set (claims ! p ! s) = need cols s (set (columns ! p))))"

definition pass_inv :: "column_ask list \<Rightarrow> source_limits \<Rightarrow> nat \<Rightarrow> pass_state \<Rightarrow> bool" where
  "pass_inv cols limits n st \<longleftrightarrow>
     seated cols limits n (ps_columns st) (ps_exclusive st) (ps_measuring st)
     \<and> claims_ok cols limits (ps_columns st) (ps_claims st)"

lemma holdsColumn_within:
  assumes "length claims = length limits" and "\<forall>s < length limits. distinct (claims ! s) \<and> set (claims ! s) = need cols s C"
    and "list_all (\<lambda>g. cl_source g < length limits) (cols ! c)"
  shows "holdsColumn claims (askedAddresses (cols ! c) (length limits)) limits \<longleftrightarrow> in_limits cols limits (insert c C)"
  using assms
  by (auto simp: holdsColumn_def in_limits_def list_all_iff exceeds_limit_card claimed_facts asked_need need_insert Un_commute not_less)

lemma alone_within:
  assumes "list_all (\<lambda>g. cl_source g < length limits) (cols ! c)"
  shows "column_alone (askedAddresses (cols ! c) (length limits)) limits \<longleftrightarrow> \<not> in_limits cols limits {c}"
  using assms
  by (auto simp: column_alone_def in_limits_def list_ex_iff exceeds_limit_card claimed_facts asked_need need_def not_le)

lemma claims_step:
  assumes "length claims = length limits" and "\<forall>s < length limits. distinct (claims ! s) \<and> set (claims ! s) = need cols s C"
    and "list_all (\<lambda>g. cl_source g < length limits) (cols ! c)" and "s < length limits"
  shows "distinct (map2 claimedAddresses claims (askedAddresses (cols ! c) (length limits)) ! s)
    \<and> set (map2 claimedAddresses claims (askedAddresses (cols ! c) (length limits)) ! s) = need cols s (insert c C)"
  using assms by (auto simp: claimed_facts asked_need need_insert)

lemma first_fit_spec:
  assumes "claims_ok cols limits columns claims" and "list_all (\<lambda>g. cl_source g < length limits) (cols ! c)"
  defines "p \<equiv> first_fit claims (askedAddresses (cols ! c) (length limits)) limits"
  shows "p \<le> length columns"
    and "p < length columns \<Longrightarrow> in_limits cols limits (insert c (set (columns ! p)))"
    and "q < p \<Longrightarrow> \<not> in_limits cols limits (insert c (set (columns ! q)))"
proof -
  have holds: "holdsColumn (claims ! q) (askedAddresses (cols ! c) (length limits)) limits
      \<longleftrightarrow> in_limits cols limits (insert c (set (columns ! q)))" if "q < length columns" for q
    using assms(1,2) that by (intro holdsColumn_within) (auto simp: claims_ok_def)
  have len: "length claims = length columns" using assms(1) by (simp add: claims_ok_def)
  let ?h = "\<lambda>x. holdsColumn x (askedAddresses (cols ! c) (length limits)) limits"
  have all: "p \<le> length columns \<and> (p < length columns \<longrightarrow> in_limits cols limits (insert c (set (columns ! p))))
      \<and> (\<forall>q<p. \<not> in_limits cols limits (insert c (set (columns ! q))))"
  proof (cases "index_of ?h claims")
    case None
    then show ?thesis using holds len index_of_None [of ?h claims] by (auto simp: p_def first_fit_def)
  next
    case (Some i)
    then show ?thesis using holds len index_of_Some [OF Some] by (auto simp: p_def first_fit_def)
  qed
  then show "p \<le> length columns" "p < length columns \<Longrightarrow> in_limits cols limits (insert c (set (columns ! p)))"
    "q < p \<Longrightarrow> \<not> in_limits cols limits (insert c (set (columns ! q)))" by blast+
qed

lemma seatedD:
  assumes "seated cols limits n columns exclusive measuring"
  shows "length exclusive = length columns" and "length measuring = length cols"
    and "c < n \<Longrightarrow> measuring ! c < length columns"
    and "p < length columns \<Longrightarrow> set (columns ! p) = {c. c < n \<and> measuring ! c = p}"
    and "p < length columns \<Longrightarrow> columns ! p \<noteq> [] \<and> sorted_wrt (<) (columns ! p)"
    and "p < length columns \<Longrightarrow> exclusive ! p \<longleftrightarrow> \<not> in_limits cols limits (set (columns ! p))"
    and "p < length columns \<Longrightarrow> exclusive ! p \<Longrightarrow> length (columns ! p) = 1"
    and "sorted_wrt (<) (map hd columns)"
    and "c < n \<Longrightarrow> q < measuring ! c \<Longrightarrow> \<not> in_limits cols limits (insert c {d \<in> set (columns ! q). d < c})"
  using assms unfolding seated_def by blast+

lemma seated_open:
  assumes s: "seated cols limits n columns exclusive measuring" and n: "n < length cols"
    and a: "alone \<longleftrightarrow> \<not> in_limits cols limits {n}"
    and no: "\<forall>q < length columns. \<not> in_limits cols limits (insert n (set (columns ! q)))"
  shows "seated cols limits (Suc n) (columns @ [[n]]) (exclusive @ [alone]) (measuring[n := length columns])"
proof -
  note d = seatedD [OF s]
  have low: "c < n" if "p < length columns" "c \<in> set (columns ! p)" for p c using d(4) that by auto
  have old: "set (columns ! p) = {c. c < Suc n \<and> measuring[n := length columns] ! c = p}" if "p < length columns" for p
    using d(4) [OF that] d(2) n that by (auto simp: nth_list_update less_Suc_eq)
  have new: "{n} = {c. c < Suc n \<and> measuring[n := length columns] ! c = length columns}"
    using d(2) n by (auto simp: nth_list_update less_Suc_eq dest: d(3))
  have heads: "sorted_wrt (<) (map hd (columns @ [[n]]))"
  proof -
    have "hd (columns ! p) < n" if "p < length columns" for p using low [OF that] d(5) [OF that] by simp
    then show ?thesis using d(8) by (auto simp: sorted_wrt_append in_set_conv_nth)
  qed
  have fit: "\<not> in_limits cols limits (insert c {d \<in> set ((columns @ [[n]]) ! q). d < c})"
    if "c < Suc n" "q < measuring[n := length columns] ! c" for c q
  proof (cases "c = n")
    case True
    then have "q < length columns" using that(2) d(2) n by simp
    moreover have "{d \<in> set (columns ! q). d < n} = set (columns ! q)" using low calculation by auto
    ultimately show ?thesis using no True by (simp add: nth_append)
  next
    case False
    then have "c < n" "q < measuring ! c" using that by simp_all
    then show ?thesis using d(9) d(3) [of c] by (simp add: nth_append)
  qed
  show ?thesis
    unfolding seated_def
  proof (intro conjI allI impI)
    fix p assume p: "p < length (columns @ [[n]])"
    have case_p: "p < length columns \<or> p = length columns" using p by auto
    show "set ((columns @ [[n]]) ! p) = {c. c < Suc n \<and> measuring[n := length columns] ! c = p}"
      using case_p old [of p] new [symmetric] by (elim disjE; simp add: nth_append)
    show "(columns @ [[n]]) ! p \<noteq> []" "sorted_wrt (<) ((columns @ [[n]]) ! p)"
      using case_p d(5) [of p] by (elim disjE; simp add: nth_append)+
    show "(exclusive @ [alone]) ! p \<longleftrightarrow> \<not> in_limits cols limits (set ((columns @ [[n]]) ! p))"
      using case_p d(6) [of p] a by (elim disjE; simp add: nth_append d(1))
    show "length ((columns @ [[n]]) ! p) = 1" if "(exclusive @ [alone]) ! p"
      using case_p d(7) [of p] that by (elim disjE; simp add: nth_append d(1))
  next
    fix c assume c: "c < Suc n"
    show "measuring[n := length columns] ! c < length (columns @ [[n]])"
      using c d(2) d(3) [of c] n by (auto simp: nth_list_update less_Suc_eq)
  qed (use d(1,2) heads fit in auto)
qed

lemma seated_join:
  assumes s: "seated cols limits n columns exclusive measuring" and n: "n < length cols" and p: "p < length columns"
    and fit: "in_limits cols limits (insert n (set (columns ! p)))"
    and no: "\<forall>q < p. \<not> in_limits cols limits (insert n (set (columns ! q)))"
  shows "seated cols limits (Suc n) (columns[p := columns ! p @ [n]]) exclusive (measuring[n := p])"
proof -
  note d = seatedD [OF s]
  have low: "c < n" if "q < length columns" "c \<in> set (columns ! q)" for q c using d(4) that by auto
  have shared: "\<not> exclusive ! p" using d(6) [OF p] fit within_mono [of "set (columns ! p)"] by blast
  have sets: "set (columns[p := columns ! p @ [n]] ! q) = {c. c < Suc n \<and> measuring[n := p] ! c = q}" if "q < length columns" for q
    using d(4) [OF that] d(2) n p by (auto simp: nth_list_update less_Suc_eq)
  have heads: "map hd (columns[p := columns ! p @ [n]]) = map hd columns"
    using d(5) [OF p] by (simp add: map_update list_update_same_conv p)
  have keeps: "\<not> in_limits cols limits (insert c {d \<in> set (columns[p := columns ! p @ [n]] ! q). d < c})"
    if "c < Suc n" "q < measuring[n := p] ! c" for c q
  proof (cases "c = n")
    case True
    then have "q < p" using that(2) d(2) n by simp
    moreover from this have "{d \<in> set (columns ! q). d < n} = set (columns ! q)" using low [of q] p by auto
    ultimately show ?thesis using no True by simp
  next
    case False
    then have c: "c < n" "q < measuring ! c" using that by simp_all
    then have "{d \<in> set (columns[p := columns ! p @ [n]] ! q). d < c} = {d \<in> set (columns ! q). d < c}"
      using d(3) [OF c(1)] p by (auto simp: nth_list_update)
    then show ?thesis using d(9) [OF c] by simp
  qed
  show ?thesis
    unfolding seated_def
  proof (intro conjI allI impI)
    fix q assume q: "q < length (columns[p := columns ! p @ [n]])"
    then have q': "q < length columns" by simp
    show "set (columns[p := columns ! p @ [n]] ! q) = {c. c < Suc n \<and> measuring[n := p] ! c = q}" by (rule sets [OF q'])
    show "columns[p := columns ! p @ [n]] ! q \<noteq> []" "sorted_wrt (<) (columns[p := columns ! p @ [n]] ! q)"
      using d(5) [OF q'] low [OF p] p by (auto simp: nth_list_update sorted_wrt_append)
    show "exclusive ! q \<longleftrightarrow> \<not> in_limits cols limits (set (columns[p := columns ! p @ [n]] ! q))"
      using d(6) [OF q'] shared fit p by (auto simp: nth_list_update)
    show "length (columns[p := columns ! p @ [n]] ! q) = 1" if "exclusive ! q"
      using d(7) [OF q' that] shared that p by (auto simp: nth_list_update)
  next
    fix c assume c: "c < Suc n"
    show "measuring[n := p] ! c < length (columns[p := columns ! p @ [n]])"
      using c d(2) d(3) [of c] n p by (auto simp: nth_list_update less_Suc_eq)
  qed (use d(1,2,8) heads keeps in auto)
qed

lemma claims_join:
  assumes "claims_ok cols limits columns claims" and "p < length columns"
    and "list_all (\<lambda>g. cl_source g < length limits) (cols ! c)"
  shows "claims_ok cols limits (columns[p := columns ! p @ [c]])
    (claims[p := map2 claimedAddresses (claims ! p) (askedAddresses (cols ! c) (length limits))])"
  using assms claims_step [of "claims ! p" limits cols "set (columns ! p)" c]
  by (auto simp: claims_ok_def nth_list_update)

lemma claims_open:
  assumes "claims_ok cols limits columns claims" and "list_all (\<lambda>g. cl_source g < length limits) (cols ! c)"
  shows "claims_ok cols limits (columns @ [[c]])
    (claims @ [map2 claimedAddresses (replicate (length limits) []) (askedAddresses (cols ! c) (length limits))])"
proof -
  have "\<forall>s<length limits. distinct (replicate (length limits) [] ! s) \<and> set (replicate (length limits) [] ! s) = need cols s {}"
    by (simp add: need_def)
  from claims_step [OF _ this assms(2)] show ?thesis
    using assms(1) by (auto simp: claims_ok_def nth_append less_Suc_eq)
qed

lemma seat_column_inv:
  assumes inv: "pass_inv cols limits n st" and n: "n < length cols"
    and priced: "list_all (\<lambda>g. cl_source g < length limits) (cols ! n)"
  shows "pass_inv cols limits (Suc n) (seat_column cols limits n st)"
proof -
  let ?asked = "askedAddresses (cols ! n) (length limits)"
  define found where "found = first_fit (ps_claims st) ?asked limits"
  have s: "seated cols limits n (ps_columns st) (ps_exclusive st) (ps_measuring st)"
    and c: "claims_ok cols limits (ps_columns st) (ps_claims st)"
    using inv by (simp_all add: pass_inv_def)
  note ff = first_fit_spec [OF c priced, folded found_def]
  have lc: "length (ps_claims st) = length (ps_columns st)" using c by (simp add: claims_ok_def)
  have alone: "column_alone ?asked limits \<longleftrightarrow> \<not> in_limits cols limits {n}" by (rule alone_within [OF priced])
  show ?thesis
  proof (cases "column_alone ?asked limits \<or> found = length (ps_columns st)")
    case True
    have "\<forall>q < length (ps_columns st). \<not> in_limits cols limits (insert n (set (ps_columns st ! q)))"
      using True ff(3) alone within_mono [of "{n}" "insert n (set (ps_columns st ! q))" for q] by blast
    note here = seated_open [OF s n alone this] claims_open [OF c priced]
    have new: "(ps_claims st @ [x]) ! length (ps_columns st) = x"
      "(ps_claims st @ [x])[length (ps_columns st) := y] = ps_claims st @ [y]" for x y
      by (metis lc nth_append_length, metis lc list_update_length)
    have "pass_inv cols limits (Suc n) (seat_column cols limits n st)" if "column_alone ?asked limits \<or> found = length (ps_columns st)"
      using here that by (auto simp: pass_inv_def seat_column_def Let_def new found_def [symmetric])
    then show ?thesis using True by blast
  next
    case False
    then have p: "found < length (ps_columns st)" using ff(1) by simp
    from seated_join [OF s n p ff(2) [OF p]] claims_join [OF c p priced] ff(3) False show ?thesis
      by (simp add: pass_inv_def seat_column_def Let_def found_def [symmetric])
  qed
qed

lemma seat_columns_inv:
  assumes "everyGroupNamesPricedSource cols limits" and "n \<le> length cols"
  shows "pass_inv cols limits n (seat_columns cols limits n)"
  using assms(2)
proof (induction n)
  case 0
  then show ?case by (simp add: pass_inv_def seated_def claims_ok_def seat_columns_def)
next
  case (Suc n)
  have "list_all (\<lambda>g. cl_source g < length limits) (cols ! n)"
    using assms(1) Suc.prems by (simp add: everyGroupNamesPricedSource_def list_all_length)
  with Suc seat_column_inv [of cols limits n] show ?case by (simp add: seat_columns_def)
qed

lemma pass_inv_asserts: "pass_inv cols limits n st \<Longrightarrow> plan_asserts limits st"
proof -
  assume inv: "pass_inv cols limits n st"
  then have s: "seated cols limits n (ps_columns st) (ps_exclusive st) (ps_measuring st)"
    and c: "claims_ok cols limits (ps_columns st) (ps_claims st)" by (simp_all add: pass_inv_def)
  note d = seatedD [OF s]
  have heads: "hd (ps_columns st ! (p - 1)) < hd (ps_columns st ! p)" if "p < length (ps_columns st)" "0 < p" for p
    using d(8) that by (simp add: sorted_wrt_iff_nth_less)
  have limits: "\<not> exceeds_limit (limits ! i) (ps_claims st ! p ! i)"
    if p: "p < length (ps_columns st)" "\<not> ps_exclusive st ! p" and i: "i < length limits" for p i
  proof -
    have "card (need cols i (set (ps_columns st ! p))) \<le> l" if "limits ! i = Some l" for l
      using d(6) [OF p(1)] p(2) i that by (simp add: in_limits_def)
    moreover have "distinct (ps_claims st ! p ! i)" "set (ps_claims st ! p ! i) = need cols i (set (ps_columns st ! p))"
      using c p(1) i by (simp_all add: claims_ok_def)
    ultimately show ?thesis by (simp add: exceeds_limit_card not_less)
  qed
  show ?thesis unfolding plan_asserts_def using d(5) heads limits by (auto simp: list_all_iff)
qed

lemma planPasses_plan:
  assumes "everyGroupNamesPricedSource cols limits" and "\<exists>l\<in>set limits. l \<noteq> None"
  shows "\<exists>plan. planPasses cols limits = Some plan
    \<and> seated cols limits (length cols) (pp_columns plan) (pp_exclusive plan) (pp_measuringPass plan)"
  using seat_columns_inv [OF assms(1) order_refl] pass_inv_asserts assms
  by (auto simp: planPasses_def pass_inv_def Let_def list_ex_iff)

text \<open>C16. A plan of passes is made without violating a contract whenever every leaf group names a priced source
  and some source has a limit.  Every column then stands in exactly the pass the plan names for it, in request
  order; no pass is empty; the passes follow the order of their first columns; a pass stays within every
  limit, its shared leaves counted once, unless it is marked exclusive, and an exclusive pass holds one column
  that exceeds a limit by itself.\<close>

theorem planned_passes_respect_the_limits:
  assumes "everyGroupNamesPricedSource cols limits" and "\<exists>l\<in>set limits. l \<noteq> None"
  shows "\<exists>plan. planPasses cols limits = Some plan
    \<and> length (pp_measuringPass plan) = length cols \<and> length (pp_exclusive plan) = length (pp_columns plan)
    \<and> (\<forall>c < length cols. pp_measuringPass plan ! c < length (pp_columns plan))
    \<and> (\<forall>p < length (pp_columns plan).
         set (pp_columns plan ! p) = {c. c < length cols \<and> pp_measuringPass plan ! c = p}
         \<and> pp_columns plan ! p \<noteq> [] \<and> sorted_wrt (<) (pp_columns plan ! p)
         \<and> (pp_exclusive plan ! p \<longleftrightarrow> \<not> in_limits cols limits (set (pp_columns plan ! p)))
         \<and> (pp_exclusive plan ! p \<longrightarrow> length (pp_columns plan ! p) = 1))
    \<and> sorted_wrt (<) (map hd (pp_columns plan))"
  using planPasses_plan [OF assms] unfolding seated_def by blast

text \<open>The plan is first fit: a column is seated in a pass only when each earlier pass, with the columns
  requested before it, would exceed a limit with it.\<close>

theorem columns_take_the_first_pass_that_fits:
  assumes "planPasses cols limits = Some plan" and "c < length cols" and "q < pp_measuringPass plan ! c"
    and "\<exists>l\<in>set limits. l \<noteq> None"
  shows "\<not> in_limits cols limits (insert c {d \<in> set (pp_columns plan ! q). d < c})"
proof -
  have "everyGroupNamesPricedSource cols limits" using assms(1) by (auto simp: planPasses_def split: if_splits)
  from planPasses_plan [OF this assms(4)] assms(1-3) show ?thesis by (auto dest: seatedD(9))
qed

definition demo_asks :: "column_ask list" where
  "demo_asks =
     [[\<lparr>cl_source = 0, cl_addresses = [''cpu/a'', ''cpu/b'']\<rparr>], [\<lparr>cl_source = 0, cl_addresses = [''cpu/b'']\<rparr>],
      [\<lparr>cl_source = 0, cl_addresses = [''cpu/c'']\<rparr>],
      [\<lparr>cl_source = 0, cl_addresses = [''cpu/d'', ''cpu/e'', ''cpu/f'']\<rparr>],
      [\<lparr>cl_source = 1, cl_addresses = [''os/g'', ''os/h'', ''os/i'']\<rparr>]]"

lemma demo_plan:
  "planPasses demo_asks [Some 2, None] =
     Some \<lparr>pp_columns = [[0, 1, 4], [2], [3]], pp_exclusive = [False, False, True], pp_measuringPass = [0, 0, 1, 2, 0]\<rparr>"
  by code_simp

theorem planned_passes_respect_the_limits_witness:
  "\<exists>plan. planPasses demo_asks [Some 2, None] = Some plan \<and> pp_columns plan = [[0, 1, 4], [2], [3]]
     \<and> in_limits demo_asks [Some 2, None] {0, 1, 4} \<and> \<not> in_limits demo_asks [Some 2, None] {3}"
proof -
  have "everyGroupNamesPricedSource demo_asks [Some 2, None]" by code_simp
  from planned_passes_respect_the_limits [OF this] obtain plan where p: "planPasses demo_asks [Some 2, None] = Some plan"
    and w: "\<forall>p < length (pp_columns plan). pp_exclusive plan ! p \<longleftrightarrow> \<not> in_limits demo_asks [Some 2, None] (set (pp_columns plan ! p))"
    by auto
  have plan: "pp_columns plan = [[0, 1, 4], [2], [3]]" "pp_exclusive plan = [False, False, True]"
    using p demo_plan by auto
  have "in_limits demo_asks [Some 2, None] {0, 1, 4}" "\<not> in_limits demo_asks [Some 2, None] {3}"
    using plan w [rule_format, of 0] w [rule_format, of 2] by (simp_all add: insert_commute)
  then show ?thesis using p plan(1) by blast
qed

theorem columns_take_the_first_pass_that_fits_witness:
  "\<not> in_limits demo_asks [Some 2, None] {0, 1, 2}"
proof -
  have "\<not> in_limits demo_asks [Some 2, None] (insert 2 {d \<in> set [0, 1, 4]. d < 2})"
    using columns_take_the_first_pass_that_fits [OF demo_plan, of 2 0] by (simp add: demo_asks_def)
  moreover have "insert 2 {d \<in> set [0, 1, 4]. d < 2} = {0, 1, 2::nat}" by auto
  ultimately show ?thesis by simp
qed

subsection \<open>The merge\<close>

record percentile_value =
  pv_available :: bool
  pv_value :: binary64

record metric_value =
  mv_value :: binary64
  mv_runningRatio :: binary64
  mv_scaled :: bool
  mv_availability :: availability
  mv_pass :: "nat option"

text \<open>
  A row and a result: the fields the merge reads or writes, and what it copies from the reference pass
  unread (kind, iterations, labels, statistics, disclosures and the like).
\<close>

record 'q result_row =
  rr_timePerIterationNs :: binary64
  rr_cpuTimePerIterationNs :: binary64
  rr_metrics :: "metric_value list"
  rr_counters :: "binary64 list"
  rr_percentiles :: "percentile_value list list"
  rr_copied :: 'q

record ('q, 'r) benchmark_result =
  br_rows :: "'q result_row list"
  br_metricLabels :: "string list"
  br_metricMethod :: metric_method
  br_passCount :: nat
  br_passSpread :: "binary64 option"
  br_primaryIsCpu :: bool
  br_contextPercentiles :: "percentile_value list list list"
  br_copied :: 'r

text \<open>\<open>operator[]\<close> of a vector, and a loop that writes every element of a vector.\<close>

definition elem_at :: "'a list \<Rightarrow> nat \<Rightarrow> 'a checked" where
  "elem_at xs i = (if i < length xs then Some (xs ! i) else None)"

definition for_each :: "nat \<Rightarrow> (nat \<Rightarrow> 'a checked) \<Rightarrow> 'a list checked" where
  "for_each n f = those (map f [0..<n])"

definition widestGrid :: "('q, 'r) benchmark_result list \<Rightarrow> nat" where
  "widestGrid results =
     foldl (\<lambda>w r. foldl (\<lambda>v block. max v (length block))
         (foldl (\<lambda>v rw. max v (length (rr_percentiles rw))) w (br_rows r)) (br_contextPercentiles r)) 0 results"

definition hundred64 :: binary64 where "hundred64 = of_nat64 100"

definition passSpread :: "binary64 list \<Rightarrow> binary64 option checked" where
  "passSpread passTimes =
     (if length passTimes < 2 then Some None
      else
        case sort_doubles passTimes of
          None \<Rightarrow> None
        | Some ordered \<Rightarrow>
            let median = ordered ! ((length ordered - 1) div 2)
            in if dzero median then Some None
               else Some (Some (dmul (ddiv (dsub (last ordered) (hd ordered)) median) hundred64)))"

definition measured_row :: "pass_plan \<Rightarrow> ('q, 'r) benchmark_result list \<Rightarrow> nat \<Rightarrow> nat \<Rightarrow> (nat \<times> 'q result_row) checked" where
  "measured_row plan results row column =
     Option.bind (elem_at (pp_measuringPass plan) column) (\<lambda>p.
       Option.bind (elem_at results p) (\<lambda>r. map_option (Pair p) (elem_at (br_rows r) row)))"

definition merge_metric :: "pass_plan \<Rightarrow> ('q, 'r) benchmark_result list \<Rightarrow> nat \<Rightarrow> nat \<Rightarrow> metric_value checked" where
  "merge_metric plan results row metric =
     Option.bind (measured_row plan results row metric)
       (\<lambda>(p, rw). map_option (\<lambda>v. v\<lparr>mv_pass := Some p\<rparr>) (elem_at (rr_metrics rw) metric))"

definition merge_counter :: "pass_plan \<Rightarrow> ('q, 'r) benchmark_result list \<Rightarrow> nat \<Rightarrow> nat \<Rightarrow> nat \<Rightarrow> binary64 checked" where
  "merge_counter plan results metricColumns row counter =
     Option.bind (measured_row plan results row (metricColumns + counter)) (\<lambda>(p, rw). elem_at (rr_counters rw) counter)"

definition merge_slot :: "pass_plan \<Rightarrow> ('q, 'r) benchmark_result list \<Rightarrow> nat \<Rightarrow> 'q result_row \<Rightarrow> nat \<Rightarrow> percentile_value list checked" where
  "merge_slot plan results row mergedRow slot =
     (if slot < 2 then Some (rr_percentiles mergedRow ! slot)
      else Option.bind (measured_row plan results row (slot - 2)) (\<lambda>(p, rw). elem_at (rr_percentiles rw) slot))"

definition merge_row :: "pass_plan \<Rightarrow> ('q, 'r) benchmark_result list \<Rightarrow> nat \<Rightarrow> nat \<Rightarrow> 'q result_row \<Rightarrow> 'q result_row checked" where
  "merge_row plan results metricColumns row mergedRow =
     Option.bind (for_each (length (rr_metrics mergedRow)) (merge_metric plan results row)) (\<lambda>metrics.
       Option.bind (for_each (length (rr_counters mergedRow)) (merge_counter plan results metricColumns row)) (\<lambda>counters.
         map_option
           (\<lambda>percentiles. mergedRow\<lparr>rr_metrics := metrics, rr_counters := counters, rr_percentiles := percentiles\<rparr>)
           (for_each (length (rr_percentiles mergedRow)) (merge_slot plan results row mergedRow))))"

definition merge_block :: "pass_plan \<Rightarrow> ('q, 'r) benchmark_result list \<Rightarrow> nat \<Rightarrow> percentile_value list list \<Rightarrow> percentile_value list list checked" where
  "merge_block plan results block columns =
     for_each (length columns) (\<lambda>slot.
       if slot < 2 then Some (columns ! slot)
       else Option.bind (elem_at (pp_measuringPass plan) (slot - 2)) (\<lambda>p. Option.bind (elem_at results p) (\<lambda>r.
              Option.bind (elem_at (br_contextPercentiles r) block) (\<lambda>b. elem_at b slot))))"

definition merged_spread :: "('q, 'r) benchmark_result list \<Rightarrow> ('q, 'r) benchmark_result \<Rightarrow> binary64 option checked" where
  "merged_spread results merged =
     (if br_rows merged = [] then Some (br_passSpread merged)
      else Option.bind
        (for_each (length results) (\<lambda>p. map_option
            (\<lambda>rw. if br_primaryIsCpu merged then rr_cpuTimePerIterationNs rw else rr_timePerIterationNs rw)
            (elem_at (br_rows (results ! p)) 0)))
        passSpread)"

definition mergePasses :: "pass_plan \<Rightarrow> ('q, 'r) benchmark_result list \<Rightarrow> ('q, 'r) benchmark_result checked" where
  "mergePasses plan results =
     (if results = [] \<or> length (pp_columns plan) \<noteq> length results
         \<or> \<not> list_all (\<lambda>p. p < length results) (pp_measuringPass plan)
         \<or> \<not> widestGrid results \<le> length (pp_measuringPass plan) + 2 then None
      else
        let merged = hd results; metricColumns = length (br_metricLabels merged)
        in Option.bind
          (for_each (length (br_rows merged)) (\<lambda>row. merge_row plan results metricColumns row (br_rows merged ! row)))
          (\<lambda>rows. Option.bind
            (for_each (length (br_contextPercentiles merged))
               (\<lambda>block. merge_block plan results block (br_contextPercentiles merged ! block)))
            (\<lambda>blocks.
              let merged1 = merged\<lparr>br_rows := rows, br_contextPercentiles := blocks, br_metricMethod := PASSES,
                    br_passCount := length results\<rparr>
              in map_option (\<lambda>spread. merged1\<lparr>br_passSpread := spread\<rparr>) (merged_spread results merged1))))"

text \<open>Results of one shape, and a plan that names a pass for each of their columns.\<close>

definition row_shape :: "'q result_row \<Rightarrow> nat \<times> nat \<times> nat" where
  "row_shape rw = (length (rr_metrics rw), length (rr_counters rw), length (rr_percentiles rw))"

definition result_shape :: "('q, 'r) benchmark_result \<Rightarrow> (nat \<times> nat \<times> nat) list \<times> nat list" where
  "result_shape r = (map row_shape (br_rows r), map length (br_contextPercentiles r))"

definition mergeable :: "pass_plan \<Rightarrow> ('q, 'r) benchmark_result list \<Rightarrow> bool" where
  "mergeable plan results \<longleftrightarrow>
     results \<noteq> [] \<and> length (pp_columns plan) = length results \<and> (\<forall>p\<in>set (pp_measuringPass plan). p < length results)
     \<and> (\<forall>r\<in>set results. result_shape r = result_shape (hd results))
     \<and> (\<forall>rw\<in>set (br_rows (hd results)). length (rr_metrics rw) \<le> length (pp_measuringPass plan)
          \<and> length (br_metricLabels (hd results)) + length (rr_counters rw) \<le> length (pp_measuringPass plan)
          \<and> length (rr_percentiles rw) \<le> length (pp_measuringPass plan) + 2)
     \<and> (\<forall>b\<in>set (br_contextPercentiles (hd results)). length b \<le> length (pp_measuringPass plan) + 2)
     \<and> (\<forall>r\<in>set results. \<forall>rw\<in>set (br_rows r). rr_timePerIterationNs rw \<noteq> NaN \<and> rr_cpuTimePerIterationNs rw \<noteq> NaN)"

lemma elem_at_Some [simp]: "i < length xs \<Longrightarrow> elem_at xs i = Some (xs ! i)"
  by (simp add: elem_at_def)

lemma those_map_Some: "(\<forall>x\<in>set xs. f x = Some (g x)) \<Longrightarrow> those (map f xs) = Some (map g xs)"
  by (induction xs) simp_all

lemma for_each_Some: "(\<And>i. i < n \<Longrightarrow> f i = Some (g i)) \<Longrightarrow> for_each n f = Some (map g [0..<n])"
  unfolding for_each_def by (intro those_map_Some) simp

lemma foldl_max_le: "foldl (\<lambda>v x. max v (f x)) w xs \<le> (k::nat) \<longleftrightarrow> w \<le> k \<and> (\<forall>x\<in>set xs. f x \<le> k)"
  by (induction xs arbitrary: w) auto

lemma widestGrid_le:
  "widestGrid results \<le> k \<longleftrightarrow>
     (\<forall>r\<in>set results. (\<forall>rw\<in>set (br_rows r). length (rr_percentiles rw) \<le> k) \<and> (\<forall>b\<in>set (br_contextPercentiles r). length b \<le> k))"
proof -
  have "foldl (\<lambda>w r. foldl (\<lambda>v block. max v (length block))
         (foldl (\<lambda>v rw. max v (length (rr_percentiles rw))) w (br_rows r)) (br_contextPercentiles r)) w results \<le> k
    \<longleftrightarrow> w \<le> k \<and> (\<forall>r\<in>set results. (\<forall>rw\<in>set (br_rows r). length (rr_percentiles rw) \<le> k)
        \<and> (\<forall>b\<in>set (br_contextPercentiles r). length b \<le> k))" for w
    by (induction results arbitrary: w) (auto simp: foldl_max_le)
  then show ?thesis by (simp add: widestGrid_def)
qed

lemma same_shape_rows:
  assumes "result_shape r = result_shape h"
  shows "length (br_rows r) = length (br_rows h)" and "length (br_contextPercentiles r) = length (br_contextPercentiles h)"
    and "i < length (br_rows h) \<Longrightarrow> row_shape (br_rows r ! i) = row_shape (br_rows h ! i)"
    and "i < length (br_contextPercentiles h) \<Longrightarrow> length (br_contextPercentiles r ! i) = length (br_contextPercentiles h ! i)"
  using assms by (auto simp: result_shape_def list_eq_iff_nth_eq)

lemma passSpread_total: "NaN \<notin> set ts \<Longrightarrow> \<exists>s. passSpread ts = Some s"
  by (simp add: passSpread_def sort_doubles_def Let_def)

lemma mergeableD:
  assumes "mergeable plan results"
  shows "results \<noteq> []" and "length (pp_columns plan) = length results"
    and "p \<in> set (pp_measuringPass plan) \<Longrightarrow> p < length results"
    and "r \<in> set results \<Longrightarrow> result_shape r = result_shape (hd results)"
    and "rw \<in> set (br_rows (hd results)) \<Longrightarrow> length (rr_metrics rw) \<le> length (pp_measuringPass plan)"
    and "rw \<in> set (br_rows (hd results)) \<Longrightarrow> length (br_metricLabels (hd results)) + length (rr_counters rw) \<le> length (pp_measuringPass plan)"
    and "rw \<in> set (br_rows (hd results)) \<Longrightarrow> length (rr_percentiles rw) \<le> length (pp_measuringPass plan) + 2"
    and "b \<in> set (br_contextPercentiles (hd results)) \<Longrightarrow> length b \<le> length (pp_measuringPass plan) + 2"
    and "r \<in> set results \<Longrightarrow> rw \<in> set (br_rows r) \<Longrightarrow> rr_timePerIterationNs rw \<noteq> NaN \<and> rr_cpuTimePerIterationNs rw \<noteq> NaN"
  using assms unfolding mergeable_def by blast+

lemma mergeable_widest:
  assumes m: "mergeable plan results"
  shows "widestGrid results \<le> length (pp_measuringPass plan) + 2"
  unfolding widestGrid_le
proof (intro ballI conjI)
  fix r assume "r \<in> set results"
  then have s: "result_shape r = result_shape (hd results)" by (rule mergeableD(4) [OF m])
  note sh = same_shape_rows [OF s]
  show "length (rr_percentiles rw) \<le> length (pp_measuringPass plan) + 2" if "rw \<in> set (br_rows r)" for rw
  proof -
    obtain i where i: "i < length (br_rows (hd results))" "rw = br_rows r ! i"
      using \<open>rw \<in> _\<close> sh(1) by (auto simp: in_set_conv_nth)
    then show ?thesis using sh(3) [of i] mergeableD(7) [OF m, of "br_rows (hd results) ! i"] by (simp add: row_shape_def)
  qed
  show "length b \<le> length (pp_measuringPass plan) + 2" if "b \<in> set (br_contextPercentiles r)" for b
  proof -
    obtain i where i: "i < length (br_contextPercentiles (hd results))" "b = br_contextPercentiles r ! i"
      using \<open>b \<in> _\<close> sh(2) by (auto simp: in_set_conv_nth)
    then show ?thesis using sh(4) [of i] mergeableD(8) [OF m, of "br_contextPercentiles (hd results) ! i"] by simp
  qed
qed

text \<open>The row a merge publishes at one position, and the block.\<close>

definition merged_row :: "pass_plan \<Rightarrow> ('q, 'r) benchmark_result list \<Rightarrow> nat \<Rightarrow> 'q result_row" where
  "merged_row plan results row =
     (let measured = (\<lambda>column. br_rows (results ! (pp_measuringPass plan ! column)) ! row);
          rw = br_rows (hd results) ! row; labels = length (br_metricLabels (hd results))
      in rw\<lparr>rr_metrics := map (\<lambda>m. (rr_metrics (measured m) ! m)\<lparr>mv_pass := Some (pp_measuringPass plan ! m)\<rparr>) [0..<length (rr_metrics rw)],
            rr_counters := map (\<lambda>c. rr_counters (measured (labels + c)) ! c) [0..<length (rr_counters rw)],
            rr_percentiles := map (\<lambda>s. if s < 2 then rr_percentiles rw ! s else rr_percentiles (measured (s - 2)) ! s)
              [0..<length (rr_percentiles rw)]\<rparr>)"

definition merged_block :: "pass_plan \<Rightarrow> ('q, 'r) benchmark_result list \<Rightarrow> nat \<Rightarrow> percentile_value list list" where
  "merged_block plan results block =
     (let columns = br_contextPercentiles (hd results) ! block
      in map (\<lambda>s. if s < 2 then columns ! s
               else br_contextPercentiles (results ! (pp_measuringPass plan ! (s - 2))) ! block ! s) [0..<length columns])"

lemma measured_pass:
  assumes m: "mergeable plan results" and c: "column < length (pp_measuringPass plan)"
  shows "pp_measuringPass plan ! column < length results"
    and "result_shape (results ! (pp_measuringPass plan ! column)) = result_shape (hd results)"
  using mergeableD(3,4) [OF m] c by simp_all

lemma measured_row_total:
  assumes m: "mergeable plan results" and c: "column < length (pp_measuringPass plan)" and row: "row < length (br_rows (hd results))"
  defines "p \<equiv> pp_measuringPass plan ! column"
  shows "measured_row plan results row column = Some (p, br_rows (results ! p) ! row)"
    and "row_shape (br_rows (results ! p) ! row) = row_shape (br_rows (hd results) ! row)"
  using measured_pass [OF m c] same_shape_rows(1,3) [OF measured_pass(2) [OF m c]] c row
  by (simp_all add: measured_row_def p_def)

lemma merge_row_total:
  assumes m: "mergeable plan results" and row: "row < length (br_rows (hd results))"
  shows "merge_row plan results (length (br_metricLabels (hd results))) row (br_rows (hd results) ! row)
    = Some (merged_row plan results row)"
proof -
  let ?rw = "br_rows (hd results) ! row"
  let ?at = "\<lambda>column. br_rows (results ! (pp_measuringPass plan ! column)) ! row"
  have "?rw \<in> set (br_rows (hd results))" using row by simp
  note sizes = mergeableD(5-7) [OF m this]
  note col = measured_row_total [OF m _ row]
  have "for_each (length (rr_metrics ?rw)) (merge_metric plan results row)
      = Some (map (\<lambda>m. (rr_metrics (?at m) ! m)\<lparr>mv_pass := Some (pp_measuringPass plan ! m)\<rparr>) [0..<length (rr_metrics ?rw)])"
    using sizes(1) col by (intro for_each_Some) (simp add: merge_metric_def row_shape_def)
  moreover have "for_each (length (rr_counters ?rw)) (merge_counter plan results (length (br_metricLabels (hd results))) row)
      = Some (map (\<lambda>c. rr_counters (?at (length (br_metricLabels (hd results)) + c)) ! c) [0..<length (rr_counters ?rw)])"
    using sizes(2) col by (intro for_each_Some) (simp add: merge_counter_def row_shape_def)
  moreover have "for_each (length (rr_percentiles ?rw)) (merge_slot plan results row ?rw)
      = Some (map (\<lambda>s. if s < 2 then rr_percentiles ?rw ! s else rr_percentiles (?at (s - 2)) ! s) [0..<length (rr_percentiles ?rw)])"
    using sizes(3) col by (intro for_each_Some) (simp add: merge_slot_def row_shape_def)
  ultimately show ?thesis by (simp add: merge_row_def merged_row_def Let_def)
qed

lemma merge_block_total:
  assumes m: "mergeable plan results" and b: "block < length (br_contextPercentiles (hd results))"
  shows "merge_block plan results block (br_contextPercentiles (hd results) ! block) = Some (merged_block plan results block)"
proof -
  let ?b = "br_contextPercentiles (hd results) ! block"
  have len: "length ?b \<le> length (pp_measuringPass plan) + 2" using mergeableD(8) [OF m] b by simp
  have "Option.bind (elem_at (pp_measuringPass plan) (s - 2)) (\<lambda>p. Option.bind (elem_at results p)
        (\<lambda>r. Option.bind (elem_at (br_contextPercentiles r) block) (\<lambda>b. elem_at b s)))
      = Some (br_contextPercentiles (results ! (pp_measuringPass plan ! (s - 2))) ! block ! s)"
    if s: "s < length ?b" "\<not> s < 2" for s
  proof -
    have c: "s - 2 < length (pp_measuringPass plan)" using s len by simp
    show ?thesis
      using measured_pass(1) [OF m c] same_shape_rows(2,4) [OF measured_pass(2) [OF m c]] c b s by simp
  qed
  then show ?thesis unfolding merge_block_def merged_block_def Let_def by (intro for_each_Some) simp
qed

text \<open>C28. Passes whose results have one shape merge without a read out of bounds.  In the merged result every
  metric carries the value and the name of the pass that measured its column, every counter and every
  percentile past the two time slots those of its pass, and the times and the labels are those of the
  reference pass.\<close>

theorem merged_columns_come_from_their_pass:
  assumes m: "mergeable plan results"
  shows "\<exists>merged. mergePasses plan results = Some merged
    \<and> br_rows merged = map (merged_row plan results) [0..<length (br_rows (hd results))]
    \<and> br_contextPercentiles merged = map (merged_block plan results) [0..<length (br_contextPercentiles (hd results))]
    \<and> br_metricMethod merged = PASSES \<and> br_passCount merged = length results
    \<and> br_metricLabels merged = br_metricLabels (hd results) \<and> br_copied merged = br_copied (hd results)
    \<and> (br_rows merged \<noteq> [] \<longrightarrow> passSpread (map (\<lambda>r. if br_primaryIsCpu (hd results)
          then rr_cpuTimePerIterationNs (hd (br_rows r)) else rr_timePerIterationNs (hd (br_rows r))) results)
          = Some (br_passSpread merged))"
proof -
  let ?rows = "map (merged_row plan results) [0..<length (br_rows (hd results))]"
  let ?blocks = "map (merged_block plan results) [0..<length (br_contextPercentiles (hd results))]"
  let ?m1 = "(hd results)\<lparr>br_rows := ?rows, br_contextPercentiles := ?blocks, br_metricMethod := PASSES, br_passCount := length results\<rparr>"
  let ?t = "\<lambda>r. if br_primaryIsCpu (hd results) then rr_cpuTimePerIterationNs (hd (br_rows r)) else rr_timePerIterationNs (hd (br_rows r))"
  have spread: "\<exists>s. merged_spread results ?m1 = Some s \<and> (br_rows (hd results) \<noteq> [] \<longrightarrow> passSpread (map ?t results) = Some s)"
  proof (cases "br_rows (hd results) = []")
    case True
    then show ?thesis by (simp add: merged_spread_def)
  next
    case False
    have rows: "br_rows (results ! p) \<noteq> []" if "p < length results" for p
    proof -
      have "result_shape (results ! p) = result_shape (hd results)" using mergeableD(4) [OF m] that by simp
      from same_shape_rows(1) [OF this] False show ?thesis by (metis length_0_conv)
    qed
    have "for_each (length results) (\<lambda>p. map_option
          (\<lambda>rw. if br_primaryIsCpu ?m1 then rr_cpuTimePerIterationNs rw else rr_timePerIterationNs rw) (elem_at (br_rows (results ! p)) 0))
        = Some (map (\<lambda>p. ?t (results ! p)) [0..<length results])"
      by (rule for_each_Some) (use rows in \<open>simp add: hd_conv_nth\<close>)
    moreover have "map (\<lambda>p. ?t (results ! p)) [0..<length results] = map ?t results" by (rule nth_equalityI) simp_all
    ultimately have times: "for_each (length results) (\<lambda>p. map_option
          (\<lambda>rw. if br_primaryIsCpu ?m1 then rr_cpuTimePerIterationNs rw else rr_timePerIterationNs rw) (elem_at (br_rows (results ! p)) 0))
        = Some (map ?t results)" by simp
    have "?t r \<noteq> NaN" if r: "r \<in> set results" for r
    proof -
      obtain p where "p < length results" "r = results ! p" using r by (metis in_set_conv_nth)
      then have "hd (br_rows r) \<in> set (br_rows r)" using rows by simp
      then show ?thesis using mergeableD(9) [OF m r] by simp
    qed
    note ordered = this
    have "NaN \<notin> set (map ?t results)"
    proof
      assume "NaN \<in> set (map ?t results)"
      then have "NaN \<in> ?t ` set results" by (simp only: set_map)
      then obtain r where r: "NaN = ?t r" "r \<in> set results" by (rule imageE)
      show False by (rule notE [OF ordered [OF r(2)] r(1) [symmetric]])
    qed
    from passSpread_total [OF this] obtain s where "passSpread (map ?t results) = Some s" ..
    with times show ?thesis using False by (simp add: merged_spread_def)
  qed
  then obtain s where s: "merged_spread results ?m1 = Some s" "br_rows (hd results) \<noteq> [] \<longrightarrow> passSpread (map ?t results) = Some s"
    by blast
  have rows: "for_each (length (br_rows (hd results))) (\<lambda>row. merge_row plan results (length (br_metricLabels (hd results))) row (br_rows (hd results) ! row))
      = Some ?rows"
    by (rule for_each_Some) (rule merge_row_total [OF m])
  have blocks: "for_each (length (br_contextPercentiles (hd results))) (\<lambda>block. merge_block plan results block (br_contextPercentiles (hd results) ! block))
      = Some ?blocks"
    by (rule for_each_Some) (rule merge_block_total [OF m])
  have req: "\<not> (results = [] \<or> length (pp_columns plan) \<noteq> length results
         \<or> \<not> list_all (\<lambda>p. p < length results) (pp_measuringPass plan)
         \<or> \<not> widestGrid results \<le> length (pp_measuringPass plan) + 2)"
    using mergeableD(1-3) [OF m] mergeable_widest [OF m] by (simp add: list_all_iff)
  have "mergePasses plan results = Some (?m1\<lparr>br_passSpread := s\<rparr>)"
    unfolding mergePasses_def Let_def using req rows blocks s(1) by simp
  then show ?thesis using s(2) by auto
qed

definition demo_metric :: "binary64 \<Rightarrow> metric_value" where
  "demo_metric v = \<lparr>mv_value = v, mv_runningRatio = one64, mv_scaled = False, mv_availability = COUNTABLE, mv_pass = None\<rparr>"

definition demo_pass :: "binary64 \<Rightarrow> (unit, unit) benchmark_result" where
  "demo_pass v = \<lparr>br_rows = [\<lparr>rr_timePerIterationNs = v, rr_cpuTimePerIterationNs = v,
       rr_metrics = [demo_metric v, demo_metric v], rr_counters = [v], rr_percentiles = [], rr_copied = ()\<rparr>],
     br_metricLabels = [''m'', ''n''], br_metricMethod = AUTO, br_passCount = 0, br_passSpread = None,
     br_primaryIsCpu = True, br_contextPercentiles = [], br_copied = ()\<rparr>"

definition demo_two_passes :: pass_plan where
  "demo_two_passes = \<lparr>pp_columns = [[0], [1, 2]], pp_exclusive = [False, False], pp_measuringPass = [0, 1, 1]\<rparr>"

theorem merged_columns_come_from_their_pass_witness:
  "\<exists>merged. mergePasses demo_two_passes [demo_pass one64, demo_pass zero64] = Some merged
    \<and> map mv_value (rr_metrics (hd (br_rows merged))) = [one64, zero64]
    \<and> map mv_pass (rr_metrics (hd (br_rows merged))) = [Some 0, Some 1]
    \<and> rr_counters (hd (br_rows merged)) = [zero64]"
proof -
  have "mergeable demo_two_passes [demo_pass one64, demo_pass zero64]"
    by (simp add: mergeable_def demo_two_passes_def demo_pass_def result_shape_def row_shape_def one64_value zero64_def)
  from merged_columns_come_from_their_pass [OF this] show ?thesis
    by (auto simp: demo_pass_def demo_two_passes_def merged_row_def demo_metric_def)
qed

end
