(* ===== verification/Statistics.thy ===== *)
theory Statistics
  imports Fold Passes
begin

text \<open>
  The summaries of a run: \<open>src/source/harness/statistics.cpp\<close> (the statistics of a list of values, the rank
  correlation and the least-squares slope of a list of points) and \<open>src/source/harness/percentiles.cpp\<close> (chunk
  values, nearest-rank percentiles).  All arithmetic is that of \<open>double\<close>, in the order of the code.
\<close>

subsection \<open>The statistics of a list\<close>

record statistics =
  st_samples :: nat
  st_mean :: binary64
  st_median :: binary64
  st_sampleStdDev :: binary64
  st_coefficientOfVariation :: binary64
  st_min :: binary64
  st_max :: binary64

definition two64 :: binary64 where "two64 = of_nat64 2"

definition median_of :: "binary64 list \<Rightarrow> binary64" where
  "median_of v =
     (let n = length v
      in if n mod 2 = 1 then v ! (n div 2) else ddiv (dadd (v ! (n div 2 - 1)) (v ! (n div 2))) two64)"

definition sum_of :: "binary64 list \<Rightarrow> binary64" where
  "sum_of v = foldl dadd zero64 v"

definition squared_of :: "binary64 \<Rightarrow> binary64 list \<Rightarrow> binary64" where
  "squared_of m v = foldl (\<lambda>s x. dadd s (dmul (dsub x m) (dsub x m))) zero64 v"

definition summary_of :: "binary64 list \<Rightarrow> statistics" where
  "summary_of v =
     (let n = length v;
          mean = ddiv (sum_of v) (of_nat64 n);
          dev = dsqrt (ddiv (squared_of mean v) (of_nat64 (n - 1)))
      in \<lparr>st_samples = n, st_mean = mean, st_median = median_of v, st_sampleStdDev = dev,
          st_coefficientOfVariation = (if \<not> dzero mean then ddiv dev mean else zero64),
          st_min = hd v, st_max = last v\<rparr>)"

definition statisticsOf :: "binary64 list \<Rightarrow> statistics checked" where
  "statisticsOf values =
     (if length values \<le> 1 then None else map_option summary_of (sort_doubles values))"

subsection \<open>Ranks, correlation and slope\<close>

text \<open>
  \<open>rankInPlace\<close>: the positions in ascending order of one coordinate, cut into groups of equal values; every
  member of a group gets the average of the ranks the group spans.
\<close>

fun tie_end :: "binary64 list \<Rightarrow> binary64 \<Rightarrow> nat list \<Rightarrow> nat" where
  "tie_end xs v [] = 0"
| "tie_end xs v (i # is) = (if \<not> dless (xs ! i) v \<and> \<not> dless v (xs ! i) then Suc (tie_end xs v is) else 0)"

definition average_rank :: "nat \<Rightarrow> nat \<Rightarrow> binary64" where
  "average_rank start members = dadd (of_nat64 start) (ddiv (dadd (of_nat64 members) one64) two64)"

function assign_ranks :: "binary64 list \<Rightarrow> nat \<Rightarrow> nat list \<Rightarrow> binary64 list \<Rightarrow> binary64 list" where
  "assign_ranks xs start [] ranks = ranks"
| "assign_ranks xs start (i # is) ranks =
     (let members = Suc (tie_end xs (xs ! i) is);
          average = average_rank start members
      in assign_ranks xs (start + members) (drop members (i # is))
           (foldl (\<lambda>r j. r[j := average]) ranks (take members (i # is))))"
  by pat_completeness auto
termination by (relation "measure (\<lambda>(xs, s, is, r). length is)") auto

definition rankInPlace :: "binary64 list \<Rightarrow> binary64 list checked" where
  "rankInPlace xs =
     (if NaN \<in> set xs then None
      else Some (assign_ranks xs 0 (sort_by (\<lambda>i j. dless (xs ! i) (xs ! j)) [0..<length xs]) xs))"

definition spearmanCorrelation :: "(binary64 \<times> binary64) list \<Rightarrow> binary64 option checked" where
  "spearmanCorrelation points =
     (if length points < 3 then Some None
      else
        case (rankInPlace (map fst points), rankInPlace (map snd points)) of
          (Some firsts, Some seconds) \<Rightarrow>
            let meanRank = ddiv (dadd (of_nat64 (length points)) one64) two64;
                deviations = zip (map (\<lambda>r. dsub r meanRank) firsts) (map (\<lambda>r. dsub r meanRank) seconds);
                covariance = foldl (\<lambda>s (a, b). dadd s (dmul a b)) zero64 deviations;
                firstSpread = foldl (\<lambda>s (a, b). dadd s (dmul a a)) zero64 deviations;
                secondSpread = foldl (\<lambda>s (a, b). dadd s (dmul b b)) zero64 deviations
            in if dless firstSpread zero64 \<or> firstSpread = NaN \<or> dless secondSpread zero64 \<or> secondSpread = NaN then None
               else if dzero firstSpread \<or> dzero secondSpread then Some None
               else Some (Some (ddiv covariance (dsqrt (dmul firstSpread secondSpread))))
        | _ \<Rightarrow> None)"

record least_squares_sums =
  ls_cross :: binary64
  ls_square :: binary64
  ls_xSum :: binary64
  ls_ySum :: binary64

definition leastSquaresSums :: "(binary64 \<times> binary64) list \<Rightarrow> least_squares_sums checked" where
  "leastSquaresSums points =
     (let total = foldl (\<lambda>s (x, y). \<lparr>ls_cross = dadd (ls_cross s) (dmul x y), ls_square = dadd (ls_square s) (dmul x x),
              ls_xSum = dadd (ls_xSum s) x, ls_ySum = dadd (ls_ySum s) y\<rparr>)
            \<lparr>ls_cross = zero64, ls_square = zero64, ls_xSum = zero64, ls_ySum = zero64\<rparr> points
      in if dless (ls_square total) zero64 \<or> ls_square total = NaN then None else Some total)"

definition leastSquaresSlope :: "(binary64 \<times> binary64) list \<Rightarrow> binary64 option checked" where
  "leastSquaresSlope points =
     (if length points < 2 then Some None
      else
        map_option (\<lambda>total.
          let count = of_nat64 (length points);
              denominator = dsub (dmul count (ls_square total)) (dmul (ls_xSum total) (ls_xSum total))
          in if dzero denominator then None
             else Some (ddiv (dsub (dmul count (ls_cross total)) (dmul (ls_xSum total) (ls_ySum total))) denominator))
          (leastSquaresSums points))"

subsection \<open>Percentiles\<close>

definition kDefaultPoints :: "binary64 list" where
  "kDefaultPoints = [of_nat64 50, of_nat64 90, of_nat64 99, round64 False 999 10]"

text \<open>The nudged ceiling; \<open>1e-9\<close> is the double next to it.\<close>

definition nano64 :: binary64 where "nano64 = round64 False 1 (10 ^ 9)"

definition ceilNudged :: "binary64 \<Rightarrow> nat checked" where
  "ceilNudged raw = ceil_u64 (dsub raw (dmul nano64 raw))"

definition minSamplesFor :: "binary64 \<Rightarrow> nat checked" where
  "minSamplesFor p = map_option (\<lambda>needed. if needed < 2 then 2 else needed) (ceilNudged (ddiv hundred64 (dsub hundred64 p)))"

definition no_percentile :: percentile_value where
  "no_percentile = \<lparr>pv_available = False, pv_value = zero64\<rparr>"

text \<open>The index is unsigned: rank zero reads at \<open>2 ^ 64 - 1\<close>, outside every vector.\<close>

definition percentileAt :: "binary64 list \<Rightarrow> binary64 \<Rightarrow> percentile_value checked" where
  "percentileAt sortedValues p =
     (if \<not> (dless zero64 p \<and> dless p hundred64) then None
      else
        case minSamplesFor p of
          None \<Rightarrow> None
        | Some least \<Rightarrow>
            if length sortedValues < least then Some no_percentile
            else
              (case ceilNudged (ddiv (dmul p (of_nat64 (length sortedValues))) hundred64) of
                 None \<Rightarrow> None
               | Some rank \<Rightarrow>
                   if rank = 0 then None
                   else map_option (\<lambda>v. \<lparr>pv_available = True, pv_value = v\<rparr>) (elem_at sortedValues (rank - 1))))"

fun unique_values :: "binary64 list \<Rightarrow> binary64 list" where
  "unique_values [] = []"
| "unique_values (x # xs) =
     (case unique_values xs of
        [] \<Rightarrow> [x]
      | y # ys \<Rightarrow> if \<not> dless x y \<and> \<not> dless y x then x # ys else x # y # ys)"

definition normalizePercentilePoints :: "binary64 list \<Rightarrow> binary64 list checked" where
  "normalizePercentilePoints points =
     (if points = [] then Some kDefaultPoints else map_option unique_values (sort_doubles points))"

definition percentile_column :: "binary64 list \<Rightarrow> bool \<Rightarrow> binary64 list \<Rightarrow> percentile_value list checked" where
  "percentile_column values answers points =
     Option.bind (sort_doubles values) (\<lambda>ordered.
       for_each (length points) (\<lambda>i. if answers then percentileAt ordered (points ! i) else Some no_percentile))"

definition buildPercentileColumns ::
  "binary64 list list \<Rightarrow> binary64 list \<Rightarrow> bool list \<Rightarrow> percentile_value list list checked" where
  "buildPercentileColumns chunkValues points countable =
     for_each (length chunkValues) (\<lambda>column.
       Option.bind (elem_at countable column) (\<lambda>answers. percentile_column (chunkValues ! column) answers points))"

subsection \<open>Chunk values\<close>

text \<open>
  The ordinals of the span outside the pause pairs are the chunk boundaries.  A pause counts into the chunk its
  first point lies in, and its fold is taken off that chunk.
\<close>

definition chunk_boundaries :: "nat \<Rightarrow> nat \<Rightarrow> (nat \<times> nat) list \<Rightarrow> nat list" where
  "chunk_boundaries basePoint chunkCount pauses =
     filter (\<lambda>o'. \<not> list_ex (\<lambda>(a, b). o' = basePoint + a \<or> o' = basePoint + b) pauses)
       [basePoint..<basePoint + chunkCount + 1 + 2 * length pauses]"

fun take_pauses ::
  "'r plan \<Rightarrow> expr_core \<Rightarrow> recorder_api \<Rightarrow> nat \<Rightarrow> nat \<Rightarrow> nat \<Rightarrow> (nat \<times> nat) list \<Rightarrow> binary64 \<Rightarrow> binary64 checked" where
  "take_pauses pl c rec basePoint from until [] value' = Some value'"
| "take_pauses pl c rec basePoint from until ((a, b) # pauses) value' =
     (if basePoint + a < from \<or> until \<le> basePoint + a then take_pauses pl c rec basePoint from until pauses value'
      else
        case foldCore pl c rec (basePoint + a) (basePoint + b) of
          None \<Rightarrow> None
        | Some paused \<Rightarrow> take_pauses pl c rec basePoint from until pauses (dsub value' (fold_value paused)))"

definition buildChunkValues ::
  "'r plan \<Rightarrow> expr_core \<Rightarrow> recorder_api \<Rightarrow> nat \<Rightarrow> nat \<Rightarrow> (nat \<times> nat) list \<Rightarrow> binary64 list checked" where
  "buildChunkValues pl c rec basePoint chunkCount pauses =
     (if \<not> basePoint + chunkCount + 1 + 2 * length pauses \<le> ra_count rec then None
      else
        let boundaries = chunk_boundaries basePoint chunkCount pauses
        in if length boundaries \<noteq> chunkCount + 1 then None
           else for_each chunkCount (\<lambda>chunk.
             Option.bind (foldCore pl c rec (boundaries ! chunk) (boundaries ! (chunk + 1))) (\<lambda>window.
               take_pauses pl c rec basePoint (boundaries ! chunk) (boundaries ! (chunk + 1)) pauses (fold_value window))))"

subsection \<open>A percentile reads inside its column\<close>

lemma zero64_value: "is_finite zero64" "well_formed64 zero64" "dvalue zero64 = 0"
  by (simp_all add: zero64_def signed_sig_def canonical_def sig_top_def min_exp_def max_exp_def)

lemma hundred64_value: "is_finite hundred64" "well_formed64 hundred64" "dvalue hundred64 = 100"
  using of_nat64_exact [of 100] by (simp_all add: hundred64_def)

lemma nano64_value: "is_finite nano64" "well_formed64 nano64" "0 \<le> dvalue nano64" "dvalue nano64 \<le> 1 / 2"
proof -
  have r: "rounds (1 / 10 ^ 9) nano64" using rounds_round64 [of "10 ^ 9" False 1] by (simp add: nano64_def)
  have up: "1 / 10 ^ 9 \<le> dvalue (power64 (- 1))" by (subst power64(3)) (simp_all add: power_int_minus)
  have low: "dvalue zero64 \<le> 1 / 10 ^ 9" by (simp add: zero64_value)
  note b = rounds_between [OF r zero64_value(1,2) power64(1,2) low up]
  show "is_finite nano64" "0 \<le> dvalue nano64" "dvalue nano64 \<le> 1 / 2"
    using b power64(3) [of "- 1"] by (simp_all add: zero64_value power_int_minus)
qed (simp add: nano64_def wf_round)

lemma nano64_near: "99 / 10 ^ 11 \<le> dvalue nano64" "dvalue nano64 \<le> 101 / 10 ^ 11"
proof -
  have r: "rounds (1 / 10 ^ 9) nano64" using rounds_round64 [of "10 ^ 9" False 1] by (simp add: nano64_def)
  have "(2::real) powi (- 1000) \<le> 2 powi (- 30)" "(2::real) powi 0 \<le> 2 powi 1000" by (simp_all only: powi_le_iff)
  then have "2 powi (- 1000) \<le> (1 / 10 ^ 9 :: real)" "(1 / 10 ^ 9 :: real) \<le> 2 powi 1000"
    by (simp_all add: power_int_minus)
  from rounds_near [OF r this] show "99 / 10 ^ 11 \<le> dvalue nano64" "dvalue nano64 \<le> 101 / 10 ^ 11" by simp_all
qed

text \<open>The nudge takes at most half of its argument, so it keeps the ceiling at or under every bound.\<close>

lemma ceilNudged_bounds:
  assumes raw: "is_finite raw" "well_formed64 raw" and low: "0 \<le> dvalue raw" and up: "dvalue raw < 2 ^ 63"
  obtains k where "ceilNudged raw = Some k" and "\<forall>n. dvalue raw \<le> real n \<longrightarrow> k \<le> n"
    and "2 powi (- 900) \<le> dvalue raw \<longrightarrow> 1 \<le> k
      \<and> real k < dvalue raw * (1 - 9 / 10 ^ 10) + 1 \<and> dvalue raw * (1 - 15 / 10 ^ 10) \<le> real k"
proof -
  have q: "0 \<le> dvalue nano64 * dvalue raw" "dvalue nano64 * dvalue raw \<le> dvalue raw / 2"
    using mult_right_mono [OF nano64_value(4) low] nano64_value(3) low by simp_all
  note nudge = rounds_dmul [OF nano64_value(1) raw(1)]
  have y: "is_finite (dmul nano64 raw)" "0 \<le> dvalue (dmul nano64 raw)" "dvalue (dmul nano64 raw) \<le> dvalue raw"
    using rounds_between [OF nudge zero64_value(1,2) raw] q low by (simp_all add: zero64_value)
  let ?z = "dsub raw (dmul nano64 raw)"
  note diff = rounds_dsub [OF raw(1) y(1)]
  have z: "is_finite ?z" "0 \<le> dvalue ?z" "dvalue ?z \<le> dvalue raw"
    using rounds_between [OF diff zero64_value(1,2) raw] y by (simp_all add: zero64_value)
  have "0 \<le> \<lceil>dvalue ?z\<rceil>" "\<lceil>dvalue ?z\<rceil> \<le> 2 ^ 63" using z up by (simp_all add: ceiling_le_iff)
  then have c: "ceilNudged raw = Some (nat \<lceil>dvalue ?z\<rceil>)"
    unfolding ceilNudged_def ceil_u64_value [OF z(1)] by simp
  have "nat \<lceil>dvalue ?z\<rceil> \<le> n" if "dvalue raw \<le> real n" for n
    using z(3) that by (simp add: nat_le_iff ceiling_le_iff)
  moreover have "1 \<le> nat \<lceil>dvalue ?z\<rceil> \<and> real (nat \<lceil>dvalue ?z\<rceil>) < dvalue raw * (1 - 9 / 10 ^ 10) + 1
      \<and> dvalue raw * (1 - 15 / 10 ^ 10) \<le> real (nat \<lceil>dvalue ?z\<rceil>)"
    if big: "2 powi (- 900) \<le> dvalue raw"
  proof -
    let ?r = "dvalue raw" and ?y = "dvalue (dmul nano64 raw)"
    define w where "w = dvalue nano64 * ?r"
    have pos: "0 < ?r" using big powi_pos [of "- 900"] by linarith
    have n: "99 / 10 ^ 11 * ?r \<le> dvalue nano64 * ?r" "dvalue nano64 * ?r \<le> 101 / 10 ^ 11 * ?r"
      using nano64_near low by (intro mult_right_mono; simp)+
    have "(2::real) powi (- 1000) = 2 powi (- 100) * 2 powi (- 900)" by (simp flip: power_int_add)
    also have "\<dots> \<le> 99 / 10 ^ 11 * ?r" using big pos by (intro mult_mono) (simp_all add: power_int_minus)
    also have "\<dots> \<le> dvalue nano64 * ?r" by (rule n)
    finally have "2 powi (- 1000) \<le> dvalue nano64 * ?r" .
    moreover have top: "?r \<le> 2 powi 1000" using up powi_le_iff [of 63 1000] by simp
    ultimately have y2: "?y \<le> dvalue nano64 * ?r * (1 + 1 / 2 ^ 52)" "dvalue nano64 * ?r * (1 - 1 / 2 ^ 52) \<le> ?y"
      using rounds_near [OF nudge] q low by simp_all
    have y3: "?y \<le> 1015 / 10 ^ 12 * ?r" "98 / 10 ^ 11 * ?r \<le> ?y" 
      using y2 n pos unfolding w_def [symmetric] by (simp_all add: algebra_simps)
    have "(2::real) powi (- 1000) \<le> 2 powi (- 901)" by (simp only: powi_le_iff)
    also have "(2::real) powi (- 901) = 2 powi (- 900) / 2" using power_int_diff [of "2::real" "- 900" 1] by simp
    finally have half: "(2::real) powi (- 1000) \<le> 2 powi (- 900) / 2" .
    have "?y \<le> ?r / 2" using y3 pos by simp
    then have "2 powi (- 1000) \<le> ?r - ?y" using half big by linarith
    moreover have "?r - ?y \<le> 2 powi 1000" using top y(2) by linarith
    ultimately have z2: "dvalue ?z \<le> (?r - ?y) * (1 + 1 / 2 ^ 52)" "(?r - ?y) * (1 - 1 / 2 ^ 52) \<le> dvalue ?z"
      using rounds_near [OF diff] by simp_all
    have "dvalue ?z \<le> ?r * (1 - 9 / 10 ^ 10)" "?r * (1 - 15 / 10 ^ 10) \<le> dvalue ?z"
      using z2 y3 pos by (simp_all add: algebra_simps)
    moreover from this(2) have "0 < dvalue ?z" using pos by simp
    moreover from this have "real (nat \<lceil>dvalue ?z\<rceil>) = of_int \<lceil>dvalue ?z\<rceil>" "1 \<le> nat \<lceil>dvalue ?z\<rceil>" by linarith+
    ultimately show ?thesis using ceiling_correct [of "dvalue ?z"] by linarith
  qed
  ultimately show ?thesis using that [OF c] by blast
qed

lemma below_hundred:
  assumes "is_finite p" "well_formed64 p" and "dvalue p < 100"
  shows "2 powi (- 46) \<le> 100 - dvalue p"
proof (cases "dvalue p \<le> 64")
  case True
  have "2 powi (- 46) \<le> (2::real) powi 0" by (intro power_int_increasing) simp_all
  then show ?thesis using True by simp
next
  case False
  obtain s m e where p: "p = Finite s m e" using assms(1) by (cases p) auto
  have s: "\<not> s" using False by (cases s) (auto simp: p dvalue_sign simp del: dvalue.simps intro: order_trans [of _ 0])
  have "- 46 \<le> e"
  proof (rule ccontr)
    assume "\<not> - 46 \<le> e"
    then have "e \<le> - 47" by simp
    have "real m * 2 powi e \<le> (2 ^ 53 - 1) * 2 powi e" using assms(2) unfolding p by (intro canonical_upper [of s]) simp
    also have "\<dots> \<le> 2 ^ 53 * 2 powi (- 47)" using \<open>e \<le> - 47\<close> by (intro mult_mono power_int_increasing) simp_all
    also have "\<dots> = 64" by (simp add: power_int_minus)
    finally show False using False s by (simp add: p dvalue_sign del: dvalue.simps)
  qed
  then have v: "dvalue p = real (m * 2 ^ nat (e + 46)) * 2 powi (- 46)"
    using rescale_real [of "- 46" e m] s by (simp add: p dvalue_sign del: dvalue.simps)
  have "real (m * 2 ^ nat (e + 46)) < real (100 * 2 ^ 46)"
    using assms(3) unfolding v by (simp add: power_int_minus divide_simps)
  then have "m * 2 ^ nat (e + 46) + 1 \<le> 100 * 2 ^ 46" by (simp only: of_nat_less_iff)
  then have "real (m * 2 ^ nat (e + 46) + 1) \<le> real (100 * 2 ^ 46)" by (simp only: of_nat_le_iff)
  then show ?thesis unfolding v by (simp add: power_int_minus divide_simps)
qed

lemma minSamplesFor_answers:
  assumes p: "is_finite p" "well_formed64 p" and "0 < dvalue p" and "dvalue p < 100"
  obtains least where "minSamplesFor p = Some least" and "2 \<le> least"
proof -
  let ?d = "dsub hundred64 p"
  have d: "rounds (100 - dvalue p) ?d" using rounds_dsub [OF hundred64_value(1) p(1)] by (simp add: hundred64_value)
  have low: "dvalue (power64 (- 46)) \<le> 100 - dvalue p" using below_hundred [OF p assms(4)] by (simp add: power64)
  have up: "100 - dvalue p \<le> dvalue hundred64" using assms(3) by (simp add: hundred64_value)
  have db: "is_finite ?d" "2 powi (- 46) \<le> dvalue ?d" "dvalue ?d \<le> 100"
    using rounds_between [OF d power64(1,2) hundred64_value(1,2) low up] power64(3) [of "- 46"] by (simp_all add: hundred64_value)
  have pos: "0 < dvalue ?d" using db(2) powi_pos [of "- 46"] by linarith
  have nz: "\<not> dzero ?d" using pos db(1) by (simp add: dzero_value)
  let ?q = "ddiv hundred64 ?d"
  have q: "rounds (100 / dvalue ?d) ?q" using rounds_ddiv [OF hundred64_value(1) db(1) nz] by (simp add: hundred64_value)
  have small: "(100 * 2 ^ 46 :: nat) < 2 ^ 53" by simp
  note top = of_nat64_exact [OF small]
  have "100 / dvalue ?d \<le> 100 / 2 powi (- 46)" using db(2) pos by (intro divide_left_mono) simp_all
  then have "100 / dvalue ?d \<le> dvalue (of_nat64 (100 * 2 ^ 46))" unfolding top(2) by (simp add: power_int_minus)
  then have qb: "is_finite ?q" "0 \<le> dvalue ?q" "dvalue ?q \<le> 100 * 2 ^ 46"
    using rounds_between [OF q zero64_value(1,2) top(1,3)] pos top(2) by (simp_all add: zero64_value)
  have "well_formed64 ?q" using hundred64_value p by (intro wf_ops)
  then obtain k where "ceilNudged ?q = Some k" using ceilNudged_bounds [OF qb(1) _ qb(2)] qb(3) by auto
  then show ?thesis using that by (auto simp: minSamplesFor_def split: if_split_asm)
qed

lemma percentile_rank:
  assumes p: "is_finite p" "well_formed64 p" and low: "2 powi (- 800) \<le> dvalue p" and up: "dvalue p < 100"
    and n: "0 < n" "n < 2 ^ 46"
  obtains rank where "ceilNudged (ddiv (dmul p (of_nat64 n)) hundred64) = Some rank" and "1 \<le> rank" and "rank \<le> n"
    and "real rank < dvalue p * real n / 100 + 1" and "dvalue p * real n / 100 * (1 - 2 / 10 ^ 9) \<le> real rank"
proof -
  have pos: "0 < dvalue p" using low powi_pos [of "- 800"] by linarith
  have small: "n < 2 ^ 53" "100 * n < 2 ^ 53" using n by simp_all
  note vn = of_nat64_exact [OF small(1)] and vt = of_nat64_exact [OF small(2)]
  let ?x = "dmul p (of_nat64 n)" and ?t = "dvalue p * real n"
  have x: "rounds ?t ?x" using rounds_dmul [OF p(1) vn(1)] by (simp add: vn)
  have "2 powi (- 800) * 1 \<le> ?t" using low n by (intro mult_mono) simp_all
  then have tl: "2 powi (- 800) \<le> ?t" by simp
  have tu: "?t \<le> 100 * real n" using mult_right_mono [of "dvalue p" 100 "real n"] up by simp
  have n63: "real n < 2 ^ 46" using n(2) of_nat_less_iff [of n "2 ^ 46", where 'a = real] by simp
  have big: "2 ^ 53 \<le> (2::real) powi 1000" using powi_le_iff [of 53 1000] by simp
  have tiny: "(2::real) powi (- 1000) \<le> 2 powi (- 900)" "(2::real) powi (- 900) \<le> 2 powi (- 810)"
    "(2::real) powi (- 810) \<le> 2 powi (- 800)"
    by (simp_all only: powi_le_iff)
  have lim: "(2::real) powi (- 1000) \<le> 2 powi (- 800)" "(2::real) powi (- 1000) \<le> 2 powi (- 810)" using tiny by linarith+
  have top: "100 * real n \<le> 2 powi 1000" "100 * real n / 100 \<le> 2 powi 1000" using n63 big by simp_all
  have xl: "dvalue (power64 (- 800)) \<le> ?t" using tl by (simp add: power64)
  have xu: "?t \<le> dvalue (of_nat64 (100 * n))" using tu by (simp add: vt)
  have xb: "is_finite ?x" "2 powi (- 800) \<le> dvalue ?x" "dvalue ?x \<le> 100 * real n"
    using rounds_between [OF x power64(1,2) vt(1,3) xl xu] power64(3) [of "- 800"] by (simp_all add: vt)
  have xn: "?t * (1 - 1 / 2 ^ 52) \<le> dvalue ?x" "dvalue ?x \<le> ?t * (1 + 1 / 2 ^ 52)"
    by (rule rounds_near(2,3) [OF x order_trans [OF lim(1) tl] order_trans [OF tu top(1)]])+
  let ?y = "ddiv ?x hundred64"
  have "\<not> dzero hundred64" by (simp add: dzero_value hundred64_value)
  then have y: "rounds (dvalue ?x / 100) ?y" using rounds_ddiv [OF xb(1) hundred64_value(1)] by (simp add: hundred64_value)
  have "(2::real) powi (- 810) = 2 powi (- 800) / 1024" using power_int_diff [of "2::real" "- 800" 10] by simp
  also have "\<dots> \<le> dvalue ?x / 100" using xb(2) by (intro frac_le) simp_all
  finally have q: "2 powi (- 810) \<le> dvalue ?x / 100" .
  then have yl: "dvalue (power64 (- 810)) \<le> dvalue ?x / 100" by (simp add: power64)
  have yu: "dvalue ?x / 100 \<le> dvalue (of_nat64 n)" using xb(3) by (simp add: vn)
  have yb: "is_finite ?y" "2 powi (- 810) \<le> dvalue ?y" "dvalue ?y \<le> real n"
    using rounds_between [OF y power64(1,2) vn(1,3) yl yu] power64(3) [of "- 810"] by (simp_all add: vn)
  have yn: "dvalue ?x / 100 * (1 - 1 / 2 ^ 52) \<le> dvalue ?y" "dvalue ?y \<le> dvalue ?x / 100 * (1 + 1 / 2 ^ 52)"
    by (rule rounds_near(2,3) [OF y order_trans [OF lim(2) q] order_trans [OF divide_right_mono [OF xb(3)] top(2)]], simp?)+
  have yw: "well_formed64 ?y" using hundred64_value p vn by (intro wf_ops)
  have y0: "0 \<le> dvalue ?y" using yb(2) powi_pos [of "- 810"] by linarith
  have y63: "dvalue ?y < 2 ^ 63" using yb(3) n63 by simp
  obtain k where k: "ceilNudged ?y = Some k" "\<forall>m. dvalue ?y \<le> real m \<longrightarrow> k \<le> m"
    "2 powi (- 900) \<le> dvalue ?y \<longrightarrow> 1 \<le> k
      \<and> real k < dvalue ?y * (1 - 9 / 10 ^ 10) + 1 \<and> dvalue ?y * (1 - 15 / 10 ^ 10) \<le> real k"
    by (rule ceilNudged_bounds [OF yb(1) yw y0 y63])
  have "2 powi (- 900) \<le> dvalue ?y" using yb(2) tiny by linarith
  with k(3) have k1: "1 \<le> k" "real k < dvalue ?y * (1 - 9 / 10 ^ 10) + 1" "dvalue ?y * (1 - 15 / 10 ^ 10) \<le> real k" by simp_all
  have t0: "0 < ?t" using pos n by simp
  have "real k < ?t / 100 + 1" "?t / 100 * (1 - 2 / 10 ^ 9) \<le> real k" using k1(2,3) xn yn t0 by (simp_all add: algebra_simps)
  then show ?thesis using that [OF k(1) k1(1) k(2) [rule_format, OF yb(3)]] by blast
qed

text \<open>
  A percentile of a point \<open>p\<close> between \<open>2 ^ -800\<close> and 100 over a column of \<open>n < 2 ^ 46\<close> values is unavailable
  on a column shorter than the least count of the point, which is at least two, and otherwise is the value of the
  column at its nearest rank: a rank between one and \<open>n\<close>, so the unsigned step below it stays inside the column,
  under \<open>p n / 100 + 1\<close>, and at most two parts in a billion of \<open>p n / 100\<close> short of it.
\<close>

theorem percentile_reads_its_rank:
  assumes "is_finite p" "well_formed64 p" and "2 powi (- 800) \<le> dvalue p" and "dvalue p < 100"
    and "length column < 2 ^ 46"
  shows "\<exists>least. minSamplesFor p = Some least \<and> 2 \<le> least
    \<and> (if length column < least then percentileAt column p = Some no_percentile
       else \<exists>rank. 1 \<le> rank \<and> rank \<le> length column
         \<and> real rank < dvalue p * real (length column) / 100 + 1
         \<and> dvalue p * real (length column) / 100 * (1 - 2 / 10 ^ 9) \<le> real rank
         \<and> percentileAt column p = Some \<lparr>pv_available = True, pv_value = column ! (rank - 1)\<rparr>)"
proof -
  have pos: "0 < dvalue p" using assms(3) powi_pos [of "- 800"] by linarith
  have range: "dless zero64 p" "dless p hundred64"
    using pos assms(1,4) by (simp_all add: dless_value zero64_value hundred64_value del: dless_finite)
  obtain least where l: "minSamplesFor p = Some least" "2 \<le> least"
    by (rule minSamplesFor_answers [OF assms(1,2) pos assms(4)])
  show ?thesis
  proof (cases "length column < least")
    case True
    then show ?thesis using l range by (simp add: percentileAt_def)
  next
    case False
    then have "0 < length column" using l(2) by linarith
    from percentile_rank [OF assms(1-4) this assms(5)]
    obtain rank where r: "ceilNudged (ddiv (dmul p (of_nat64 (length column))) hundred64) = Some rank" "1 \<le> rank"
      "rank \<le> length column" "real rank < dvalue p * real (length column) / 100 + 1"
      "dvalue p * real (length column) / 100 * (1 - 2 / 10 ^ 9) \<le> real rank" by blast
    then have "percentileAt column p = Some \<lparr>pv_available = True, pv_value = column ! (rank - 1)\<rparr>"
      using False l(1) range by (simp add: percentileAt_def elem_at_def)
    then show ?thesis using l False r by auto
  qed
qed

theorem percentile_reads_its_rank_witness:
  "percentileAt [zero64, zero64, zero64] (of_nat64 50) = Some no_percentile
    \<or> percentileAt [zero64, zero64, zero64] (of_nat64 50) = Some \<lparr>pv_available = True, pv_value = zero64\<rparr>"
proof -
  have small: "(50::nat) < 2 ^ 53" by simp
  note p = of_nat64_exact [OF small]
  have "(2::real) powi (- 800) \<le> 2 powi 0" by (simp only: powi_le_iff)
  then have "2 powi (- 800) \<le> dvalue (of_nat64 50)" "dvalue (of_nat64 50) < 100" by (simp_all add: p)
  from percentile_reads_its_rank [OF p(1,3) this, of "[zero64, zero64, zero64]"]
  obtain least where l: "if length [zero64, zero64, zero64] < least
      then percentileAt [zero64, zero64, zero64] (of_nat64 50) = Some no_percentile
      else \<exists>rank. 1 \<le> rank \<and> rank \<le> length [zero64, zero64, zero64]
         \<and> real rank < dvalue (of_nat64 50) * real (length [zero64, zero64, zero64]) / 100 + 1
         \<and> dvalue (of_nat64 50) * real (length [zero64, zero64, zero64]) / 100 * (1 - 2 / 10 ^ 9) \<le> real rank
         \<and> percentileAt [zero64, zero64, zero64] (of_nat64 50)
           = Some \<lparr>pv_available = True, pv_value = [zero64, zero64, zero64] ! (rank - 1)\<rparr>"
    by auto
  have "[zero64, zero64, zero64] ! (rank - 1) = zero64" if "1 \<le> rank" "rank \<le> length [zero64, zero64, zero64]" for rank
    using that by (auto simp: le_Suc_eq)
  then show ?thesis using l by (metis (no_types, lifting))
qed

definition least_point :: binary64 where "least_point = Finite False 1 (- 1074)"

lemma least_point_value: "is_finite least_point" "well_formed64 least_point" "dvalue least_point = 2 powi (- 1074)"
  by (simp_all add: least_point_def signed_sig_def canonical_def sig_top_def min_exp_def max_exp_def)

lemma least_point_samples: "minSamplesFor least_point = Some 2"
proof -
  note hundred = hundred64_value
  have small: "(99::nat) < 2 ^ 53" "(2::nat) < 2 ^ 53" by simp_all
  note low = of_nat64_exact [OF small(1)] and up = of_nat64_exact [OF small(2)]
  let ?d = "dsub hundred64 least_point"
  have "(2::real) powi (- 1074) \<le> 2 powi 0" by (simp only: powi_le_iff)
  then have d: "is_finite ?d" "99 \<le> dvalue ?d" "dvalue ?d \<le> 100"
    using rounds_between [OF rounds_dsub [OF hundred(1) least_point_value(1)] low(1,3) hundred(1,2)]
    by (simp_all add: low hundred least_point_value)
  have nz: "\<not> dzero ?d" using d by (simp add: dzero_value)
  let ?q = "ddiv hundred64 ?d"
  have "0 \<le> 100 / dvalue ?d" "100 / dvalue ?d \<le> 2" using d(2) by (simp_all add: divide_simps)
  then have q: "is_finite ?q" "0 \<le> dvalue ?q" "dvalue ?q \<le> real 2"
    using rounds_between [OF rounds_ddiv [OF hundred(1) d(1) nz] zero64_value(1,2) up(1,3)] by (simp_all add: up hundred zero64_value)
  have "well_formed64 ?q" using hundred least_point_value by (intro wf_ops)
  moreover have "dvalue ?q < 2 ^ 63" using q(3) by simp
  ultimately obtain k where "ceilNudged ?q = Some k" "k \<le> 2" using ceilNudged_bounds [OF q(1) _ q(2)] q(3) by blast
  then show ?thesis by (auto simp: minSamplesFor_def)
qed

lemma least_point_rank: "ceilNudged (ddiv (dmul least_point (of_nat64 2)) hundred64) = Some 0"
proof -
  have small: "(2::nat) < 2 ^ 53" by simp
  note two = of_nat64_exact [OF small]
  have p: "is_finite (power64 (- 1073))" "well_formed64 (power64 (- 1073))" "dvalue (power64 (- 1073)) = 2 powi (- 1073)"
    by (simp_all add: power64)
  have "(2::real) powi (- 1073) = 2 powi (- 1074) * 2" using power_int_add [of "2::real" "- 1074" 1] by simp
  then have "dvalue least_point * dvalue (of_nat64 2) = 2 powi (- 1073)" by (simp add: least_point_value two)
  then have x: "is_finite (dmul least_point (of_nat64 2))" "dvalue (dmul least_point (of_nat64 2)) = 2 powi (- 1073)"
    using rounds_between [OF rounds_dmul [OF least_point_value(1) two(1)] p(1,2) p(1,2)] p(3) by simp_all
  let ?y = "ddiv (dmul least_point (of_nat64 2)) hundred64"
  have "(2::real) powi (- 1073) = 2 powi (- 1075) * 4" using power_int_add [of "2::real" "- 1075" 2] by simp
  then have "\<bar>dvalue (dmul least_point (of_nat64 2)) / dvalue hundred64\<bar> < 2 powi (- 1075)"
    by (simp add: x hundred64_value)
  then have y: "is_finite ?y" "dvalue ?y = 0"
    using ddiv_tiny [OF x(1) hundred64_value(1)] by (simp_all add: dzero_value hundred64_value)
  have "well_formed64 ?y" using hundred64_value least_point_value two by (intro wf_ops)
  moreover have "0 \<le> dvalue ?y" "dvalue ?y < 2 ^ 63" "dvalue ?y \<le> real 0" using y(2) by simp_all
  ultimately obtain k where "ceilNudged ?y = Some k" "k \<le> 0" using ceilNudged_bounds [OF y(1)] by blast
  then show ?thesis by simp
qed

text \<open>
  The rank of a point small enough to vanish in the division is zero: the least double above zero satisfies the
  contract of \<open>percentileAt\<close>, asks for two values, and reads at the index \<open>2 ^ 64 - 1\<close> of a column of two.
\<close>

theorem least_point_reads_outside:
  "dless zero64 least_point \<and> dless least_point hundred64 \<and> minSamplesFor least_point = Some 2
    \<and> percentileAt [x, y] least_point = None"
proof -
  have "(2::real) powi (- 1074) \<le> 2 powi 0" by (simp only: powi_le_iff)
  then have "dless zero64 least_point" "dless least_point hundred64"
    by (simp_all add: dless_value zero64_value hundred64_value least_point_value del: dless_finite)
  moreover have rank: "ceilNudged (ddiv (dmul least_point (of_nat64 (Suc (Suc 0)))) hundred64) = Some 0"
    using least_point_rank by (simp add: numeral_2_eq_2)
  moreover have "percentileAt [x, y] least_point = None"
    by (simp add: percentileAt_def least_point_samples rank calculation)
  ultimately show ?thesis using least_point_samples by blast
qed

subsection \<open>What the statistics say of a run\<close>

text \<open>The values of a run: finite doubles away from the overflow of a sum of two.\<close>

definition run_value :: "binary64 \<Rightarrow> bool" where
  "run_value x \<longleftrightarrow> is_finite x \<and> well_formed64 x \<and> \<bar>dvalue x\<bar> \<le> 2 powi 1000"

lemma run_valueD:
  assumes "run_value x"
  shows "is_finite x" "well_formed64 x" "x \<noteq> NaN"
  using assms by (auto simp: run_value_def)

lemma double64:
  assumes "run_value a"
  obtains b where "is_finite b" "well_formed64 b" "dvalue b = 2 * dvalue a"
proof -
  obtain s m e where a: "a = Finite s m e" "canonical s m e" using assms by (cases a) (auto simp: run_value_def)
  show ?thesis
  proof (cases "sig_top \<le> m \<and> e < max_exp")
    case True
    have "dvalue (Finite s m (e + 1)) = 2 * dvalue a" by (simp add: a power_int_add)
    then show ?thesis using that [of "Finite s m (e + 1)"] True a(2) by (simp add: canonical_def)
  next
    case False
    have "e \<noteq> max_exp \<or> m < sig_top"
    proof (rule ccontr)
      assume "\<not> (e \<noteq> max_exp \<or> m < sig_top)"
      then have e: "e = max_exp" and m: "sig_top \<le> m" by simp_all
      have "real m * 2 powi e = \<bar>dvalue a\<bar>" unfolding a dvalue_sign by (cases s) simp_all
      then have "real m * 2 powi e \<le> 2 powi 1000" using assms by (simp only: run_value_def)
      moreover have "2 ^ 52 * 2 powi e \<le> real m * 2 powi e" using m by (simp add: sig_top_def)
      moreover have "2 ^ 52 * 2 powi e = (2::real) powi 1023" unfolding e max_exp_def using power_int_add [of "2::real" 52 971] by simp
      ultimately have "(2::real) powi 1023 \<le> 2 powi 1000" by linarith
      then show False by (simp only: powi_le_iff)
    qed
    then have "m < sig_top" "e = min_exp" using False a(2) by (auto simp: canonical_def)
    then have "canonical s (2 * m) e" using a(2) by (auto simp: canonical_def)
    moreover have "dvalue (Finite s (2 * m) e) = 2 * dvalue a" by (simp add: a signed_sig_def)
    ultimately show ?thesis using that [of "Finite s (2 * m) e"] by simp
  qed
qed

lemma two64_value: "is_finite two64" "well_formed64 two64" "dvalue two64 = 2" "\<not> dzero two64"
  using of_nat64_exact [of 2] by (simp_all add: two64_def dzero_value)

lemma midpoint_between:
  assumes "run_value a" and "run_value b" and "dvalue a \<le> dvalue b"
  shows "is_finite (ddiv (dadd a b) two64)" and "dvalue a \<le> dvalue (ddiv (dadd a b) two64)"
    and "dvalue (ddiv (dadd a b) two64) \<le> dvalue b"
proof -
  note a = run_valueD [OF assms(1)] and b = run_valueD [OF assms(2)]
  obtain a2 where a2: "is_finite a2" "well_formed64 a2" "dvalue a2 = 2 * dvalue a" by (rule double64 [OF assms(1)])
  obtain b2 where b2: "is_finite b2" "well_formed64 b2" "dvalue b2 = 2 * dvalue b" by (rule double64 [OF assms(2)])
  have s: "is_finite (dadd a b)" "2 * dvalue a \<le> dvalue (dadd a b)" "dvalue (dadd a b) \<le> 2 * dvalue b"
    using rounds_between [OF rounds_dadd [OF a(1) b(1)] a2(1,2) b2(1,2)] a2(3) b2(3) assms(3) by simp_all
  show "is_finite (ddiv (dadd a b) two64)" "dvalue a \<le> dvalue (ddiv (dadd a b) two64)"
    "dvalue (ddiv (dadd a b) two64) \<le> dvalue b"
    using rounds_between [OF rounds_ddiv [OF s(1) two64_value(1,4)] a(1,2) b(1,2)] s two64_value by simp_all
qed

text \<open>The median is between the two middle values of the ascending list.\<close>

lemma median_between:
  assumes ok: "\<forall>x\<in>set w. run_value x" and o: "in_order dless w" and n: "2 \<le> length w"
  defines "h \<equiv> length w div 2" and "l \<equiv> (length w - 1) div 2"
  shows "is_finite (median_of w)" and "dvalue (w ! l) \<le> dvalue (median_of w)" and "dvalue (median_of w) \<le> dvalue (w ! h)"
proof -
  have lh: "l < length w" "h < length w" "length w mod 2 = 1 \<Longrightarrow> l = h" "length w mod 2 \<noteq> 1 \<Longrightarrow> l = h - 1 \<and> l < h"
    using n by (auto simp: l_def h_def; presburger)+
  have r: "run_value (w ! l)" "run_value (w ! h)" using ok lh by simp_all
  have le: "dvalue (w ! l) \<le> dvalue (w ! h)"
    using in_order_nth [OF o, of l h] lh run_valueD [OF r(1)] run_valueD [OF r(2)]
    by (cases "length w mod 2 = 1") (auto simp: dless_value not_less simp del: dless_finite)
  show "is_finite (median_of w)" "dvalue (w ! l) \<le> dvalue (median_of w)" "dvalue (median_of w) \<le> dvalue (w ! h)"
    using midpoint_between [OF r le] lh run_valueD [OF r(1)]
    by (cases "length w mod 2 = 1"; simp add: median_of_def Let_def h_def [symmetric])+
qed

lemma filter_count_mset: "mset v = mset w \<Longrightarrow> length (filter P v) = length (filter P w)"
  by (metis mset_filter size_mset)

lemma count_prefix: "(\<forall>x\<in>set (take k w). P x) \<Longrightarrow> k \<le> length w \<Longrightarrow> k \<le> length (filter P w)"
  by (subst append_take_drop_id [of k w, symmetric], subst filter_append) simp

lemma count_suffix: "(\<forall>x\<in>set (drop k w). P x) \<Longrightarrow> length w - k \<le> length (filter P w)"
  by (subst (2) append_take_drop_id [of k w, symmetric], subst filter_append) simp



end
