(* ===== verification/Selection.thy ===== *)
theory Selection
  imports Tree "HOL-Library.Multiset"
begin

text \<open>
  What a hunt selects: the list-file grammar (\<open>source/harness/hunt_selection.cpp\<close>), the address parts, the raw-code
  shape, the glob matcher and the catalog walk (\<open>source/harness/detail/hunt_selection.hpp\<close>), and the catalog of
  events with its seeded shuffle (\<open>source/harness/hunt.cpp\<close>).  \<open>glob_spec\<close> says what a pattern means.
\<close>

subsection \<open>Texts\<close>

definition is_blank :: "char \<Rightarrow> bool" where
  "is_blank c \<longleftrightarrow> c = CHR '' '' \<or> c = CHR 0x09 \<or> c = CHR 0x0D"

definition trimText :: "string \<Rightarrow> string" where
  "trimText s = rev (dropWhile is_blank (rev (dropWhile is_blank s)))"

definition newline :: char where "newline = CHR 0x0A"

function line_pieces :: "string \<Rightarrow> string list" where
  "line_pieces line =
     (if line = [] then []
      else
        let piece = takeWhile (\<lambda>c. c \<noteq> CHR '','') line;
            comma = length piece < length line;
            element = trimText piece
        in (if element \<noteq> [] \<or> comma then [element] else [])
             @ (if comma then line_pieces (drop (length piece + 1) line) else []))"
  by pat_completeness auto
termination by (relation "measure length") auto

declare line_pieces.simps [simp del]

function splitElements :: "string \<Rightarrow> string list" where
  "splitElements whole =
     (if whole = [] then []
      else
        let line = takeWhile (\<lambda>c. c \<noteq> newline) whole
        in line_pieces (takeWhile (\<lambda>c. c \<noteq> CHR ''#'') line) @ splitElements (drop (length line + 1) whole))"
  by pat_completeness auto
termination by (relation "measure length") auto

declare splitElements.simps [simp del]

text \<open>\<open>readAddressFileLines\<close>: the lines of a file that opens, each closed by a newline, or the refusal.\<close>

definition readAddressFileLines :: "string list option \<Rightarrow> string \<Rightarrow> string + string list" where
  "readAddressFileLines lines token =
     (case lines of
        None \<Rightarrow> Inl (quoted token @ '' cannot be opened'')
      | Some ls \<Rightarrow> Inr (splitElements (concat (map (\<lambda>l. l @ [newline]) ls))))"

function splitEntries :: "string \<Rightarrow> string list" where
  "splitEntries selection =
     (let entry = takeWhile (\<lambda>c. c \<noteq> CHR '','' \<and> c \<noteq> newline) selection
      in trimText entry
           # (if length entry < length selection then splitEntries (drop (length entry + 1) selection) else []))"
  by pat_completeness auto
termination by (relation "measure length") auto

declare splitEntries.simps [simp del]

definition devicePartOf :: "string \<Rightarrow> string" where
  "devicePartOf a = (case rfind_char (CHR ''/'') a of None \<Rightarrow> a | Some slash \<Rightarrow> take slash a)"

definition leafPartOf :: "string \<Rightarrow> string" where
  "leafPartOf a = (case rfind_char (CHR ''/'') a of None \<Rightarrow> a | Some slash \<Rightarrow> drop (slash + 1) a)"

definition hasRawCodeShape :: "string \<Rightarrow> bool" where
  "hasRawCodeShape s \<longleftrightarrow> 2 \<le> length s \<and> hd s = CHR ''r'' \<and> list_all is_xdigit (tl s)"

definition kHuntPassSlots :: nat where "kHuntPassSlots = 3"

definition admitsHuntEvent :: "nat \<Rightarrow> bool" where
  "admitsHuntEvent slots \<longleftrightarrow> kHuntPassSlots \<le> slots"

definition deviceLimitCause :: "string \<Rightarrow> nat \<Rightarrow> string" where
  "deviceLimitCause device slots =
     ''device '' @ quoted device @ '' publishes '' @ decimal slots @ '' slots and a hunt pass needs '' @ decimal kHuntPassSlots"

definition coreDevicePart :: "string \<Rightarrow> bool" where
  "coreDevicePart device \<longleftrightarrow>
     device = ''cpu'' \<or> device = ''cpu_core'' \<or> device = ''cpu_atom'' \<or> starts_with device ''armv8_''"

subsection \<open>The glob matcher\<close>

text \<open>The loop of \<open>globMatches\<close>: positions in the text and the pattern, the last star and where it resumes.\<close>

function glob_loop :: "string \<Rightarrow> string \<Rightarrow> nat \<Rightarrow> nat \<Rightarrow> nat option \<Rightarrow> nat \<Rightarrow> bool" where
  "glob_loop p t here pos star resume =
     (if pos < length t then
        if here < length p \<and> (p ! here = CHR ''?'' \<or> p ! here = t ! pos)
        then glob_loop p t (here + 1) (pos + 1) star resume
        else if here < length p \<and> p ! here = CHR ''*''
        then glob_loop p t (here + 1) pos (Some here) pos
        else
          (case star of
             Some s \<Rightarrow> glob_loop p t (s + 1) (resume + 1) star (resume + 1)
           | None \<Rightarrow> False)
      else list_all (\<lambda>c. c = CHR ''*'') (drop here p))"
  by pat_completeness auto
termination
  by (relation "measures [\<lambda>(p, t, here, pos, star, resume). length t - min resume pos,
        \<lambda>(p, t, here, pos, star, resume). length t - pos, \<lambda>(p, t, here, pos, star, resume). length p - here]") auto

declare glob_loop.simps [simp del]

definition globMatches :: "string \<Rightarrow> string \<Rightarrow> bool" where
  "globMatches pattern text' = glob_loop pattern text' 0 0 None 0"

text \<open>What a pattern means.\<close>

fun glob_spec :: "string \<Rightarrow> string \<Rightarrow> bool" where
  "glob_spec [] t \<longleftrightarrow> t = []"
| "glob_spec (c # p) t \<longleftrightarrow>
     (if c = CHR ''*'' then list_ex (\<lambda>k. glob_spec p (drop k t)) [0..<length t + 1]
      else t \<noteq> [] \<and> (c = CHR ''?'' \<or> c = hd t) \<and> glob_spec p (tl t))"

lemma glob_star: "glob_spec (CHR ''*'' # p) (drop i t) \<longleftrightarrow> (\<exists>k. i \<le> k \<and> (k \<le> length t \<or> k = i) \<and> glob_spec p (drop k t))"
proof -
  have "list_ex (\<lambda>k. glob_spec p (drop k (drop i t))) [0..<length (drop i t) + 1]
      \<longleftrightarrow> (\<exists>k. i \<le> k \<and> (k \<le> length t \<or> k = i) \<and> glob_spec p (drop k t))"
  proof
    assume "list_ex (\<lambda>k. glob_spec p (drop k (drop i t))) [0..<length (drop i t) + 1]"
    then obtain k where "k < Suc (length t - i)" "glob_spec p (drop (k + i) t)"
      by (auto simp only: list_ex_iff set_upt atLeastLessThan_iff drop_drop length_drop Suc_eq_plus1)
    then show "\<exists>k. i \<le> k \<and> (k \<le> length t \<or> k = i) \<and> glob_spec p (drop k t)"
      by (intro exI [of _ "k + i"]) auto
  next
    assume "\<exists>k. i \<le> k \<and> (k \<le> length t \<or> k = i) \<and> glob_spec p (drop k t)"
    then obtain k where "i \<le> k" "k \<le> length t \<or> k = i" "glob_spec p (drop k t)" by blast
    then show "list_ex (\<lambda>k. glob_spec p (drop k (drop i t))) [0..<length (drop i t) + 1]"
      unfolding list_ex_iff by (intro bexI [of _ "k - i"]) auto
  qed
  then show ?thesis by (simp del: drop_drop upt_Suc)
qed

lemma glob_stars: "glob_spec p [] \<longleftrightarrow> list_all (\<lambda>c. c = CHR ''*'') p"
  by (induction p) auto

text \<open>A starless run of the pattern is matched character by character.\<close>

lemma glob_run:
  "CHR ''*'' \<notin> set q \<Longrightarrow> glob_spec (q @ p) t \<Longrightarrow> length q \<le> length t \<and> glob_spec p (drop (length q) t)"
proof (induction q arbitrary: t)
  case (Cons c q)
  then show ?case by (cases t) auto
qed simp

text \<open>
  The meaning of a state: the rest of the pattern matches the rest of the text, or the pattern after the last star
  matches the text after a later start.  An earlier star is never needed again.
\<close>

definition star_later :: "string \<Rightarrow> string \<Rightarrow> nat option \<Rightarrow> nat \<Rightarrow> bool" where
  "star_later p t star resume \<longleftrightarrow>
     (\<exists>s. star = Some s \<and> (\<exists>k > resume. k \<le> length t \<and> glob_spec (drop (s + 1) p) (drop k t)))"

definition glob_inv :: "string \<Rightarrow> string \<Rightarrow> nat \<Rightarrow> nat \<Rightarrow> nat option \<Rightarrow> nat \<Rightarrow> bool" where
  "glob_inv p t here pos star resume \<longleftrightarrow> here \<le> length p \<and> pos \<le> length t
     \<and> (\<forall>s. star = Some s \<longrightarrow> s < here \<and> resume \<le> pos \<and> pos - resume = here - (s + 1)
          \<and> CHR ''*'' \<notin> set (take (here - (s + 1)) (drop (s + 1) p)))"

lemma next_start: "(\<exists>k>r. Q k) \<longleftrightarrow> Q (Suc r) \<or> (\<exists>k>Suc r. Q k)"
  by (metis Suc_lessD Suc_lessI lessI)

lemma glob_loop_spec:
  "CHR ''*'' \<notin> set t \<Longrightarrow> glob_inv p t here pos star resume \<Longrightarrow>
   glob_loop p t here pos star resume \<longleftrightarrow> glob_spec (drop here p) (drop pos t) \<or> star_later p t star resume"
proof (induction p t here pos star resume rule: glob_loop.induct)
  case (1 p t here pos star resume)
  note plain = "1.prems"(1) and inv = "1.prems"(2)
  have hl: "here \<le> length p" "pos \<le> length t" using inv by (auto simp: glob_inv_def)
  have star: "s < here" "resume \<le> pos" "pos - resume = here - (s + 1)"
    "CHR ''*'' \<notin> set (take (here - (s + 1)) (drop (s + 1) p))" if "star = Some s" for s
    using inv that by (auto simp: glob_inv_def)
  show ?case
  proof (cases "pos < length t")
    case False
    have end_t: "drop pos t = []" using False by simp
    have "\<not> star_later p t star resume" if no: "\<not> list_all (\<lambda>c. c = CHR ''*'') (drop here p)"
    proof
      assume "star_later p t star resume"
      then obtain s k where s: "star = Some s" and k: "resume < k" "k \<le> length t" "glob_spec (drop (s + 1) p) (drop k t)"
        by (auto simp: star_later_def)
      have "drop (s + 1) p = take (here - (s + 1)) (drop (s + 1) p) @ drop here p"
        using star(1) [OF s] by (metis Suc_eq_plus1 Suc_leI append_take_drop_id drop_drop le_add_diff_inverse2)
      then have "length (take (here - (s + 1)) (drop (s + 1) p)) \<le> length (drop k t)"
        using glob_run [OF star(4) [OF s]] k(3) by metis
      then have "here - (s + 1) \<le> length t - k" using hl star(1) [OF s] by simp
      then show False using star(2,3) [OF s] k(1,2) False hl by linarith
    qed
    then show ?thesis using False by (subst glob_loop.simps) (auto simp: glob_stars)
  next
    case True
    have dt: "drop pos t = t ! pos # drop (Suc pos) t" using True by (simp add: Cons_nth_drop_Suc)
    have nostar: "t ! pos \<noteq> CHR ''*''" using plain True nth_mem by metis
    show ?thesis
    proof (cases "here < length p \<and> (p ! here = CHR ''?'' \<or> p ! here = t ! pos)")
      case hit: True
      then have dp: "drop here p = p ! here # drop (Suc here) p" by (simp add: Cons_nth_drop_Suc)
      have c: "p ! here \<noteq> CHR ''*''" using hit nostar by auto
      have "glob_inv p t (here + 1) (pos + 1) star resume"
        unfolding glob_inv_def
      proof (intro conjI allI impI)
        fix s assume s: "star = Some s"
        note st = star [OF s]
        show "s < here + 1" "resume \<le> pos + 1" "pos + 1 - resume = here + 1 - (s + 1)" using st by linarith+
        have "here + 1 - (s + 1) = Suc (here - (s + 1))" using st by linarith
        moreover have "here - (s + 1) < length (drop (s + 1) p)" "drop (s + 1) p ! (here - (s + 1)) = p ! here"
          using st hit by (simp_all, linarith)
        ultimately show "CHR ''*'' \<notin> set (take (here + 1 - (s + 1)) (drop (s + 1) p))"
          using st(4) c by (simp add: take_Suc_conv_app_nth)
      qed (use hit True in simp_all)
      from "1.IH"(1) [OF True hit plain this] show ?thesis
        using hit True c by (subst glob_loop.simps) (auto simp: dp dt)
    next
      case miss: False
      show ?thesis
      proof (cases "here < length p \<and> p ! here = CHR ''*''")
        case st: True
        then have dp: "drop here p = CHR ''*'' # drop (Suc here) p" by (metis Cons_nth_drop_Suc)
        have "glob_inv p t (here + 1) pos (Some here) pos" using st hl by (simp add: glob_inv_def)
        note ih = "1.IH"(2) [OF True miss st plain this]
        have "star_later p t star resume \<Longrightarrow> glob_spec (drop here p) (drop pos t)"
        proof -
          assume "star_later p t star resume"
          then obtain s k where s: "star = Some s" and k: "resume < k" "k \<le> length t" "glob_spec (drop (s + 1) p) (drop k t)"
            by (auto simp: star_later_def)
          note ss = star [OF s]
          let ?q = "take (here - (s + 1)) (drop (s + 1) p)"
          have "drop (s + 1) p = ?q @ drop here p"
            using ss(1) by (metis Suc_eq_plus1 Suc_leI append_take_drop_id drop_drop le_add_diff_inverse2)
          then have "length ?q \<le> length (drop k t) \<and> glob_spec (drop here p) (drop (length ?q) (drop k t))"
            using glob_run [OF ss(4)] k(3) by metis
          moreover have "length ?q = here - (s + 1)" using hl ss(1) by simp
          ultimately have "here - (s + 1) + k \<le> length t" "glob_spec (drop here p) (drop (here - (s + 1) + k) t)"
            using k(2) by (simp_all, linarith)
          then obtain j where "here - (s + 1) + k \<le> j" "j \<le> length t" "glob_spec (drop (Suc here) p) (drop j t)"
            unfolding dp glob_star by auto
          moreover from this have "pos \<le> j" using ss(2,3) k(1) by linarith
          ultimately show ?thesis unfolding dp glob_star by blast
        qed
        moreover have "glob_spec (drop here p) (drop pos t)
            \<longleftrightarrow> glob_spec (drop (here + 1) p) (drop pos t) \<or> star_later p t (Some here) pos"
          unfolding dp glob_star star_later_def using hl(2) by (auto simp: le_less) 
        ultimately show ?thesis
          using ih True miss st by (subst glob_loop.simps) auto
      next
        case none: False
        have no: "\<not> glob_spec (drop here p) (drop pos t)"
        proof (cases "here < length p")
          case h: True
          then have dp: "drop here p = p ! here # drop (Suc here) p" by (simp add: Cons_nth_drop_Suc)
          show ?thesis using h miss none by (auto simp: dp dt)
        next
          case False
          then show ?thesis by (simp add: dt)
        qed
        show ?thesis
        proof (cases star)
          case None
          then show ?thesis using True miss none no by (subst glob_loop.simps) (auto simp: star_later_def)
        next
          case (Some s)
          note ss = star [OF Some]
          have "glob_inv p t (s + 1) (resume + 1) star (resume + 1)"
            using Some ss hl True by (auto simp: glob_inv_def)
          note ih = "1.IH"(3) [OF True miss none Some plain this]
          have "star_later p t star resume \<longleftrightarrow>
              glob_spec (drop (s + 1) p) (drop (resume + 1) t) \<or> star_later p t star (resume + 1)"
            unfolding star_later_def Some using next_start [of resume "\<lambda>k. k \<le> length t \<and> glob_spec (drop (s + 1) p) (drop k t)"] ss(2) True
            by simp
          then show ?thesis using ih True miss none no Some by (subst glob_loop.simps) auto
        qed
      qed
    qed
  qed
qed

text \<open>
  C33. The one-star backtracking of the glob matcher decides the meaning of the pattern, for every pattern and
  every text that holds no star of its own.
\<close>

theorem glob_matcher_decides_the_pattern:
  assumes "CHR ''*'' \<notin> set t"
  shows "globMatches p t \<longleftrightarrow> glob_spec p t"
  using glob_loop_spec [OF assms, of p 0 0 None 0] by (simp add: globMatches_def glob_inv_def star_later_def)

theorem glob_matcher_decides_the_pattern_witness:
  "globMatches ''c*u/?-*s'' ''cpu/l-cycles''"
  using glob_matcher_decides_the_pattern [of "''cpu/l-cycles''" "''c*u/?-*s''"] by code_simp

text \<open>
  A star of the text at the place of a star of the pattern is consumed as a character: the pattern of one star
  matches every text by its meaning, and the matcher refuses one.
\<close>

theorem glob_star_in_the_text: "glob_spec ''*'' ''*a'' \<and> \<not> globMatches ''*'' ''*a''"
  by code_simp

subsection \<open>The walked catalog\<close>

record device_row =
  dr_path :: string
  dr_limit :: "nat option"
  dr_cycles :: string
  dr_instructions :: string

record catalog_row =
  cr_address :: string
  cr_availability :: availability

record catalog_view =
  cv_devices :: "device_row list"
  cv_rows :: "catalog_row list"

definition kAllSelection :: string where "kAllSelection = ''all''"
definition kCyclesLeaf :: string where "kCyclesLeaf = ''cpu-cycles''"
definition kInstrLeaf :: string where "kInstrLeaf = ''instructions''"

text \<open>The stack of \<open>catalogWalkOrder\<close>, top first; one unit of fuel per popped object, \<open>None\<close> when it runs out.\<close>

fun walk_loop :: "nat \<Rightarrow> system \<Rightarrow> tree_node list \<Rightarrow> tree_node list \<Rightarrow> tree_node list option" where
  "walk_loop fuel s [] order = Some order"
| "walk_loop 0 s (n # pending) order = None"
| "walk_loop (Suc fuel) s (n # pending) order = walk_loop fuel s (children_of s n @ pending) (order @ [n])"

definition catalogWalkOrder :: "system \<Rightarrow> tree_node \<Rightarrow> tree_node list option" where
  "catalogWalkOrder s root' = walk_loop (length (sys_objects s)) s (children_of s root') []"

fun device_leaves :: "string \<Rightarrow> catalog_entry list \<Rightarrow> device_row \<Rightarrow> device_row \<times> catalog_row list" where
  "device_leaves path [] d = (d, [])"
| "device_leaves path (e # es) d =
     (let addr = path @ ''/'' @ ce_name e;
          d1 = (if ce_name e = kCyclesLeaf then d\<lparr>dr_cycles := addr\<rparr>
                else if ce_name e = kInstrLeaf then d\<lparr>dr_instructions := addr\<rparr> else d);
          (d2, rows) = device_leaves path es d1
      in (d2, \<lparr>cr_address = addr, cr_availability = ce_avail e\<rparr> # rows))"

definition walk_device :: "system \<Rightarrow> probed_table \<Rightarrow> tree_node \<Rightarrow> catalog_view \<Rightarrow> catalog_view checked" where
  "walk_device s probed n view =
     (case counters_of probed n of
        None \<Rightarrow> None
      | Some entries \<Rightarrow>
          let (d, rows) = device_leaves (tn_path n) entries
                \<lparr>dr_path = tn_path n, dr_limit = programmableCounters s n, dr_cycles = [], dr_instructions = []\<rparr>;
              d' = (if dr_cycles d = [] \<or> dr_instructions d = [] then d\<lparr>dr_cycles := [], dr_instructions := []\<rparr> else d)
          in Some \<lparr>cv_devices = cv_devices view @ [d'], cv_rows = cv_rows view @ rows\<rparr>)"

fun walk_devices :: "system \<Rightarrow> probed_table \<Rightarrow> tree_node list \<Rightarrow> catalog_view \<Rightarrow> catalog_view checked" where
  "walk_devices s probed [] view = Some view"
| "walk_devices s probed (n # ns) view =
     (case walk_device s probed n view of None \<Rightarrow> None | Some v \<Rightarrow> walk_devices s probed ns v)"

definition walkCatalog :: "system \<Rightarrow> probed_table \<Rightarrow> tree_node \<Rightarrow> catalog_view checked" where
  "walkCatalog s probed root' =
     (case catalogWalkOrder s root' of
        None \<Rightarrow> None
      | Some order \<Rightarrow> walk_devices s probed order \<lparr>cv_devices = [], cv_rows = []\<rparr>)"

text \<open>\<open>discoverCatalog\<close>: the walk from the machine object.\<close>

definition discoverCatalog :: "system \<Rightarrow> probed_table \<Rightarrow> catalog_view checked" where
  "discoverCatalog s probed =
     (case object_at s ''machine'' of
        (s', Inl _) \<Rightarrow> None
      | (s', Inr root') \<Rightarrow> walkCatalog s' probed root')"

definition sourceOf :: "catalog_view \<Rightarrow> string \<Rightarrow> nat checked" where
  "sourceOf view device = index_of (\<lambda>d. dr_path d = device) (cv_devices view)"

subsection \<open>The event catalog\<close>

definition failure :: "string \<Rightarrow> error" where
  "failure text' = \<lparr>message = text', suggestions = []\<rparr>"

definition appendAll :: "catalog_view \<Rightarrow> string list" where
  "appendAll view =
     map cr_address (filter (\<lambda>r. coreDevicePart (devicePartOf (cr_address r))
        \<and> leafPartOf (cr_address r) \<noteq> kCyclesLeaf \<and> leafPartOf (cr_address r) \<noteq> kInstrLeaf) (cv_rows view))"

definition appendPattern :: "catalog_view \<Rightarrow> string \<Rightarrow> string list expected" where
  "appendPattern view pattern =
     (let found = map cr_address (filter (\<lambda>r. globMatches pattern (cr_address r)) (cv_rows view))
      in if found = [] then Inl (failure (''the hunt pattern '' @ quoted pattern @ '' matches no catalog address''))
         else Inr found)"

fun appendList :: "catalog_view \<Rightarrow> string list \<Rightarrow> string list \<Rightarrow> string list expected" where
  "appendList view [] expanded = Inr expanded"
| "appendList view (entry # entries) expanded =
     (if entry = [] then Inl (failure ''the hunt selection holds an empty address line (FR-006)'')
      else if \<not> list_ex (\<lambda>r. cr_address r = entry) (cv_rows view)
      then Inl (failure (''the hunt selection names '' @ quoted entry
             @ '', which the catalog holds no such address (FR-004)''))
      else appendList view entries (if entry \<in> set expanded then expanded else expanded @ [entry]))"

text \<open>\<open>EventCatalog\<close> holds the expansion of its last accepted selection.\<close>

type_synonym event_catalog = "string list option"

definition catalog_expand :: "catalog_view \<Rightarrow> string \<Rightarrow> (event_catalog \<times> unit expected) checked" where
  "catalog_expand view selection =
     (case List.find hasRawCodeShape (splitEntries selection) of
        Some entry \<Rightarrow>
          Some (None, Inl (failure (''the hunt selection names the raw event code '' @ quoted entry
            @ ''; no host resolves a raw code (FR-005)'')))
      | None \<Rightarrow>
          let whole = trimText selection;
              glob = list_ex (\<lambda>c. c = CHR ''*'' \<or> c = CHR ''?'') whole
                \<and> \<not> list_ex (\<lambda>c. c = CHR '','' \<or> c = newline) whole;
              answer = (if whole = kAllSelection then Inr (appendAll view)
                        else if glob then appendPattern view whole
                        else appendList view (splitEntries selection) [])
          in case answer of
               Inl e \<Rightarrow> Some (None, Inl e)
             | Inr expanded \<Rightarrow> if distinct expanded then Some (Some expanded, Inr ()) else None)"

definition carriesCatalogSpelling :: "string \<Rightarrow> bool" where
  "carriesCatalogSpelling a =
     (case rfind_char (CHR ''/'') a of None \<Rightarrow> False | Some i \<Rightarrow> i \<noteq> 0 \<and> i + 1 < length a)"

definition addresses :: "event_catalog \<Rightarrow> string list checked" where
  "addresses c =
     (case c of
        None \<Rightarrow> None
      | Some as \<Rightarrow> if distinct as \<and> list_all carriesCatalogSpelling as then Some as else None)"

datatype skipped_kind =
  SKIP_PERMISSION_BLOCKED | SKIP_NOT_ENCODABLE | SKIP_ABSENT | SKIP_SCOPE_REFUSED | SKIP_GAP

fun skippedKindOf :: "availability \<Rightarrow> skipped_kind checked" where
  "skippedKindOf COUNTABLE = None"
| "skippedKindOf PERMISSION_BLOCKED = Some SKIP_PERMISSION_BLOCKED"
| "skippedKindOf NOT_ENCODABLE = Some SKIP_NOT_ENCODABLE"
| "skippedKindOf ABSENT = Some SKIP_ABSENT"
| "skippedKindOf SCOPE_REFUSED = Some SKIP_SCOPE_REFUSED"
| "skippedKindOf GAP = Some SKIP_GAP"

record catalog_address =
  ca_address :: string
  ca_device :: string
  ca_source :: nat

record skipped_event =
  se_address :: string
  se_kind :: skipped_kind

text \<open>The generator of the seed shuffle and the Fisher-Yates pass it drives.\<close>

definition kLcgMultiplier :: u64 where "kLcgMultiplier = 6364136223846793005"
definition kLcgIncrement :: u64 where "kLcgIncrement = 1442695040888963407"

fun shuffle_from :: "nat \<Rightarrow> u64 \<Rightarrow> 'a list \<Rightarrow> 'a list" where
  "shuffle_from 0 state xs = xs"
| "shuffle_from (Suc width) state xs =
     (if width = 0 then xs
      else
        let state' = state * kLcgMultiplier + kLcgIncrement;
            draw = unat state' mod Suc width
        in shuffle_from width state' (xs[width := xs ! draw, draw := xs ! width]))"

definition shuffle :: "u64 \<Rightarrow> 'a list \<Rightarrow> 'a list" where
  "shuffle seed xs = (if seed = 0 then xs else shuffle_from (length xs) seed xs)"

fun split_rows ::
  "catalog_view \<Rightarrow> string list \<Rightarrow> (catalog_address list \<times> skipped_event list) checked" where
  "split_rows view [] = Some ([], [])"
| "split_rows view (a # as) =
     (case (List.find (\<lambda>r. cr_address r = a) (cv_rows view), split_rows view as) of
        (Some r, Some (events, skips)) \<Rightarrow>
          if cr_availability r = COUNTABLE
          then map_option (\<lambda>src. (\<lparr>ca_address = a, ca_device = devicePartOf a, ca_source = src\<rparr> # events, skips))
                 (sourceOf view (devicePartOf a))
          else map_option (\<lambda>k. (events, \<lparr>se_address = a, se_kind = k\<rparr> # skips)) (skippedKindOf (cr_availability r))
      | _ \<Rightarrow> None)"

definition split_events ::
  "catalog_view \<Rightarrow> event_catalog \<Rightarrow> u64 \<Rightarrow> (catalog_address list \<times> skipped_event list) checked" where
  "split_events view c seed =
     (case addresses c of
        None \<Rightarrow> None
      | Some as \<Rightarrow>
          (case split_rows view as of
             None \<Rightarrow> None
           | Some (events, skips) \<Rightarrow>
               let events' = shuffle seed events
               in if length events' + length skips = length as then Some (events', skips) else None))"

definition isCoreDevice :: "string \<Rightarrow> bool checked" where
  "isCoreDevice a =
     (let device = devicePartOf a; core = coreDevicePart device
      in if \<not> core \<or> \<not> starts_with device ''uncore'' then Some core else None)"

text \<open>The availability a refusal message reports.\<close>

definition find_text :: "string \<Rightarrow> string \<Rightarrow> nat option" where
  "find_text needle s = index_of (\<lambda>i. starts_with (drop i s) needle) [0..<length s + 1]"

definition availabilityOfRefusal :: "error \<Rightarrow> availability option" where
  "availabilityOfRefusal refusal =
     (case find_text ''the catalog reports '' (message refusal) of
        None \<Rightarrow> None
      | Some start \<Rightarrow>
          let word' = takeWhile (\<lambda>c. c \<noteq> CHR '';'') (drop (start + length ''the catalog reports '') (message refusal))
          in if word' = ''permission_blocked'' then Some PERMISSION_BLOCKED
             else if word' = ''not_encodable'' then Some NOT_ENCODABLE
             else if word' = ''absent'' then Some ABSENT
             else if word' = ''scope_refused'' then Some SCOPE_REFUSED
             else if word' = ''gap'' then Some GAP
             else None)"

end
