(* ===== verification/Selection_Facts.thy ===== *)
theory Selection_Facts
  imports Selection
begin

text \<open>
  What the selection promises: the list-file grammar reads back the addresses it was given, the catalog walk visits
  every object below its root exactly once, and an accepted selection of a walked catalog splits into the countable
  events and the refused ones without a contract violation, under every seed.
\<close>

subsection \<open>The list-file grammar\<close>

definition plain_element :: "string \<Rightarrow> bool" where
  "plain_element e \<longleftrightarrow> e \<noteq> [] \<and> \<not> is_blank (hd e) \<and> \<not> is_blank (last e)
     \<and> CHR '','' \<notin> set e \<and> CHR ''#'' \<notin> set e \<and> newline \<notin> set e"

lemma trimText_plain: "e \<noteq> [] \<Longrightarrow> \<not> is_blank (hd e) \<Longrightarrow> \<not> is_blank (last e) \<Longrightarrow> trimText e = e"
proof -
  assume a: "e \<noteq> []" "\<not> is_blank (hd e)" "\<not> is_blank (last e)"
  have "dropWhile is_blank e = e" using a(1,2) by (cases e) simp_all
  moreover have "dropWhile is_blank (rev e) = rev e" using a(1,3) by (cases "rev e") (auto simp: last_snoc hd_rev [symmetric])
  ultimately show ?thesis by (simp add: trimText_def)
qed

lemma takeWhile_absent: "c \<notin> set e \<Longrightarrow> takeWhile (\<lambda>x. x \<noteq> c) (e @ c # r) = e"
  by (induction e) auto

lemma takeWhile_none: "c \<notin> set e \<Longrightarrow> takeWhile (\<lambda>x. x \<noteq> c) e = e"
  by (induction e) auto

lemma line_pieces_plain: "plain_element e \<Longrightarrow> line_pieces e = [e]"
  by (subst line_pieces.simps) (simp add: plain_element_def takeWhile_none trimText_plain)

text \<open>A file of one address per line reads back as the addresses, in order.\<close>

theorem address_lines_roundtrip:
  assumes "\<forall>e\<in>set es. plain_element e"
  shows "readAddressFileLines (Some es) token = Inr es"
proof -
  have "splitElements (concat (map (\<lambda>l. l @ [newline]) es)) = es"
    using assms
  proof (induction es)
    case (Cons e es)
    then have e: "plain_element e" by simp
    then have "takeWhile (\<lambda>c. c \<noteq> newline) (e @ newline # concat (map (\<lambda>l. l @ [newline]) es)) = e"
      and hash: "takeWhile (\<lambda>c. c \<noteq> CHR ''#'') e = e"
      by (simp_all only: plain_element_def takeWhile_absent takeWhile_none not_False_eq_True)
    then show ?case using Cons line_pieces_plain [OF e]
      by (subst splitElements.simps) (simp add: Let_def hash del: takeWhile_eq_all_conv)
  qed (simp add: splitElements.simps)
  then show ?thesis by (simp add: readAddressFileLines_def)
qed

theorem address_lines_roundtrip_witness:
  "readAddressFileLines (Some [''cpu/cycles'', ''cpu/l1d.replacement'']) ''@set'' = Inr [''cpu/cycles'', ''cpu/l1d.replacement'']"
  by (rule address_lines_roundtrip) (simp add: plain_element_def is_blank_def newline_def)

subsection \<open>The walk\<close>

inductive below :: "system \<Rightarrow> tree_node \<Rightarrow> tree_node \<Rightarrow> bool" for s n where
  below_child: "c \<in> set (children_of s n) \<Longrightarrow> below s n c"
| below_step: "below s n m \<Longrightarrow> c \<in> set (children_of s m) \<Longrightarrow> below s n c"

lemma child_object:
  assumes "tree_wf s" and "c \<in> set (children_of s n)"
  shows "(tn_path c, c) \<in> set (sys_objects s)" and "is_direct_child (tn_path n) (tn_path c)"
    and "parent_path c = tn_path n" and "tn_path c \<noteq> ''machine''"
proof -
  obtain q where q: "(q, c) \<in> set (sys_objects s)" "is_direct_child (tn_path n) q" using assms(2) by (auto simp: children_of_def)
  then have "tn_path c = q" using assms(1) by (auto simp: tree_wf_def)
  with q show "(tn_path c, c) \<in> set (sys_objects s)" "is_direct_child (tn_path n) (tn_path c)" by simp_all
  then show "parent_path c = tn_path n" by (intro child_parent_path) simp_all
  show "tn_path c \<noteq> ''machine''"
  proof
    assume m: "tn_path c = ''machine''"
    have "CHR ''/'' \<in> set (tn_path c)" if "tn_path n \<noteq> ''machine''"
      using \<open>is_direct_child (tn_path n) (tn_path c)\<close> that by (auto simp: is_direct_child_def starts_with_iff)
    then show False using \<open>is_direct_child (tn_path n) (tn_path c)\<close> m
      by (cases "tn_path n = ''machine''") (simp_all add: is_direct_child_def)
  qed
qed

lemma children_distinct: "tree_wf s \<Longrightarrow> distinct (children_of s n)"
proof -
  assume wf: "tree_wf s"
  have d: "distinct (map fst (sys_objects s))" using wf om_wf_distinct by (auto simp: tree_wf_def)
  have "tn_path m = p" if "(p, m) \<in> set (sys_objects s)" for p m using wf that by (auto simp: tree_wf_def)
  then have "inj_on snd (set (sys_objects s))" by (metis inj_onI prod.collapse)
  then show ?thesis using d unfolding children_of_def
    by (auto simp: distinct_map intro: inj_on_subset)
qed

definition walk_inv :: "system \<Rightarrow> tree_node \<Rightarrow> tree_node list \<Rightarrow> tree_node list \<Rightarrow> bool" where
  "walk_inv s r pending order \<longleftrightarrow> distinct (order @ pending) \<and> (\<forall>x\<in>set (order @ pending). below s r x)
     \<and> (\<forall>x\<in>set (order @ pending). \<exists>v\<in>insert r (set order). x \<in> set (children_of s v))
     \<and> (\<forall>v\<in>insert r (set order). set (children_of s v) \<subseteq> set order \<union> set pending)"

lemma below_object: "tree_wf s \<Longrightarrow> below s r x \<Longrightarrow> (tn_path x, x) \<in> set (sys_objects s) \<and> tn_path x \<noteq> ''machine''"
  by (erule below.cases) (auto dest: child_object)

lemma objects_inj:
  assumes "tree_wf s" and "(tn_path x, x) \<in> set (sys_objects s)" and "(tn_path y, y) \<in> set (sys_objects s)" and "tn_path x = tn_path y"
  shows "x = y"
proof -
  have w: "om_wf (sys_objects s)" using assms(1) by (simp add: tree_wf_def)
  from om_in_find [OF w assms(2)] om_in_find [OF w assms(3)] assms(4) show ?thesis by (metis option.inject)
qed

lemma walk_step:
  assumes wf: "tree_wf s" and r: "(''machine'', r) \<in> set (sys_objects s)" "tn_path r = ''machine''"
    and inv: "walk_inv s r (n # pending) order"
  shows "walk_inv s r (children_of s n @ pending) (order @ [n])"
proof -
  have d: "distinct (order @ n # pending)" and b: "\<forall>x\<in>set (order @ n # pending). below s r x"
    and up: "\<forall>x\<in>set (order @ n # pending). \<exists>v\<in>insert r (set order). x \<in> set (children_of s v)"
    and down: "\<forall>v\<in>insert r (set order). set (children_of s v) \<subseteq> set order \<union> set (n # pending)"
    using inv by (auto simp: walk_inv_def)
  have ob: "(tn_path x, x) \<in> set (sys_objects s) \<and> tn_path x \<noteq> ''machine''" if "x \<in> set (order @ n # pending)" for x
    using below_object [OF wf] b that by blast
  have fresh: "c \<notin> set (order @ n # pending)" if c: "c \<in> set (children_of s n)" for c
  proof
    assume "c \<in> set (order @ n # pending)"
    then obtain v where v: "v \<in> insert r (set order)" "c \<in> set (children_of s v)" using up by blast
    have p: "tn_path v = tn_path n" using child_object(3) [OF wf c] child_object(3) [OF wf v(2)] by simp
    show False
    proof (cases "v = r")
      case True
      then show False using p r(2) ob [of n] by simp
    next
      case False
      then have "v \<in> set order" using v by simp
      then have "v = n" using objects_inj [OF wf _ _ p] ob [of v] ob [of n] by simp
      then show False using \<open>v \<in> set order\<close> d by simp
    qed
  qed
  have "below s r c" if "c \<in> set (children_of s n)" for c
    using b that by (auto intro: below_step)
  note belows = this
  let ?cs = "set (children_of s n)"
  have sets: "set ((order @ [n]) @ children_of s n @ pending) = set (order @ n # pending) \<union> ?cs" by auto
  show ?thesis
    unfolding walk_inv_def
  proof (intro conjI)
    show "distinct ((order @ [n]) @ children_of s n @ pending)"
      using d fresh children_distinct [OF wf, of n] by auto
    show "\<forall>x\<in>set ((order @ [n]) @ children_of s n @ pending). below s r x"
      unfolding sets using b belows by blast
    show "\<forall>x\<in>set ((order @ [n]) @ children_of s n @ pending). \<exists>v\<in>insert r (set (order @ [n])). x \<in> set (children_of s v)"
    proof
      fix x assume "x \<in> set ((order @ [n]) @ children_of s n @ pending)"
      then consider "x \<in> set (order @ n # pending)" | "x \<in> ?cs" unfolding sets by blast
      then show "\<exists>v\<in>insert r (set (order @ [n])). x \<in> set (children_of s v)" using up by cases auto
    qed
    show "\<forall>v\<in>insert r (set (order @ [n])). set (children_of s v) \<subseteq> set (order @ [n]) \<union> set (children_of s n @ pending)"
      using down by auto
  qed
qed

lemma walk_room:
  assumes "tree_wf s" and "walk_inv s r (n # pending) order"
  shows "length order < length (sys_objects s)"
proof -
  have d: "distinct (order @ [n])" and b: "\<forall>x\<in>set (order @ [n]). below s r x"
    using assms(2) unfolding walk_inv_def by auto
  have "x \<in> snd ` set (sys_objects s)" if "x \<in> set (order @ [n])" for x
    using below_object [OF assms(1), of r x] b that by (metis imageI snd_conv)
  then have "card (set (order @ [n])) \<le> card (snd ` set (sys_objects s))" by (intro card_mono subsetI) simp_all
  also have "\<dots> \<le> length (sys_objects s)" by (rule order_trans [OF card_image_le card_length]) simp
  finally show ?thesis using distinct_card [OF d] by simp
qed

lemma walk_loop_total:
  assumes wf: "tree_wf s" and r: "(''machine'', r) \<in> set (sys_objects s)" "tn_path r = ''machine''"
  shows "walk_inv s r pending order \<Longrightarrow> length (sys_objects s) \<le> fuel + length order \<Longrightarrow>
    \<exists>all. walk_loop fuel s pending order = Some all \<and> walk_inv s r [] all"
proof (induction fuel arbitrary: pending order)
  case 0
  show ?case
  proof (cases pending)
    case (Cons n ns)
    then show ?thesis using walk_room [OF wf, of r n ns order] 0 by simp
  qed (use 0 in simp)
next
  case (Suc fuel)
  show ?case
  proof (cases pending)
    case (Cons n ns)
    then show ?thesis using walk_step [OF wf r, of n ns order] Suc by simp
  qed (use Suc in simp)
qed

lemma catalogWalkOrder_total:
  assumes "tree_wf s" and "(''machine'', r) \<in> set (sys_objects s)" and "tn_path r = ''machine''"
  obtains order where "catalogWalkOrder s r = Some order" and "distinct order" and "set order = {x. below s r x}"
proof -
  have "walk_inv s r (children_of s r) []"
    using children_distinct [OF assms(1)] by (auto simp: walk_inv_def intro: below_child)
  from walk_loop_total [OF assms this] obtain all where a: "catalogWalkOrder s r = Some all" "walk_inv s r [] all"
    by (auto simp: catalogWalkOrder_def)
  have "x \<in> set all" if "below s r x" for x
    using that by (induction rule: below.induct) (use a(2) in \<open>auto simp: walk_inv_def\<close>)
  then show ?thesis using that a by (auto simp: walk_inv_def)
qed

text \<open>
  C34. In every reachable tree the catalog walk from the machine object ends, in at most one step per object, and
  visits every object below the root exactly once.
\<close>

theorem catalog_walk_visits_every_object_once:
  assumes "reachable_tree s" and "om_find (sys_objects s) ''machine'' = Some r"
  shows "\<exists>order. catalogWalkOrder s r = Some order \<and> distinct order \<and> set order = {x. below s r x}"
proof -
  have wf: "tree_wf s" by (rule reachable_tree_wf [OF assms(1)])
  have r: "(''machine'', r) \<in> set (sys_objects s)" using assms(2) by (rule om_find_Some_in)
  then have "tn_path r = ''machine''" using wf by (auto simp: tree_wf_def)
  from catalogWalkOrder_total [OF wf r this] show ?thesis by blast
qed

theorem catalog_walk_visits_every_object_once_witness:
  "\<exists>order. catalogWalkOrder example_tree (snd (last (sys_objects example_tree))) = Some order \<and> distinct order
    \<and> set order = {x. below example_tree (snd (last (sys_objects example_tree))) x}"
  by (rule catalog_walk_visits_every_object_once [OF example_reachable]) (simp add: example_tree_def om_find_Cons)

subsection \<open>The seed shuffle\<close>

lemma mset_shuffle_from: "n \<le> length xs \<Longrightarrow> mset (shuffle_from n state xs) = mset xs"
proof (induction n arbitrary: state xs)
  case (Suc n)
  let ?d = "unat (state * kLcgMultiplier + kLcgIncrement) mod Suc n"
  have "?d < Suc n" by simp
  then have "?d < length xs" "n < length xs" using Suc.prems by linarith+
  then have "mset (xs[n := xs ! ?d, ?d := xs ! n]) = mset xs" by (simp add: mset_swap)
  then show ?case using Suc by (simp add: Let_def del: mset_swap)
qed simp

lemma mset_shuffle [simp]: "mset (shuffle seed xs) = mset xs"
  by (simp add: shuffle_def mset_shuffle_from)

lemma set_shuffle [simp]: "set (shuffle seed xs) = set xs"
  by (metis mset_eq_setD mset_shuffle)

lemma length_shuffle [simp]: "length (shuffle seed xs) = length xs"
  by (metis mset_shuffle size_mset)

subsection \<open>Selecting from a walked catalog\<close>

text \<open>Paths are not empty, and leaf names are not empty and hold no separator: what the providers publish.\<close>

definition plain_catalog :: "system \<Rightarrow> bool" where
  "plain_catalog s \<longleftrightarrow> (\<forall>(p, n)\<in>set (sys_objects s). p \<noteq> []
     \<and> (\<forall>l\<in>set (tn_leaves n). leaf_name (lr_core l) \<noteq> [] \<and> CHR ''/'' \<notin> set (leaf_name (lr_core l))))"

definition view_ok :: "catalog_view \<Rightarrow> bool" where
  "view_ok v \<longleftrightarrow> (\<forall>r\<in>set (cv_rows v). carriesCatalogSpelling (cr_address r)
     \<and> (\<exists>d\<in>set (cv_devices v). dr_path d = devicePartOf (cr_address r)))"

lemma composed_address:
  assumes "p \<noteq> []" and "n \<noteq> []" and "CHR ''/'' \<notin> set n"
  shows "carriesCatalogSpelling (p @ CHR ''/'' # n)" and "devicePartOf (p @ CHR ''/'' # n) = p"
  using assms by (simp_all add: carriesCatalogSpelling_def devicePartOf_def rfind_char_join)

lemma device_leaves_rows:
  "snd (device_leaves path es d) = map (\<lambda>e. \<lparr>cr_address = path @ ''/'' @ ce_name e, cr_availability = ce_avail e\<rparr>) es
   \<and> dr_path (fst (device_leaves path es d)) = dr_path d"
proof (induction es arbitrary: d)
  case (Cons e es)
  let ?d1 = "if ce_name e = kCyclesLeaf then d\<lparr>dr_cycles := path @ ''/'' @ ce_name e\<rparr>
                else if ce_name e = kInstrLeaf then d\<lparr>dr_instructions := path @ ''/'' @ ce_name e\<rparr> else d"
  have "dr_path ?d1 = dr_path d" by simp
  then show ?case using Cons.IH [of ?d1] unfolding device_leaves.simps Let_def by (simp only: split_beta fst_conv snd_conv list.simps)
qed simp

lemma walk_devices_ok:
  assumes wf: "tree_wf s" and plain: "plain_catalog s"
  shows "walk_devices s probed ns view = Some v \<Longrightarrow> (\<forall>n\<in>set ns. (tn_path n, n) \<in> set (sys_objects s)) \<Longrightarrow>
    view_ok view \<Longrightarrow> view_ok v"
proof (induction ns arbitrary: view)
  case (Cons n ns)
  obtain v1 where v1: "walk_device s probed n view = Some v1" "walk_devices s probed ns v1 = Some v"
    using Cons.prems(1) by (auto split: option.splits)
  obtain es where es: "counters_of probed n = Some es" using v1(1) by (auto simp: walk_device_def split: option.splits)
  have n: "(tn_path n, n) \<in> set (sys_objects s)" using Cons.prems(2) by simp
  then have names: "tn_path n \<noteq> []" "\<forall>l\<in>set (tn_leaves n). leaf_name (lr_core l) \<noteq> [] \<and> CHR ''/'' \<notin> set (leaf_name (lr_core l))"
    using plain by (auto simp: plain_catalog_def)
  have "node_ok (sys_providers s) n" using wf n by (auto simp: tree_wf_def)
  then have units: "\<forall>l\<in>set (tn_leaves n). has_value (unitFromToken (leaf_unit (lr_core l)))"
    by (simp add: node_ok_def leaves_ok_def leaf_ok_def)
  have "\<exists>es. counters_of probed n = Some es \<and> map ce_name es = map (\<lambda>l. leaf_name (lr_core l)) (tn_leaves n)"
    using counters_loop_total [OF units] unfolding counters_of_def by blast
  then have "map ce_name es = map (\<lambda>l. leaf_name (lr_core l)) (tn_leaves n)" using es by simp
  then have "set (map ce_name es) = set (map (\<lambda>l. leaf_name (lr_core l)) (tn_leaves n))" by (simp only:)
  then have name_sets: "ce_name ` set es = (\<lambda>l. leaf_name (lr_core l)) ` set (tn_leaves n)" by (simp only: set_map)
  have named: "ce_name e \<noteq> [] \<and> CHR ''/'' \<notin> set (ce_name e)" if e: "e \<in> set es" for e
  proof -
    have "ce_name e \<in> (\<lambda>l. leaf_name (lr_core l)) ` set (tn_leaves n)" unfolding name_sets [symmetric] using e by (rule imageI)
    then obtain l where "l \<in> set (tn_leaves n)" "ce_name e = leaf_name (lr_core l)" by (rule imageE)
    then show ?thesis using names(2) by simp
  qed
  obtain d rows where dl: "device_leaves (tn_path n) es
      \<lparr>dr_path = tn_path n, dr_limit = programmableCounters s n, dr_cycles = [], dr_instructions = []\<rparr> = (d, rows)"
    by fastforce
  then have d: "dr_path d = tn_path n"
    "rows = map (\<lambda>e. \<lparr>cr_address = tn_path n @ ''/'' @ ce_name e, cr_availability = ce_avail e\<rparr>) es"
    using device_leaves_rows [of "tn_path n" es
        "\<lparr>dr_path = tn_path n, dr_limit = programmableCounters s n, dr_cycles = [], dr_instructions = []\<rparr>"]
    unfolding dl fst_conv snd_conv device_row.simps by blast+
  have "view_ok v1"
    using v1(1) Cons.prems(3) d composed_address [OF names(1)] named
    by (auto simp: walk_device_def es dl view_ok_def)
  with Cons.IH [OF v1(2)] Cons.prems(2) show ?case by simp
qed simp

lemma discovered_view_ok:
  assumes "tree_wf s" and "plain_catalog s" and "discoverCatalog s probed = Some view"
  shows "view_ok view"
proof -
  let ?s = "ensureOpen s"
  have wf: "tree_wf ?s" "plain_catalog ?s" using assms(1,2) by (simp_all add: plain_catalog_def ensureOpen_def tree_wf_def)
  obtain r where r: "walkCatalog ?s probed r = Some view" "om_find (sys_objects ?s) (canonicalize ?s ''machine'') = Some r"
    using assms(3) by (auto simp: discoverCatalog_def object_at_def Let_def split: option.splits prod.splits)
  obtain order where o: "catalogWalkOrder ?s r = Some order"
    "walk_devices ?s probed order \<lparr>cv_devices = [], cv_rows = []\<rparr> = Some view"
    using r(1) by (auto simp: walkCatalog_def split: option.splits)
  have "walk_loop f ?s pending done' = Some all \<Longrightarrow> (\<forall>n\<in>set (done' @ pending). (tn_path n, n) \<in> set (sys_objects ?s)) \<Longrightarrow>
      \<forall>n\<in>set all. (tn_path n, n) \<in> set (sys_objects ?s)" for f pending done' all
  proof (induction f arbitrary: pending done')
    case 0
    then show ?case by (cases pending) auto
  next
    case (Suc f)
    show ?case
    proof (cases pending)
      case (Cons n ns)
      have "\<forall>c\<in>set (children_of ?s n). (tn_path c, c) \<in> set (sys_objects ?s)" using child_object(1) [OF wf(1)] by blast
      then show ?thesis using Suc.IH [of "children_of ?s n @ ns" "done' @ [n]"] Suc.prems Cons by auto
    qed (use Suc in auto)
  qed
  from this [OF o(1) [unfolded catalogWalkOrder_def]] have "\<forall>n\<in>set order. (tn_path n, n) \<in> set (sys_objects ?s)"
    using child_object(1) [OF wf(1)] by auto
  from walk_devices_ok [OF wf o(2) this] show ?thesis by (simp add: view_ok_def)
qed

lemma appendList_rows:
  "appendList view es expanded = Inr out \<Longrightarrow> set expanded \<subseteq> cr_address ` set (cv_rows view) \<Longrightarrow>
   set out \<subseteq> cr_address ` set (cv_rows view)"
proof (induction es arbitrary: expanded)
  case (Cons e es)
  then obtain r where "r \<in> set (cv_rows view)" "cr_address r = e" by (auto simp: list_ex_iff split: if_split_asm)
  then have "set (if e \<in> set expanded then expanded else expanded @ [e]) \<subseteq> cr_address ` set (cv_rows view)"
    using Cons.prems(2) by auto
  then show ?case using Cons.IH Cons.prems(1) by (simp split: if_split_asm)
qed simp

lemma expand_rows:
  assumes "catalog_expand view selection = Some (Some as, Inr ())"
  shows "distinct as \<and> set as \<subseteq> cr_address ` set (cv_rows view)"
  using assms appendList_rows [of view "splitEntries selection" "[]" as]
  by (auto simp: catalog_expand_def appendPattern_def appendAll_def Let_def split: option.splits if_split_asm sum.splits)

lemma find_row:
  assumes "a \<in> cr_address ` set rows"
  obtains r where "List.find (\<lambda>r. cr_address r = a) rows = Some r" and "r \<in> set rows" and "cr_address r = a"
  using assms that
  by (cases "List.find (\<lambda>r. cr_address r = a) rows") (auto simp: find_None_iff find_Some_iff)

lemma split_rows_total:
  assumes ok: "view_ok view"
  shows "set as \<subseteq> cr_address ` set (cv_rows view) \<Longrightarrow>
    \<exists>events skips. split_rows view as = Some (events, skips)
     \<and> mset (map ca_address events) + mset (map se_address skips) = mset as
     \<and> (\<forall>e\<in>set events. ca_source e < length (cv_devices view)
          \<and> dr_path (cv_devices view ! ca_source e) = ca_device e \<and> ca_device e = devicePartOf (ca_address e))"
proof (induction as)
  case (Cons a as)
  then obtain events skips where ih: "split_rows view as = Some (events, skips)"
    "mset (map ca_address events) + mset (map se_address skips) = mset as"
    "\<forall>e\<in>set events. ca_source e < length (cv_devices view)
       \<and> dr_path (cv_devices view ! ca_source e) = ca_device e \<and> ca_device e = devicePartOf (ca_address e)" by auto
  have "a \<in> cr_address ` set (cv_rows view)" using Cons.prems by simp
  then obtain r where r: "List.find (\<lambda>r. cr_address r = a) (cv_rows view) = Some r" "r \<in> set (cv_rows view)" "cr_address r = a"
    by (rule find_row)
  show ?case
  proof (cases "cr_availability r = COUNTABLE")
    case True
    obtain d where "d \<in> set (cv_devices view)" "dr_path d = devicePartOf a" using ok r by (auto simp: view_ok_def)
    then obtain i where i: "sourceOf view (devicePartOf a) = Some i"
      unfolding sourceOf_def by (metis (mono_tags, lifting) index_of_None not_None_eq)
    have "i < length (cv_devices view)" "dr_path (cv_devices view ! i) = devicePartOf a"
      using index_of_Some [OF i [unfolded sourceOf_def]] by simp_all
    then show ?thesis using True ih r i by auto
  next
    case False
    then obtain k where "skippedKindOf (cr_availability r) = Some k" by (cases "cr_availability r") auto
    then show ?thesis using False ih r by auto
  qed
qed simp



end
