(* ===== verification/Hunt.thy ===== *)
theory Hunt
  imports Selection Passes Statistics
begin

text \<open>
  The hunt plan and the rank table (\<open>source/harness/hunt_plan.cpp\<close>, the records
  of \<open>include/speedgun-ng/hunt.hpp\<close>): which events share a pass, how often each stage repeats under the budgets,
  and in which order the measured events stand.  Unsigned 64-bit products wrap; a division by zero and a sort by a
  NaN key are undefined, so \<open>None\<close>.
\<close>

subsection \<open>Data\<close>

datatype hunt_norm = INSTR | CYCLE | ITER
datatype hunt_rank = RATE | CV | SENSITIVITY | DELTA
datatype budget_kind = B_SECONDS | B_PASSES

record hunt_budget =
  hb_kind :: budget_kind
  hb_amount :: u64

record hunt_options =
  ho_selection :: string
  ho_norm :: "hunt_norm option"
  ho_rank :: hunt_rank
  ho_top :: nat
  ho_noise :: binary64
  ho_repeats :: nat
  ho_seed :: u64
  ho_budget :: "hunt_budget option"
  ho_sampleBudgetNs :: "u64 option"
  ho_multiplexCap :: "nat option"
  ho_baseline :: string
  ho_emitRules :: string

record hunt_column =
  hc_event :: string
  hc_cycles :: string
  hc_instructions :: string
  hc_source :: nat

record sample_state =
  sm_derivedRepeats :: "nat option"
  sm_overBudget :: bool
  sm_unpriced :: bool

record hunt_stage =
  hs_columns :: "nat list"
  hs_repeats :: nat

record hunt_plan =
  hp_columns :: "hunt_column list"
  hp_passes :: "nat list list"
  hp_method :: "metric_method option"
  hp_stages :: "hunt_stage list"
  hp_estimateNs :: "nat option"
  hp_anchorsPerPass :: nat
  hp_normalized :: bool
  hp_sample :: sample_state
  hp_muxGroups :: "nat list"

definition fresh_sample :: sample_state where
  "fresh_sample = \<lparr>sm_derivedRepeats = None, sm_overBudget = False, sm_unpriced = False\<rparr>"

subsection \<open>The stages\<close>

definition kAnchorLeaves :: nat where "kAnchorLeaves = 2"
definition kStageTwoFactor :: nat where "kStageTwoFactor = 3"
definition kNanosecondsPerSecond :: nat where "kNanosecondsPerSecond = 1000000000"

function group_widths_from :: "nat \<Rightarrow> nat \<Rightarrow> nat \<Rightarrow> nat list" where
  "group_widths_from start cnt cap =
     (if start < cnt \<and> 0 < cap then min (cnt - start) cap # group_widths_from (start + cap) cnt cap else [])"
  by pat_completeness auto
termination by (relation "measure (\<lambda>(start, cnt, cap). cnt - start)") auto

declare group_widths_from.simps [simp del]

definition groupWidths :: "nat \<Rightarrow> nat option \<Rightarrow> nat list" where
  "groupWidths cnt cap =
     (case cap of None \<Rightarrow> [] | Some c \<Rightarrow> if c = 0 then [] else group_widths_from 0 cnt c)"

definition columnIndices :: "nat \<Rightarrow> nat list" where
  "columnIndices cnt = [0..<cnt]"

definition passRuns :: "nat list list \<Rightarrow> hunt_stage \<Rightarrow> nat" where
  "passRuns passes stage = length (filter (\<lambda>pass. list_ex (\<lambda>c. c \<in> set (hs_columns stage)) pass) passes)"

definition allowedPasses :: "hunt_budget \<Rightarrow> u64 option \<Rightarrow> nat option" where
  "allowedPasses budget calibrationNsPerPass =
     (if hb_kind budget = B_PASSES then Some (unat (hb_amount budget))
      else
        case calibrationNsPerPass of
          None \<Rightarrow> None
        | Some ns \<Rightarrow>
            if ns = 0 \<or> unat (hb_amount budget) > (2 ^ 64 - 1) div kNanosecondsPerSecond then None
            else Some (unat (hb_amount budget) * kNanosecondsPerSecond div unat ns))"

record stage_split =
  ss_stages :: "hunt_stage list"
  ss_sample :: sample_state
  ss_cutStage2 :: bool
  ss_cutReason :: string

text \<open>The repeats a bound leaves a stage and whether not one fits.\<close>

definition derive_repeats :: "nat \<Rightarrow> nat list list \<Rightarrow> hunt_stage \<Rightarrow> (nat \<times> bool) checked" where
  "derive_repeats bound passes stage =
     (let runs = passRuns passes stage
      in if runs = 0 then None
         else Some (min (hs_repeats stage) (max 1 (bound div runs)), bound div runs < 1))"

text \<open>\<open>price_stages\<close>: the sample budget on both stages, \<open>(first, second, state)\<close>.\<close>

definition price_stages ::
  "nat list list \<Rightarrow> hunt_options \<Rightarrow> u64 option \<Rightarrow> hunt_stage \<Rightarrow> hunt_stage \<Rightarrow>
   (hunt_stage \<times> hunt_stage \<times> sample_state) checked" where
  "price_stages passes options calibrationNsPerPass first second =
     (let budgeted = (ho_budget options \<noteq> None)
      in case (ho_sampleBudgetNs options, calibrationNsPerPass) of
           (None, _) \<Rightarrow> Some (first, second, fresh_sample)
         | (Some b, None) \<Rightarrow> Some (first, second, fresh_sample\<lparr>sm_unpriced := True\<rparr>)
         | (Some b, Some ns) \<Rightarrow>
             if ns = 0 then Some (first, second, fresh_sample\<lparr>sm_unpriced := True\<rparr>)
             else
               let bound = unat b div unat ns
               in case derive_repeats bound passes first of
                    None \<Rightarrow> None
                  | Some (r1, over1) \<Rightarrow>
                      if budgeted
                      then
                        (case derive_repeats bound passes second of
                           None \<Rightarrow> None
                         | Some (r2, over2) \<Rightarrow>
                             Some (first\<lparr>hs_repeats := r1\<rparr>, second\<lparr>hs_repeats := r2\<rparr>,
                               \<lparr>sm_derivedRepeats = Some r2, sm_overBudget = over1 \<or> over2, sm_unpriced = False\<rparr>))
                      else Some (first\<lparr>hs_repeats := r1\<rparr>, second,
                             \<lparr>sm_derivedRepeats = Some r1, sm_overBudget = over1, sm_unpriced = False\<rparr>))"

definition split_ensures :: "nat \<Rightarrow> nat \<Rightarrow> hunt_options \<Rightarrow> stage_split \<Rightarrow> nat \<Rightarrow> nat \<Rightarrow> bool" where
  "split_ensures cnt width options split derivedFirst derivedSecond \<longleftrightarrow>
     length (ss_stages split) = (if ho_budget options \<noteq> None \<and> \<not> ss_cutStage2 split then 2 else 1)
     \<and> length (hs_columns (hd (ss_stages split))) = cnt \<and> hs_repeats (hd (ss_stages split)) = derivedFirst
     \<and> derivedFirst \<le> (if ho_budget options \<noteq> None then 1 else ho_repeats options) \<and> 1 \<le> derivedFirst
     \<and> (length (ss_stages split) \<noteq> 1 \<longrightarrow>
          length (hs_columns (ss_stages split ! 1)) = width \<and> hs_repeats (ss_stages split ! 1) = derivedSecond
          \<and> derivedSecond \<le> ho_repeats options \<and> 1 \<le> derivedSecond)
     \<and> (ss_cutStage2 split \<longrightarrow> ss_cutReason split \<noteq> [])"

definition splitStages :: "nat \<Rightarrow> nat list list \<Rightarrow> hunt_options \<Rightarrow> u64 option \<Rightarrow> stage_split checked" where
  "splitStages cnt passes options calibrationNsPerPass =
     (if cnt = 0 \<or> \<not> (0 < ho_top options \<and> 0 < ho_repeats options) then None
      else
        let budgeted = (ho_budget options \<noteq> None);
            width = min (kStageTwoFactor * ho_top options) cnt
        in case price_stages passes options calibrationNsPerPass
                  \<lparr>hs_columns = columnIndices cnt, hs_repeats = (if budgeted then 1 else ho_repeats options)\<rparr>
                  \<lparr>hs_columns = columnIndices width, hs_repeats = ho_repeats options\<rparr> of
             None \<Rightarrow> None
           | Some (first, second, sample) \<Rightarrow>
               let over = (case ho_budget options of
                             None \<Rightarrow> False
                           | Some b \<Rightarrow>
                               (case allowedPasses b calibrationNsPerPass of
                                  None \<Rightarrow> True
                                | Some allowed \<Rightarrow>
                                    passRuns passes first * hs_repeats first + passRuns passes second * hs_repeats second > allowed));
                   split = \<lparr>ss_stages = (if budgeted \<and> \<not> over then [first, second] else [first]),
                            ss_sample = sample, ss_cutStage2 = over, ss_cutReason = (if over then ''over-budget'' else [])\<rparr>
               in if split_ensures cnt width options split (hs_repeats first) (hs_repeats second) then Some split else None)"

subsection \<open>The plan\<close>

definition refusal_of :: "string \<Rightarrow> error" where
  "refusal_of m = plain_error m"

text \<open>The norm checks and the column of one event whose device admits it.\<close>

definition anchored_column ::
  "hunt_options \<Rightarrow> catalog_address \<Rightarrow> string \<Rightarrow> string \<Rightarrow> (hunt_column \<times> column_ask) expected" where
  "anchored_column options entry cycles instructions =
     (if ho_norm options = Some INSTR \<and> instructions = []
      then Inl (refusal_of (''hunt: norm '' @ quoted ''instr'' @ '' needs the instructions anchor of device ''
             @ quoted (ca_device entry) @ '', which the device does not publish''))
      else if ho_norm options = Some CYCLE \<and> cycles = []
      then Inl (refusal_of (''hunt: norm '' @ quoted ''cycle'' @ '' needs the cpu-cycles anchor of device ''
             @ quoted (ca_device entry) @ '', which the device does not publish''))
      else Inr (\<lparr>hc_event = ca_address entry, hc_cycles = cycles, hc_instructions = instructions, hc_source = ca_source entry\<rparr>,
             [\<lparr>cl_source = ca_source entry, cl_addresses = ca_address entry
                 # (if cycles = [] then [] else [cycles]) @ (if instructions = [] then [] else [instructions])\<rparr>]))"

definition plan_column ::
  "nat option list \<Rightarrow> (string \<times> string) list \<Rightarrow> hunt_options \<Rightarrow> catalog_address \<Rightarrow> (hunt_column \<times> column_ask) expected" where
  "plan_column sourceLimits anchors options entry =
     (if length sourceLimits \<le> ca_source entry
      then Inl (refusal_of (''hunt: event '' @ quoted (ca_address entry) @ '' names counter source '' @ decimal (ca_source entry)
             @ '' of a limit list that holds '' @ decimal (length sourceLimits) @ '' devices''))
      else
        let (cycles, instructions) = anchors ! ca_source entry
        in case sourceLimits ! ca_source entry of
             None \<Rightarrow> anchored_column options entry cycles instructions
           | Some limit \<Rightarrow>
               if \<not> admitsHuntEvent limit then Inl (refusal_of (deviceLimitCause (ca_device entry) limit))
               else anchored_column options entry cycles instructions)"

fun plan_columns ::
  "nat option list \<Rightarrow> (string \<times> string) list \<Rightarrow> hunt_options \<Rightarrow> catalog_address list \<Rightarrow>
   (hunt_column \<times> column_ask) list expected" where
  "plan_columns sourceLimits anchors options [] = Inr []"
| "plan_columns sourceLimits anchors options (e # es) =
     (case plan_column sourceLimits anchors options e of
        Inl er \<Rightarrow> Inl er
      | Inr c \<Rightarrow> (case plan_columns sourceLimits anchors options es of Inl er \<Rightarrow> Inl er | Inr cs \<Rightarrow> Inr (c # cs)))"

fun mux_passes :: "nat \<Rightarrow> nat list \<Rightarrow> nat list list" where
  "mux_passes start [] = []"
| "mux_passes start (w # ws) = [start..<start + w] # mux_passes (start + w) ws"

text \<open>The passes of a plan with columns, and the widths of its groups.\<close>

definition seat_passes ::
  "column_ask list \<Rightarrow> nat option list \<Rightarrow> nat option \<Rightarrow> (nat list list \<times> nat list) checked" where
  "seat_passes asks sourceLimits cap =
     (case planPasses asks sourceLimits of
        None \<Rightarrow> None
      | Some passPlan \<Rightarrow>
          if pp_columns passPlan = []
          then
            let groups = groupWidths (length asks) cap
            in Some (if groups = [] then [columnIndices (length asks)] else mux_passes 0 groups, groups)
          else Some (pp_columns passPlan, []))"

definition seats_once :: "nat \<Rightarrow> nat list list \<Rightarrow> bool" where
  "seats_once n passes \<longleftrightarrow> distinct (concat passes) \<and> list_all (\<lambda>c. c < n) (concat passes) \<and> length (concat passes) = n"

definition planHunt ::
  "catalog_address list \<Rightarrow> nat option list \<Rightarrow> (string \<times> string) list \<Rightarrow> hunt_options \<Rightarrow> u64 option \<Rightarrow>
   hunt_plan expected checked" where
  "planHunt events sourceLimits anchors options calibrationNsPerPass =
     (if length sourceLimits \<noteq> length anchors then None
      else
        case plan_columns sourceLimits anchors options events of
          Inl er \<Rightarrow> Some (Inl er)
        | Inr planned \<Rightarrow>
            let columns = map fst planned; asks = map snd planned;
                anyLimit = list_ex (\<lambda>c. sourceLimits ! hc_source c \<noteq> None) columns;
                anchored = (columns \<noteq> [] \<and> list_all (\<lambda>c. hc_cycles c \<noteq> [] \<and> hc_instructions c \<noteq> []) columns);
                perPass = (if anchored then kAnchorLeaves else 0);
                bare = \<lparr>hp_columns = columns, hp_passes = [], hp_method = Some (settleMethod AUTO anyLimit (length columns)),
                        hp_stages = [], hp_estimateNs = None, hp_anchorsPerPass = perPass,
                        hp_normalized = (perPass = kAnchorLeaves), hp_sample = fresh_sample, hp_muxGroups = []\<rparr>
            in if columns = [] then Some (Inr bare)
               else
                 (case seat_passes asks sourceLimits (ho_multiplexCap options) of
                    None \<Rightarrow> None
                  | Some (passes, groups) \<Rightarrow>
                      (case splitStages (length columns) passes options calibrationNsPerPass of
                         None \<Rightarrow> None
                       | Some split \<Rightarrow>
                           if seats_once (length columns) passes
                           then Some (Inr (bare\<lparr>hp_passes := passes, hp_stages := ss_stages split, hp_sample := ss_sample split,
                                  hp_muxGroups := groups,
                                  hp_estimateNs := map_option (\<lambda>ns.
                                    unat ns * length passes * hs_repeats (hd (ss_stages split)) mod 2 ^ 64) calibrationNsPerPass\<rparr>))
                           else None)))"

subsection \<open>Rates\<close>

record hunt_sample =
  hx_pass :: nat
  hx_stage :: nat
  hx_eventValue :: u64
  hx_anchorInstr :: "u64 option"
  hx_anchorCycle :: "u64 option"
  hx_iterations :: u64
  hx_disclosure :: "availability option"

record event_samples =
  es_address :: string
  es_samples :: "hunt_sample list"
  es_skipped :: "skipped_kind option"

record ranked_event =
  re_address :: string
  re_rate :: binary64
  re_cv :: binary64
  re_samples :: nat
  re_noisy :: bool
  re_repeated :: bool
  re_multiplexed :: bool
  re_rank :: "nat option"
  re_sensitivityCorrelation :: "binary64 option"
  re_sensitivitySlope :: "binary64 option"
  re_delta :: "binary64 option"
  re_topdownArea :: string

record entry_hunt =
  eh_method :: "metric_method option"
  eh_passCount :: nat
  eh_top :: nat
  eh_entries :: "ranked_event list"
  eh_skipped :: "skipped_event list"
  eh_retriedPasses :: nat

definition thousand64 :: binary64 where "thousand64 = of_nat64 1000"

definition rateOf :: "hunt_sample \<Rightarrow> hunt_norm \<Rightarrow> binary64 option checked" where
  "rateOf sample nrm =
     (if hx_disclosure sample \<noteq> None then None
      else
        let counted = of_u64 (hx_eventValue sample)
        in case nrm of
             INSTR \<Rightarrow>
               (case hx_anchorInstr sample of
                  None \<Rightarrow> Some None
                | Some a \<Rightarrow> if a = 0 then Some None else Some (Some (dmul (ddiv counted (of_u64 a)) thousand64)))
           | CYCLE \<Rightarrow>
               (case hx_anchorCycle sample of
                  None \<Rightarrow> Some None
                | Some a \<Rightarrow> if a = 0 then Some None else Some (Some (dmul (ddiv counted (of_u64 a)) thousand64)))
           | ITER \<Rightarrow>
               if hx_iterations sample = 0 then Some None
               else Some (Some (ddiv counted (of_u64 (hx_iterations sample)))))"

fun rates_of :: "hunt_sample list \<Rightarrow> hunt_norm \<Rightarrow> binary64 list checked" where
  "rates_of [] nrm = Some []"
| "rates_of (s # ss) nrm =
     (if hx_disclosure s \<noteq> None then rates_of ss nrm
      else
        case (rateOf s nrm, rates_of ss nrm) of
          (Some (Some r), Some rs) \<Rightarrow> Some (r # rs)
        | (Some None, Some rs) \<Rightarrow> Some rs
        | _ \<Rightarrow> None)"

subsection \<open>The rank table\<close>

definition unranked :: "string \<Rightarrow> nat \<Rightarrow> bool \<Rightarrow> ranked_event" where
  "unranked addr n multiplexed =
     \<lparr>re_address = addr, re_rate = zero64, re_cv = zero64, re_samples = n, re_noisy = False, re_repeated = False,
      re_multiplexed = multiplexed, re_rank = None, re_sensitivityCorrelation = None, re_sensitivitySlope = None,
      re_delta = None, re_topdownArea = []\<rparr>"

definition rank_row :: "hunt_norm \<Rightarrow> binary64 \<Rightarrow> bool \<Rightarrow> event_samples \<Rightarrow> ranked_event checked" where
  "rank_row nrm noise multiplexed event =
     (case rates_of (es_samples event) nrm of
        None \<Rightarrow> None
      | Some rates \<Rightarrow>
          if rates = [] \<and> es_skipped event = None then None
          else
            let entry = unranked (es_address event) (length rates) multiplexed
            in if length rates > 1
               then map_option (\<lambda>stats.
                      let cv = dmul hundred64 (st_coefficientOfVariation stats)
                      in entry\<lparr>re_rate := st_median stats, re_cv := cv, re_noisy := dless noise cv, re_repeated := True\<rparr>)
                    (statisticsOf rates)
               else if rates \<noteq> [] then Some (entry\<lparr>re_rate := hd rates\<rparr>)
               else Some entry)"

fun rank_rows :: "hunt_norm \<Rightarrow> binary64 \<Rightarrow> bool \<Rightarrow> event_samples list \<Rightarrow> ranked_event list checked" where
  "rank_rows nrm noise multiplexed [] = Some []"
| "rank_rows nrm noise multiplexed (e # es) =
     (case (rank_row nrm noise multiplexed e, rank_rows nrm noise multiplexed es) of
        (Some r, Some rs) \<Rightarrow> Some (r # rs)
      | _ \<Rightarrow> None)"

definition rank_key :: "hunt_rank \<Rightarrow> ranked_event \<Rightarrow> binary64" where
  "rank_key rank e = (if rank = RATE then re_rate e else re_cv e)"

text \<open>The comparator: the greater rate or the smaller deviation first, then the address.\<close>

definition rank_before :: "hunt_rank \<Rightarrow> ranked_event \<Rightarrow> ranked_event \<Rightarrow> bool" where
  "rank_before rank l r =
     (if rank = RATE
      then (if dless (re_rate r) (re_rate l) then True
            else if dless (re_rate l) (re_rate r) then False else re_address l < re_address r)
      else (if dless (re_cv l) (re_cv r) then True
            else if dless (re_cv r) (re_cv l) then False else re_address l < re_address r))"

definition ranks_clean :: "ranked_event \<Rightarrow> bool" where
  "ranks_clean e \<longleftrightarrow> \<not> re_noisy e \<and> re_repeated e"

definition stamp_ranks :: "nat list \<Rightarrow> ranked_event list \<Rightarrow> ranked_event list" where
  "stamp_ranks ranked entries =
     fold (\<lambda>position es. es[ranked ! position := (es ! (ranked ! position))\<lparr>re_rank := Some (position + 1)\<rparr>])
       [0..<length ranked] entries"

definition rankEvents ::
  "event_samples list \<Rightarrow> hunt_options \<Rightarrow> metric_method option \<Rightarrow> entry_hunt checked" where
  "rankEvents collected options method =
     (if \<not> (0 < ho_top options \<and> dless zero64 (ho_noise options)) then None
      else
        let nrm = (case ho_norm options of None \<Rightarrow> INSTR | Some n \<Rightarrow> n);
            multiplexed = (method = Some MULTIPLEX)
        in case rank_rows nrm (ho_noise options) multiplexed collected of
             None \<Rightarrow> None
           | Some entries \<Rightarrow>
               let clean = filter (\<lambda>i. ranks_clean (entries ! i)) [0..<length entries];
                   skipped = concat (map (\<lambda>e. case es_skipped e of None \<Rightarrow> []
                       | Some k \<Rightarrow> [\<lparr>se_address = es_address e, se_kind = k\<rparr>]) collected)
               in if list_ex (\<lambda>i. rank_key (ho_rank options) (entries ! i) = NaN) clean then None
                  else
                    let ranked = sort_by (\<lambda>l r. rank_before (ho_rank options) (entries ! l) (entries ! r)) clean;
                        cnt = min (ho_top options) (length ranked);
                        stamped = stamp_ranks (take cnt ranked) entries;
                        tail = sort_by (\<lambda>l r. re_address (entries ! l) < re_address (entries ! r))
                          (drop cnt ranked @ filter (\<lambda>i. \<not> ranks_clean (entries ! i)) [0..<length entries]);
                        ordered = map (\<lambda>i. stamped ! i) (take cnt ranked @ tail)
                    in if distinct (map re_address ordered) \<and> distinct (map se_address skipped)
                          \<and> length ordered = length collected \<and> list_all (\<lambda>e. re_multiplexed e = multiplexed) ordered
                       then Some \<lparr>eh_method = method, eh_passCount = 0, eh_top = ho_top options, eh_entries = ordered,
                              eh_skipped = skipped, eh_retriedPasses = 0\<rparr>
                       else None)"

definition toCounterSet :: "entry_hunt \<Rightarrow> nat \<Rightarrow> string list" where
  "toCounterSet hunt topN =
     take topN (map snd (sort_by (\<lambda>l r. fst l < fst r \<or> fst l = fst r \<and> snd l < snd r)
       (concat (map (\<lambda>e. case re_rank e of None \<Rightarrow> [] | Some r \<Rightarrow> [(r, re_address e)]) (eh_entries hunt)))))"

end
