(* ===== verification/Hunt_Facts.thy ===== *)
theory Hunt_Facts
  imports Hunt
begin

text \<open>
  What the hunt promises: a plan seats every column in exactly one pass within every published limit, its stages
  keep to the budgets, and the rank table is a function of the set of measured events.
\<close>

subsection \<open>Groups of a multiplexed window\<close>

lemma group_widths_cover:
  "0 < cap \<Longrightarrow> start \<le> n \<Longrightarrow> concat (mux_passes start (group_widths_from start n cap)) = [start..<n]
     \<and> (\<forall>w\<in>set (group_widths_from start n cap). 0 < w \<and> w \<le> cap)"
proof (induction start n cap rule: group_widths_from.induct)
  case (1 start n cap)
  show ?case
  proof (cases "start < n \<and> 0 < cap")
    case True
    show ?thesis
    proof (cases "start + cap \<le> n")
      case le: True
      then have "[start..<start + cap] @ [start + cap..<n] = [start..<n]" by (metis le_add1 upt_add_eq_append le_add_diff_inverse)
      moreover have "min (n - start) cap = cap" using le True by simp
      ultimately show ?thesis using "1.IH" [OF True _ le] True by (subst (1 2) group_widths_from.simps) simp
    next
      case False
      then have "min (n - start) cap = n - start" "group_widths_from (start + cap) n cap = []"
        by (simp_all add: group_widths_from.simps [of "start + cap"])
      then show ?thesis using True False by (subst (1 2) group_widths_from.simps) simp
    qed
  next
    case False
    then show ?thesis using 1 by (subst (1 2) group_widths_from.simps) auto
  qed
qed

subsection \<open>Every column in one pass\<close>

lemma seated_once:
  assumes "seated cols limits (length cols) columns exclusive measuring"
  shows "seats_once (length cols) columns" and "set (concat columns) = {..<length cols}"
proof -
  note d = seatedD [OF assms]
  have part: "set (columns ! p) = {c. c < length cols \<and> measuring ! c = p}" if "p < length columns" for p by (rule d(4) [OF that])
  show sets: "set (concat columns) = {..<length cols}"
  proof
    show "set (concat columns) \<subseteq> {..<length cols}"
    proof
      fix c assume "c \<in> set (concat columns)"
      then obtain p where "p < length columns" "c \<in> set (columns ! p)" unfolding set_concat by (metis UN_E in_set_conv_nth)
      then show "c \<in> {..<length cols}" using part by simp
    qed
    show "{..<length cols} \<subseteq> set (concat columns)"
    proof
      fix c assume c: "c \<in> {..<length cols}"
      then have "measuring ! c < length columns" using d(3) by simp
      moreover from this have "c \<in> set (columns ! (measuring ! c))" using part c by simp
      ultimately show "c \<in> set (concat columns)" unfolding set_concat by (metis UN_I nth_mem)
    qed
  qed
  have dp: "distinct (columns ! p)" if "p < length columns" for p
    using d(5) [OF that] strict_sorted_iff by blast
  have "p = q" if "p < length columns" "q < length columns" "set (columns ! p) \<inter> set (columns ! q) \<noteq> {}" for p q
    using part that by auto
  moreover have "columns ! p \<noteq> []" if "p < length columns" for p using d(5) [OF that] by simp
  ultimately have "distinct columns" unfolding distinct_conv_nth by (metis inf.idem set_empty)
  have "distinct (concat columns)"
    unfolding distinct_concat_iff
  proof (intro conjI ballI allI impI)
    show "distinct (removeAll [] columns)" using \<open>distinct columns\<close> by (rule distinct_removeAll)
    show "distinct ys" if "ys \<in> set columns" for ys using that dp by (auto simp: in_set_conv_nth)
    show "set ys \<inter> set zs = {}" if "ys \<in> set columns \<and> zs \<in> set columns \<and> ys \<noteq> zs" for ys zs
      using that part by (auto simp: in_set_conv_nth)
  qed
  moreover from distinct_card [OF this] sets have "length (concat columns) = length cols" by simp
  ultimately show "seats_once (length cols) columns" using sets by (auto simp: seats_once_def list_all_iff)
qed

subsection \<open>The plan\<close>

text \<open>What a column asks of its device.\<close>

definition hunt_ask :: "hunt_column \<Rightarrow> column_ask" where
  "hunt_ask c =
     [\<lparr>cl_source = hc_source c, cl_addresses = hc_event c # (if hc_cycles c = [] then [] else [hc_cycles c])
         @ (if hc_instructions c = [] then [] else [hc_instructions c])\<rparr>]"

lemma plan_column_Inr:
  assumes "plan_column limits anchors options e = Inr (c, ask)"
  shows "ask = hunt_ask c" and "hc_event c = ca_address e" and "hc_source c = ca_source e" and "ca_source e < length limits"
    and "limits ! hc_source c = Some l \<Longrightarrow> 3 \<le> l"
  using assms
  by (auto simp: plan_column_def anchored_column_def hunt_ask_def admitsHuntEvent_def kHuntPassSlots_def
      split: if_split_asm option.splits prod.splits)

lemma plan_columns_Inr:
  "plan_columns limits anchors options es = Inr planned \<Longrightarrow>
   map snd planned = map hunt_ask (map fst planned) \<and> map (\<lambda>c. hc_event (fst c)) planned = map ca_address es
   \<and> (\<forall>c\<in>set (map fst planned). hc_source c < length limits \<and> (\<forall>l. limits ! hc_source c = Some l \<longrightarrow> 3 \<le> l))"
proof (induction es arbitrary: planned)
  case (Cons e es)
  obtain c ask cs where c: "plan_column limits anchors options e = Inr (c, ask)"
    and cs: "plan_columns limits anchors options es = Inr cs" and p: "planned = (c, ask) # cs"
    using Cons.prems by (auto split: sum.splits)
  show ?case using Cons.IH [OF cs] plan_column_Inr [OF c] by (auto simp: p)
qed simp

lemma plan_columns_Inl:
  "plan_columns limits anchors options es = Inl er \<Longrightarrow> \<exists>e\<in>set es. plan_column limits anchors options e = Inl er"
  by (induction es) (auto split: sum.splits)

lemma hunt_column_alone:
  assumes "hc_source c < length limits" and "\<And>l. limits ! hc_source c = Some l \<Longrightarrow> 3 \<le> l"
    and "i < length cs" and "cs ! i = c"
  shows "in_limits (map hunt_ask cs) limits {i}"
  unfolding in_limits_def
proof (intro allI impI)
  fix s l assume s: "s < length limits" "limits ! s = Some l"
  have n: "need (map hunt_ask cs) s {i} = (if hc_source c = s then set (cl_addresses (hd (hunt_ask c))) else {})"
    using assms(3,4) by (auto simp: need_def column_need_def hunt_ask_def)
  have "card (set (cl_addresses (hd (hunt_ask c)))) \<le> length (cl_addresses (hd (hunt_ask c)))" by (rule card_length)
  also have "\<dots> \<le> 3" by (simp add: hunt_ask_def)
  finally show "card (need (map hunt_ask cs) s {i}) \<le> l" using assms(2) [of l] s unfolding n by auto
qed

lemma seat_passes_total:
  assumes "cs \<noteq> []" and ok: "\<forall>c\<in>set cs. hc_source c < length limits \<and> (\<forall>l. limits ! hc_source c = Some l \<longrightarrow> 3 \<le> l)"
  obtains passes groups where "seat_passes (map hunt_ask cs) limits cap = Some (passes, groups)"
    and "seats_once (length cs) passes" and "set (concat passes) = {..<length cs}"
    and "\<forall>p\<in>set passes. in_limits (map hunt_ask cs) limits (set p)"
    and "(\<forall>l\<in>set limits. l = None) \<longrightarrow> (case cap of None \<Rightarrow> passes = [[0..<length cs]]
          | Some g \<Rightarrow> g \<noteq> 0 \<longrightarrow> (\<forall>p\<in>set passes. length p \<le> g) \<and> concat passes = [0..<length cs])"
proof -
  let ?asks = "map hunt_ask cs"
  have priced: "everyGroupNamesPricedSource ?asks limits"
    using ok by (auto simp: everyGroupNamesPricedSource_def list_all_iff hunt_ask_def)
  show ?thesis
  proof (cases "\<exists>l\<in>set limits. l \<noteq> None")
    case True
    obtain plan where p: "planPasses ?asks limits = Some plan"
      "seated ?asks limits (length ?asks) (pp_columns plan) (pp_exclusive plan) (pp_measuringPass plan)"
      using planPasses_plan [OF priced True] by blast
    note d = seatedD [OF p(2)] and once = seated_once [OF p(2)]
    have ne: "pp_columns plan \<noteq> []" using once(2) assms(1) by auto
    have "in_limits ?asks limits (set pass)" if "pass \<in> set (pp_columns plan)" for pass
    proof -
      obtain k where k: "k < length (pp_columns plan)" "pass = pp_columns plan ! k"
        using \<open>pass \<in> set (pp_columns plan)\<close> by (metis in_set_conv_nth)
      show ?thesis
      proof (cases "pp_exclusive plan ! k")
        case True
        then obtain i where i: "pass = [i]" using d(7) [OF k(1)] k(2) by (auto simp: length_Suc_conv)
        then have "i < length cs" using once(2) that by force
        then have "cs ! i \<in> set cs" by simp
        then have "hc_source (cs ! i) < length limits" "\<forall>l. limits ! hc_source (cs ! i) = Some l \<longrightarrow> 3 \<le> l"
          using ok by blast+
        then have "in_limits ?asks limits {i}" using \<open>i < length cs\<close> by (intro hunt_column_alone [of "cs ! i"]) simp_all
        then show ?thesis by (simp add: i)
      next
        case False
        then show ?thesis using d(6) [OF k(1)] k(2) by simp
      qed
    qed
    then show ?thesis
      using that [of "pp_columns plan" "[]"] once ne True by (auto simp: seat_passes_def p(1))
  next
    case False
    then have none: "\<forall>l\<in>set limits. l = None" by blast
    have pp: "planPasses ?asks limits = Some empty_plan"
      using priced none by (auto simp: planPasses_def list_ex_iff)
    let ?groups = "groupWidths (length cs) cap"
    let ?passes = "if ?groups = [] then [columnIndices (length cs)] else mux_passes 0 ?groups"
    have s: "seat_passes ?asks limits cap = Some (?passes, ?groups)"
      by (simp add: seat_passes_def pp empty_plan_def Let_def)
    have lim: "in_limits ?asks limits C" for C
      unfolding in_limits_def by (metis none nth_mem option.discI)
    have cover: "concat ?passes = [0..<length cs] \<and> (case cap of None \<Rightarrow> ?passes = [[0..<length cs]]
        | Some g \<Rightarrow> g \<noteq> 0 \<longrightarrow> (\<forall>p\<in>set ?passes. length p \<le> g))"
    proof (cases cap)
      case None
      then show ?thesis by (simp add: groupWidths_def columnIndices_def)
    next
      case (Some g)
      show ?thesis
      proof (cases "g = 0")
        case True
        then show ?thesis using Some by (simp add: groupWidths_def columnIndices_def)
      next
        case False
        then have g: "0 < g" by simp
        note gw = group_widths_cover [OF g, of 0 "length cs"]
        have "[0..<length cs] \<noteq> []" using assms(1) by simp
        then have ne: "group_widths_from 0 (length cs) g \<noteq> []" using gw by (metis concat.simps(1) le0 mux_passes.simps(1))
        have "length p \<le> g" if "p \<in> set (mux_passes k ws)" "\<forall>w\<in>set ws. w \<le> g" for p k ws
          using that by (induction ws arbitrary: k) auto
        then show ?thesis using gw ne g by (simp add: Some groupWidths_def)
      qed
    qed
    then have "seats_once (length cs) ?passes" "set (concat ?passes) = {..<length cs}"
      by (auto simp: seats_once_def list_all_iff)
    then show ?thesis using that [OF s] lim cover by (auto split: option.splits)
  qed
qed

lemma seats_once_unique:
  assumes "seats_once n passes" and "c < n" and "set (concat passes) = {..<n}"
  shows "\<exists>!p. p < length passes \<and> c \<in> set (passes ! p)"
proof -
  have "c \<in> set (concat passes)" using assms by simp
  then obtain p where p: "p < length passes" "c \<in> set (passes ! p)" unfolding set_concat by (metis UN_E in_set_conv_nth)
  have d: "distinct (concat passes)" using assms(1) by (simp add: seats_once_def)
  have "q = p" if q: "q < length passes" "c \<in> set (passes ! q)" for q
  proof (rule ccontr)
    assume "q \<noteq> p"
    then consider "q < p" | "p < q" by linarith
    then have "\<exists>i j. i < j \<and> j < length passes \<and> c \<in> set (passes ! i) \<and> c \<in> set (passes ! j)"
      using p q by cases blast+
    then obtain i j where ij: "i < j" "j < length passes" "c \<in> set (passes ! i)" "c \<in> set (passes ! j)" by blast
    have "passes = take j passes @ passes ! j # drop (Suc j) passes" using ij(2) by (rule id_take_nth_drop)
    then have "distinct (concat (take j passes) @ concat (passes ! j # drop (Suc j) passes))" using d by (metis concat_append)
    moreover have "passes ! i \<in> set (take j passes)"
      using nth_mem [of i "take j passes"] ij(1,2) by simp
    then have "c \<in> set (concat (take j passes))" using ij(3) by auto
    ultimately show False using ij(4) by auto
  qed
  with p show ?thesis by blast
qed

subsection \<open>The stages\<close>

lemma passRuns_pos:
  assumes "set (concat passes) = {..<n}" and "0 < n" and "0 \<in> set (hs_columns stage)"
  shows "0 < passRuns passes stage"
proof -
  have "0 \<in> set (concat passes)" using assms by simp
  then obtain pass where "pass \<in> set passes" "0 \<in> set pass" by auto
  then have "pass \<in> set (filter (\<lambda>pass. list_ex (\<lambda>c. c \<in> set (hs_columns stage)) pass) passes)"
    using assms(3) by (auto simp: list_ex_iff)
  then show ?thesis unfolding passRuns_def by (rule length_pos_if_in_set)
qed

lemma derive_repeats_bounds:
  assumes "0 < passRuns passes stage" and "0 < hs_repeats stage"
  obtains r over where "derive_repeats bound passes stage = Some (r, over)" and "1 \<le> r" and "r \<le> hs_repeats stage"
    and "\<not> over \<longrightarrow> passRuns passes stage * r \<le> bound"
proof -
  let ?n = "passRuns passes stage"
  let ?r = "min (hs_repeats stage) (max 1 (bound div ?n))"
  have "?n * ?r \<le> bound" if "\<not> bound div ?n < 1"
  proof -
    have "?r \<le> bound div ?n" using that by simp
    then have "?n * ?r \<le> ?n * (bound div ?n)" by simp
    then show ?thesis using times_div_less_eq_dividend [of ?n bound] by linarith
  qed
  then show ?thesis
    using that [of ?r "bound div ?n < 1"] assms unfolding derive_repeats_def Let_def by simp
qed

text \<open>What a split of \<open>n\<close> columns over \<open>passes\<close> keeps of its options.\<close>

definition split_kept :: "nat \<Rightarrow> nat list list \<Rightarrow> hunt_options \<Rightarrow> u64 option \<Rightarrow> stage_split \<Rightarrow> bool" where
  "split_kept n passes options cal split \<longleftrightarrow>
     ss_stages split \<noteq> [] \<and> hs_columns (hd (ss_stages split)) = [0..<n]
     \<and> (\<forall>stage\<in>set (ss_stages split). 1 \<le> hs_repeats stage \<and> hs_repeats stage \<le> ho_repeats options)
     \<and> (ss_cutStage2 split \<longleftrightarrow> ho_budget options \<noteq> None \<and> length (ss_stages split) = 1)
     \<and> (ho_budget options = None \<longrightarrow> length (ss_stages split) = 1)
     \<and> (length (ss_stages split) \<noteq> 1 \<longrightarrow> (\<exists>second b allowed. tl (ss_stages split) = [second]
          \<and> hs_columns second = [0..<min (3 * ho_top options) n] \<and> hs_repeats (hd (ss_stages split)) = 1
          \<and> ho_budget options = Some b \<and> allowedPasses b cal = Some allowed
          \<and> passRuns passes (hd (ss_stages split)) + passRuns passes second * hs_repeats second \<le> allowed))
     \<and> (\<forall>budget ns. ho_sampleBudgetNs options = Some budget \<longrightarrow> cal = Some ns \<longrightarrow> ns \<noteq> 0 \<longrightarrow> \<not> sm_overBudget (ss_sample split) \<longrightarrow>
          (\<forall>stage\<in>set (ss_stages split). passRuns passes stage * hs_repeats stage * unat ns \<le> unat budget))"

definition stage_ok :: "nat list list \<Rightarrow> hunt_options \<Rightarrow> u64 option \<Rightarrow> sample_state \<Rightarrow> hunt_stage \<Rightarrow> hunt_stage \<Rightarrow> bool" where
  "stage_ok passes options cal sample rule stage \<longleftrightarrow>
     hs_columns stage = hs_columns rule \<and> 1 \<le> hs_repeats stage \<and> hs_repeats stage \<le> hs_repeats rule
     \<and> (\<forall>budget ns. ho_sampleBudgetNs options = Some budget \<longrightarrow> cal = Some ns \<longrightarrow> ns \<noteq> 0 \<longrightarrow> \<not> sm_overBudget sample \<longrightarrow>
          passRuns passes stage * hs_repeats stage * unat ns \<le> unat budget)"

lemma price_stages_total:
  assumes "0 < passRuns passes r1" "0 < hs_repeats r1" "0 < passRuns passes r2" "0 < hs_repeats r2"
  shows "\<exists>first second sample. price_stages passes options cal r1 r2 = Some (first, second, sample)
    \<and> stage_ok passes options cal sample r1 first
    \<and> (if ho_budget options = None then second = r2 else stage_ok passes options cal sample r2 second)"
proof -
  have runs: "passRuns passes (r\<lparr>hs_repeats := k\<rparr>) = passRuns passes r" for r k by (simp add: passRuns_def)
  show ?thesis
  proof (cases "\<exists>b ns. ho_sampleBudgetNs options = Some b \<and> cal = Some ns \<and> ns \<noteq> 0")
    case False
    obtain sample where "price_stages passes options cal r1 r2 = Some (r1, r2, sample)"
    proof (cases "ho_sampleBudgetNs options")
      case None
      then show ?thesis using that by (simp add: price_stages_def)
    next
      case (Some b)
      then show ?thesis using that False by (cases cal) (simp_all add: price_stages_def)
    qed
    moreover have "stage_ok passes options cal sample r1 r1" "stage_ok passes options cal sample r2 r2"
      using False assms(2,4) by (auto simp: stage_ok_def)
    ultimately show ?thesis by auto
  next
    case True
    then obtain b ns where bn: "ho_sampleBudgetNs options = Some b" "cal = Some ns" "ns \<noteq> 0" by blast
    let ?bound = "unat b div unat ns"
    obtain k1 o1 where d1: "derive_repeats ?bound passes r1 = Some (k1, o1)" "1 \<le> k1" "k1 \<le> hs_repeats r1"
      "\<not> o1 \<longrightarrow> passRuns passes r1 * k1 \<le> ?bound" by (rule derive_repeats_bounds [OF assms(1,2)])
    obtain k2 o2 where d2: "derive_repeats ?bound passes r2 = Some (k2, o2)" "1 \<le> k2" "k2 \<le> hs_repeats r2"
      "\<not> o2 \<longrightarrow> passRuns passes r2 * k2 \<le> ?bound" by (rule derive_repeats_bounds [OF assms(3,4)])
    have scale: "m * unat ns \<le> unat b" if "m \<le> ?bound" for m
      using mult_le_mono1 [OF that, of "unat ns"] div_times_less_eq_dividend [of "unat b" "unat ns"] by linarith
    show ?thesis
    proof (cases "ho_budget options = None")
      case True
      then have "price_stages passes options cal r1 r2
          = Some (r1\<lparr>hs_repeats := k1\<rparr>, r2, \<lparr>sm_derivedRepeats = Some k1, sm_overBudget = o1, sm_unpriced = False\<rparr>)"
        by (simp add: price_stages_def bn d1(1))
      moreover have "stage_ok passes options cal \<lparr>sm_derivedRepeats = Some k1, sm_overBudget = o1, sm_unpriced = False\<rparr> r1
          (r1\<lparr>hs_repeats := k1\<rparr>)"
        using d1 scale by (auto simp: stage_ok_def bn runs)
      ultimately show ?thesis using True by auto
    next
      case False
      let ?s = "\<lparr>sm_derivedRepeats = Some k2, sm_overBudget = o1 \<or> o2, sm_unpriced = False\<rparr>"
      have "price_stages passes options cal r1 r2 = Some (r1\<lparr>hs_repeats := k1\<rparr>, r2\<lparr>hs_repeats := k2\<rparr>, ?s)"
        using False by (simp add: price_stages_def bn d1(1) d2(1))
      moreover have "stage_ok passes options cal ?s r1 (r1\<lparr>hs_repeats := k1\<rparr>)" "stage_ok passes options cal ?s r2 (r2\<lparr>hs_repeats := k2\<rparr>)"
        using d1 d2 scale by (auto simp: stage_ok_def bn runs)
      ultimately show ?thesis using False by auto
    qed
  qed
qed

lemma splitStages_total:
  assumes "0 < n" and "set (concat passes) = {..<n}" and "0 < ho_top options" and "0 < ho_repeats options"
  obtains split where "splitStages n passes options cal = Some split" and "split_kept n passes options cal split"
proof -
  let ?w = "min (3 * ho_top options) n" and ?b = "ho_budget options \<noteq> None"
  let ?r1 = "\<lparr>hs_columns = columnIndices n, hs_repeats = (if ?b then 1 else ho_repeats options)\<rparr>"
  let ?r2 = "\<lparr>hs_columns = columnIndices ?w, hs_repeats = ho_repeats options\<rparr>"
  have runs: "0 < passRuns passes ?r1" "0 < passRuns passes ?r2"
    by (rule passRuns_pos [OF assms(2,1)]; use assms in \<open>simp add: columnIndices_def\<close>)+
  have reps: "0 < hs_repeats ?r1" "0 < hs_repeats ?r2" using assms(4) by simp_all
  obtain first second sample where p: "price_stages passes options cal ?r1 ?r2 = Some (first, second, sample)"
    "stage_ok passes options cal sample ?r1 first"
    "if ho_budget options = None then second = ?r2 else stage_ok passes options cal sample ?r2 second"
    using price_stages_total [OF runs(1) _ runs(2), of options cal] reps by blast
  have first: "hs_columns first = [0..<n]" "1 \<le> hs_repeats first" "hs_repeats first \<le> (if ?b then 1 else ho_repeats options)"
    using p(2) by (simp_all add: stage_ok_def columnIndices_def)
  have second: "hs_columns second = [0..<?w]" "1 \<le> hs_repeats second" "hs_repeats second \<le> ho_repeats options"
    using p(3) assms(4) by (auto simp: stage_ok_def columnIndices_def split: if_split_asm)
  define over where "over = (case ho_budget options of None \<Rightarrow> False
      | Some b \<Rightarrow> (case allowedPasses b cal of None \<Rightarrow> True
          | Some allowed \<Rightarrow> passRuns passes first * hs_repeats first + passRuns passes second * hs_repeats second > allowed))"
  define split where "split = \<lparr>ss_stages = (if ?b \<and> \<not> over then [first, second] else [first]),
      ss_sample = sample, ss_cutStage2 = over, ss_cutReason = (if over then ''over-budget'' else [])\<rparr>"
  have ens: "split_ensures n ?w options split (hs_repeats first) (hs_repeats second)"
    using first second by (auto simp: split_ensures_def split_def over_def)
  have result: "splitStages n passes options cal = Some split"
    using assms ens unfolding splitStages_def kStageTwoFactor_def Let_def p(1) option.case prod.case over_def [symmetric] split_def [symmetric]
    by simp
  have "split_kept n passes options cal split"
    unfolding split_kept_def
  proof (intro conjI)
    show "length (ss_stages split) \<noteq> 1 \<longrightarrow> (\<exists>second b allowed. tl (ss_stages split) = [second]
          \<and> hs_columns second = [0..<min (3 * ho_top options) n] \<and> hs_repeats (hd (ss_stages split)) = 1
          \<and> ho_budget options = Some b \<and> allowedPasses b cal = Some allowed
          \<and> passRuns passes (hd (ss_stages split)) + passRuns passes second * hs_repeats second \<le> allowed)"
    proof
      assume "length (ss_stages split) \<noteq> 1"
      then have two: "?b" "\<not> over" "ss_stages split = [first, second]" by (auto simp: split_def split: if_split_asm)
      then obtain b allowed where "ho_budget options = Some b" "allowedPasses b cal = Some allowed"
        "passRuns passes first * hs_repeats first + passRuns passes second * hs_repeats second \<le> allowed"
        by (auto simp: over_def split: option.splits)
      moreover have "hs_repeats first = 1" using first two(1) by simp
      ultimately show "\<exists>second b allowed. tl (ss_stages split) = [second]
          \<and> hs_columns second = [0..<min (3 * ho_top options) n] \<and> hs_repeats (hd (ss_stages split)) = 1
          \<and> ho_budget options = Some b \<and> allowedPasses b cal = Some allowed
          \<and> passRuns passes (hd (ss_stages split)) + passRuns passes second * hs_repeats second \<le> allowed"
        using two(3) second(1) by simp
    qed
  qed (use first second assms(4) p in \<open>auto simp: split_def over_def stage_ok_def split: if_split_asm\<close>)
  with result show ?thesis by (rule that)
qed

subsection \<open>The plan of a hunt\<close>

lemma planHunt_total:
  assumes "length limits = length anchors" and "0 < ho_top options" and "0 < ho_repeats options"
    and "plan_columns limits anchors options events = Inr planned" and "events \<noteq> []"
  defines "cs \<equiv> map fst planned"
  obtains plan split where "planHunt events limits anchors options cal = Some (Inr plan)"
    and "hp_columns plan = cs" and "map hc_event cs = map ca_address events" and "cs \<noteq> []"
    and "seats_once (length cs) (hp_passes plan)" and "set (concat (hp_passes plan)) = {..<length cs}"
    and "\<forall>p\<in>set (hp_passes plan). in_limits (map hunt_ask cs) limits (set p)"
    and "hp_stages plan = ss_stages split" and "hp_sample plan = ss_sample split"
    and "split_kept (length cs) (hp_passes plan) options cal split"
    and "hp_method plan = Some (settleMethod AUTO (list_ex (\<lambda>c. limits ! hc_source c \<noteq> None) cs) (length cs))"
proof -
  note pc = plan_columns_Inr [OF assms(4)]
  have asks: "map snd planned = map hunt_ask cs" using pc by (simp add: cs_def)
  have names: "map hc_event cs = map ca_address events" using pc by (simp add: cs_def comp_def)
  have ok: "\<forall>c\<in>set cs. hc_source c < length limits \<and> (\<forall>l. limits ! hc_source c = Some l \<longrightarrow> 3 \<le> l)"
    using pc by (simp add: cs_def)
  have "length cs = length events" using arg_cong [OF names, of length] by simp
  then have ne: "cs \<noteq> []" "0 < length cs" using assms(5) by auto
  obtain passes groups where sp: "seat_passes (map hunt_ask cs) limits (ho_multiplexCap options) = Some (passes, groups)"
    "seats_once (length cs) passes" "set (concat passes) = {..<length cs}"
    "\<forall>p\<in>set passes. in_limits (map hunt_ask cs) limits (set p)"
    by (rule seat_passes_total [OF ne(1) ok])
  obtain split where st: "splitStages (length cs) passes options cal = Some split" "split_kept (length cs) passes options cal split"
    by (rule splitStages_total [OF ne(2) sp(3) assms(2,3)])
  show ?thesis
    using that [of _ split] assms(1) assms(4) ne names sp st asks
    by (simp add: planHunt_def cs_def [symmetric] Let_def)
qed

text \<open>
  C17. A hunt plan over settled options never breaks a contract.  It is refused only with the cause of one of its
  events; otherwise its columns are the events in order, every column stands in exactly one pass, and no pass
  asks more of a device than the device publishes.
\<close>

theorem hunt_plan_seats_every_event_once:
  assumes "length limits = length anchors" and "0 < ho_top options" and "0 < ho_repeats options"
  shows "case planHunt events limits anchors options cal of
      None \<Rightarrow> False
    | Some (Inl cause) \<Rightarrow> list_ex (\<lambda>e. plan_column limits anchors options e = Inl cause) events
    | Some (Inr plan) \<Rightarrow> map hc_event (hp_columns plan) = map ca_address events
        \<and> (\<forall>c < length events. \<exists>!p. p < length (hp_passes plan) \<and> c \<in> set (hp_passes plan ! p))
        \<and> (\<forall>p\<in>set (hp_passes plan). set p \<subseteq> {..<length events}
             \<and> in_limits (map hunt_ask (hp_columns plan)) limits (set p))"
proof (cases "plan_columns limits anchors options events")
  case (Inl er)
  then show ?thesis using plan_columns_Inl [OF Inl] assms(1) by (simp add: planHunt_def list_ex_iff)
next
  case (Inr planned)
  show ?thesis
  proof (cases "events = []")
    case True
    then show ?thesis using Inr assms(1) by (simp add: planHunt_def Let_def)
  next
    case False
    obtain plan split where p: "planHunt events limits anchors options cal = Some (Inr plan)"
      "hp_columns plan = map fst planned" "map hc_event (map fst planned) = map ca_address events"
      "seats_once (length (map fst planned)) (hp_passes plan)" "set (concat (hp_passes plan)) = {..<length (map fst planned)}"
      "\<forall>p\<in>set (hp_passes plan). in_limits (map hunt_ask (map fst planned)) limits (set p)"
      by (rule planHunt_total [OF assms Inr False])
    have n: "length (map fst planned) = length events" using arg_cong [OF p(3), of length] by simp
    have "\<exists>!p. p < length (hp_passes plan) \<and> c \<in> set (hp_passes plan ! p)" if "c < length events" for c
      using seats_once_unique [OF p(4) _ p(5), of c] that n by simp
    moreover have "set q \<subseteq> {..<length events}" if "q \<in> set (hp_passes plan)" for q
      using p(5) n that by (metis UN_upper set_concat)
    ultimately show ?thesis using p(1,2,3,6) by simp
  qed
qed


definition two_events :: "catalog_address list" where
  "two_events = map (\<lambda>a. \<lparr>ca_address = a, ca_device = ''cpu'', ca_source = 0\<rparr>) [''a'', ''b'']"

definition capped_at_one :: hunt_options where
  "capped_at_one = \<lparr>ho_selection = [], ho_norm = Some ITER, ho_rank = RATE, ho_top = 1, ho_noise = hundred64, ho_repeats = 1,
     ho_seed = 1, ho_budget = None, ho_sampleBudgetNs = None, ho_multiplexCap = Some 1, ho_baseline = [], ho_emitRules = []\<rparr>"

lemma two_asks:
  "plan_columns [None, l] [([], []), ([], [])] capped_at_one two_events
     = Inr [(\<lparr>hc_event = ''a'', hc_cycles = [], hc_instructions = [], hc_source = 0\<rparr>, [\<lparr>cl_source = 0, cl_addresses = [''a'']\<rparr>]),
            (\<lparr>hc_event = ''b'', hc_cycles = [], hc_instructions = [], hc_source = 0\<rparr>, [\<lparr>cl_source = 0, cl_addresses = [''b'']\<rparr>])]"
  by (simp add: two_events_def plan_column_def anchored_column_def capped_at_one_def)

lemma group_widths_two: "group_widths_from 0 2 1 = [1, 1]"
  by (simp add: group_widths_from.simps)

lemma two_seats:
  defines "asks \<equiv> [[\<lparr>cl_source = 0, cl_addresses = [''a'']\<rparr>], [\<lparr>cl_source = 0, cl_addresses = [''b'']\<rparr>]]"
  shows "seat_passes asks [None, None] (Some 1) = Some ([[0], [1]], [1, 1])"
    and "seat_passes asks [None, Some 8] (Some 1) = Some ([[0, 1]], [])"
proof -
  have n: "length asks = 2" by (simp add: asks_def)
  show "seat_passes asks [None, None] (Some 1) = Some ([[0], [1]], [1, 1])"
    unfolding seat_passes_def n by (simp add: asks_def planPasses_def everyGroupNamesPricedSource_def empty_plan_def groupWidths_def group_widths_two columnIndices_def upt_rec Let_def del: One_nat_def)
  have "seat_columns asks [None, Some 8] 2
      = \<lparr>ps_columns = [[0, 1]], ps_exclusive = [False], ps_claims = [[[''a'', ''b''], []]], ps_measuring = [0, 0]\<rparr>"
    by (simp add: asks_def seat_columns_def seat_column_def askedAddresses_def column_alone_def exceeds_limit_def claimedAddresses_def
      first_fit_def holdsColumn_def numeral_2_eq_2 Let_def)
  then show "seat_passes asks [None, Some 8] (Some 1) = Some ([[0, 1]], [])"
    unfolding seat_passes_def planPasses_def n
    by (simp add: asks_def everyGroupNamesPricedSource_def plan_asserts_def exceeds_limit_def Let_def numeral_2_eq_2)
qed

lemma stages_of_two:
  "splitStages 2 passes capped_at_one None
     = Some \<lparr>ss_stages = [\<lparr>hs_columns = [0, 1], hs_repeats = 1\<rparr>], ss_sample = fresh_sample, ss_cutStage2 = False, ss_cutReason = []\<rparr>"
  by (simp add: splitStages_def price_stages_def split_ensures_def capped_at_one_def columnIndices_def numeral_2_eq_2 Let_def)


text \<open>The two budget properties at this hunt.\<close>

theorem hunt_plan_seats_every_event_once_witness:
  "case planHunt two_events [None, None] [([], []), ([], [])] capped_at_one None of
      None \<Rightarrow> False
    | Some (Inl cause) \<Rightarrow> list_ex (\<lambda>e. plan_column [None, None] [([], []), ([], [])] capped_at_one e = Inl cause) two_events
    | Some (Inr plan) \<Rightarrow> map hc_event (hp_columns plan) = [''a'', ''b'']"
  using hunt_plan_seats_every_event_once [of "[None, None]" "[([], []), ([], [])]" capped_at_one two_events None]
  by (simp add: capped_at_one_def two_events_def split: option.splits sum.splits)


end
