(* ===== verification/Hunt_Rank.thy ===== *)
theory Hunt_Rank
  imports Hunt
begin

text \<open>
  The rank table is a function of the set of measured events.  \<open>rank_table\<close> is the reference: sort the clean events
  by the key, number the leading ones, and list the others by address.  The rates and deviations of a run are
  never NaN, so the sort is defined.
\<close>

subsection \<open>Sums of bounded values\<close>

definition within64 :: "real \<Rightarrow> binary64 \<Rightarrow> bool" where
  "within64 b x \<longleftrightarrow> is_finite x \<and> well_formed64 x \<and> 0 \<le> dvalue x \<and> dvalue x \<le> b"

lemma within64_D: "within64 b x \<Longrightarrow> is_finite x \<and> well_formed64 x \<and> x \<noteq> NaN \<and> 0 \<le> dvalue x \<and> dvalue x \<le> b"
  by (auto simp: within64_def)

lemma within64_rounds:
  assumes "rounds x r" and "well_formed64 r" and "0 \<le> x" and "x \<le> b" and "is_finite t" "well_formed64 t" "dvalue t = b"
  shows "within64 b r"
  using rounds_between [OF assms(1) zero64_value(1,2) assms(5,6)] assms by (simp add: within64_def zero64_value)

lemma scaled64:
  assumes "n < 2 ^ 53" and "0 \<le> k" and "k \<le> 900"
  obtains b where "is_finite b" and "well_formed64 b" and "dvalue b = real n * 2 powi k"
proof (cases "n = 0")
  case True
  then show ?thesis using that [of zero64] by (simp add: zero64_value)
next
  case False
  note n = of_nat64_exact [OF assms(1)]
  obtain s m e where b: "of_nat64 n = Finite s m e" using n(1) by (cases "of_nat64 n") auto
  have c: "canonical s m e" using n(3) by (simp add: b)
  have v: "dvalue (Finite s m e) = real n" using n(2) by (simp add: b del: dvalue.simps)
  have "e \<le> 52"
  proof (rule ccontr)
    assume "\<not> e \<le> 52"
    then have e: "53 \<le> e" by simp
    have m: "m \<noteq> 0"
    proof
      assume "m = 0"
      then have "dvalue (Finite s m e) = 0" by (simp only: zero_value)
      then show False using v False by simp
    qed
    have "(2::real) ^ 53 \<le> 2 powi e" using powi_le_iff [of 53 e] e by simp
    also have "\<dots> \<le> real m * 2 powi e" using m by simp
    also have "\<dots> = \<bar>real n\<bar>" unfolding v [symmetric] dvalue_sign by (cases s) simp_all
    finally have "real (2 ^ 53) \<le> real n" by simp
    then show False using assms(1) by (simp only: of_nat_le_iff)
  qed
  moreover have "sig_top \<le> m"
  proof (rule ccontr)
    assume "\<not> sig_top \<le> m"
    then have "e = min_exp" using c by (simp add: canonical_def)
    have "real m * 2 powi e \<le> (2 ^ 53 - 1) * 2 powi e" by (rule canonical_upper [OF c])
    also have "\<dots> < 2 ^ 53 * 2 powi e" by (intro mult_strict_right_mono) simp_all
    also have "\<dots> = 2 powi (53 + e)" using power_int_add [of "2::real" 53 e] by simp
    also have "\<dots> \<le> 2 powi 0" unfolding powi_le_iff by (simp add: \<open>e = min_exp\<close> min_exp_def)
    finally have "real m * 2 powi e < 1" by simp
    moreover have "real m * 2 powi e = \<bar>real n\<bar>" unfolding v [symmetric] dvalue_sign by (cases s) simp_all
    ultimately show False using False by simp
  qed
  ultimately have "canonical s m (e + k)" using c assms by (simp add: canonical_def max_exp_def)
  moreover have "dvalue (Finite s m (e + k)) = real n * 2 powi k"
    unfolding v [symmetric] by (simp add: power_int_add)
  ultimately show ?thesis using that [of "Finite s m (e + k)"] by simp
qed

lemma bounded_sum:
  assumes "0 \<le> k" "k \<le> 900"
  shows "\<forall>x\<in>set xs. within64 (2 powi k) x \<Longrightarrow> within64 (real j * 2 powi k) acc \<Longrightarrow> j + length xs < 2 ^ 53 \<Longrightarrow>
    within64 (real (j + length xs) * 2 powi k) (foldl dadd acc xs)"
proof (induction xs arbitrary: acc j)
  case (Cons x xs)
  have x: "is_finite x" "well_formed64 x" "0 \<le> dvalue x" "dvalue x \<le> 2 powi k" using Cons.prems(1) by (simp_all add: within64_def)
  have a: "is_finite acc" "well_formed64 acc" "0 \<le> dvalue acc" "dvalue acc \<le> real j * 2 powi k"
    using Cons.prems(2) by (simp_all add: within64_def)
  have "Suc j < 2 ^ 53" using Cons.prems(3) by simp
  then obtain b where b: "is_finite b" "well_formed64 b" "dvalue b = real (Suc j) * 2 powi k" by (rule scaled64 [OF _ assms])
  have "within64 (real (Suc j) * 2 powi k) (dadd acc x)"
    by (rule within64_rounds [OF rounds_dadd [OF a(1) x(1)] _ _ _ b]) (use a x in \<open>simp_all add: wf_ops algebra_simps\<close>)
  from Cons.IH [OF _ this] Cons.prems show ?case by simp
qed simp

subsection \<open>Rates and deviations are numbers\<close>

lemma of_u64_within:
  shows "within64 (2 powi 64) (of_u64 w)" and "w \<noteq> 0 \<longrightarrow> 1 \<le> dvalue (of_u64 w)"
proof -
  have r: "rounds (real (unat w)) (of_u64 w)" using rounds_round64 [of 1 False "unat w"] by (simp add: of_u64_def)
  have p: "is_finite (power64 64)" "well_formed64 (power64 64)" "dvalue (power64 64) = 2 powi 64" by (rule power64; simp)+
  have one: "is_finite (power64 0)" "well_formed64 (power64 0)" "dvalue (power64 0) = 1" by (simp_all add: power64)
  have "unat w < 2 ^ LENGTH(64)" by (rule unsigned_less)
  then have "unat w < 2 ^ 64" by simp
  then have "real (unat w) < real (2 ^ 64)" by (simp only: of_nat_less_iff)
  then have up: "real (unat w) \<le> 2 powi 64" by simp
  show "within64 (2 powi 64) (of_u64 w)"
    by (rule within64_rounds [OF r _ of_nat_0_le_iff up p]) (simp add: of_u64_def wf_round)
  show "w \<noteq> 0 \<longrightarrow> 1 \<le> dvalue (of_u64 w)"
  proof
    assume "w \<noteq> 0"
    then have "1 \<le> unat w" by (metis less_one linorder_not_less unat_eq_zero)
    then have "real 1 \<le> real (unat w)" by (simp only: of_nat_le_iff)
    then have "dvalue (power64 0) \<le> real (unat w)" by (simp only: one of_nat_1)
    then show "1 \<le> dvalue (of_u64 w)" using rounds_between(2) [OF r one(1,2) p(1,2)] up p(3) one(3) by simp
  qed
qed

lemma quotient_within:
  assumes "d \<noteq> 0"
  shows "within64 (2 powi 64) (ddiv (of_u64 w) (of_u64 d))"
proof -
  note n = within64_D [OF of_u64_within(1) [of w]] and m = within64_D [OF of_u64_within(1) [of d]]
  have d1: "1 \<le> dvalue (of_u64 d)" using of_u64_within(2) [of d] assms by simp
  have nz: "\<not> dzero (of_u64 d)" using d1 m by (simp add: dzero_value)
  have p: "is_finite (power64 64)" "well_formed64 (power64 64)" "dvalue (power64 64) = 2 powi 64" by (rule power64; simp)+
  have "dvalue (of_u64 w) / dvalue (of_u64 d) \<le> dvalue (of_u64 w) / 1" using n d1 by (intro divide_left_mono) simp_all
  then have "dvalue (of_u64 w) / dvalue (of_u64 d) \<le> 2 powi 64" using n by simp
  then show ?thesis
    by (intro within64_rounds [OF rounds_ddiv _ _ _ p]) (use n m nz in \<open>simp_all add: wf_ops\<close>)
qed

lemma thousand64_value: "is_finite thousand64" "well_formed64 thousand64" "dvalue thousand64 = 1000"
  using of_nat64_exact [of 1000] by (simp_all add: thousand64_def)

lemma rate_within:
  assumes "rateOf s nrm = Some (Some r)"
  shows "within64 (2 powi 74) r"
proof -
  have p: "is_finite (power64 74)" "well_formed64 (power64 74)" "dvalue (power64 74) = 2 powi 74" by (rule power64; simp)+
  have lift: "within64 (2 powi 74) x" if "within64 (2 powi 64) x" for x
    using that powi_le_iff [of 64 74] by (auto simp: within64_def)
  have scaled: "within64 (2 powi 74) (dmul q thousand64)" if q: "within64 (2 powi 64) q" for q
  proof -
    note q' = within64_D [OF q]
    have "dvalue q * 1000 \<le> 2 powi 64 * 2 ^ 10" using q' by (intro mult_mono) simp_all
    then have "dvalue q * dvalue thousand64 \<le> 2 powi 74" by (simp add: thousand64_value)
    then show ?thesis
      by (intro within64_rounds [OF rounds_dmul _ _ _ p]) (use q' thousand64_value in \<open>simp_all add: wf_ops\<close>)
  qed
  show ?thesis using assms quotient_within lift scaled
    by (auto simp: rateOf_def Let_def split: hunt_norm.splits option.splits if_split_asm)
qed

definition rate_bound :: real where "rate_bound = 2 powi 74"

lemma rates_within: "rates_of ss nrm = Some rs \<Longrightarrow> (\<forall>r\<in>set rs. within64 rate_bound r) \<and> length rs \<le> length ss"
  by (induction ss arbitrary: rs) (auto split: if_split_asm option.splits dest: rate_within [folded rate_bound_def])

lemma rates_total: "\<exists>rs. rates_of ss nrm = Some rs"
proof (induction ss)
  case (Cons s ss)
  then show ?case
    by (cases nrm) (auto simp: rateOf_def Let_def split: option.splits)
qed simp

lemma dmul_hundred_number: "c \<noteq> NaN \<Longrightarrow> dmul hundred64 c \<noteq> NaN"
proof (cases c)
  case (Finite s m e)
  then show ?thesis using rounds_dmul [OF hundred64_value(1), of c] by (auto dest: roundsD(1))
next
  case (Infinite s)
  obtain t n f where h: "hundred64 = Finite t n f" using hundred64_value(1) by (metis is_finite.elims(2))
  have "\<not> dzero hundred64" by (simp add: dzero_value hundred64_value)
  then have "n \<noteq> 0" by (simp add: h)
  then show ?thesis using Infinite by (simp add: h)
qed simp

lemma deviation_number:
  assumes vb: "\<forall>x\<in>set v. within64 rate_bound x" and n: "2 \<le> length v" "length v < 2 ^ 40" and s: "statisticsOf v = Some s"
  shows "st_coefficientOfVariation s \<noteq> NaN" and "st_median s \<noteq> NaN"
proof -
  note v = vb [unfolded rate_bound_def]
  have nn: "NaN \<notin> set v" using v within64_D by blast
  define w where "w = sort_by dless v"
  have sw: "s = summary_of w" using s nn n by (auto simp: statisticsOf_def sort_doubles_def w_def)
  have w: "\<forall>x\<in>set w. within64 (2 powi 74) x" "length w = length v" using v by (simp_all add: w_def)
  let ?n = "length v"
  have small: "?n < 2 ^ 53" "?n - 1 < 2 ^ 53" using n by simp_all
  note cn = of_nat64_exact [OF small(1)] and cp = of_nat64_exact [OF small(2)]
  have n1: "1 \<le> real (?n - 1)" using n by (simp add: of_nat_diff)
  have n2: "real ?n = real (?n - 1) + 1" using n by (simp add: of_nat_diff)
  define sm where "sm = sum_of w"
  have z: "within64 (real 0 * 2 powi k) zero64" for k by (simp add: within64_def zero64_value)
  have "within64 (real (0 + length w) * 2 powi 74) sm"
    unfolding sm_def sum_of_def by (rule bounded_sum [OF _ _ w(1) z]) (use w small in simp_all)
  then have sm: "is_finite sm" "well_formed64 sm" "0 \<le> dvalue sm" "dvalue sm \<le> real ?n * 2 powi 74"
    using w(2) by (simp_all add: within64_def)
  define mean where "mean = ddiv sm (of_nat64 ?n)"
  have p74: "is_finite (power64 74)" "well_formed64 (power64 74)" "dvalue (power64 74) = 2 powi 74" by (rule power64; simp)+
  have nz: "\<not> dzero (of_nat64 ?n)" "\<not> dzero (of_nat64 (?n - 1))" 
  proof -
    have "dvalue (of_nat64 ?n) \<noteq> 0" "dvalue (of_nat64 (?n - 1)) \<noteq> 0" unfolding cn(2) cp(2) using n1 n2 by linarith+
    then show "\<not> dzero (of_nat64 ?n)" "\<not> dzero (of_nat64 (?n - 1))" using dzero_value [OF cn(1)] dzero_value [OF cp(1)] by blast+
  qed
  have npos: "0 < real ?n" using n1 n2 by linarith
  have "dvalue sm / real ?n \<le> 2 powi 74" using sm(4) unfolding pos_divide_le_eq [OF npos] by (simp only: mult.commute)
  then have mean: "within64 (2 powi 74) mean"
    unfolding mean_def by (intro within64_rounds [OF rounds_ddiv _ _ _ p74]) (use sm cn nz npos in \<open>simp_all add: wf_ops\<close>)
  note mean' = within64_D [OF mean]
  have n74: "is_finite (dneg (power64 74))" "well_formed64 (dneg (power64 74))" "dvalue (dneg (power64 74)) = - (2 powi 74)"
    using p74 by (simp_all add: dvalue_dneg)
  have p148: "is_finite (power64 148)" "well_formed64 (power64 148)" "dvalue (power64 148) = 2 powi 148" by (rule power64; simp)+
  have sq: "within64 (2 powi 148) (dmul (dsub x mean) (dsub x mean))" if x: "x \<in> set w" for x
  proof -
    have x': "is_finite x" "well_formed64 x" "0 \<le> dvalue x" "dvalue x \<le> 2 powi 74" using w(1) x by (auto simp: within64_def)
    have "- (2 powi 74) \<le> dvalue x - dvalue mean" "dvalue x - dvalue mean \<le> 2 powi 74" using x' mean' by linarith+
    then have d: "is_finite (dsub x mean)" "- (2 powi 74) \<le> dvalue (dsub x mean)" "dvalue (dsub x mean) \<le> 2 powi 74"
      using rounds_between [OF rounds_dsub [OF x'(1) conjunct1 [OF mean']] n74(1,2) p74(1,2)] n74(3) p74(3) by simp_all
    then have a: "\<bar>dvalue (dsub x mean)\<bar> \<le> 2 powi 74" by linarith
    have "dvalue (dsub x mean) * dvalue (dsub x mean) = \<bar>dvalue (dsub x mean)\<bar> * \<bar>dvalue (dsub x mean)\<bar>" by simp
    also have "\<dots> \<le> 2 powi 74 * 2 powi 74" using a by (intro mult_mono) simp_all
    finally have "dvalue (dsub x mean) * dvalue (dsub x mean) \<le> 2 powi 148" by (simp flip: power_int_add)
    then show ?thesis
      by (intro within64_rounds [OF rounds_dmul [OF d(1) d(1)] _ _ _ p148]) (use x' mean' in \<open>simp_all add: wf_ops\<close>)
  qed
  define ss where "ss = squared_of mean w"
  have sums: "ss = foldl dadd zero64 (map (\<lambda>x. dmul (dsub x mean) (dsub x mean)) w)"
    unfolding ss_def squared_of_def by (simp add: foldl_map)
  have "within64 (real (0 + length (map (\<lambda>x. dmul (dsub x mean) (dsub x mean)) w)) * 2 powi 148) ss"
    unfolding sums by (rule bounded_sum [OF _ _ _ z]) (use sq w small in auto)
  then have ss: "is_finite ss" "well_formed64 ss" "0 \<le> dvalue ss" "dvalue ss \<le> real ?n * 2 powi 148"
    using w(2) by (simp_all add: within64_def)
  have p149: "is_finite (power64 149)" "well_formed64 (power64 149)" "dvalue (power64 149) = 2 powi 149" by (rule power64; simp)+
  have "dvalue ss / real (?n - 1) \<le> real ?n * 2 powi 148 / real (?n - 1)" using ss n1 by (intro divide_right_mono) simp_all
  also have "\<dots> \<le> 2 powi 149"
  proof -
    have "real ?n \<le> 2 * real (?n - 1)" using n1 n2 by linarith
    then have "real ?n * 2 powi 148 \<le> 2 * real (?n - 1) * 2 powi 148" by (intro mult_right_mono) simp_all
    also have "\<dots> = 2 powi 149 * real (?n - 1)" using power_int_add [of "2::real" 148 1] by simp
    finally show ?thesis using n1 by (simp add: pos_divide_le_eq)
  qed
  finally have quot: "dvalue ss / real (?n - 1) \<le> 2 powi 149" .
  define q where "q = ddiv ss (of_nat64 (?n - 1))"
  have q: "within64 (2 powi 149) q"
    unfolding q_def by (intro within64_rounds [OF rounds_ddiv _ _ _ p149]) (use ss cp nz n1 quot in \<open>simp_all add: wf_ops\<close>)
  note q' = within64_D [OF q]
  have "sqrt (dvalue q) \<le> sqrt (2 powi 149)" using q' by simp
  also have "\<dots> \<le> 2 powi 75"
  proof (rule real_le_lsqrt)
    show "(2::real) powi 149 \<le> (2 powi 75)\<^sup>2" using powi_le_iff [of 149 150] by (simp add: power2_eq_square flip: power_int_add)
  qed simp_all
  finally have root: "sqrt (dvalue q) \<le> 2 powi 75" .
  have p75: "is_finite (power64 75)" "well_formed64 (power64 75)" "dvalue (power64 75) = 2 powi 75" by (rule power64; simp)+
  have dev: "within64 (2 powi 75) (dsqrt q)"
    by (intro within64_rounds [OF rounds_dsqrt _ _ _ p75]) (use q' root in \<open>simp_all add: wf_dsqrt\<close>)
  have cov: "st_coefficientOfVariation s = (if \<not> dzero mean then ddiv (dsqrt q) mean else zero64)"
    unfolding sw summary_of_def Let_def w(2) sm_def [symmetric] mean_def [symmetric] ss_def [symmetric] q_def [symmetric] by simp
  have "ddiv (dsqrt q) mean \<noteq> NaN" if "\<not> dzero mean"
    using rounds_ddiv [of "dsqrt q" mean] dev mean that by (auto simp: within64_def dest: roundsD(1))
  then show "st_coefficientOfVariation s \<noteq> NaN" using cov zero64_value(1) not_NaN_finite by auto
  have rv: "\<forall>x\<in>set w. run_value x"
  proof
    fix x assume "x \<in> set w"
    then have x: "is_finite x" "well_formed64 x" "0 \<le> dvalue x" "dvalue x \<le> 2 powi 74" using w(1) by (auto simp: within64_def)
    moreover have "(2::real) powi 74 \<le> 2 powi 1000" by (simp only: powi_le_iff)
    ultimately show "run_value x" unfolding run_value_def by (metis abs_of_nonneg order_trans)
  qed
  have "in_order dless w" unfolding w_def using nn by (intro by_value.in_order_sort_by) auto
  from median_between(1) [OF rv this] n w(2) have "is_finite (median_of w)" by simp
  moreover have "st_median s = median_of w" by (simp add: sw summary_of_def Let_def)
  ultimately show "st_median s \<noteq> NaN" using not_NaN_finite by simp
qed

subsection \<open>The reference table\<close>

definition address_before :: "ranked_event \<Rightarrow> ranked_event \<Rightarrow> bool" where
  "address_before l r \<longleftrightarrow> re_address l < re_address r"

fun number_from :: "nat \<Rightarrow> ranked_event list \<Rightarrow> ranked_event list" where
  "number_from k [] = []"
| "number_from k (e # es) = e\<lparr>re_rank := Some k\<rparr> # number_from (Suc k) es"

definition rank_table :: "hunt_rank \<Rightarrow> nat \<Rightarrow> ranked_event list \<Rightarrow> ranked_event list" where
  "rank_table rank leading entries =
     (let ranked = sort_by (rank_before rank) (filter ranks_clean entries)
      in number_from 1 (take leading ranked)
           @ sort_by address_before (drop leading ranked @ filter (\<lambda>e. \<not> ranks_clean e) entries))"

lemma rank_before_asym:
  "rank_before rank a b \<Longrightarrow> \<not> rank_before rank b a"
  using dless_asym by (auto simp: rank_before_def split: if_split_asm)

lemma rank_before_neg_trans:
  assumes "rank_key rank a \<noteq> NaN" "rank_key rank b \<noteq> NaN" "rank_key rank c \<noteq> NaN"
    and "\<not> rank_before rank a b" "\<not> rank_before rank b c"
  shows "\<not> rank_before rank a c"
proof (cases "rank = RATE")
  case True
  then have k: "re_rate a \<noteq> NaN" "re_rate b \<noteq> NaN" "re_rate c \<noteq> NaN" using assms by (simp_all add: rank_key_def)
  show ?thesis
    using True assms(4,5) by_value.neg_trans [OF k(3,2,1)] by_value.neg_trans [OF k] by_value.neg_trans [OF k(1,3,2)]
      by_value.neg_trans [OF k(2,1,3)] by_value.neg_trans [OF k(2,3,1)] by_value.neg_trans [OF k(3,1,2)]
    by (auto simp: rank_before_def split: if_split_asm)
next
  case False
  then have k: "re_cv a \<noteq> NaN" "re_cv b \<noteq> NaN" "re_cv c \<noteq> NaN" using assms by (simp_all add: rank_key_def)
  show ?thesis
    using False assms(4,5) by_value.neg_trans [OF k(3,2,1)] by_value.neg_trans [OF k] by_value.neg_trans [OF k(1,3,2)]
      by_value.neg_trans [OF k(2,1,3)] by_value.neg_trans [OF k(2,3,1)] by_value.neg_trans [OF k(3,1,2)]
    by (auto simp: rank_before_def split: if_split_asm)
qed

interpretation by_rank: weak_order "\<lambda>e. rank_key rank e \<noteq> NaN" "rank_before rank" for rank
  by unfold_locales (use rank_before_asym rank_before_neg_trans in blast)+

interpretation by_address: weak_order "\<lambda>e. True" address_before
  by unfold_locales (auto simp: address_before_def)

lemma rank_before_total:
  "re_address a \<noteq> re_address b \<Longrightarrow> rank_before rank a b \<or> rank_before rank b a"
  by (auto simp: rank_before_def)

lemma rank_before_rank [simp]:
  "rank_before rank (a\<lparr>re_rank := x\<rparr>) b = rank_before rank a b" "rank_before rank a (b\<lparr>re_rank := x\<rparr>) = rank_before rank a b"
  by (simp_all add: rank_before_def)

lemma rank_table_order_free:
  assumes "distinct (map re_address es)" and "\<forall>e\<in>set es. ranks_clean e \<longrightarrow> rank_key rank e \<noteq> NaN" and "mset fs = mset es"
  shows "rank_table rank leading fs = rank_table rank leading es"
proof -
  have dist: "x = y \<or> re_address x \<noteq> re_address y" if "x \<in> set es" "y \<in> set es" for x y
    using assms(1) that by (auto simp: distinct_map inj_on_def)
  have clean: "sort_by (rank_before rank) (filter ranks_clean fs) = sort_by (rank_before rank) (filter ranks_clean es)"
  proof (rule by_rank.sort_by_order_free)
    show "\<forall>x\<in>set (filter ranks_clean es). rank_key rank x \<noteq> NaN" using assms(2) by simp
    show "\<forall>x\<in>set (filter ranks_clean es). \<forall>y\<in>set (filter ranks_clean es). rank_before rank x y \<or> rank_before rank y x \<or> x = y"
      using dist rank_before_total by (metis filter_is_subset subsetD)
    show "mset (filter ranks_clean fs) = mset (filter ranks_clean es)" using assms(3) by simp
  qed
  let ?r = "sort_by (rank_before rank) (filter ranks_clean es)"
  have rest: "sort_by address_before (drop leading ?r @ filter (\<lambda>e. \<not> ranks_clean e) fs)
      = sort_by address_before (drop leading ?r @ filter (\<lambda>e. \<not> ranks_clean e) es)"
  proof (rule by_address.sort_by_order_free)
    have sub: "set (drop leading ?r @ filter (\<lambda>e. \<not> ranks_clean e) es) \<subseteq> set es"
      using set_drop_subset [of leading ?r] by auto
    show "\<forall>x\<in>set (drop leading ?r @ filter (\<lambda>e. \<not> ranks_clean e) es). \<forall>y\<in>set (drop leading ?r @ filter (\<lambda>e. \<not> ranks_clean e) es).
        address_before x y \<or> address_before y x \<or> x = y"
      using dist sub by (metis address_before_def linorder_neqE subsetD)
    show "mset (drop leading ?r @ filter (\<lambda>e. \<not> ranks_clean e) fs) = mset (drop leading ?r @ filter (\<lambda>e. \<not> ranks_clean e) es)"
      using assms(3) by simp
  qed simp
  show ?thesis by (simp add: rank_table_def Let_def clean rest)
qed

subsection \<open>The code computes the table\<close>

lemma map_insert_by: "map f (insert_by (\<lambda>a b. lt (f a) (f b)) x xs) = insert_by lt (f x) (map f xs)"
  by (induction xs) simp_all

lemma map_sort_by: "map f (sort_by (\<lambda>a b. lt (f a) (f b)) xs) = sort_by lt (map f xs)"
  by (induction xs) (simp_all add: map_insert_by)

lemma map_filter_nth: "map ((!) es) (filter (\<lambda>i. P (es ! i)) [0..<length es]) = filter P es"
  by (simp add: filter_map [symmetric, unfolded comp_def] map_nth)

lemma length_stamp_ranks [simp]: "length (stamp_ranks ranked es) = length es"
proof -
  have "length (fold (\<lambda>p es. es[ranked ! p := (es ! (ranked ! p))\<lparr>re_rank := Some (p + 1)\<rparr>]) ps es) = length es" for ps
    by (induction ps arbitrary: es) simp_all
  then show ?thesis by (simp add: stamp_ranks_def)
qed

lemma stamp_ranks_nth:
  assumes "distinct ranked" and "set ranked \<subseteq> {..<length es}"
  shows "map ((!) (stamp_ranks ranked es)) ranked = number_from 1 (map ((!) es) ranked)"
    and "i \<notin> set ranked \<Longrightarrow> stamp_ranks ranked es ! i = es ! i"
proof -
  define f where "f n = fold (\<lambda>p es. es[ranked ! p := (es ! (ranked ! p))\<lparr>re_rank := Some (p + 1)\<rparr>]) [0..<n] es" for n
  have inv: "length (f n) = length es
      \<and> (\<forall>k < length ranked. f n ! (ranked ! k) = (if k < n then (es ! (ranked ! k))\<lparr>re_rank := Some (k + 1)\<rparr> else es ! (ranked ! k)))
      \<and> (\<forall>i. i \<notin> set ranked \<longrightarrow> f n ! i = es ! i)" if "n \<le> length ranked" for n
    using that
  proof (induction n)
    case (Suc n)
    have n: "n < length ranked" "ranked ! n < length es" using Suc.prems assms(2) by (auto simp: subset_iff)
    have step: "f (Suc n) = (f n)[ranked ! n := (f n ! (ranked ! n))\<lparr>re_rank := Some (n + 1)\<rparr>]" by (simp add: f_def)
    have "ranked ! n = ranked ! k \<longleftrightarrow> n = k" if "k < length ranked" for k using assms(1) n that by (simp add: nth_eq_iff_index_eq)
    then show ?case using Suc n by (auto simp: step nth_list_update less_Suc_eq)
  qed (simp add: f_def)
  note all = inv [OF order_refl]
  have fs: "f (length ranked) = stamp_ranks ranked es" by (simp add: f_def stamp_ranks_def)
  show "stamp_ranks ranked es ! i = es ! i" if "i \<notin> set ranked" using all that unfolding fs by blast
  have number: "number_from j xs = map (\<lambda>k. (xs ! k)\<lparr>re_rank := Some (j + k)\<rparr>) [0..<length xs]" for j xs
    by (induction xs arbitrary: j) (simp_all add: upt_conv_Cons map_Suc_upt [symmetric] del: upt_Suc)
  show "map ((!) (stamp_ranks ranked es)) ranked = number_from 1 (map ((!) es) ranked)"
    unfolding number using all unfolding fs by (intro nth_equalityI) simp_all
qed

lemma number_from_facts:
  "map re_address (number_from k es) = map re_address es" "map re_multiplexed (number_from k es) = map re_multiplexed es"
  "length (number_from k es) = length es" "i < length es \<Longrightarrow> number_from k es ! i = (es ! i)\<lparr>re_rank := Some (k + i)\<rparr>"
proof -
  show "map re_address (number_from k es) = map re_address es" "map re_multiplexed (number_from k es) = map re_multiplexed es"
    "length (number_from k es) = length es"
    by (induction es arbitrary: k) simp_all
  show "number_from k es ! i = (es ! i)\<lparr>re_rank := Some (k + i)\<rparr>" if "i < length es"
    using that by (induction es arbitrary: k i) (auto simp: nth_Cons split: nat.splits)
qed

lemma ordered_is_table:
  fixes entries :: "ranked_event list" and rank :: hunt_rank and leading :: nat
  defines "clean \<equiv> filter (\<lambda>i. ranks_clean (entries ! i)) [0..<length entries]"
  defines "ranked \<equiv> sort_by (\<lambda>l r. rank_before rank (entries ! l) (entries ! r)) clean"
  defines "tl' \<equiv> sort_by (\<lambda>l r. re_address (entries ! l) < re_address (entries ! r))
     (drop (min leading (length ranked)) ranked @ filter (\<lambda>i. \<not> ranks_clean (entries ! i)) [0..<length entries])"
  shows "map (\<lambda>i. stamp_ranks (take (min leading (length ranked)) ranked) entries ! i) (take (min leading (length ranked)) ranked @ tl')
    = rank_table rank leading entries"
proof -
  have tk: "take (min leading (length ranked)) ranked = take leading ranked" "drop (min leading (length ranked)) ranked = drop leading ranked"
    by (simp_all add: min_def)
  have mr: "map ((!) entries) ranked = sort_by (rank_before rank) (filter ranks_clean entries)"
    unfolding ranked_def clean_def by (simp only: map_sort_by map_filter_nth)
  have dr: "distinct ranked" "set ranked = set clean" by (simp_all add: ranked_def clean_def)
  have sr: "distinct (take leading ranked)" "set (take leading ranked) \<subseteq> {..<length entries}"
    using dr set_take_subset [of leading ranked] by (auto simp: clean_def)
  have out: "i \<notin> set (take leading ranked)" if "i \<in> set tl'" for i
  proof -
    have "set (take leading ranked) \<inter> set (drop leading ranked) = {}" using dr(1) by (metis append_take_drop_id distinct_append)
    moreover have "set (take leading ranked) \<subseteq> set clean" using dr(2) set_take_subset by metis
    moreover have "i \<in> set (drop leading ranked) \<or> i \<notin> set clean"
      using that by (auto simp: tl'_def tk clean_def)
    ultimately show ?thesis by blast
  qed
  have "map ((!) entries) tl' = sort_by (\<lambda>l r. re_address l < re_address r)
      (map ((!) entries) (drop leading ranked @ filter (\<lambda>i. \<not> ranks_clean (entries ! i)) [0..<length entries]))"
    unfolding tl'_def tk by (rule map_sort_by)
  also have "\<dots> = sort_by address_before (drop leading (sort_by (rank_before rank) (filter ranks_clean entries)) @ filter (\<lambda>e. \<not> ranks_clean e) entries)"
    by (simp add: address_before_def [abs_def] drop_map [symmetric] mr map_filter_nth [of entries "\<lambda>e. \<not> ranks_clean e"])
  finally have t: "map ((!) entries) tl' = sort_by address_before
      (drop leading (sort_by (rank_before rank) (filter ranks_clean entries)) @ filter (\<lambda>e. \<not> ranks_clean e) entries)" .
  have "map (\<lambda>i. stamp_ranks (take leading ranked) entries ! i) tl' = map ((!) entries) tl'"
    using stamp_ranks_nth(2) [OF sr] out by simp
  moreover have "map ((!) entries) (take leading ranked) = take leading (sort_by (rank_before rank) (filter ranks_clean entries))"
    by (simp add: take_map [symmetric] mr)
  ultimately show ?thesis
    unfolding tk map_append using stamp_ranks_nth(1) [OF sr] t by (simp add: rank_table_def Let_def)
qed

lemma rank_table_shape:
  fixes rank :: hunt_rank and leading :: nat
  assumes "\<forall>r\<in>set es. re_rank r = None \<and> (ranks_clean r \<longrightarrow> (\<forall>rank. rank_key rank r \<noteq> NaN))"
  defines "ls \<equiv> rank_table rank leading es"
  defines "k \<equiv> min leading (length (filter ranks_clean ls))"
  shows "map re_rank ls = map Some [1..<k + 1] @ replicate (length es - k) None"
    and "list_all ranks_clean (take k ls)"
    and "\<forall>i < k. \<forall>j > i. j < length es \<and> ranks_clean (ls ! j) \<longrightarrow> \<not> rank_before rank (ls ! j) (ls ! i)"
proof -
  define ranked where "ranked = sort_by (rank_before rank) (filter ranks_clean es)"
  define rest where "rest = sort_by address_before (drop leading ranked @ filter (\<lambda>e. \<not> ranks_clean e) es)"
  have ls: "ls = number_from 1 (take leading ranked) @ rest" by (simp add: ls_def rank_table_def ranked_def rest_def Let_def)
  have clean: "\<forall>e\<in>set ranked. ranks_clean e" "set ranked \<subseteq> set es" "length ranked = length (filter ranks_clean es)"
    by (auto simp: ranked_def)
  have rc: "ranks_clean (e\<lparr>re_rank := x\<rparr>) = ranks_clean e" for e x by (simp add: ranks_clean_def)
  have nc: "filter ranks_clean (number_from j xs) = number_from j xs" if "\<forall>e\<in>set xs. ranks_clean e" for j xs
    using that by (induction xs arbitrary: j) (simp_all add: rc)
  have lt: "length (take leading ranked) = min leading (length ranked)" by simp
  have kept: "filter ranks_clean (drop leading ranked) = drop leading ranked" "filter ranks_clean (filter (\<lambda>e. \<not> ranks_clean e) es) = []"
    using clean(1) in_set_dropD by (fastforce intro: filter_True, simp add: filter_empty_conv)
  have "mset rest = mset (drop leading ranked @ filter (\<lambda>e. \<not> ranks_clean e) es)" by (simp only: rest_def mset_sort_by)
  from arg_cong [OF this, of "\<lambda>m. size (filter_mset ranks_clean m)"]
  have "length (filter ranks_clean rest) = length (filter ranks_clean (drop leading ranked @ filter (\<lambda>e. \<not> ranks_clean e) es))"
    by (simp only: mset_filter [symmetric] size_mset)
  then have "length (filter ranks_clean rest) = length ranked - leading" by (simp only: filter_append kept append_Nil2 length_drop)
  moreover have front: "filter ranks_clean (number_from 1 (take leading ranked)) = number_from 1 (take leading ranked)"
    by (rule nc) (use clean(1) in_set_takeD in fastforce)
  ultimately have "length (filter ranks_clean ls) = length ranked"
    by (simp only: ls filter_append length_append number_from_facts(3) length_take)
  then have k: "k = length (take leading ranked)" "k \<le> length ranked" by (simp_all add: k_def)
  have lr: "length rest = length es - k"
    using clean(3) sum_length_filter_compl [of ranks_clean es] k by (simp add: rest_def)
  have rn: "re_rank e = None" if "e \<in> set rest" for e
    using that clean(2) assms(1) by (auto simp: rest_def dest: in_set_dropD)
  have "map re_rank (number_from 1 (take leading ranked)) = map Some [1..<k + 1]"
    by (rule nth_equalityI) (simp_all add: k number_from_facts(3,4) del: upt_Suc)
  moreover have "map re_rank rest = replicate (length es - k) None"
    unfolding lr [symmetric] using rn by (simp add: map_replicate_const [symmetric] cong: map_cong)
  ultimately show "map re_rank ls = map Some [1..<k + 1] @ replicate (length es - k) None" by (simp add: ls del: upt_Suc)
  have tk: "take k ls = number_from 1 (take leading ranked)" by (simp add: ls k number_from_facts(3))
  show "list_all ranks_clean (take k ls)"
    unfolding tk list_all_iff using front by (simp only: filter_id_conv)
  have io: "in_order (rank_before rank) ranked"
    unfolding ranked_def using assms(1) by (intro by_rank.in_order_sort_by) auto
  show "\<forall>i < k. \<forall>j > i. j < length es \<and> ranks_clean (ls ! j) \<longrightarrow> \<not> rank_before rank (ls ! j) (ls ! i)"
  proof (intro allI impI)
    fix i j assume i: "i < k" and j: "i < j" "j < length es \<and> ranks_clean (ls ! j)"
    have li: "ls ! i = (ranked ! i)\<lparr>re_rank := Some (1 + i)\<rparr>" using i k by (simp add: ls nth_append number_from_facts(3,4))
    show "\<not> rank_before rank (ls ! j) (ls ! i)"
    proof (cases "j < k")
      case True
      then have "ls ! j = (ranked ! j)\<lparr>re_rank := Some (1 + j)\<rparr>" using k by (simp add: ls nth_append number_from_facts(3,4))
      then show ?thesis using io j True k li by (simp add: in_order_nth)
    next
      case False
      moreover have nl: "length (number_from 1 (take leading ranked)) = k" by (simp only: number_from_facts(3) k(1))
      ultimately have lj: "ls ! j = rest ! (j - k)" "j - k < length rest"
        using lr j unfolding ls nth_append nl by (simp, linarith)
      have "rest ! (j - k) \<in> set rest" using lj(2) by (rule nth_mem)
      then have "ls ! j \<in> set (drop leading ranked)" using j(2) unfolding lj(1) by (auto simp: rest_def)
      then obtain m where m: "m < length (drop leading ranked)" "drop leading ranked ! m = ls ! j" by (auto simp: in_set_conv_nth)
      then have "leading + m < length ranked" "ls ! j = ranked ! (leading + m)" by simp_all
      then show ?thesis using in_order_nth [OF io, of i "leading + m"] i k li by simp
    qed
  qed
qed

subsection \<open>Every row has a number to rank by\<close>

definition norm_of :: "hunt_options \<Rightarrow> hunt_norm" where
  "norm_of options = (case ho_norm options of None \<Rightarrow> INSTR | Some n \<Rightarrow> n)"

text \<open>What the collection hands over: an event measured nothing only when its refusal is stated.\<close>

definition sampled_or_refused :: "hunt_norm \<Rightarrow> event_samples \<Rightarrow> bool" where
  "sampled_or_refused nrm e \<longleftrightarrow> length (es_samples e) < 2 ^ 40 \<and> (es_skipped e \<noteq> None \<or> rates_of (es_samples e) nrm \<noteq> Some [])"

lemma rank_row_total:
  assumes "sampled_or_refused nrm e"
  obtains r where "rank_row nrm noise multiplexed e = Some r" and "re_address r = es_address e"
    and "re_multiplexed r = multiplexed" and "re_rank r = None"
    and "ranks_clean r \<longrightarrow> (\<forall>rank. rank_key rank r \<noteq> NaN)"
proof -
  obtain rs where rs: "rates_of (es_samples e) nrm = Some rs" using rates_total by blast
  note w = rates_within [OF rs]
  have ne: "\<not> (rs = [] \<and> es_skipped e = None)" using assms rs by (auto simp: sampled_or_refused_def)
  show ?thesis
  proof (cases "length rs > 1")
    case True
    have "NaN \<notin> set rs" using w within64_D by blast
    then obtain st where st: "statisticsOf rs = Some st" using True by (auto simp: statisticsOf_def sort_doubles_def)
    have len: "2 \<le> length rs" "length rs < 2 ^ 40" using True w assms by (auto simp: sampled_or_refused_def)
    note num = deviation_number [OF conjunct1 [OF w] len st]
    define r where "r = (unranked (es_address e) (length rs) multiplexed)\<lparr>re_rate := st_median st,
      re_cv := dmul hundred64 (st_coefficientOfVariation st),
      re_noisy := dless noise (dmul hundred64 (st_coefficientOfVariation st)), re_repeated := True\<rparr>"
    have "rank_row nrm noise multiplexed e = Some r" using True ne by (auto simp: rank_row_def rs st r_def Let_def)
    then show ?thesis by (rule that) (simp_all add: r_def unranked_def rank_key_def num dmul_hundred_number)
  next
    case False
    show ?thesis
      by (cases rs) (use False ne in \<open>auto intro!: that simp: rank_row_def rs unranked_def ranks_clean_def Let_def\<close>)
  qed
qed

lemma rank_rows_map:
  "\<forall>e\<in>set es. rank_row nrm noise mx e \<noteq> None \<Longrightarrow> rank_rows nrm noise mx es = Some (map (\<lambda>e. the (rank_row nrm noise mx e)) es)"
  by (induction es) auto

lemma rank_rows_facts:
  fixes mx :: bool and noise :: binary64
  assumes "\<forall>e\<in>set es. sampled_or_refused nrm e"
  defines "rows \<equiv> map (\<lambda>e. the (rank_row nrm noise mx e)) es"
  shows "rank_rows nrm noise mx es = Some rows" and "map re_address rows = map es_address es"
    and "\<forall>r\<in>set rows. re_multiplexed r = mx \<and> re_rank r = None \<and> (ranks_clean r \<longrightarrow> (\<forall>rank. rank_key rank r \<noteq> NaN))"
proof -
  have row: "rank_row nrm noise mx e \<noteq> None \<and> re_address (the (rank_row nrm noise mx e)) = es_address e
      \<and> re_multiplexed (the (rank_row nrm noise mx e)) = mx \<and> re_rank (the (rank_row nrm noise mx e)) = None
      \<and> (ranks_clean (the (rank_row nrm noise mx e)) \<longrightarrow> (\<forall>rank. rank_key rank (the (rank_row nrm noise mx e)) \<noteq> NaN))"
    if "e \<in> set es" for e
    by (rule rank_row_total [of nrm e noise mx]) (use assms that in auto)
  show "rank_rows nrm noise mx es = Some rows" unfolding rows_def by (rule rank_rows_map) (use row in blast)
  show "map re_address rows = map es_address es" using row by (simp add: rows_def)
  show "\<forall>r\<in>set rows. re_multiplexed r = mx \<and> re_rank r = None \<and> (ranks_clean r \<longrightarrow> (\<forall>rank. rank_key rank r \<noteq> NaN))"
    using row by (auto simp: rows_def)
qed

lemma rank_table_mset:
  "mset (map re_address (rank_table rank leading es)) = mset (map re_address es)"
  "mset (map re_multiplexed (rank_table rank leading es)) = mset (map re_multiplexed es)"
proof -
  let ?r = "sort_by (rank_before rank) (filter ranks_clean es)"
  have split: "mset (take leading ?r) + mset (drop leading ?r) = filter_mset ranks_clean (mset es)"
    by (metis append_take_drop_id mset_append mset_filter mset_sort_by)
  have whole: "mset (take leading ?r) + (mset (drop leading ?r) + filter_mset (\<lambda>e. \<not> ranks_clean e) (mset es)) = mset es"
    by (simp add: split multiset_partition [symmetric] flip: add.assoc)
  show "mset (map re_address (rank_table rank leading es)) = mset (map re_address es)"
    using arg_cong [OF whole, of "image_mset re_address"]
    by (simp add: rank_table_def Let_def number_from_facts(1))
  show "mset (map re_multiplexed (rank_table rank leading es)) = mset (map re_multiplexed es)"
    using arg_cong [OF whole, of "image_mset re_multiplexed"]
    by (simp add: rank_table_def Let_def number_from_facts(2))
qed

lemma rankEvents_table:
  assumes "0 < ho_top options" and "dless zero64 (ho_noise options)" and "distinct (map es_address collected)"
    and "\<forall>e\<in>set collected. sampled_or_refused (norm_of options) e"
  obtains h rows where "rankEvents collected options settled = Some h"
    and "rank_rows (norm_of options) (ho_noise options) (settled = Some MULTIPLEX) collected = Some rows"
    and "eh_entries h = rank_table (ho_rank options) (ho_top options) rows"
    and "map se_address (eh_skipped h) = map es_address (filter (\<lambda>e. es_skipped e \<noteq> None) collected)"
proof -
  define mx where "mx = (settled = Some MULTIPLEX)"
  note facts = rank_rows_facts [OF assms(4), of "ho_noise options" mx]
  define rows where "rows = map (\<lambda>e. the (rank_row (norm_of options) (ho_noise options) mx e)) collected"
  note f = facts [folded rows_def]
  define skipped where "skipped = concat (map (\<lambda>e. case es_skipped e of None \<Rightarrow> []
      | Some k \<Rightarrow> [\<lparr>se_address = es_address e, se_kind = k\<rparr>]) collected)"
  have sk: "map se_address skipped = map es_address (filter (\<lambda>e. es_skipped e \<noteq> None) collected)"
    unfolding skipped_def by (induction collected) (auto split: option.split)
  have dsk: "distinct (map se_address skipped)" unfolding sk using assms(3) by (rule distinct_map_filter)
  define table where "table = rank_table (ho_rank options) (ho_top options) rows"
  have num: "\<not> list_ex (\<lambda>i. rank_key (ho_rank options) (rows ! i) = NaN) (filter (\<lambda>i. ranks_clean (rows ! i)) [0..<length rows])"
    using f(3) by (auto simp: list_ex_iff)
  have addr: "mset (map re_address table) = mset (map es_address collected)"
    unfolding table_def rank_table_mset(1) f(2) ..
  then have dt: "distinct (map re_address table)" using assms(3) by (metis mset_eq_imp_distinct_iff)
  have lt: "length table = length collected" using arg_cong [OF addr, of size] by simp
  have "set (map re_multiplexed table) = set (map re_multiplexed rows)"
    unfolding table_def using rank_table_mset(2) by (metis mset_eq_setD)
  moreover have "set (map re_multiplexed rows) \<subseteq> {mx}" using f(3) by auto
  ultimately have mt: "list_all (\<lambda>e. re_multiplexed e = mx) table" by (auto simp: list_all_iff)
  define h where "h = \<lparr>eh_method = settled, eh_passCount = 0, eh_top = ho_top options, eh_entries = table,
    eh_skipped = skipped, eh_retriedPasses = 0\<rparr>"
  have "rankEvents collected options settled = Some h"
    unfolding rankEvents_def Let_def norm_of_def [symmetric] mx_def [symmetric] f(1) option.case skipped_def [symmetric]
      ordered_is_table table_def [symmetric]
    using num assms(1,2) dt lt mt dsk by (simp add: h_def)
  then show ?thesis
    by (rule that) (use f(1) sk in \<open>simp_all add: h_def mx_def table_def\<close>)
qed

text \<open>C15. Ranking a hunt.  For settled options and events with distinct addresses, each measured or refused, the
  contracts of \<open>rankEvents\<close> hold, and the table is the reference table of the measured rows: the events are those
  collected, one entry each; the clean events (repeated, deviation within the noise bound) come first in the order
  of \<open>--hunt-rank\<close>, carry the ranks 1, 2, ... up to the requested top, and no later clean event ranks before an earlier
  one; every other event has no rank.\<close>

theorem ranked_events_form_the_table:
  assumes "0 < ho_top options" and "dless zero64 (ho_noise options)" and "distinct (map es_address collected)"
    and "\<forall>e\<in>set collected. sampled_or_refused (norm_of options) e"
  shows "\<exists>h k. rankEvents collected options method = Some h
      \<and> mset (map re_address (eh_entries h)) = mset (map es_address collected)
      \<and> k = min (ho_top options) (length (filter ranks_clean (eh_entries h)))
      \<and> map re_rank (eh_entries h) = map Some [1..<k + 1] @ replicate (length collected - k) None
      \<and> list_all ranks_clean (take k (eh_entries h))
      \<and> (\<forall>i < k. \<forall>j > i. j < length collected \<and> ranks_clean (eh_entries h ! j)
           \<longrightarrow> \<not> rank_before (ho_rank options) (eh_entries h ! j) (eh_entries h ! i))"
proof -
  obtain h rows where h: "rankEvents collected options method = Some h"
    and rows: "rank_rows (norm_of options) (ho_noise options) (method = Some MULTIPLEX) collected = Some rows"
    and t: "eh_entries h = rank_table (ho_rank options) (ho_top options) rows"
    by (rule rankEvents_table [OF assms])
  note f = rank_rows_facts [OF assms(4), of "ho_noise options" "method = Some MULTIPLEX", unfolded rows]
  have f2: "map re_address rows = map es_address collected" using f(1,2) by simp
  have f3: "\<forall>r\<in>set rows. re_rank r = None \<and> (ranks_clean r \<longrightarrow> (\<forall>rank. rank_key rank r \<noteq> NaN))" using f(1,3) by simp
  have len: "length rows = length collected" using arg_cong [OF f2, of length] by simp
  note shape = rank_table_shape [OF f3, where rank = "ho_rank options" and leading = "ho_top options", folded t, unfolded len]
  have "mset (map re_address (eh_entries h)) = mset (map es_address collected)"
    unfolding t rank_table_mset(1) f2 ..
  with h shape show ?thesis
    by (intro exI [of _ h] exI [of _ "min (ho_top options) (length (filter ranks_clean (eh_entries h)))"] conjI refl)
qed

text \<open>C27. The hunt is deterministic in its measurements: \<open>rankEvents\<close> answers the same table for every order in which
  the event samples arrive (the address breaks every tie).\<close>

theorem rank_table_ignores_arrival_order:
  assumes "0 < ho_top options" and "dless zero64 (ho_noise options)" and "distinct (map es_address collected)"
    and "\<forall>e\<in>set collected. sampled_or_refused (norm_of options) e" and "mset arrived = mset collected"
  shows "\<exists>h h'. rankEvents collected options method = Some h \<and> rankEvents arrived options method = Some h'
      \<and> eh_entries h' = eh_entries h \<and> mset (map se_address (eh_skipped h')) = mset (map se_address (eh_skipped h))"
proof -
  have set: "set arrived = set collected" using assms(5) by (rule mset_eq_setD)
  have dist: "distinct (map es_address arrived)" using assms(3,5) by (metis mset_eq_imp_distinct_iff mset_map)
  have meas: "\<forall>e\<in>set arrived. sampled_or_refused (norm_of options) e" using assms(4) set by simp
  let ?mx = "method = Some MULTIPLEX" and ?row = "\<lambda>e. the (rank_row (norm_of options) (ho_noise options) (method = Some MULTIPLEX) e)"
  note f = rank_rows_facts [OF assms(4), of "ho_noise options" ?mx] and g = rank_rows_facts [OF meas, of "ho_noise options" ?mx]
  obtain h where h: "rankEvents collected options method = Some h"
      "eh_entries h = rank_table (ho_rank options) (ho_top options) (map ?row collected)"
      "map se_address (eh_skipped h) = map es_address (filter (\<lambda>e. es_skipped e \<noteq> None) collected)"
    by (rule rankEvents_table [OF assms(1-4), where settled = "method"]) (use f(1) in auto)
  obtain h' where h': "rankEvents arrived options method = Some h'"
      "eh_entries h' = rank_table (ho_rank options) (ho_top options) (map ?row arrived)"
      "map se_address (eh_skipped h') = map es_address (filter (\<lambda>e. es_skipped e \<noteq> None) arrived)"
    by (rule rankEvents_table [OF assms(1,2) dist meas, where settled = "method"]) (use g(1) in auto)
  have "rank_table (ho_rank options) (ho_top options) (map ?row arrived)
      = rank_table (ho_rank options) (ho_top options) (map ?row collected)"
  proof (rule rank_table_order_free)
    show "distinct (map re_address (map ?row collected))" unfolding f(2) by (rule assms(3))
  qed (use f(3) assms(5) in auto)
  moreover have "mset (map se_address (eh_skipped h')) = mset (map se_address (eh_skipped h))"
    unfolding h(3) h'(3) mset_map mset_filter assms(5) ..
  ultimately show ?thesis using h h' by (intro exI [of _ h] exI [of _ h'] conjI) simp_all
qed

definition two_windows :: "hunt_sample list" where
  "two_windows =
     [\<lparr>hx_pass = 0, hx_stage = 0, hx_eventValue = 3, hx_anchorInstr = None, hx_anchorCycle = None, hx_iterations = 1, hx_disclosure = None\<rparr>,
      \<lparr>hx_pass = 1, hx_stage = 0, hx_eventValue = 3, hx_anchorInstr = None, hx_anchorCycle = None, hx_iterations = 1, hx_disclosure = None\<rparr>]"

definition measured_events :: "event_samples list" where
  "measured_events = [\<lparr>es_address = ''b'', es_samples = two_windows, es_skipped = None\<rparr>,
     \<lparr>es_address = ''a'', es_samples = [], es_skipped = Some SKIP_ABSENT\<rparr>]"

definition by_iteration :: hunt_options where
  "by_iteration = \<lparr>ho_selection = [], ho_norm = Some ITER, ho_rank = RATE, ho_top = 1, ho_noise = hundred64, ho_repeats = 2,
     ho_seed = 1, ho_budget = None, ho_sampleBudgetNs = None, ho_multiplexCap = None, ho_baseline = [], ho_emitRules = []\<rparr>"

lemma measured_events_settled:
  "0 < ho_top by_iteration" "dless zero64 (ho_noise by_iteration)" "distinct (map es_address measured_events)"
  "\<forall>e\<in>set measured_events. sampled_or_refused (norm_of by_iteration) e"
proof -
  show "dless zero64 (ho_noise by_iteration)"
    using hundred64_value zero64_value by (simp add: by_iteration_def dless_value)
  show "\<forall>e\<in>set measured_events. sampled_or_refused (norm_of by_iteration) e"
    by (simp add: measured_events_def two_windows_def sampled_or_refused_def norm_of_def by_iteration_def rateOf_def)
qed (simp_all add: by_iteration_def measured_events_def)

theorem ranked_events_form_the_table_witness:
  "\<exists>h k. rankEvents measured_events by_iteration (Some PASSES) = Some h
     \<and> mset (map re_address (eh_entries h)) = mset [''b'', ''a''] \<and> list_all ranks_clean (take k (eh_entries h))"
  using ranked_events_form_the_table [OF measured_events_settled, of "Some PASSES"] by (auto simp: measured_events_def)

theorem rank_table_ignores_arrival_order_witness:
  "\<exists>h h'. rankEvents measured_events by_iteration None = Some h \<and> rankEvents (rev measured_events) by_iteration None = Some h'
     \<and> eh_entries h' = eh_entries h"
proof -
  have "mset (rev measured_events) = mset measured_events" by simp
  from rank_table_ignores_arrival_order [OF measured_events_settled this, of None] show ?thesis by blast
qed

end
