(* ===== verification/Compare_Rule.thy ===== *)
theory Compare_Rule
  imports Hunt
begin

text \<open>
  The comparison rules (\<open>source/harness/compare.cpp\<close>, the parser half, and \<open>EntryHunt::toCompareRules\<close> of
  \<open>source/harness/hunt_plan.cpp\<close>): one text names a value of a report, an aggregate, a direction, a threshold and
  a filter.  A position of the text is the tail that starts there.  \<open>std::regex\<close> is the argument \<open>rx\<close>: the message
  of the error a pattern is refused with.
\<close>

subsection \<open>Data\<close>

datatype aggregate = A_MEDIAN | A_MEAN | A_MIN | A_MAX
datatype direction = LOWER_IS_BETTER | HIGHER_IS_BETTER

record compare_rule =
  rl_text :: string
  rl_valueName :: string
  rl_aggregate :: "aggregate option"
  rl_direction :: direction
  rl_relativeThreshold :: "binary64 option"
  rl_absoluteThreshold :: "binary64 option"
  rl_filter :: string

definition kLabelPrefixes :: "string list" where
  "kLabelPrefixes = [''counter:'', ''metric:'', ''stat:'', ''topdown:'']"

definition kAbsoluteMarker :: string where "kAbsoluteMarker = ''abs=''"

definition kEscapedCharacters :: string where
  "kEscapedCharacters = [CHR '':'', CHR '','', CHR ''@'', CHR 0x5C]"

subsection \<open>Texts\<close>

definition hex_digit :: "nat \<Rightarrow> char" where
  "hex_digit n = (if n < 10 then char_of (48 + n) else char_of (87 + n))"

fun quotedText :: "string \<Rightarrow> string" where
  "quotedText [] = []"
| "quotedText (c # cs) =
     (let byte = (of_char c :: nat)
      in if c = CHR 0x5C then [CHR 0x5C, CHR 0x5C]
         else if byte = 10 then [CHR 0x5C, CHR ''n'']
         else if byte = 13 then [CHR 0x5C, CHR ''r'']
         else if byte = 0 then [CHR 0x5C, CHR ''0'']
         else if byte < 32 \<or> byte = 127 then [CHR 0x5C, CHR ''x'', hex_digit (byte div 16), hex_digit (byte mod 16)]
         else [c]) @ quotedText cs"

definition isDecimalCharacter :: "char \<Rightarrow> bool" where
  "isDecimalCharacter c \<longleftrightarrow> c = CHR ''.'' \<or> is_digit c"

definition ruleFault :: "string \<Rightarrow> string \<Rightarrow> string \<Rightarrow> string" where
  "ruleFault field whole detail =
     ''the '' @ field @ '' of the rule '' @ quoted (quotedText whole) @ '' is not readable: '' @ detail"

definition labelPrefixOf :: "string \<Rightarrow> string" where
  "labelPrefixOf name = (case List.find (starts_with name) kLabelPrefixes of None \<Rightarrow> [] | Some p \<Rightarrow> p)"

text \<open>\<open>findOrEnd\<close> and the text it delimits: the text before a character and the tail that starts with it.\<close>

definition before_char :: "char \<Rightarrow> string \<Rightarrow> string" where
  "before_char c s = takeWhile (\<lambda>x. x \<noteq> c) s"

definition from_char :: "char \<Rightarrow> string \<Rightarrow> string" where
  "from_char c s = dropWhile (\<lambda>x. x \<noteq> c) s"

text \<open>
  \<open>std::from_chars\<close> for \<open>double\<close> on digits and dots: the digits, a dot and the digits after it, correctly rounded;
  an overflow and a non-zero text that rounds to zero are out of range.
\<close>

definition from_chars_decimal :: "string \<Rightarrow> (binary64 \<times> string) option" where
  "from_chars_decimal s =
     (let whole = takeWhile is_digit s; rest = dropWhile is_digit s;
          dot = (rest \<noteq> [] \<and> hd rest = CHR ''.'');
          frac = (if dot then takeWhile is_digit (tl rest) else []);
          tail = (if dot then dropWhile is_digit (tl rest) else rest);
          digits = digits_value 10 (whole @ frac);
          v = round64 False digits (10 ^ length frac)
      in if \<not> is_finite v \<or> digits \<noteq> 0 \<and> dzero v then None else Some (v, tail))"

definition readNumber :: "string \<Rightarrow> binary64 option" where
  "readNumber s =
     (if s = [] \<or> \<not> is_digit (hd s) then None
      else
        case from_chars_decimal s of
          None \<Rightarrow> None
        | Some (v, rest) \<Rightarrow> if rest \<noteq> [] \<or> \<not> list_all isDecimalCharacter s then None else Some v)"

definition readPercent :: "string \<Rightarrow> binary64 option" where
  "readPercent s =
     (if s = [] \<or> last s \<noteq> CHR ''%'' then None
      else map_option (\<lambda>n. ddiv n hundred64) (readNumber (butlast s)))"

definition readAbsolute :: "string \<Rightarrow> binary64 option" where
  "readAbsolute s =
     (if starts_with s kAbsoluteMarker then readNumber (drop (length kAbsoluteMarker) s) else None)"

definition readAggregate :: "string \<Rightarrow> aggregate option" where
  "readAggregate w =
     (if w = ''median'' then Some A_MEDIAN
      else if w = ''mean'' then Some A_MEAN
      else if w = ''min'' then Some A_MIN
      else if w = ''max'' then Some A_MAX
      else None)"

text \<open>The name up to the first unescaped colon or at sign, unescaped, and the tail there.\<close>

function scanName :: "bool \<Rightarrow> string \<Rightarrow> string \<times> string" where
  "scanName label [] = ([], [])"
| "scanName label (c # cs) =
     (if c = CHR '':'' \<or> c = CHR ''@'' then ([], c # cs)
      else if label \<and> c = CHR 0x5C \<and> cs \<noteq> [] \<and> hd cs \<in> set kEscapedCharacters
      then (let (name, rest) = scanName label (tl cs) in (hd cs # name, rest))
      else (let (name, rest) = scanName label cs in (c # name, rest)))"
  by pat_completeness auto
termination by (relation "measure (\<lambda>(label, s). length s)") auto

text \<open>The two thresholds of a threshold field.\<close>

definition readThreshold :: "string \<Rightarrow> (binary64 option \<times> binary64 option) option" where
  "readThreshold field =
     (let first = before_char (CHR '','') field; rest = from_char (CHR '','') field
      in if rest = []
         then (case readPercent first of
                 Some p \<Rightarrow> Some (Some p, None)
               | None \<Rightarrow> map_option (\<lambda>a. (None, Some a)) (readAbsolute field))
         else if CHR '','' \<in> set (tl rest) then None
         else (case (readPercent first, readAbsolute (tl rest)) of
                 (Some p, Some a) \<Rightarrow> Some (Some p, Some a)
               | _ \<Rightarrow> None))"

subsection \<open>Jitter and detector names\<close>

text \<open>The fields the rules read of a jitter fold, of its series and of a tracer cpu.\<close>

record jitter_stats =
  jt_gapCount :: u64
  jt_gapsPerSecond :: binary64
  jt_minNs :: u64
  jt_medianNs :: u64
  jt_meanNs :: binary64
  jt_p90Ns :: u64
  jt_p99Ns :: u64
  jt_p999Ns :: u64
  jt_p9999Ns :: u64
  jt_maxNs :: u64
  jt_totalNs :: u64
  jt_totalPercent :: binary64
  jt_runtimeNs :: u64
  jt_thresholdNs :: u64
  jt_loopPeriodNs :: u64
  jt_droppedGaps :: u64
  jt_smiDelta :: "u64 option"
  jt_nmiDelta :: "u64 option"
  jt_smiGapCount :: u64

record jitter_series =
  js_sampleCount :: u64
  js_minValue :: u64
  js_medianValue :: u64
  js_meanValue :: binary64
  js_p90Value :: u64
  js_p99Value :: u64
  js_p999Value :: u64
  js_p9999Value :: u64
  js_maxValue :: u64
  js_noisePercent :: binary64
  js_seriesRuntimeNs :: u64
  js_droppedSamples :: u64
  js_unitTimeNs :: u64
  js_quantumNs :: u64
  js_resampleStepNs :: u64
  js_spectrumPoints :: u64

record jitter_fold =
  jf_cpu :: u32
  jf_stats :: jitter_stats
  jf_series :: "jitter_series option"

record tracer_cpu =
  tc_cpu :: u32
  tc_maxGapNs :: "u64 option"
  tc_gapCount :: "u64 option"
  tc_nmiCount :: "u64 option"

definition kKeptNothing :: jitter_series where
  "kKeptNothing = \<lparr>js_sampleCount = 0, js_minValue = 0, js_medianValue = 0, js_meanValue = zero64, js_p90Value = 0, js_p99Value = 0, js_p999Value = 0, js_p9999Value = 0,
     js_maxValue = 0, js_noisePercent = zero64, js_seriesRuntimeNs = 0, js_droppedSamples = 0, js_unitTimeNs = 0,
     js_quantumNs = 0, js_resampleStepNs = 0, js_spectrumPoints = 0\<rparr>"

definition seriesOf :: "jitter_fold \<Rightarrow> jitter_series" where
  "seriesOf fold' = (case jf_series fold' of None \<Rightarrow> kKeptNothing | Some s \<Rightarrow> s)"

definition keptFigureOf :: "u64 option \<Rightarrow> binary64" where
  "keptFigureOf figure = (case figure of None \<Rightarrow> zero64 | Some w \<Rightarrow> of_u64 w)"

definition kJitterFields :: "(string \<times> (jitter_fold \<Rightarrow> binary64)) list" where
  "kJitterFields =
     [(''gapCount'', \<lambda>f. of_u64 (jt_gapCount (jf_stats f))),
      (''gapsPerSecond'', \<lambda>f. jt_gapsPerSecond (jf_stats f)),
      (''minNs'', \<lambda>f. of_u64 (jt_minNs (jf_stats f))),
      (''medianNs'', \<lambda>f. of_u64 (jt_medianNs (jf_stats f))),
      (''meanNs'', \<lambda>f. jt_meanNs (jf_stats f)),
      (''p90Ns'', \<lambda>f. of_u64 (jt_p90Ns (jf_stats f))),
      (''p99Ns'', \<lambda>f. of_u64 (jt_p99Ns (jf_stats f))),
      (''p999Ns'', \<lambda>f. of_u64 (jt_p999Ns (jf_stats f))),
      (''p9999Ns'', \<lambda>f. of_u64 (jt_p9999Ns (jf_stats f))),
      (''maxNs'', \<lambda>f. of_u64 (jt_maxNs (jf_stats f))),
      (''totalNs'', \<lambda>f. of_u64 (jt_totalNs (jf_stats f))),
      (''totalPercent'', \<lambda>f. jt_totalPercent (jf_stats f)),
      (''runtimeNs'', \<lambda>f. of_u64 (jt_runtimeNs (jf_stats f))),
      (''thresholdNs'', \<lambda>f. of_u64 (jt_thresholdNs (jf_stats f))),
      (''loopPeriodNs'', \<lambda>f. of_u64 (jt_loopPeriodNs (jf_stats f))),
      (''droppedGaps'', \<lambda>f. of_u64 (jt_droppedGaps (jf_stats f))),
      (''sampleCount'', \<lambda>f. of_u64 (js_sampleCount (seriesOf f))),
      (''minValue'', \<lambda>f. of_u64 (js_minValue (seriesOf f))),
      (''medianValue'', \<lambda>f. of_u64 (js_medianValue (seriesOf f))),
      (''meanValue'', \<lambda>f. js_meanValue (seriesOf f)),
      (''p90Value'', \<lambda>f. of_u64 (js_p90Value (seriesOf f))),
      (''p99Value'', \<lambda>f. of_u64 (js_p99Value (seriesOf f))),
      (''p999Value'', \<lambda>f. of_u64 (js_p999Value (seriesOf f))),
      (''p9999Value'', \<lambda>f. of_u64 (js_p9999Value (seriesOf f))),
      (''maxValue'', \<lambda>f. of_u64 (js_maxValue (seriesOf f))),
      (''noisePercent'', \<lambda>f. js_noisePercent (seriesOf f)),
      (''seriesRuntimeNs'', \<lambda>f. of_u64 (js_seriesRuntimeNs (seriesOf f))),
      (''droppedSamples'', \<lambda>f. of_u64 (js_droppedSamples (seriesOf f))),
      (''unitTimeNs'', \<lambda>f. of_u64 (js_unitTimeNs (seriesOf f))),
      (''quantumNs'', \<lambda>f. of_u64 (js_quantumNs (seriesOf f))),
      (''resampleStepNs'', \<lambda>f. of_u64 (js_resampleStepNs (seriesOf f))),
      (''spectrumPoints'', \<lambda>f. of_u64 (js_spectrumPoints (seriesOf f))),
      (''smiDelta'', \<lambda>f. keptFigureOf (jt_smiDelta (jf_stats f))),
      (''nmiDelta'', \<lambda>f. keptFigureOf (jt_nmiDelta (jf_stats f))),
      (''smiGapCount'', \<lambda>f. of_u64 (jt_smiGapCount (jf_stats f)))]"

definition figureOf :: "u64 option \<Rightarrow> binary64 option" where
  "figureOf figure = map_option of_u64 figure"

definition kHwlatFields :: "(string \<times> (tracer_cpu \<Rightarrow> binary64 option)) list" where
  "kHwlatFields =
     [(''maxGapNs'', \<lambda>c. figureOf (tc_maxGapNs c)), (''gapCount'', \<lambda>c. figureOf (tc_gapCount c)),
      (''nmiCount'', \<lambda>c. figureOf (tc_nmiCount c))]"

record jitter_name =
  jn_runScoped :: bool
  jn_worstCpu :: bool
  jn_cpu :: u32
  jn_field :: nat

record hwlat_name =
  hn_worstCpu :: bool
  hn_cpu :: u32
  hn_figure :: nat

text \<open>The cpu token: \<open>None\<close> is the word \<open>any\<close>.\<close>

definition read_cpu :: "string \<Rightarrow> string + u32 option" where
  "read_cpu token =
     (if token = ''any'' then Inr None
      else if token = [] \<or> \<not> list_all is_digit token \<or> 2 ^ 32 \<le> digits_value 10 token
      then Inl (quoted token @ '' is neither an index nor '' @ quoted ''any'')
      else Inr (Some (of_nat (digits_value 10 token))))"

text \<open>The cpu, and the field up to the next colon or at sign: the index of the field and the tail after it.\<close>

definition read_cpu_field :: "string list \<Rightarrow> string \<Rightarrow> string \<Rightarrow> string + (u32 option \<times> nat \<times> string)" where
  "read_cpu_field field_names fault rest =
     (case read_cpu (before_char (CHR '':'') rest) of
        Inl e \<Rightarrow> Inl e
      | Inr cpu \<Rightarrow>
          if from_char (CHR '':'') rest = [] then Inl ''the name carries no field''
          else
            let body = tl (from_char (CHR '':'') rest);
                token = takeWhile (\<lambda>c. c \<noteq> CHR '':'' \<and> c \<noteq> CHR ''@'') body
            in case index_of (\<lambda>f. f = token) field_names of
                 None \<Rightarrow> Inl (quoted token @ fault)
               | Some i \<Rightarrow> Inr (cpu, i, dropWhile (\<lambda>c. c \<noteq> CHR '':'' \<and> c \<noteq> CHR ''@'') body))"

text \<open>The parts and the length the name ends at.\<close>

definition readJitterName :: "string \<Rightarrow> string + (jitter_name \<times> nat)" where
  "readJitterName name =
     (let run = starts_with name ''run:''
      in case read_cpu_field (map fst kJitterFields) '' names none of the thirty-five jitter fields''
                (if run then drop 4 name else name) of
           Inl e \<Rightarrow> Inl e
         | Inr (cpu, i, tail) \<Rightarrow>
             Inr (\<lparr>jn_runScoped = run, jn_worstCpu = (cpu = None), jn_cpu = (case cpu of None \<Rightarrow> 0 | Some c \<Rightarrow> c), jn_field = i\<rparr>,
                  length name - length tail))"

definition readHwlatName :: "string \<Rightarrow> string + (hwlat_name \<times> nat)" where
  "readHwlatName name =
     (case read_cpu_field (map fst kHwlatFields) '' names none of the three hwlat figures'' name of
        Inl e \<Rightarrow> Inl e
      | Inr (cpu, i, tail) \<Rightarrow>
          Inr (\<lparr>hn_worstCpu = (cpu = None), hn_cpu = (case cpu of None \<Rightarrow> 0 | Some c \<Rightarrow> c), hn_figure = i\<rparr>,
               length name - length tail))"

subsection \<open>One rule\<close>

text \<open>The value name of a rule text, whether it takes an aggregate, and the tail after it.\<close>

definition rule_value :: "string \<Rightarrow> string + (string \<times> bool \<times> string)" where
  "rule_value whole =
     (let prefix = labelPrefixOf whole;
          (name, tail) = scanName (prefix \<noteq> []) (drop (length prefix) whole);
          special = (tail \<noteq> [] \<and> hd tail = CHR '':'')
      in if prefix \<noteq> []
         then (if name = [] then Inl (''the '' @ quoted (quotedText prefix) @ '' prefix names nothing'')
               else Inr (prefix @ name, prefix \<noteq> ''stat:'' \<and> prefix \<noteq> ''topdown:'', tail))
         else if name = ''jitter'' \<and> special
         then (case readJitterName (tl tail) of
                 Inl e \<Rightarrow> Inl e
               | Inr (parts, n) \<Rightarrow> Inr (take (length name + 1 + n) whole, False, drop n (tl tail)))
         else if name = ''hwlat'' \<and> special
         then (case readHwlatName (tl tail) of
                 Inl e \<Rightarrow> Inl e
               | Inr (parts, n) \<Rightarrow> Inr (take (length name + 1 + n) whole, False, drop n (tl tail)))
         else if name = ''time'' \<or> name = ''real_time'' \<or> name = ''cpu_time'' then Inr (name, True, tail)
         else if starts_with name ''p''
         then (if readNumber (tl name) = None then Inl (quoted (quotedText name) @ '' carries no percentile point'')
               else Inr (name, False, tail))
         else Inl (quoted (quotedText name) @ '' is not a value the report carries''))"

text \<open>The aggregate after a value name, and the tail after it.\<close>

definition rule_aggregate :: "bool \<Rightarrow> string \<Rightarrow> string + (aggregate option \<times> string)" where
  "rule_aggregate statisticsValue tail =
     (if tail \<noteq> [] \<and> hd tail = CHR ''@''
      then if \<not> statisticsValue then Inl ''this value carries one value and takes no aggregate''
        else
          (case readAggregate (before_char (CHR '':'') (tl tail)) of
             None \<Rightarrow> Inl ''the suffix names none of median, mean, min or max''
           | Some a \<Rightarrow> Inr (Some a, from_char (CHR '':'') (tl tail)))
      else Inr (if statisticsValue then Some A_MEDIAN else None, tail))"

definition rule_direction :: "string \<Rightarrow> string + (direction \<times> string)" where
  "rule_direction tail =
     (if tail = [] then Inl ''the rule names no direction word''
      else
        let word' = before_char (CHR '':'') (tl tail); rest = from_char (CHR '':'') (tl tail)
        in if word' = ''lower'' then Inr (LOWER_IS_BETTER, rest)
           else if word' = ''higher'' then Inr (HIGHER_IS_BETTER, rest)
           else Inl (quoted (quotedText word') @ '' is neither lower nor higher''))"

definition rule_threshold :: "string \<Rightarrow> string + ((binary64 option \<times> binary64 option) \<times> string)" where
  "rule_threshold tail =
     (if tail = [] then Inl ''the rule carries no threshold field''
      else
        let field = before_char (CHR '':'') (tl tail)
        in case readThreshold field of
             None \<Rightarrow> Inl (quoted (quotedText field) @ '' is neither a percent, nor the abs= marker, nor ''
                 @ ''the two in that order with one comma between'')
           | Some th \<Rightarrow> Inr (th, from_char (CHR '':'') (tl tail)))"

definition rule_filter :: "(string \<Rightarrow> string option) \<Rightarrow> string \<Rightarrow> string + string" where
  "rule_filter rx tail =
     (let pattern = tl tail
      in if tail = [] \<or> pattern = [] then Inr []
         else
           (case rx pattern of
              None \<Rightarrow> Inr pattern
            | Some cause \<Rightarrow> Inl (quoted (quotedText pattern) @ '' is no regular expression: '' @ quotedText cause)))"

definition readRule :: "(string \<Rightarrow> string option) \<Rightarrow> string \<Rightarrow> string + compare_rule" where
  "readRule rx whole =
     (case rule_value whole of
        Inl e \<Rightarrow> Inl (ruleFault ''value name'' whole e)
      | Inr (name, stat, t1) \<Rightarrow>
     (case rule_aggregate stat t1 of
        Inl e \<Rightarrow> Inl (ruleFault ''aggregate'' whole e)
      | Inr (agg, t2) \<Rightarrow>
     (case rule_direction t2 of
        Inl e \<Rightarrow> Inl (ruleFault ''direction'' whole e)
      | Inr (dir, t3) \<Rightarrow>
     (case rule_threshold t3 of
        Inl e \<Rightarrow> Inl (ruleFault ''threshold'' whole e)
      | Inr (th, t4) \<Rightarrow>
     (case rule_filter rx t4 of
        Inl e \<Rightarrow> Inl (ruleFault ''filter'' whole e)
      | Inr f \<Rightarrow>
          Inr \<lparr>rl_text = whole, rl_valueName = name, rl_aggregate = agg, rl_direction = dir,
               rl_relativeThreshold = fst th, rl_absoluteThreshold = snd th, rl_filter = f\<rparr>)))))"

definition parseCompareRule :: "(string \<Rightarrow> string option) \<Rightarrow> string \<Rightarrow> (string + compare_rule) checked" where
  "parseCompareRule rx whole =
     (if CHR 0x00 \<in> set whole then None
      else
        case readRule rx whole of
          Inl e \<Rightarrow> Some (Inl e)
        | Inr r \<Rightarrow>
            if rl_text r = whole \<and> (rl_relativeThreshold r \<noteq> None \<or> rl_absoluteThreshold r \<noteq> None)
            then Some (Inr r) else None)"

subsection \<open>The rules a hunt hands on\<close>

text \<open>\<open>ruleThreshold\<close> is the \<open>%g\<close> form of a double, the argument \<open>g\<close>.\<close>

definition toCompareRules :: "(binary64 \<Rightarrow> string) \<Rightarrow> entry_hunt \<Rightarrow> nat \<Rightarrow> binary64 \<Rightarrow> string list checked" where
  "toCompareRules g hunt topN noisePercent =
     (if \<not> dless zero64 noisePercent then None
      else Some (map (\<lambda>(r, e).
            ''counter:'' @ re_address e @ ''@median:''
              @ (case re_delta e of None \<Rightarrow> ''lower'' | Some d \<Rightarrow> if dless zero64 d then ''higher'' else ''lower'')
              @ '':'' @ g noisePercent @ ''%'')
          (take topN (sort_by (\<lambda>l r. fst l < fst r)
             (concat (map (\<lambda>e. case re_rank e of None \<Rightarrow> [] | Some r \<Rightarrow> [(r, e)]) (eh_entries hunt)))))))"

end
