(* ===== verification/Rule_Facts.thy ===== *)
theory Rule_Facts
  imports Compare_Rule
begin

text \<open>
  What the rule parser promises: it keeps its contract on every text without a NUL, a rule spelled from its parts reads
  back to those parts, and the rules a hunt hands on read back to the events it ranked, provided the address and the
  spelled threshold stay inside the grammar.
\<close>

subsection \<open>Fields of a text\<close>

lemma before_from_char:
  assumes "c \<notin> set w"
  shows "before_char c w = w" and "from_char c w = []"
    and "before_char c (w @ c # t) = w" and "from_char c (w @ c # t) = c # t"
  using assms by (induction w) (auto simp: before_char_def from_char_def)

lemma is_digit_neq: "\<not> is_digit (CHR '':'')" "\<not> is_digit (CHR 0x25)" "\<not> is_digit (CHR '','')" "\<not> is_digit (CHR ''@'')"
    "\<not> is_digit (CHR ''e'')" "\<not> is_digit (CHR 0x00)"
  by (simp_all add: is_digit_def)

lemma readNumber_characters:
  assumes "readNumber s = Some v"
  shows "\<forall>c \<in> set s. c = CHR ''.'' \<or> is_digit c"
  using assms by (auto simp: readNumber_def isDecimalCharacter_def list_all_iff split: if_splits option.splits prod.splits)

lemma readNumber_excludes:
  assumes "readNumber s = Some v" and "c \<noteq> CHR ''.''" and "\<not> is_digit c"
  shows "c \<notin> set s"
  using readNumber_characters [OF assms(1)] assms(2,3) by blast

lemma readPercent_spelled: "readPercent (s @ ''%'') = map_option (\<lambda>n. ddiv n hundred64) (readNumber s)"
  by (simp add: readPercent_def)

lemma readThreshold_percent:
  assumes "readNumber s = Some v"
  shows "readThreshold (s @ ''%'') = Some (Some (ddiv v hundred64), None)"
proof -
  have "CHR '','' \<notin> set (s @ ''%'')"
    using readNumber_excludes [OF assms, of "CHR '',''"] by (simp add: is_digit_neq)
  then show ?thesis
    using assms by (simp add: readThreshold_def before_from_char readPercent_spelled)
qed

lemma readThreshold_has_threshold: "readThreshold s = Some th \<Longrightarrow> fst th \<noteq> None \<or> snd th \<noteq> None"
  by (auto simp: readThreshold_def Let_def split: if_splits option.splits)

subsection \<open>Numbers\<close>

lemma small_round_finite:
  assumes "n < 2 ^ 53"
  shows "is_finite (round64 False n 1)" and "dzero (round64 False n 1) \<longleftrightarrow> n = 0"
proof -
  have r: "represents (round64 False n 1) (int n)" using round64_exact [of 1 n n False] assms by simp
  then show "is_finite (round64 False n 1)" by (cases "round64 False n 1") auto
  show "dzero (round64 False n 1) \<longleftrightarrow> n = 0" using r
    by (cases "round64 False n 1") (auto simp: signed_sig_def split: if_splits)
qed

lemma digits_only:
  assumes "\<forall>c \<in> set s. is_digit c"
  shows "takeWhile is_digit s = s" and "dropWhile is_digit s = []"
  using assms by (simp_all add: takeWhile_eq_all_conv dropWhile_eq_Nil_conv)

lemma from_chars_decimal_whole:
  assumes "n < 2 ^ 53"
  shows "from_chars_decimal (decimal n) = Some (round64 False n 1, [])"
  using small_round_finite [OF assms]
  by (auto simp: from_chars_decimal_def Let_def digits_only [OF decimal_digits [of n]])

lemma readNumber_whole:
  assumes "n < 2 ^ 53"
  shows "readNumber (decimal n) = Some (round64 False n 1)"
proof -
  have "is_digit (hd (decimal n))" using decimal_digits [of n] by (simp add: hd_in_set)
  moreover have "list_all isDecimalCharacter (decimal n)"
    using decimal_digits [of n] by (simp add: list_all_iff isDecimalCharacter_def)
  ultimately show ?thesis
    by (simp add: readNumber_def from_chars_decimal_whole [OF assms] del: decimal.simps)
qed

subsection \<open>Labels\<close>

fun escape_label :: "string \<Rightarrow> string" where
  "escape_label [] = []"
| "escape_label (c # cs) = (if c \<in> set kEscapedCharacters then [CHR 0x5C, c] else [c]) @ escape_label cs"

lemma scanName_escaped:
  assumes "rest = [] \<or> hd rest = CHR '':'' \<or> hd rest = CHR ''@''"
  shows "scanName True (escape_label label @ rest) = (label, rest)"
proof (induction label)
  case Nil
  then show ?case using assms by (cases rest) auto
next
  case (Cons c label)
  then show ?case by (auto simp: kEscapedCharacters_def)
qed

lemma escape_label_plain:
  assumes "CHR '':'' \<notin> set l" and "CHR ''@'' \<notin> set l" and "CHR 0x5C \<notin> set l" and "CHR '','' \<notin> set l"
  shows "escape_label l = l"
  using assms by (induction l) (auto simp: kEscapedCharacters_def)

lemma escape_label_NUL: "CHR 0x00 \<in> set (escape_label l) \<longleftrightarrow> CHR 0x00 \<in> set l"
  by (induction l) auto

lemma labelPrefixOf_append:
  assumes "p \<in> set kLabelPrefixes"
  shows "labelPrefixOf (p @ t) = p"
proof -
  have "p = ''counter:'' \<or> p = ''metric:'' \<or> p = ''stat:'' \<or> p = ''topdown:''"
    using assms by (simp add: kLabelPrefixes_def)
  then show ?thesis by (elim disjE) (simp_all add: kLabelPrefixes_def labelPrefixOf_def starts_with_def)
qed

lemma scanName_plain:
  assumes "CHR '':'' \<notin> set l" and "CHR ''@'' \<notin> set l" and "CHR 0x5C \<notin> set l"
    and "rest = [] \<or> hd rest = CHR '':'' \<or> hd rest = CHR ''@''"
  shows "scanName True (l @ rest) = (l, rest)"
  using assms
proof (induction l)
  case Nil
  then show ?case by (cases rest) auto
next
  case (Cons c l)
  then have "c \<noteq> CHR '':''" "c \<noteq> CHR ''@''" "c \<noteq> CHR 0x5C" "scanName True (l @ rest) = (l, rest)" by auto
  then show ?case by simp
qed

subsection \<open>The words of a rule\<close>

fun aggregate_word :: "aggregate \<Rightarrow> string" where
  "aggregate_word A_MEDIAN = ''median''"
| "aggregate_word A_MEAN = ''mean''"
| "aggregate_word A_MIN = ''min''"
| "aggregate_word A_MAX = ''max''"

fun direction_word :: "direction \<Rightarrow> string" where
  "direction_word LOWER_IS_BETTER = ''lower''"
| "direction_word HIGHER_IS_BETTER = ''higher''"

definition summarized :: "string \<Rightarrow> bool" where
  "summarized p \<longleftrightarrow> p = ''counter:'' \<or> p = ''metric:''"

definition rule_suffix :: "aggregate option \<Rightarrow> direction \<Rightarrow> string \<Rightarrow> string \<Rightarrow> string" where
  "rule_suffix agg dir th flt =
     (case agg of None \<Rightarrow> [] | Some a \<Rightarrow> CHR ''@'' # aggregate_word a)
     @ CHR '':'' # direction_word dir @ CHR '':'' # th @ (if flt = [] then [] else CHR '':'' # flt)"

lemma word_characters: "CHR '':'' \<notin> set (aggregate_word a)" "CHR '':'' \<notin> set (direction_word d)"
    "CHR 0x00 \<notin> set (aggregate_word a)" "CHR 0x00 \<notin> set (direction_word d)"
  by (cases a; cases d; simp)+

lemma readAggregate_word: "readAggregate (aggregate_word a) = Some a"
  by (cases a) (simp_all add: readAggregate_def)

lemma rule_direction_word: "rule_direction (CHR '':'' # direction_word d @ CHR '':'' # t) = Inr (d, CHR '':'' # t)"
  by (cases d) (simp_all add: rule_direction_def before_char_def from_char_def)

lemma rule_aggregate_suffix:
  assumes "agg \<noteq> None \<longrightarrow> stat"
  shows "rule_aggregate stat ((case agg of None \<Rightarrow> [] | Some a \<Rightarrow> CHR ''@'' # aggregate_word a) @ CHR '':'' # t)
       = Inr (if stat then Some (case agg of None \<Rightarrow> A_MEDIAN | Some a \<Rightarrow> a) else None, CHR '':'' # t)"
  using assms by (cases agg) (simp_all add: rule_aggregate_def before_from_char word_characters readAggregate_word)

lemma rule_threshold_field:
  assumes "readThreshold th = Some x" and "CHR '':'' \<notin> set th"
  shows "rule_threshold (CHR '':'' # th @ (if flt = [] then [] else CHR '':'' # flt))
       = Inr (x, if flt = [] then [] else CHR '':'' # flt)"
  using assms by (auto simp: rule_threshold_def before_from_char)

lemma readRule_suffix:
  assumes v: "rule_value whole = Inr (name, stat, rule_suffix agg dir th flt)"
    and agg: "agg \<noteq> None \<longrightarrow> stat"
    and th: "readThreshold th = Some x" "CHR '':'' \<notin> set th"
    and flt: "flt = [] \<or> rx flt = None"
  shows "readRule rx whole = Inr \<lparr>rl_text = whole, rl_valueName = name,
           rl_aggregate = (if stat then Some (case agg of None \<Rightarrow> A_MEDIAN | Some a \<Rightarrow> a) else None),
           rl_direction = dir, rl_relativeThreshold = fst x, rl_absoluteThreshold = snd x, rl_filter = flt\<rparr>"
proof -
  have f: "rule_filter rx (if flt = [] then [] else CHR '':'' # flt) = Inr flt"
    using flt by (auto simp: rule_filter_def)
  show ?thesis
    unfolding readRule_def v rule_suffix_def sum.case prod.case rule_aggregate_suffix [OF agg] rule_direction_word
      rule_threshold_field [OF th] f by simp
qed

lemma rule_value_label:
  assumes p: "p \<in> set kLabelPrefixes" and l: "label \<noteq> []"
    and scan: "scanName True (spelled @ rule_suffix agg dir th flt) = (label, rule_suffix agg dir th flt)"
  shows "rule_value (p @ spelled @ rule_suffix agg dir th flt) = Inr (p @ label, summarized p, rule_suffix agg dir th flt)"
proof -
  have "p \<noteq> []" using p by (auto simp: kLabelPrefixes_def)
  moreover have "(p \<noteq> ''stat:'' \<and> p \<noteq> ''topdown:'') = summarized p"
    using p by (auto simp: kLabelPrefixes_def summarized_def)
  ultimately show ?thesis
    using l by (simp add: rule_value_def labelPrefixOf_append [OF p] scan Let_def)
qed

lemma suffix_head: "rule_suffix agg dir th flt = [] \<or> hd (rule_suffix agg dir th flt) = CHR '':'' \<or> hd (rule_suffix agg dir th flt) = CHR ''@''"
  by (auto simp: rule_suffix_def split: option.splits)

lemma parseCompareRule_read:
  assumes "CHR 0x00 \<notin> set whole" and "readRule rx whole = Inr r" and "rl_text r = whole"
    and "rl_relativeThreshold r \<noteq> None \<or> rl_absoluteThreshold r \<noteq> None"
  shows "parseCompareRule rx whole = Some (Inr r)"
  using assms by (simp add: parseCompareRule_def)

subsection \<open>The contract of the parser\<close>

text \<open>For every text without a NUL the parser of comparison rules answers, keeping its postcondition: a rule carries
  the whole text and at least one threshold, and it names an aggregate exactly when its value is one the report
  summarizes (a time column, a counter or a metric).\<close>
theorem rule_parser_keeps_its_contract:
  assumes "CHR 0x00 \<notin> set whole"
  shows "\<exists>answer. parseCompareRule rx whole = Some answer
           \<and> (\<forall>r. answer = Inr r \<longrightarrow> rl_text r = whole \<and> (rl_relativeThreshold r \<noteq> None \<or> rl_absoluteThreshold r \<noteq> None)
                \<and> (\<exists>name stat tail. rule_value whole = Inr (name, stat, tail) \<and> rl_valueName r = name
                     \<and> (rl_aggregate r \<noteq> None \<longleftrightarrow> stat)))"
proof (cases "readRule rx whole")
  case (Inl e)
  then show ?thesis using assms by (simp add: parseCompareRule_def)
next
  case (Inr r)
  obtain name stat t1 agg t2 dir t3 th t4 f where
      v: "rule_value whole = Inr (name, stat, t1)" "rule_aggregate stat t1 = Inr (agg, t2)"
    and th: "rule_threshold t3 = Inr (th, t4)"
    and r: "r = \<lparr>rl_text = whole, rl_valueName = name, rl_aggregate = agg, rl_direction = dir,
               rl_relativeThreshold = fst th, rl_absoluteThreshold = snd th, rl_filter = f\<rparr>"
    using Inr by (auto simp: readRule_def split: sum.splits prod.splits)
  have "fst th \<noteq> None \<or> snd th \<noteq> None"
    using th by (auto simp: rule_threshold_def Let_def dest: readThreshold_has_threshold split: if_splits option.splits)
  moreover have "agg \<noteq> None \<longleftrightarrow> stat"
    using v(2) by (auto simp: rule_aggregate_def split: if_splits option.splits) (metis option.exhaust)
  ultimately show ?thesis
    using assms Inr v r by (auto simp: parseCompareRule_def)
qed

lemma rule_parser_keeps_its_contract_witness:
  "\<exists>answer. parseCompareRule (\<lambda>_. None) ''time:lower:5%'' = Some answer"
  using rule_parser_keeps_its_contract [of "''time:lower:5%''" "\<lambda>_. None"] by auto

subsection \<open>Spelled rules\<close>

definition spelled_rule :: "string \<Rightarrow> string \<Rightarrow> aggregate option \<Rightarrow> direction \<Rightarrow> string \<Rightarrow> string \<Rightarrow> string" where
  "spelled_rule p label agg dir th flt = p @ escape_label label @ rule_suffix agg dir th flt"

lemma spelled_NUL:
  assumes "p \<in> set kLabelPrefixes" and "CHR 0x00 \<notin> set label \<union> set th \<union> set flt"
  shows "CHR 0x00 \<notin> set (spelled_rule p label agg dir th flt)"
proof -
  have "CHR 0x00 \<notin> set p" using assms(1) by (auto simp: kLabelPrefixes_def)
  then show ?thesis
    using assms(2) by (auto simp: spelled_rule_def rule_suffix_def escape_label_NUL word_characters split: option.splits)
qed

text \<open>C25. Round trip of a comparison rule: a rule spelled from a labelled value (its label escaped), an aggregate where
  the value is summarized, a direction, a readable threshold and a filter the regex library accepts reads back to
  exactly those parts, with the median where no aggregate is written.\<close>
theorem spelled_rule_reads_back:
  assumes p: "p \<in> set kLabelPrefixes" and l: "label \<noteq> []" and agg: "agg \<noteq> None \<longrightarrow> summarized p"
    and th: "readThreshold th = Some x" "CHR '':'' \<notin> set th"
    and flt: "flt = [] \<or> rx flt = None"
    and nul: "CHR 0x00 \<notin> set label \<union> set th \<union> set flt"
  shows "parseCompareRule rx (spelled_rule p label agg dir th flt)
       = Some (Inr \<lparr>rl_text = spelled_rule p label agg dir th flt, rl_valueName = p @ label,
           rl_aggregate = (if summarized p then Some (case agg of None \<Rightarrow> A_MEDIAN | Some a \<Rightarrow> a) else None),
           rl_direction = dir, rl_relativeThreshold = fst x, rl_absoluteThreshold = snd x, rl_filter = flt\<rparr>)"
proof (rule parseCompareRule_read)
  have "rule_value (spelled_rule p label agg dir th flt) = Inr (p @ label, summarized p, rule_suffix agg dir th flt)"
    unfolding spelled_rule_def by (rule rule_value_label [OF p l scanName_escaped [OF suffix_head]])
  then show "readRule rx (spelled_rule p label agg dir th flt) = Inr \<lparr>rl_text = spelled_rule p label agg dir th flt,
      rl_valueName = p @ label,
      rl_aggregate = (if summarized p then Some (case agg of None \<Rightarrow> A_MEDIAN | Some a \<Rightarrow> a) else None),
      rl_direction = dir, rl_relativeThreshold = fst x, rl_absoluteThreshold = snd x, rl_filter = flt\<rparr>"
    by (rule readRule_suffix) (use agg th flt in simp_all)
qed (use spelled_NUL [OF p nul] readThreshold_has_threshold [OF th(1)] in simp_all)

lemma decimal_five: "decimal 5 = ''5''"
  by (simp add: decimal.simps [of 5] digit_char_def char_of_def bit_iff_odd)

lemma five_percent: "readThreshold ''5%'' = Some (Some (ddiv (round64 False 5 1) hundred64), None)"
  using readThreshold_percent [OF readNumber_whole [of 5]] by (simp add: decimal_five)

lemma spelled_rule_reads_back_witness:
  "parseCompareRule (\<lambda>_. None) (''counter:a'' @ CHR 0x5C # '':b@max:higher:5%:x'')
   = Some (Inr \<lparr>rl_text = (''counter:a'' @ CHR 0x5C # '':b@max:higher:5%:x''), rl_valueName = ''counter:a:b'', rl_aggregate = Some A_MAX,
       rl_direction = HIGHER_IS_BETTER, rl_relativeThreshold = Some (ddiv (round64 False 5 1) hundred64),
       rl_absoluteThreshold = None, rl_filter = ''x''\<rparr>)"
proof -
  have "spelled_rule ''counter:'' ''a:b'' (Some A_MAX) HIGHER_IS_BETTER ''5%'' ''x'' = (''counter:a'' @ CHR 0x5C # '':b@max:higher:5%:x'')"
    by (simp add: spelled_rule_def rule_suffix_def kEscapedCharacters_def)
  then show ?thesis
    using spelled_rule_reads_back [of "''counter:''" "''a:b''" "Some A_MAX" "''5%''"
        "(Some (ddiv (round64 False 5 1) hundred64), None)" "''x''" "\<lambda>_. None" HIGHER_IS_BETTER]
    by (simp add: kLabelPrefixes_def summarized_def five_percent)
qed

subsection \<open>Rules handed on by a hunt\<close>

definition plain_address :: "string \<Rightarrow> bool" where
  "plain_address a \<longleftrightarrow> a \<noteq> [] \<and> CHR '':'' \<notin> set a \<and> CHR ''@'' \<notin> set a \<and> CHR 0x5C \<notin> set a \<and> CHR 0x00 \<notin> set a"

definition promoted :: "entry_hunt \<Rightarrow> nat \<Rightarrow> ranked_event list" where
  "promoted hunt topN = map snd (take topN (sort_by (\<lambda>l r. fst l < fst r)
     (concat (map (\<lambda>e. case re_rank e of None \<Rightarrow> [] | Some r \<Rightarrow> [(r, e)]) (eh_entries hunt)))))"

definition promoted_direction :: "ranked_event \<Rightarrow> direction" where
  "promoted_direction e = (case re_delta e of None \<Rightarrow> LOWER_IS_BETTER
     | Some d \<Rightarrow> if dless zero64 d then HIGHER_IS_BETTER else LOWER_IS_BETTER)"

definition promoted_text :: "string \<Rightarrow> ranked_event \<Rightarrow> string" where
  "promoted_text number e = ''counter:'' @ re_address e @ rule_suffix (Some A_MEDIAN) (promoted_direction e) (number @ ''%'') []"

lemma toCompareRules_promoted:
  assumes "toCompareRules g hunt topN noise = Some rules"
  shows "rules = map (promoted_text (g noise)) (promoted hunt topN)" and "dless zero64 noise"
proof -
  have "rules = map (\<lambda>(r, e). ''counter:'' @ re_address e @ ''@median:''
              @ (case re_delta e of None \<Rightarrow> ''lower'' | Some d \<Rightarrow> if dless zero64 d then ''higher'' else ''lower'')
              @ '':'' @ g noise @ ''%'') (take topN (sort_by (\<lambda>l r. fst l < fst r)
     (concat (map (\<lambda>e. case re_rank e of None \<Rightarrow> [] | Some r \<Rightarrow> [(r, e)]) (eh_entries hunt)))))"
    and "dless zero64 noise"
    using assms by (simp_all add: toCompareRules_def split: if_splits)
  then show "rules = map (promoted_text (g noise)) (promoted hunt topN)" and "dless zero64 noise"
    by (auto simp: promoted_def promoted_text_def promoted_direction_def rule_suffix_def split: option.splits)
qed

lemma promoted_event:
  assumes "e \<in> set (promoted hunt topN)"
  shows "e \<in> set (eh_entries hunt)" and "re_rank e \<noteq> None"
proof -
  obtain r where "(r, e) \<in> set (concat (map (\<lambda>e. case re_rank e of None \<Rightarrow> [] | Some r \<Rightarrow> [(r, e)]) (eh_entries hunt)))"
    using assms by (auto simp: promoted_def dest!: in_set_takeD)
  then have "e \<in> set (eh_entries hunt)" "re_rank e = Some r" by (auto split: option.split_asm)
  then show "e \<in> set (eh_entries hunt)" and "re_rank e \<noteq> None" by simp_all
qed

lemma promoted_value:
  assumes "plain_address (re_address e)"
  shows "rule_value (promoted_text number e)
       = Inr (''counter:'' @ re_address e, True, rule_suffix (Some A_MEDIAN) (promoted_direction e) (number @ ''%'') [])"
proof -
  have "scanName True (re_address e @ rule_suffix (Some A_MEDIAN) (promoted_direction e) (number @ ''%'') [])
      = (re_address e, rule_suffix (Some A_MEDIAN) (promoted_direction e) (number @ ''%'') [])"
    by (rule scanName_plain) (use assms suffix_head in \<open>auto simp: plain_address_def\<close>)
  from rule_value_label [OF _ _ this, of "''counter:''"] show ?thesis
    using assms by (simp add: promoted_text_def kLabelPrefixes_def summarized_def plain_address_def)
qed

text \<open>C31. The hunt and the comparison agree: every rule \<open>toCompareRules\<close> hands on reads back, rule by rule in rank order,
  as the counter rule of the ranked event it was made from, with the median, the direction of the measured delta, the
  noise percent as the relative threshold and no filter.  The addresses carry no character of the grammar and the
  threshold prints as a plain decimal.\<close>
theorem hunt_rules_read_back:
  assumes rules: "toCompareRules g hunt topN noise = Some rules"
    and number: "readNumber (g noise) = Some v"
    and plain: "\<forall>e \<in> set (eh_entries hunt). plain_address (re_address e)"
  shows "map (parseCompareRule rx) rules
       = map (\<lambda>e. Some (Inr \<lparr>rl_text = promoted_text (g noise) e, rl_valueName = ''counter:'' @ re_address e,
             rl_aggregate = Some A_MEDIAN, rl_direction = promoted_direction e,
             rl_relativeThreshold = Some (ddiv v hundred64), rl_absoluteThreshold = None, rl_filter = []\<rparr>))
           (promoted hunt topN)"
proof -
  have "parseCompareRule rx (promoted_text (g noise) e) = Some (Inr \<lparr>rl_text = promoted_text (g noise) e,
      rl_valueName = ''counter:'' @ re_address e, rl_aggregate = Some A_MEDIAN, rl_direction = promoted_direction e,
      rl_relativeThreshold = Some (ddiv v hundred64), rl_absoluteThreshold = None, rl_filter = []\<rparr>)"
    if "e \<in> set (promoted hunt topN)" for e
  proof (rule parseCompareRule_read)
    have a: "plain_address (re_address e)" using plain promoted_event(1) [OF that] by blast
    have chars: "CHR '':'' \<notin> set (g noise @ ''%'')" "CHR 0x00 \<notin> set (g noise @ ''%'')"
      using readNumber_excludes [OF number, of "CHR '':''"] readNumber_excludes [OF number, of "CHR 0x00"]
      by (simp_all add: is_digit_neq)
    show "readRule rx (promoted_text (g noise) e) = Inr \<lparr>rl_text = promoted_text (g noise) e,
      rl_valueName = ''counter:'' @ re_address e, rl_aggregate = Some A_MEDIAN, rl_direction = promoted_direction e,
      rl_relativeThreshold = Some (ddiv v hundred64), rl_absoluteThreshold = None, rl_filter = []\<rparr>"
      using readRule_suffix [OF promoted_value [OF a] _ readThreshold_percent [OF number] chars(1)] by simp
    show "CHR 0x00 \<notin> set (promoted_text (g noise) e)"
      using a chars(2) by (simp add: promoted_text_def rule_suffix_def word_characters plain_address_def)
  qed simp_all
  then show ?thesis by (simp add: toCompareRules_promoted(1) [OF rules])
qed

definition sample_hunt :: entry_hunt where
  "sample_hunt = \<lparr>eh_method = None, eh_passCount = 0, eh_top = 1,
     eh_entries = [\<lparr>re_address = ''cpu.cycles'', re_rate = zero64, re_cv = zero64, re_samples = 1, re_noisy = False,
       re_repeated = True, re_multiplexed = True, re_rank = Some 1, re_sensitivityCorrelation = None,
       re_sensitivitySlope = None, re_delta = None, re_topdownArea = []\<rparr>], eh_skipped = [], eh_retriedPasses = 0\<rparr>"

lemma sample_rules:
  "toCompareRules g sample_hunt 3 one64 = Some [''counter:cpu.cycles@median:lower:'' @ g one64 @ ''%'']"
  by (simp add: toCompareRules_def sample_hunt_def one64_value zero64_def sort_by_def signed_sig_def)

lemma hunt_rules_read_back_witness:
  "map (parseCompareRule (\<lambda>_. None)) [''counter:cpu.cycles@median:lower:5%'']
   = map (\<lambda>e. Some (Inr \<lparr>rl_text = promoted_text ''5'' e, rl_valueName = ''counter:'' @ re_address e,
             rl_aggregate = Some A_MEDIAN, rl_direction = promoted_direction e,
             rl_relativeThreshold = Some (ddiv (round64 False 5 1) hundred64), rl_absoluteThreshold = None, rl_filter = []\<rparr>))
           (promoted sample_hunt 3)"
proof -
  have "readNumber ''5'' = Some (round64 False 5 1)"
    using readNumber_whole [of 5] by (simp add: decimal_five)
  moreover have "plain_address ''cpu.cycles''" by (simp add: plain_address_def)
  ultimately show ?thesis
    using hunt_rules_read_back [OF sample_rules, of "\<lambda>_. ''5''"] by (simp add: sample_hunt_def)
qed

text \<open>C39. A threshold the \<open>%g\<close> form prints with an exponent is refused by the rule grammar: every rule a hunt writes for
  such a noise percent is one the comparison does not read.\<close>
theorem exponent_threshold_is_refused:
  assumes rules: "toCompareRules g hunt topN noise = Some rules"
    and printed: "CHR ''e'' \<in> set (g noise)" "\<forall>c \<in> set (g noise). is_digit c \<or> c \<in> set ''.e+-''" "is_digit (hd (g noise))"
    and plain: "\<forall>e \<in> set (eh_entries hunt). plain_address (re_address e)"
  shows "\<forall>rule \<in> set rules. \<exists>fault. parseCompareRule rx rule = Some (Inl fault)"
proof -
  have chars: "CHR '':'' \<notin> set (g noise)" "CHR '','' \<notin> set (g noise)" "CHR 0x00 \<notin> set (g noise)"
    using printed(2) by (force simp: is_digit_neq)+
  have number: "readNumber (g noise) = None"
    using readNumber_excludes [of "g noise" _ "CHR ''e''"] printed(1) by (cases "readNumber (g noise)") (simp_all add: is_digit_neq)
  have "readAbsolute (g noise @ ''%'') = None"
    using printed(1,3)
    by (cases "g noise") (auto simp: readAbsolute_def kAbsoluteMarker_def starts_with_def is_digit_def)
  with number have th: "readThreshold (g noise @ ''%'') = None"
    using chars(2) by (simp add: readThreshold_def before_from_char readPercent_spelled)
  have "\<exists>fault. parseCompareRule rx (promoted_text (g noise) e) = Some (Inl fault)" if "e \<in> set (promoted hunt topN)" for e
  proof -
    have a: "plain_address (re_address e)" using plain promoted_event(1) [OF that] by blast
    have t: "\<exists>fault. rule_threshold (CHR '':'' # g noise @ ''%'') = Inl fault"
      using th chars(1) by (simp add: rule_threshold_def before_from_char)
    have "\<exists>fault. readRule rx (promoted_text (g noise) e) = Inl fault"
      unfolding readRule_def promoted_value [OF a] sum.case prod.case
      using t rule_aggregate_suffix [of "Some A_MEDIAN" True] rule_direction_word
      by (auto simp: rule_suffix_def)
    moreover have "CHR 0x00 \<notin> set (promoted_text (g noise) e)"
      using a chars(3) by (simp add: promoted_text_def rule_suffix_def word_characters plain_address_def)
    ultimately show ?thesis by (auto simp: parseCompareRule_def)
  qed
  then show ?thesis by (auto simp: toCompareRules_promoted(1) [OF rules])
qed

lemma exponent_threshold_is_refused_witness:
  "\<exists>fault. parseCompareRule (\<lambda>_. None) ''counter:cpu.cycles@median:lower:1e+06%'' = Some (Inl fault)"
  using exponent_threshold_is_refused [OF sample_rules, of "\<lambda>_. ''1e+06''" "\<lambda>_. None"]
  by (simp add: sample_hunt_def plain_address_def is_digit_def)

end
