(* ===== verification/Compare.thy ===== *)
theory Compare
  imports Compare_Rule
begin

text \<open>
  The comparison of two reports (\<open>source/harness/compare.cpp\<close>, the engine half): the value a rule names in a
  result, the verdict arithmetic, the noise guard, the pairing of the two reports, the walk of every rule over its
  scope, the entries and the verdict.  A report is what the reader answers; the fields no rule reads are left out.
  A pointer to a result, a row, a record or a warning is an option of its value.  \<open>%g\<close> is the argument \<open>g\<close> and
  \<open>std::regex\<close> the argument \<open>rx\<close>: the message of a refused pattern, and the search of a pattern in a text.
\<close>

subsection \<open>Reports\<close>

datatype run_outcome = R_MEASURED | R_SKIPPED | R_FAILED
datatype row_kind = K_REPETITION | K_AGGREGATE | K_BIG_O | K_RMS | K_SKIPPED
datatype compare_state = C_OK | C_REGRESSED | C_IMPROVED | C_NOISY | C_ADDED | C_REMOVED | C_SKIPPED

record row_rest =
  rw_kind :: row_kind
  rw_timeAvailability :: availability
  rw_timeStats :: statistics
  rw_metricStats :: "statistics list"

record topdown_node =
  td_name :: string
  td_value :: "binary64 option"

record result_rest =
  rs_name :: string
  rs_outcome :: run_outcome
  rs_counterLabels :: "string list"
  rs_counterStats :: "statistics list"
  rs_statisticValues :: "(string \<times> binary64) list"
  rs_percentilePoints :: "binary64 list"
  rs_jitterFolds :: "jitter_fold list"
  rs_topdown :: "topdown_node list option"

type_synonym report_row = "row_rest result_row"
type_synonym report_result = "(row_rest, result_rest) benchmark_result"

abbreviation result_name :: "report_result \<Rightarrow> string" where
  "result_name r \<equiv> rs_name (br_copied r)"

record noise_warning =
  nw_spinning :: u64
  nw_runnableCpus :: u64
  nw_sharesOneCpu :: bool

record row_raw =
  rw_columns :: "binary64 list list"

record report_data =
  rd_results :: "report_result list"
  rd_rowRaw :: "row_raw list list"
  rd_contextRaw :: "row_raw list list list"
  rd_schemaVersion :: string
  rd_noiseWarnings :: "noise_warning option list"
  rd_runJitterStats :: "jitter_fold list option"
  rd_precheck :: "tracer_cpu list option option"

record compare_entry =
  en_name :: string
  en_ruleText :: string
  en_baseline :: "binary64 option"
  en_contender :: "binary64 option"
  en_changePercent :: "binary64 option"
  en_changeAbsolute :: "binary64 option"
  en_state :: compare_state
  en_reason :: string

record compare_result =
  cp_entries :: "compare_entry list"
  cp_passed :: bool

record regex_engine =
  rx_error :: "string \<Rightarrow> string option"
  rx_search :: "string \<Rightarrow> string \<Rightarrow> bool"

subsection \<open>The value a rule names\<close>

definition labelIndexOf :: "string list \<Rightarrow> string \<Rightarrow> nat" where
  "labelIndexOf labels label = (case index_of (\<lambda>l. l = label) labels of None \<Rightarrow> length labels | Some i \<Rightarrow> i)"

definition kPercentilePointTolerance :: binary64 where "kPercentilePointTolerance = round64 False 1 (10 ^ 9)"

definition near_point :: "binary64 \<Rightarrow> binary64 \<Rightarrow> bool" where
  "near_point a b \<longleftrightarrow> dabs (dsub a b) \<noteq> NaN \<and> \<not> dless kPercentilePointTolerance (dabs (dsub a b))"

definition pointIndexOf :: "binary64 list \<Rightarrow> binary64 \<Rightarrow> nat" where
  "pointIndexOf points point = (case index_of (\<lambda>p. near_point p point) points of None \<Rightarrow> length points | Some i \<Rightarrow> i)"

fun aggregateValueOf :: "statistics \<Rightarrow> aggregate \<Rightarrow> binary64" where
  "aggregateValueOf st A_MEAN = st_mean st"
| "aggregateValueOf st A_MIN = st_min st"
| "aggregateValueOf st A_MAX = st_max st"
| "aggregateValueOf st A_MEDIAN = st_median st"

definition nth_opt :: "'a list \<Rightarrow> nat \<Rightarrow> 'a option" where
  "nth_opt xs i = (if i < length xs then Some (xs ! i) else None)"

type_synonym value_site = "binary64 option \<times> statistics option"

definition labeled_site :: "report_result \<Rightarrow> report_row \<Rightarrow> string \<Rightarrow> string \<Rightarrow> value_site" where
  "labeled_site result row' pre label =
     (let rest = br_copied result
      in if pre = ''counter:''
         then (let i = labelIndexOf (rs_counterLabels rest) label
               in if length (rs_counterLabels rest) \<le> i then (None, None)
                  else (nth_opt (rr_counters row') i, nth_opt (rs_counterStats rest) i))
         else if pre = ''metric:''
         then (let i = labelIndexOf (br_metricLabels result) label
               in if length (br_metricLabels result) \<le> i then (None, None)
                  else (map_option mv_value (nth_opt (rr_metrics row') i), nth_opt (rw_metricStats (rr_copied row')) i))
         else if pre = ''topdown:''
         then (case rs_topdown rest of
                 None \<Rightarrow> (None, None)
               | Some tree_nodes \<Rightarrow>
                   (case List.find (\<lambda>n. td_name n = ''topdown.'' @ label) tree_nodes of
                      None \<Rightarrow> (None, None)
                    | Some n \<Rightarrow> (td_value n, None)))
         else (case List.find (\<lambda>sv. fst sv = label) (rs_statisticValues rest) of
                 None \<Rightarrow> (None, None)
               | Some sv \<Rightarrow> (Some (snd sv), None)))"

definition percentile_site :: "report_result \<Rightarrow> report_row \<Rightarrow> string \<Rightarrow> value_site" where
  "percentile_site result row' name =
     (case readNumber (tl name) of
        None \<Rightarrow> (None, None)
      | Some point \<Rightarrow>
          let points = rs_percentilePoints (br_copied result); i = pointIndexOf points point
          in if length points \<le> i \<or> rr_percentiles row' = [] \<or> length (hd (rr_percentiles row')) \<le> i
                \<or> \<not> pv_available (hd (rr_percentiles row') ! i)
             then (None, None)
             else (Some (pv_value (hd (rr_percentiles row') ! i)), None))"

definition valueSiteOf :: "report_result \<Rightarrow> report_row \<Rightarrow> string \<Rightarrow> value_site" where
  "valueSiteOf result row' name =
     (let cpu = br_primaryIsCpu result; st = rw_timeStats (rr_copied row');
          primaryColumn = (name = ''time'' \<or> name = ''real_time'' \<and> \<not> cpu \<or> name = ''cpu_time'' \<and> cpu);
          pre = labelPrefixOf name
      in if primaryColumn \<and> rw_timeAvailability (rr_copied row') \<noteq> COUNTABLE then (None, None)
         else if name = ''time''
         then (Some (if cpu then rr_cpuTimePerIterationNs row' else rr_timePerIterationNs row'), Some st)
         else if name = ''real_time'' then (Some (rr_timePerIterationNs row'), if cpu then None else Some st)
         else if name = ''cpu_time'' then (Some (rr_cpuTimePerIterationNs row'), if cpu then Some st else None)
         else if pre \<noteq> [] then labeled_site result row' pre (drop (length pre) name)
         else if starts_with name ''p'' then percentile_site result row' name
         else (None, None))"

definition selectCompareRow :: "report_result \<Rightarrow> report_row option" where
  "selectCompareRow result =
     (if rs_outcome (br_copied result) \<noteq> R_MEASURED then None
      else
        case List.find (\<lambda>r. rw_kind (rr_copied r) = K_AGGREGATE) (br_rows result) of
          Some r \<Rightarrow> Some r
        | None \<Rightarrow>
            (case filter (\<lambda>r. rw_kind (rr_copied r) = K_REPETITION) (br_rows result) of
               [r] \<Rightarrow> Some r
             | _ \<Rightarrow> None))"

definition resolveCompareValue :: "report_result \<Rightarrow> compare_rule \<Rightarrow> binary64 option" where
  "resolveCompareValue result rule =
     (case selectCompareRow result of
        None \<Rightarrow> None
      | Some row' \<Rightarrow>
          let site = valueSiteOf result row' (rl_valueName rule)
          in case rl_aggregate rule of
               None \<Rightarrow> fst site
             | Some a \<Rightarrow>
                 if rw_kind (rr_copied row') \<noteq> K_AGGREGATE then fst site
                 else map_option (\<lambda>st. aggregateValueOf st a) (snd site))"

subsection \<open>The verdict of one pair of values\<close>

definition empty_entry :: "string \<Rightarrow> string \<Rightarrow> compare_entry" where
  "empty_entry name ruleText =
     \<lparr>en_name = name, en_ruleText = ruleText, en_baseline = None, en_contender = None, en_changePercent = None,
      en_changeAbsolute = None, en_state = C_OK, en_reason = []\<rparr>"

definition signed_delta :: "direction \<Rightarrow> binary64 \<Rightarrow> binary64 \<Rightarrow> binary64" where
  "signed_delta d baseline contender = (if d = LOWER_IS_BETTER then dsub contender baseline else dsub baseline contender)"

definition compareValues :: "compare_rule \<Rightarrow> string \<Rightarrow> binary64 \<Rightarrow> binary64 \<Rightarrow> (string + compare_entry) checked" where
  "compareValues rule name baseline contender =
     (if rl_relativeThreshold rule = None \<and> rl_absoluteThreshold rule = None then None
      else
        let delta = signed_delta (rl_direction rule) baseline contender;
            magnitude = dabs baseline;
            zeroBaseline = (\<not> dless zero64 magnitude)
        in if zeroBaseline \<and> rl_relativeThreshold rule \<noteq> None
           then Some (Inl (''the rule '' @ quoted (quotedText (rl_text rule)) @ '' cannot measure '' @ name
                  @ '': the baseline of '' @ rl_valueName rule @ '' is zero''))
           else
             let relativeExceeded = (case rl_relativeThreshold rule of None \<Rightarrow> True | Some t \<Rightarrow> dless t (ddiv delta magnitude));
                 absoluteExceeded = (case rl_absoluteThreshold rule of None \<Rightarrow> True | Some t \<Rightarrow> dless t delta)
             in Some (Inr ((empty_entry name (rl_text rule))\<lparr>en_baseline := Some baseline, en_contender := Some contender,
                    en_changePercent := (if zeroBaseline then None else Some (dmul (ddiv delta magnitude) hundred64)),
                    en_changeAbsolute := Some delta,
                    en_state := (if dless delta zero64 then C_IMPROVED
                                 else if dless zero64 delta \<and> relativeExceeded \<and> absoluteExceeded then C_REGRESSED
                                 else C_OK)\<rparr>)))"

subsection \<open>The noise guard\<close>

definition noiseAccountOf :: "report_result \<Rightarrow> compare_rule \<Rightarrow> statistics option \<times> binary64 option" where
  "noiseAccountOf result rule =
     (case selectCompareRow result of
        None \<Rightarrow> (None, None)
      | Some row' \<Rightarrow>
          let pre = labelPrefixOf (rl_valueName rule);
              i = labelIndexOf (br_metricLabels result) (drop (length pre) (rl_valueName rule))
          in (snd (valueSiteOf result row' (rl_valueName rule)),
              if pre = ''metric:'' \<and> i < length (br_metricLabels result) \<and> i < length (rr_metrics row')
              then Some (mv_runningRatio (rr_metrics row' ! i)) else None))"

definition reasonAccount :: "noise_warning \<Rightarrow> string" where
  "reasonAccount w = '' ('' @ decimal (unat (nw_spinning w)) @ '' spin, '' @ decimal (unat (nw_runnableCpus w)) @ '' cpus)''"

fun join_marks :: "string list \<Rightarrow> string" where
  "join_marks [] = []"
| "join_marks [t] = t"
| "join_marks (t # ts) = t @ ''; '' @ join_marks ts"

text \<open>The marks of one report.\<close>

definition guardReport :: "(binary64 \<Rightarrow> string) \<Rightarrow> compare_rule \<Rightarrow> string \<Rightarrow> report_result \<Rightarrow> string list" where
  "guardReport g rule label result =
     (let (stats, ratio) = noiseAccountOf result rule
      in (case (rl_relativeThreshold rule, stats) of
            (Some t, Some st) \<Rightarrow>
              if dless t (st_coefficientOfVariation st)
              then [label @ '' coefficient of variation exceeds the relative threshold ('' @ g (st_coefficientOfVariation st)
                    @ '' against '' @ g t @ '')'']
              else []
          | _ \<Rightarrow> [])
         @ (case (rl_absoluteThreshold rule, stats) of
              (Some t, Some st) \<Rightarrow>
                if dless t (st_sampleStdDev st)
                then [label @ '' sample standard deviation exceeds the absolute threshold ('' @ g (st_sampleStdDev st)
                      @ '' against '' @ g t @ '')'']
                else []
            | _ \<Rightarrow> [])
         @ (case ratio of
              Some r \<Rightarrow>
                if dless r (of_nat64 1) then [label @ '' metric running ratio sits below one ('' @ g r @ '')''] else []
            | None \<Rightarrow> []))"

definition carried_mark :: "string \<Rightarrow> noise_warning option \<Rightarrow> string list" where
  "carried_mark side w =
     (case w of None \<Rightarrow> [] | Some v \<Rightarrow> [''the '' @ side @ '' report carries a noise warning'' @ reasonAccount v])"

definition noiseGuard ::
  "(binary64 \<Rightarrow> string) \<Rightarrow> compare_rule \<Rightarrow> report_result \<Rightarrow> report_result \<Rightarrow> noise_warning option \<Rightarrow>
   noise_warning option \<Rightarrow> string option checked" where
  "noiseGuard g rule baseline contender baselineWarning contenderWarning =
     (if rl_relativeThreshold rule = None \<and> rl_absoluteThreshold rule = None then None
      else
        let marks = carried_mark ''baseline'' baselineWarning @ carried_mark ''contender'' contenderWarning
              @ guardReport g rule ''baseline'' baseline @ guardReport g rule ''contender'' contender
        in Some (if marks = [] then None else Some (join_marks marks)))"

subsection \<open>The pair of reports\<close>

record pair_site =
  pr_name :: string
  pr_baseline :: "report_result option"
  pr_contender :: "report_result option"
  pr_baselineWarning :: "noise_warning option"
  pr_contenderWarning :: "noise_warning option"

definition indexOfResult :: "report_result list \<Rightarrow> string \<Rightarrow> nat" where
  "indexOfResult results name =
     (case index_of (\<lambda>r. result_name r = name) results of None \<Rightarrow> length results | Some i \<Rightarrow> i)"

definition noiseWarningAt :: "report_data \<Rightarrow> nat \<Rightarrow> noise_warning option" where
  "noiseWarningAt report i = (if length (rd_noiseWarnings report) \<le> i then None else rd_noiseWarnings report ! i)"

definition baseline_site :: "report_data \<Rightarrow> report_data \<Rightarrow> nat \<Rightarrow> pair_site" where
  "baseline_site baseline contender i =
     (let r = rd_results baseline ! i; other = indexOfResult (rd_results contender) (result_name r);
          paired = other < length (rd_results contender)
      in \<lparr>pr_name = result_name r, pr_baseline = Some r,
          pr_contender = (if paired then Some (rd_results contender ! other) else None),
          pr_baselineWarning = noiseWarningAt baseline i,
          pr_contenderWarning = (if paired then noiseWarningAt contender other else None)\<rparr>)"

definition contender_site :: "report_data \<Rightarrow> nat \<Rightarrow> pair_site" where
  "contender_site contender i =
     \<lparr>pr_name = result_name (rd_results contender ! i), pr_baseline = None, pr_contender = Some (rd_results contender ! i),
      pr_baselineWarning = None, pr_contenderWarning = noiseWarningAt contender i\<rparr>"

definition matchPair :: "report_data \<Rightarrow> report_data \<Rightarrow> pair_site list" where
  "matchPair baseline contender =
     map (baseline_site baseline contender) [0..<length (rd_results baseline)]
     @ map (contender_site contender)
         (filter (\<lambda>i. \<not> indexOfResult (rd_results baseline) (result_name (rd_results contender ! i)) < length (rd_results baseline))
           [0..<length (rd_results contender)])"

subsection \<open>The values of one rule\<close>

definition missingValueFault :: "compare_rule \<Rightarrow> string \<Rightarrow> string \<Rightarrow> bool \<Rightarrow> string" where
  "missingValueFault rule name report uncountable =
     ''the rule '' @ quoted (quotedText (rl_text rule)) @ '' finds no '' @ (if uncountable then ''countable '' else [])
       @ rl_valueName rule @ '' for '' @ quotedText name @ '' in the '' @ report @ '' report''"

definition metricAvailabilityOf :: "report_result \<Rightarrow> report_row \<Rightarrow> string \<Rightarrow> availability" where
  "metricAvailabilityOf result row' name =
     (let pre = labelPrefixOf name; i = labelIndexOf (br_metricLabels result) (drop (length pre) name)
      in if pre \<noteq> ''metric:'' \<or> length (rr_metrics row') \<le> i then COUNTABLE
         else mv_availability (rr_metrics row' ! i))"

text \<open>\<open>array::at\<close> throws out of range, so the field is checked.\<close>

definition jitterValueOf ::
  "jitter_fold list option \<Rightarrow> report_result \<Rightarrow> jitter_name \<Rightarrow> compare_rule \<Rightarrow> string \<Rightarrow> string \<Rightarrow> (string + binary64) checked" where
  "jitterValueOf runStats entry parts rule name label =
     (let stats = (if jn_runScoped parts then (case runStats of None \<Rightarrow> [] | Some s \<Rightarrow> s) else rs_jitterFolds (br_copied entry))
      in if \<not> jn_worstCpu parts
         then
           (case List.find (\<lambda>f. jf_cpu f = jn_cpu parts) stats of
              None \<Rightarrow> Some (Inl (''the rule '' @ quoted (rl_text rule) @ '' names cpu '' @ decimal (unat (jn_cpu parts))
                @ '' and the jitter stats of '' @ name @ '' in the '' @ label @ '' report do not carry it''))
            | Some f \<Rightarrow> map_option (\<lambda>field. Inr (snd field f)) (nth_opt kJitterFields (jn_field parts)))
         else if stats = []
         then Some (Inl (''the rule '' @ quoted (rl_text rule) @ '' names the worst cpu and the jitter stats of '' @ name
                @ '' in the '' @ label @ '' report carry no probe cpu''))
         else map_option (\<lambda>field. Inr (foldl (\<lambda>worst f. dmax worst (snd field f)) zero64 stats))
                (nth_opt kJitterFields (jn_field parts)))"

definition hwlat_figure :: "tracer_cpu \<Rightarrow> (string \<times> (tracer_cpu \<Rightarrow> binary64 option)) \<Rightarrow> binary64" where
  "hwlat_figure c field = (case snd field c of None \<Rightarrow> zero64 | Some v \<Rightarrow> v)"

definition hwlatValueOf :: "report_data \<Rightarrow> hwlat_name \<Rightarrow> compare_rule \<Rightarrow> string \<Rightarrow> (string + binary64) checked" where
  "hwlatValueOf report parts rule label =
     (case rd_precheck report of
        Some (Some cpus) \<Rightarrow>
          if \<not> hn_worstCpu parts
          then
            (case List.find (\<lambda>c. tc_cpu c = hn_cpu parts) cpus of
               None \<Rightarrow> Some (Inl (''the rule '' @ quoted (rl_text rule) @ '' names cpu '' @ decimal (unat (hn_cpu parts))
                 @ '' and the tracer record of the '' @ label @ '' report does not carry it''))
             | Some c \<Rightarrow> map_option (\<lambda>field. Inr (hwlat_figure c field)) (nth_opt kHwlatFields (hn_figure parts)))
          else
            (case cpus of
               [] \<Rightarrow> Some (Inl (''the rule '' @ quoted (rl_text rule) @ '' names the worst cpu and the tracer record of the ''
                 @ label @ '' report carries no tracer cpu''))
             | c # cs \<Rightarrow> map_option (\<lambda>field. Inr (foldl (\<lambda>m d. dmax m (hwlat_figure d field)) (hwlat_figure c field) cs))
                          (nth_opt kHwlatFields (hn_figure parts)))
      | _ \<Rightarrow> Some (Inl (''the rule '' @ quoted (rl_text rule) @ '' names a detector figure and the '' @ label
               @ '' report carries no tracer record'')))"

record value_parts =
  vp_jitter :: "jitter_name option"
  vp_hwlat :: "hwlat_name option"

definition kJitterPrefix :: string where "kJitterPrefix = ''jitter:''"
definition kHwlatPrefix :: string where "kHwlatPrefix = ''hwlat:''"

definition value_parts_of :: "compare_rule \<Rightarrow> string + value_parts" where
  "value_parts_of rule =
     (case (if starts_with (rl_valueName rule) kJitterPrefix
            then map_sum id (\<lambda>r. Some (fst r)) (readJitterName (drop (length kJitterPrefix) (rl_valueName rule))) else Inr None) of
        Inl e \<Rightarrow> Inl (''the rule '' @ quoted (rl_text rule) @ '' names a jitter value that is not readable: '' @ e)
      | Inr jp \<Rightarrow>
          (case (if starts_with (rl_valueName rule) kHwlatPrefix
                 then map_sum id (\<lambda>r. Some (fst r)) (readHwlatName (drop (length kHwlatPrefix) (rl_valueName rule))) else Inr None) of
             Inl e \<Rightarrow> Inl (''the rule '' @ quoted (rl_text rule) @ '' names a detector value that is not readable: '' @ e)
           | Inr hp \<Rightarrow> Inr \<lparr>vp_jitter = jp, vp_hwlat = hp\<rparr>))"

definition read_value ::
  "compare_rule \<Rightarrow> value_parts \<Rightarrow> string \<Rightarrow> report_result \<Rightarrow> report_row \<Rightarrow> report_data \<Rightarrow> string \<Rightarrow> (string + binary64) checked" where
  "read_value rule parts name result row' report label =
     (case vp_hwlat parts of
        Some hp \<Rightarrow> hwlatValueOf report hp rule label
      | None \<Rightarrow>
     (case vp_jitter parts of
        Some jp \<Rightarrow> jitterValueOf (rd_runJitterStats report) result jp rule name label
      | None \<Rightarrow>
     (case resolveCompareValue result rule of
        None \<Rightarrow> Some (Inl (missingValueFault rule name label False))
      | Some v \<Rightarrow>
          if metricAvailabilityOf result row' (rl_valueName rule) \<noteq> COUNTABLE
          then Some (Inl (missingValueFault rule name label True))
          else Some (Inr v))))"

subsection \<open>The walk of one rule\<close>

record scoped_value =
  sv_siteIndex :: nat
  sv_comparable :: bool
  sv_baseline :: binary64
  sv_contender :: binary64

definition bare_slot :: "nat \<Rightarrow> scoped_value" where
  "bare_slot i = \<lparr>sv_siteIndex = i, sv_comparable = False, sv_baseline = zero64, sv_contender = zero64\<rparr>"

text \<open>One slot: the slot, and the name of the site when both reports hold it.\<close>

definition scope_slot ::
  "report_data \<Rightarrow> report_data \<Rightarrow> pair_site list \<Rightarrow> compare_rule \<Rightarrow> value_parts \<Rightarrow> nat \<Rightarrow>
   (string + scoped_value \<times> string option) checked" where
  "scope_slot baseline contender matched rule parts i =
     (let site = matched ! i
      in case (pr_baseline site, pr_contender site) of
           (Some b, Some c) \<Rightarrow>
             (case (selectCompareRow b, selectCompareRow c) of
                (Some brow, Some crow) \<Rightarrow>
                  (case read_value rule parts (pr_name site) b brow baseline ''baseline'' of
                     None \<Rightarrow> None
                   | Some (Inl e) \<Rightarrow> Some (Inl e)
                   | Some (Inr bv) \<Rightarrow>
                       (case read_value rule parts (pr_name site) c crow contender ''contender'' of
                          None \<Rightarrow> None
                        | Some (Inl e) \<Rightarrow> Some (Inl e)
                        | Some (Inr cv) \<Rightarrow>
                            Some (Inr (\<lparr>sv_siteIndex = i, sv_comparable = True, sv_baseline = bv, sv_contender = cv\<rparr>,
                              Some (pr_name site)))))
              | _ \<Rightarrow> Some (Inr (bare_slot i, Some (pr_name site))))
         | _ \<Rightarrow> Some (Inr (bare_slot i, None)))"

text \<open>A loop that stops at the first error of a step.\<close>

fun walk_steps :: "('a \<Rightarrow> ('e + 'b) checked) \<Rightarrow> 'a list \<Rightarrow> ('e + 'b list) checked" where
  "walk_steps f [] = Some (Inr [])"
| "walk_steps f (x # xs) =
     (case f x of
        None \<Rightarrow> None
      | Some (Inl e) \<Rightarrow> Some (Inl e)
      | Some (Inr y) \<Rightarrow>
          (case walk_steps f xs of
             None \<Rightarrow> None
           | Some (Inl e) \<Rightarrow> Some (Inl e)
           | Some (Inr ys) \<Rightarrow> Some (Inr (y # ys))))"

definition scope_indices :: "regex_engine \<Rightarrow> pair_site list \<Rightarrow> compare_rule \<Rightarrow> nat list" where
  "scope_indices rx matched rule =
     filter (\<lambda>i. rl_filter rule = [] \<or> rx_search rx (rl_filter rule) (pr_name (matched ! i))) [0..<length matched]"

text \<open>The name the last fault of the walk prints: the paired site the loop met last.\<close>

definition last_paired :: "(scoped_value \<times> string option) list \<Rightarrow> string" where
  "last_paired slots = foldl (\<lambda>n s. case snd s of None \<Rightarrow> n | Some m \<Rightarrow> m) [] slots"

definition scopedValuesOf ::
  "regex_engine \<Rightarrow> report_data \<Rightarrow> report_data \<Rightarrow> pair_site list \<Rightarrow> compare_rule \<Rightarrow> (string + scoped_value list) checked" where
  "scopedValuesOf rx baseline contender matched rule =
     (let scope = scope_indices rx matched rule; rule_name = ''the rule '' @ quoted (quotedText (rl_text rule))
      in case (if rl_filter rule = [] then None else rx_error rx (rl_filter rule)) of
           Some what \<Rightarrow> Some (Inl (rule_name @ '' carries a filter that is no regular expression: '' @ quotedText what))
         | None \<Rightarrow>
             if rl_filter rule \<noteq> [] \<and> scope = []
             then Some (Inl (rule_name @ '' selects no benchmark: its filter '' @ quoted (quotedText (rl_filter rule))
                    @ '' matches neither report''))
             else
               (case value_parts_of rule of
                  Inl e \<Rightarrow> Some (Inl e)
                | Inr parts \<Rightarrow>
                    (case walk_steps (scope_slot baseline contender matched rule parts) scope of
                       None \<Rightarrow> None
                     | Some (Inl e) \<Rightarrow> Some (Inl e)
                     | Some (Inr slots) \<Rightarrow>
                         if \<not> list_ex (\<lambda>s. sv_comparable (fst s)) slots \<and> last_paired slots \<noteq> []
                         then Some (Inl (rule_name @ '' reaches no comparable row: '' @ quotedText (last_paired slots)
                                @ '' holds no row the rule can read in either report''))
                         else Some (Inr (map fst slots)))))"

subsection \<open>The entries and the verdict\<close>

definition entryFor :: "(binary64 \<Rightarrow> string) \<Rightarrow> pair_site \<Rightarrow> compare_rule \<Rightarrow> scoped_value \<Rightarrow> (string + compare_entry) checked" where
  "entryFor g site rule slot =
     (if \<not> sv_comparable slot
      then Some (Inr ((empty_entry (pr_name site) (rl_text rule))\<lparr>en_state :=
             (if pr_baseline site = None then C_ADDED else if pr_contender site = None then C_REMOVED else C_SKIPPED)\<rparr>))
      else
        case compareValues rule (pr_name site) (sv_baseline slot) (sv_contender slot) of
          None \<Rightarrow> None
        | Some (Inl e) \<Rightarrow> Some (Inl e)
        | Some (Inr entry) \<Rightarrow>
            (case (pr_baseline site, pr_contender site) of
               (Some b, Some c) \<Rightarrow>
                 (case noiseGuard g rule b c (pr_baselineWarning site) (pr_contenderWarning site) of
                    None \<Rightarrow> None
                  | Some None \<Rightarrow> Some (Inr entry)
                  | Some (Some reason) \<Rightarrow> Some (Inr (entry\<lparr>en_state := C_NOISY, en_reason := reason\<rparr>)))
             | _ \<Rightarrow> None))"

definition hasState :: "compare_entry list \<Rightarrow> compare_state \<Rightarrow> bool" where
  "hasState entries s = list_ex (\<lambda>e. en_state e = s) entries"

text \<open>\<open>schemaMajor\<close> of \<open>detail/json_report.hpp\<close>.\<close>

definition schemaMajor :: "string \<Rightarrow> string option" where
  "schemaMajor version =
     (case find_char (CHR ''.'') version 0 of
        None \<Rightarrow> None
      | Some dot \<Rightarrow> if dot = 0 \<or> dot + 1 = length version then None else Some (take dot version))"

definition rule_scopes ::
  "regex_engine \<Rightarrow> report_data \<Rightarrow> report_data \<Rightarrow> pair_site list \<Rightarrow> compare_rule list \<Rightarrow> (string + scoped_value list list) checked" where
  "rule_scopes rx baseline contender matched rules = walk_steps (scopedValuesOf rx baseline contender matched) rules"

text \<open>The entries of the rules in order, each under the index of its site.\<close>

definition rule_entries ::
  "(binary64 \<Rightarrow> string) \<Rightarrow> pair_site list \<Rightarrow> (compare_rule \<times> scoped_value list) list \<Rightarrow> (string + (nat \<times> compare_entry) list) checked" where
  "rule_entries g matched scoped =
     walk_steps (\<lambda>(rule, slot). map_option (map_sum id (\<lambda>e. (sv_siteIndex slot, e))) (entryFor g (matched ! sv_siteIndex slot) rule slot))
       (concat (map (\<lambda>(rule, slots). map (Pair rule) slots) scoped))"

text \<open>\<open>bySite\<close>: the entries of one site together, in the order they were pushed.\<close>

definition by_site :: "nat \<Rightarrow> (nat \<times> 'e) list \<Rightarrow> 'e list" where
  "by_site n tagged =
     concat (foldl (\<lambda>sites (i, e). sites[i := sites ! i @ [e]]) (replicate n []) tagged)"

definition verdict_of :: "compare_entry list \<Rightarrow> bool \<Rightarrow> bool" where
  "verdict_of entries strict \<longleftrightarrow> \<not> hasState entries C_REGRESSED \<and> (\<not> strict \<or> \<not> hasState entries C_NOISY)"

definition compareReportValues ::
  "regex_engine \<Rightarrow> (binary64 \<Rightarrow> string) \<Rightarrow> report_data \<Rightarrow> report_data \<Rightarrow> compare_rule list \<Rightarrow> bool \<Rightarrow> (string + compare_result) checked" where
  "compareReportValues rx g baseline contender rules strict =
     (if schemaMajor (rd_schemaVersion baseline) = None
         \<or> schemaMajor (rd_schemaVersion baseline) \<noteq> schemaMajor (rd_schemaVersion contender)
      then Some (Inl (''the two reports carry no common schema major version: '' @ quoted (quotedText (rd_schemaVersion baseline))
             @ '' against '' @ quoted (quotedText (rd_schemaVersion contender))))
      else
        let matched = matchPair baseline contender
        in case rule_scopes rx baseline contender matched rules of
             None \<Rightarrow> None
           | Some (Inl e) \<Rightarrow> Some (Inl e)
           | Some (Inr scopes) \<Rightarrow>
               if \<not> list_ex (\<lambda>s. pr_baseline s \<noteq> None \<and> pr_contender s \<noteq> None) matched
               then Some (Inr \<lparr>cp_entries = [], cp_passed = verdict_of [] strict\<rparr>)
               else
                 (case rule_entries g matched (zip rules scopes) of
                    None \<Rightarrow> None
                  | Some (Inl e) \<Rightarrow> Some (Inl e)
                  | Some (Inr tagged) \<Rightarrow>
                      let entries = by_site (length matched) tagged
                      in Some (Inr \<lparr>cp_entries = entries, cp_passed = verdict_of entries strict\<rparr>)))"

definition kDefaultCompareRule :: string where "kDefaultCompareRule = ''time@median:lower:5%''"

definition appliedRulesOf :: "regex_engine \<Rightarrow> compare_rule list \<Rightarrow> compare_rule list checked" where
  "appliedRulesOf rx rules =
     (if rules \<noteq> [] then Some rules
      else
        case parseCompareRule (rx_error rx) kDefaultCompareRule of
          Some (Inr r) \<Rightarrow> Some [r]
        | _ \<Rightarrow> None)"

definition namesAppliedRule :: "compare_entry list \<Rightarrow> compare_rule list \<Rightarrow> bool" where
  "namesAppliedRule entries applied = list_all (\<lambda>e. list_ex (\<lambda>r. rl_text r = en_ruleText e) applied) entries"

definition warnings_beside_results :: "report_data \<Rightarrow> bool" where
  "warnings_beside_results report \<longleftrightarrow>
     rd_noiseWarnings report = [] \<or> length (rd_noiseWarnings report) = length (rd_results report)"

definition compareReports ::
  "regex_engine \<Rightarrow> (binary64 \<Rightarrow> string) \<Rightarrow> report_data \<Rightarrow> report_data \<Rightarrow> compare_rule list \<Rightarrow> bool \<Rightarrow> (string + compare_result) checked" where
  "compareReports rx g baseline contender rules strict =
     (if \<not> (warnings_beside_results baseline \<and> warnings_beside_results contender) then None
      else
        case appliedRulesOf rx rules of
          None \<Rightarrow> None
        | Some applied \<Rightarrow>
            (case compareReportValues rx g baseline contender applied strict of
               None \<Rightarrow> None
             | Some (Inl e) \<Rightarrow> if e = [] then None else Some (Inl e)
             | Some (Inr r) \<Rightarrow>
                 if namesAppliedRule (cp_entries r) applied \<and> cp_passed r = verdict_of (cp_entries r) strict
                 then Some (Inr r) else None))"

subsection \<open>The compare mode\<close>

definition resize :: "'a \<Rightarrow> nat \<Rightarrow> 'a list \<Rightarrow> 'a list" where
  "resize d n xs = take n xs @ replicate (n - length xs) d"

text \<open>\<open>xs[to] = move(xs[from])\<close>: both positions stand inside the list; what stays at \<open>from\<close> is not read again.\<close>

definition move_within :: "nat \<Rightarrow> nat \<Rightarrow> 'a list \<Rightarrow> 'a list checked" where
  "move_within to source xs = (if to < length xs \<and> source < length xs then Some (xs[to := xs ! source]) else None)"

definition filter_step :: "(string \<Rightarrow> bool) \<Rightarrow> nat \<Rightarrow> nat \<times> report_data \<Rightarrow> (nat \<times> report_data) checked" where
  "filter_step match index st =
     (let (kept, report) = st
      in if \<not> match (result_name (rd_results report ! index)) then Some (kept, report)
         else if kept = index then Some (kept + 1, report)
         else
           (case (move_within kept index (rd_results report), move_within kept index (rd_rowRaw report),
                  move_within kept index (rd_contextRaw report), move_within kept index (rd_noiseWarnings report)) of
              (Some rs, Some raw, Some context', Some ws) \<Rightarrow>
                Some (kept + 1, report\<lparr>rd_results := rs, rd_rowRaw := raw, rd_contextRaw := context', rd_noiseWarnings := ws\<rparr>)
            | _ \<Rightarrow> None))"

fun filter_steps :: "(string \<Rightarrow> bool) \<Rightarrow> nat list \<Rightarrow> nat \<times> report_data \<Rightarrow> (nat \<times> report_data) checked" where
  "filter_steps match [] st = Some st"
| "filter_steps match (i # is) st = (case filter_step match i st of None \<Rightarrow> None | Some st' \<Rightarrow> filter_steps match is st')"

definition applyBatchFilter :: "(string \<Rightarrow> bool) \<Rightarrow> report_data \<Rightarrow> report_data checked" where
  "applyBatchFilter match report =
     (case filter_steps match [0..<length (rd_results report)] (0, report) of
        None \<Rightarrow> None
      | Some (kept, r) \<Rightarrow>
          Some (r\<lparr>rd_results := take kept (rd_results r), rd_rowRaw := resize [] kept (rd_rowRaw r),
                  rd_contextRaw := resize [] kept (rd_contextRaw r), rd_noiseWarnings := resize None kept (rd_noiseWarnings r)\<rparr>))"

record compare_exit =
  ce_status :: int
  ce_failed :: bool

record compare_run =
  cr_compareBaseline :: string
  cr_compareContender :: string
  cr_filter :: string
  cr_compareRules :: "compare_rule list"
  cr_compareStrict :: bool
  cr_jsonPath :: string

text \<open>The exit of the mode; what it prints is left out.  \<open>load\<close> is \<open>loadReport\<close>, \<open>written\<close> answers
  \<open>writeCompareReport\<close>.  A filter the regex library refuses throws.\<close>

definition scoped_reports ::
  "regex_engine \<Rightarrow> string \<Rightarrow> report_data \<Rightarrow> report_data \<Rightarrow> (report_data \<times> report_data) checked" where
  "scoped_reports rx pattern baseline contender =
     (if pattern = [] then Some (baseline, contender)
      else if rx_error rx pattern \<noteq> None then None
      else
        (case (applyBatchFilter (rx_search rx pattern) baseline, applyBatchFilter (rx_search rx pattern) contender) of
           (Some b, Some c) \<Rightarrow> Some (b, c)
         | _ \<Rightarrow> None))"

definition runCompareMode ::
  "regex_engine \<Rightarrow> (binary64 \<Rightarrow> string) \<Rightarrow> (string \<Rightarrow> string + report_data)
   \<Rightarrow> (string \<Rightarrow> compare_result \<Rightarrow> compare_rule list \<Rightarrow> string \<Rightarrow> string \<Rightarrow> bool) \<Rightarrow> compare_run \<Rightarrow> compare_exit checked" where
  "runCompareMode rx g load written opts =
     (case load (cr_compareBaseline opts) of
        Inl _ \<Rightarrow> Some \<lparr>ce_status = 2, ce_failed = True\<rparr>
      | Inr baseline \<Rightarrow>
     (case load (cr_compareContender opts) of
        Inl _ \<Rightarrow> Some \<lparr>ce_status = 2, ce_failed = True\<rparr>
      | Inr contender \<Rightarrow>
     (case scoped_reports rx (cr_filter opts) baseline contender of
        None \<Rightarrow> None
      | Some (b, c) \<Rightarrow>
     (case compareReports rx g b c (cr_compareRules opts) (cr_compareStrict opts) of
        None \<Rightarrow> None
      | Some (Inl _) \<Rightarrow> Some \<lparr>ce_status = 2, ce_failed = True\<rparr>
      | Some (Inr comparison) \<Rightarrow>
          if cr_jsonPath opts \<noteq> []
             \<and> \<not> written (cr_jsonPath opts) comparison (cr_compareRules opts) (cr_compareBaseline opts) (cr_compareContender opts)
          then Some \<lparr>ce_status = 2, ce_failed = True\<rparr>
          else if \<not> cp_passed comparison then Some \<lparr>ce_status = 1, ce_failed = True\<rparr>
          else Some \<lparr>ce_status = 0, ce_failed = False\<rparr>))))"

end
