(* ===== verification/Compare_Facts.thy ===== *)
theory Compare_Facts
  imports Compare Rule_Facts Doubles
begin

text \<open>
  What the comparison promises: the verdict word of a pair agrees with the two values as reals, the walk and the site
  buckets list one entry per benchmark and admitted rule in report order, the call keeps its contract for rules that
  carry a threshold, a report never regresses against itself, the batch filter keeps the four lists paired, and the
  exit of the compare mode follows the verdict.
\<close>

subsection \<open>The sign of a difference\<close>

definition least_positive :: binary64 where "least_positive = Finite False 1 min_exp"

lemma least_positive: "is_finite least_positive" "well_formed64 least_positive" "dvalue least_positive = 2 powi min_exp"
  by (simp_all add: least_positive_def canonical_def sig_top_def min_exp_def max_exp_def signed_sig_def)

text \<open>Every finite double is a whole multiple of the least positive one, so a difference that is not zero is at
  least that large and does not round to zero.\<close>

lemma dvalue_grid:
  assumes "is_finite a" and "well_formed64 a"
  obtains z :: int where "dvalue a = of_int z * 2 powi min_exp"
proof -
  obtain s m e where a: "a = Finite s m e" using assms(1) by (cases a) simp_all
  have "min_exp \<le> e" using assms(2) by (simp add: a canonical_def)
  then have "dvalue a = of_int (signed_sig s m * 2 ^ nat (e - min_exp)) * 2 powi min_exp"
    by (simp add: a powi_shift mult.assoc)
  then show ?thesis by (rule that)
qed

lemma difference_at_least:
  assumes "is_finite a" "well_formed64 a" "is_finite b" "well_formed64 b" and "dvalue b < dvalue a"
  shows "2 powi min_exp \<le> dvalue a - dvalue b"
proof -
  obtain y z :: int where y: "dvalue a = of_int y * 2 powi min_exp" and z: "dvalue b = of_int z * 2 powi min_exp"
    using dvalue_grid [OF assms(1,2)] dvalue_grid [OF assms(3,4)] by metis
  have "z < y" using assms(5) powi_pos [of min_exp] by (simp add: y z)
  then have "1 * (2::real) powi min_exp \<le> of_int (y - z) * 2 powi min_exp"
    by (intro mult_right_mono) simp_all
  then show ?thesis by (simp add: y z left_diff_distrib)
qed

lemma dsub_positive:
  assumes a: "is_finite a" "well_formed64 a" and b: "is_finite b" "well_formed64 b"
  shows "dless zero64 (dsub a b) \<longleftrightarrow> dless b a"
proof -
  have z: "is_finite zero64" "well_formed64 zero64" "dvalue zero64 = 0"
    by (simp_all add: zero64_def canonical_def min_exp_def max_exp_def sig_top_def signed_sig_def)
  note r = roundsD [OF rounds_dsub [OF a(1) b(1)]]
  show ?thesis
  proof
    assume "dless b a"
    then have "dvalue b < dvalue a" using dless_value [OF b(1) a(1)] by simp
    then have "\<not> dless (dsub a b) least_positive"
      using r(2) [OF least_positive(1,2)] difference_at_least [OF a b] least_positive(3) by simp
    moreover have "dless zero64 least_positive"
      using dless_value [OF z(1) least_positive(1)] z(3) least_positive(3) by simp
    ultimately show "dless zero64 (dsub a b)" using dless_neg_trans [of "dsub a b" zero64 least_positive] r(1) by blast
  next
    assume pos: "dless zero64 (dsub a b)"
    show "dless b a"
    proof (rule ccontr)
      assume "\<not> dless b a"
      then have "dvalue a - dvalue b \<le> dvalue zero64" using dless_value [OF b(1) a(1)] z(3) by simp
      with r(3) [OF z(1,2)] pos show False by blast
    qed
  qed
qed

lemma dsub_negative:
  assumes a: "is_finite a" "well_formed64 a" and b: "is_finite b" "well_formed64 b"
  shows "dless (dsub a b) zero64 \<longleftrightarrow> dless a b"
proof -
  have z: "is_finite zero64" "well_formed64 zero64" "dvalue zero64 = 0"
    by (simp_all add: zero64_def canonical_def min_exp_def max_exp_def sig_top_def signed_sig_def)
  have n: "is_finite (dneg least_positive)" "well_formed64 (dneg least_positive)" "dvalue (dneg least_positive) = - (2 powi min_exp)"
    using least_positive by (simp_all add: dvalue_dneg)
  note r = roundsD [OF rounds_dsub [OF a(1) b(1)]]
  show ?thesis
  proof
    assume "dless a b"
    then have "dvalue a < dvalue b" using dless_value [OF a(1) b(1)] by simp
    from difference_at_least [OF b a this] have "dvalue a - dvalue b \<le> dvalue (dneg least_positive)"
      using n(3) by linarith
    then have "\<not> dless (dneg least_positive) (dsub a b)" using r(3) [OF n(1,2)] by blast
    moreover have "dless (dneg least_positive) zero64"
      using dless_value [OF n(1) z(1)] z(3) n(3) by simp
    ultimately show "dless (dsub a b) zero64"
      using dless_neg_trans [of "dsub a b" "dneg least_positive" zero64] r(1) by blast
  next
    assume neg: "dless (dsub a b) zero64"
    show "dless a b"
    proof (rule ccontr)
      assume "\<not> dless a b"
      then have "dvalue zero64 \<le> dvalue a - dvalue b" using dless_value [OF a(1) b(1)] z(3) by simp
      with r(2) [OF z(1,2)] neg show False by blast
    qed
  qed
qed

subsection \<open>The verdict of one pair\<close>

definition better :: "direction \<Rightarrow> binary64 \<Rightarrow> binary64 \<Rightarrow> bool" where
  "better d x y \<longleftrightarrow> (case d of LOWER_IS_BETTER \<Rightarrow> dless x y | HIGHER_IS_BETTER \<Rightarrow> dless y x)"

definition good64 :: "binary64 \<Rightarrow> bool" where
  "good64 x \<longleftrightarrow> is_finite x \<and> well_formed64 x"

lemma signed_delta_sign:
  assumes "good64 x" and "good64 y"
  shows "dless (signed_delta d x y) zero64 \<longleftrightarrow> better d y x" and "dless zero64 (signed_delta d x y) \<longleftrightarrow> better d x y"
  using assms by (cases d; simp add: signed_delta_def better_def good64_def dsub_positive dsub_negative)+

lemma better_asym: "better d x y \<Longrightarrow> \<not> better d y x"
  by (cases d) (auto simp: better_def dest: dless_asym)

lemma compareValues_cases:
  assumes "rl_relativeThreshold rule \<noteq> None \<or> rl_absoluteThreshold rule \<noteq> None"
  shows "(\<exists>e. compareValues rule name b c = Some (Inl e) \<and> e \<noteq> [])
    \<or> (\<exists>entry. compareValues rule name b c = Some (Inr entry) \<and> en_name entry = name \<and> en_ruleText entry = rl_text rule
         \<and> (en_state entry = C_IMPROVED \<longleftrightarrow> dless (signed_delta (rl_direction rule) b c) zero64)
         \<and> (en_state entry = C_REGRESSED \<longrightarrow> dless zero64 (signed_delta (rl_direction rule) b c))
         \<and> en_state entry \<in> {C_OK, C_REGRESSED, C_IMPROVED})"
  using assms by (auto simp: compareValues_def Let_def empty_entry_def)

text \<open>C21. The verdict word agrees with the two measured values as numbers, rounding included: under a rule with a
  threshold, IMPROVED stands exactly when the contender is strictly better in the rule's direction, REGRESSED only when
  it is strictly worse, and a pair that regresses one way improves the other way.\<close>
theorem verdict_agrees_with_the_values:
  assumes rule: "rl_relativeThreshold rule \<noteq> None \<or> rl_absoluteThreshold rule \<noteq> None"
    and b: "is_finite b" "well_formed64 b" and c: "is_finite c" "well_formed64 c"
    and entry: "compareValues rule name b c = Some (Inr entry)"
  shows "(en_state entry = C_IMPROVED \<longleftrightarrow> better (rl_direction rule) c b)
    \<and> (en_state entry = C_REGRESSED \<longrightarrow> better (rl_direction rule) b c)
    \<and> (\<forall>swapped. compareValues rule name c b = Some (Inr swapped) \<longrightarrow> en_state entry = C_REGRESSED \<longrightarrow> en_state swapped = C_IMPROVED)"
proof -
  have good: "good64 b" "good64 c" using b c by (simp_all add: good64_def)
  have fwd: "(en_state entry = C_IMPROVED \<longleftrightarrow> better (rl_direction rule) c b)"
      "en_state entry = C_REGRESSED \<Longrightarrow> better (rl_direction rule) b c"
    using compareValues_cases [OF rule, of name b c] entry signed_delta_sign [OF good] by auto
  have "en_state swapped = C_IMPROVED" if "compareValues rule name c b = Some (Inr swapped)" "en_state entry = C_REGRESSED" for swapped
    using compareValues_cases [OF rule, of name c b] that fwd(2) signed_delta_sign [OF good(2,1)] by auto
  with fwd show ?thesis by blast
qed

definition sample_rule :: compare_rule where
  "sample_rule = \<lparr>rl_text = ''time:lower:abs=0'', rl_valueName = ''time'', rl_aggregate = Some A_MEDIAN,
     rl_direction = LOWER_IS_BETTER, rl_relativeThreshold = None, rl_absoluteThreshold = Some zero64, rl_filter = []\<rparr>"

lemma one64_good: "is_finite one64" "well_formed64 one64" "is_finite zero64" "well_formed64 zero64" "dless zero64 one64"
  by (simp_all add: one64_value zero64_def canonical_def min_exp_def max_exp_def sig_top_def signed_sig_def)

lemma verdict_agrees_with_the_values_witness:
  "\<exists>entry. compareValues sample_rule ''b'' one64 zero64 = Some (Inr entry) \<and> en_state entry = C_IMPROVED"
proof -
  obtain entry where e: "compareValues sample_rule ''b'' one64 zero64 = Some (Inr entry)"
    by (simp add: compareValues_def sample_rule_def Let_def)
  with verdict_agrees_with_the_values [OF _ one64_good(1-4) e] show ?thesis
    by (simp add: sample_rule_def better_def one64_good(5))
qed

subsection \<open>Walks that stop at a fault\<close>

lemma walk_steps_Cons:
  "walk_steps f (x # xs) = Some (Inr ys)
   \<longleftrightarrow> (\<exists>y zs. f x = Some (Inr y) \<and> walk_steps f xs = Some (Inr zs) \<and> ys = y # zs)"
  by (auto split: option.splits sum.splits)

lemma walk_steps_Some: "walk_steps f xs = Some (Inr ys) \<longleftrightarrow> list_all2 (\<lambda>x y. f x = Some (Inr y)) xs ys"
  by (induction xs arbitrary: ys) (auto simp: list_all2_Cons1 walk_steps_Cons simp del: walk_steps.simps(2))

lemma walk_steps_origin: "walk_steps f xs = Some (Inr ys) \<Longrightarrow> y \<in> set ys \<Longrightarrow> \<exists>x \<in> set xs. f x = Some (Inr y)"
  by (induction xs arbitrary: ys) (auto split: option.splits sum.splits)

lemma walk_steps_fault: "walk_steps f xs = Some (Inl e) \<Longrightarrow> \<exists>x \<in> set xs. f x = Some (Inl e)"
  by (induction xs) (auto split: option.splits sum.splits)

lemma walk_steps_total: "\<forall>x \<in> set xs. f x \<noteq> None \<Longrightarrow> walk_steps f xs \<noteq> None"
  by (induction xs) (auto split: option.splits sum.splits)

lemma map_sum_id_iff [simp]:
  "map_sum id f z = Inr y \<longleftrightarrow> (\<exists>x. z = Inr x \<and> y = f x)"
  "map_sum id f z = Inl e \<longleftrightarrow> z = Inl e"
  by (cases z; auto)+

lemma list_all2_map_eq:
  assumes "list_all2 P xs ys" and "\<And>x y. x \<in> set xs \<Longrightarrow> P x y \<Longrightarrow> g y = h x"
  shows "map g ys = map h xs"
  using assms by (induction rule: list_all2_induct) auto

subsection \<open>The buckets of the sites\<close>

lemma bucket_fold:
  assumes "\<forall>t \<in> set tagged. fst t < length sites"
  shows "foldl (\<lambda>sites (i, e). sites[i := sites ! i @ [e]]) sites tagged
       = map (\<lambda>i. sites ! i @ map snd (filter (\<lambda>t. fst t = i) tagged)) [0..<length sites]"
  using assms
proof (induction tagged arbitrary: sites)
  case Nil
  then show ?case by (simp add: map_nth)
next
  case (Cons t tagged)
  obtain i e where t: "t = (i, e)" by fastforce
  have "i < length sites" "\<forall>t \<in> set tagged. fst t < length (sites[i := sites ! i @ [e]])" using Cons.prems t by simp_all
  then show ?case using Cons.IH [of "sites[i := sites ! i @ [e]]"] by (auto simp: t nth_list_update)
qed

lemma by_site_groups:
  assumes "\<forall>t \<in> set tagged. fst t < n"
  shows "by_site n tagged = concat (map (\<lambda>i. map snd (filter (\<lambda>t. fst t = i) tagged)) [0..<n])"
proof -
  have "foldl (\<lambda>sites (i, e). sites[i := sites ! i @ [e]]) (replicate n []) tagged
      = map (\<lambda>i. replicate n [] ! i @ map snd (filter (\<lambda>t. fst t = i) tagged)) [0..<n]"
    using bucket_fold [of tagged "replicate n []"] assms by simp
  also have "\<dots> = map (\<lambda>i. map snd (filter (\<lambda>t. fst t = i) tagged)) [0..<n]"
    by (intro map_cong refl) simp
  finally show ?thesis by (simp only: by_site_def)
qed

subsection \<open>The entries in report order\<close>

definition admits :: "regex_engine \<Rightarrow> compare_rule \<Rightarrow> pair_site \<Rightarrow> bool" where
  "admits rx rule site \<longleftrightarrow> rl_filter rule = [] \<or> rx_search rx (rl_filter rule) (pr_name site)"

lemma scope_slot_index: "scope_slot b c matched rule parts i = Some (Inr slot) \<Longrightarrow> sv_siteIndex (fst slot) = i"
  by (auto simp: scope_slot_def bare_slot_def Let_def split: option.splits sum.splits)

lemma scoped_indices:
  assumes "scopedValuesOf rx b c matched rule = Some (Inr slots)"
  shows "map sv_siteIndex slots = filter (\<lambda>i. admits rx rule (matched ! i)) [0..<length matched]"
proof -
  obtain parts pairs where p: "walk_steps (scope_slot b c matched rule parts) (scope_indices rx matched rule) = Some (Inr pairs)"
    and s: "slots = map fst pairs"
    using assms by (auto simp: scopedValuesOf_def Let_def split: option.splits sum.splits if_splits)
  have "map (\<lambda>s. sv_siteIndex (fst s)) pairs = map (\<lambda>i. i) (scope_indices rx matched rule)"
    by (rule list_all2_map_eq [OF p [unfolded walk_steps_Some]]) (auto dest: scope_slot_index)
  then show ?thesis by (simp add: s comp_def scope_indices_def admits_def)
qed

lemma entryFor_labels:
  assumes "entryFor g site rule slot = Some (Inr e)"
  shows "en_name e = pr_name site" and "en_ruleText e = rl_text rule"
proof -
  have "en_name e = pr_name site \<and> en_ruleText e = rl_text rule"
    using assms by (auto simp: entryFor_def compareValues_def Let_def empty_entry_def split: option.splits sum.splits if_splits)
  then show "en_name e = pr_name site" and "en_ruleText e = rl_text rule" by simp_all
qed

text \<open>What one entry is about: its site and its rule.\<close>

abbreviation labels_of :: "compare_entry \<Rightarrow> string \<times> string" where
  "labels_of e \<equiv> (en_name e, en_ruleText e)"

abbreviation labels_at :: "pair_site list \<Rightarrow> compare_rule \<Rightarrow> nat \<Rightarrow> string \<times> string" where
  "labels_at matched rule i \<equiv> (pr_name (matched ! i), rl_text rule)"

lemma tagged_labels:
  assumes "rule_entries g matched scoped = Some (Inr tagged)"
  shows "map (\<lambda>t. (fst t, labels_of (snd t))) tagged
       = concat (map (\<lambda>(rule, slots). map (\<lambda>i. (i, labels_at matched rule i)) (map sv_siteIndex slots)) scoped)"
proof -
  have "map (\<lambda>t. (fst t, labels_of (snd t))) tagged
      = map (\<lambda>(rule, slot). (sv_siteIndex slot, labels_at matched rule (sv_siteIndex slot)))
          (concat (map (\<lambda>(rule, slots). map (Pair rule) slots) scoped))"
    by (rule list_all2_map_eq [OF assms [unfolded rule_entries_def walk_steps_Some]]) (auto dest: entryFor_labels)
  then show ?thesis by (simp add: map_concat comp_def case_prod_unfold)
qed

lemma filter_index:
  "map snd (filter (\<lambda>t. fst t = i) (map (\<lambda>j. (j, f j)) (filter P [0..<n]))) = (if i < n \<and> P i then [f i] else [])"
  by (induction n) (auto simp: filter_map comp_def less_Suc_eq)

lemma site_labels:
  assumes tagged: "rule_entries g matched (zip rules scopes) = Some (Inr tagged)"
    and scopes: "rule_scopes rx b c matched rules = Some (Inr scopes)" and i: "i < length matched"
  shows "map labels_of (map snd (filter (\<lambda>t. fst t = i) tagged))
       = map (\<lambda>rule. labels_at matched rule i) (filter (\<lambda>rule. admits rx rule (matched ! i)) rules)"
proof -
  have all: "list_all2 (\<lambda>rule slots. map sv_siteIndex slots = filter (\<lambda>i. admits rx rule (matched ! i)) [0..<length matched]) rules scopes"
    using scopes by (auto simp: rule_scopes_def walk_steps_Some dest: scoped_indices elim: list_all2_mono)
  have "map labels_of (map snd (filter (\<lambda>t. fst t = i) tagged))
      = map snd (filter (\<lambda>t. fst t = i) (map (\<lambda>t. (fst t, labels_of (snd t))) tagged))"
    by (simp add: filter_map comp_def)
  also have "\<dots> = map snd (filter (\<lambda>t. fst t = i)
      (concat (map (\<lambda>(rule, slots). map (\<lambda>i. (i, labels_at matched rule i)) (map sv_siteIndex slots)) (zip rules scopes))))"
    by (simp only: tagged_labels [OF tagged])
  also have "\<dots> = concat (map (\<lambda>(rule, slots). map snd (filter (\<lambda>t. fst t = i)
      (map (\<lambda>i. (i, labels_at matched rule i)) (map sv_siteIndex slots)))) (zip rules scopes))"
    by (simp add: filter_concat map_concat comp_def case_prod_unfold)
  also have "\<dots> = map (\<lambda>rule. labels_at matched rule i) (filter (\<lambda>rule. admits rx rule (matched ! i)) rules)"
    using all i by (induction rule: list_all2_induct) (simp_all add: filter_index del: map_map)
  finally show ?thesis .
qed

lemma engine_answer:
  assumes "compareReportValues rx g b c rules strict = Some (Inr r)"
  obtains scopes tagged where "rule_scopes rx b c (matchPair b c) rules = Some (Inr scopes)"
    and "\<not> list_ex (\<lambda>s. pr_baseline s \<noteq> None \<and> pr_contender s \<noteq> None) (matchPair b c) \<Longrightarrow> cp_entries r = []"
    and "list_ex (\<lambda>s. pr_baseline s \<noteq> None \<and> pr_contender s \<noteq> None) (matchPair b c)
         \<Longrightarrow> rule_entries g (matchPair b c) (zip rules scopes) = Some (Inr tagged)
           \<and> cp_entries r = by_site (length (matchPair b c)) tagged"
    and "cp_passed r = verdict_of (cp_entries r) strict"
  using assms that by (auto simp: compareReportValues_def Let_def split: if_splits option.splits sum.splits)

lemma tagged_range:
  assumes tagged: "rule_entries g matched (zip rules scopes) = Some (Inr tagged)"
    and scopes: "rule_scopes rx b c matched rules = Some (Inr scopes)"
  shows "\<forall>t \<in> set tagged. fst t < length matched"
proof -
  have all: "list_all2 (\<lambda>rule slots. set (map sv_siteIndex slots) \<subseteq> {..<length matched}) rules scopes"
    using scopes unfolding rule_scopes_def walk_steps_Some
    by (rule list_all2_mono) (simp only: scoped_indices, auto)
  have "set (map fst tagged) = set (map fst (map (\<lambda>t. (fst t, labels_of (snd t))) tagged))" by simp
  also have "\<dots> = (\<Union>(rule, slots) \<in> set (zip rules scopes). set (map sv_siteIndex slots))"
    by (simp only: tagged_labels [OF tagged]) force
  also have "\<dots> \<subseteq> {..<length matched}"
    using all unfolding list_all2_iff by fastforce
  finally show ?thesis by auto
qed

lemma matchPair_names:
  "map pr_name (matchPair b c)
   = map result_name (rd_results b) @ filter (\<lambda>n. n \<notin> set (map result_name (rd_results b))) (map result_name (rd_results c))"
proof -
  have fresh: "indexOfResult rs n < length rs \<longleftrightarrow> n \<in> set (map result_name rs)" for rs n
  proof (cases "index_of (\<lambda>r. result_name r = n) rs")
    case None
    then show ?thesis using index_of_None [of "\<lambda>r. result_name r = n" rs] by (simp add: indexOfResult_def) blast
  next
    case (Some i)
    then show ?thesis using index_of_Some [OF Some] by (auto simp: indexOfResult_def)
  qed
  have "map (\<lambda>i. result_name (rd_results b ! i)) [0..<length (rd_results b)] = map result_name (rd_results b)"
    by (metis (no_types, lifting) map_nth map_map comp_apply map_cong)
  moreover have "map (\<lambda>i. result_name (rd_results c ! i)) (filter (\<lambda>i. result_name (rd_results c ! i) \<notin> N) [0..<length (rd_results c)])
      = filter (\<lambda>n. n \<notin> N) (map result_name (rd_results c))" for N
  proof -
    have "filter (\<lambda>n. n \<notin> N) (map (\<lambda>i. result_name (rd_results c ! i)) [0..<length (rd_results c)])
        = map (\<lambda>i. result_name (rd_results c ! i)) (filter (\<lambda>i. result_name (rd_results c ! i) \<notin> N) [0..<length (rd_results c)])"
      by (simp add: filter_map comp_def)
    moreover have "map (\<lambda>i. result_name (rd_results c ! i)) [0..<length (rd_results c)] = map result_name (rd_results c)"
      by (metis (no_types, lifting) map_nth map_map comp_apply map_cong)
    ultimately show ?thesis by simp
  qed
  ultimately show ?thesis
    by (simp add: matchPair_def comp_def baseline_site_def contender_site_def Let_def fresh)
qed

text \<open>C23. The comparison lists its entries in report order: with at least one benchmark both reports hold, the entries are
  exactly one per benchmark and applied rule whose filter admits it, the benchmarks in the order of the baseline with the
  names only the contender holds after them, and the rules of one benchmark together in the order they were given.\<close>
theorem compare_entries_in_report_order:
  assumes answer: "compareReports rx g b c rules strict = Some (Inr r)" and applied: "appliedRulesOf rx rules = Some rs"
    and paired: "s \<in> set (matchPair b c)" "pr_baseline s \<noteq> None" "pr_contender s \<noteq> None"
  shows "map (\<lambda>e. (en_name e, en_ruleText e)) (cp_entries r)
       = concat (map (\<lambda>site. map (\<lambda>rule. (pr_name site, rl_text rule)) (filter (\<lambda>rule. admits rx rule site) rs)) (matchPair b c))
       \<and> map pr_name (matchPair b c)
       = map result_name (rd_results b) @ filter (\<lambda>n. n \<notin> set (map result_name (rd_results b))) (map result_name (rd_results c))"
proof -
  have "compareReportValues rx g b c rs strict = Some (Inr r)"
    using answer applied by (auto simp: compareReports_def split: if_splits option.splits sum.splits)
  then obtain scopes tagged where scopes: "rule_scopes rx b c (matchPair b c) rs = Some (Inr scopes)"
    and e: "rule_entries g (matchPair b c) (zip rs scopes) = Some (Inr tagged)"
      "cp_entries r = by_site (length (matchPair b c)) tagged"
    using paired by (elim engine_answer) (auto simp: list_ex_iff)
  let ?m = "matchPair b c"
  have "map labels_of (cp_entries r)
      = concat (map (\<lambda>i. map labels_of (map snd (filter (\<lambda>t. fst t = i) tagged))) [0..<length ?m])"
    by (simp only: e(2) by_site_groups [OF tagged_range [OF e(1) scopes]] map_concat map_map comp_def)
  also have "\<dots> = concat (map (\<lambda>i. map (\<lambda>rule. labels_at ?m rule i) (filter (\<lambda>rule. admits rx rule (?m ! i)) rs)) [0..<length ?m])"
    by (intro arg_cong [where f = concat] map_cong refl site_labels [OF e(1) scopes]) simp
  also have "\<dots> = concat (map (\<lambda>site. map (\<lambda>rule. (pr_name site, rl_text rule)) (filter (\<lambda>rule. admits rx rule site) rs)) (map ((!) ?m) [0..<length ?m]))"
    by (simp add: comp_def)
  finally show ?thesis by (simp only: map_nth matchPair_names)
qed

subsection \<open>The contract of the comparison\<close>

lemma read_cpu_field_bound: "read_cpu_field fs fault rest = Inr (cpu, i, tail) \<Longrightarrow> i < length fs"
  by (auto simp: read_cpu_field_def Let_def dest: index_of_bound split: sum.splits if_splits option.splits)

lemma readJitterName_bound: "readJitterName n = Inr (p, k) \<Longrightarrow> jn_field p < length kJitterFields"
  by (auto simp: readJitterName_def Let_def dest!: read_cpu_field_bound split: sum.splits)

lemma readHwlatName_bound: "readHwlatName n = Inr (p, k) \<Longrightarrow> hn_figure p < length kHwlatFields"
  by (auto simp: readHwlatName_def dest!: read_cpu_field_bound split: sum.splits)

definition readable_parts :: "value_parts \<Rightarrow> bool" where
  "readable_parts parts \<longleftrightarrow> (\<forall>p. vp_jitter parts = Some p \<longrightarrow> jn_field p < length kJitterFields)
     \<and> (\<forall>p. vp_hwlat parts = Some p \<longrightarrow> hn_figure p < length kHwlatFields)"

lemma value_parts_readable: "value_parts_of rule = Inr parts \<Longrightarrow> readable_parts parts"
  unfolding value_parts_of_def readable_parts_def
  by (auto dest: readJitterName_bound readHwlatName_bound split: sum.splits if_splits)

lemma jitterValueOf_total: "jn_field p < length kJitterFields \<Longrightarrow> jitterValueOf st entry p rule name label \<noteq> None"
  by (auto simp: jitterValueOf_def nth_opt_def Let_def split: option.splits)

lemma hwlatValueOf_total: "hn_figure p < length kHwlatFields \<Longrightarrow> hwlatValueOf report p rule label \<noteq> None"
  by (auto simp: hwlatValueOf_def nth_opt_def split: option.splits list.splits)

lemma jitterValueOf_fault: "jitterValueOf st entry p rule name label = Some (Inl e) \<Longrightarrow> e \<noteq> []"
  by (auto simp: jitterValueOf_def Let_def split: option.splits if_splits)

lemma hwlatValueOf_fault: "hwlatValueOf report p rule label = Some (Inl e) \<Longrightarrow> e \<noteq> []"
  by (auto simp: hwlatValueOf_def split: option.splits list.splits if_splits)

lemma read_value_total: "readable_parts parts \<Longrightarrow> read_value rule parts name result rw report label \<noteq> None"
  by (auto simp: read_value_def readable_parts_def hwlatValueOf_total jitterValueOf_total split: option.splits
      simp del: not_None_eq)

lemma read_value_fault: "read_value rule parts name result rw report label = Some (Inl e) \<Longrightarrow> e \<noteq> []"
  by (auto simp: read_value_def missingValueFault_def dest: hwlatValueOf_fault jitterValueOf_fault
      split: option.splits if_splits)

lemma scope_slot_total: "readable_parts parts \<Longrightarrow> scope_slot b c matched rule parts i \<noteq> None"
  by (auto simp: scope_slot_def Let_def dest: read_value_total [THEN notE] split: option.splits sum.splits)

lemma scope_slot_fault: "scope_slot b c matched rule parts i = Some (Inl e) \<Longrightarrow> e \<noteq> []"
  by (auto simp: scope_slot_def Let_def dest: read_value_fault split: option.splits sum.splits)

lemma scope_slot_comparable:
  "scope_slot b c matched rule parts i = Some (Inr slot) \<Longrightarrow> sv_comparable (fst slot)
   \<Longrightarrow> pr_baseline (matched ! i) \<noteq> None \<and> pr_contender (matched ! i) \<noteq> None"
  by (auto simp: scope_slot_def Let_def bare_slot_def split: option.splits sum.splits)

lemma value_parts_fault: "value_parts_of rule = Inl e \<Longrightarrow> e \<noteq> []"
  by (auto simp: value_parts_of_def split: sum.splits if_splits)

lemma scopedValuesOf_total: "scopedValuesOf rx b c matched rule \<noteq> None"
proof -
  have walk: "False" if "walk_steps (scope_slot b c matched rule parts) is = None" "value_parts_of rule = Inr parts" for parts "is"
    using walk_steps_total [of "is"] scope_slot_total [OF value_parts_readable [OF that(2)]] that(1) by blast
  show ?thesis by (auto simp: scopedValuesOf_def Let_def dest: walk split: option.splits sum.splits)
qed

lemma scopedValuesOf_fault: "scopedValuesOf rx b c matched rule = Some (Inl e) \<Longrightarrow> e \<noteq> []"
  by (auto simp: scopedValuesOf_def Let_def dest: value_parts_fault walk_steps_fault scope_slot_fault
      dest!: walk_steps_fault split: option.splits sum.splits if_splits)

text \<open>A slot of the walk is comparable only over a site both reports hold.\<close>

lemma scoped_comparable:
  assumes "scopedValuesOf rx b c matched rule = Some (Inr slots)" and "slot \<in> set slots" and "sv_comparable slot"
  shows "pr_baseline (matched ! sv_siteIndex slot) \<noteq> None \<and> pr_contender (matched ! sv_siteIndex slot) \<noteq> None"
proof -
  obtain parts pairs where p: "walk_steps (scope_slot b c matched rule parts) (scope_indices rx matched rule) = Some (Inr pairs)"
    and s: "slots = map fst pairs"
    using assms(1) by (auto simp: scopedValuesOf_def Let_def split: option.splits sum.splits if_splits)
  obtain pair where pair: "pair \<in> set pairs" "slot = fst pair" using assms(2) s by auto
  obtain i where "scope_slot b c matched rule parts i = Some (Inr pair)"
    using walk_steps_origin [OF p pair(1)] by blast
  then show ?thesis using scope_slot_index scope_slot_comparable assms(3) pair(2) by metis
qed

abbreviation has_threshold :: "compare_rule \<Rightarrow> bool" where
  "has_threshold rule \<equiv> rl_relativeThreshold rule \<noteq> None \<or> rl_absoluteThreshold rule \<noteq> None"

lemma entryFor_total:
  assumes "has_threshold rule" and "sv_comparable slot \<Longrightarrow> pr_baseline site \<noteq> None \<and> pr_contender site \<noteq> None"
  shows "entryFor g site rule slot \<noteq> None"
  using assms compareValues_cases [OF assms(1), of "pr_name site" "sv_baseline slot" "sv_contender slot"]
  by (auto simp: entryFor_def noiseGuard_def Let_def split: option.splits sum.splits)

lemma compareValues_fault: "compareValues rule name b c = Some (Inl e) \<Longrightarrow> e \<noteq> []"
  by (auto simp: compareValues_def Let_def split: if_splits)

lemma entryFor_fault: "entryFor g site rule slot = Some (Inl e) \<Longrightarrow> e \<noteq> []"
  by (auto simp: entryFor_def dest: compareValues_fault split: option.splits sum.splits if_splits)

lemma rule_entries_total:
  assumes rules: "\<forall>rule \<in> set rules. has_threshold rule" and scopes: "rule_scopes rx b c matched rules = Some (Inr scopes)"
  shows "rule_entries g matched (zip rules scopes) \<noteq> None"
  unfolding rule_entries_def
proof (rule walk_steps_total, rule ballI)
  fix x
  assume "x \<in> set (concat (map (\<lambda>(rule, slots). map (Pair rule) slots) (zip rules scopes)))"
  then obtain rule slots slot where x: "x = (rule, slot)" "(rule, slots) \<in> set (zip rules scopes)" "slot \<in> set slots"
    by auto
  have "scopedValuesOf rx b c matched rule = Some (Inr slots)"
    using scopes x(2) by (auto simp: rule_scopes_def walk_steps_Some list_all2_iff)
  from scoped_comparable [OF this x(3)] have "entryFor g (matched ! sv_siteIndex slot) rule slot \<noteq> None"
    by (intro entryFor_total) (use rules x(2) in \<open>auto dest: set_zip_leftD\<close>)
  then show "(case x of (rule, slot) \<Rightarrow>
      map_option (map_sum id (Pair (sv_siteIndex slot))) (entryFor g (matched ! sv_siteIndex slot) rule slot)) \<noteq> None"
    by (simp add: x(1))
qed

lemma rule_entries_fault: "rule_entries g matched scoped = Some (Inl e) \<Longrightarrow> e \<noteq> []"
  by (auto simp: rule_entries_def dest!: walk_steps_fault dest: entryFor_fault)

lemma rule_scopes_fault: "rule_scopes rx b c matched rules = Some (Inl e) \<Longrightarrow> e \<noteq> []"
  by (auto simp: rule_scopes_def dest!: walk_steps_fault dest: scopedValuesOf_fault)

lemma default_rule:
  "parseCompareRule rx kDefaultCompareRule = Some (Inr \<lparr>rl_text = kDefaultCompareRule, rl_valueName = ''time'',
     rl_aggregate = Some A_MEDIAN, rl_direction = LOWER_IS_BETTER,
     rl_relativeThreshold = Some (ddiv (round64 False 5 1) hundred64), rl_absoluteThreshold = None, rl_filter = []\<rparr>)"
proof (rule parseCompareRule_read)
  have "rule_value kDefaultCompareRule = Inr (''time'', True, rule_suffix (Some A_MEDIAN) LOWER_IS_BETTER ''5%'' [])"
    by (simp add: kDefaultCompareRule_def rule_value_def labelPrefixOf_def kLabelPrefixes_def starts_with_def rule_suffix_def)
  from readRule_suffix [OF this _ five_percent] show "readRule rx kDefaultCompareRule = Inr \<lparr>rl_text = kDefaultCompareRule,
      rl_valueName = ''time'', rl_aggregate = Some A_MEDIAN, rl_direction = LOWER_IS_BETTER,
      rl_relativeThreshold = Some (ddiv (round64 False 5 1) hundred64), rl_absoluteThreshold = None, rl_filter = []\<rparr>"
    by simp
qed (simp_all add: kDefaultCompareRule_def)

lemma applied_rules:
  assumes "\<forall>rule \<in> set rules. has_threshold rule"
  obtains rs where "appliedRulesOf rx rules = Some rs" and "\<forall>rule \<in> set rs. has_threshold rule"
  using assms default_rule [of "rx_error rx"] by (cases "rules = []") (auto simp: appliedRulesOf_def)

lemma by_site_members:
  assumes "\<forall>t \<in> set tagged. fst t < n"
  shows "set (by_site n tagged) = snd ` set tagged"
proof -
  have "set (by_site n tagged) = (\<Union>i < n. snd ` {t \<in> set tagged. fst t = i})"
    by (simp add: by_site_groups [OF assms] atLeast0LessThan)
  also have "\<dots> = snd ` set tagged" using assms by fastforce
  finally show ?thesis .
qed

text \<open>Every entry is the answer of \<open>entryFor\<close> for a slot of the walk of one applied rule.\<close>

lemma entry_origin:
  assumes answer: "compareReportValues rx g b c rules strict = Some (Inr r)" and e: "e \<in> set (cp_entries r)"
  obtains rule slots slot where "rule \<in> set rules" and "scopedValuesOf rx b c (matchPair b c) rule = Some (Inr slots)"
    and "slot \<in> set slots" and "sv_siteIndex slot < length (matchPair b c)"
    and "entryFor g (matchPair b c ! sv_siteIndex slot) rule slot = Some (Inr e)"
proof -
  obtain scopes tagged where scopes: "rule_scopes rx b c (matchPair b c) rules = Some (Inr scopes)"
    and t: "rule_entries g (matchPair b c) (zip rules scopes) = Some (Inr tagged)" "cp_entries r = by_site (length (matchPair b c)) tagged"
  proof (rule engine_answer [OF answer], goal_cases)
    case (1 scopes tagged)
    have "cp_entries r \<noteq> []" using e by auto
    with 1(3) have "list_ex (\<lambda>s. pr_baseline s \<noteq> None \<and> pr_contender s \<noteq> None) (matchPair b c)" by blast
    from 1(4) [OF this] 1(1,2) show ?case by blast
  qed
  note range = tagged_range [OF t(1) scopes]
  obtain i where i: "(i, e) \<in> set tagged"
    using e by (auto simp: t(2) by_site_members [OF range])
  obtain x where x: "x \<in> set (concat (map (\<lambda>(rule, slots). map (Pair rule) slots) (zip rules scopes)))"
    and step: "(case x of (rule, slot) \<Rightarrow> map_option (map_sum id (Pair (sv_siteIndex slot)))
       (entryFor g (matchPair b c ! sv_siteIndex slot) rule slot)) = Some (Inr (i, e))"
    using walk_steps_origin [OF t(1) [unfolded rule_entries_def] i] by blast
  obtain rule slots slot where p: "x = (rule, slot)" "(rule, slots) \<in> set (zip rules scopes)" "slot \<in> set slots"
    using x by auto
  have "scopedValuesOf rx b c (matchPair b c) rule = Some (Inr slots)"
    using scopes p(2) by (auto simp: rule_scopes_def walk_steps_Some list_all2_iff)
  moreover have "rule \<in> set rules" using p(2) by (rule set_zip_leftD)
  moreover have "entryFor g (matchPair b c ! sv_siteIndex slot) rule slot = Some (Inr e)" "sv_siteIndex slot = i"
    using step by (auto simp: p(1))
  ultimately show ?thesis using that p(3) range i by fastforce
qed

lemma engine_total:
  assumes "\<forall>rule \<in> set rules. has_threshold rule"
  shows "\<exists>answer. compareReportValues rx g b c rules strict = Some answer"
proof -
  have none: "rule_scopes rx b c (matchPair b c) rules \<noteq> None"
    unfolding rule_scopes_def by (rule walk_steps_total) (use scopedValuesOf_total in blast)
  consider e where "rule_scopes rx b c (matchPair b c) rules = Some (Inl e)"
    | scopes where "rule_scopes rx b c (matchPair b c) rules = Some (Inr scopes)"
    using none by (metis not_None_eq sum.exhaust)
  then show ?thesis
  proof cases
    case 1
    then show ?thesis by (simp add: compareReportValues_def Let_def)
  next
    case (2 scopes)
    obtain entries where "rule_entries g (matchPair b c) (zip rules scopes) = Some entries"
      using rule_entries_total [OF assms 2] by blast
    with 2 show ?thesis by (cases entries) (simp_all add: compareReportValues_def Let_def)
  qed
qed

lemma compareReports_contract:
  assumes "warnings_beside_results b" and "warnings_beside_results c"
    and rules: "\<forall>rule \<in> set rules. rl_relativeThreshold rule \<noteq> None \<or> rl_absoluteThreshold rule \<noteq> None"
  shows "\<exists>answer. compareReports rx g b c rules strict = Some answer
    \<and> (case answer of Inl fault \<Rightarrow> fault \<noteq> []
       | Inr r \<Rightarrow> cp_passed r = verdict_of (cp_entries r) strict
           \<and> (\<exists>rs. appliedRulesOf rx rules = Some rs \<and> namesAppliedRule (cp_entries r) rs))"
proof -
  obtain rs where rs: "appliedRulesOf rx rules = Some rs" "\<forall>rule \<in> set rs. has_threshold rule"
    using applied_rules [OF rules] .
  obtain answer where a: "compareReportValues rx g b c rs strict = Some answer"
    using engine_total [OF rs(2)] by blast
  show ?thesis
  proof (cases answer)
    case (Inl fault)
    then have "fault \<noteq> []"
      using a by (auto simp: compareReportValues_def Let_def dest: rule_scopes_fault rule_entries_fault
          split: option.splits sum.splits if_splits)
    then show ?thesis using assms(1,2) a Inl rs(1) by (simp add: compareReports_def)
  next
    case (Inr r)
    have names: "namesAppliedRule (cp_entries r) rs"
      using entry_origin [OF a [unfolded Inr]] entryFor_labels(2)
      by (simp add: namesAppliedRule_def list_all_iff list_ex_iff) metis
    moreover have "cp_passed r = verdict_of (cp_entries r) strict"
      using engine_answer [OF a [unfolded Inr]] by metis
    ultimately show ?thesis using assms(1,2) a Inr rs(1) by (simp add: compareReports_def)
  qed
qed

text \<open>C22. The comparison keeps its contract: for reports whose warnings stand beside their results and rules that carry a
  threshold, \<open>compareReports\<close> answers, a fault is never an empty text, every entry names an applied rule, and the verdict
  is the one its entries state; no slot, site or field index of the walk leaves its list.\<close>
theorem comparison_keeps_its_contract:
  assumes "warnings_beside_results b" and "warnings_beside_results c"
    and rules: "\<forall>rule \<in> set rules. rl_relativeThreshold rule \<noteq> None \<or> rl_absoluteThreshold rule \<noteq> None"
  shows "\<exists>answer. compareReports rx g b c rules strict = Some answer
    \<and> (case answer of Inl fault \<Rightarrow> fault \<noteq> []
       | Inr r \<Rightarrow> cp_passed r = verdict_of (cp_entries r) strict
           \<and> (\<exists>rs. appliedRulesOf rx rules = Some rs \<and> namesAppliedRule (cp_entries r) rs))"
  using assms by (rule compareReports_contract)

lemma compareReports_total:
  assumes "warnings_beside_results b" and "warnings_beside_results c" and "\<forall>rule \<in> set rules. has_threshold rule"
  shows "\<exists>answer. compareReports rx g b c rules strict = Some answer"
  using compareReports_contract [OF assms] by blast

subsection \<open>A report against itself\<close>

lemma dsub_self: "\<not> dless zero64 (dsub v v)" "\<not> dless (dsub v v) zero64"
  by (cases v; simp add: dsub_def zero64_def signed_sig_def)+

lemma indexOfResult_nth:
  assumes "distinct (map result_name rs)" and "i < length rs"
  shows "indexOfResult rs (result_name (rs ! i)) = i"
proof -
  have "index_of (\<lambda>r. result_name r = result_name (rs ! i)) rs = Some i"
    by (rule index_ofI) (use assms in \<open>auto simp: distinct_conv_nth\<close>)
  then show ?thesis by (simp add: indexOfResult_def)
qed

lemma self_site:
  assumes "distinct (map result_name (rd_results r))" and "k < length (matchPair r r)"
  shows "pr_contender (matchPair r r ! k) = pr_baseline (matchPair r r ! k)" and "pr_baseline (matchPair r r ! k) \<noteq> None"
proof -
  have "matchPair r r = map (baseline_site r r) [0..<length (rd_results r)]"
    using indexOfResult_nth [OF assms(1)] by (simp add: matchPair_def)
  with assms(2) indexOfResult_nth [OF assms(1)]
  show "pr_contender (matchPair r r ! k) = pr_baseline (matchPair r r ! k)" and "pr_baseline (matchPair r r ! k) \<noteq> None"
    by (simp_all add: baseline_site_def Let_def)
qed

lemma jitterValueOf_side:
  "jitterValueOf st entry p rule name l = Some (Inr v) \<Longrightarrow> jitterValueOf st entry p rule name l' = Some (Inr w) \<Longrightarrow> v = w"
  by (auto simp: jitterValueOf_def Let_def split: option.splits if_splits)

lemma hwlatValueOf_side:
  "hwlatValueOf report p rule l = Some (Inr v) \<Longrightarrow> hwlatValueOf report p rule l' = Some (Inr w) \<Longrightarrow> v = w"
  by (auto simp: hwlatValueOf_def split: option.splits list.splits if_splits)

lemma read_value_side:
  "read_value rule parts n res rw report l = Some (Inr v) \<Longrightarrow> read_value rule parts n res rw report l' = Some (Inr w) \<Longrightarrow> v = w"
  by (auto simp: read_value_def dest: jitterValueOf_side hwlatValueOf_side split: option.splits if_splits)

lemma self_slot:
  assumes "scope_slot r r matched rule parts i = Some (Inr slot)" and "sv_comparable (fst slot)"
    and "pr_contender (matched ! i) = pr_baseline (matched ! i)"
  shows "sv_baseline (fst slot) = sv_contender (fst slot)"
  using assms by (auto simp: scope_slot_def Let_def bare_slot_def dest: read_value_side split: option.splits sum.splits)

lemma self_entry:
  assumes "entryFor g site rule slot = Some (Inr e)" and "sv_comparable slot \<Longrightarrow> sv_baseline slot = sv_contender slot"
    and "pr_baseline site \<noteq> None" and "pr_contender site \<noteq> None"
  shows "en_state e \<in> {C_OK, C_NOISY, C_SKIPPED}"
  using assms dsub_self [of "sv_contender slot"]
  by (auto simp: entryFor_def compareValues_def empty_entry_def signed_delta_def Let_def split: option.splits sum.splits if_splits)

text \<open>C26. A report compared with itself never regresses: whatever the rules, every entry reads OK, NOISY or SKIPPED, no
  benchmark is added, removed or improved, and without the strict switch the comparison passes.\<close>
theorem report_passes_against_itself:
  assumes names: "distinct (map (\<lambda>r. rs_name (br_copied r)) (rd_results report))"
    and answer: "compareReports rx g report report rules strict = Some (Inr res)"
  shows "(\<forall>e \<in> set (cp_entries res). en_state e \<in> {C_OK, C_NOISY, C_SKIPPED}) \<and> (\<not> strict \<longrightarrow> cp_passed res)"
proof -
  obtain rs where a: "compareReportValues rx g report report rs strict = Some (Inr res)"
    using answer by (auto simp: compareReports_def split: if_splits option.splits sum.splits)
  have states: "en_state e \<in> {C_OK, C_NOISY, C_SKIPPED}" if mem: "e \<in> set (cp_entries res)" for e
  proof -
    obtain rule slots slot where o: "scopedValuesOf rx report report (matchPair report report) rule = Some (Inr slots)"
        "slot \<in> set slots" "sv_siteIndex slot < length (matchPair report report)"
        "entryFor g (matchPair report report ! sv_siteIndex slot) rule slot = Some (Inr e)"
      using entry_origin [OF a mem] by metis
    note same = self_site [OF names o(3)]
    obtain parts pairs where p: "walk_steps (scope_slot report report (matchPair report report) rule parts)
          (scope_indices rx (matchPair report report) rule) = Some (Inr pairs)" and s: "slots = map fst pairs"
      using o(1) by (auto simp: scopedValuesOf_def Let_def split: option.splits sum.splits if_splits)
    obtain pair where pair: "pair \<in> set pairs" "slot = fst pair" using o(2) s by auto
    obtain i where i: "scope_slot report report (matchPair report report) rule parts i = Some (Inr pair)"
      using walk_steps_origin [OF p pair(1)] by blast
    have "sv_baseline slot = sv_contender slot" if "sv_comparable slot"
      using self_slot [OF i] scope_slot_index [OF i] that same(1) pair(2) by simp
    then show ?thesis using self_entry [OF o(4)] same by auto
  qed
  moreover have "cp_passed res = verdict_of (cp_entries res) strict" using engine_answer [OF a] by metis
  ultimately show ?thesis by (fastforce simp: verdict_of_def hasState_def list_ex_iff)
qed

subsection \<open>The batch filter\<close>

definition kept_at :: "(string \<Rightarrow> bool) \<Rightarrow> report_result list \<Rightarrow> 'a list \<Rightarrow> nat \<Rightarrow> 'a list" where
  "kept_at match rs xs n = map ((!) xs) (filter (\<lambda>i. match (result_name (rs ! i))) [0..<n])"

lemma kept_at_Suc: "kept_at match rs xs (Suc n) = kept_at match rs xs n @ (if match (result_name (rs ! n)) then [xs ! n] else [])"
  by (simp add: kept_at_def)

lemma kept_at_length: "length (kept_at match rs xs n) \<le> n"
  using length_filter_le [of "\<lambda>i. match (result_name (rs ! i))" "[0..<n]"] by (simp add: kept_at_def)

lemma kept_at_lengths: "length (kept_at match rs xs n) = length (kept_at match rs ys n)"
  by (simp add: kept_at_def)

text \<open>A list the loop compacts: the kept elements so far stand first, and nothing after the index has moved.\<close>

definition compacted :: "(string \<Rightarrow> bool) \<Rightarrow> report_result list \<Rightarrow> 'a list \<Rightarrow> nat \<Rightarrow> 'a list \<Rightarrow> bool" where
  "compacted match rs xs n ys \<longleftrightarrow> length ys = length xs \<and> take (length (kept_at match rs xs n)) ys = kept_at match rs xs n
     \<and> (\<forall>j. n \<le> j \<longrightarrow> j < length xs \<longrightarrow> ys ! j = xs ! j)"

lemma compacted_start: "compacted match rs xs 0 xs"
  by (simp add: compacted_def kept_at_def)

lemma compacted_skip: "compacted match rs xs n ys \<Longrightarrow> \<not> match (result_name (rs ! n)) \<Longrightarrow> compacted match rs xs (Suc n) ys"
  by (simp add: compacted_def kept_at_Suc)

lemma compacted_stay:
  assumes "compacted match rs xs n ys" and "match (result_name (rs ! n))" and "n < length xs"
    and "length (kept_at match rs xs n) = n"
  shows "compacted match rs xs (Suc n) ys"
  using assms by (simp add: compacted_def kept_at_Suc take_Suc_conv_app_nth)

lemma compacted_move:
  assumes c: "compacted match rs xs n ys" and m: "match (result_name (rs ! n))" and n: "n < length xs"
    and k: "k = length (kept_at match rs xs n)"
  obtains zs where "move_within k n ys = Some zs" and "compacted match rs xs (Suc n) zs"
proof -
  have "k \<le> n" using kept_at_length k by simp
  then have "move_within k n ys = Some (ys[k := xs ! n])"
    using c n by (simp add: move_within_def compacted_def)
  moreover have "compacted match rs xs (Suc n) (ys[k := xs ! n])"
    using c m n k \<open>k \<le> n\<close>
    by (auto simp: compacted_def kept_at_Suc take_Suc_conv_app_nth)
  ultimately show ?thesis by (rule that)
qed

definition compacted_report :: "(string \<Rightarrow> bool) \<Rightarrow> report_data \<Rightarrow> nat \<Rightarrow> nat \<times> report_data \<Rightarrow> bool" where
  "compacted_report match report n st \<longleftrightarrow>
     (let rs = rd_results report
      in fst st = length (kept_at match rs rs n)
         \<and> compacted match rs rs n (rd_results (snd st))
         \<and> compacted match rs (rd_rowRaw report) n (rd_rowRaw (snd st))
         \<and> compacted match rs (rd_contextRaw report) n (rd_contextRaw (snd st))
         \<and> compacted match rs (rd_noiseWarnings report) n (rd_noiseWarnings (snd st))
         \<and> rd_schemaVersion (snd st) = rd_schemaVersion report
         \<and> rd_runJitterStats (snd st) = rd_runJitterStats report \<and> rd_precheck (snd st) = rd_precheck report)"

definition paired_lists :: "report_data \<Rightarrow> bool" where
  "paired_lists report \<longleftrightarrow> length (rd_rowRaw report) = length (rd_results report)
     \<and> length (rd_contextRaw report) = length (rd_results report)
     \<and> length (rd_noiseWarnings report) = length (rd_results report)"

lemma filter_step_compacts:
  assumes c: "compacted_report match report n st" and n: "n < length (rd_results report)" and p: "paired_lists report"
  shows "\<exists>st'. filter_step match n st = Some st' \<and> compacted_report match report (Suc n) st'"
proof -
  define rs where "rs = rd_results report"
  obtain k r where st: "st = (k, r)" by fastforce
  have k: "k = length (kept_at match rs xs n)" for xs :: "'b list"
    using c by (simp add: compacted_report_def Let_def rs_def st kept_at_def)
  have lists: "compacted match rs rs n (rd_results r)" "compacted match rs (rd_rowRaw report) n (rd_rowRaw r)"
      "compacted match rs (rd_contextRaw report) n (rd_contextRaw r)"
      "compacted match rs (rd_noiseWarnings report) n (rd_noiseWarnings r)"
    using c by (simp_all add: compacted_report_def Let_def rs_def st)
  have n': "n < length rs" "n < length (rd_rowRaw report)" "n < length (rd_contextRaw report)"
      "n < length (rd_noiseWarnings report)"
    using n p by (simp_all add: rs_def paired_lists_def)
  have same: "rd_results r ! n = rs ! n" using lists(1) n'(1) by (simp add: compacted_def)
  consider "\<not> match (result_name (rs ! n))" | "match (result_name (rs ! n))" "k = n" | "match (result_name (rs ! n))" "k \<noteq> n"
    by blast
  then show ?thesis
  proof cases
    case 1
    then show ?thesis
      using c lists [THEN compacted_skip]
      by (simp add: filter_step_def st same compacted_report_def Let_def kept_at_Suc rs_def [symmetric])
  next
    case 2
    then show ?thesis
      using c compacted_stay [OF lists(1) 2(1) n'(1)] compacted_stay [OF lists(2) 2(1) n'(2)]
        compacted_stay [OF lists(3) 2(1) n'(3)] compacted_stay [OF lists(4) 2(1) n'(4)]
      by (simp add: filter_step_def st same compacted_report_def Let_def kept_at_Suc rs_def [symmetric] flip: k)
  next
    case 3
    obtain zs1 zs2 zs3 zs4 where
      "move_within k n (rd_results r) = Some zs1" "compacted match rs rs (Suc n) zs1"
      "move_within k n (rd_rowRaw r) = Some zs2" "compacted match rs (rd_rowRaw report) (Suc n) zs2"
      "move_within k n (rd_contextRaw r) = Some zs3" "compacted match rs (rd_contextRaw report) (Suc n) zs3"
      "move_within k n (rd_noiseWarnings r) = Some zs4" "compacted match rs (rd_noiseWarnings report) (Suc n) zs4"
      using compacted_move [OF lists(1) 3(1) n'(1) k] compacted_move [OF lists(2) 3(1) n'(2) k]
        compacted_move [OF lists(3) 3(1) n'(3) k] compacted_move [OF lists(4) 3(1) n'(4) k] by metis
    then show ?thesis
      using c 3 by (simp add: filter_step_def st same compacted_report_def Let_def kept_at_Suc rs_def [symmetric])
  qed
qed

lemma filter_steps_compacts:
  assumes "compacted_report match report n st" and "n + m = length (rd_results report)" and "paired_lists report"
  shows "\<exists>st'. filter_steps match [n..<n + m] st = Some st' \<and> compacted_report match report (n + m) st'"
  using assms(1,2)
proof (induction m arbitrary: n st)
  case 0
  then show ?case by simp
next
  case (Suc m)
  then obtain st1 where st1: "filter_step match n st = Some st1" "compacted_report match report (Suc n) st1"
    using filter_step_compacts [OF Suc.prems(1) _ assms(3)] by auto
  then obtain st2 where "filter_steps match [Suc n..<Suc n + m] st1 = Some st2" "compacted_report match report (Suc n + m) st2"
    using Suc.IH [of "Suc n" st1] Suc.prems(2) by auto
  moreover have "[n..<Suc (n + m)] = n # [Suc n..<Suc n + m]" by (simp add: upt_conv_Cons)
  ultimately show ?case using st1(1) by (simp del: upt_Suc)
qed

text \<open>The entries of a list that stand beside an admitted result.\<close>

definition beside :: "(string \<Rightarrow> bool) \<Rightarrow> report_data \<Rightarrow> 'a list \<Rightarrow> 'a list" where
  "beside match report xs = map snd (filter (\<lambda>p. match (result_name (fst p))) (zip (rd_results report) xs))"

lemma kept_at_zip:
  assumes "length xs = length rs"
  shows "kept_at match rs xs (length rs) = map snd (filter (\<lambda>p. match (result_name (fst p))) (zip rs xs))"
proof -
  have "zip rs xs = map (\<lambda>i. (rs ! i, xs ! i)) [0..<length rs]"
    using assms by (intro nth_equalityI) simp_all
  then show ?thesis by (simp add: kept_at_def filter_map comp_def)
qed

lemma applyBatchFilter_filters:
  assumes "length (rd_rowRaw report) = length (rd_results report)"
    and "length (rd_contextRaw report) = length (rd_results report)"
    and "length (rd_noiseWarnings report) = length (rd_results report)"
  shows "applyBatchFilter match report = Some (report\<lparr>
           rd_results := filter (\<lambda>r. match (rs_name (br_copied r))) (rd_results report),
           rd_rowRaw := beside match report (rd_rowRaw report), rd_contextRaw := beside match report (rd_contextRaw report),
           rd_noiseWarnings := beside match report (rd_noiseWarnings report)\<rparr>)"
proof -
  define rs where "rs = rd_results report"
  have p: "paired_lists report" using assms by (simp add: paired_lists_def)
  have start: "compacted_report match report 0 (0, report)"
    by (simp add: compacted_report_def compacted_start Let_def kept_at_def)
  obtain k r where run: "filter_steps match [0..<length rs] (0, report) = Some (k, r)"
    and c: "compacted_report match report (length rs) (k, r)"
    using filter_steps_compacts [OF start _ p, of "length rs"] by (auto simp: rs_def)
  have k: "k = length (kept_at match rs xs (length rs))" for xs :: "'b list"
    using c by (simp add: compacted_report_def Let_def rs_def kept_at_def)
  have cut: "take k ys = kept_at match rs xs (length rs)" "k \<le> length ys"
    if "compacted match rs xs (length rs) ys" and "length xs = length rs" for xs ys :: "'c list"
    using that k [of xs] kept_at_length [of match rs xs "length rs"] by (simp_all add: compacted_def)
  have lists: "compacted match rs rs (length rs) (rd_results r)" "compacted match rs (rd_rowRaw report) (length rs) (rd_rowRaw r)"
      "compacted match rs (rd_contextRaw report) (length rs) (rd_contextRaw r)"
      "compacted match rs (rd_noiseWarnings report) (length rs) (rd_noiseWarnings r)"
    using c by (simp_all add: compacted_report_def Let_def rs_def)
  have results: "kept_at match rs rs (length rs) = filter (\<lambda>r. match (rs_name (br_copied r))) rs"
    by (simp add: kept_at_zip zip_same_conv_map filter_map comp_def)
  have rest: "rd_schemaVersion r = rd_schemaVersion report" "rd_runJitterStats r = rd_runJitterStats report"
      "rd_precheck r = rd_precheck report"
    using c by (simp_all add: compacted_report_def Let_def)
  note lens = assms [folded rs_def]
  show ?thesis
    unfolding applyBatchFilter_def rs_def [symmetric] run option.case prod.case resize_def beside_def
      kept_at_zip [OF lens(1), symmetric] kept_at_zip [OF lens(2), symmetric] kept_at_zip [OF lens(3), symmetric] results [symmetric]
    using cut [OF lists(1)] cut [OF lists(2) lens(1)] cut [OF lists(3) lens(2)] cut [OF lists(4) lens(3)] rest
    by (cases r; cases report) simp
qed

lemma filtered_report:
  assumes "paired_lists report"
  shows "\<exists>r. applyBatchFilter match report = Some r \<and> warnings_beside_results r"
proof -
  have "length (beside match report (rd_noiseWarnings report)) = length (filter (\<lambda>r. match (result_name r)) (rd_results report))"
  proof -
    have "filter (\<lambda>r. match (result_name r)) (rd_results report)
        = map fst (filter (\<lambda>p. match (result_name (fst p))) (zip (rd_results report) (rd_noiseWarnings report)))"
      using filter_map [of "\<lambda>r. match (result_name r)" fst "zip (rd_results report) (rd_noiseWarnings report)"] assms
      by (simp add: paired_lists_def comp_def)
    then show ?thesis by (simp add: beside_def)
  qed
  then show ?thesis
    using applyBatchFilter_filters [of report match] assms by (simp add: paired_lists_def warnings_beside_results_def)
qed

text \<open>The batch filter scopes a loaded report in place: the compaction loop of \<open>applyBatchFilter\<close> stays inside the four
  position-indexed lists and leaves each of them with exactly the entries of the admitted benchmarks, in their order, so
  the lists still stand beside each other, and it touches nothing else.\<close>
theorem batch_filter_keeps_the_lists_paired:
  assumes "length (rd_rowRaw report) = length (rd_results report)"
    and "length (rd_contextRaw report) = length (rd_results report)"
    and "length (rd_noiseWarnings report) = length (rd_results report)"
  shows "applyBatchFilter match report = Some (report\<lparr>
           rd_results := filter (\<lambda>r. match (rs_name (br_copied r))) (rd_results report),
           rd_rowRaw := beside match report (rd_rowRaw report), rd_contextRaw := beside match report (rd_contextRaw report),
           rd_noiseWarnings := beside match report (rd_noiseWarnings report)\<rparr>)"
  using assms by (rule applyBatchFilter_filters)

subsection \<open>The exit of the compare mode\<close>

text \<open>The compare mode ends with a status of its table: for documents the loader pairs list by list, a filter the regex
  library accepts and rules with a threshold it answers; the failed flag stands exactly with a status that is not zero;
  the status is 2 for a rejected document, a comparison fault or a refused write, 1 for a comparison that does not pass,
  and 0 exactly when both documents load, the comparison passes and the document it was asked for is written.\<close>
theorem compare_mode_exit:
  assumes loads: "\<forall>path report. load path = Inr report \<longrightarrow> paired_lists report"
    and filter_ok: "cr_filter opts = [] \<or> rx_error rx (cr_filter opts) = None"
    and rules: "\<forall>rule \<in> set (cr_compareRules opts). rl_relativeThreshold rule \<noteq> None \<or> rl_absoluteThreshold rule \<noteq> None"
  shows "\<exists>exit. runCompareMode rx g load written opts = Some exit
    \<and> (ce_failed exit \<longleftrightarrow> ce_status exit \<noteq> 0) \<and> ce_status exit \<in> {0, 1, 2}
    \<and> (ce_status exit = 0 \<longleftrightarrow> (\<exists>b c b' c' r. load (cr_compareBaseline opts) = Inr b \<and> load (cr_compareContender opts) = Inr c
          \<and> scoped_reports rx (cr_filter opts) b c = Some (b', c')
          \<and> compareReports rx g b' c' (cr_compareRules opts) (cr_compareStrict opts) = Some (Inr r) \<and> cp_passed r
          \<and> (cr_jsonPath opts = [] \<or> written (cr_jsonPath opts) r (cr_compareRules opts) (cr_compareBaseline opts) (cr_compareContender opts))))"
proof (cases "\<exists>b c. load (cr_compareBaseline opts) = Inr b \<and> load (cr_compareContender opts) = Inr c")
  case False
  then show ?thesis
    by (cases "load (cr_compareBaseline opts)"; cases "load (cr_compareContender opts)") (simp_all add: runCompareMode_def)
next
  case True
  then obtain b c where l: "load (cr_compareBaseline opts) = Inr b" "load (cr_compareContender opts) = Inr c" by blast
  have "paired_lists b" "paired_lists c" using loads l by blast+
  then obtain b' c' where s: "scoped_reports rx (cr_filter opts) b c = Some (b', c')"
    and w: "warnings_beside_results b'" "warnings_beside_results c'"
    using filter_ok filtered_report [of b "rx_search rx (cr_filter opts)"] filtered_report [of c "rx_search rx (cr_filter opts)"]
    by (cases "cr_filter opts = []") (auto simp: scoped_reports_def paired_lists_def warnings_beside_results_def)
  obtain answer where a: "compareReports rx g b' c' (cr_compareRules opts) (cr_compareStrict opts) = Some answer"
    using compareReports_total [OF w rules] by blast
  then show ?thesis by (cases answer) (auto simp: runCompareMode_def l s)
qed

subsection \<open>Two reports of one benchmark\<close>

definition sample_stats :: statistics where
  "sample_stats = \<lparr>st_samples = 1, st_mean = one64, st_median = one64, st_sampleStdDev = zero64,
     st_coefficientOfVariation = zero64, st_min = one64, st_max = one64\<rparr>"

definition sample_row :: report_row where
  "sample_row = \<lparr>rr_timePerIterationNs = one64, rr_cpuTimePerIterationNs = one64, rr_metrics = [], rr_counters = [],
     rr_percentiles = [], rr_copied = \<lparr>rw_kind = K_REPETITION, rw_timeAvailability = COUNTABLE,
       rw_timeStats = sample_stats, rw_metricStats = []\<rparr>\<rparr>"

definition sample_result :: report_result where
  "sample_result = \<lparr>br_rows = [sample_row], br_metricLabels = [], br_metricMethod = AUTO, br_passCount = 1,
     br_passSpread = None, br_primaryIsCpu = False, br_contextPercentiles = [],
     br_copied = \<lparr>rs_name = ''b'', rs_outcome = R_MEASURED, rs_counterLabels = [], rs_counterStats = [],
       rs_statisticValues = [], rs_percentilePoints = [], rs_jitterFolds = [], rs_topdown = None\<rparr>\<rparr>"

definition sample_report :: report_data where
  "sample_report = \<lparr>rd_results = [sample_result], rd_rowRaw = [[]], rd_contextRaw = [[]], rd_schemaVersion = ''1.0'',
     rd_noiseWarnings = [None], rd_runJitterStats = None, rd_precheck = None\<rparr>"

definition plain_regex :: regex_engine where
  "plain_regex = \<lparr>rx_error = (\<lambda>_. None), rx_search = (\<lambda>p t. p = t)\<rparr>"

lemma sample_match: "matchPair sample_report sample_report
    = [\<lparr>pr_name = ''b'', pr_baseline = Some sample_result, pr_contender = Some sample_result,
        pr_baselineWarning = None, pr_contenderWarning = None\<rparr>]"
  by (simp add: matchPair_def sample_report_def baseline_site_def indexOfResult_def noiseWarningAt_def Let_def)
    (simp add: sample_result_def)

lemma sample_reads: "read_value sample_rule \<lparr>vp_jitter = None, vp_hwlat = None\<rparr> n sample_result sample_row rep l = Some (Inr one64)"
  by (simp add: read_value_def resolveCompareValue_def selectCompareRow_def sample_result_def sample_row_def sample_rule_def
      valueSiteOf_def labelPrefixOf_def kLabelPrefixes_def starts_with_def metricAvailabilityOf_def Let_def)

lemma sample_selects: "selectCompareRow sample_result = Some sample_row"
  by (simp add: selectCompareRow_def sample_result_def sample_row_def)

lemma sample_parts: "value_parts_of sample_rule = Inr \<lparr>vp_jitter = None, vp_hwlat = None\<rparr>"
  by (simp add: value_parts_of_def sample_rule_def kJitterPrefix_def kHwlatPrefix_def starts_with_def)

lemma sample_scope: "scopedValuesOf plain_regex sample_report sample_report (matchPair sample_report sample_report) sample_rule
    = Some (Inr [\<lparr>sv_siteIndex = 0, sv_comparable = True, sv_baseline = one64, sv_contender = one64\<rparr>])"
  unfolding scopedValuesOf_def sample_match
  by (simp add: scope_indices_def sample_parts scope_slot_def sample_selects sample_reads)
    (simp add: sample_rule_def)

lemma sample_guard: "noiseGuard g sample_rule sample_result sample_result None None = Some None"
  by (simp add: noiseGuard_def sample_rule_def carried_mark_def guardReport_def noiseAccountOf_def sample_selects
      valueSiteOf_def labelPrefixOf_def kLabelPrefixes_def starts_with_def Let_def)
    (simp add: sample_row_def sample_result_def sample_stats_def)

lemma sample_compare: "\<exists>r. compareReports plain_regex g sample_report sample_report [sample_rule] False = Some (Inr r)"
proof -
  have sch: "schemaMajor (rd_schemaVersion sample_report) = Some ''1''"
    by (simp add: sample_report_def schemaMajor_def find_char_def)
  have cv: "\<exists>e. compareValues sample_rule ''b'' one64 one64 = Some (Inr e)"
    by (simp add: compareValues_def sample_rule_def Let_def)
  have "\<exists>e. entryFor g (matchPair sample_report sample_report ! 0) sample_rule
      \<lparr>sv_siteIndex = 0, sv_comparable = True, sv_baseline = one64, sv_contender = one64\<rparr> = Some (Inr e)"
    using cv by (auto simp: entryFor_def sample_match sample_guard)
  then obtain e where e: "entryFor g (matchPair sample_report sample_report ! 0) sample_rule
      \<lparr>sv_siteIndex = 0, sv_comparable = True, sv_baseline = one64, sv_contender = one64\<rparr> = Some (Inr e)" by blast
  have "\<exists>r. compareReportValues plain_regex g sample_report sample_report [sample_rule] False = Some (Inr r)"
    by (simp add: compareReportValues_def sch rule_scopes_def sample_scope rule_entries_def e Let_def)
  moreover have "warnings_beside_results sample_report" by (simp add: warnings_beside_results_def sample_report_def)
  ultimately obtain r where v: "compareReportValues plain_regex g sample_report sample_report [sample_rule] False = Some (Inr r)"
    and w: "warnings_beside_results sample_report" by blast
  have "\<forall>rule \<in> set [sample_rule]. has_threshold rule" by (simp add: sample_rule_def)
  from compareReports_total [OF w w this] obtain answer
    where "compareReports plain_regex g sample_report sample_report [sample_rule] False = Some answer" by blast
  with v show ?thesis by (auto simp: compareReports_def appliedRulesOf_def w split: if_splits)
qed

lemma compare_entries_in_report_order_witness:
  "\<exists>r. compareReports plain_regex (\<lambda>_. ''0'') sample_report sample_report [sample_rule] False = Some (Inr r)
     \<and> map (\<lambda>e. (en_name e, en_ruleText e)) (cp_entries r) = [(''b'', ''time:lower:abs=0'')]"
proof -
  obtain r where r: "compareReports plain_regex (\<lambda>_. ''0'') sample_report sample_report [sample_rule] False = Some (Inr r)"
    using sample_compare by blast
  have a: "appliedRulesOf plain_regex [sample_rule] = Some [sample_rule]" by (simp add: appliedRulesOf_def)
  have "\<lparr>pr_name = ''b'', pr_baseline = Some sample_result, pr_contender = Some sample_result,
        pr_baselineWarning = None, pr_contenderWarning = None\<rparr> \<in> set (matchPair sample_report sample_report)"
    by (simp add: sample_match)
  from compare_entries_in_report_order [OF r a this] have "map labels_of (cp_entries r) = [(''b'', rl_text sample_rule)]"
    by (simp add: sample_match admits_def) (simp add: sample_rule_def)
  with r show ?thesis by (auto simp: sample_rule_def)
qed

lemma comparison_keeps_its_contract_witness:
  "\<exists>answer. compareReports plain_regex (\<lambda>_. ''0'') sample_report sample_report [] True = Some answer"
  using comparison_keeps_its_contract [of sample_report sample_report "[]" plain_regex "\<lambda>_. ''0''" True]
  by (auto simp: warnings_beside_results_def sample_report_def)

lemma report_passes_against_itself_witness:
  "\<exists>r. compareReports plain_regex (\<lambda>_. ''0'') sample_report sample_report [sample_rule] False = Some (Inr r) \<and> cp_passed r"
proof -
  obtain r where r: "compareReports plain_regex (\<lambda>_. ''0'') sample_report sample_report [sample_rule] False = Some (Inr r)"
    using sample_compare by blast
  have "distinct (map (\<lambda>r. rs_name (br_copied r)) (rd_results sample_report))" by (simp add: sample_report_def)
  from report_passes_against_itself [OF this r] r show ?thesis by blast
qed

lemma batch_filter_keeps_the_lists_paired_witness:
  "\<exists>r. applyBatchFilter (\<lambda>n. n = ''c'') sample_report = Some r \<and> rd_results r = []"
  using batch_filter_keeps_the_lists_paired [of sample_report "\<lambda>n. n = ''c''"]
  by (simp add: sample_report_def sample_result_def)

lemma compare_mode_exit_witness:
  "\<exists>exit. runCompareMode plain_regex (\<lambda>_. ''0'') (\<lambda>p. if p = ''a'' then Inr sample_report else Inl ''no such file'') (\<lambda>_ _ _ _ _. True)
     \<lparr>cr_compareBaseline = ''a'', cr_compareContender = ''z'', cr_filter = [], cr_compareRules = [sample_rule],
      cr_compareStrict = True, cr_jsonPath = []\<rparr> = Some exit \<and> ce_status exit \<noteq> 0"
proof -
  define load where "load = (\<lambda>p. if p = ''a'' then Inr sample_report else Inl ''no such file'')"
  define opts where "opts = \<lparr>cr_compareBaseline = ''a'', cr_compareContender = ''z'', cr_filter = [],
      cr_compareRules = [sample_rule], cr_compareStrict = True, cr_jsonPath = []\<rparr>"
  have "\<forall>path report. load path = Inr report \<longrightarrow> paired_lists report"
    by (simp add: load_def paired_lists_def sample_report_def)
  moreover have "\<forall>rule \<in> set (cr_compareRules opts). has_threshold rule" by (simp add: opts_def sample_rule_def)
  moreover have "cr_filter opts = [] \<or> rx_error plain_regex (cr_filter opts) = None" by (simp add: opts_def)
  ultimately have "\<exists>exit. runCompareMode plain_regex (\<lambda>_. ''0'') load (\<lambda>_ _ _ _ _. True) opts = Some exit \<and> ce_status exit \<noteq> 0"
    using compare_mode_exit [of load opts plain_regex "\<lambda>_. ''0''" "\<lambda>_ _ _ _ _. True"]
    by (auto simp: load_def opts_def)
  then show ?thesis by (simp add: load_def opts_def)
qed

end
