(* ===== verification/Topdown.thy ===== *)
theory Topdown
  imports Resolve
begin

text \<open>
  The top-down selection (\<open>source/counters/linux_pmu/topdown_select.cpp\<close>, records of
  \<open>include/speedgun-ng/counters_topdown.hpp\<close>): the identity of a cpu, the listing of its event-table directory, the
  tree of top-down rows up to an asked level, and the refusals.  The mapping file, the embedded registry and the table
  loader are fields of \<open>topdown_env\<close>.  A position of the row vector that names no row is \<open>None\<close>.
\<close>

subsection \<open>Data\<close>

record cpu_identity =
  ci_vendor :: string
  ci_family :: int
  ci_model :: int
  ci_stepping :: int
  ci_coreType :: string
  ci_midr :: "u32 option"

record table_file =
  tf_name :: string
  tf_manifestHash :: string

record topdown_source =
  ts_reference :: string
  ts_directory :: string
  ts_files :: "table_file list"

record topdown_row =
  tr_name :: string
  tr_group :: string
  tr_unit :: string
  tr_threshold :: string
  tr_core :: expr_core
  tr_published :: bool
  tr_refusal :: metric_refusal
  tr_reason :: string

record topdown_table =
  tt_source :: topdown_source
  tt_rows :: "topdown_row list"

record topdown_event_group =
  eg_event :: string
  eg_group :: string

record topdown_tree_node =
  tn_name :: string
  tn_vendorName :: string
  tn_parent :: string
  tn_level :: nat
  tn_core :: expr_core
  tn_events :: "string list"
  tn_threshold :: string

record topdown_refusal =
  tx_name :: string
  tx_parent :: string
  tx_level :: nat
  tx_refusal :: metric_refusal
  tx_reason :: string

record topdown_tree =
  tp_source :: topdown_source
  tp_depth :: nat
  tp_amd :: bool
  tp_nodes :: "topdown_tree_node list"
  tp_refused :: "topdown_refusal list"

record topdown_selection =
  to_identity :: cpu_identity
  to_level :: nat
  to_table :: "topdown_table option"

datatype topdown_unsupport = UNKNOWN_VENDOR | NO_DIRECTORY | HYBRID | ARM | NO_TOPDOWN_ROWS

record topdown_unsupported =
  tu_kind :: topdown_unsupport
  tu_vendor :: string
  tu_identity :: string
  tu_detail :: string

text \<open>A directory of the registry: its reference, and the name and digest of each file.\<close>

record embedded_dir =
  ed_reference :: string
  ed_files :: "(string \<times> string) list"

record topdown_env =
  te_ident :: cpu_identity
  te_selectDirectory :: "string \<Rightarrow> int \<Rightarrow> int \<Rightarrow> int \<Rightarrow> string"
  te_findDir :: "string \<Rightarrow> embedded_dir option"
  te_loadTable :: table_loader
  te_host :: metric_host

subsection \<open>The listing\<close>

definition listedRow :: "metric_definition \<Rightarrow> topdown_row" where
  "listedRow d =
     \<lparr>tr_name = md_name d, tr_group = md_group d, tr_unit = md_unit d, tr_threshold = md_threshold d, tr_core = md_core d,
      tr_published = md_published d, tr_refusal = md_refusal d, tr_reason = md_reason d\<rparr>"

definition fillSourceRecord :: "topdown_env \<Rightarrow> topdown_source \<Rightarrow> topdown_source" where
  "fillSourceRecord env source =
     (let directory = ts_directory source;
          key = (if directory \<noteq> [] \<and> last directory = CHR ''/'' then butlast directory else directory)
      in case te_findDir env key of
           None \<Rightarrow> source
         | Some dir \<Rightarrow>
             let contributed = filter (\<lambda>f. list_ex (\<lambda>e. pe_fileName e = fst f) (te_loadTable env directory)) (ed_files dir)
             in source\<lparr>ts_reference := ed_reference dir,
                  ts_files := ts_files source @ map (\<lambda>f. \<lparr>tf_name = fst f, tf_manifestHash = snd f\<rparr>) contributed\<rparr>)"

text \<open>The two fields no reader answers stand absent.\<close>

definition cpuIdentity :: "topdown_env \<Rightarrow> cpu_identity" where
  "cpuIdentity env = (te_ident env)\<lparr>ci_coreType := [], ci_midr := None\<rparr>"

definition directory_of :: "topdown_env \<Rightarrow> cpu_identity \<Rightarrow> string" where
  "directory_of env i = te_selectDirectory env (ci_vendor i) (ci_family i) (ci_model i) (ci_stepping i)"

definition topdownTable :: "topdown_env \<Rightarrow> cpu_identity \<Rightarrow> topdown_table checked" where
  "topdownTable env identity =
     (let directory = directory_of env identity;
          source = \<lparr>ts_reference = [], ts_directory = directory, ts_files = []\<rparr>
      in if directory = [] then Some \<lparr>tt_source = source, tt_rows = []\<rparr>
         else
           (case resolvedMetricTable (te_loadTable env) ((te_host env)\<lparr>mh_directory := directory\<rparr>) of
              None \<Rightarrow> None
            | Some resolved \<Rightarrow> Some \<lparr>tt_source = fillSourceRecord env source, tt_rows = map listedRow (rt_rows resolved)\<rparr>))"

text \<open>\<open>std::filesystem::path::stem\<close>: the last component without its extension; a leading dot starts no extension.\<close>

definition path_stem :: "string \<Rightarrow> string" where
  "path_stem path =
     (let file = (case rfind_char (CHR ''/'') path of None \<Rightarrow> path | Some i \<Rightarrow> drop (i + 1) path)
      in if file = ''..'' then file
         else case rfind_char (CHR ''.'') file of None \<Rightarrow> file | Some i \<Rightarrow> if i = 0 then file else take i file)"

definition event_group_step :: "pmu_table_entry \<Rightarrow> topdown_event_group list \<Rightarrow> topdown_event_group list" where
  "event_group_step row' pairs =
     (if pe_name row' \<in> set (map eg_event pairs) then pairs
      else pairs @ [\<lparr>eg_event = pe_name row', eg_group = path_stem (pe_fileName row')\<rparr>])"

definition topdownEventGroups :: "topdown_env \<Rightarrow> cpu_identity \<Rightarrow> topdown_event_group list checked" where
  "topdownEventGroups env identity =
     (let directory = directory_of env identity;
          pairs = (if directory = [] then [] else fold event_group_step (te_loadTable env directory) [])
      in if distinct (map eg_event pairs) then Some pairs else None)"

subsection \<open>Group tokens\<close>

definition kIntelVendor :: string where "kIntelVendor = ''GenuineIntel''"
definition kAmdVendor :: string where "kAmdVendor = ''AuthenticAMD''"
definition kSmtContention :: string where "kSmtContention = ''smt_contention''"

lemma shorter_tail: "dropWhile P s \<noteq> [] \<Longrightarrow> length (tl (dropWhile P s)) < length s"
  using length_dropWhile_le [of P s] by (cases "dropWhile P s") simp_all

function tokensOf :: "string \<Rightarrow> string list" where
  "tokensOf s =
     (let rest = dropWhile (\<lambda>c. c \<noteq> CHR '';'') s; tok = takeWhile (\<lambda>c. c \<noteq> CHR '';'') s
      in if rest = [] then [tok] else tok # tokensOf (tl rest))"
  by pat_completeness auto
termination
  by (relation "measure length") (simp, simp only: in_measure shorter_tail not_False_eq_True)

declare tokensOf.simps [simp del]

definition kLevelTokens :: "(string \<times> nat) list" where
  "kLevelTokens = [(''TopdownL'', 6), (''PipelineL'', 2)]"

definition level_digit :: "string \<Rightarrow> string \<times> nat \<Rightarrow> nat option" where
  "level_digit tok p =
     (let n = length (fst p)
      in if length tok \<noteq> n + 1 \<or> \<not> starts_with tok (fst p) then None
         else
           let d = of_char (tok ! n)
           in if 49 \<le> d \<and> d \<le> 48 + snd p then Some (d - 48) else None)"

definition levelOfToken :: "string \<Rightarrow> nat" where
  "levelOfToken tok =
     (case List.find (\<lambda>p. level_digit tok p \<noteq> None) kLevelTokens of
        None \<Rightarrow> 0
      | Some p \<Rightarrow> (case level_digit tok p of None \<Rightarrow> 0 | Some d \<Rightarrow> d))"

definition level_of_row :: "topdown_row \<Rightarrow> nat" where
  "level_of_row r = fold (\<lambda>tok level. if levelOfToken tok > level then levelOfToken tok else level) (tokensOf (tr_group r)) 0"

text \<open>The index of the first row of each name.\<close>

definition firstRowOfName :: "topdown_row list \<Rightarrow> string \<Rightarrow> nat option" where
  "firstRowOfName rows name = index_of (\<lambda>r. tr_name r = name) rows"

definition kGroupSuffix :: string where "kGroupSuffix = ''_group''"

definition ends_with :: "string \<Rightarrow> string \<Rightarrow> bool" where
  "ends_with s suffix' \<longleftrightarrow> starts_with (rev s) (rev suffix')"

fun parent_of_tokens :: "topdown_row list \<Rightarrow> nat \<Rightarrow> string list \<Rightarrow> nat option" where
  "parent_of_tokens rows own [] = None"
| "parent_of_tokens rows own (t # ts) =
     (if length t \<le> length kGroupSuffix \<or> \<not> ends_with t kGroupSuffix then parent_of_tokens rows own ts
      else
        case firstRowOfName rows (take (length t - length kGroupSuffix) t) of
          None \<Rightarrow> parent_of_tokens rows own ts
        | Some named \<Rightarrow> if named = own then parent_of_tokens rows own ts else Some named)"

definition parentRowOf :: "topdown_row list \<Rightarrow> nat \<Rightarrow> nat option" where
  "parentRowOf rows own = parent_of_tokens rows own (tokensOf (tr_group (rows ! own)))"

subsection \<open>Names\<close>

definition sharedNameOf :: "string \<Rightarrow> string" where
  "sharedNameOf name = (if starts_with name ''tma_'' then drop 4 name else name)"

definition neutralNameOf :: "string \<Rightarrow> nat \<Rightarrow> bool \<Rightarrow> string" where
  "neutralNameOf name level amd =
     (if level = 1 then ''topdown.'' @ sharedNameOf name
      else ''topdown.'' @ (if amd then ''amd'' else ''intel'') @ ''.'' @ name)"

definition identityText :: "cpu_identity \<Rightarrow> string" where
  "identityText i = ''family '' @ decimal_int (ci_family i) @ '' model '' @ decimal_int (ci_model i)
     @ (if 0 \<le> ci_stepping i then '' stepping '' @ decimal_int (ci_stepping i) else [])"

definition kDigits :: string where "kDigits = ''0123456789abcdef''"

definition midrText :: "u32 \<Rightarrow> string" where
  "midrText midr = ''0x'' @ map (\<lambda>shift. kDigits ! (unat midr div 2 ^ shift mod 16)) [28, 24, 20, 16, 12, 8, 4, 0]"

definition publishesTwoScopes :: "topdown_env \<Rightarrow> string \<Rightarrow> bool" where
  "publishesTwoScopes env directory =
     (list_ex (\<lambda>e. pe_unit e = ''cpu_core'') (te_loadTable env directory)
      \<and> list_ex (\<lambda>e. pe_unit e = ''cpu_atom'') (te_loadTable env directory))"

subsection \<open>The readbacks\<close>

definition node_holds :: "topdown_tree \<Rightarrow> nat \<Rightarrow> bool" where
  "node_holds built here =
     (let node = tp_nodes built ! here
      in 1 \<le> tn_level node \<and> tn_level node \<le> tp_depth built
         \<and> (tn_parent node = [] \<longleftrightarrow> tn_level node = 1)
         \<and> (tn_parent node = []
            \<or> (case List.find (\<lambda>n. tn_name n = tn_parent node) (take here (tp_nodes built)) of
                 None \<Rightarrow> False
               | Some upstream \<Rightarrow> tn_level upstream + 1 = tn_level node)))"

definition topdownShapeHolds :: "topdown_tree \<Rightarrow> bool" where
  "topdownShapeHolds built = list_all (node_holds built) [0..<length (tp_nodes built)]"

definition topdownPublishedHolds :: "topdown_tree \<Rightarrow> topdown_table \<Rightarrow> bool" where
  "topdownPublishedHolds built tbl =
     list_all (\<lambda>node. case firstRowOfName (tt_rows tbl) (tn_vendorName node) of
         None \<Rightarrow> False
       | Some i \<Rightarrow> tr_published (tt_rows tbl ! i)) (tp_nodes built)"

subsection \<open>The refusals\<close>

definition contains_text :: "string \<Rightarrow> string \<Rightarrow> bool" where
  "contains_text hay needle = list_ex (\<lambda>i. starts_with (drop i hay) needle) [0..<length hay + 1]"

fun refusal_cause :: "topdown_unsupported \<Rightarrow> topdown_unsupport \<Rightarrow> string" where
  "refusal_cause u UNKNOWN_VENDOR = ''no vendored table carries this vendor''"
| "refusal_cause u NO_DIRECTORY = ''the mapping file names no table for this identity''"
| "refusal_cause u HYBRID = ''the selected table '' @ quoted (tu_detail u)
     @ '' publishes rows for two core scopes, and this feature makes no claim for a hybrid part''"
| "refusal_cause u ARM = tu_detail u"
| "refusal_cause u NO_TOPDOWN_ROWS = ''the selected table '' @ quoted (tu_detail u) @ '' holds no row of any top-down group''"

definition unsupported_message :: "topdown_unsupported \<Rightarrow> string checked" where
  "unsupported_message u =
     (let cause = refusal_cause u (tu_kind u);
          line = ''topdown: '' @ tu_vendor u @ '' '' @ tu_identity u @ '': '' @ cause
      in if starts_with line ''topdown: '' \<and> CHR 0x0A \<notin> set line \<and> contains_text line (tu_vendor u)
            \<and> contains_text line (tu_identity u) \<and> contains_text line cause
         then Some line else None)"

definition refusedWith :: "topdown_unsupport \<Rightarrow> string \<Rightarrow> string \<Rightarrow> string \<Rightarrow> topdown_unsupported" where
  "refusedWith k vendor identity detail = \<lparr>tu_kind = k, tu_vendor = vendor, tu_identity = identity, tu_detail = detail\<rparr>"

subsection \<open>The tree\<close>

text \<open>The two names built so far, of the rows that reached a node, and the nodes.\<close>

type_synonym pass_so_far = "(nat \<rightharpoonup> string) \<times> topdown_tree_node list"

definition node_of_row :: "topdown_row \<Rightarrow> nat \<Rightarrow> bool \<Rightarrow> string \<Rightarrow> topdown_tree_node" where
  "node_of_row r level amd parent' =
     \<lparr>tn_name = neutralNameOf (tr_name r) level amd, tn_vendorName = tr_name r, tn_parent = parent', tn_level = level,
      tn_core = tr_core r, tn_events = map address (leaves (tr_core r)), tn_threshold = tr_threshold r\<rparr>"

definition seat_row :: "topdown_row list \<Rightarrow> bool \<Rightarrow> nat \<Rightarrow> nat \<Rightarrow> string \<Rightarrow> pass_so_far \<Rightarrow> pass_so_far" where
  "seat_row rows amd level index parent' st =
     ((fst st)(index \<mapsto> neutralNameOf (tr_name (rows ! index)) level amd),
      snd st @ [node_of_row (rows ! index) level amd parent'])"

definition row_step :: "topdown_row list \<Rightarrow> bool \<Rightarrow> nat \<Rightarrow> nat \<Rightarrow> pass_so_far \<Rightarrow> pass_so_far" where
  "row_step rows amd level index st =
     (let r = rows ! index
      in if level_of_row r \<noteq> level \<or> \<not> tr_published r then st
         else if level = 1 \<and> \<not> amd \<and> sharedNameOf (tr_name r) = kSmtContention then st
         else if level > 1
         then (case parentRowOf rows index of
                 None \<Rightarrow> st
               | Some upper \<Rightarrow> (case fst st upper of None \<Rightarrow> st | Some p \<Rightarrow> seat_row rows amd level index p st))
         else seat_row rows amd level index [] st)"

definition tree_nodes :: "topdown_row list \<Rightarrow> bool \<Rightarrow> nat \<Rightarrow> topdown_tree_node list" where
  "tree_nodes rows amd depth =
     snd (fold (\<lambda>level. fold (row_step rows amd level) [0..<length rows]) [1..<depth + 1] (Map.empty, []))"

definition refused_row :: "topdown_row list \<Rightarrow> bool \<Rightarrow> nat \<Rightarrow> topdown_refusal" where
  "refused_row rows amd index =
     (let r = rows ! index; level = level_of_row r
      in \<lparr>tx_name = tr_name r,
          tx_parent = (case parentRowOf rows index of
              None \<Rightarrow> []
            | Some upper \<Rightarrow>
                neutralNameOf (tr_name (rows ! upper)) (if level_of_row (rows ! upper) > 0 then level_of_row (rows ! upper) else level - 1) amd),
          tx_level = level, tx_refusal = tr_refusal r, tx_reason = tr_reason r\<rparr>)"

definition refused_rows :: "topdown_row list \<Rightarrow> bool \<Rightarrow> nat \<Rightarrow> topdown_refusal list" where
  "refused_rows rows amd depth =
     map (refused_row rows amd)
       (filter (\<lambda>i. \<not> tr_published (rows ! i) \<and> level_of_row (rows ! i) \<noteq> 0 \<and> level_of_row (rows ! i) \<le> depth) [0..<length rows])"

definition deepest_level :: "topdown_row list \<Rightarrow> nat" where
  "deepest_level rows = fold (\<lambda>r deepest. if level_of_row r > deepest then level_of_row r else deepest) rows 0"

definition build_tree :: "topdown_table \<Rightarrow> bool \<Rightarrow> nat \<Rightarrow> topdown_tree" where
  "build_tree tbl amd depth =
     \<lparr>tp_source = tt_source tbl, tp_depth = depth, tp_amd = amd, tp_nodes = tree_nodes (tt_rows tbl) amd depth,
      tp_refused = refused_rows (tt_rows tbl) amd depth\<rparr>"

text \<open>The part of the call over the table it reads.\<close>

definition tree_of_table ::
  "topdown_env \<Rightarrow> topdown_selection \<Rightarrow> bool \<Rightarrow> topdown_table \<Rightarrow> (topdown_unsupported + topdown_tree) checked" where
  "tree_of_table env options amd tbl =
     (let identity = to_identity options; directory = ts_directory (tt_source tbl); deepest = deepest_level (tt_rows tbl);
          depth = (if to_level options < deepest then to_level options else deepest); built = build_tree tbl amd depth
      in if directory = [] then Some (Inl (refusedWith NO_DIRECTORY (ci_vendor identity) (identityText identity) []))
         else if deepest = 0
         then Some (Inl (refusedWith NO_TOPDOWN_ROWS (ci_vendor identity) (identityText identity) directory))
         else if publishesTwoScopes env directory
         then Some (Inl (refusedWith HYBRID (ci_vendor identity) (identityText identity) directory))
         else if (depth = to_level options \<or> depth = deepest) \<and> topdownShapeHolds built \<and> topdownPublishedHolds built tbl
         then Some (Inr built) else None)"

definition topdownTree :: "topdown_env \<Rightarrow> topdown_selection \<Rightarrow> (topdown_unsupported + topdown_tree) checked" where
  "topdownTree env options =
     (let identity = to_identity options; amd = (ci_vendor identity = kAmdVendor)
      in if \<not> (1 \<le> to_level options \<and> to_level options \<le> 6) then None
         else
           case ci_midr identity of
             Some midr \<Rightarrow> Some (Inl (refusedWith ARM ''Arm'' (midrText midr) ''no Arm table is vendored''))
           | None \<Rightarrow>
               if \<not> amd \<and> ci_vendor identity \<noteq> kIntelVendor
               then Some (Inl (refusedWith UNKNOWN_VENDOR (ci_vendor identity) (identityText identity) []))
               else
                 (case (case to_table options of Some t \<Rightarrow> Some t | None \<Rightarrow> topdownTable env identity) of
                    None \<Rightarrow> None
                  | Some tbl \<Rightarrow> tree_of_table env options amd tbl))"

end
