(* ===== verification/Topdown_Facts.thy ===== *)
theory Topdown_Facts
  imports Topdown Metrics
begin

text \<open>
  What a top-down selection answers.  \<open>rooted\<close> is the specification of the tree: the published rows of a level the
  answer reaches whose parents lead, through rows walked before them, to a root.  The pass over the rows builds exactly
  their nodes, in level order; a table whose parents all stand one level above keeps the contract of the call.
\<close>

subsection \<open>The order of the walk\<close>

abbreviation level_at :: "topdown_row list \<Rightarrow> nat \<Rightarrow> nat" where
  "level_at rows i \<equiv> level_of_row (rows ! i)"

abbreviation neutral_at :: "topdown_row list \<Rightarrow> bool \<Rightarrow> nat \<Rightarrow> string" where
  "neutral_at rows amd i \<equiv> neutralNameOf (tr_name (rows ! i)) (level_at rows i) amd"

definition walked_before :: "topdown_row list \<Rightarrow> nat \<Rightarrow> nat \<Rightarrow> bool" where
  "walked_before rows p i \<longleftrightarrow> level_at rows p < level_at rows i \<or> level_at rows p = level_at rows i \<and> p < i"

fun level_major :: "topdown_row list \<Rightarrow> nat \<Rightarrow> nat list" where
  "level_major rows 0 = []"
| "level_major rows (Suc d) = level_major rows d @ filter (\<lambda>i. level_at rows i = Suc d) [0..<length rows]"

lemma set_level_major: "set (level_major rows d) = {i. i < length rows \<and> 1 \<le> level_at rows i \<and> level_at rows i \<le> d}"
proof (induction d)
  case (Suc d)
  have "i \<in> set (level_major rows (Suc d)) \<longleftrightarrow> i < length rows \<and> 1 \<le> level_at rows i \<and> level_at rows i \<le> Suc d" for i
    unfolding level_major.simps set_append Suc by (simp add: le_Suc_eq) linarith
  then show ?case by blast
qed simp

lemma level_major_sorted: "sorted_wrt (walked_before rows) (level_major rows d)"
proof (induction d)
  case (Suc d)
  have "sorted_wrt (walked_before rows) (filter (\<lambda>i. level_at rows i = Suc d) [0..<length rows])"
    by (rule sorted_wrt_mono_rel [where P = "(<)"])
      (auto simp: walked_before_def intro: sorted_wrt_filter)
  moreover have "\<forall>p \<in> set (level_major rows d). \<forall>i \<in> set (filter (\<lambda>i. level_at rows i = Suc d) [0..<length rows]). walked_before rows p i"
    by (simp add: set_level_major walked_before_def)
  ultimately show ?case using Suc by (simp only: level_major.simps sorted_wrt_append)
qed simp

lemma walked_before_asym: "walked_before rows p i \<Longrightarrow> \<not> walked_before rows i p"
  by (auto simp: walked_before_def)

lemma walked_prefix:
  assumes "level_major rows d = pre @ i # post"
  shows "p \<in> set pre \<longleftrightarrow> p \<in> set (level_major rows d) \<and> walked_before rows p i"
proof -
  have sorted: "\<forall>x \<in> set pre. walked_before rows x i" "\<forall>x \<in> set post. walked_before rows i x"
    using level_major_sorted [of rows d] unfolding assms by (simp_all add: sorted_wrt_append)
  then show ?thesis using walked_before_asym [of rows] unfolding assms by (auto simp: walked_before_def [of _ i i])
qed

lemma row_step_other: "level_of_row (rows ! i) \<noteq> l \<Longrightarrow> row_step rows amd l i st = st"
  by (simp add: row_step_def)

lemma fold_level:
  "fold (row_step rows amd l) xs st = fold (\<lambda>i. row_step rows amd (level_at rows i) i) (filter (\<lambda>i. level_at rows i = l) xs) st"
  by (induction xs arbitrary: st) (auto simp: row_step_other)

lemma tree_nodes_level_major:
  "tree_nodes rows amd d = snd (fold (\<lambda>i. row_step rows amd (level_at rows i) i) (level_major rows d) (Map.empty, []))"
proof -
  have "fold (\<lambda>level. fold (row_step rows amd level) [0..<length rows]) [1..<d + 1] st
      = fold (\<lambda>i. row_step rows amd (level_at rows i) i) (level_major rows d) st" for st
    by (induction d arbitrary: st) (simp_all add: fold_level)
  then show ?thesis by (simp add: tree_nodes_def)
qed

subsection \<open>The rows of a tree\<close>

definition is_smt :: "topdown_row list \<Rightarrow> bool \<Rightarrow> nat \<Rightarrow> bool" where
  "is_smt rows amd i \<longleftrightarrow> \<not> amd \<and> sharedNameOf (tr_name (rows ! i)) = kSmtContention"

inductive rooted :: "topdown_row list \<Rightarrow> bool \<Rightarrow> nat \<Rightarrow> nat \<Rightarrow> bool" for rows amd d where
  root: "i < length rows \<Longrightarrow> tr_published (rows ! i) \<Longrightarrow> level_at rows i = 1 \<Longrightarrow> 1 \<le> d \<Longrightarrow> \<not> is_smt rows amd i
    \<Longrightarrow> rooted rows amd d i"
| child: "i < length rows \<Longrightarrow> tr_published (rows ! i) \<Longrightarrow> 1 < level_at rows i \<Longrightarrow> level_at rows i \<le> d
    \<Longrightarrow> parentRowOf rows i = Some p \<Longrightarrow> rooted rows amd d p \<Longrightarrow> walked_before rows p i \<Longrightarrow> rooted rows amd d i"

inductive_cases rooted_elim: "rooted rows amd d i"

lemma rooted_in_order: "rooted rows amd d i \<Longrightarrow> i \<in> set (level_major rows d)"
  by (induction rule: rooted.induct) (simp_all only: set_level_major mem_Collect_eq, simp_all)

lemma rooted_published: "rooted rows amd d i \<Longrightarrow> tr_published (rows ! i)"
  by (erule rooted_elim)

lemma rooted_child: "rooted rows amd d i \<Longrightarrow> level_at rows i \<noteq> 1
    \<Longrightarrow> \<exists>p. parentRowOf rows i = Some p \<and> rooted rows amd d p \<and> walked_before rows p i"
  by (erule rooted_elim) (simp, blast)

definition parent_name :: "topdown_row list \<Rightarrow> bool \<Rightarrow> nat \<Rightarrow> string" where
  "parent_name rows amd i = (if level_at rows i = 1 then []
     else case parentRowOf rows i of None \<Rightarrow> [] | Some p \<Rightarrow> neutral_at rows amd p)"

definition tree_node_at :: "topdown_row list \<Rightarrow> bool \<Rightarrow> nat \<Rightarrow> topdown_tree_node" where
  "tree_node_at rows amd i = node_of_row (rows ! i) (level_at rows i) amd (parent_name rows amd i)"

definition rooted_rows :: "topdown_row list \<Rightarrow> bool \<Rightarrow> nat \<Rightarrow> nat list \<Rightarrow> nat list" where
  "rooted_rows rows amd d xs = filter (rooted rows amd d) xs"

definition built_names :: "topdown_row list \<Rightarrow> bool \<Rightarrow> nat \<Rightarrow> nat list \<Rightarrow> nat \<rightharpoonup> string" where
  "built_names rows amd d pre = (\<lambda>j. if j \<in> set pre \<and> rooted rows amd d j then Some (neutral_at rows amd j) else None)"

lemma row_step_builds:
  assumes order: "level_major rows d = pre @ i # post"
  shows "row_step rows amd (level_at rows i) i (built_names rows amd d pre, map (tree_node_at rows amd) (rooted_rows rows amd d pre))
       = (built_names rows amd d (pre @ [i]), map (tree_node_at rows amd) (rooted_rows rows amd d (pre @ [i])))"
proof -
  have i: "i \<in> set (level_major rows d)" using order by simp
  have range: "i < length rows" "1 \<le> level_at rows i" "level_at rows i \<le> d" using i by (auto simp: set_level_major)
  have parent: "built_names rows amd d pre p
      = (if rooted rows amd d p \<and> walked_before rows p i then Some (neutral_at rows amd p) else None)" for p
    using walked_prefix [OF order] rooted_in_order by (auto simp: built_names_def)
  have names: "built_names rows amd d (pre @ [i])
      = (if rooted rows amd d i then (built_names rows amd d pre)(i \<mapsto> neutral_at rows amd i) else built_names rows amd d pre)"
    by (auto simp: built_names_def)
  show ?thesis
  proof (cases "tr_published (rows ! i)")
    case False
    then have "\<not> rooted rows amd d i" using rooted_published by blast
    with False show ?thesis by (simp add: row_step_def names rooted_rows_def)
  next
    case published: True
    show ?thesis
    proof (cases "level_at rows i = 1")
      case True
      then have "rooted rows amd d i \<longleftrightarrow> \<not> is_smt rows amd i"
        using rooted.root [of i rows d amd] range published by (auto elim: rooted_elim)
      then show ?thesis using True published
        by (simp add: row_step_def names rooted_rows_def Let_def is_smt_def seat_row_def tree_node_at_def parent_name_def)
    next
      case False
      then have level: "1 < level_at rows i" using range by simp
      have r: "rooted rows amd d i \<longleftrightarrow> (\<exists>p. parentRowOf rows i = Some p \<and> built_names rows amd d pre p \<noteq> None)"
        using rooted.child [of i rows d _ amd] rooted_child [of rows amd d i] level range published
        by (auto simp: parent split: if_splits)
      show ?thesis
      proof (cases "parentRowOf rows i")
        case None
        then show ?thesis using r level by (simp add: row_step_def names rooted_rows_def Let_def)
      next
        case (Some p)
        then show ?thesis using r level published
          by (auto simp: row_step_def names rooted_rows_def Let_def seat_row_def tree_node_at_def parent_name_def parent
              split: if_splits)
      qed
    qed
  qed
qed

lemma fold_builds:
  assumes "level_major rows d = pre @ xs"
  shows "fold (\<lambda>i. row_step rows amd (level_at rows i) i) xs
      (built_names rows amd d pre, map (tree_node_at rows amd) (rooted_rows rows amd d pre))
    = (built_names rows amd d (pre @ xs), map (tree_node_at rows amd) (rooted_rows rows amd d (pre @ xs)))"
  using assms
proof (induction xs arbitrary: pre)
  case (Cons i xs)
  then show ?case using row_step_builds [OF Cons.prems] Cons.IH [of "pre @ [i]"] by simp
qed simp

lemma tree_nodes_rooted: "tree_nodes rows amd d = map (tree_node_at rows amd) (rooted_rows rows amd d (level_major rows d))"
proof -
  have "built_names rows amd d [] = Map.empty" by (simp add: built_names_def)
  then show ?thesis using fold_builds [of rows d "[]" "level_major rows d" amd] by (simp add: tree_nodes_level_major rooted_rows_def)
qed

subsection \<open>The shape of the answer\<close>

abbreviation tree_order :: "topdown_row list \<Rightarrow> bool \<Rightarrow> nat \<Rightarrow> nat list" where
  "tree_order rows amd d \<equiv> rooted_rows rows amd d (level_major rows d)"

lemma tree_order_set: "set (tree_order rows amd d) = {i. rooted rows amd d i}"
  using rooted_in_order by (auto simp: rooted_rows_def)

lemma tree_order_sorted: "sorted_wrt (walked_before rows) (tree_order rows amd d)"
  unfolding rooted_rows_def by (rule sorted_wrt_filter [OF level_major_sorted])

lemma parent_stands_earlier:
  assumes k: "k < length (tree_order rows amd d)" and p: "rooted rows amd d p" "walked_before rows p (tree_order rows amd d ! k)"
  shows "p \<in> set (take k (tree_order rows amd d))"
proof -
  obtain j where j: "j < length (tree_order rows amd d)" "tree_order rows amd d ! j = p"
    using p(1) tree_order_set [of rows amd d] by (metis in_set_conv_nth mem_Collect_eq)
  have "j < k"
  proof (rule ccontr)
    assume "\<not> j < k"
    then consider "j = k" | "k < j" by linarith
    then show False
    proof cases
      case 1
      then show False using p(2) j(2) by (simp add: walked_before_def)
    next
      case 2
      then have "walked_before rows (tree_order rows amd d ! k) p"
        using sorted_wrt_nth_less [OF tree_order_sorted 2 j(1)] j(2) by simp
      then show False using p(2) walked_before_asym by blast
    qed
  qed
  then show ?thesis using j k by (auto simp: in_set_conv_nth)
qed

lemma neutral_nonempty: "neutralNameOf name l amd \<noteq> []"
  by (simp add: neutralNameOf_def)

text \<open>Distinct neutral names make the name of a parent stand for its row.\<close>

definition named_apart :: "topdown_row list \<Rightarrow> bool \<Rightarrow> nat \<Rightarrow> bool" where
  "named_apart rows amd d \<longleftrightarrow> inj_on (neutral_at rows amd) {i. rooted rows amd d i}"

lemma find_parent:
  assumes apart: "named_apart rows amd d" and p: "rooted rows amd d p" "p \<in> set xs" and xs: "set xs \<subseteq> {i. rooted rows amd d i}"
  shows "List.find (\<lambda>n. tn_name n = neutral_at rows amd p) (map (tree_node_at rows amd) xs) = Some (tree_node_at rows amd p)"
  using p(2) xs
proof (induction xs)
  case (Cons i xs)
  have name: "tn_name (tree_node_at rows amd j) = neutral_at rows amd j" for j
    by (simp add: tree_node_at_def node_of_row_def)
  have "neutral_at rows amd i = neutral_at rows amd p \<longleftrightarrow> i = p"
    using apart p(1) Cons.prems(2) by (auto simp: named_apart_def inj_on_def)
  then show ?case using Cons by (auto simp: name)
qed simp

lemma node_holds_iff:
  assumes apart: "named_apart (tt_rows tbl) amd d" and k: "k < length (tree_order (tt_rows tbl) amd d)"
    and i: "i = tree_order (tt_rows tbl) amd d ! k"
  shows "node_holds (build_tree tbl amd d) k
    \<longleftrightarrow> level_at (tt_rows tbl) i = 1 \<or> (\<exists>p. parentRowOf (tt_rows tbl) i = Some p \<and> level_at (tt_rows tbl) p + 1 = level_at (tt_rows tbl) i)"
proof -
  define rows where "rows = tt_rows tbl"
  have r: "rooted rows amd d i" using k i tree_order_set [of rows amd d] by (auto simp: rows_def dest: nth_mem)
  have range: "1 \<le> level_at rows i" "level_at rows i \<le> d" using rooted_in_order [OF r] by (simp_all add: set_level_major)
  have node: "tp_nodes (build_tree tbl amd d) ! k = tree_node_at rows amd i"
    using k by (simp add: build_tree_def tree_nodes_rooted rows_def i)
  have before: "take k (tp_nodes (build_tree tbl amd d)) = map (tree_node_at rows amd) (take k (tree_order rows amd d))"
    by (simp add: build_tree_def tree_nodes_rooted rows_def take_map)
  have lvl: "tn_level (tree_node_at rows amd j) = level_at rows j" and par: "tn_parent (tree_node_at rows amd j) = parent_name rows amd j" for j
    by (simp_all add: tree_node_at_def node_of_row_def)
  show ?thesis
  proof (cases "level_at rows i = 1")
    case True
    have "tp_depth (build_tree tbl amd d) = d" by (simp add: build_tree_def)
    with True range show ?thesis
      unfolding node_holds_def node Let_def par lvl rows_def [symmetric] by (simp add: parent_name_def)
  next
    case False
    then obtain p where p: "parentRowOf rows i = Some p" "rooted rows amd d p" "walked_before rows p i"
      using rooted_child [OF r] by blast
    have "p \<in> set (take k (tree_order rows amd d))"
      using parent_stands_earlier [of k rows amd d p] k i p by (simp add: rows_def)
    moreover have "set (take k (tree_order rows amd d)) \<subseteq> {i. rooted rows amd d i}"
      using set_take_subset [of k "tree_order rows amd d"] tree_order_set [of rows amd d] by blast
    ultimately have f: "List.find (\<lambda>n. tn_name n = neutral_at rows amd p) (take k (tp_nodes (build_tree tbl amd d)))
        = Some (tree_node_at rows amd p)"
      unfolding before using find_parent [OF apart [folded rows_def] p(2)] by blast
    have pn: "parent_name rows amd i = neutral_at rows amd p" using False p(1) by (simp add: parent_name_def)
    have depth: "tp_depth (build_tree tbl amd d) = d" by (simp add: build_tree_def)
    show ?thesis
      unfolding node_holds_def node Let_def par pn lvl f depth option.case rows_def [symmetric]
      using False range p(1) by (simp add: neutral_nonempty)
  qed
qed

lemma shape_holds_iff:
  assumes "named_apart (tt_rows tbl) amd d"
  shows "topdownShapeHolds (build_tree tbl amd d)
    \<longleftrightarrow> (\<forall>i. rooted (tt_rows tbl) amd d i \<longrightarrow> level_at (tt_rows tbl) i \<noteq> 1
          \<longrightarrow> (\<exists>p. parentRowOf (tt_rows tbl) i = Some p \<and> level_at (tt_rows tbl) p + 1 = level_at (tt_rows tbl) i))"
proof -
  have n: "length (tp_nodes (build_tree tbl amd d)) = length (tree_order (tt_rows tbl) amd d)"
    by (simp add: build_tree_def tree_nodes_rooted)
  have "topdownShapeHolds (build_tree tbl amd d)
      \<longleftrightarrow> (\<forall>k < length (tree_order (tt_rows tbl) amd d). node_holds (build_tree tbl amd d) k)"
    by (auto simp: topdownShapeHolds_def n list_all_iff)
  also have "\<dots> \<longleftrightarrow> (\<forall>i \<in> set (tree_order (tt_rows tbl) amd d). level_at (tt_rows tbl) i = 1
      \<or> (\<exists>p. parentRowOf (tt_rows tbl) i = Some p \<and> level_at (tt_rows tbl) p + 1 = level_at (tt_rows tbl) i))"
    using node_holds_iff [OF assms] by (simp add: all_set_conv_all_nth)
  finally show ?thesis by (auto simp: tree_order_set)
qed

lemma published_holds:
  assumes "distinct (map tr_name (tt_rows tbl))"
  shows "topdownPublishedHolds (build_tree tbl amd d) tbl"
proof -
  define rows where "rows = tt_rows tbl"
  have "firstRowOfName rows (tr_name (rows ! i)) = Some i" if "i < length rows" for i
    unfolding firstRowOfName_def by (rule index_ofI) (use that assms in \<open>auto simp: rows_def distinct_conv_nth\<close>)
  moreover have "i < length rows" "tr_published (rows ! i)" if "i \<in> set (tree_order rows amd d)" for i
    using that rooted_in_order rooted_published by (auto simp: tree_order_set set_level_major)
  ultimately have "list_all (\<lambda>node. case firstRowOfName rows (tn_vendorName node) of None \<Rightarrow> False
       | Some i \<Rightarrow> tr_published (rows ! i)) (map (tree_node_at rows amd) (tree_order rows amd d))"
    by (simp add: list_all_iff tree_node_at_def node_of_row_def)
  moreover have "tp_nodes (build_tree tbl amd d) = map (tree_node_at rows amd) (tree_order rows amd d)"
    by (simp add: build_tree_def tree_nodes_rooted rows_def)
  ultimately show ?thesis unfolding topdownPublishedHolds_def rows_def [symmetric] by simp
qed

subsection \<open>The selection\<close>

definition table_read :: "topdown_env \<Rightarrow> topdown_selection \<Rightarrow> topdown_table checked" where
  "table_read env options =
     (case to_table options of Some t \<Rightarrow> Some t | None \<Rightarrow> topdownTable env (to_identity options))"

definition is_amd :: "topdown_selection \<Rightarrow> bool" where
  "is_amd options \<longleftrightarrow> ci_vendor (to_identity options) = kAmdVendor"

definition asked_depth :: "topdown_selection \<Rightarrow> topdown_table \<Rightarrow> nat" where
  "asked_depth options tbl = min (to_level options) (deepest_level (tt_rows tbl))"

lemma asked_depth_cases:
  "(if to_level options < deepest_level (tt_rows tbl) then to_level options else deepest_level (tt_rows tbl)) = asked_depth options tbl"
  by (simp add: asked_depth_def)

text \<open>An identity and a table no refusal stands in front of.\<close>

definition admitted :: "topdown_env \<Rightarrow> topdown_selection \<Rightarrow> topdown_table \<Rightarrow> bool" where
  "admitted env options tbl \<longleftrightarrow> 1 \<le> to_level options \<and> to_level options \<le> 6 \<and> ci_midr (to_identity options) = None
     \<and> ci_vendor (to_identity options) \<in> {kAmdVendor, kIntelVendor} \<and> table_read env options = Some tbl
     \<and> ts_directory (tt_source tbl) \<noteq> [] \<and> deepest_level (tt_rows tbl) \<noteq> 0
     \<and> \<not> publishesTwoScopes env (ts_directory (tt_source tbl))"

lemma topdownTree_admitted:
  assumes "admitted env options tbl"
  shows "topdownTree env options =
    (if topdownShapeHolds (build_tree tbl (is_amd options) (asked_depth options tbl))
        \<and> topdownPublishedHolds (build_tree tbl (is_amd options) (asked_depth options tbl)) tbl
     then Some (Inr (build_tree tbl (is_amd options) (asked_depth options tbl))) else None)"
proof -
  have "tree_of_table env options (is_amd options) tbl =
    (if topdownShapeHolds (build_tree tbl (is_amd options) (asked_depth options tbl))
        \<and> topdownPublishedHolds (build_tree tbl (is_amd options) (asked_depth options tbl)) tbl
     then Some (Inr (build_tree tbl (is_amd options) (asked_depth options tbl))) else None)"
    using assms unfolding tree_of_table_def Let_def asked_depth_cases by (simp add: admitted_def) (simp add: asked_depth_def min_def)
  then show ?thesis
    using assms unfolding topdownTree_def Let_def table_read_def [symmetric] is_amd_def [symmetric]
    by (auto simp: admitted_def is_amd_def)
qed

lemma topdownTree_answer:
  assumes "topdownTree env options = Some (Inr t)"
  obtains tbl where "admitted env options tbl" and "t = build_tree tbl (is_amd options) (asked_depth options tbl)"
    and "topdownShapeHolds t" and "topdownPublishedHolds t tbl"
proof -
  obtain tbl where r: "table_read env options = Some tbl" "tree_of_table env options (is_amd options) tbl = Some (Inr t)"
    and i: "1 \<le> to_level options" "to_level options \<le> 6" "ci_midr (to_identity options) = None"
      "ci_vendor (to_identity options) \<in> {kAmdVendor, kIntelVendor}"
    using assms unfolding topdownTree_def Let_def table_read_def [symmetric] is_amd_def [symmetric]
    by (auto simp: is_amd_def split: if_splits option.splits)
  have "ts_directory (tt_source tbl) \<noteq> []" "deepest_level (tt_rows tbl) \<noteq> 0"
      "\<not> publishesTwoScopes env (ts_directory (tt_source tbl))"
      "t = build_tree tbl (is_amd options) (asked_depth options tbl)" "topdownShapeHolds t" "topdownPublishedHolds t tbl"
    using r(2) unfolding tree_of_table_def Let_def asked_depth_cases by (auto split: if_splits)
  then show ?thesis using that r(1) i unfolding admitted_def by blast
qed

text \<open>C11. The tree of a top-down selection is its specification: its nodes are exactly those of the rooted rows of the
  table it reads, level by level in table order, at the asked level clamped to the deepest one; every parent stands
  earlier and one level above; and the refused list names exactly the rows of those levels the host refuses.\<close>
theorem topdown_tree_holds_the_rooted_rows:
  assumes "topdownTree env options = Some (Inr t)"
  shows "\<exists>tbl. table_read env options = Some tbl
    \<and> tp_depth t = min (to_level options) (deepest_level (tt_rows tbl))
    \<and> tp_nodes t = map (tree_node_at (tt_rows tbl) (is_amd options))
        (filter (rooted (tt_rows tbl) (is_amd options) (tp_depth t)) (level_major (tt_rows tbl) (tp_depth t)))
    \<and> topdownShapeHolds t
    \<and> map tx_name (tp_refused t) = map tr_name (filter (\<lambda>r. \<not> tr_published r \<and> 1 \<le> level_of_row r \<and> level_of_row r \<le> tp_depth t) (tt_rows tbl))"
proof -
  obtain tbl where a: "admitted env options tbl" "t = build_tree tbl (is_amd options) (asked_depth options tbl)" "topdownShapeHolds t"
    using topdownTree_answer [OF assms] .
  have "map tr_name (filter P (tt_rows tbl)) = map (\<lambda>i. tr_name (tt_rows tbl ! i)) (filter (\<lambda>i. P (tt_rows tbl ! i)) [0..<length (tt_rows tbl)])" for P
    using filter_map [of P "(!) (tt_rows tbl)" "[0..<length (tt_rows tbl)]"] by (simp add: map_nth comp_def)
  then have "map tx_name (tp_refused t) = map tr_name (filter (\<lambda>r. \<not> tr_published r \<and> 1 \<le> level_of_row r \<and> level_of_row r \<le> tp_depth t) (tt_rows tbl))"
    by (simp add: a(2) build_tree_def refused_rows_def comp_def refused_row_def Let_def Suc_le_eq)
  moreover have "tp_depth t = asked_depth options tbl" by (simp add: a(2) build_tree_def)
  ultimately show ?thesis
    using a(1,3) by (intro exI [of _ tbl]) (simp add: admitted_def asked_depth_def a(2) build_tree_def tree_nodes_rooted rooted_rows_def)
qed

text \<open>C12. A table whose names and neutral names are distinct and whose rooted rows each stand one level below their parent
  never breaks the contract of the selection: once no refusal stands in front of it, the call answers a tree.\<close>
theorem stepwise_table_answers_a_tree:
  assumes admitted: "admitted env options tbl" and names: "distinct (map tr_name (tt_rows tbl))"
    and apart: "named_apart (tt_rows tbl) (is_amd options) (asked_depth options tbl)"
    and steps: "\<forall>i. rooted (tt_rows tbl) (is_amd options) (asked_depth options tbl) i \<longrightarrow> level_of_row (tt_rows tbl ! i) \<noteq> 1
        \<longrightarrow> (\<exists>p. parentRowOf (tt_rows tbl) i = Some p \<and> level_of_row (tt_rows tbl ! p) + 1 = level_of_row (tt_rows tbl ! i))"
  shows "topdownTree env options = Some (Inr (build_tree tbl (is_amd options) (asked_depth options tbl)))"
  using shape_holds_iff [OF apart] steps published_holds [OF names] by (simp add: topdownTree_admitted [OF admitted])

text \<open>A rooted row whose parent row does not stand one level above it, a parent at its own level among them, breaks
  the postcondition of the selection: the pass seats its node and the readback of the shape then fails.\<close>
theorem same_level_parent_breaks_the_tree:
  assumes admitted: "admitted env options tbl"
    and apart: "named_apart (tt_rows tbl) (is_amd options) (asked_depth options tbl)"
    and row: "rooted (tt_rows tbl) (is_amd options) (asked_depth options tbl) i" "level_of_row (tt_rows tbl ! i) \<noteq> 1"
    and parent: "parentRowOf (tt_rows tbl) i = Some p" "level_of_row (tt_rows tbl ! p) + 1 \<noteq> level_of_row (tt_rows tbl ! i)"
  shows "topdownTree env options = None"
  using shape_holds_iff [OF apart] row parent by (auto simp: topdownTree_admitted [OF admitted])

text \<open>C40. A published row whose parent row the host refuses reaches neither carrier of the tree, though its group text names
  a row of the table: its name stands on no node and in no refusal.\<close>
theorem child_of_a_refused_parent_is_lost:
  assumes answer: "topdownTree env options = Some (Inr t)" and tbl: "table_read env options = Some tbl"
    and names: "distinct (map tr_name (tt_rows tbl))"
    and row: "i < length (tt_rows tbl)" "tr_published (tt_rows tbl ! i)" "1 < level_of_row (tt_rows tbl ! i)"
    and parent: "parentRowOf (tt_rows tbl) i = Some p" "\<not> tr_published (tt_rows tbl ! p)"
  shows "tr_name (tt_rows tbl ! i) \<notin> set (map tn_vendorName (tp_nodes t)) \<and> tr_name (tt_rows tbl ! i) \<notin> set (map tx_name (tp_refused t))"
proof -
  define rows where "rows = tt_rows tbl"
  define amd where "amd = is_amd options"
  define d where "d = asked_depth options tbl"
  obtain tbl' where a: "admitted env options tbl'" "t = build_tree tbl' (is_amd options) (asked_depth options tbl')"
    using topdownTree_answer [OF answer] .
  have "tbl' = tbl" using a(1) tbl by (simp add: admitted_def)
  with a(2) have t: "t = build_tree tbl amd d" by (simp add: amd_def d_def)
  have same: "j = i" if "j < length rows" "tr_name (rows ! j) = tr_name (rows ! i)" for j
    using names row(1) that by (auto simp: rows_def distinct_conv_nth)
  have "\<not> rooted rows amd d i"
    using rooted_child [of rows amd d i] rooted_published [of rows amd d p] row(3) parent by (auto simp: rows_def)
  then have lost: "\<not> rooted rows amd d i" .
  have name: "tn_vendorName (tree_node_at rows amd j) = tr_name (rows ! j)" for j by (simp add: tree_node_at_def node_of_row_def)
  have "tr_name (rows ! i) \<notin> set (map tn_vendorName (tp_nodes t))"
  proof
    assume "tr_name (rows ! i) \<in> set (map tn_vendorName (tp_nodes t))"
    then obtain j where j: "rooted rows amd d j" "tr_name (rows ! j) = tr_name (rows ! i)"
      by (auto simp: t build_tree_def tree_nodes_rooted rows_def [symmetric] tree_order_set name)
    have "j < length rows" using rooted_in_order [OF j(1)] by (simp add: set_level_major)
    with same j lost show False by blast
  qed
  moreover have "tr_name (rows ! i) \<notin> set (map tx_name (tp_refused t))"
    using same row(2) by (auto simp: t build_tree_def refused_rows_def refused_row_def Let_def rows_def [symmetric])
  ultimately show ?thesis by (simp add: rows_def)
qed

subsection \<open>The refusals\<close>

lemma contains_text_at:
  assumes "starts_with (drop n line) needle" and "n \<le> length line"
  shows "contains_text line needle"
  using assms unfolding contains_text_def list_ex_iff by (intro bexI [of _ n]) (auto simp: le_eq_less_or_eq)

lemma contains_text_mid: "contains_text (a @ b @ c) b"
  by (rule contains_text_at [of "length a"]) simp_all

lemma decimal_plain: "CHR 0x0A \<notin> set (decimal n)"
  using decimal_digits [of n] by (auto simp: is_digit_def)

lemma decimal_int_plain: "CHR 0x0A \<notin> set (decimal_int i)"
  by (simp add: decimal_int_def decimal_plain)

lemma identityText_plain: "CHR 0x0A \<notin> set (identityText i)"
  by (simp add: identityText_def decimal_int_plain)

lemma midrText_plain: "CHR 0x0A \<notin> set (midrText w)"
proof -
  have "kDigits ! (n mod 16) \<noteq> CHR 0x0A" for n
  proof -
    have "kDigits ! (n mod 16) \<in> set kDigits" by (rule nth_mem) (simp add: kDigits_def)
    then show ?thesis by (auto simp: kDigits_def)
  qed
  then show ?thesis by (auto simp: midrText_def) (metis)+
qed

lemma message_line:
  assumes "CHR 0x0A \<notin> set (tu_vendor u) \<union> set (tu_identity u) \<union> set (tu_detail u)"
  shows "unsupported_message u = Some (''topdown: '' @ tu_vendor u @ '' '' @ tu_identity u @ '': '' @ refusal_cause u (tu_kind u))"
proof -
  let ?line = "''topdown: '' @ tu_vendor u @ '' '' @ tu_identity u @ '': '' @ refusal_cause u (tu_kind u)"
  have "CHR 0x0A \<notin> set (refusal_cause u (tu_kind u))"
    using assms by (cases "tu_kind u") (auto simp: quoted_def)
  then have "CHR 0x0A \<notin> set ?line" using assms by auto
  moreover have "contains_text ?line (tu_vendor u)" using contains_text_mid [of "''topdown: ''" "tu_vendor u"] by simp
  moreover have "contains_text ?line (tu_identity u)"
    using contains_text_mid [of "''topdown: '' @ tu_vendor u @ '' ''" "tu_identity u"] by simp
  moreover have "contains_text ?line (refusal_cause u (tu_kind u))"
    using contains_text_mid [of "''topdown: '' @ tu_vendor u @ '' '' @ tu_identity u @ '': ''" _ "[]"] by simp
  moreover have "starts_with ?line ''topdown: ''" by (rule starts_with_append)
  ultimately show ?thesis by (simp add: unsupported_message_def Let_def del: append.simps)
qed

text \<open>A selection the data cannot serve answers one line that names the vendor, the identity and the cause, and the cause
  is the first of the five that holds: an Arm word, an unknown vendor, no directory, no top-down row, two core scopes.\<close>
theorem topdown_refusals_are_one_line:
  assumes answer: "topdownTree env options = Some (Inl u)"
    and plain: "CHR 0x0A \<notin> set (ci_vendor (to_identity options))"
      "\<forall>tbl. table_read env options = Some tbl \<longrightarrow> CHR 0x0A \<notin> set (ts_directory (tt_source tbl))"
  shows "unsupported_message u = Some (''topdown: '' @ tu_vendor u @ '' '' @ tu_identity u @ '': '' @ refusal_cause u (tu_kind u))
    \<and> (tu_kind u = ARM \<longleftrightarrow> ci_midr (to_identity options) \<noteq> None)
    \<and> (tu_kind u = UNKNOWN_VENDOR \<longrightarrow> ci_vendor (to_identity options) \<notin> {kAmdVendor, kIntelVendor})
    \<and> (tu_kind u = NO_DIRECTORY \<longrightarrow> (\<exists>tbl. table_read env options = Some tbl \<and> ts_directory (tt_source tbl) = []))
    \<and> (tu_kind u = NO_TOPDOWN_ROWS \<longrightarrow> (\<exists>tbl. table_read env options = Some tbl \<and> deepest_level (tt_rows tbl) = 0))
    \<and> (tu_kind u = HYBRID \<longrightarrow> (\<exists>tbl. table_read env options = Some tbl \<and> publishesTwoScopes env (ts_directory (tt_source tbl))))"
proof -
  have "CHR 0x0A \<notin> set (tu_vendor u) \<union> set (tu_identity u) \<union> set (tu_detail u)"
    using answer plain identityText_plain midrText_plain
    unfolding topdownTree_def Let_def table_read_def [symmetric] tree_of_table_def
    by (auto simp: refusedWith_def split: if_splits option.splits)
  moreover have "(tu_kind u = ARM \<longleftrightarrow> ci_midr (to_identity options) \<noteq> None)
    \<and> (tu_kind u = UNKNOWN_VENDOR \<longrightarrow> ci_vendor (to_identity options) \<notin> {kAmdVendor, kIntelVendor})
    \<and> (tu_kind u = NO_DIRECTORY \<longrightarrow> (\<exists>tbl. table_read env options = Some tbl \<and> ts_directory (tt_source tbl) = []))
    \<and> (tu_kind u = NO_TOPDOWN_ROWS \<longrightarrow> (\<exists>tbl. table_read env options = Some tbl \<and> deepest_level (tt_rows tbl) = 0))
    \<and> (tu_kind u = HYBRID \<longrightarrow> (\<exists>tbl. table_read env options = Some tbl \<and> publishesTwoScopes env (ts_directory (tt_source tbl))))"
    using answer unfolding topdownTree_def Let_def table_read_def [symmetric] tree_of_table_def
    by (auto simp: refusedWith_def split: if_splits option.splits)
  ultimately show ?thesis using message_line by blast
qed

subsection \<open>Small tables\<close>

definition sample_topdown_row :: "string \<Rightarrow> string \<Rightarrow> bool \<Rightarrow> topdown_row" where
  "sample_topdown_row name grp pub = \<lparr>tr_name = name, tr_group = grp, tr_unit = [], tr_threshold = [], tr_core = empty_core,
     tr_published = pub, tr_refusal = MALFORMED, tr_reason = []\<rparr>"

definition sample_table :: "topdown_row list \<Rightarrow> topdown_table" where
  "sample_table rows = \<lparr>tt_source = \<lparr>ts_reference = [], ts_directory = ''d'', ts_files = []\<rparr>, tt_rows = rows\<rparr>"

definition sample_identity :: cpu_identity where
  "sample_identity = \<lparr>ci_vendor = ''GenuineIntel'', ci_family = 6, ci_model = 85, ci_stepping = 4, ci_coreType = [], ci_midr = None\<rparr>"

definition sample_selection :: "topdown_row list \<Rightarrow> topdown_selection" where
  "sample_selection rows = \<lparr>to_identity = sample_identity, to_level = 3, to_table = Some (sample_table rows)\<rparr>"

definition sample_env :: topdown_env where
  "sample_env = \<lparr>te_ident = sample_identity, te_selectDirectory = (\<lambda>_ _ _ _. ''d''), te_findDir = (\<lambda>_. None),
     te_loadTable = (\<lambda>_. []), te_host = demo_host\<rparr>"

definition root_row :: topdown_row where "root_row = sample_topdown_row ''tma_a'' ''TopdownL1'' True"
definition second_row :: "bool \<Rightarrow> topdown_row" where "second_row pub = sample_topdown_row ''tma_b'' ''TopdownL2;tma_a_group'' pub"
definition flat_row :: topdown_row where "flat_row = sample_topdown_row ''tma_c'' ''TopdownL2;tma_b_group'' True"
definition third_row :: topdown_row where "third_row = sample_topdown_row ''tma_c'' ''TopdownL3;tma_b_group'' True"

lemmas sample_rows = root_row_def second_row_def flat_row_def third_row_def sample_topdown_row_def

lemma sample_fields:
  "tr_name root_row = ''tma_a''" "tr_name (second_row pub) = ''tma_b''" "tr_name flat_row = ''tma_c''" "tr_name third_row = ''tma_c''"
  "tr_published root_row" "tr_published (second_row pub) = pub" "tr_published flat_row" "tr_published third_row"
  by (simp_all add: sample_rows)

lemma sample_tokens:
  "tokensOf (tr_group root_row) = [''TopdownL1'']" "tokensOf (tr_group (second_row pub)) = [''TopdownL2'', ''tma_a_group'']"
  "tokensOf (tr_group flat_row) = [''TopdownL2'', ''tma_b_group'']" "tokensOf (tr_group third_row) = [''TopdownL3'', ''tma_b_group'']"
  by (simp_all add: sample_rows tokensOf.simps)

lemma sample_token_levels:
  "levelOfToken ''TopdownL1'' = 1" "levelOfToken ''TopdownL2'' = 2" "levelOfToken ''TopdownL3'' = 3"
  "levelOfToken ''tma_a_group'' = 0" "levelOfToken ''tma_b_group'' = 0"
  by (simp_all add: levelOfToken_def level_digit_def kLevelTokens_def starts_with_def)

lemma sample_levels:
  "level_of_row root_row = 1" "level_of_row (second_row pub) = 2" "level_of_row flat_row = 2" "level_of_row third_row = 3"
  by (simp_all add: level_of_row_def sample_tokens sample_token_levels)

lemma sample_parent_rows:
  "parentRowOf [root_row, second_row pub] (Suc 0) = Some 0"
  "parentRowOf [root_row, second_row pub, flat_row] (Suc 0) = Some 0"
  "parentRowOf [root_row, second_row pub, flat_row] 2 = Some 1"
  "parentRowOf [root_row, second_row pub, third_row] 2 = Some 1"
  by (simp_all add: parentRowOf_def sample_tokens kGroupSuffix_def ends_with_def starts_with_def firstRowOfName_def sample_fields
      numeral_2_eq_2)

abbreviation step_rows :: "topdown_row list" where "step_rows \<equiv> [root_row, second_row True]"
abbreviation flat_rows :: "topdown_row list" where "flat_rows \<equiv> [root_row, second_row True, flat_row]"
abbreviation lost_rows :: "topdown_row list" where "lost_rows \<equiv> [root_row, second_row False, third_row]"

lemma sample_admitted:
  assumes "deepest_level rows \<noteq> 0"
  shows "admitted sample_env (sample_selection rows) (sample_table rows)"
  using assms by (simp add: admitted_def sample_selection_def sample_identity_def kIntelVendor_def table_read_def sample_table_def
      publishesTwoScopes_def sample_env_def)

lemma sample_depths: "deepest_level step_rows = 2" "deepest_level flat_rows = 2" "deepest_level lost_rows = 3"
  by (simp_all add: deepest_level_def sample_levels)

lemma sample_options: "is_amd (sample_selection rows) = False" "tt_rows (sample_table rows) = rows"
    "asked_depth (sample_selection rows) (sample_table rows) = min 3 (deepest_level rows)"
    "table_read env (sample_selection rows) = Some (sample_table rows)"
  by (simp_all add: is_amd_def sample_selection_def sample_identity_def kAmdVendor_def sample_table_def asked_depth_def table_read_def)

lemma sample_roots: "\<not> is_smt (root_row # rows) False 0"
  by (simp add: is_smt_def sample_fields sharedNameOf_def starts_with_def kSmtContention_def)

lemma neutral_samples:
  "neutralNameOf ''tma_a'' 1 False = ''topdown.a''" "neutralNameOf ''tma_a'' (Suc 0) False = ''topdown.a''"
  "neutralNameOf ''tma_b'' 2 False = ''topdown.intel.tma_b''" "neutralNameOf ''tma_c'' 2 False = ''topdown.intel.tma_c''"
  by (simp_all add: neutralNameOf_def sharedNameOf_def starts_with_def)

lemma less_three: "(i::nat) < 3 \<longleftrightarrow> i = 0 \<or> i = 1 \<or> i = 2" "(i::nat) < 2 \<longleftrightarrow> i = 0 \<or> i = 1"
  by auto

lemma rooted_range: "rooted rows amd d i \<Longrightarrow> i < length rows"
  using rooted_in_order by (simp add: set_level_major)

lemma sample_apart: "named_apart step_rows False 2" "named_apart flat_rows False 2"
  unfolding named_apart_def inj_on_def
  by (auto dest!: rooted_range simp: less_three sample_fields sample_levels neutral_samples less_Suc_eq)

lemma step_tree: "topdownTree sample_env (sample_selection step_rows) = Some (Inr (build_tree (sample_table step_rows) False 2))"
proof -
  have steps: "\<exists>p. parentRowOf step_rows i = Some p \<and> level_at step_rows p + 1 = level_at step_rows i"
    if "rooted step_rows False 2 i" "level_at step_rows i \<noteq> 1" for i
    using rooted_range [OF that(1)] that(2) by (auto simp: less_three less_Suc_eq sample_levels sample_parent_rows)
  have "distinct (map tr_name step_rows)" by (simp add: sample_fields)
  then show ?thesis
    using shape_holds_iff [of "sample_table step_rows" False 2] published_holds [of "sample_table step_rows" False 2]
      topdownTree_admitted [OF sample_admitted [of step_rows]] steps sample_apart(1)
    by (simp add: sample_options sample_depths)
qed

lemma topdown_tree_holds_the_rooted_rows_witness:
  "\<exists>tbl. table_read sample_env (sample_selection step_rows) = Some tbl
     \<and> tp_depth (build_tree (sample_table step_rows) False 2) = min (to_level (sample_selection step_rows)) (deepest_level (tt_rows tbl))"
  using topdown_tree_holds_the_rooted_rows [OF step_tree] by auto

lemma stepwise_table_answers_a_tree_witness:
  "\<exists>t. topdownTree sample_env (sample_selection step_rows) = Some (Inr t)"
proof -
  have a: "admitted sample_env (sample_selection step_rows) (sample_table step_rows)"
    by (rule sample_admitted) (simp add: sample_depths)
  have n: "distinct (map tr_name (tt_rows (sample_table step_rows)))" by (simp add: sample_options sample_fields)
  have ap: "named_apart (tt_rows (sample_table step_rows)) (is_amd (sample_selection step_rows))
      (asked_depth (sample_selection step_rows) (sample_table step_rows))"
    using sample_apart(1) by (simp add: sample_options sample_depths)
  have steps: "\<exists>p. parentRowOf step_rows i = Some p \<and> level_at step_rows p + 1 = level_at step_rows i"
    if "rooted step_rows False 2 i" "level_at step_rows i \<noteq> 1" for i
    using rooted_range [OF that(1)] that(2) by (auto simp: less_three less_Suc_eq sample_levels sample_parent_rows)
  show ?thesis using stepwise_table_answers_a_tree [OF a n ap] steps by (auto simp: sample_options sample_depths)
qed

lemma flat_rooted: "rooted flat_rows False 2 0" "rooted flat_rows False 2 1" "rooted flat_rows False 2 2"
proof -
  show r0: "rooted flat_rows False 2 0" by (rule rooted.root) (simp_all add: sample_fields sample_levels sample_roots)
  show r1: "rooted flat_rows False 2 1"
    by (rule rooted.child [OF _ _ _ _ _ r0]) (simp_all add: sample_fields sample_levels sample_parent_rows walked_before_def)
  show "rooted flat_rows False 2 2"
    by (rule rooted.child [OF _ _ _ _ _ r1]) (simp_all add: sample_fields sample_levels sample_parent_rows walked_before_def)
qed

lemma same_level_parent_breaks_the_tree_witness:
  "topdownTree sample_env (sample_selection flat_rows) = None"
proof (rule same_level_parent_breaks_the_tree [where tbl = "sample_table flat_rows" and i = 2 and p = 1])
  show "admitted sample_env (sample_selection flat_rows) (sample_table flat_rows)"
    by (rule sample_admitted) (simp add: sample_depths)
qed (use sample_apart(2) flat_rooted(3) in \<open>simp_all add: sample_options sample_depths sample_levels sample_parent_rows\<close>)

lemma lost_tree: "topdownTree sample_env (sample_selection lost_rows) = Some (Inr (build_tree (sample_table lost_rows) False 3))"
proof -
  have only: "i = 0" if "rooted lost_rows False 3 i" for i
  proof -
    have "i \<noteq> 1" using rooted_published [OF that] by (auto simp: sample_fields)
    moreover have "i \<noteq> 2"
    proof
      assume "i = 2"
      with rooted_child [OF that] have "rooted lost_rows False 3 1" by (simp add: sample_levels sample_parent_rows)
      from rooted_published [OF this] show False by (simp add: sample_fields)
    qed
    ultimately show ?thesis using rooted_range [OF that] by simp
  qed
  have apart: "named_apart lost_rows False 3" unfolding named_apart_def inj_on_def using only by blast
  have "distinct (map tr_name lost_rows)" by (simp add: sample_fields)
  moreover have "level_at lost_rows i = 1" if "rooted lost_rows False 3 i" for i
    using only [OF that] by (simp add: sample_levels)
  ultimately show ?thesis
    using shape_holds_iff [of "sample_table lost_rows" False 3] published_holds [of "sample_table lost_rows" False 3]
      topdownTree_admitted [OF sample_admitted [of lost_rows]] apart
    by (simp add: sample_options sample_depths)
qed

lemma child_of_a_refused_parent_is_lost_witness:
  "''tma_c'' \<notin> set (map tn_vendorName (tp_nodes (build_tree (sample_table lost_rows) False 3)))
   \<and> ''tma_c'' \<notin> set (map tx_name (tp_refused (build_tree (sample_table lost_rows) False 3)))"
  using child_of_a_refused_parent_is_lost [OF lost_tree sample_options(4), of 2 1]
  by (simp add: sample_options sample_fields sample_levels sample_parent_rows)

lemma topdown_refusals_are_one_line_witness:
  "\<exists>u. topdownTree sample_env ((sample_selection [])\<lparr>to_table := Some (sample_table [])\<rparr>) = Some (Inl u)
     \<and> unsupported_message u = Some (''topdown: '' @ tu_vendor u @ '' '' @ tu_identity u @ '': '' @ refusal_cause u (tu_kind u))"
proof -
  define options where "options = (sample_selection [])\<lparr>to_table := Some (sample_table [])\<rparr>"
  have "\<exists>u. topdownTree sample_env options = Some (Inl u)"
    by (simp add: options_def topdownTree_def sample_selection_def sample_identity_def kIntelVendor_def kAmdVendor_def
        tree_of_table_def sample_table_def deepest_level_def Let_def)
  then obtain u where u: "topdownTree sample_env options = Some (Inl u)" by blast
  have "CHR 0x0A \<notin> set (ci_vendor (to_identity options))"
    by (simp add: options_def sample_selection_def sample_identity_def)
  moreover have "\<forall>tbl. table_read sample_env options = Some tbl \<longrightarrow> CHR 0x0A \<notin> set (ts_directory (tt_source tbl))"
    by (simp add: options_def table_read_def sample_table_def)
  ultimately show ?thesis using topdown_refusals_are_one_line [OF u] u by (auto simp: options_def)
qed

end
