(* ===== verification/Table_Parse.thy ===== *)
theory Table_Parse
  imports Resolve Encode
begin

text \<open>
  The reader of the vendored event tables (\<open>source/counters/linux_pmu/table_parse.cpp\<close>, the words of \<open>pmu_ident.hpp\<close>
  and the registry lookups of \<open>embedded_tables.hpp\<close>): the CPUID words become an identity, the mapping file selects the
  directory of that identity, and the JSON rows of the directory become event-table entries.

  The JSON reader (simdjson), the regular expressions and the registry the build generates are arguments.  A document is
  \<open>None\<close> where the reader refuses it; a pattern is \<open>None\<close> where \<open>std::regex\<close> throws.  The two caches are explicit maps
  that a call takes and returns.
\<close>

unbundle bit_operations_syntax

subsection \<open>The identity\<close>

record ident_words =
  iw_leaf0Eax :: u32
  iw_leaf0Ebx :: u32
  iw_leaf0Edx :: u32
  iw_leaf0Ecx :: u32
  iw_leaf1Answered :: bool
  iw_leaf1Eax :: u32

record pmu_ident =
  id_vendor :: string
  id_family :: int
  id_model :: int
  id_stepping :: int

definition word_bytes :: "u32 \<Rightarrow> string" where
  "word_bytes w = map (\<lambda>b. char_of (unat (drop_bit (8 * b) w AND 0xFF))) [0, 1, 2, 3]"

definition word_field :: "nat \<Rightarrow> u32 \<Rightarrow> u32 \<Rightarrow> int" where
  "word_field shift bits w = uint (drop_bit shift w AND bits)"

definition pmuIdentFromWords :: "ident_words \<Rightarrow> pmu_ident" where
  "pmuIdentFromWords words =
     (let blank = \<lparr>id_vendor = [], id_family = - 1, id_model = - 1, id_stepping = - 1\<rparr>;
          named = (if iw_leaf0Eax words \<ge> 1
            then blank\<lparr>id_vendor := word_bytes (iw_leaf0Ebx words) @ word_bytes (iw_leaf0Edx words) @ word_bytes (iw_leaf0Ecx words)\<rparr>
            else blank);
          eax = iw_leaf1Eax words;
          baseFamily = word_field 8 0xF eax;
          extFamily = word_field 20 0xFF eax;
          baseModel = word_field 4 0xF eax;
          extModel = word_field 16 0xF eax
      in if iw_leaf1Answered words
         then named\<lparr>id_family := baseFamily + extFamily, id_model := baseModel OR push_bit 4 extModel,
                id_stepping := word_field 0 0xF eax\<rparr>
         else named)"

subsection \<open>JSON documents\<close>

text \<open>
  The elements of \<open>simdjson::dom\<close>; an integer is any value of \<open>int64\<close> or \<open>uint64\<close>.  A key of an object answers its first
  entry.
\<close>

datatype json = J_NULL | J_BOOL bool | J_INT int | J_DOUBLE binary64 | J_STRING string | J_ARRAY "json list"
  | J_OBJECT "(string \<times> json) list"

type_synonym json_object = "(string \<times> json) list"
type_synonym json_reader = "string \<Rightarrow> json option"

definition at_key :: "json_object \<Rightarrow> string \<Rightarrow> json option" where
  "at_key attributes key = map_of attributes key"

fun get_uint64 :: "json \<Rightarrow> u64 option" where
  "get_uint64 (J_INT i) = (if 0 \<le> i \<and> i < 2 ^ 64 then Some (of_int i) else None)"
| "get_uint64 _ = None"

fun get_string :: "json \<Rightarrow> string option" where
  "get_string (J_STRING t) = Some t"
| "get_string _ = None"

fun get_object :: "json \<Rightarrow> json_object option" where
  "get_object (J_OBJECT o1) = Some o1"
| "get_object _ = None"

subsection \<open>Scalars\<close>

text \<open>\<open>std::from_chars\<close> for \<open>std::uint64_t\<close> at base 10 or 16: the value and the unread tail.\<close>

definition base_digit :: "nat \<Rightarrow> char \<Rightarrow> bool" where
  "base_digit base c \<longleftrightarrow> (if base = 16 then is_xdigit c else is_digit c)"

definition from_chars_u64 :: "nat \<Rightarrow> string \<Rightarrow> (u64 \<times> string) option" where
  "from_chars_u64 base s =
     (let digits = takeWhile (base_digit base) s
      in if digits = [] \<or> digits_value base digits \<ge> 2 ^ 64 then None
         else Some (of_nat (digits_value base digits), dropWhile (base_digit base) s))"

definition scalar_text :: "string \<Rightarrow> u64 option" where
  "scalar_text t =
     (let hex = starts_with t ''0x'' \<or> starts_with t ''0X'';
          digits = (if hex then drop 2 t else t)
      in if digits = [] then None
         else
           case from_chars_u64 (if hex then 16 else 10) digits of
             None \<Rightarrow> None
           | Some (parsed, rest) \<Rightarrow> if rest \<noteq> [] then None else Some parsed)"

definition parseScalar :: "json \<Rightarrow> u64 option" where
  "parseScalar v =
     (case get_uint64 v of
        Some n \<Rightarrow> Some n
      | None \<Rightarrow> (case get_string v of None \<Rightarrow> None | Some t \<Rightarrow> scalar_text t))"

definition blank_or_tab :: "char \<Rightarrow> bool" where
  "blank_or_tab c \<longleftrightarrow> c = CHR '' '' \<or> c = CHR 0x09"

definition trim_blanks :: "string \<Rightarrow> string" where
  "trim_blanks s = rev (dropWhile blank_or_tab (rev (dropWhile blank_or_tab s)))"

definition firstIndexOf :: "string \<Rightarrow> u64 option" where
  "firstIndexOf t =
     (let first = (case find_char (CHR '','') t 0 of None \<Rightarrow> t | Some comma \<Rightarrow> take comma t);
          trimmed = trim_blanks first
      in if trimmed = [] then None else scalar_text trimmed)"

subsection \<open>The keys of a row\<close>

definition carriesNoObligation :: "string \<Rightarrow> bool" where
  "carriesNoObligation key \<longleftrightarrow>
     List.member [''SampleAfterValue'', ''MSRIndex'', ''PEBS'', ''Data_LA'', ''PerPkg'', ''Experimental''] key"

definition carriesNoConstraint :: "string \<Rightarrow> bool" where
  "carriesNoConstraint key \<longleftrightarrow> List.member [''Deprecated''] key"

definition isRegisterValue :: "string \<Rightarrow> bool" where
  "isRegisterValue key \<longleftrightarrow> key = ''MSRValue''"

definition registerFormat :: "u64 \<Rightarrow> string" where
  "registerFormat index =
     (if index = 0x3f6 then ''ldlat''
      else if index = 0x3f7 then ''frontend''
      else if List.member [0x1a6, 0x1a7, 0x3e0, 0x3e1, 0x3e2, 0x3e3] index then ''offcore_rsp''
      else [])"

record register_filter =
  rf_value :: u64
  rf_format :: string
  rf_present :: bool
  rf_unnamed :: bool

definition kUnnamedRegister :: string where
  "kUnnamedRegister = ''unnamed_register''"

definition registerFilterOf :: "json_object \<Rightarrow> register_filter" where
  "registerFilterOf attributes =
     (let none = \<lparr>rf_value = 0, rf_format = [], rf_present = False, rf_unnamed = False\<rparr>
      in case Option.bind (at_key attributes ''MSRValue'') parseScalar of
           None \<Rightarrow> none
         | Some v \<Rightarrow>
             (case Option.bind (Option.bind (at_key attributes ''MSRIndex'') get_string) firstIndexOf of
                None \<Rightarrow> none\<lparr>rf_value := v, rf_unnamed := (v \<noteq> 0)\<rparr>
              | Some index \<Rightarrow>
                  none\<lparr>rf_value := v, rf_format := registerFormat index, rf_present := True,
                    rf_unnamed := (v \<noteq> 0 \<and> registerFormat index = [])\<rparr>))"

definition kernelSpelling :: "string \<Rightarrow> string" where
  "kernelSpelling key =
     (if key = ''CounterMask'' then ''cmask''
      else if key = ''Invert'' then ''inv''
      else if key = ''EdgeDetect'' then ''edge''
      else if key = ''OffcoreRsp'' then ''offcore_rsp''
      else if key = ''AnyThread'' then ''any''
      else if key = ''PortMask'' then ''ch_mask''
      else if key = ''FCMask'' then ''fc_mask''
      else if key = ''RdWrMask'' then ''rdwrmask''
      else if key = ''EnAllCores'' then ''enallcores''
      else if key = ''EnAllSlices'' then ''enallslices''
      else if key = ''SliceId'' then ''sliceid''
      else if key = ''ThreadMask'' then ''threadmask''
      else [])"

definition textOf :: "json_object \<Rightarrow> string \<Rightarrow> string" where
  "textOf attributes key =
     (case Option.bind (at_key attributes key) get_string of None \<Rightarrow> [] | Some t \<Rightarrow> t)"

definition descriptionOf :: "json_object \<Rightarrow> string" where
  "descriptionOf attributes =
     (if textOf attributes ''Description'' \<noteq> [] then textOf attributes ''Description''
      else if textOf attributes ''PublicDescription'' \<noteq> [] then textOf attributes ''PublicDescription''
      else textOf attributes ''BriefDescription'')"

definition blank_entry :: pmu_table_entry where
  "blank_entry = \<lparr>pe_name = [], pe_description = [], pe_unit = [], pe_fixedCounter = - 1, pe_fields = [],
     pe_metricName = [], pe_metricExpr = [], pe_scaleUnit = [], pe_group = [], pe_threshold = [], pe_fileName = []\<rparr>"

definition metric_entry :: "string \<Rightarrow> json_object \<Rightarrow> pmu_table_entry" where
  "metric_entry name attributes =
     (let metricName = (if textOf attributes ''MetricName'' = [] then name else textOf attributes ''MetricName'')
      in blank_entry\<lparr>pe_description := descriptionOf attributes, pe_unit := textOf attributes ''Unit'',
           pe_metricName := metricName, pe_name := metricName, pe_metricExpr := textOf attributes ''MetricExpr'',
           pe_scaleUnit := textOf attributes ''ScaleUnit'', pe_group := textOf attributes ''MetricGroup'',
           pe_threshold := textOf attributes ''MetricThreshold''\<rparr>)"

definition addMetricEntry :: "pmu_table_entry list \<Rightarrow> string \<Rightarrow> json_object \<Rightarrow> pmu_table_entry list" where
  "addMetricEntry entries name attributes = entries @ [metric_entry name attributes]"

definition add_field :: "string \<Rightarrow> u64 option \<Rightarrow> pmu_table_entry \<Rightarrow> pmu_table_entry" where
  "add_field name number entry =
     (case number of None \<Rightarrow> entry | Some n \<Rightarrow> entry\<lparr>pe_fields := pe_fields entry @ [(name, n)]\<rparr>)"

text \<open>One key of the loop over the attributes.\<close>

definition key_step :: "string \<times> json \<Rightarrow> pmu_table_entry \<Rightarrow> pmu_table_entry" where
  "key_step attribute entry =
     (let key = fst attribute; v = snd attribute
      in if key = ''EventCode'' then
           add_field ''event'' (case get_string v of Some t \<Rightarrow> firstIndexOf t | None \<Rightarrow> parseScalar v) entry
         else if key = ''UMask'' \<or> key = ''Umask'' then add_field ''umask'' (parseScalar v) entry
         else if key = ''Counter'' then
           (case get_string v of None \<Rightarrow> entry | Some t \<Rightarrow> entry\<lparr>pe_fixedCounter := fixedCounterDesignation t\<rparr>)
         else if key = ''UMASK_EXT'' then add_field ''umask_ext'' (parseScalar v) entry
         else if List.member [''EventName'', ''Description'', ''PublicDescription'', ''BriefDescription'', ''Unit''] key then entry
         else if carriesNoObligation key then entry
         else if carriesNoConstraint key then entry
         else if isRegisterValue key then entry
         else if kernelSpelling key \<noteq> [] \<and> parseScalar v \<noteq> None then add_field (kernelSpelling key) (parseScalar v) entry
         else add_field key (parseScalar v) entry)"

definition event_entry :: "string \<Rightarrow> json_object \<Rightarrow> pmu_table_entry" where
  "event_entry name attributes =
     (let filter1 = registerFilterOf attributes;
          read = fold key_step attributes (blank_entry\<lparr>pe_name := name\<rparr>);
          fieldName = (if rf_format filter1 = [] then kUnnamedRegister else rf_format filter1);
          filtered = (if rf_value filter1 \<noteq> 0 then add_field fieldName (Some (rf_value filter1)) read else read)
      in filtered\<lparr>pe_description := descriptionOf attributes, pe_unit := textOf attributes ''Unit''\<rparr>)"

definition addEntry :: "pmu_table_entry list \<Rightarrow> string \<Rightarrow> json_object \<Rightarrow> pmu_table_entry list" where
  "addEntry entries name attributes =
     (if at_key attributes ''MetricExpr'' \<noteq> None then addMetricEntry entries name attributes
      else entries @ [event_entry name attributes])"

subsection \<open>Documents\<close>

definition row_name :: "json_object \<Rightarrow> string option" where
  "row_name attributes =
     (case Option.bind (at_key attributes ''EventName'') get_string of
        Some name \<Rightarrow> Some name
      | None \<Rightarrow> Option.bind (at_key attributes ''MetricName'') get_string)"

definition item_step :: "json \<Rightarrow> pmu_table_entry list \<Rightarrow> pmu_table_entry list" where
  "item_step item entries =
     (case get_object item of
        None \<Rightarrow> entries
      | Some attributes \<Rightarrow>
          (case row_name attributes of None \<Rightarrow> entries | Some name \<Rightarrow> addEntry entries name attributes))"

definition pair_step :: "string \<times> json \<Rightarrow> pmu_table_entry list \<Rightarrow> pmu_table_entry list" where
  "pair_step pair entries =
     (case get_object (snd pair) of None \<Rightarrow> entries | Some attributes \<Rightarrow> addEntry entries (fst pair) attributes)"

definition parsePadded :: "json_reader \<Rightarrow> string \<Rightarrow> pmu_table_entry list \<Rightarrow> pmu_table_entry list" where
  "parsePadded dom_parse loaded entries =
     (case dom_parse loaded of
        Some (J_ARRAY items) \<Rightarrow> fold item_step items entries
      | Some (J_OBJECT pairs) \<Rightarrow> fold pair_step pairs entries
      | _ \<Rightarrow> entries)"

definition parseJsonFile :: "json_reader \<Rightarrow> (string \<Rightarrow> string option) \<Rightarrow> string \<Rightarrow> pmu_table_entry list \<Rightarrow> pmu_table_entry list" where
  "parseJsonFile dom_parse load path entries =
     (case load path of None \<Rightarrow> entries | Some loaded \<Rightarrow> parsePadded dom_parse loaded entries)"

definition parseJsonBytes :: "json_reader \<Rightarrow> string \<Rightarrow> pmu_table_entry list \<Rightarrow> pmu_table_entry list" where
  "parseJsonBytes dom_parse bytes entries = parsePadded dom_parse bytes entries"

definition tagFile :: "pmu_table_entry list \<Rightarrow> nat \<Rightarrow> string \<Rightarrow> pmu_table_entry list" where
  "tagFile entries first name = take first entries @ map (\<lambda>e. e\<lparr>pe_fileName := name\<rparr>) (drop first entries)"

text \<open>\<open>std::filesystem::path::filename\<close>: what follows the last separator.\<close>

definition path_filename :: "string \<Rightarrow> string" where
  "path_filename path = (case rfind_char (CHR ''/'') path of None \<Rightarrow> path | Some i \<Rightarrow> drop (i + 1) path)"

definition pmuParseTableFile ::
  "json_reader \<Rightarrow> (string \<Rightarrow> string option) \<Rightarrow> string \<Rightarrow> pmu_table_entry list \<Rightarrow> pmu_table_entry list" where
  "pmuParseTableFile dom_parse load path out =
     tagFile (parseJsonFile dom_parse load path out) (length out) (path_filename path)"

subsection \<open>The mapping file\<close>

text \<open>The two tables of \<open>toEcma\<close>: the class names and the bodies that replace them.\<close>

definition kClassName :: "(string \<times> string) list" where
  "kClassName =
     [(''alnum'', ''0-9A-Za-z''), (''alpha'', ''A-Za-z''), (''blank'', '' '' @ [CHR 0x5C, CHR ''t'']),
      (''cntrl'', [CHR 0x5C] @ ''x00-'' @ [CHR 0x5C] @ ''x1f'' @ [CHR 0x5C] @ ''x7f''), (''digit'', ''0-9''),
      (''graph'', ''!-~''), (''lower'', ''a-z''), (''print'', '' -~''),
      (''punct'', ''!-/:-@[-'' @ [CHR 0x60] @ ''{-~''),
      (''space'', '' '' @ [CHR 0x5C, CHR ''t'', CHR 0x5C, CHR ''n'', CHR 0x5C, CHR ''v'', CHR 0x5C, CHR ''f'', CHR 0x5C, CHR ''r'']),
      (''upper'', ''A-Z''), (''word'', ''0-9A-Za-z_''), (''xdigit'', ''0-9A-Fa-f'')]"

fun find_close :: "string \<Rightarrow> nat option" where
  "find_close [] = None"
| "find_close (c # cs) = (if starts_with (c # cs) '']]'' then Some 0 else map_option Suc (find_close cs))"

text \<open>
  The arm of the loop that opens with two brackets: the class body and the length of the span it replaces.  The search
  starts one past the first bracket.
\<close>

definition class_at :: "string \<Rightarrow> (string \<times> nat) option" where
  "class_at s =
     (if \<not> starts_with s ''[['' then None
      else
        case find_close (tl s) of
          None \<Rightarrow> None
        | Some k \<Rightarrow>
            let close = k + 1;
                body = substr s 2 (close - 2);
                name = (if starts_with body '':'' \<and> length body > 2 then substr body 1 (length body - 2) else [])
            in map_option (\<lambda>replacement. (replacement, close + 2)) (map_of kClassName name))"

lemma class_at_span: "class_at s = Some (r, n) \<Longrightarrow> s \<noteq> [] \<and> n > 0"
  by (auto simp: class_at_def Let_def starts_with_def split: if_splits option.splits)

function toEcma :: "string \<Rightarrow> string" where
  "toEcma pattern =
     (case pattern of
        [] \<Rightarrow> []
      | c # cs \<Rightarrow>
          (case class_at (c # cs) of
             Some (replacement, n) \<Rightarrow> CHR ''['' # replacement @ CHR '']'' # toEcma (drop n (c # cs))
           | None \<Rightarrow> c # toEcma cs))"
  by pat_completeness auto
termination
  by (relation "measure length") (auto dest!: class_at_span)

declare toEcma.simps [simp del]

definition upper_digit :: "nat \<Rightarrow> char" where
  "upper_digit d = ''0123456789ABCDEF'' ! d"

text \<open>The conversion \<open>%X\<close>.\<close>

fun upper_hex :: "nat \<Rightarrow> string" where
  "upper_hex n = (if n < 16 then [upper_digit n] else upper_hex (n div 16) @ [upper_digit (n mod 16)])"

declare upper_hex.simps [simp del]

text \<open>\<open>std::snprintf\<close> into eight bytes keeps seven characters.\<close>

definition mapfileModelKey :: "pmu_ident \<Rightarrow> string" where
  "mapfileModelKey ident =
     id_vendor ident @ CHR ''-'' # decimal_int (id_family ident) @ CHR ''-'' # take 7 (upper_hex (nat (id_model ident mod 2 ^ 32)))"

definition mapfileKey :: "pmu_ident \<Rightarrow> string" where
  "mapfileKey ident =
     (if id_stepping ident < 0 then mapfileModelKey ident
      else mapfileModelKey ident @ CHR ''-'' # [upper_digit (nat (id_stepping ident mod 16))])"

text \<open>The lines \<open>std::getline\<close> reads.\<close>

function getlines :: "string \<Rightarrow> string list" where
  "getlines s =
     (if s = [] then []
      else takeWhile (\<lambda>c. c \<noteq> CHR 0x0A) s # getlines (tl (dropWhile (\<lambda>c. c \<noteq> CHR 0x0A) s)))"
  by pat_completeness auto
termination
proof (relation "measure length")
  fix s :: string
  assume "s \<noteq> []"
  moreover have "length (dropWhile (\<lambda>c. c \<noteq> CHR 0x0A) s) \<le> length s" by (rule length_dropWhile_le)
  ultimately show "(tl (dropWhile (\<lambda>c. c \<noteq> CHR 0x0A) s), s) \<in> measure length" by (cases s) auto
qed simp

declare getlines.simps [simp del]

text \<open>The pattern and the directory of a line; a line without three commas or with no file name is skipped.\<close>

definition mapfile_columns :: "string \<Rightarrow> (string \<times> string) option" where
  "mapfile_columns line =
     (case find_char (CHR '','') line 0 of
        None \<Rightarrow> None
      | Some first \<Rightarrow>
          (case find_char (CHR '','') line (first + 1) of
             None \<Rightarrow> None
           | Some second \<Rightarrow>
               (case find_char (CHR '','') line (second + 1) of
                  None \<Rightarrow> None
                | Some third \<Rightarrow>
                    let filename = substr line (second + 1) (third - (second + 1))
                    in if filename = [] then None else Some (take first line, filename))))"

type_synonym regex_reader = "string \<Rightarrow> (string \<Rightarrow> bool) option"

definition row_pattern :: "string \<Rightarrow> string" where
  "row_pattern column = map to_lower (toEcma column)"

fun select_line :: "regex_reader \<Rightarrow> string \<Rightarrow> string \<Rightarrow> string list \<Rightarrow> string checked" where
  "select_line regex key modelKey [] = Some []"
| "select_line regex key modelKey (line # rest) =
     (case mapfile_columns line of
        None \<Rightarrow> select_line regex key modelKey rest
      | Some (column, filename) \<Rightarrow>
          (case regex (row_pattern column) of
             None \<Rightarrow> None
           | Some matches \<Rightarrow>
               if matches key \<or> matches modelKey then Some (''arch/x86/'' @ filename @ ''/'')
               else select_line regex key modelKey rest))"

definition selectDirectoryIn :: "regex_reader \<Rightarrow> string \<Rightarrow> pmu_ident \<Rightarrow> string checked" where
  "selectDirectoryIn regex mapfile ident =
     select_line regex (mapfileKey ident) (mapfileModelKey ident) (tl (getlines mapfile))"

subsection \<open>The registry and the caches\<close>

record embedded_file =
  ef_name :: string
  ef_offset :: nat
  ef_length :: nat

record embedded_directory =
  er_path :: string
  er_data :: string
  er_files :: "embedded_file list"

definition embeddedFindDir :: "embedded_directory list \<Rightarrow> string \<Rightarrow> embedded_directory option" where
  "embeddedFindDir dirs path = List.find (\<lambda>d. path = er_path d) dirs"

text \<open>A view past the end of the buffer is undefined.\<close>

definition embeddedFileBytes :: "embedded_directory \<Rightarrow> string \<Rightarrow> string checked" where
  "embeddedFileBytes dir name =
     (case List.find (\<lambda>f. name = ef_name f) (er_files dir) of
        None \<Rightarrow> Some []
      | Some f \<Rightarrow>
          if ef_offset f + ef_length f > length (er_data dir) then None
          else Some (substr (er_data dir) (ef_offset f) (ef_length f)))"

type_synonym directory_cache = "(string, string) omap"

definition select_uncached :: "regex_reader \<Rightarrow> embedded_directory list \<Rightarrow> pmu_ident \<Rightarrow> string checked" where
  "select_uncached regex dirs ident =
     (case embeddedFindDir dirs ''arch/x86'' of
        None \<Rightarrow> Some []
      | Some dir \<Rightarrow>
          Option.bind (embeddedFileBytes dir ''mapfile.csv'') (\<lambda>mapfile. selectDirectoryIn regex mapfile ident))"

definition pmuSelectDirectory ::
  "regex_reader \<Rightarrow> embedded_directory list \<Rightarrow> pmu_ident \<Rightarrow> directory_cache \<Rightarrow> (string \<times> directory_cache) checked" where
  "pmuSelectDirectory regex dirs ident cache =
     (case om_find cache (mapfileKey ident) of
        Some cached \<Rightarrow> Some (cached, cache)
      | None \<Rightarrow>
          map_option (\<lambda>selected. (selected, om_emplace (mapfileKey ident) selected cache))
            (select_uncached regex dirs ident))"

type_synonym table_cache = "(string, pmu_table_entry list) omap"

definition file_step ::
  "json_reader \<Rightarrow> embedded_directory \<Rightarrow> embedded_file \<Rightarrow> pmu_table_entry list \<Rightarrow> pmu_table_entry list checked" where
  "file_step dom_parse dir file entries =
     map_option (\<lambda>bytes. tagFile (parseJsonBytes dom_parse bytes entries) (length entries) (ef_name file))
       (embeddedFileBytes dir (ef_name file))"

fun load_files ::
  "json_reader \<Rightarrow> embedded_directory \<Rightarrow> embedded_file list \<Rightarrow> pmu_table_entry list \<Rightarrow> pmu_table_entry list checked" where
  "load_files dom_parse dir [] entries = Some entries"
| "load_files dom_parse dir (file # files) entries =
     Option.bind (file_step dom_parse dir file entries) (load_files dom_parse dir files)"

definition load_uncached :: "json_reader \<Rightarrow> embedded_directory list \<Rightarrow> string \<Rightarrow> pmu_table_entry list checked" where
  "load_uncached dom_parse dirs directory =
     (let key = (if directory \<noteq> [] \<and> last directory = CHR ''/'' then butlast directory else directory)
      in case embeddedFindDir dirs key of
           None \<Rightarrow> Some []
         | Some dir \<Rightarrow> load_files dom_parse dir (er_files dir) [])"

definition pmuLoadTable ::
  "json_reader \<Rightarrow> embedded_directory list \<Rightarrow> string \<Rightarrow> table_cache \<Rightarrow> (pmu_table_entry list \<times> table_cache) checked" where
  "pmuLoadTable dom_parse dirs directory cache =
     (case om_find cache directory of
        Some cached \<Rightarrow> Some (cached, cache)
      | None \<Rightarrow> map_option (\<lambda>entries. (entries, om_emplace directory entries cache)) (load_uncached dom_parse dirs directory))"

end
