(* ===== verification/Table_Facts.thy ===== *)
theory Table_Facts
  imports Table_Parse
begin

text \<open>
  Facts on the event-table reader: the two caches answer what their calls compute, a loaded table is the rows of its
  files, the two shapes of a document hold the same rows, and a row that composes carries its register filter.
\<close>

unbundle bit_operations_syntax

subsection \<open>Caches\<close>

text \<open>The answers of a sequence of calls, each on the cache the one before it left.\<close>

fun call_sequence :: "('a \<Rightarrow> 'c \<Rightarrow> ('b \<times> 'c) checked) \<Rightarrow> 'a list \<Rightarrow> 'c \<Rightarrow> 'b list checked" where
  "call_sequence call [] cache = Some []"
| "call_sequence call (x # xs) cache =
     (case call x cache of
        None \<Rightarrow> None
      | Some (b, cache1) \<Rightarrow> map_option (Cons b) (call_sequence call xs cache1))"

text \<open>
  The interface of a call that keeps its first answer under a key: a stored answer is given back, a missing one is
  computed and stored, and the key of a valid argument decides the answer.
\<close>

locale cached_call =
  fixes call :: "'a \<Rightarrow> ('k::linorder, 'b) omap \<Rightarrow> ('b \<times> ('k, 'b) omap) checked"
    and key :: "'a \<Rightarrow> 'k"
    and compute :: "'a \<Rightarrow> 'b checked"
    and valid :: "'a \<Rightarrow> bool"
  assumes hit: "om_find cache (key x) = Some b \<Longrightarrow> call x cache = Some (b, cache)"
    and miss: "om_find cache (key x) = None \<Longrightarrow>
      call x cache = map_option (\<lambda>b. (b, om_emplace (key x) b cache)) (compute x)"
    and key_decides: "valid x \<Longrightarrow> valid y \<Longrightarrow> key x = key y \<Longrightarrow> compute x = compute y"
begin

definition sound :: "('k, 'b) omap \<Rightarrow> bool" where
  "sound cache \<longleftrightarrow> om_wf cache \<and> (\<forall>x b. valid x \<longrightarrow> om_find cache (key x) = Some b \<longrightarrow> compute x = Some b)"

lemma sound_Nil: "sound []"
  by (simp add: sound_def)

lemma sound_emplace: "sound cache \<Longrightarrow> valid x \<Longrightarrow> compute x = Some b \<Longrightarrow> sound (om_emplace (key x) b cache)"
  by (auto simp: sound_def om_wf_emplace om_find_emplace split: option.splits if_splits dest: key_decides)

lemma call_computes:
  assumes "sound cache" and "valid x"
  shows "call x cache = None \<and> compute x = None
    \<or> (\<exists>b cache1. call x cache = Some (b, cache1) \<and> compute x = Some b \<and> sound cache1)"
proof (cases "om_find cache (key x)")
  case None
  with miss assms show ?thesis by (cases "compute x") (auto intro: sound_emplace)
next
  case (Some b)
  with assms have "compute x = Some b" by (simp add: sound_def)
  with hit [OF Some] assms(1) show ?thesis by blast
qed

lemma sequence_from: "sound cache \<Longrightarrow> list_all valid xs \<Longrightarrow> call_sequence call xs cache = those (map compute xs)"
proof (induction xs arbitrary: cache)
  case (Cons x xs)
  with call_computes [of cache x] show ?case by auto
qed simp

lemma sequence_computes: "list_all valid xs \<Longrightarrow> call_sequence call xs [] = those (map compute xs)"
  using sequence_from sound_Nil by blast

end

subsection \<open>The selection of a directory\<close>

definition decoded :: "pmu_ident \<Rightarrow> bool" where
  "decoded ident \<longleftrightarrow> id_stepping ident \<ge> 0 \<or> id_stepping ident = - 1 \<and> id_model ident = - 1"

lemma word_field_nonneg: "word_field shift bits w \<ge> 0"
  by (simp add: word_field_def)

lemma decoded_words: "decoded (pmuIdentFromWords words)"
  by (simp add: decoded_def pmuIdentFromWords_def Let_def word_field_nonneg)

lemma absent_model_key: "id_model ident = - 1 \<Longrightarrow>
  mapfileModelKey ident = (id_vendor ident @ CHR ''-'' # decimal_int (id_family ident) @ ''-FFFFF'') @ ''FF''"
  by (simp add: mapfileModelKey_def upper_hex.simps upper_digit_def)

lemma decoded_key:
  assumes "decoded a" and "decoded b" and same: "mapfileKey a = mapfileKey b"
  shows "mapfileModelKey a = mapfileModelKey b"
proof -
  have mixed: False if "id_stepping x \<ge> 0" "\<not> id_stepping y \<ge> 0" "decoded y" "mapfileKey x = mapfileKey y" for x y
  proof -
    let ?p = "id_vendor y @ CHR ''-'' # decimal_int (id_family y) @ ''-FFFFF''"
    from that absent_model_key [of y] have "mapfileModelKey x @ [CHR ''-'', upper_digit (nat (id_stepping x mod 16))] = ?p @ ''FF''"
      by (simp add: mapfileKey_def decoded_def)
    then have "[CHR ''-'', upper_digit (nat (id_stepping x mod 16))] = ''FF''"
      by (subst (asm) append_eq_append_conv) auto
    then show False by simp
  qed
  show ?thesis
  proof (cases "id_stepping a \<ge> 0 \<longleftrightarrow> id_stepping b \<ge> 0")
    case True
    with same show ?thesis by (auto simp: mapfileKey_def split: if_splits)
  next
    case False
    with mixed [of a b] mixed [of b a] assms show ?thesis by auto
  qed
qed

interpretation directory_call: cached_call "pmuSelectDirectory regex dirs" mapfileKey "select_uncached regex dirs" decoded
  for regex dirs
proof unfold_locales
  fix x y
  assume "decoded x" "decoded y" and same: "mapfileKey x = mapfileKey y"
  then have "mapfileModelKey x = mapfileModelKey y" by (rule decoded_key)
  with same show "select_uncached regex dirs x = select_uncached regex dirs y"
    by (simp add: select_uncached_def selectDirectoryIn_def split: option.split)
qed (simp_all add: pmuSelectDirectory_def)

text \<open>
  C24. The directory cache is keyed by the mapping-file key alone, while the selection reads the key with and without the
  stepping.  For identities decoded from CPUID words the key decides both, so a sequence of selections answers what each
  would compute, and throws where one of them does.
\<close>

theorem directory_cache_is_transparent:
  "call_sequence (pmuSelectDirectory regex dirs) (map pmuIdentFromWords ws) []
     = those (map (\<lambda>w. select_uncached regex dirs (pmuIdentFromWords w)) ws)"
proof -
  have "list_all decoded (map pmuIdentFromWords ws)" by (simp add: list_all_iff decoded_words)
  then show ?thesis by (simp add: directory_call.sequence_computes comp_def)
qed

text \<open>The cache of tables, keyed by the directory itself.\<close>

interpretation table_call: cached_call "pmuLoadTable dom_parse dirs" "\<lambda>directory. directory" "load_uncached dom_parse dirs" "\<lambda>directory. True"
  for dom_parse dirs
  by unfold_locales (simp_all add: pmuLoadTable_def)

subsection \<open>The rows of a document\<close>

lemma addEntry_appends: "addEntry entries name attributes = entries @ addEntry [] name attributes"
  by (simp add: addEntry_def addMetricEntry_def)

lemma item_step_appends: "item_step item entries = entries @ item_step item []"
  unfolding item_step_def by (simp add: addEntry_appends [of entries] split: option.split)

lemma pair_step_appends: "pair_step pair entries = entries @ pair_step pair []"
  unfolding pair_step_def by (simp add: addEntry_appends [of entries] split: option.split)

lemma fold_appends:
  assumes "\<And>x xs. f x xs = xs @ f x []"
  shows "fold f items entries = entries @ concat (map (\<lambda>x. f x []) items)"
proof (induction items arbitrary: entries)
  case (Cons x items)
  show ?case by (simp add: Cons assms [of x entries])
qed simp

lemma parsePadded_appends: "parsePadded dom_parse bytes entries = entries @ parsePadded dom_parse bytes []"
proof -
  note items = fold_appends [of item_step, OF item_step_appends]
  note pairs = fold_appends [of pair_step, OF pair_step_appends]
  show ?thesis
    unfolding parsePadded_def by (auto simp: items [of _ entries] items [of _ "[]"] pairs [of _ entries] pairs [of _ "[]"] split: option.split json.split)
qed

definition tagged :: "string \<Rightarrow> pmu_table_entry list \<Rightarrow> pmu_table_entry list" where
  "tagged name rows = map (\<lambda>e. e\<lparr>pe_fileName := name\<rparr>) rows"

lemma tagFile_tail: "tagFile (entries @ rows) (length entries) name = entries @ tagged name rows"
  by (simp add: tagFile_def tagged_def)

text \<open>The rows of one file, named after it.\<close>

definition rows_of_file :: "json_reader \<Rightarrow> embedded_directory \<Rightarrow> embedded_file \<Rightarrow> pmu_table_entry list checked" where
  "rows_of_file dom_parse dir file =
     map_option (\<lambda>bytes. tagged (ef_name file) (parsePadded dom_parse bytes [])) (embeddedFileBytes dir (ef_name file))"

lemma file_step_appends: "file_step dom_parse dir file entries = map_option (\<lambda>rows. entries @ rows) (rows_of_file dom_parse dir file)"
  using parsePadded_appends [of dom_parse _ entries]
  by (cases "embeddedFileBytes dir (ef_name file)") (simp_all add: file_step_def rows_of_file_def parseJsonBytes_def tagFile_tail)

lemma load_files_rows:
  "load_files dom_parse dir files entries = map_option (\<lambda>parts. entries @ concat parts) (those (map (rows_of_file dom_parse dir) files))"
proof (induction files arbitrary: entries)
  case (Cons f fs)
  then show ?case
    by (cases "rows_of_file dom_parse dir f"; cases "those (map (rows_of_file dom_parse dir) fs)") (simp_all add: file_step_appends)
qed simp

definition registry_key :: "string \<Rightarrow> string" where
  "registry_key directory = (if directory \<noteq> [] \<and> last directory = CHR ''/'' then butlast directory else directory)"

definition rows_of_directory :: "json_reader \<Rightarrow> embedded_directory list \<Rightarrow> string \<Rightarrow> pmu_table_entry list checked" where
  "rows_of_directory dom_parse dirs directory =
     (case embeddedFindDir dirs (registry_key directory) of
        None \<Rightarrow> Some []
      | Some dir \<Rightarrow> map_option concat (those (map (rows_of_file dom_parse dir) (er_files dir))))"

lemma load_uncached_rows: "load_uncached dom_parse dirs = rows_of_directory dom_parse dirs"
  by (simp add: fun_eq_iff load_uncached_def rows_of_directory_def registry_key_def Let_def load_files_rows option.map_ident split: option.split)

text \<open>
  C14. Whatever directories are loaded in whatever order, each answer is the rows of the directory's files in index order,
  every row named after the file it came out of, and the empty table for a directory the library holds no bytes for.
\<close>

theorem loaded_tables_are_the_rows_of_their_files:
  "call_sequence (pmuLoadTable dom_parse dirs) directories [] = those (map (rows_of_directory dom_parse dirs) directories)"
proof -
  have "list_all (\<lambda>directory. True) directories" by (simp add: list_all_iff)
  then show ?thesis by (simp add: table_call.sequence_computes load_uncached_rows)
qed


subsection \<open>The two shapes of a document\<close>

text \<open>The array that spells an object-shaped document: each name becomes the event name of its row.\<close>

definition array_item :: "string \<times> json \<Rightarrow> json" where
  "array_item pair =
     (case get_object (snd pair) of
        None \<Rightarrow> J_NULL
      | Some attributes \<Rightarrow> J_OBJECT ((''EventName'', J_STRING (fst pair)) # attributes))"

lemma at_key_Cons: "at_key ((k, v) # attributes) key = (if key = k then Some v else at_key attributes key)"
  by (simp add: at_key_def)

lemma named_key_neutral: "key_step (''EventName'', v) entry = entry"
  by (simp add: key_step_def)

lemma textOf_named: "key \<noteq> ''EventName'' \<Longrightarrow> textOf ((''EventName'', v) # attributes) key = textOf attributes key"
  by (simp add: textOf_def at_key_Cons)

lemma registerFilterOf_named: "registerFilterOf ((''EventName'', v) # attributes) = registerFilterOf attributes"
  unfolding registerFilterOf_def at_key_Cons by simp

lemma addEntry_named: "addEntry entries name ((''EventName'', v) # attributes) = addEntry entries name attributes"
  unfolding addEntry_def addMetricEntry_def metric_entry_def event_entry_def descriptionOf_def
  by (simp add: textOf_named registerFilterOf_named named_key_neutral at_key_Cons del: list.inject)

lemma array_item_step: "item_step (array_item pair) entries = pair_step pair entries"
  by (simp add: item_step_def pair_step_def array_item_def row_name_def at_key_Cons addEntry_named split: option.split)

lemma array_item_fold: "item_step \<circ> array_item = pair_step"
  by (simp add: fun_eq_iff array_item_step)

text \<open>
  A table that maps event names to attributes and the array of rows that names each event itself parse to the same
  entries.
\<close>

theorem both_shapes_hold_the_same_rows:
  assumes "dom_parse shaped = Some (J_OBJECT pairs)" and "dom_parse listed = Some (J_ARRAY (map array_item pairs))"
  shows "parsePadded dom_parse shaped entries = parsePadded dom_parse listed entries"
  using assms by (simp add: parsePadded_def fold_map array_item_fold)

subsection \<open>The fields of an event row\<close>

text \<open>The field one key adds.\<close>

definition key_field :: "string \<times> json \<Rightarrow> field_value list" where
  "key_field attribute = pe_fields (key_step attribute blank_entry)"

lemma add_field_fields: "pe_fields (add_field name number entry) = pe_fields entry @ (case number of None \<Rightarrow> [] | Some n \<Rightarrow> [(name, n)])"
  by (simp add: add_field_def split: option.split)

lemma key_step_fields: "pe_fields (key_step attribute entry) = pe_fields entry @ key_field attribute"
  by (simp add: key_field_def key_step_def Let_def add_field_fields blank_entry_def split: option.split)

lemma fold_key_fields: "pe_fields (fold key_step attributes entry) = pe_fields entry @ concat (map key_field attributes)"
  by (induction attributes arbitrary: entry) (simp_all add: key_step_fields)

definition filter_field :: "register_filter \<Rightarrow> field_value list" where
  "filter_field rf =
     (if rf_value rf = 0 then [] else [(if rf_format rf = [] then kUnnamedRegister else rf_format rf, rf_value rf)])"

lemma event_entry_fields:
  "pe_fields (event_entry name attributes) = concat (map key_field attributes) @ filter_field (registerFilterOf attributes)"
  by (simp add: event_entry_def Let_def filter_field_def add_field_fields fold_key_fields blank_entry_def)

text \<open>
  C13. A row whose words are composed carries its register filter: either the row states no filter, or the index names a
  format the device publishes and every bit of the value stands in the words at that format's positions.  A value whose
  index names no format never reaches the words.
\<close>

theorem composed_row_keeps_its_filter:
  assumes ok: "formats_ok formats" and unpublished: "format_of kUnnamedRegister formats = None"
    and composed: "pmuComposeConfig (pe_fields (event_entry name attributes)) formats = Some (Some ws)"
  shows "rf_value (registerFilterOf attributes) = 0
    \<or> rf_format (registerFilterOf attributes) \<noteq> []
      \<and> field_fits formats (rf_format (registerFilterOf attributes), rf_value (registerFilterOf attributes))
      \<and> (\<forall>w p. field_bit formats (rf_format (registerFilterOf attributes), rf_value (registerFilterOf attributes)) w p \<longrightarrow> word_bit ws w p)"
proof -
  let ?rf = "registerFilterOf attributes"
  let ?f = "(if rf_format ?rf = [] then kUnnamedRegister else rf_format ?rf, rf_value ?rf)"
  let ?fs = "pe_fields (event_entry name attributes)"
  from composed compose_fields_bits [OF ok, of ?fs "[]"]
  have fits: "\<forall>field \<in> set ?fs. field_fits formats field"
    and bits: "\<And>w p. word_bit ws w p \<longleftrightarrow> (\<exists>field \<in> set ?fs. field_bit formats field w p)"
    by (auto simp: pmuComposeConfig_def split: if_splits)
  show ?thesis
  proof (cases "rf_value ?rf = 0")
    case False
    then have f: "?f \<in> set ?fs" by (simp add: event_entry_fields filter_field_def)
    with fits have fit: "field_fits formats ?f" by blast
    with unpublished have "rf_format ?rf \<noteq> []" by (auto simp: field_fits_def)
    with fit bits f show ?thesis by auto
  qed simp
qed

text \<open>The keys that are read by name, dropped or renamed, and so never reach the encoder under their own name.\<close>

definition dropped_keys :: "string list" where
  "dropped_keys = [''Counter'', ''EventName'', ''Description'', ''PublicDescription'', ''BriefDescription'', ''Unit'',
     ''SampleAfterValue'', ''MSRIndex'', ''MSRValue'', ''PEBS'', ''Data_LA'', ''PerPkg'', ''Experimental'', ''Deprecated'']"

definition respelled_keys :: "string list" where
  "respelled_keys = [''CounterMask'', ''Invert'', ''EdgeDetect'', ''OffcoreRsp'', ''AnyThread'', ''PortMask'', ''FCMask'',
     ''RdWrMask'', ''EnAllCores'', ''EnAllSlices'', ''SliceId'', ''ThreadMask'']"

definition renamed_keys :: "string list" where
  "renamed_keys = [''EventCode'', ''UMask'', ''Umask'', ''UMASK_EXT''] @ dropped_keys @ respelled_keys"

definition number_field :: "string \<Rightarrow> u64 option \<Rightarrow> field_value list" where
  "number_field name number = (case number of None \<Rightarrow> [] | Some n \<Rightarrow> [(name, n)])"

lemma key_field_cases:
  "key_field (key, v) =
     (if key = ''EventCode'' then number_field ''event'' (case get_string v of Some t \<Rightarrow> firstIndexOf t | None \<Rightarrow> parseScalar v)
      else if key = ''UMask'' \<or> key = ''Umask'' then number_field ''umask'' (parseScalar v)
      else if key = ''UMASK_EXT'' then number_field ''umask_ext'' (parseScalar v)
      else if key \<in> set dropped_keys then []
      else if kernelSpelling key \<noteq> [] then number_field (kernelSpelling key) (parseScalar v)
      else number_field key (parseScalar v))"
proof -
  have blank: "pe_fields blank_entry = []" by (simp add: blank_entry_def)
  have drops: "key \<in> set dropped_keys \<longleftrightarrow> key = ''Counter''
      \<or> List.member [''EventName'', ''Description'', ''PublicDescription'', ''BriefDescription'', ''Unit''] key
      \<or> carriesNoObligation key \<or> carriesNoConstraint key \<or> isRegisterValue key"
    unfolding dropped_keys_def carriesNoObligation_def carriesNoConstraint_def isRegisterValue_def by auto
  show ?thesis
    unfolding drops key_field_def key_step_def Let_def fst_conv snd_conv
    by (cases "parseScalar v"; cases "key = ''Counter''"; cases "key = ''EventCode''"; cases "key = ''UMASK_EXT''")
      (simp_all add: add_field_fields blank number_field_def split: option.split)
qed

lemmas key_lists = renamed_keys_def dropped_keys_def respelled_keys_def

lemma respelled: "key \<in> set respelled_keys \<Longrightarrow> kernelSpelling key \<noteq> []"
  by (auto simp: respelled_keys_def kernelSpelling_def)

lemma kernel_spellings: "kernelSpelling key \<noteq> [] \<Longrightarrow> kernelSpelling key \<notin> set renamed_keys"
  by (simp add: kernelSpelling_def key_lists)

lemma register_formats: "registerFormat index \<notin> set renamed_keys"
  by (simp add: registerFormat_def key_lists)

lemma unnamed_register: "kUnnamedRegister \<notin> set renamed_keys"
  by (simp add: kUnnamedRegister_def key_lists)

lemma plain_key:
  "key \<noteq> ''EventCode'' \<Longrightarrow> key \<noteq> ''UMask'' \<Longrightarrow> key \<noteq> ''Umask'' \<Longrightarrow> key \<noteq> ''UMASK_EXT'' \<Longrightarrow> key \<notin> set dropped_keys \<Longrightarrow>
   kernelSpelling key = [] \<Longrightarrow> key \<notin> set renamed_keys"
  using respelled [of key] by (auto simp: renamed_keys_def)

lemma number_field_in: "field \<in> set (number_field name number) \<Longrightarrow> fst field = name"
  by (cases number) (simp_all add: number_field_def)

lemma key_field_name:
  assumes "field \<in> set (key_field (key, v))"
  shows "fst field \<notin> set renamed_keys"
proof -
  have named: "x \<notin> set renamed_keys" if "x \<in> {''event'', ''umask'', ''umask_ext''}" for x
    using that by (auto simp: key_lists)
  consider "key = ''EventCode''" | "key = ''UMask'' \<or> key = ''Umask''" | "key = ''UMASK_EXT''" | "key \<in> set dropped_keys"
    | "kernelSpelling key \<noteq> []" | "key \<notin> set renamed_keys" using plain_key by blast
  then show ?thesis
    using assms kernel_spellings named unfolding key_field_cases
    by cases (auto dest!: number_field_in split: if_splits)
qed

text \<open>
  No field of an event row carries a key the reader drops or renames: the encoder sees the kernel's spelling of a
  key, the filter's format, or the table's own name of a key no rule names.
\<close>

theorem row_fields_carry_kernel_names:
  "set (map fst (pe_fields (event_entry name attributes))) \<inter> set renamed_keys = {}"
proof -
  have "fst field \<notin> set renamed_keys" if "field \<in> set (pe_fields (event_entry name attributes))" for field
  proof -
    from that consider a where "a \<in> set attributes" "field \<in> set (key_field a)"
      | "field \<in> set (filter_field (registerFilterOf attributes))" by (auto simp: event_entry_fields)
    then show ?thesis
    proof cases
      case 1
      then show ?thesis using key_field_name by (metis surj_pair)
    next
      case 2
      have "rf_format (registerFilterOf attributes) = [] \<or> (\<exists>i. rf_format (registerFilterOf attributes) = registerFormat i)"
        unfolding registerFilterOf_def Let_def by (auto split: option.split)
      with 2 show ?thesis
        using register_formats unnamed_register by (auto simp: filter_field_def split: if_splits)
    qed
  qed
  then show ?thesis by auto
qed

subsection \<open>The identity\<close>

lemma uint_mod_word: "uint (w :: u32) mod 4294967296 = uint w"
  using uint_bounded [of w] by simp

lemma word_field_mask: "word_field shift (mask n) w = uint w div 2 ^ shift mod 2 ^ n"
  unfolding word_field_def take_bit_eq_mask [symmetric] unsigned_take_bit_eq unsigned_drop_bit_eq
  by (simp add: take_bit_eq_mod drop_bit_eq_div uint_mod_word)

lemma mask_words: "(0xF :: u32) = mask 4" "(0xFF :: u32) = mask 8"
  by (simp_all add: mask_eq_exp_minus_1)

lemma join_nibbles:
  assumes "0 \<le> a" and "a < 16"
  shows "a OR push_bit 4 b = a + 16 * (b :: int)"
proof -
  have "a = take_bit 4 a" using assms by (simp add: take_bit_eq_mod)
  moreover have "take_bit 4 a AND push_bit 4 b = 0" by (rule bit_eqI) (simp add: bit_simps)
  ultimately have "a AND push_bit 4 b = 0" by simp
  with plus_and_or [of a "push_bit 4 b"] show ?thesis by (simp add: push_bit_eq_mult)
qed

lemma packed_digit:
  fixes r :: int
  assumes "0 \<le> r" and "r < k" and "0 \<le> d" and "d < m" and "u = r + k * (d + m * rest)"
  shows "u div k mod m = d"
proof -
  have "u div k = d + m * rest" using assms by simp
  with assms show ?thesis by simp
qed

text \<open>
  A signature word that packs a family, an extended family, a model and a stepping reads back as the sum of the
  families, that model and that stepping.
\<close>

theorem cpu_signature_reads_back:
  assumes answered: "iw_leaf1Answered words"
    and packed: "uint (iw_leaf1Eax words) = stepping + 16 * (model mod 16) + 256 * baseFamily + 65536 * (model div 16) + 1048576 * extFamily"
    and ranges: "0 \<le> stepping \<and> stepping < 16 \<and> 0 \<le> model \<and> model < 256 \<and> 0 \<le> baseFamily \<and> baseFamily < 16
      \<and> 0 \<le> extFamily \<and> extFamily < 256"
  shows "id_family (pmuIdentFromWords words) = baseFamily + extFamily \<and> id_model (pmuIdentFromWords words) = model
    \<and> id_stepping (pmuIdentFromWords words) = stepping"
proof -
  define lo where "lo = model mod 16"
  define hi where "hi = model div 16"
  have model: "model = lo + 16 * hi" "0 \<le> lo" "lo < 16" "0 \<le> hi" "hi < 16"
    using ranges unfolding lo_def hi_def by presburger+
  define u where "u = stepping + 16 * lo + 256 * baseFamily + 65536 * hi + 1048576 * extFamily"
  have eax: "uint (iw_leaf1Eax words) = u" using packed by (simp add: u_def lo_def hi_def)
  have f1: "u div 1 mod 16 = stepping"
    by (rule packed_digit [where r = 0 and rest = "lo + 16 * baseFamily + 4096 * hi + 65536 * extFamily"]) (use ranges in \<open>simp_all add: u_def\<close>)
  have f2: "u div 16 mod 16 = lo"
    by (rule packed_digit [where r = stepping and rest = "baseFamily + 256 * hi + 4096 * extFamily"]) (use ranges model in \<open>simp_all add: u_def\<close>)
  have f3: "u div 256 mod 16 = baseFamily"
    by (rule packed_digit [where r = "stepping + 16 * lo" and rest = "16 * hi + 256 * extFamily"]) (use ranges model in \<open>simp_all add: u_def\<close>)
  have f4: "u div 65536 mod 16 = hi"
    by (rule packed_digit [where r = "stepping + 16 * lo + 256 * baseFamily" and rest = extFamily]) (use ranges model in \<open>simp_all add: u_def\<close>)
  have f5: "u div 1048576 mod 256 = extFamily"
    by (rule packed_digit [where r = "stepping + 16 * lo + 256 * baseFamily + 65536 * hi" and rest = 0]) (use ranges model in \<open>simp_all add: u_def\<close>)
  note unpack = mask_words word_field_mask eax
  have stepping_bits: "word_field 0 0xF (iw_leaf1Eax words) = stepping" unfolding unpack using f1 by simp
  have model_bits: "word_field 4 0xF (iw_leaf1Eax words) = lo" unfolding unpack using f2 by simp
  have family_bits: "word_field 8 0xF (iw_leaf1Eax words) = baseFamily" unfolding unpack using f3 by simp
  have high_model_bits: "word_field 16 0xF (iw_leaf1Eax words) = hi" unfolding unpack using f4 by simp
  have high_family_bits: "word_field 20 0xFF (iw_leaf1Eax words) = extFamily" unfolding unpack using f5 by simp
  have "lo OR push_bit 4 hi = model" using join_nibbles [of lo hi] model by simp
  then show ?thesis
    unfolding pmuIdentFromWords_def Let_def stepping_bits model_bits family_bits high_model_bits high_family_bits if_P [OF answered] by simp
qed


subsection \<open>Scalars and patterns\<close>

lemma upper_digit_value: "d < 16 \<Longrightarrow> is_xdigit (upper_digit d) \<and> digit_value (upper_digit d) = d"
proof -
  have "\<forall>d \<in> set [0..<16]. is_xdigit (upper_digit d) \<and> digit_value (upper_digit d) = d"
    by (simp add: upt_rec upper_digit_def is_xdigit_def digit_value_def is_digit_def is_upper_def)
  then show "d < 16 \<Longrightarrow> is_xdigit (upper_digit d) \<and> digit_value (upper_digit d) = d" by simp
qed

lemma upper_hex_reads: "list_all is_xdigit (upper_hex n) \<and> digits_value 16 (upper_hex n) = n \<and> upper_hex n \<noteq> []"
proof (induction n rule: upper_hex.induct)
  case (1 n)
  show ?case
  proof (cases "n < 16")
    case True
    then show ?thesis by (subst (1 2 3) upper_hex.simps) (simp add: upper_digit_value digits_value_def)
  next
    case False
    with 1 show ?thesis
      by (subst (1 2 3) upper_hex.simps) (simp add: upper_digit_value digits_value_snoc)
  qed
qed

lemma from_chars_all:
  assumes "list_all (base_digit base) s" and "s \<noteq> []" and "digits_value base s < 2 ^ 64"
  shows "from_chars_u64 base s = Some (of_nat (digits_value base s), [])"
proof -
  have tw: "takeWhile (base_digit base) s = s" "dropWhile (base_digit base) s = []"
    using assms(1) by (auto simp: list_all_iff)
  show ?thesis unfolding from_chars_u64_def Let_def tw using assms(2,3) by simp
qed

lemma decimal_scalar: "n < 2 ^ 64 \<Longrightarrow> scalar_text (decimal n) = Some (of_nat n)"
proof -
  assume n: "n < 2 ^ 64"
  have digits: "list_all is_digit (decimal n)" using decimal_digits by (simp add: list_all_iff)
  have no: "\<not> starts_with (decimal n) (CHR ''0'' # c # [])" if "\<not> is_digit c" for c
    using digits that by (auto simp: starts_with_iff)
  have "from_chars_u64 10 (decimal n) = Some (of_nat n, [])"
    using from_chars_all [of 10 "decimal n"] digits n by (simp add: list_all_iff base_digit_def)
  with no [of "CHR ''x''"] no [of "CHR ''X''"] show ?thesis by (simp add: scalar_text_def is_digit_def)
qed

lemma hex_scalar: "n < 2 ^ 64 \<Longrightarrow> scalar_text (''0x'' @ upper_hex n) = Some (of_nat n)"
  using from_chars_all [of 16 "upper_hex n"] upper_hex_reads [of n]
  by (simp add: scalar_text_def base_digit_def starts_with_def list_all_iff)

text \<open>A number within \<open>std::uint64_t\<close> reads back from its decimal and from its hexadecimal spelling.\<close>

theorem scalars_read_back:
  assumes "n < 2 ^ 64"
  shows "parseScalar (J_STRING (decimal n)) = Some (of_nat n) \<and> parseScalar (J_STRING (''0x'' @ upper_hex n)) = Some (of_nat n)"
  using decimal_scalar [OF assms] hex_scalar [OF assms] by (simp add: parseScalar_def)

lemma toEcma_plain: "CHR ''['' \<notin> set p \<Longrightarrow> toEcma (p @ q) = p @ toEcma q"
proof (induction p)
  case (Cons c p)
  then have "\<not> starts_with (c # p @ q) ''[[''" by (auto simp: starts_with_def)
  then have "class_at (c # p @ q) = None" by (simp add: class_at_def)
  with Cons show ?case by (simp add: toEcma.simps [of "c # p @ q"])
qed simp

lemma find_close_first: "CHR '']'' \<notin> set p \<Longrightarrow> find_close (p @ '']]'' @ q) = Some (length p)"
  by (induction p) (auto simp: starts_with_def)

lemma class_names: "map_of kClassName name = Some body \<Longrightarrow> CHR '']'' \<notin> set name \<and> name \<noteq> []"
  by (drule map_of_SomeD) (auto simp: kClassName_def)

text \<open>A class after plain text becomes a bracket of the body the table gives it.\<close>

theorem posix_class_is_translated:
  assumes plain: "CHR ''['' \<notin> set p" and named: "map_of kClassName name = Some body"
  shows "toEcma (p @ ''[[:'' @ name @ '':]]'' @ q) = p @ ''['' @ body @ '']'' @ toEcma q"
proof -
  let ?s = "''[[:'' @ name @ '':]]'' @ q"
  have "find_close ((''[:'' @ name @ '':'') @ '']]'' @ q) = Some (length (''[:'' @ name @ '':''))"
    by (rule find_close_first) (use class_names [OF named] in simp)
  then have "class_at ?s = Some (body, length name + 6)"
    using class_names [OF named] named by (simp add: class_at_def starts_with_def substr_def)
  moreover have "drop (length name + 6) ?s = q"
  proof -
    have drops: "drop (length x) (x @ q) = q" for x :: string by simp
    have "?s = (''[[:'' @ name @ '':]]'') @ q" and len: "length name + 6 = length (''[[:'' @ name @ '':]]'')" by simp_all
    then show ?thesis using drops [of "''[[:'' @ name @ '':]]''"] by (simp only: len append_assoc)
  qed
  ultimately have "toEcma ?s = ''['' @ body @ '']'' @ toEcma q"
    by (simp add: toEcma.simps [of "CHR ''['' # t" for t] del: drop_append)
  then show ?thesis by (simp add: toEcma_plain [OF plain])
qed

text \<open>A class inside a longer bracket keeps the POSIX spelling.\<close>

lemma negated_class_is_left: "toEcma ''[^[:digit:]]'' = ''[^[:digit:]]''"
  by (simp add: toEcma.simps class_at_def starts_with_def)

subsection \<open>Samples\<close>

definition latency_row :: json_object where
  "latency_row = [(''EventCode'', J_STRING ''0xcd''), (''UMask'', J_STRING ''0x1''), (''MSRValue'', J_STRING ''0x3''),
     (''MSRIndex'', J_STRING ''0x3F6''), (''SampleAfterValue'', J_STRING ''100003'')]"

definition latency_formats :: "field_format list" where
  "latency_formats = (''ldlat'', [\<lparr>configWord = 1, low = 0, high = 15\<rparr>]) # core_formats"

lemmas read_scalars = firstIndexOf_def trim_blanks_def blank_or_tab_def find_char_def scalar_text_def from_chars_u64_def base_digit_def
  digits_value_def digit_value_def is_xdigit_def is_digit_def is_upper_def starts_with_def parseScalar_def Let_def

lemma latency_numbers: "firstIndexOf ''0xcd'' = Some 0xCD" "parseScalar (J_STRING ''0x1'') = Some 1"
  "parseScalar (J_STRING ''0x3'') = Some 3" "firstIndexOf ''0x3F6'' = Some 0x3F6"
  by (simp_all add: read_scalars)

lemma latency_filter: "registerFilterOf latency_row = \<lparr>rf_value = 3, rf_format = ''ldlat'', rf_present = True, rf_unnamed = False\<rparr>"
  by (simp add: registerFilterOf_def latency_row_def at_key_def latency_numbers registerFormat_def)

lemma latency_fields: "pe_fields (event_entry ''loads'' latency_row) = [(''event'', 0xCD), (''umask'', 1), (''ldlat'', 3)]"
  by (simp add: event_entry_fields filter_field_def latency_filter)
    (simp add: latency_row_def key_field_cases number_field_def latency_numbers dropped_keys_def kernelSpelling_def)

lemma latency_formats_ok: "formats_ok latency_formats" "format_of kUnnamedRegister latency_formats = None"
  using core_formats_ok
  by (simp_all add: formats_ok_def latency_formats_def range_ok_def range_positions_def format_of_def kUnnamedRegister_def core_formats_def)

lemma latency_words: "pmuComposeConfig [(''event'', 0xCD), (''umask'', 1), (''ldlat'', 3)] latency_formats = Some (Some [(0, 0x1CD), (1, 3)])"
  by (simp add: pmuComposeConfig_def latency_formats_def format_of_def core_formats_def range_width_def range_capacity_def)

theorem composed_row_keeps_its_filter_witness:
  "\<exists>ws. pmuComposeConfig (pe_fields (event_entry ''loads'' latency_row)) latency_formats = Some (Some ws)
    \<and> word_bit ws 1 0 \<and> word_bit ws 1 1"
proof -
  have f: "format_of ''ldlat'' latency_formats = Some [\<lparr>configWord = 1, low = 0, high = 15\<rparr>]"
    by (simp add: format_of_def latency_formats_def)
  have c: "pmuComposeConfig (pe_fields (event_entry ''loads'' latency_row)) latency_formats = Some (Some [(0, 0x1CD), (1, 3)])"
    by (simp add: latency_fields latency_words)
  from composed_row_keeps_its_filter [OF latency_formats_ok c]
  have "\<forall>w p. field_bit latency_formats (''ldlat'', 3) w p \<longrightarrow> word_bit [(0, 0x1CD), (1, 3)] w p"
    by (simp add: latency_filter)
  moreover have "field_bit latency_formats (''ldlat'', 3) 1 0" "field_bit latency_formats (''ldlat'', 3) 1 1"
    by (simp_all add: field_bit_search f range_positions_def upt_rec)
  ultimately show ?thesis using c by blast
qed

definition sample_reader :: json_reader where
  "sample_reader = (\<lambda>bytes.
     if bytes = ''pairs'' then Some (J_OBJECT [(''loads'', J_OBJECT latency_row), (''note'', J_INT 7)])
     else if bytes = ''items'' then Some (J_ARRAY (map array_item [(''loads'', J_OBJECT latency_row), (''note'', J_INT 7)]))
     else None)"

theorem both_shapes_hold_the_same_rows_witness:
  "parsePadded sample_reader ''pairs'' [] = parsePadded sample_reader ''items'' [] \<and> length (parsePadded sample_reader ''pairs'' []) = 1"
proof
  show "parsePadded sample_reader ''pairs'' [] = parsePadded sample_reader ''items'' []"
    by (rule both_shapes_hold_the_same_rows [where pairs = "[(''loads'', J_OBJECT latency_row), (''note'', J_INT 7)]"])
      (simp_all add: sample_reader_def)
  show "length (parsePadded sample_reader ''pairs'' []) = 1"
    by (simp add: sample_reader_def parsePadded_def pair_step_def addEntry_def addMetricEntry_def)
qed

theorem cpu_signature_reads_back_witness:
  "id_model (pmuIdentFromWords \<lparr>iw_leaf0Eax = 0, iw_leaf0Ebx = 0, iw_leaf0Edx = 0, iw_leaf0Ecx = 0, iw_leaf1Answered = True,
     iw_leaf1Eax = 0x50654\<rparr>) = 0x55"
  using cpu_signature_reads_back [where words = "\<lparr>iw_leaf0Eax = 0, iw_leaf0Ebx = 0, iw_leaf0Edx = 0, iw_leaf0Ecx = 0,
      iw_leaf1Answered = True, iw_leaf1Eax = 0x50654\<rparr>"
      and stepping = 4 and model = "0x55" and baseFamily = 6 and extFamily = 0] by simp

end
