(* ===== verification/Hunt_Stamp.thy ===== *)
theory Hunt_Stamp
  imports Hunt Compare
begin

text \<open>
  The stamps on the ranked events of a run (\<open>source/harness/hunt_ranks.cpp\<close>): the families of entries and their points,
  the sensitivity figures, the baseline rates, the delta, and the ranks under the two batch keys.  An entry is the part of
  \<open>BenchmarkResult\<close> the stamps read or write.  A stamp on an entry without a hunt record, a failed contract, and a sort by
  a NaN key are \<open>None\<close>.
\<close>

subsection \<open>Entries\<close>

record hunted_result =
  hr_name :: string
  hr_suite :: string
  hr_rows :: "report_row list"
  hr_hunt :: "entry_hunt option"

definition familyKey :: "hunted_result \<Rightarrow> string" where
  "familyKey result = hr_suite result"

definition aggregateTime :: "hunted_result \<Rightarrow> binary64 option" where
  "aggregateTime result =
     (case List.find (\<lambda>rw. rw_kind (rr_copied rw) = K_AGGREGATE) (hr_rows result) of
        Some rw \<Rightarrow>
          Some (if st_samples (rw_timeStats (rr_copied rw)) > 0 then st_median (rw_timeStats (rr_copied rw))
                else rr_timePerIterationNs rw)
      | None \<Rightarrow>
          map_option rr_timePerIterationNs (List.find (\<lambda>rw. rw_kind (rr_copied rw) = K_REPETITION) (rev (hr_rows result))))"

subsection \<open>Families\<close>

type_synonym point = "binary64 \<times> binary64"

record family_build =
  fb_entries :: "nat list"
  fb_events :: "(string, point list) omap"

definition append_point :: "binary64 \<Rightarrow> ranked_event \<Rightarrow> (string, point list) omap \<Rightarrow> (string, point list) omap" where
  "append_point time event events =
     om_assign (re_address event)
       ((case om_find events (re_address event) of None \<Rightarrow> [] | Some ps \<Rightarrow> ps) @ [(time, re_rate event)]) events"

definition group_step ::
  "hunted_result \<Rightarrow> nat \<Rightarrow> family_build list \<times> (string, nat) omap \<Rightarrow> (family_build list \<times> (string, nat) omap) checked" where
  "group_step result entry state =
     (case hr_hunt result of
        None \<Rightarrow> None
      | Some hunt \<Rightarrow>
          let found = om_find (snd state) (familyKey result);
              slot = (case found of None \<Rightarrow> length (fst state) | Some i \<Rightarrow> i);
              families = (if found = None then fst state @ [\<lparr>fb_entries = [], fb_events = []\<rparr>] else fst state);
              index = om_emplace (familyKey result) (length (fst state)) (snd state)
          in case aggregateTime result of
               None \<Rightarrow> Some (families, index)
             | Some time \<Rightarrow>
                 Some (families[slot := \<lparr>fb_entries = fb_entries (families ! slot) @ [entry],
                     fb_events = fold (append_point time) (eh_entries hunt) (fb_events (families ! slot))\<rparr>], index))"

fun group_loop ::
  "hunted_result list \<Rightarrow> nat \<Rightarrow> family_build list \<times> (string, nat) omap \<Rightarrow> (family_build list \<times> (string, nat) omap) checked" where
  "group_loop [] entry state = Some state"
| "group_loop (r # rs) entry state = Option.bind (group_step r entry state) (group_loop rs (Suc entry))"

definition groupEntries :: "hunted_result list \<Rightarrow> family_build list checked" where
  "groupEntries results = map_option fst (group_loop results 0 ([], []))"

definition familyGroups :: "hunted_result list \<Rightarrow> (string, point list) omap list checked" where
  "familyGroups results = map_option (map fb_events) (groupEntries results)"

subsection \<open>The sensitivity stamp\<close>

definition stamp_event :: "binary64 \<Rightarrow> binary64 \<Rightarrow> string \<Rightarrow> ranked_event \<Rightarrow> ranked_event" where
  "stamp_event correlation slope addr event =
     (if re_address event = addr
      then event\<lparr>re_sensitivityCorrelation := Some correlation, re_sensitivitySlope := Some slope\<rparr> else event)"

definition map_events :: "(ranked_event \<Rightarrow> ranked_event) \<Rightarrow> hunted_result \<Rightarrow> hunted_result" where
  "map_events f result = result\<lparr>hr_hunt := map_option (\<lambda>h. h\<lparr>eh_entries := map f (eh_entries h)\<rparr>) (hr_hunt result)\<rparr>"

definition stamp_entries :: "(ranked_event \<Rightarrow> ranked_event) \<Rightarrow> nat list \<Rightarrow> hunted_result list \<Rightarrow> hunted_result list" where
  "stamp_entries f entries results = fold (\<lambda>entry rs. rs[entry := map_events f (rs ! entry)]) entries results"

definition stamp_address :: "nat list \<Rightarrow> string \<times> point list \<Rightarrow> hunted_result list \<Rightarrow> hunted_result list checked" where
  "stamp_address entries event results =
     (case (spearmanCorrelation (snd event), leastSquaresSlope (snd event)) of
        (Some (Some correlation), Some (Some slope)) \<Rightarrow> Some (stamp_entries (stamp_event correlation slope (fst event)) entries results)
      | (Some _, Some _) \<Rightarrow> Some results
      | _ \<Rightarrow> None)"

fun fold_checked :: "('a \<Rightarrow> 'b \<Rightarrow> 'b checked) \<Rightarrow> 'a list \<Rightarrow> 'b \<Rightarrow> 'b checked" where
  "fold_checked f [] s = Some s"
| "fold_checked f (x # xs) s = Option.bind (f x s) (fold_checked f xs)"

definition stamp_family :: "family_build \<Rightarrow> hunted_result list \<Rightarrow> hunted_result list checked" where
  "stamp_family family results = fold_checked (stamp_address (fb_entries family)) (fb_events family) results"

definition stampSensitivity :: "hunted_result list \<Rightarrow> hunted_result list checked" where
  "stampSensitivity results = Option.bind (groupEntries results) (\<lambda>families. fold_checked stamp_family families results)"

subsection \<open>The baseline\<close>

definition huntNormWord :: "hunt_norm \<Rightarrow> string" where
  "huntNormWord nrm = (case nrm of INSTR \<Rightarrow> ''instr'' | CYCLE \<Rightarrow> ''cycle'' | ITER \<Rightarrow> ''iter'')"

fun place_rates :: "ranked_event list \<Rightarrow> (string, binary64) omap \<Rightarrow> (string, binary64) omap checked" where
  "place_rates [] rates = Some rates"
| "place_rates (e # es) rates =
     (if om_contains rates (re_address e) then None else place_rates es (om_emplace (re_address e) (re_rate e) rates))"

definition baselineHuntRates :: "hunted_result list \<Rightarrow> string \<Rightarrow> (string, binary64) omap checked" where
  "baselineHuntRates baseline matchedName =
     (case List.find (\<lambda>r. hr_name r = matchedName) baseline of
        None \<Rightarrow> Some []
      | Some matched \<Rightarrow> (case hr_hunt matched of None \<Rightarrow> Some [] | Some hunt \<Rightarrow> place_rates (eh_entries hunt) []))"

text \<open>The norm of the baseline is \<open>None\<close> where its document carries no hunt object or the object no norm.\<close>

definition baselineNormMismatch :: "hunt_norm option \<Rightarrow> hunt_norm \<Rightarrow> string option" where
  "baselineNormMismatch baselineNorm settled =
     (case baselineNorm of
        None \<Rightarrow> None
      | Some nrm \<Rightarrow>
          if nrm = settled then None
          else Some (''the baseline hunt norm '' @ quoted (huntNormWord nrm) @ '' does not pair with the run'' @ CHR 0x27
            # ''s settled norm '' @ quoted (huntNormWord settled)))"

text \<open>The loader is the one the settlement read the same document with; its refusal breaks the contract.\<close>

definition loadHuntBaseline :: "(string \<Rightarrow> string + 'd) \<Rightarrow> string \<Rightarrow> 'd checked" where
  "loadHuntBaseline load path = (case load path of Inl _ \<Rightarrow> None | Inr document \<Rightarrow> Some document)"

definition delta_event :: "(string, binary64) omap \<Rightarrow> ranked_event \<Rightarrow> ranked_event" where
  "delta_event baseline event =
     (case om_find baseline (re_address event) of
        None \<Rightarrow> event
      | Some base \<Rightarrow>
          if \<not> dless zero64 base \<and> base \<noteq> NaN then event
          else event\<lparr>re_delta := Some (ddiv (dmul hundred64 (dsub (re_rate event) base)) base)\<rparr>)"

definition stampDelta :: "hunted_result list \<Rightarrow> (string, binary64) omap \<Rightarrow> hunted_result list checked" where
  "stampDelta results baseline =
     (if list_ex (\<lambda>r. hr_hunt r = None) results then None else Some (map (map_events (delta_event baseline)) results))"

subsection \<open>The ranks\<close>

record candidate =
  cd_address :: string
  cd_correlation :: binary64
  cd_slope :: binary64
  cd_delta :: binary64

definition or_zero :: "binary64 option \<Rightarrow> binary64" where
  "or_zero x = (case x of None \<Rightarrow> zero64 | Some v \<Rightarrow> v)"

definition candidate_of :: "ranked_event \<Rightarrow> candidate" where
  "candidate_of event =
     \<lparr>cd_address = re_address event, cd_correlation = or_zero (re_sensitivityCorrelation event),
      cd_slope = or_zero (re_sensitivitySlope event), cd_delta = or_zero (re_delta event)\<rparr>"

definition carries_figure :: "bool \<Rightarrow> ranked_event \<Rightarrow> bool" where
  "carries_figure bySensitivity event \<longleftrightarrow>
     (if bySensitivity then re_sensitivityCorrelation event \<noteq> None else re_delta event \<noteq> None)"

definition collect_event ::
  "bool \<Rightarrow> ranked_event \<Rightarrow> candidate list \<times> (string, nat) omap \<Rightarrow> (candidate list \<times> (string, nat) omap) checked" where
  "collect_event bySensitivity event state =
     (if re_noisy event \<or> \<not> carries_figure bySensitivity event then Some state
      else if bySensitivity \<and> re_sensitivitySlope event = None then None
      else if om_contains (snd state) (re_address event) then Some state
      else Some (fst state @ [candidate_of event], om_emplace (re_address event) (length (fst state)) (snd state)))"

definition collect_result ::
  "bool \<Rightarrow> hunted_result \<Rightarrow> candidate list \<times> (string, nat) omap \<Rightarrow> (candidate list \<times> (string, nat) omap) checked" where
  "collect_result bySensitivity result state =
     (case hr_hunt result of None \<Rightarrow> None | Some hunt \<Rightarrow> fold_checked (collect_event bySensitivity) (eh_entries hunt) state)"

text \<open>The comparator of the sort.\<close>

definition candidate_before :: "bool \<Rightarrow> candidate \<Rightarrow> candidate \<Rightarrow> bool" where
  "candidate_before bySensitivity lhs rhs =
     (if bySensitivity then
        (if dless (cd_correlation rhs) (cd_correlation lhs) then True
         else if dless (cd_correlation lhs) (cd_correlation rhs) then False
         else if dless (cd_slope rhs) (cd_slope lhs) then True
         else if dless (cd_slope lhs) (cd_slope rhs) then False
         else cd_address lhs < cd_address rhs)
      else if dless (dabs (cd_delta rhs)) (dabs (cd_delta lhs)) then True
      else if dless (dabs (cd_delta lhs)) (dabs (cd_delta rhs)) then False
      else cd_address lhs < cd_address rhs)"

definition numeric :: "bool \<Rightarrow> candidate \<Rightarrow> bool" where
  "numeric bySensitivity c \<longleftrightarrow>
     (if bySensitivity then cd_correlation c \<noteq> NaN \<and> cd_slope c \<noteq> NaN else cd_delta c \<noteq> NaN)"

definition rank_map :: "candidate list \<Rightarrow> (string, nat) omap" where
  "rank_map candidates = fold (\<lambda>i m. om_emplace (cd_address (candidates ! i)) (i + 1) m) [0..<length candidates] []"

definition rank_event :: "(string, nat) omap \<Rightarrow> ranked_event \<Rightarrow> ranked_event" where
  "rank_event rankOf event =
     event\<lparr>re_rank := (if re_noisy event then None else om_find rankOf (re_address event))\<rparr>"

definition stampRank :: "hunted_result list \<Rightarrow> hunt_rank \<Rightarrow> hunted_result list checked" where
  "stampRank results key =
     (if key \<noteq> SENSITIVITY \<and> key \<noteq> DELTA then None
      else
        let bySensitivity = (key = SENSITIVITY)
        in case fold_checked (collect_result bySensitivity) results ([], []) of
             None \<Rightarrow> None
           | Some (candidates, index) \<Rightarrow>
               if length candidates > 1 \<and> \<not> list_all (numeric bySensitivity) candidates then None
               else Some (map (map_events (rank_event (rank_map (sort_by (candidate_before bySensitivity) candidates)))) results))"

end
