(* ===== verification/Hunt_Stamp_Facts.thy ===== *)
theory Hunt_Stamp_Facts
  imports Hunt_Stamp Hunt_Rank
begin

text \<open>
  Facts on the stamps: the sensitivity figures are those of the points of an event over the entries of its suite, and the
  ranks are the positions of the ranked addresses in the order of their figures.
\<close>

subsection \<open>Loops over entries\<close>

definition events_of :: "hunted_result \<Rightarrow> ranked_event list" where
  "events_of result = (case hr_hunt result of None \<Rightarrow> [] | Some h \<Rightarrow> eh_entries h)"

definition hunted :: "hunted_result \<Rightarrow> bool" where
  "hunted result \<longleftrightarrow> hr_hunt result \<noteq> None"

lemma hunted_entries: "hunted r \<Longrightarrow> \<exists>h. hr_hunt r = Some h \<and> events_of r = eh_entries h"
  by (auto simp: hunted_def events_of_def)

lemma fold_checked_append: "fold_checked f (xs @ ys) s = Option.bind (fold_checked f xs s) (fold_checked f ys)"
proof (induction xs arbitrary: s)
  case (Cons x xs)
  then show ?case by (cases "f x s") simp_all
qed simp

lemma map_events_id: "map_events (\<lambda>e. e) r = r"
  by (cases r; cases "hr_hunt r") (simp_all add: map_events_def)

lemma map_events_comp: "map_events g (map_events f r) = map_events (\<lambda>e. g (f e)) r"
  by (cases "hr_hunt r") (simp_all add: map_events_def comp_def)

lemma map_events_keeps [simp]: "hr_suite (map_events f r) = hr_suite r" "hr_rows (map_events f r) = hr_rows r"
  "hunted (map_events f r) = hunted r"
  by (simp_all add: map_events_def hunted_def)

lemma map_events_cong: "(\<And>e. e \<in> set (events_of r) \<Longrightarrow> f e = g e) \<Longrightarrow> map_events f r = map_events g r"
  by (cases "hr_hunt r") (simp_all add: map_events_def events_of_def)

lemma length_stamp_entries [simp]: "length (stamp_entries f entries rs) = length rs"
  unfolding stamp_entries_def by (induction entries arbitrary: rs) simp_all

lemma nth_stamp_entries:
  assumes "distinct entries" and "i < length rs"
  shows "stamp_entries f entries rs ! i = (if i \<in> set entries then map_events f (rs ! i) else rs ! i)"
  using assms unfolding stamp_entries_def
proof (induction entries arbitrary: rs)
  case (Cons k entries)
  then show ?case by (cases "i = k") simp_all
qed simp

lemma stamp_entries_twice:
  "distinct entries \<Longrightarrow> stamp_entries g entries (stamp_entries f entries rs) = stamp_entries (\<lambda>e. g (f e)) entries rs"
  by (rule nth_equalityI) (simp_all add: nth_stamp_entries map_events_comp)

lemma stamp_entries_id: "distinct entries \<Longrightarrow> stamp_entries (\<lambda>e. e) entries rs = rs"
  by (rule nth_equalityI) (simp_all add: nth_stamp_entries map_events_id)

subsection \<open>The stamp of one family\<close>

definition answers :: "point list \<Rightarrow> bool" where
  "answers ps \<longleftrightarrow> spearmanCorrelation ps \<noteq> None \<and> leastSquaresSlope ps \<noteq> None"

text \<open>The two figures of a point list on one event.\<close>

definition stamp_points :: "point list \<Rightarrow> ranked_event \<Rightarrow> ranked_event" where
  "stamp_points ps event =
     (case (spearmanCorrelation ps, leastSquaresSlope ps) of
        (Some (Some c), Some (Some s)) \<Rightarrow> event\<lparr>re_sensitivityCorrelation := Some c, re_sensitivitySlope := Some s\<rparr>
      | _ \<Rightarrow> event)"

lemma stamp_points_address [simp]: "re_address (stamp_points ps event) = re_address event"
  by (auto simp: stamp_points_def split: option.splits)

lemma stamp_address_answers:
  assumes "answers (snd event)" and "distinct entries"
  shows "stamp_address entries event rs
    = Some (stamp_entries (\<lambda>e. if re_address e = fst event then stamp_points (snd event) e else e) entries rs)"
proof -
  from assms(1) obtain x y where xy: "spearmanCorrelation (snd event) = Some x" "leastSquaresSlope (snd event) = Some y"
    by (auto simp: answers_def)
  show ?thesis
    by (cases x; cases y) (simp_all add: stamp_address_def xy stamp_points_def stamp_event_def [abs_def] stamp_entries_id [OF assms(2)] cong: if_cong)
qed

definition stamp_by :: "(string, point list) omap \<Rightarrow> ranked_event \<Rightarrow> ranked_event" where
  "stamp_by events event = (case om_find events (re_address event) of None \<Rightarrow> event | Some ps \<Rightarrow> stamp_points ps event)"

lemma stamp_by_Cons:
  assumes "om_find events a = None"
  shows "stamp_by events (if re_address e = a then stamp_points ps e else e) = stamp_by ((a, ps) # events) e"
  using assms by (auto simp: stamp_by_def om_find_Cons split: option.split)

lemma stamp_family_answers:
  assumes "distinct (map fst events)" and "\<forall>event \<in> set events. answers (snd event)" and "distinct entries"
  shows "fold_checked (stamp_address entries) events rs = Some (stamp_entries (stamp_by events) entries rs)"
  using assms(1,2)
proof (induction events arbitrary: rs)
  case Nil
  have "stamp_by [] = (\<lambda>e. e)" by (simp add: stamp_by_def fun_eq_iff)
  then show ?case by (simp add: stamp_entries_id [OF assms(3)])
next
  case (Cons event events)
  obtain a ps where event: "event = (a, ps)" by force
  have fresh: "om_find events a = None" using Cons.prems by (simp add: event om_find_def map_of_eq_None_iff)
  have "answers (snd event)" using Cons.prems by simp
  then show ?case
    using Cons.IH Cons.prems stamp_address_answers [of event entries] assms(3)
    by (simp add: stamp_entries_twice stamp_by_Cons [OF fresh] event)
qed

text \<open>Families of disjoint entries.\<close>

definition families_ok :: "family_build list \<Rightarrow> bool" where
  "families_ok fams \<longleftrightarrow>
     (\<forall>f \<in> set fams. distinct (fb_entries f) \<and> om_wf (fb_events f) \<and> (\<forall>event \<in> set (fb_events f). answers (snd event)))
     \<and> sorted_wrt (\<lambda>f g. set (fb_entries f) \<inter> set (fb_entries g) = {}) fams"

lemma stamp_families:
  assumes "families_ok fams"
  shows "\<exists>out. fold_checked stamp_family fams rs = Some out \<and> length out = length rs
    \<and> (\<forall>k < length rs.
        (\<forall>f \<in> set fams. k \<in> set (fb_entries f) \<longrightarrow> out ! k = map_events (stamp_by (fb_events f)) (rs ! k))
        \<and> ((\<forall>f \<in> set fams. k \<notin> set (fb_entries f)) \<longrightarrow> out ! k = rs ! k))"
  using assms
proof (induction fams arbitrary: rs)
  case Nil
  then show ?case by simp
next
  case (Cons f fams)
  have f: "distinct (fb_entries f)" "distinct (map fst (fb_events f))" "\<forall>event \<in> set (fb_events f). answers (snd event)"
    using Cons.prems om_wf_distinct by (auto simp: families_ok_def)
  have apart: "set (fb_entries f) \<inter> set (fb_entries g) = {}" if "g \<in> set fams" for g
    using Cons.prems that by (simp add: families_ok_def)
  let ?rs = "stamp_entries (stamp_by (fb_events f)) (fb_entries f) rs"
  have one: "stamp_family f rs = Some ?rs"
    unfolding stamp_family_def by (rule stamp_family_answers) (use f in simp_all)
  from Cons.prems have "families_ok fams" by (simp add: families_ok_def)
  from Cons.IH [OF this, of ?rs] obtain out where out: "fold_checked stamp_family fams ?rs = Some out"
    "length out = length rs"
    "\<And>k. k < length rs \<Longrightarrow> (\<forall>g \<in> set fams. k \<in> set (fb_entries g) \<longrightarrow> out ! k = map_events (stamp_by (fb_events g)) (?rs ! k))
        \<and> ((\<forall>g \<in> set fams. k \<notin> set (fb_entries g)) \<longrightarrow> out ! k = ?rs ! k)" by auto
  have nth: "?rs ! k = (if k \<in> set (fb_entries f) then map_events (stamp_by (fb_events f)) (rs ! k) else rs ! k)"
    if "k < length rs" for k using nth_stamp_entries [OF f(1) that] .
  have "(\<forall>g \<in> set (f # fams). k \<in> set (fb_entries g) \<longrightarrow> out ! k = map_events (stamp_by (fb_events g)) (rs ! k))
      \<and> ((\<forall>g \<in> set (f # fams). k \<notin> set (fb_entries g)) \<longrightarrow> out ! k = rs ! k)" if k: "k < length rs" for k
  proof (cases "k \<in> set (fb_entries f)")
    case True
    with apart have "\<forall>g \<in> set fams. k \<notin> set (fb_entries g)" by blast
    with out(3) [OF k] nth [OF k] True show ?thesis by auto
  next
    case False
    with out(3) [OF k] nth [OF k] show ?thesis by auto
  qed
  with one out(1,2) show ?case by auto
qed

subsection \<open>The families of a run\<close>

text \<open>The points of one address over the entries of one suite that carry a time, in the order of the run.\<close>

definition entry_points :: "string \<Rightarrow> hunted_result \<Rightarrow> point list" where
  "entry_points addr r =
     (case aggregateTime r of
        None \<Rightarrow> []
      | Some t \<Rightarrow> map (\<lambda>e. (t, re_rate e)) (filter (\<lambda>e. re_address e = addr) (events_of r)))"

definition family_points :: "hunted_result list \<Rightarrow> string \<Rightarrow> string \<Rightarrow> point list" where
  "family_points rs suite addr = concat (map (entry_points addr) (filter (\<lambda>r. hr_suite r = suite) rs))"

definition members :: "hunted_result list \<Rightarrow> string \<Rightarrow> nat list" where
  "members rs suite = filter (\<lambda>k. hr_suite (rs ! k) = suite \<and> aggregateTime (rs ! k) \<noteq> None) [0..<length rs]"

lemma family_points_snoc:
  "family_points (rs @ [r]) suite addr = family_points rs suite addr @ (if hr_suite r = suite then entry_points addr r else [])"
  by (simp add: family_points_def)

lemma members_snoc:
  "members (rs @ [r]) suite = members rs suite @ (if hr_suite r = suite \<and> aggregateTime r \<noteq> None then [length rs] else [])"
proof -
  have "filter (\<lambda>k. hr_suite ((rs @ [r]) ! k) = suite \<and> aggregateTime ((rs @ [r]) ! k) \<noteq> None) [0..<length rs] = members rs suite"
    unfolding members_def by (rule filter_cong) (simp_all add: nth_append)
  then show ?thesis by (simp add: members_def)
qed

lemma fold_append_points:
  assumes "om_wf events"
  shows "om_wf (fold (append_point t) es events) \<and>
    om_find (fold (append_point t) es events) addr =
      (let fresh = map (\<lambda>e. (t, re_rate e)) (filter (\<lambda>e. re_address e = addr) es)
       in if fresh = [] then om_find events addr
          else Some ((case om_find events addr of None \<Rightarrow> [] | Some ps \<Rightarrow> ps) @ fresh))"
  using assms
proof (induction es arbitrary: events)
  case (Cons e es)
  have wf: "om_wf (append_point t e events)" using Cons.prems by (simp add: append_point_def om_wf_assign)
  show ?case
    using Cons.IH [OF wf] om_find_assign [OF Cons.prems]
    by (cases "re_address e = addr") (auto simp: append_point_def Let_def)
qed simp

definition family_ok :: "hunted_result list \<Rightarrow> string \<Rightarrow> family_build \<Rightarrow> bool" where
  "family_ok rs suite f \<longleftrightarrow> fb_entries f = members rs suite \<and> om_wf (fb_events f)
     \<and> (\<forall>a. om_find (fb_events f) a = (if family_points rs suite a = [] then None else Some (family_points rs suite a)))"

definition grouped :: "hunted_result list \<Rightarrow> string list \<Rightarrow> family_build list \<times> (string, nat) omap \<Rightarrow> bool" where
  "grouped rs order state \<longleftrightarrow> om_wf (snd state) \<and> distinct order \<and> set order = hr_suite ` set rs
     \<and> length (fst state) = length order \<and> (\<forall>s. om_find (snd state) s = index_of (\<lambda>x. x = s) order)
     \<and> (\<forall>i < length order. family_ok rs (order ! i) (fst state ! i))"

lemma family_ok_blank: "suite \<notin> hr_suite ` set rs \<Longrightarrow> family_ok rs suite \<lparr>fb_entries = [], fb_events = []\<rparr>"
  by (auto simp: family_ok_def members_def family_points_def filter_empty_conv empty_filter_conv)

lemma family_ok_other:
  assumes "family_ok rs suite f" and "hr_suite r \<noteq> suite \<or> aggregateTime r = None"
  shows "family_ok (rs @ [r]) suite f"
proof -
  have "family_points (rs @ [r]) suite a = family_points rs suite a" for a
    using assms(2) by (auto simp: family_points_snoc entry_points_def)
  with assms show ?thesis by (auto simp: family_ok_def members_snoc)
qed

lemma family_ok_own:
  assumes ok: "family_ok rs (hr_suite r) f" and time: "aggregateTime r = Some t"
  shows "family_ok (rs @ [r]) (hr_suite r)
    \<lparr>fb_entries = fb_entries f @ [length rs], fb_events = fold (append_point t) (events_of r) (fb_events f)\<rparr>"
proof -
  have wf: "om_wf (fb_events f)" using ok by (simp add: family_ok_def)
  have points: "entry_points a r = map (\<lambda>e. (t, re_rate e)) (filter (\<lambda>e. re_address e = a) (events_of r))" for a
    using time by (simp add: entry_points_def)
  have "om_find (fold (append_point t) (events_of r) (fb_events f)) a =
      (if family_points (rs @ [r]) (hr_suite r) a = [] then None else Some (family_points (rs @ [r]) (hr_suite r) a))" for a
    using fold_append_points [OF wf, of t "events_of r" a] ok
    by (simp add: family_points_snoc points [symmetric] family_ok_def Let_def)
  with ok time fold_append_points [OF wf, of t "events_of r"] show ?thesis by (simp add: family_ok_def members_snoc)
qed

lemma group_step_grouped:
  assumes g: "grouped rs order (fams, idx)" and h: "hunted r"
  shows "\<exists>order1 state1. group_step r (length rs) (fams, idx) = Some state1 \<and> grouped (rs @ [r]) order1 state1"
proof -
  let ?s = "hr_suite r"
  let ?slot = "case om_find idx ?s of None \<Rightarrow> length fams | Some i \<Rightarrow> i"
  let ?fams = "if om_find idx ?s = None then fams @ [\<lparr>fb_entries = [], fb_events = []\<rparr>] else fams"
  let ?idx = "om_emplace ?s (length fams) idx"
  let ?order = "if ?s \<in> set order then order else order @ [?s]"
  from g have idx: "om_wf idx" "\<And>s. om_find idx s = index_of (\<lambda>x. x = s) order" and d: "distinct order"
    and suites: "set order = hr_suite ` set rs" and len: "length fams = length order"
    and ok: "\<And>i. i < length order \<Longrightarrow> family_ok rs (order ! i) (fams ! i)" by (simp_all add: grouped_def)
  have known: "om_find idx ?s = None \<longleftrightarrow> ?s \<notin> set order" by (auto simp: idx(2) index_of_None)
  have slot: "?slot < length ?order \<and> ?order ! ?slot = ?s"
  proof (cases "om_find idx ?s")
    case None
    with known len show ?thesis by simp
  next
    case (Some i)
    with index_of_Some [of "\<lambda>x. x = ?s" order i] known idx(2) show ?thesis by simp
  qed
  have d1: "distinct ?order" and s1: "set ?order = hr_suite ` set (rs @ [r])" and len1: "length ?fams = length ?order"
    using d suites len known by auto
  have idx1: "om_find ?idx s = index_of (\<lambda>x. x = s) ?order" for s
  proof (cases "?s \<in> set order")
    case True
    then obtain i where "om_find idx ?s = Some i" using known by auto
    with True show ?thesis by (auto simp: om_find_emplace [OF idx(1)] idx(2))
  next
    case False
    with known have "om_find idx ?s = None" by simp
    with False len index_of_fresh [OF False] show ?thesis
      by (auto simp: om_find_emplace [OF idx(1)] idx(2) [symmetric] index_of_append split: option.split)
  qed
  have ok1: "family_ok rs (?order ! i) (?fams ! i)" if "i < length ?order" for i
  proof (cases "?s \<in> set order")
    case True
    with known have "om_find idx ?s \<noteq> None" by blast
    then have "?fams = fams" by (rule if_not_P)
    with ok that True show ?thesis by simp
  next
    case False
    with ok that known len suites family_ok_blank [of ?s rs] show ?thesis by (auto simp: nth_append less_Suc_eq)
  qed
  have base: "om_wf ?idx" by (rule om_wf_emplace [OF idx(1)])
  obtain hunt where hunt: "hr_hunt r = Some hunt" "events_of r = eh_entries hunt" using hunted_entries [OF h] by blast
  show ?thesis
  proof (cases "aggregateTime r")
    case None
    then have "group_step r (length rs) (fams, idx) = Some (?fams, ?idx)"
      by (simp add: group_step_def hunt familyKey_def Let_def)
    moreover have "grouped (rs @ [r]) ?order (?fams, ?idx)"
      using base d1 s1 len1 idx1 ok1 family_ok_other [where r = r] None unfolding grouped_def fst_conv snd_conv by blast
    ultimately show ?thesis by blast
  next
    case (Some t)
    let ?new = "\<lparr>fb_entries = fb_entries (?fams ! ?slot) @ [length rs],
      fb_events = fold (append_point t) (eh_entries hunt) (fb_events (?fams ! ?slot))\<rparr>"
    have step: "group_step r (length rs) (fams, idx) = Some (?fams[?slot := ?new], ?idx)"
      by (simp only: group_step_def hunt familyKey_def Let_def Some fst_conv snd_conv option.case)
    have own: "family_ok (rs @ [r]) ?s ?new"
      using family_ok_own [OF _ Some, of rs "?fams ! ?slot"] ok1 [of ?slot] slot hunt(2) by simp
    have "family_ok (rs @ [r]) (?order ! i) (?fams[?slot := ?new] ! i)" if i: "i < length ?order" for i
    proof (cases "i = ?slot")
      case True
      with own slot len1 i show ?thesis by (metis nth_list_update_eq)
    next
      case False
      then have "?order ! i \<noteq> ?s" using d1 slot i nth_eq_iff_index_eq [of ?order i ?slot] by metis
      with False family_ok_other [OF ok1 [OF i], of r] show ?thesis by (metis nth_list_update_neq)
    qed
    then have "grouped (rs @ [r]) ?order (?fams[?slot := ?new], ?idx)"
      using base d1 s1 len1 idx1 unfolding grouped_def fst_conv snd_conv by (metis length_list_update)
    with step show ?thesis by blast
  qed
qed

lemma group_loop_grouped:
  "grouped done1 order state \<Longrightarrow> \<forall>r \<in> set rs. hunted r \<Longrightarrow>
   \<exists>order1 state1. group_loop rs (length done1) state = Some state1 \<and> grouped (done1 @ rs) order1 state1"
proof (induction rs arbitrary: done1 order state)
  case Nil
  then show ?case by auto
next
  case (Cons r rs)
  obtain fams idx where state: "state = (fams, idx)" by force
  from Cons.prems group_step_grouped [of done1 order fams idx r] obtain order1 state1
    where step: "group_step r (length done1) state = Some state1" and g: "grouped (done1 @ [r]) order1 state1"
    by (auto simp: state)
  from Cons.IH [OF g] Cons.prems(2) step show ?case by simp
qed

lemma groupEntries_grouped:
  assumes "\<forall>r \<in> set rs. hunted r"
  shows "\<exists>order fams idx. groupEntries rs = Some fams \<and> grouped rs order (fams, idx)"
proof -
  have "grouped [] [] ([], [])" by (simp add: grouped_def)
  from group_loop_grouped [OF this assms] obtain order state
    where "group_loop rs 0 ([], []) = Some state" "grouped rs order state" by auto
  then show ?thesis by (cases state) (auto simp: groupEntries_def)
qed

subsection \<open>The sensitivity of a run\<close>

lemma own_points:
  assumes "r \<in> set rs" and "e \<in> set (events_of r)" and "aggregateTime r \<noteq> None"
  shows "family_points rs (hr_suite r) (re_address e) \<noteq> []"
proof -
  from assms have "entry_points (re_address e) r \<noteq> []" by (auto simp: entry_points_def filter_empty_conv)
  with assms(1) show ?thesis by (auto simp: family_points_def)
qed

lemma point_source:
  assumes "family_points rs suite a \<noteq> []"
  shows "\<exists>r \<in> set rs. hr_suite r = suite \<and> aggregateTime r \<noteq> None \<and> (\<exists>e \<in> set (events_of r). re_address e = a)"
  using assms by (auto simp: family_points_def entry_points_def filter_empty_conv split: option.splits)


subsection \<open>The order of the ranks\<close>

text \<open>A comparator that decides by one order and breaks its ties by a second.\<close>

lemma lexical_order:
  assumes first: "weak_order ok lt1" and second: "weak_order ok lt2"
  shows "weak_order ok (\<lambda>x y. if lt1 x y then True else if lt1 y x then False else lt2 x y)"
proof (rule weak_order.intro)
  fix a b
  assume "ok a" "ok b" "if lt1 a b then True else if lt1 b a then False else lt2 a b"
  then show "\<not> (if lt1 b a then True else if lt1 a b then False else lt2 b a)"
    using weak_order.asym [OF first, of a b] weak_order.asym [OF second, of a b] by (auto split: if_splits)
next
  fix a b c
  assume ok: "ok a" "ok b" "ok c" and ab: "\<not> (if lt1 a b then True else if lt1 b a then False else lt2 a b)"
    and bc: "\<not> (if lt1 b c then True else if lt1 c b then False else lt2 b c)"
  note t1 = weak_order.neg_trans [OF first] and t2 = weak_order.neg_trans [OF second]
  from ab bc have n: "\<not> lt1 a b" "\<not> lt1 b c" by (auto split: if_splits)
  have "\<not> lt1 a c" using t1 [OF ok n] .
  moreover have "\<not> lt2 a c" if "\<not> lt1 c a"
  proof -
    have "\<not> lt1 b a" using t1 [OF ok(2,3,1) n(2) that] .
    moreover have "\<not> lt1 c b" using t1 [OF ok(3,1,2) that n(1)] .
    ultimately show ?thesis using ab bc n t2 [OF ok] by (auto split: if_splits)
  qed
  ultimately show "\<not> (if lt1 a c then True else if lt1 c a then False else lt2 a c)" by auto
qed

lemma descending_order: "(\<And>x. ok x \<Longrightarrow> k x \<noteq> NaN) \<Longrightarrow> weak_order ok (\<lambda>x y. dless (k y) (k x))"
  by (rule weak_order.intro) (use by_value.asym by_value.neg_trans in blast)+

lemma address_order: "weak_order ok (\<lambda>x y. cd_address x < cd_address y)"
  by (rule weak_order.intro) auto

lemma dabs_number: "d \<noteq> NaN \<Longrightarrow> dabs d \<noteq> NaN"
  by (cases d) simp_all

interpretation by_candidate: weak_order "numeric b" "candidate_before b" for b
proof (cases b)
  case True
  have "weak_order (numeric b) (\<lambda>x y. if dless (cd_correlation y) (cd_correlation x) then True
      else if dless (cd_correlation x) (cd_correlation y) then False
      else (if dless (cd_slope y) (cd_slope x) then True else if dless (cd_slope x) (cd_slope y) then False
        else cd_address x < cd_address y))"
    by (intro lexical_order descending_order address_order) (simp_all add: numeric_def True)
  then show "weak_order (numeric b) (candidate_before b)" by (simp add: candidate_before_def [abs_def] True)
next
  case False
  have "weak_order (numeric b) (\<lambda>x y. if dless (dabs (cd_delta y)) (dabs (cd_delta x)) then True
      else if dless (dabs (cd_delta x)) (dabs (cd_delta y)) then False else cd_address x < cd_address y)"
    by (intro lexical_order descending_order address_order) (simp add: numeric_def False dabs_number)
  then show "weak_order (numeric b) (candidate_before b)" by (simp add: candidate_before_def [abs_def] False)
qed

lemma candidate_before_total:
  "cd_address x \<noteq> cd_address y \<Longrightarrow> candidate_before b x y \<or> candidate_before b y x"
  by (auto simp: candidate_before_def)

text \<open>The first event of each address.\<close>

function firsts :: "ranked_event list \<Rightarrow> ranked_event list" where
  "firsts [] = []"
| "firsts (e # es) = e # firsts (filter (\<lambda>x. re_address x \<noteq> re_address e) es)"
  by pat_completeness auto
termination by (relation "measure length") (simp_all add: less_Suc_eq_le)

lemma firsts_addresses: "re_address ` set (firsts es) = re_address ` set es"
  by (induction es rule: firsts.induct) auto

lemma firsts_subset: "set (firsts es) \<subseteq> set es"
  by (induction es rule: firsts.induct) auto

lemma firsts_distinct: "distinct (map re_address (firsts es))"
proof (induction es rule: firsts.induct)
  case (2 e es)
  have "re_address e \<notin> re_address ` set (firsts (filter (\<lambda>x. re_address x \<noteq> re_address e) es))"
    unfolding firsts_addresses by auto
  with 2 show ?case by simp
qed simp

lemma firsts_first: "e \<in> set (firsts es) \<Longrightarrow> List.find (\<lambda>x. re_address x = re_address e) es = Some e"
proof (induction es rule: firsts.induct)
  case (2 e1 es)
  have skip: "List.find (\<lambda>x. re_address x = a) (filter (\<lambda>x. re_address x \<noteq> b) xs) = List.find (\<lambda>x. re_address x = a) xs"
    if "a \<noteq> b" for a b xs using that by (induction xs) auto
  show ?case
  proof (cases "e = e1")
    case False
    with 2 have "e \<in> set (firsts (filter (\<lambda>x. re_address x \<noteq> re_address e1) es))" by simp
    with 2 firsts_subset skip [of "re_address e" "re_address e1" es] show ?thesis by fastforce
  qed simp
qed simp

definition ranks_by :: "bool \<Rightarrow> ranked_event \<Rightarrow> bool" where
  "ranks_by b e \<longleftrightarrow> \<not> re_noisy e \<and> carries_figure b e"

definition run_events :: "hunted_result list \<Rightarrow> ranked_event list" where
  "run_events rs = concat (map events_of rs)"

lemma candidate_address [simp]: "cd_address (candidate_of e) = re_address e"
  by (simp add: candidate_of_def)

lemma collect_events:
  assumes "om_wf idx" and "\<forall>a. om_contains idx a \<longleftrightarrow> a \<in> cd_address ` set cs"
    and "\<forall>e \<in> set es. ranks_by b e \<and> b \<longrightarrow> re_sensitivitySlope e \<noteq> None"
  shows "\<exists>idx1. fold_checked (collect_event b) es (cs, idx)
    = Some (cs @ map candidate_of (firsts (filter (\<lambda>e. ranks_by b e \<and> re_address e \<notin> cd_address ` set cs) es)), idx1)"
  using assms
proof (induction es arbitrary: cs idx)
  case (Cons e es)
  show ?case
  proof (cases "ranks_by b e \<and> re_address e \<notin> cd_address ` set cs")
    case False
    with Cons.prems have "collect_event b e (cs, idx) = Some (cs, idx)" by (auto simp: collect_event_def ranks_by_def)
    with Cons.IH [OF Cons.prems(1,2)] Cons.prems(3) False show ?thesis by auto
  next
    case True
    let ?cs = "cs @ [candidate_of e]" and ?idx = "om_emplace (re_address e) (length cs) idx"
    from True Cons.prems have step: "collect_event b e (cs, idx) = Some (?cs, ?idx)"
      by (auto simp: collect_event_def ranks_by_def)
    have wf: "om_wf ?idx" and dom: "\<forall>a. om_contains ?idx a \<longleftrightarrow> a \<in> cd_address ` set ?cs"
      using Cons.prems(1,2) by (auto simp: om_wf_emplace om_contains_def om_find_emplace)
    from Cons.IH [OF wf dom] Cons.prems(3) obtain idx1 where "fold_checked (collect_event b) es (?cs, ?idx)
      = Some (?cs @ map candidate_of (firsts (filter (\<lambda>e. ranks_by b e \<and> re_address e \<notin> cd_address ` set ?cs) es)), idx1)" by auto
    moreover have "filter (\<lambda>x. re_address x \<noteq> re_address e) (filter (\<lambda>x. ranks_by b x \<and> re_address x \<notin> cd_address ` set cs) es)
        = filter (\<lambda>x. ranks_by b x \<and> re_address x \<notin> cd_address ` set ?cs) es" by (simp add: conj_ac cong: conj_cong)
    ultimately show ?thesis using step True by simp
  qed
qed simp

lemma collect_result_hunted:
  "hunted r \<Longrightarrow> collect_result b r state = fold_checked (collect_event b) (events_of r) state"
  by (auto simp: collect_result_def hunted_def events_of_def)

lemma collect_results:
  "\<forall>r \<in> set rs. hunted r \<Longrightarrow> fold_checked (collect_result b) rs state = fold_checked (collect_event b) (run_events rs) state"
proof (induction rs arbitrary: state)
  case (Cons r rs)
  then have "fold_checked (collect_result b) rs = fold_checked (collect_event b) (run_events rs)" by auto
  with Cons.prems show ?case by (simp add: run_events_def collect_result_hunted fold_checked_append)
qed (simp add: run_events_def)

lemma rank_map_prefix:
  assumes "distinct (map cd_address cs)" and "n \<le> length cs"
  shows "om_wf (fold (\<lambda>i m. om_emplace (cd_address (cs ! i)) (i + 1) m) [0..<n] [])
    \<and> om_find (fold (\<lambda>i m. om_emplace (cd_address (cs ! i)) (i + 1) m) [0..<n] []) a
      = map_option Suc (index_of (\<lambda>c. cd_address c = a) (take n cs))"
  using assms(2)
proof (induction n)
  case (Suc n)
  let ?m = "fold (\<lambda>i m. om_emplace (cd_address (cs ! i)) (i + 1) m) [0..<n] []"
  from Suc have wf: "om_wf ?m" and find: "om_find ?m a = map_option Suc (index_of (\<lambda>c. cd_address c = a) (take n cs))" by simp_all
  have fresh: "index_of (\<lambda>c. cd_address c = a) (take n cs) = None" if "cd_address (cs ! n) = a"
  proof -
    have "cd_address (cs ! i) \<noteq> a" if "i < n" for i
      using assms(1) Suc.prems that \<open>cd_address (cs ! n) = a\<close> nth_eq_iff_index_eq [of "map cd_address cs" i n] by auto
    then have "\<forall>c \<in> set (take n cs). cd_address c \<noteq> a" using Suc.prems by (metis in_set_conv_nth length_take min.absorb4 nth_take Suc_le_lessD)
    then show ?thesis by (simp add: index_of_None)
  qed
  have "take (Suc n) cs = take n cs @ [cs ! n]" using Suc.prems by (simp add: take_Suc_conv_app_nth)
  with Suc.prems wf find fresh show ?case
    by (auto simp: om_wf_emplace om_find_emplace index_of_append split: option.split)
qed simp

text \<open>
  C20. The ranks under a batch key.  The clean events that carry the key's figure are ranked one per address, each by the
  figure of the first record of its address, in the strict order of the key; a record that is not noisy gets the position
  of its address, counted from one, and every other record no rank.  Nothing else changes.
\<close>

theorem batch_ranks_follow_the_figures:
  assumes key: "key = SENSITIVITY \<or> key = DELTA" and hunts: "\<forall>r \<in> set rs. hunted r"
    and slopes: "\<forall>e \<in> set (run_events rs). ranks_by (key = SENSITIVITY) e \<and> key = SENSITIVITY \<longrightarrow> re_sensitivitySlope e \<noteq> None"
    and numbers: "\<forall>e \<in> set (run_events rs). ranks_by (key = SENSITIVITY) e \<longrightarrow> numeric (key = SENSITIVITY) (candidate_of e)"
  shows "\<exists>order. distinct (map re_address order)
    \<and> re_address ` set order = re_address ` {e \<in> set (run_events rs). ranks_by (key = SENSITIVITY) e}
    \<and> (\<forall>e \<in> set order. List.find (\<lambda>x. re_address x = re_address e) (filter (ranks_by (key = SENSITIVITY)) (run_events rs)) = Some e)
    \<and> sorted_wrt (\<lambda>x y. candidate_before (key = SENSITIVITY) (candidate_of x) (candidate_of y)) order
    \<and> stampRank rs key = Some (map (map_events (\<lambda>e. e\<lparr>re_rank :=
        if re_noisy e then None else map_option Suc (index_of (\<lambda>x. re_address x = re_address e) order)\<rparr>)) rs)"
proof -
  let ?b = "key = SENSITIVITY"
  let ?clean = "filter (ranks_by ?b) (run_events rs)"
  let ?lt = "\<lambda>x y. candidate_before ?b (candidate_of x) (candidate_of y)"
  define order where "order = sort_by ?lt (firsts ?clean)"
  have sorted: "map candidate_of order = sort_by (candidate_before ?b) (map candidate_of (firsts ?clean))"
    unfolding order_def by (rule map_sort_by)
  obtain idx1 where collected: "fold_checked (collect_result ?b) rs ([], []) = Some (map candidate_of (firsts ?clean), idx1)"
    using collect_events [of "[]" "[]" "run_events rs" ?b] slopes by (auto simp: collect_results [OF hunts] om_contains_def)
  have numeric: "\<forall>c \<in> set (map candidate_of (firsts ?clean)). numeric ?b c"
    using firsts_subset [of ?clean] numbers by auto
  have members: "set order = set (firsts ?clean)" by (simp add: order_def)
  have distinct: "distinct (map re_address order)"
  proof -
    have "mset (map re_address order) = mset (map re_address (firsts ?clean))" by (simp add: order_def)
    then show ?thesis using firsts_distinct [of ?clean] by (metis mset_eq_imp_distinct_iff)
  qed
  have "in_order (candidate_before ?b) (map candidate_of order)"
    unfolding sorted by (rule by_candidate.in_order_sort_by [OF numeric])
  then have "?lt (order ! i) (order ! j)" if "i < j" "j < length order" for i j
    using that nth_eq_iff_index_eq [OF distinct, of i j] candidate_before_total [of "candidate_of (order ! i)" "candidate_of (order ! j)" ?b]
    by (auto simp: in_order_def sorted_wrt_iff_nth_less)
  then have "sorted_wrt ?lt order" by (simp add: sorted_wrt_iff_nth_less)
  moreover have "om_find (rank_map (map candidate_of order)) a = map_option Suc (index_of (\<lambda>x. re_address x = a) order)" for a
    using rank_map_prefix [of "map candidate_of order" "length order" a] distinct
    by (simp add: rank_map_def comp_def index_of_map)
  then have "rank_event (rank_map (map candidate_of order)) = (\<lambda>e. e\<lparr>re_rank :=
      if re_noisy e then None else map_option Suc (index_of (\<lambda>x. re_address x = re_address e) order)\<rparr>)"
    by (simp add: fun_eq_iff rank_event_def)
  then have "stampRank rs key = Some (map (map_events (\<lambda>e. e\<lparr>re_rank :=
      if re_noisy e then None else map_option Suc (index_of (\<lambda>x. re_address x = re_address e) order)\<rparr>)) rs)"
    using key collected numeric by (auto simp: stampRank_def sorted [symmetric] list_all_iff)
  moreover have "re_address ` set order = re_address ` {e \<in> set (run_events rs). ranks_by ?b e}"
    unfolding members firsts_addresses by auto
  moreover have "\<forall>e \<in> set order. List.find (\<lambda>x. re_address x = re_address e) ?clean = Some e"
    unfolding members using firsts_first by blast
  ultimately show ?thesis using distinct by blast
qed

subsection \<open>Samples\<close>

definition stamped_row :: "binary64 \<Rightarrow> report_row" where
  "stamped_row t = \<lparr>rr_timePerIterationNs = t, rr_cpuTimePerIterationNs = zero64, rr_metrics = [], rr_counters = [],
     rr_percentiles = [], rr_copied = \<lparr>rw_kind = K_REPETITION, rw_timeAvailability = COUNTABLE, rw_timeStats =
       \<lparr>st_samples = 0, st_mean = zero64, st_median = zero64, st_sampleStdDev = zero64, st_coefficientOfVariation = zero64,
        st_min = zero64, st_max = zero64\<rparr>, rw_metricStats = []\<rparr>\<rparr>"

definition stamped_entry :: "string \<Rightarrow> binary64 \<Rightarrow> ranked_event list \<Rightarrow> hunted_result" where
  "stamped_entry name t events = \<lparr>hr_name = name, hr_suite = ''sort'', hr_rows = [stamped_row t],
     hr_hunt = Some \<lparr>eh_method = None, eh_passCount = 1, eh_top = 1, eh_entries = events, eh_skipped = [], eh_retriedPasses = 0\<rparr>\<rparr>"

definition stamped_event :: "string \<Rightarrow> binary64 option \<Rightarrow> ranked_event" where
  "stamped_event a d = (unranked a 3 False)\<lparr>re_rate := one64, re_delta := d\<rparr>"

definition stamped_run :: "hunted_result list" where
  "stamped_run = [stamped_entry ''sort/8'' one64 [stamped_event ''cycles'' (Some one64), stamped_event ''stalls'' None],
     stamped_entry ''sort/16'' two64 [stamped_event ''misses'' (Some two64), stamped_event ''cycles'' (Some two64)]]"

lemma stamped_events: "run_events stamped_run = [stamped_event ''cycles'' (Some one64), stamped_event ''stalls'' None,
    stamped_event ''misses'' (Some two64), stamped_event ''cycles'' (Some two64)]"
  by (simp add: run_events_def stamped_run_def stamped_entry_def events_of_def)

lemma stamped_hunted: "\<forall>r \<in> set stamped_run. hunted r"
  by (simp add: stamped_run_def stamped_entry_def hunted_def)

lemma stamped_fields: "re_address (stamped_event a d) = a" "re_noisy (stamped_event a d) = False"
  "re_delta (stamped_event a d) = d" "re_rate (stamped_event a d) = one64"
  by (simp_all add: stamped_event_def unranked_def)

lemma stamped_numbers: "one64 \<noteq> NaN" "two64 \<noteq> NaN"
  using two64_value(1) by (auto simp: one64_value)

theorem batch_ranks_follow_the_figures_witness:
  "\<exists>order :: ranked_event list. distinct (map re_address order) \<and> re_address ` set order = {''cycles'', ''misses''}
    \<and> stampRank stamped_run DELTA = Some (map (map_events (\<lambda>e. e\<lparr>re_rank :=
        if re_noisy e then None else map_option Suc (index_of (\<lambda>x. re_address x = re_address e) order)\<rparr>)) stamped_run)"
proof -
  have clean: "re_address ` {e \<in> set (run_events stamped_run). ranks_by False e} = {''cycles'', ''misses''}"
  proof -
    have listed: "re_address ` {e \<in> set xs. P e} = set (map re_address (filter P xs))" for P and xs :: "ranked_event list" by auto
    show ?thesis unfolding listed by (auto simp: stamped_events ranks_by_def carries_figure_def stamped_fields)
  qed
  have batch: "(DELTA = SENSITIVITY) = False" by simp
  have numbers: "\<forall>e \<in> set (run_events stamped_run). ranks_by (DELTA = SENSITIVITY) e \<longrightarrow> numeric (DELTA = SENSITIVITY) (candidate_of e)"
    by (simp add: stamped_events numeric_def candidate_of_def stamped_fields or_zero_def stamped_numbers ranks_by_def carries_figure_def)
  have slopes: "\<forall>e \<in> set (run_events stamped_run). ranks_by (DELTA = SENSITIVITY) e \<and> DELTA = SENSITIVITY \<longrightarrow> re_sensitivitySlope e \<noteq> None"
    by simp
  from batch_ranks_follow_the_figures [OF disjI2 [OF refl] stamped_hunted slopes numbers] show ?thesis
    unfolding batch clean by blast
qed

lemma stamped_time: "aggregateTime (stamped_entry name t es) = Some t"
  by (simp add: aggregateTime_def stamped_entry_def stamped_row_def)

lemma stamped_points: "family_points stamped_run ''sort'' a =
    (if a = ''cycles'' then [(one64, one64), (two64, one64)] else if a = ''stalls'' then [(one64, one64)]
     else if a = ''misses'' then [(two64, one64)] else [])"
proof -
  have suite: "hr_suite (stamped_entry name t es) = ''sort''" and events: "events_of (stamped_entry name t es) = es" for name t es
    by (simp_all add: stamped_entry_def events_of_def)
  show ?thesis by (simp add: family_points_def stamped_run_def entry_points_def stamped_time suite events stamped_fields)
qed

lemma small_answers: "length ps < 2 \<Longrightarrow> answers ps"
  by (simp add: answers_def spearmanCorrelation_def leastSquaresSlope_def)

lemma stamped_answers: "answers [(one64, one64), (two64, one64)]"
proof -
  have "represents one64 1" "represents zero64 0" by (simp_all add: one64_value zero64_def signed_sig_def)
  moreover have "represents two64 2" using round64_exact [of 1 2 2 False] by (simp add: two64_def of_nat64_def)
  ultimately have "represents (dadd (dadd zero64 (dmul one64 one64)) (dmul two64 two64)) (0 + 1 * 1 + 2 * 2)"
    by (intro dadd_exact dmul_exact) simp_all
  then have "represents (dadd (dadd zero64 (dmul one64 one64)) (dmul two64 two64)) 5" by simp
  moreover from this have "is_finite (dadd (dadd zero64 (dmul one64 one64)) (dmul two64 two64))" by (rule represents_value)
  ultimately have "\<not> dless (dadd (dadd zero64 (dmul one64 one64)) (dmul two64 two64)) zero64"
    "dadd (dadd zero64 (dmul one64 one64)) (dmul two64 two64) \<noteq> NaN"
    using dless_exact [OF _ \<open>represents zero64 0\<close>] by auto
  then show ?thesis by (simp add: answers_def spearmanCorrelation_def leastSquaresSlope_def leastSquaresSums_def)
qed


end
