(* ===== verification/Spec2Isabelle.thy ===== *)
theory Spec2Isabelle
  imports Prelude Ordered_Map Binary64 Vocabulary Suggest Spine Tree Sink Push Fake Clock Windows Plan Recorder Fold Encode
    Formula Formula_Facts Resolve Resolve_Facts Metrics
    Ordering Doubles Calibrate Counter_Limits Passes Statistics Selection Selection_Facts Hunt Hunt_Facts Hunt_Rank
    Compare_Rule Rule_Facts Compare Compare_Facts Topdown Topdown_Facts Table_Parse Table_Facts Hunt_Stamp Hunt_Stamp_Facts
begin

text \<open>
  A model of the counters library of speedgun-ng, and of the parts of its benchmark harness that plan, measure and
  rank counters, with the theorems that make them correct.

  The library names every hardware counter, software clock and pushed value of a machine in one tree,
  lets a program compose the leaves of that tree into expressions, compiles expressions into a sampling
  plan, records samples, and folds two samples of a recording into the value of an expression.  On Linux it
  also reads the event tables of the processor: the config words of an event, and the metric formulas that
  compose events into named metrics.

  \<^bold>\<open>Parts and theories.\<close>  Paths are under \<open>src/source/counters\<close> unless they name \<open>include\<close>.

  \<^item> \<open>Prelude\<close>, \<open>Ordered_Map\<close>, \<open>Binary64\<close>: what the code takes from the C++ library.  Positions and slices
    of strings, decimal text and the character classes of the C locale; \<open>std::map\<close> as the ordered list of
    its entries, behind the locale \<open>table\<close> that its two writes interpret; IEEE double arithmetic with
    round to nearest even, computed exactly, with the theorems that say when it is exact.
  \<^item> \<open>Vocabulary\<close> (\<open>include/speedgun-ng/counters_core.hpp\<close>): units, dimensions, availability, read modes.
  \<^item> \<open>Suggest\<close> (\<open>detail/core.hpp\<close>): the capped edit distance and the near-miss list of every lookup error.
    The distance is proved equal to the least number of edits, up to its cap.
  \<^item> \<open>Spine\<close> (\<open>include/speedgun-ng/counters_measurement.hpp\<close>): leaves, nodes, \<open>splice\<close> and the operators of
    \<open>Expression\<close>.  An operator evaluates to the operation on its operands and keeps the spine well formed.
  \<^item> \<open>Tree\<close> (\<open>system.cpp\<close>): registration of providers, the object tree, aliases, selection, walks and the
    catalog.  \<open>reachable_tree\<close> are the trees registration makes, \<open>tree_wf\<close> the invariant it keeps; a batch is
    published whole or not at all.
  \<^item> \<open>Sink\<close> (\<open>include/speedgun-ng/counters_provider.hpp\<close>): the write cursor of one sampling action, its locale
    of a window reader and what a sampled row holds.
  \<^item> \<open>Push\<close>, \<open>Fake\<close>, \<open>Clock\<close> (\<open>push_provider.cpp\<close>, \<open>fake_provider.cpp\<close>, \<open>clock_provider.cpp\<close>): the three
    portable providers, each with its state, its enumeration, its windows and its reads; \<open>Windows\<close> joins
    their windows into one reader and interprets the reader locale on it.
  \<^item> \<open>Plan\<close> (\<open>plan.cpp\<close>): compilation of expressions into slots, groups and windows, the availability gate,
    the ratio links, the fan-out.  A compiled plan tiles its slots and numbers them one to one.
  \<^item> \<open>Recorder\<close> (\<open>plan.cpp\<close>): sampling, the hard-stop and the ring recorder, scopes.  The specification of a
    recorder is the history of its samples; the recorders refine it.
  \<^item> \<open>Fold\<close> (\<open>fold.cpp\<close>): gap state, multiplex ratio, the value of an expression over a window, pair folds, the
    raw view.  A fold over a recording is the expression over the advances of its leaves.
  \<^item> \<open>Encode\<close> (\<open>linux_pmu/encode.cpp\<close>): the sysfs format parser and the composition of config words.
  \<^item> \<open>Formula\<close>, \<open>Formula_Facts\<close> (\<open>linux_pmu/metric_formula.cpp\<close>, first half): the scanner and the
    recursive-descent parser of metric formulas, and a grammar that the parser is proved to read.
  \<^item> \<open>Resolve\<close>, \<open>Resolve_Facts\<close>, \<open>Metrics\<close> (\<open>metric_formula.cpp\<close>, second half, \<open>metric_tables.hpp\<close>, and the scope
    rule of \<open>provider.cpp\<close>): the resolution of the metric rows of a table against a host.  \<open>formula_means\<close> and
    \<open>row_means\<close> are the specification, the meaning of a formula on a host; the spine of every published row
    evaluates to it.
  \<^item> \<open>Table_Parse\<close>, \<open>Table_Facts\<close> (\<open>linux_pmu/table_parse.cpp\<close>, \<open>pmu_ident.hpp\<close>, \<open>embedded_tables.hpp\<close>): the
    identity of a cpu, the directory the mapping file selects for it, and the rows of that directory's JSON files.
    \<open>cached_call\<close> is the interface of the two caches; a row that composes keeps its register filter.
  \<^item> \<open>Topdown\<close>, \<open>Topdown_Facts\<close> (\<open>linux_pmu/topdown_select.cpp\<close>): the tree of top-down metrics of a cpu.
    \<open>rooted\<close> is the specification; the walk builds exactly the nodes of the rooted rows, and the contract of
    the call holds when each stands one level below its parent.

  The harness and the counter limits, with paths under \<open>src/source/harness\<close> unless they name another:

  \<^item> \<open>Ordering\<close>, \<open>Doubles\<close>: \<open>std::sort\<close> as a stable sort under a weak order (the locale \<open>weak_order\<close>,
    interpreted by double values, rank order and address order); the real value of a double, rounding between
    two doubles, square root and ceiling.
  \<^item> \<open>Calibrate\<close> (\<open>counters/plan.cpp\<close>): the overhead figures of a plan over a clock that never runs back.
  \<^item> \<open>Counter_Limits\<close> (\<open>counters/linux_pmu/counter_limits.cpp\<close>, \<open>group_probe.cpp\<close>, \<open>limit_fill.cpp\<close>,
    \<open>counters/limit_source.cpp\<close>): how many events a device counts at once, decoded from CPUID words or searched
    with the kernel, and the record of the finder.  CPUID and the kernel are arguments.
  \<^item> \<open>Passes\<close> (\<open>pass_plan.cpp\<close>): the first-fit plan of passes within the counter limits and the merge of the
    passes' results.  \<open>need\<close> and \<open>in_limits\<close> are the specification.
  \<^item> \<open>Statistics\<close> (\<open>statistics.cpp\<close>, \<open>percentiles.cpp\<close>): summaries, rank correlation, slope, percentiles.
  \<^item> \<open>Selection\<close>, \<open>Selection_Facts\<close> (\<open>hunt_selection.cpp\<close>, \<open>detail/hunt_selection.hpp\<close>, the catalog of
    \<open>hunt.cpp\<close>): selection texts, the glob matcher against \<open>glob_spec\<close>, the walk of the catalog, the split.
  \<^item> \<open>Hunt\<close>, \<open>Hunt_Facts\<close>, \<open>Hunt_Rank\<close> (\<open>hunt_plan.cpp\<close>): the plan of a hunt and its rank table, against the
    reference \<open>rank_table\<close>.
  \<^item> \<open>Hunt_Stamp\<close>, \<open>Hunt_Stamp_Facts\<close> (\<open>hunt_ranks.cpp\<close>): what a batch stamps on its ranked events: the
    sensitivity of an event over the entries of its suite, the delta to a baseline, the ranks under those keys.
  \<^item> \<open>Compare_Rule\<close>, \<open>Rule_Facts\<close> (\<open>compare.cpp\<close>, first half, and \<open>toCompareRules\<close> of \<open>hunt_plan.cpp\<close>): the
    grammar of a comparison rule, read back from its spelled parts, and the rules a hunt hands on.
  \<^item> \<open>Compare\<close>, \<open>Compare_Facts\<close> (\<open>compare.cpp\<close>, second half): the values a rule names in a report, the verdict of a
    pair of values, the noise guard, the pairing of two reports, the walk, the entries, the verdict and the exit of
    the compare mode.  The verdict agrees with the values as reals, because a difference of doubles never rounds
    to zero; the regex library, the \<open>%g\<close> form, the loader and the writer are arguments.

  The pieces meet as in the code: a provider fills the tree with seeds (\<open>Tree\<close>), a leaf of the tree or a
  metric of the table becomes a spine (\<open>Spine\<close>, \<open>Resolve\<close>), spines are compiled against the tree (\<open>Plan\<close>),
  the plan reads its windows through a sink into a row (\<open>Sink\<close>, \<open>Recorder\<close>), and a fold reads two rows
  (\<open>Fold\<close>).  \<open>recorded_fold_is_the_advance\<close> states the whole path from compilation to fold and
  \<open>named_metric_is_its_formula\<close> the path from the text of a formula to the value of its spine.

  \<^bold>\<open>How code becomes definitions.\<close>  A class or struct is a record and an enum a datatype.  An operation takes the
  state and returns the new one.  \<open>std::expected\<close> is a sum with the error on the left, with the messages of the
  code.  \<open>'a checked\<close> is an option whose \<open>None\<close> is a violated contract (\<open>SG_REQUIRE\<close>, \<open>SG_ENSURE\<close>,
  \<open>SG_ASSERT\<close>), a read or write outside a vector, an escaping exception, or undefined behaviour.  Counter
  values are 64-bit words and wrap; \<open>size_t\<close> counts are \<open>nat\<close>; node and leaf indices are \<open>int\<close> with -1 for
  none; doubles are \<open>binary64\<close>.  Dimension exponents are unbounded integers.  The platform clocks, the loader
  of the embedded tables, the current thread and cpu, and the content of files are arguments of the
  definitions that use them.

  \<^bold>\<open>Fuel.\<close>  The parser gets eight units per token, because seven functions are entered between two tokens
  (\<open>parser_ok\<close>, \<open>formula_parse_returns\<close>).  The walk of a formula tree gets two per node, because children
  stand before their parents (\<open>walk_ok\<close>), and the resolution of a table one per row, because a row is under
  resolution once at a time (\<open>resolveRow_ok\<close>).  The evaluation of a spine gets one per node
  (\<open>eval_spine_total\<close>).  All other recursion is structural or has a measure.

  \<^bold>\<open>Groups of lemmas.\<close>  In \<open>Formula_Facts\<close> the \<open>_step\<close> lemmas prove each parser function from those it calls and
  \<open>parser_ok\<close> ties them; in \<open>Resolve_Facts\<close> \<open>walk_ok\<close>, \<open>publish_ok\<close>, \<open>resolveRow_ok\<close> and \<open>run_ok\<close> do the same for
  the resolver over the invariant \<open>resolution_ok\<close>.  \<open>Plan\<close> gives the layout in closed form (\<open>laid_out\<close>),
  \<open>Recorder\<close> the rows of a history, \<open>Fold\<close> the conditions under which a fold answers (\<open>fold_ready\<close>).

  \<^bold>\<open>Not modelled.\<close>  The Linux provider around the encoder (perf_event_open, group reads, the fast read
  instruction, probing) is system calls.  The runner, the probes of noise and jitter, the JSON reader and
  writer, the command line and the printed reports and tables drive or format what is modelled here and are input and
  output; the views, tools, examples and tests are outside this development.
\<close>

end
